(* ===== verification/Prelude.thy ===== *)
theory Prelude
  imports Main "HOL-Library.Sublist" "HOL-Library.Char_ord" "HOL-Library.List_Lexorder"
    "HOL-Library.Code_Target_Nat"
begin

text \<open>
  What every component shares: the result type of operations that may throw, the
  JavaScript string operations the sources use, and lemmas on lists and strings.

  A JavaScript string is a \<open>string\<close>, one character per UTF-16 code unit, for
  code units below 256. Case mapping follows JavaScript on that range for
  \<open>toLowerCase\<close>, and for \<open>toUpperCase\<close> except on the two characters whose
  upper case lies outside of it. A \<open>throw\<close> is the left side of a sum.
\<close>

section \<open>Collections of facts\<close>

named_theorems js_simps \<open>evaluation of JavaScript string operations\<close>
named_theorems wf_intros \<open>introduction rules for well-formedness predicates\<close>

section \<open>Errors as values\<close>

text \<open>The kinds of error the modelled sources throw.\<close>

datatype error =
    NulByte
  | DeviceNamespace
  | NotAbsolute
  | Unanchored
  | UnknownTier
  | UnknownDisposition
  | UnknownSeverity
  | UnknownPlatform
  | UnknownAccess
  | UnknownOrigin
  | UnknownResource
  | MalformedHash
  | MalformedWorkspaceId
  | MalformedScope
  | MalformedRuleId
  | BadLine
  | WeakRow string
  | DuplicateId string
  | InvalidPort
  | BadWildcard
  | BadHost
  | UnknownNetworkRule
  | EmptyProfileId
  | EmptyReason
  | UnsafeWorkspace string
  | UnknownProviderKey
  | BadLimits
  | FalseProtected
  | BadAuthority
  | BadBrokerRules
  | Unenforceable
  | PlanConflict
  | StalePlan
  | IoFailure
  | RollbackFailed
  | CorruptStore
  | TooMany
  | BadConcurrency
  | Unquotable
  | InvalidDate
  | Timeout
  | SpawnFailed
  | Unsupported
  | TypeErr
  | EntryTooLarge
  | ArchiveFull
  | CorruptArchive
  | PolicyNotBuilt
  | PartialScan
  | PolicyDiscovery
  | InvalidState
  | AccessDenied
  | ListingLimit
  | OutOfRange
  | BadRequest
  | BackendFailed string

type_synonym 'a res = "error + 'a"

definition rbind :: "'a res \<Rightarrow> ('a \<Rightarrow> 'b res) \<Rightarrow> 'b res" where
  "rbind r f = (case r of Inl e \<Rightarrow> Inl e | Inr x \<Rightarrow> f x)"

lemma rbind_simps [simp]:
  "rbind (Inl e) f = Inl e"
  "rbind (Inr x) f = f x"
  by (simp_all add: rbind_def)

lemma rbind_eq_Inr: "rbind r f = Inr y \<longleftrightarrow> (\<exists>x. r = Inr x \<and> f x = Inr y)"
  by (cases r) auto

lemma rbind_eq_InrE [elim!]:
  assumes "rbind r f = Inr y"
  obtains x where "r = Inr x" and "f x = Inr y"
  using assms by (cases r) auto

definition rmap :: "('a \<Rightarrow> 'b) \<Rightarrow> 'a res \<Rightarrow> 'b res" where
  "rmap f r = (case r of Inl e \<Rightarrow> Inl e | Inr x \<Rightarrow> Inr (f x))"

lemma rmap_simps [simp]:
  "rmap f (Inl e) = Inl e"
  "rmap f (Inr x) = Inr (f x)"
  by (simp_all add: rmap_def)

text \<open>A loop that stops at the first throw: \<open>Array.map\<close> with a callback that may throw.\<close>

fun traverse :: "('a \<Rightarrow> 'b res) \<Rightarrow> 'a list \<Rightarrow> 'b list res" where
  "traverse f [] = Inr []"
| "traverse f (x # xs) = rbind (f x) (\<lambda>y. rbind (traverse f xs) (\<lambda>ys. Inr (y # ys)))"

lemma traverse_InrD: "traverse f xs = Inr ys \<Longrightarrow> list_all2 (\<lambda>x y. f x = Inr y) xs ys"
  by (induction xs arbitrary: ys) auto

lemma traverse_map_Inr: "(\<And>x. x \<in> set xs \<Longrightarrow> f x = Inr (g x)) \<Longrightarrow> traverse f xs = Inr (map g xs)"
  by (induction xs) auto

lemma traverse_set: "traverse f xs = Inr ys \<Longrightarrow> y \<in> set ys \<Longrightarrow> \<exists>x \<in> set xs. f x = Inr y"
  by (induction xs arbitrary: ys) auto

lemma traverse_set': "traverse f xs = Inr ys \<Longrightarrow> x \<in> set xs \<Longrightarrow> \<exists>y \<in> set ys. f x = Inr y"
  by (induction xs arbitrary: ys) auto

lemma traverse_throws: "x \<in> set xs \<Longrightarrow> f x = Inl e \<Longrightarrow> \<exists>e'. traverse f xs = Inl e'"
proof (induction xs)
  case (Cons a xs)
  then show ?case by (cases "f a") (auto simp: rbind_def split: sum.splits)
qed simp

definition is_ok :: "'a res \<Rightarrow> bool" where
  "is_ok r = (case r of Inl _ \<Rightarrow> False | Inr _ \<Rightarrow> True)"

lemma is_ok_simps [simp]: "is_ok (Inl e) = False" "is_ok (Inr x) = True"
  by (simp_all add: is_ok_def)

lemma is_ok_iff: "is_ok r \<longleftrightarrow> (\<exists>x. r = Inr x)"
  by (cases r) auto

section \<open>Steps that change a state and may throw\<close>

text \<open>Two awaited steps in sequence: a throw keeps what was done before it.\<close>

definition sbind :: "('s \<Rightarrow> 'a res \<times> 's) \<Rightarrow> ('a \<Rightarrow> 's \<Rightarrow> 'b res \<times> 's) \<Rightarrow> 's \<Rightarrow> 'b res \<times> 's" where
  "sbind m f s = (case m s of (Inl e, s') \<Rightarrow> (Inl e, s') | (Inr x, s') \<Rightarrow> f x s')"

lemma sbind_Inr: "m s = (Inr x, s') \<Longrightarrow> sbind m f s = f x s'"
  by (simp add: sbind_def)

lemma sbind_Inl: "m s = (Inl e, s') \<Longrightarrow> sbind m f s = (Inl e, s')"
  by (simp add: sbind_def)

lemma sbind_returns:
  assumes "sbind m f s = (Inr y, s'')"
  obtains x s' where "m s = (Inr x, s')" "f x s' = (Inr y, s'')"
  using assms by (auto simp: sbind_def split: prod.splits sum.splits)

section \<open>JavaScript string operations\<close>

abbreviation starts_with :: "'a list \<Rightarrow> 'a list \<Rightarrow> bool" where
  "starts_with s p \<equiv> prefix p s"

abbreviation ends_with :: "'a list \<Rightarrow> 'a list \<Rightarrow> bool" where
  "ends_with s p \<equiv> suffix p s"

abbreviation contains_str :: "'a list \<Rightarrow> 'a list \<Rightarrow> bool" where
  "contains_str s p \<equiv> sublist p s"

abbreviation code_of :: "char \<Rightarrow> nat" where
  "code_of c \<equiv> of_char c"

definition to_lower_char :: "char \<Rightarrow> char" where
  "to_lower_char c = (let n = code_of c in
     if 65 \<le> n \<and> n \<le> 90 \<or> 192 \<le> n \<and> n \<le> 222 \<and> n \<noteq> 215 then char_of (n + 32) else c)"

definition to_lower :: "string \<Rightarrow> string" where
  "to_lower s = map to_lower_char s"

definition to_upper_char :: "char \<Rightarrow> string" where
  "to_upper_char c = (let n = code_of c in
     if 97 \<le> n \<and> n \<le> 122 \<or> 224 \<le> n \<and> n \<le> 254 \<and> n \<noteq> 247 then [char_of (n - 32)]
     else if n = 223 then ''SS'' else [c])"

definition to_upper :: "string \<Rightarrow> string" where
  "to_upper s = concat (map to_upper_char s)"

definition is_digit :: "char \<Rightarrow> bool" where
  "is_digit c = (48 \<le> code_of c \<and> code_of c \<le> 57)"

definition is_lower_letter :: "char \<Rightarrow> bool" where
  "is_lower_letter c = (97 \<le> code_of c \<and> code_of c \<le> 122)"

definition is_upper_letter :: "char \<Rightarrow> bool" where
  "is_upper_letter c = (65 \<le> code_of c \<and> code_of c \<le> 90)"

definition is_letter :: "char \<Rightarrow> bool" where
  "is_letter c = (is_lower_letter c \<or> is_upper_letter c)"

definition is_hex :: "char \<Rightarrow> bool" where
  "is_hex c = (is_digit c \<or> 97 \<le> code_of c \<and> code_of c \<le> 102)"

text \<open>The class \<open>\s\<close> of a regular expression, and what \<open>trim\<close> removes.\<close>

definition is_space :: "char \<Rightarrow> bool" where
  "is_space c = (9 \<le> code_of c \<and> code_of c \<le> 13 \<or> code_of c = 32 \<or> code_of c = 160)"

definition trim_start :: "string \<Rightarrow> string" where
  "trim_start s = dropWhile is_space s"

definition trim :: "string \<Rightarrow> string" where
  "trim s = rev (dropWhile is_space (rev (trim_start s)))"

text \<open>\<open>split\<close> at every element that satisfies a predicate, and \<open>join\<close>.\<close>

fun split_by :: "('a \<Rightarrow> bool) \<Rightarrow> 'a list \<Rightarrow> 'a list list" where
  "split_by P [] = [[]]"
| "split_by P (x # xs) =
     (if P x then [] # split_by P xs
      else (case split_by P xs of [] \<Rightarrow> [[x]] | y # ys \<Rightarrow> (x # y) # ys))"

abbreviation split_on :: "'a \<Rightarrow> 'a list \<Rightarrow> 'a list list" where
  "split_on c s \<equiv> split_by (\<lambda>x. x = c) s"

fun join :: "'a list \<Rightarrow> 'a list list \<Rightarrow> 'a list" where
  "join sep [] = []"
| "join sep [x] = x"
| "join sep (x # y # xs) = x @ sep @ join sep (y # xs)"

definition replace_char :: "char \<Rightarrow> char \<Rightarrow> string \<Rightarrow> string" where
  "replace_char a b s = map (\<lambda>c. if c = a then b else c) s"

definition strip_trailing :: "char \<Rightarrow> string \<Rightarrow> string" where
  "strip_trailing c s = rev (dropWhile (\<lambda>x. x = c) (rev s))"

text \<open>\<open>indexOf(p, from)\<close> and \<open>lastIndexOf(c)\<close>; \<open>None\<close> is \<open>-1\<close>.\<close>

fun index_of :: "'a list \<Rightarrow> 'a list \<Rightarrow> nat option" where
  "index_of p [] = (if p = [] then Some 0 else None)"
| "index_of p (x # xs) =
     (if prefix p (x # xs) then Some 0 else map_option Suc (index_of p xs))"

definition index_from :: "'a list \<Rightarrow> 'a list \<Rightarrow> nat \<Rightarrow> nat option" where
  "index_from p s k = map_option ((+) k) (index_of p (drop k s))"

definition last_index_of :: "'a \<Rightarrow> 'a list \<Rightarrow> nat option" where
  "last_index_of c s = map_option (\<lambda>i. length s - 1 - i) (index_of [c] (rev s))"

section \<open>Decimal numbers\<close>

definition digit_val :: "char \<Rightarrow> nat" where
  "digit_val c = code_of c - 48"

definition decimal :: "string \<Rightarrow> nat" where
  "decimal s = foldl (\<lambda>n c. 10 * n + digit_val c) 0 s"

fun show_nat :: "nat \<Rightarrow> string" where
  "show_nat n = (if n < 10 then [char_of (48 + n)] else show_nat (n div 10) @ [char_of (48 + n mod 10)])"

declare show_nat.simps [simp del]

section \<open>Lemmas on split and join\<close>

lemma split_by_not_Nil [simp]: "split_by P xs \<noteq> []"
  by (induction xs) (auto split: list.splits)

lemma split_by_elem: "y \<in> set (split_by P xs) \<Longrightarrow> x \<in> set y \<Longrightarrow> \<not> P x"
  by (induction xs arbitrary: y) (fastforce split: if_splits list.splits)+

lemma split_by_subset: "y \<in> set (split_by P xs) \<Longrightarrow> set y \<subseteq> set xs"
  by (induction xs arbitrary: y) (fastforce split: if_splits list.splits)+

lemma split_by_none: "(\<forall>x \<in> set xs. \<not> P x) \<Longrightarrow> split_by P xs = [xs]"
  by (induction xs) auto

lemma split_by_append:
  "P c \<Longrightarrow> split_by P (xs @ c # ys) = split_by P xs @ split_by P ys"
  by (induction xs) (auto split: list.splits)

lemma join_Cons: "xs \<noteq> [] \<Longrightarrow> join sep (x # xs) = x @ sep @ join sep xs"
  by (cases xs) auto

lemma join_append: "xs \<noteq> [] \<Longrightarrow> ys \<noteq> [] \<Longrightarrow> join sep (xs @ ys) = join sep xs @ sep @ join sep ys"
proof (induction xs)
  case (Cons x xs)
  then show ?case by (cases "xs = []") (simp_all add: join_Cons)
qed simp

lemma join_char_Cons: "join sep ((c # x) # xs) = c # join sep (x # xs)"
  by (cases xs) auto

lemma join_split: "join [c] (split_on c xs) = xs"
  by (induction xs) (auto simp: join_Cons join_char_Cons split: list.splits)

lemma split_join:
  "xs \<noteq> [] \<Longrightarrow> (\<forall>x \<in> set xs. c \<notin> set x) \<Longrightarrow> split_on c (join [c] xs) = xs"
proof (induction xs)
  case (Cons x xs)
  then have none: "split_on c x = [x]" by (auto intro: split_by_none)
  show ?case
  proof (cases "xs = []")
    case True
    with none show ?thesis by simp
  next
    case False
    with Cons none show ?thesis by (simp add: join_Cons split_by_append)
  qed
qed simp

lemma set_join: "set (join sep xs) \<subseteq> set sep \<union> \<Union> (set ` set xs)"
  by (induction sep xs rule: join.induct) auto

lemma join_eq_Nil: "join [c] xs = [] \<longleftrightarrow> xs = [] \<or> xs = [[]]"
  by (cases "([c], xs)" rule: join.cases) auto

lemma hd_join: "x \<noteq> [] \<Longrightarrow> hd (join sep (x # xs)) = hd x"
  by (cases xs) auto

lemma join_nonempty: "xs \<noteq> [] \<Longrightarrow> last xs \<noteq> [] \<Longrightarrow> join sep xs \<noteq> []"
proof (induction xs)
  case (Cons x xs)
  then show ?case by (cases "xs = []") (simp_all add: join_Cons)
qed simp

lemma last_join: "xs \<noteq> [] \<Longrightarrow> last xs \<noteq> [] \<Longrightarrow> last (join sep xs) = last (last xs)"
proof (induction xs)
  case (Cons x xs)
  show ?case
  proof (cases "xs = []")
    case False
    with Cons have "join sep xs \<noteq> []" and "last (join sep xs) = last (last xs)"
      by (auto simp: join_nonempty)
    with False show ?thesis by (simp add: join_Cons last_append)
  qed simp
qed simp

text \<open>
  Joined segments without the separator: being equal or extended by a separator is the
  same as being a prefix of the segment list.
\<close>

lemma join_prefix_iff:
  assumes "xs \<noteq> []" "\<forall>x \<in> set xs. c \<notin> set x" "\<forall>y \<in> set ys. c \<notin> set y"
  shows "join [c] ys = join [c] xs \<and> ys \<noteq> [] \<or> prefix (join [c] xs @ [c]) (join [c] ys) \<longleftrightarrow> prefix xs ys"
    (is "?lhs \<longleftrightarrow> ?rhs")
proof
  assume ?lhs
  then show ?rhs
  proof
    assume eq: "join [c] ys = join [c] xs \<and> ys \<noteq> []"
    then have "split_on c (join [c] ys) = split_on c (join [c] xs)" by simp
    with split_join [of xs c] split_join [of ys c] assms eq have "ys = xs" by simp
    then show ?rhs by simp
  next
    assume "prefix (join [c] xs @ [c]) (join [c] ys)"
    then obtain zs where zs: "join [c] ys = join [c] xs @ c # zs" by (auto simp: prefix_def)
    then have "ys \<noteq> []" by auto
    have "split_on c (join [c] ys) = split_on c (join [c] xs) @ split_on c zs"
      unfolding zs by (rule split_by_append) simp
    with split_join [of xs c] split_join [of ys c] assms \<open>ys \<noteq> []\<close>
    have "ys = xs @ split_on c zs" by simp
    then show ?rhs by (simp add: prefix_def)
  qed
next
  assume ?rhs
  then obtain zs where zs: "ys = xs @ zs" by (auto simp: prefix_def)
  show ?lhs
  proof (cases "zs = []")
    case True
    with zs assms show ?thesis by simp
  next
    case False
    with zs assms have "join [c] ys = join [c] xs @ [c] @ join [c] zs" by (simp add: join_append)
    then show ?thesis by (simp add: prefix_def)
  qed
qed

lemma strip_trailing_id: "s = [] \<or> last s \<noteq> c \<Longrightarrow> strip_trailing c s = s"
  by (cases s rule: rev_cases) (auto simp: strip_trailing_def)

lemma strip_trailing_snoc [simp]: "strip_trailing c (s @ [c]) = strip_trailing c s"
  by (simp add: strip_trailing_def)

lemma strip_trailing_last: "strip_trailing c s = [] \<or> last (strip_trailing c s) \<noteq> c"
proof -
  have "dropWhile (\<lambda>x. x = c) (rev s) \<noteq> [] \<Longrightarrow> hd (dropWhile (\<lambda>x. x = c) (rev s)) \<noteq> c"
    by (rule hd_dropWhile)
  then show ?thesis by (auto simp: strip_trailing_def last_rev)
qed

lemma index_of_Some: "index_of p s = Some k \<Longrightarrow> prefix p (drop k s)"
  by (induction s arbitrary: k) (auto split: if_splits)

lemma index_of_least: "index_of p s = Some k \<Longrightarrow> j < k \<Longrightarrow> \<not> prefix p (drop j s)"
proof (induction s arbitrary: k j)
  case (Cons x s)
  then show ?case by (cases j) (auto split: if_splits)
qed (auto split: if_splits)

lemma index_of_None: "index_of p s = None \<Longrightarrow> j \<le> length s \<Longrightarrow> \<not> prefix p (drop j s)"
proof (induction s arbitrary: j)
  case (Cons x s)
  then show ?case by (cases j) (auto split: if_splits)
qed (auto split: if_splits)

lemma index_of_length: "index_of p s = Some k \<Longrightarrow> k + length p \<le> length s"
proof -
  assume *: "index_of p s = Some k"
  then have "k \<le> length s" by (induction s arbitrary: k) (auto split: if_splits)
  moreover have "length p \<le> length s - k" using index_of_Some [OF *] prefix_length_le by fastforce
  ultimately show ?thesis by simp
qed

section \<open>Lemmas on options and lists\<close>

lemma find_Some_in: "find P xs = Some x \<Longrightarrow> x \<in> set xs \<and> P x"
  by (induction xs) (auto split: if_splits)

lemma find_None_all: "find P xs = None \<longleftrightarrow> (\<forall>x \<in> set xs. \<not> P x)"
  by (induction xs) auto

lemma prefix_chain: "prefix xs zs \<Longrightarrow> prefix ys zs \<Longrightarrow> prefix xs ys \<or> prefix ys xs"
  by (rule prefix_same_cases) auto

lemma trim_trim: "trim (trim s) = trim s"
proof -
  let ?u = "dropWhile is_space s"
  let ?v = "rev (dropWhile is_space (rev ?u))"
  have "rev ?u = takeWhile is_space (rev ?u) @ dropWhile is_space (rev ?u)" by simp
  then have u: "?u = ?v @ rev (takeWhile is_space (rev ?u))" by (metis rev_append rev_rev_ident)
  have "dropWhile is_space ?v = ?v"
  proof (cases "?v = []")
    case False
    then have "hd ?u = hd ?v" "?u \<noteq> []" using u by (metis hd_append2, force)
    then have "\<not> is_space (hd ?v)" using hd_dropWhile by metis
    with False show ?thesis by (cases ?v) auto
  next
    case True
    show ?thesis unfolding True by simp
  qed
  then show ?thesis by (simp add: trim_def trim_start_def)
qed

section \<open>Maps in insertion order\<close>

text \<open>\<open>Map.set\<close>: a present key keeps its place.\<close>

fun map_set :: "'k \<Rightarrow> 'v \<Rightarrow> ('k \<times> 'v) list \<Rightarrow> ('k \<times> 'v) list" where
  "map_set k v [] = [(k, v)]"
| "map_set k v ((k', v') # m) = (if k' = k then (k, v) # m else (k', v') # map_set k v m)"

lemma map_set_fresh: "k \<notin> fst ` set m \<Longrightarrow> map_set k v m = m @ [(k, v)]"
  by (induction m) auto

lemma map_of_map_set: "map_of (map_set k v m) x = (if x = k then Some v else map_of m x)"
  by (induction m) auto

lemma set_fst_map_set: "fst ` set (map_set k v m) = insert k (fst ` set m)"
  by (induction k v m rule: map_set.induct) auto

lemma distinct_map_set: "distinct (map fst m) \<Longrightarrow> distinct (map fst (map_set k v m))"
proof (induction m)
  case (Cons x m)
  then show ?case using set_fst_map_set [of k v m] by (cases x) (auto simp: image_iff)
qed simp

end
