(* ===== verification/NodePath.thy ===== *)
theory NodePath
  imports Prelude
begin

text \<open>
  The functions of Node's \<open>path\<close> module that the sources call: \<open>posix.normalize\<close>,
  \<open>posix.join\<close>, \<open>win32.normalize\<close>, \<open>win32.join\<close>, \<open>win32.isAbsolute\<close> and the root
  of \<open>win32.parse\<close>. Node walks over characters and keeps the output as a string; here
  the input is split at separators and the output is a list of segments.
\<close>

section \<open>Normalising a list of segments\<close>

text \<open>
  \<open>normalizeString\<close>: empty segments and \<open>.\<close> are dropped, \<open>..\<close> removes the
  segment before it, and is kept only where nothing precedes it and the path is
  relative. The accumulator holds the output in reverse.
\<close>

fun norm_segs :: "bool \<Rightarrow> string list \<Rightarrow> string list \<Rightarrow> string list" where
  "norm_segs up acc [] = rev acc"
| "norm_segs up acc (s # ss) =
     (if s = [] \<or> s = ''.'' then norm_segs up acc ss
      else if s = ''..'' then
        (if acc \<noteq> [] \<and> hd acc \<noteq> ''..'' then norm_segs up (tl acc) ss
         else if up then norm_segs up (s # acc) ss
         else norm_segs up acc ss)
      else norm_segs up (s # acc) ss)"

text \<open>A segment that survives normalisation of an absolute path.\<close>

definition plain_seg :: "string \<Rightarrow> bool" where
  "plain_seg s = (s \<noteq> [] \<and> s \<noteq> ''.'' \<and> s \<noteq> ''..'')"

lemma norm_segs_plain:
  "\<forall>s \<in> set acc. plain_seg s \<Longrightarrow> t \<in> set (norm_segs False acc ss) \<Longrightarrow> plain_seg t"
proof (induction ss arbitrary: acc)
  case (Cons s ss)
  have tl: "\<forall>s \<in> set (tl acc). plain_seg s" using Cons.prems(1) by (cases acc) auto
  consider "s = [] \<or> s = ''.''" | "s = ''..''" | "plain_seg s" by (auto simp: plain_seg_def)
  then show ?case
  proof cases
    case 1
    then have "norm_segs False acc (s # ss) = norm_segs False acc ss" by auto
    then show ?thesis using Cons.IH [of acc] Cons.prems by metis
  next
    case 2
    then have "norm_segs False acc (s # ss) = norm_segs False acc ss \<or>
        norm_segs False acc (s # ss) = norm_segs False (tl acc) ss" by auto
    then show ?thesis using Cons.IH [of acc] Cons.IH [of "tl acc"] tl Cons.prems by metis
  next
    case 3
    then have "norm_segs False acc (s # ss) = norm_segs False (s # acc) ss"
      by (auto simp: plain_seg_def)
    then show ?thesis using Cons.IH [of "s # acc"] 3 Cons.prems by (metis set_ConsD)
  qed
qed simp

lemma norm_segs_subset: "set (norm_segs up acc ss) \<subseteq> set acc \<union> set ss"
proof (induction up acc ss rule: norm_segs.induct)
  case (2 up acc s ss)
  then show ?case by (cases acc) auto
qed simp

text \<open>Segments that are already plain are kept as they are.\<close>

lemma norm_segs_id: "\<forall>s \<in> set ss. plain_seg s \<Longrightarrow> norm_segs up acc ss = rev acc @ ss"
  by (induction ss arbitrary: acc) (auto simp: plain_seg_def)

lemma norm_segs_append:
  "\<forall>s \<in> set ss. plain_seg s \<Longrightarrow> norm_segs up acc (ss @ ts) = norm_segs up (rev ss @ acc) ts"
  by (induction ss arbitrary: acc) (auto simp: plain_seg_def)

lemma norm_segs_empty_seg [simp]: "norm_segs up acc ([] # ss) = norm_segs up acc ss"
  by simp

lemma norm_segs_trailing: "norm_segs up acc (ss @ [[]]) = norm_segs up acc ss"
  by (induction up acc ss rule: norm_segs.induct) auto

section \<open>posix\<close>

definition posix_normalize :: "string \<Rightarrow> string" where
  "posix_normalize p =
     (if p = [] then ''.''
      else let absolute = (hd p = CHR ''/'');
               trailing = (last p = CHR ''/'');
               body = join ''/'' (norm_segs (\<not> absolute) [] (split_on (CHR ''/'') p))
           in if body = [] then (if absolute then ''/'' else if trailing then ''./'' else ''.'')
              else (if absolute then ''/'' else []) @ body @ (if trailing then ''/'' else []))"

definition posix_join :: "string list \<Rightarrow> string" where
  "posix_join parts =
     (let ps = filter (\<lambda>p. p \<noteq> []) parts
      in if ps = [] then ''.'' else posix_normalize (join ''/'' ps))"

section \<open>win32\<close>

definition is_sep :: "char \<Rightarrow> bool" where
  "is_sep c = (c = CHR ''/'' \<or> c = CHR 0x5C)"

abbreviation backslash :: string where
  "backslash \<equiv> [CHR 0x5C]"

text \<open>\<open>C:\<close> at the start.\<close>

definition has_drive :: "string \<Rightarrow> bool" where
  "has_drive p = (case p of c # d # _ \<Rightarrow> is_letter c \<and> d = CHR '':'' | _ \<Rightarrow> False)"

text \<open>
  The UNC root of a path that starts with two separators: server, share and what is
  left, \<open>None\<close> when one of the two names is missing. \<open>seps\<close> counts the separators
  between the names.
\<close>

definition unc_parts :: "string \<Rightarrow> (string \<times> nat \<times> string \<times> string) option" where
  "unc_parts p =
     (let r = drop 2 p;
          server = takeWhile (Not \<circ> is_sep) r;
          r1 = dropWhile (Not \<circ> is_sep) r;
          seps = length (takeWhile is_sep r1);
          r2 = dropWhile is_sep r1;
          share = takeWhile (Not \<circ> is_sep) r2;
          rest = dropWhile (Not \<circ> is_sep) r2
      in if server = [] \<or> r1 = [] \<or> share = [] then None else Some (server, seps, share, rest))"

definition win32_tail :: "bool \<Rightarrow> string \<Rightarrow> string" where
  "win32_tail absolute p =
     (if p = [] then [] else join backslash (norm_segs (\<not> absolute) [] (split_by is_sep p)))"

definition win32_finish :: "string \<Rightarrow> bool \<Rightarrow> string \<Rightarrow> string \<Rightarrow> string" where
  "win32_finish device absolute p rest =
     (let t = win32_tail absolute rest;
          t1 = (if t = [] \<and> \<not> absolute then ''.'' else t);
          t2 = (if t1 \<noteq> [] \<and> is_sep (last p) then t1 @ backslash else t1)
      in device @ (if absolute then backslash else []) @ t2)"

definition win32_normalize :: "string \<Rightarrow> string" where
  "win32_normalize p =
     (if p = [] then ''.''
      else if length p = 1 then (if is_sep (hd p) then backslash else p)
      else if is_sep (hd p) then
        (if is_sep (p ! 1) then
           (case unc_parts p of
              None \<Rightarrow> win32_finish [] True p p
            | Some (server, _, share, rest) \<Rightarrow>
                if rest = [] then backslash @ backslash @ server @ backslash @ share @ backslash
                else win32_finish (backslash @ backslash @ server @ backslash @ share) True p rest)
         else win32_finish [] True p (drop 1 p))
      else if has_drive p then
        (if length p > 2 \<and> is_sep (p ! 2) then win32_finish (take 2 p) True p (drop 3 p)
         else win32_finish (take 2 p) False p (drop 2 p))
      else win32_finish [] False p p)"

text \<open>\<open>win32.parse(p).root\<close>.\<close>

definition win32_root :: "string \<Rightarrow> string" where
  "win32_root p =
     (if p = [] then []
      else if length p = 1 then (if is_sep (hd p) then p else [])
      else if is_sep (hd p) then
        (if is_sep (p ! 1) then
           (case unc_parts p of
              None \<Rightarrow> take 1 p
            | Some (server, seps, share, rest) \<Rightarrow>
                take (2 + length server + seps + length share + (if rest = [] then 0 else 1)) p)
         else take 1 p)
      else if has_drive p then
        (if length p > 2 \<and> is_sep (p ! 2) then take 3 p else take 2 p)
      else [])"

definition win32_is_absolute :: "string \<Rightarrow> bool" where
  "win32_is_absolute p =
     (p \<noteq> [] \<and> (is_sep (hd p) \<or> length p > 2 \<and> has_drive p \<and> is_sep (p ! 2)))"

definition win32_join :: "string list \<Rightarrow> string" where
  "win32_join parts =
     (case filter (\<lambda>p. p \<noteq> []) parts of
        [] \<Rightarrow> ''.''
      | f # ps \<Rightarrow>
          let joined = join backslash (f # ps);
              slashes = length (takeWhile is_sep (take 3 f));
              unc = (slashes = 2 \<and> length f > 2);
              n = length (takeWhile is_sep joined)
          in win32_normalize
               (if unc \<or> n < 2 then joined else backslash @ drop n joined))"

section \<open>Absolute posix paths\<close>

definition posix_path :: "string list \<Rightarrow> string" where
  "posix_path segs = CHR ''/'' # join ''/'' segs"

definition seg_ok :: "string \<Rightarrow> bool" where
  "seg_ok s = (plain_seg s \<and> CHR ''/'' \<notin> set s)"

lemma norm_segs_ok: "\<forall>s \<in> set (norm_segs False [] (split_on (CHR ''/'') p)). seg_ok s"
proof
  fix s
  assume s: "s \<in> set (norm_segs False [] (split_on (CHR ''/'') p))"
  then have "plain_seg s" by (rule norm_segs_plain [rotated]) simp
  moreover have "s \<in> set (split_on (CHR ''/'') p)"
    using s norm_segs_subset [of False "[]" "split_on (CHR ''/'') p"] by auto
  then have "CHR ''/'' \<notin> set s" by (auto dest: split_by_elem)
  ultimately show "seg_ok s" by (simp add: seg_ok_def)
qed

lemma seg_ok_nonempty: "\<forall>s \<in> set ss. seg_ok s \<Longrightarrow> ss \<noteq> [] \<Longrightarrow> join ''/'' ss \<noteq> []"
proof -
  assume *: "\<forall>s \<in> set ss. seg_ok s" "ss \<noteq> []"
  then have "seg_ok (last ss)" by simp
  then have "last ss \<noteq> []" by (simp add: seg_ok_def plain_seg_def)
  with *(2) show ?thesis by (rule join_nonempty)
qed

lemma seg_ok_last: "\<forall>s \<in> set ss. seg_ok s \<Longrightarrow> ss \<noteq> [] \<Longrightarrow> last (join ''/'' ss) \<noteq> CHR ''/''"
proof -
  assume *: "\<forall>s \<in> set ss. seg_ok s" "ss \<noteq> []"
  then have "seg_ok (last ss)" by simp
  then have "last ss \<noteq> []" "CHR ''/'' \<notin> set (last ss)" by (simp_all add: seg_ok_def plain_seg_def)
  with * show ?thesis by (metis last_in_set last_join)
qed

text \<open>What normalising an absolute path and stripping trailing slashes yields.\<close>

lemma posix_normalize_absolute:
  assumes "hd p = CHR ''/''" "p \<noteq> []"
  defines "segs \<equiv> norm_segs False [] (split_on (CHR ''/'') p)"
  shows "strip_trailing (CHR ''/'') (posix_normalize p) = (if segs = [] then [] else posix_path segs)"
proof (cases "segs = []")
  case True
  with assms show ?thesis by (simp add: posix_normalize_def strip_trailing_def)
next
  case False
  have ok: "\<forall>s \<in> set segs. seg_ok s" unfolding segs_def by (rule norm_segs_ok)
  from seg_ok_nonempty [OF ok False] have ne: "join ''/'' segs \<noteq> []" .
  have "last (posix_path segs) \<noteq> CHR ''/''"
    using seg_ok_last [OF ok False] ne by (simp add: posix_path_def)
  then have "strip_trailing (CHR ''/'') (posix_path segs) = posix_path segs"
    by (simp add: strip_trailing_id)
  moreover have "posix_normalize p = posix_path segs @ (if last p = CHR ''/'' then ''/'' else [])"
    using assms ne by (simp add: posix_normalize_def posix_path_def Let_def)
  ultimately show ?thesis using False by simp
qed

lemma split_posix_path:
  assumes "\<forall>s \<in> set segs. seg_ok s"
  shows "norm_segs False [] (split_on (CHR ''/'') (posix_path segs)) = segs"
proof (cases "segs = []")
  case False
  have "split_on (CHR ''/'') (join [CHR ''/''] segs) = segs"
    using assms False by (intro split_join) (auto simp: seg_ok_def)
  then have "split_on (CHR ''/'') (posix_path segs) = [] # segs"
    by (simp add: posix_path_def)
  then show ?thesis using assms by (simp add: norm_segs_id seg_ok_def)
qed (simp add: posix_path_def)

lemma norm_segs_join_tail:
  assumes "\<forall>s \<in> set segs. seg_ok s" "segs \<noteq> []"
  shows "norm_segs False [] (split_on (CHR ''/'') (posix_path segs @ CHR ''/'' # rest)) =
    norm_segs False (rev segs) (split_on (CHR ''/'') rest)"
proof -
  have "split_on (CHR ''/'') (join [CHR ''/''] segs) = segs"
    using assms by (intro split_join) (auto simp: seg_ok_def)
  then have "split_on (CHR ''/'') (posix_path segs @ CHR ''/'' # rest) =
      [] # segs @ split_on (CHR ''/'') rest"
    by (simp add: posix_path_def split_by_append)
  then show ?thesis using assms by (simp add: norm_segs_append seg_ok_def)
qed

end
