(* ===== verification/AbsPath.thy ===== *)
theory AbsPath
  imports NodePath
begin

text \<open>
  \<open>src/domain/value-objects/AbsolutePath.ts\<close>: normalised absolute paths of the three
  flavours, their segments, parents, joins and containment. The lemmas give the
  well-formedness every constructor establishes, containment as a prefix order on
  segments, and how a displayed path is read back. The locale \<open>containment\<close> is the
  interface the policy components use.
\<close>

section \<open>The value object\<close>

datatype path_flavour = Posix | WindowsDrive | WindowsUnc

record abs_path =
  ap_value :: string
  ap_flavour :: path_flavour
  ap_root :: string

abbreviation slash :: char where
  "slash \<equiv> CHR ''/''"

definition windows_drive_absolute :: "string \<Rightarrow> bool" where
  "windows_drive_absolute raw = (has_drive raw \<and> length raw > 2 \<and> is_sep (raw ! 2))"

definition windows_unc :: "string \<Rightarrow> bool" where
  "windows_unc raw = (case raw of a # b # c # _ \<Rightarrow> is_sep a \<and> is_sep b \<and> \<not> is_sep c | _ \<Rightarrow> False)"

definition is_windows_device_namespace :: "string \<Rightarrow> bool" where
  "is_windows_device_namespace raw =
     (let s = replace_char (CHR 0x5C) slash raw
      in starts_with s ''//?/'' \<or> starts_with s ''//./'' \<or>
         starts_with s ''/??/'' \<or> starts_with s ''//??/'')"

definition canonical_windows :: "string \<Rightarrow> path_flavour \<Rightarrow> bool \<Rightarrow> string" where
  "canonical_windows raw flavour is_root =
     (let v = to_lower (replace_char (CHR 0x5C) slash raw);
          v1 = (if \<not> is_root \<or> flavour = WindowsUnc then strip_trailing slash v else v)
      in if flavour = WindowsDrive then (case v1 of [] \<Rightarrow> [] | c # cs \<Rightarrow> to_upper_char c @ cs)
         else v1)"

definition from_windows :: "string \<Rightarrow> path_flavour \<Rightarrow> abs_path res" where
  "from_windows raw flavour =
     (let normalised = win32_normalize raw;
          native_root = win32_root normalised
      in if \<not> win32_is_absolute normalised \<or>
            flavour = WindowsUnc \<and> \<not> starts_with native_root (backslash @ backslash)
         then Inl NotAbsolute
         else Inr \<lparr>ap_value = canonical_windows normalised flavour (normalised = native_root),
                   ap_flavour = flavour,
                   ap_root = canonical_windows native_root flavour True\<rparr>)"

definition of_path :: "string \<Rightarrow> abs_path res" where
  "of_path raw =
     (if CHR 0x00 \<in> set raw then Inl NulByte
      else if is_windows_device_namespace raw then Inl DeviceNamespace
      else if windows_drive_absolute raw then from_windows raw WindowsDrive
      else if windows_unc raw then from_windows raw WindowsUnc
      else if \<not> starts_with raw ''/'' then Inl NotAbsolute
      else let v = strip_trailing slash (posix_normalize raw)
           in Inr \<lparr>ap_value = (if v = [] then ''/'' else v), ap_flavour = Posix, ap_root = ''/''\<rparr>)"

definition is_windows_path :: "abs_path \<Rightarrow> bool" where
  "is_windows_path p = (ap_flavour p \<noteq> Posix)"

definition segments :: "abs_path \<Rightarrow> string list" where
  "segments p =
     (if ap_value p = ap_root p then []
      else let offset = (if ends_with (ap_root p) ''/'' then length (ap_root p) else length (ap_root p) + 1)
           in filter (\<lambda>s. s \<noteq> []) (split_on slash (drop offset (ap_value p))))"

definition basename :: "abs_path \<Rightarrow> string" where
  "basename p = (if segments p = [] then [] else last (segments p))"

definition parent :: "abs_path \<Rightarrow> abs_path res" where
  "parent p =
     (let ps = butlast (segments p)
      in if ps = [] then of_path (ap_root p)
         else of_path (ap_root p @ (if ends_with (ap_root p) ''/'' then [] else ''/'') @ join ''/'' ps))"

definition path_join :: "abs_path \<Rightarrow> string list \<Rightarrow> abs_path res" where
  "path_join p parts =
     (if is_windows_path p
      then of_path (win32_join (replace_char slash (CHR 0x5C) (ap_value p) # parts))
      else of_path (posix_join (ap_value p # parts)))"

definition contains :: "abs_path \<Rightarrow> abs_path \<Rightarrow> bool" where
  "contains p other =
     (if ap_flavour p \<noteq> ap_flavour other then False
      else if ap_root p \<noteq> ap_root other then False
      else if ap_value p = ap_root p then True
      else ap_value other = ap_value p \<or> starts_with (ap_value other) (ap_value p @ ''/''))"

definition path_eq :: "abs_path \<Rightarrow> abs_path \<Rightarrow> bool" where
  "path_eq p other = (ap_flavour p = ap_flavour other \<and> ap_value p = ap_value other)"

definition to_display :: "abs_path \<Rightarrow> abs_path \<Rightarrow> string" where
  "to_display p home =
     (if path_eq p home then ''~''
      else if contains home p then CHR ''~'' # drop (length (ap_value home)) (ap_value p)
      else ap_value p)"

definition from_user_path :: "string \<Rightarrow> abs_path \<Rightarrow> abs_path res" where
  "from_user_path raw home =
     (if raw = ''~'' then Inr home
      else if starts_with raw ''~/'' then path_join home [drop 2 raw]
      else if is_windows_path home \<and> starts_with raw (CHR ''~'' # backslash) then path_join home [drop 2 raw]
      else of_path raw)"

section \<open>Well-formed paths\<close>

definition path_base :: "abs_path \<Rightarrow> string" where
  "path_base p = (if ends_with (ap_root p) ''/'' then ap_root p else ap_root p @ ''/'')"

text \<open>
  The root followed by the segments, none of which is empty, a dot, a double dot or
  holds a slash.
\<close>

definition wf_path :: "abs_path \<Rightarrow> bool" where
  "wf_path p =
     ((\<forall>s \<in> set (segments p). seg_ok s) \<and> ap_root p \<noteq> [] \<and>
      (ap_flavour p = Posix \<longrightarrow> ap_root p = ''/'') \<and>
      ap_value p = (if segments p = [] then ap_root p else path_base p @ join ''/'' (segments p)))"

definition mk_posix :: "string list \<Rightarrow> abs_path" where
  "mk_posix segs = \<lparr>ap_value = posix_path segs, ap_flavour = Posix, ap_root = ''/''\<rparr>"

lemma mk_posix_sel [simp]:
  "ap_value (mk_posix segs) = posix_path segs"
  "ap_flavour (mk_posix segs) = Posix"
  "ap_root (mk_posix segs) = ''/''"
  by (simp_all add: mk_posix_def)

lemma seg_ok_D: "seg_ok s \<Longrightarrow> s \<noteq> []" "seg_ok s \<Longrightarrow> slash \<notin> set s"
  by (simp_all add: seg_ok_def plain_seg_def)

lemma filter_seg_ok: "\<forall>s \<in> set segs. seg_ok s \<Longrightarrow> filter (\<lambda>s. s \<noteq> []) segs = segs"
  by (induction segs) (auto dest: seg_ok_D)

lemma split_seg_ok: "\<forall>s \<in> set segs. seg_ok s \<Longrightarrow> segs \<noteq> [] \<Longrightarrow> split_on slash (join ''/'' segs) = segs"
  by (rule split_join) (auto dest: seg_ok_D)

lemma segments_mk_posix [simp]:
  assumes "\<forall>s \<in> set segs. seg_ok s"
  shows "segments (mk_posix segs) = segs"
proof (cases "segs = []")
  case False
  then have "join ''/'' segs \<noteq> []" using assms seg_ok_nonempty by blast
  then show ?thesis using assms False
    by (simp add: segments_def posix_path_def split_seg_ok filter_seg_ok)
qed (simp add: segments_def posix_path_def)

lemma wf_mk_posix: "\<forall>s \<in> set segs. seg_ok s \<Longrightarrow> wf_path (mk_posix segs)"
  by (simp add: wf_path_def path_base_def posix_path_def)

lemma wf_posix_eq:
  assumes "wf_path p" "ap_flavour p = Posix"
  shows "p = mk_posix (segments p)"
proof -
  have "ap_root p = ''/''" using assms by (simp add: wf_path_def)
  moreover have "ap_value p = posix_path (segments p)"
    using assms by (auto simp: wf_path_def path_base_def posix_path_def split: if_splits)
  ultimately show ?thesis using assms(2) by (simp add: mk_posix_def)
qed

lemma wf_posix_E:
  assumes "wf_path p" "ap_flavour p = Posix"
  obtains segs where "p = mk_posix segs" "\<forall>s \<in> set segs. seg_ok s"
  using wf_posix_eq [OF assms] assms(1) by (auto simp: wf_path_def)

section \<open>What the constructor yields\<close>

lemma from_windows_flavour: "from_windows raw fl = Inr p \<Longrightarrow> ap_flavour p = fl"
  by (auto simp: from_windows_def Let_def split: if_splits)

lemma of_path_posix:
  assumes "of_path raw = Inr p" "ap_flavour p = Posix"
  shows "p = mk_posix (norm_segs False [] (split_on slash raw))"
    and "CHR 0x00 \<notin> set raw" and "starts_with raw ''/''"
proof -
  let ?segs = "norm_segs False [] (split_on slash raw)"
  from assms show nul: "CHR 0x00 \<notin> set raw" and st: "starts_with raw ''/''"
    by (auto simp: of_path_def dest: from_windows_flavour split: if_splits)
  then have hd: "hd raw = slash" "raw \<noteq> []" by (auto simp: prefix_def)
  from assms have "p = (let v = strip_trailing slash (posix_normalize raw)
       in \<lparr>ap_value = (if v = [] then ''/'' else v), ap_flavour = Posix, ap_root = ''/''\<rparr>)"
    by (auto simp: of_path_def Let_def dest: from_windows_flavour split: if_splits)
  then show "p = mk_posix ?segs"
    using posix_normalize_absolute [OF hd]
    by (simp add: mk_posix_def Let_def) (simp add: posix_path_def)
qed

lemma of_path_wf:
  assumes "of_path raw = Inr p" "ap_flavour p = Posix"
  shows "wf_path p"
  using of_path_posix(1) [OF assms] wf_mk_posix [OF norm_segs_ok] by simp

text \<open>
  A segment list whose path text is read back as the same posix path: no NUL byte, and
  a first segment that cannot be taken for a UNC prefix or a device namespace.
\<close>

definition reparsable :: "string list \<Rightarrow> bool" where
  "reparsable segs =
     ((\<forall>s \<in> set segs. CHR 0x00 \<notin> set s) \<and>
      (segs = [] \<or> hd (hd segs) \<noteq> CHR 0x5C \<and> hd segs \<noteq> ''??'' \<and>
         \<not> starts_with (hd segs) (''??'' @ backslash)))"

lemma replace_char_simps [simp]:
  "replace_char a b [] = []"
  "replace_char a b (c # cs) = (if c = a then b else c) # replace_char a b cs"
  "replace_char a b (s @ t) = replace_char a b s @ replace_char a b t"
  by (simp_all add: replace_char_def)

lemma posix_path_form:
  assumes "segs \<noteq> []" "t = [] \<or> t = ''/''"
  obtains u where "posix_path segs @ t = slash # hd segs @ u" "u = [] \<or> hd u = slash"
proof (cases "tl segs = []")
  case True
  with assms have "posix_path segs @ t = slash # hd segs @ t" by (cases segs) (auto simp: posix_path_def)
  with that [of t] assms show ?thesis by auto
next
  case False
  with assms have "posix_path segs @ t = slash # hd segs @ (slash # join ''/'' (tl segs) @ t)"
    by (cases segs) (auto simp: posix_path_def join_Cons)
  with that show ?thesis by fastforce
qed

lemma posix_path_no_device:
  assumes ok: "\<forall>s \<in> set segs. seg_ok s" and re: "reparsable segs"
    and t: "t = [] \<or> t = ''/''" "segs = [] \<longrightarrow> t = []"
  shows "\<not> is_windows_device_namespace (posix_path segs @ t)"
    and "\<not> windows_unc (posix_path segs @ t)"
    and "\<not> windows_drive_absolute (posix_path segs @ t)"
proof -
  show "\<not> windows_drive_absolute (posix_path segs @ t)"
    by (auto simp: windows_drive_absolute_def has_drive_def posix_path_def is_letter_def
        is_lower_letter_def is_upper_letter_def split: list.splits)
  have "\<not> is_windows_device_namespace (posix_path segs @ t) \<and> \<not> windows_unc (posix_path segs @ t)"
  proof (cases "segs = []")
    case True
    with t show ?thesis
      by (simp add: posix_path_def is_windows_device_namespace_def windows_unc_def)
  next
    case False
    obtain u where u: "posix_path segs @ t = slash # hd segs @ u" "u = [] \<or> hd u = slash"
      using posix_path_form [OF False t(1)] .
    have "seg_ok (hd segs)" using ok False by simp
    then obtain c cs where c: "hd segs = c # cs" "c \<noteq> slash" "slash \<notin> set cs"
      using seg_ok_D [of "hd segs"] by (cases "hd segs") auto
    then have c2: "c \<noteq> CHR 0x5C" "c # cs \<noteq> ''??''" "\<not> starts_with (c # cs) (''??'' @ backslash)"
      using re False by (simp_all add: reparsable_def)
    have "\<not> windows_unc (slash # c # cs @ u)"
      using c c2 by (auto simp: windows_unc_def is_sep_def split: list.splits)
    moreover have "\<not> is_windows_device_namespace (slash # c # cs @ u)"
      using c c2 u(2) by (cases cs; cases "tl cs"; cases u)
        (auto simp: is_windows_device_namespace_def Let_def split: if_splits)
    ultimately show ?thesis by (simp add: u(1) c(1))
  qed
  then show "\<not> is_windows_device_namespace (posix_path segs @ t)"
    and "\<not> windows_unc (posix_path segs @ t)" by simp_all
qed

lemma posix_path_no_nul:
  assumes "reparsable segs" shows "CHR 0x00 \<notin> set (posix_path segs)"
  using assms set_join [of "''/''" segs] by (auto simp: posix_path_def reparsable_def)

lemma split_posix_trailing:
  assumes "\<forall>s \<in> set segs. seg_ok s" "t = [] \<or> t = ''/''"
  shows "norm_segs False [] (split_on slash (posix_path segs @ t)) = segs"
proof (cases "t = []")
  case False
  have "split_on slash (posix_path segs @ slash # []) = split_on slash (posix_path segs) @ split_on slash []"
    by (rule split_by_append) simp
  then show ?thesis using assms False by (simp add: norm_segs_trailing split_posix_path)
qed (simp add: split_posix_path assms)

lemma of_path_posix_path:
  assumes ok: "\<forall>s \<in> set segs. seg_ok s" and re: "reparsable segs"
    and t: "t = [] \<or> t = ''/''" "segs = [] \<longrightarrow> t = []"
  shows "of_path (posix_path segs @ t) = Inr (mk_posix segs)"
proof -
  let ?raw = "posix_path segs @ t"
  have hd: "hd ?raw = slash" "?raw \<noteq> []" by (simp_all add: posix_path_def)
  have nul: "CHR 0x00 \<notin> set ?raw" using posix_path_no_nul [OF re] t by auto
  have pre: "starts_with ?raw ''/''" by (simp add: posix_path_def)
  have v: "strip_trailing slash (posix_normalize ?raw) = (if segs = [] then [] else posix_path segs)"
    using posix_normalize_absolute [OF hd] split_posix_trailing [OF ok t(1)] by simp
  show ?thesis
    using nul pre posix_path_no_device [OF ok re t]
    by (simp add: of_path_def v mk_posix_def Let_def) (simp add: posix_path_def)
qed

text \<open>
  Normalisation followed by parsing, as \<open>join\<close> does: the normalised text is parsed
  again and gives the same segments, when they are reparsable.
\<close>

lemma of_path_normalized:
  assumes p: "hd p = slash" "p \<noteq> []"
  defines "segs \<equiv> norm_segs False [] (split_on slash p)"
  assumes re: "reparsable segs"
  shows "of_path (posix_normalize p) = Inr (mk_posix segs)"
proof -
  have ok: "\<forall>s \<in> set segs. seg_ok s" unfolding segs_def by (rule norm_segs_ok)
  have "posix_normalize p = posix_path segs @ (if segs \<noteq> [] \<and> last p = slash then ''/'' else [])"
    using p seg_ok_nonempty [OF ok] unfolding segs_def
    by (auto simp: posix_normalize_def posix_path_def Let_def)
  then show ?thesis using of_path_posix_path [OF ok re] by simp
qed

section \<open>Containment is a prefix order on segments\<close>

lemma contains_iff:
  assumes "wf_path p" "wf_path q"
  shows "contains p q \<longleftrightarrow>
    ap_flavour p = ap_flavour q \<and> ap_root p = ap_root q \<and> prefix (segments p) (segments q)"
proof (cases "ap_flavour p = ap_flavour q \<and> ap_root p = ap_root q")
  case True
  then have base: "path_base q = path_base p" by (simp add: path_base_def)
  show ?thesis
  proof (cases "segments p = []")
    case True
    with assms \<open>ap_flavour p = ap_flavour q \<and> ap_root p = ap_root q\<close>
    show ?thesis by (auto simp: contains_def wf_path_def)
  next
    case False
    let ?b = "path_base p"
    have vp: "ap_value p = ?b @ join ''/'' (segments p)"
      using assms(1) False by (simp add: wf_path_def)
    have okp: "\<forall>s \<in> set (segments p). seg_ok s" and okq: "\<forall>s \<in> set (segments q). seg_ok s"
      using assms by (simp_all add: wf_path_def)
    have jp: "join ''/'' (segments p) \<noteq> []" using seg_ok_nonempty [OF okp False] .
    have np: "ap_value p \<noteq> ap_root p"
      using False by (auto simp: segments_def)
    have jiff: "join ''/'' (segments q) = join ''/'' (segments p) \<and> segments q \<noteq> [] \<or>
        prefix (join ''/'' (segments p) @ ''/'') (join ''/'' (segments q)) \<longleftrightarrow>
        prefix (segments p) (segments q)"
      by (rule join_prefix_iff) (use False okp okq in \<open>auto dest: seg_ok_D\<close>)
    show ?thesis
    proof (cases "segments q = []")
      case True
      then have vq: "ap_value q = ap_root q" using assms(2) by (simp add: wf_path_def)
      have "length (ap_root p) < length (ap_value p)"
        using jp by (auto simp: vp path_base_def)
      then have "\<not> contains p q"
        using vq \<open>ap_flavour p = ap_flavour q \<and> ap_root p = ap_root q\<close>
        by (auto simp: contains_def dest: prefix_length_le)
      with True False show ?thesis by simp
    next
      case nq: False
      then have vq: "ap_value q = ?b @ join ''/'' (segments q)"
        using assms(2) base by (simp add: wf_path_def)
      have "contains p q \<longleftrightarrow> join ''/'' (segments q) = join ''/'' (segments p) \<or>
          prefix (join ''/'' (segments p) @ ''/'') (join ''/'' (segments q))"
        using True np by (simp add: contains_def vp vq)
      with jiff nq True show ?thesis by simp
    qed
  qed
qed (auto simp: contains_def)

lemma wf_path_ext:
  assumes "wf_path p" "wf_path q" "ap_flavour p = ap_flavour q" "ap_root p = ap_root q"
    "segments p = segments q"
  shows "p = q"
proof -
  have "path_base p = path_base q" using assms(4) by (simp add: path_base_def)
  then have "ap_value p = ap_value q" using assms by (auto simp: wf_path_def split: if_splits)
  with assms(3,4) show ?thesis by (simp add: abs_path.equality)
qed

text \<open>
  The interface the policy components use: containment of locations is a partial order
  on well-formed locations in which the ancestors of one location form a chain.
\<close>

locale containment =
  fixes within :: "'p \<Rightarrow> 'p \<Rightarrow> bool"
    and valid :: "'p \<Rightarrow> bool"
  assumes within_refl: "valid p \<Longrightarrow> within p p"
    and within_trans: "valid p \<Longrightarrow> valid q \<Longrightarrow> valid r \<Longrightarrow> within p q \<Longrightarrow> within q r \<Longrightarrow> within p r"
    and within_antisym: "valid p \<Longrightarrow> valid q \<Longrightarrow> within p q \<Longrightarrow> within q p \<Longrightarrow> p = q"
    and within_chain: "valid p \<Longrightarrow> valid q \<Longrightarrow> valid r \<Longrightarrow> within p r \<Longrightarrow> within q r \<Longrightarrow>
      within p q \<or> within q p"
begin

text \<open>
  A location below both a tree and an anchor: when the tree does not swallow the anchor,
  the tree lies below the anchor.
\<close>

lemma below_anchor:
  assumes "valid tree" "valid anchor" "valid p"
    and "within tree p" "within anchor p" "\<not> within tree anchor"
  shows "within anchor tree"
  using within_chain [OF assms(1,2,3)] assms by blast

text \<open>Trees that are not nested share no location.\<close>

lemma apart_disjoint:
  assumes "valid a" "valid b" "valid p" "\<not> within a b" "\<not> within b a"
  shows "\<not> (within a p \<and> within b p)"
  using within_chain [OF assms(1,2,3)] assms by blast

text \<open>A tree below one of several trees adds nothing to them.\<close>

lemma redundant_tree:
  assumes "valid a" "valid b" "valid p" "\<forall>t \<in> set ts. valid t" "b \<in> set ts" "within b a"
    and "within a p \<or> (\<exists>t \<in> set ts. within t p)"
  shows "\<exists>t \<in> set ts. within t p"
  using assms within_trans by blast

end

interpretation apath: containment contains wf_path
proof (unfold_locales, goal_cases)
  case (1 p)
  then show ?case by (simp add: contains_iff)
next
  case (2 p q r)
  then show ?case by (auto simp: contains_iff)
next
  case (3 p q)
  then show ?case by (auto simp: contains_iff intro: wf_path_ext prefix_order.antisym)
next
  case (4 p q r)
  then show ?case using prefix_same_cases by (auto simp: contains_iff)
qed

section \<open>Joining and displaying posix paths\<close>

lemma path_join_posix:
  assumes ok: "\<forall>s \<in> set segs. seg_ok s" and "rest \<noteq> []"
    and re: "reparsable (norm_segs False (rev segs) (split_on slash rest))"
  shows "path_join (mk_posix segs) [rest] = Inr (mk_posix (norm_segs False (rev segs) (split_on slash rest)))"
proof -
  let ?raw = "posix_path segs @ slash # rest"
  have eq: "norm_segs False [] (split_on slash ?raw) = norm_segs False (rev segs) (split_on slash rest)"
  proof (cases "segs = []")
    case True
    then show ?thesis by (simp add: posix_path_def)
  qed (use norm_segs_join_tail [OF ok] in simp)
  have "of_path (posix_normalize ?raw) = Inr (mk_posix (norm_segs False [] (split_on slash ?raw)))"
    by (rule of_path_normalized) (use re eq in \<open>simp_all add: posix_path_def\<close>)
  moreover have "path_join (mk_posix segs) [rest] = of_path (posix_normalize ?raw)"
    using \<open>rest \<noteq> []\<close> by (simp add: path_join_def is_windows_path_def posix_join_def posix_path_def)
  ultimately show ?thesis using eq by simp
qed

lemma path_join_posix_plain:
  assumes ok: "\<forall>s \<in> set segs. seg_ok s" "\<forall>s \<in> set rest. seg_ok s" "rest \<noteq> []"
    and re: "reparsable (segs @ rest)"
  shows "path_join (mk_posix segs) [join ''/'' rest] = Inr (mk_posix (segs @ rest))"
proof -
  have "norm_segs False (rev segs) (split_on slash (join ''/'' rest)) = segs @ rest"
    using ok by (simp add: split_seg_ok norm_segs_id seg_ok_def)
  moreover have "join ''/'' rest \<noteq> []" using seg_ok_nonempty ok by blast
  ultimately show ?thesis using path_join_posix [OF ok(1)] re by metis
qed

lemma posix_path_append:
  "xs \<noteq> [] \<Longrightarrow> ys \<noteq> [] \<Longrightarrow> posix_path (xs @ ys) = posix_path xs @ slash # join ''/'' ys"
  by (simp add: posix_path_def join_append)

lemma display_below_home:
  assumes "\<forall>s \<in> set hs. seg_ok s" "\<forall>s \<in> set rest. seg_ok s" "hs \<noteq> []" "rest \<noteq> []"
  shows "to_display (mk_posix (hs @ rest)) (mk_posix hs) = ''~/'' @ join ''/'' rest"
proof -
  have okr: "\<forall>s \<in> set (hs @ rest). seg_ok s" using assms by auto
  have "contains (mk_posix hs) (mk_posix (hs @ rest))"
    using contains_iff [OF wf_mk_posix wf_mk_posix] okr assms by simp
  moreover have "\<not> path_eq (mk_posix (hs @ rest)) (mk_posix hs)"
    using assms by (simp add: path_eq_def posix_path_append)
  ultimately show ?thesis using assms by (simp add: to_display_def posix_path_append)
qed

lemma display_roundtrip_aux:
  assumes home: "wf_path home" "ap_flavour home = Posix" "segments home \<noteq> []"
    and p: "wf_path p" "ap_flavour p = Posix" "reparsable (segments p)"
  shows "from_user_path (to_display p home) home = Inr p"
proof -
  obtain hs where hs: "home = mk_posix hs" "\<forall>s \<in> set hs. seg_ok s" using wf_posix_E home(1,2) .
  obtain ps where ps: "p = mk_posix ps" "\<forall>s \<in> set ps. seg_ok s" using wf_posix_E p(1,2) .
  have re: "reparsable ps" and hn: "hs \<noteq> []" using p(3) home(3) hs ps by auto
  show ?thesis
  proof (cases "path_eq p home")
    case True
    then have "p = home" using hs ps by (simp add: path_eq_def mk_posix_def)
    with True show ?thesis by (simp add: to_display_def from_user_path_def)
  next
    case ne: False
    show ?thesis
    proof (cases "contains home p")
      case True
      then obtain rest where rest: "ps = hs @ rest"
        using contains_iff [OF wf_mk_posix [OF hs(2)] wf_mk_posix [OF ps(2)]] hs ps
        by (auto simp: prefix_def)
      then have rn: "rest \<noteq> []" using ne hs ps by (auto simp: path_eq_def)
      have okr: "\<forall>s \<in> set rest. seg_ok s" using ps(2) rest by simp
      have "from_user_path (''~/'' @ join ''/'' rest) home = path_join home [join ''/'' rest]"
        by (simp add: from_user_path_def)
      with path_join_posix_plain [OF hs(2) okr rn] re rest
      show ?thesis using display_below_home [OF hs(2) okr hn rn] hs ps by simp
    next
      case False
      then have "to_display p home = posix_path ps" using ne ps by (simp add: to_display_def)
      moreover have "of_path (posix_path ps) = Inr p"
        using of_path_posix_path [OF ps(2) re, of "[]"] ps(1) by simp
      ultimately show ?thesis by (simp add: from_user_path_def posix_path_def)
    qed
  qed
qed

section \<open>Properties\<close>

text \<open>C36: a posix path that \<open>AbsolutePath.of\<close> accepts was absolute and free of NUL
  bytes, and its segments are those of the text with empty, dot and double dot segments
  resolved; the value is in canonical form.\<close>

theorem of_path_canonical:
  assumes "of_path raw = Inr p" "ap_flavour p = Posix"
  shows "wf_path p \<and> starts_with raw ''/'' \<and> CHR 0x00 \<notin> set raw \<and>
    segments p = norm_segs False [] (split_on slash raw)"
  using of_path_posix [OF assms] of_path_wf [OF assms] norm_segs_ok by auto

lemma of_path_canonical_witness:
  "of_path ''/home/u/../v//x/./'' = Inr (mk_posix [''home'', ''v'', ''x'']) \<and>
   wf_path (mk_posix [''home'', ''v'', ''x''])"
proof -
  have e: "of_path ''/home/u/../v//x/./'' = Inr (mk_posix [''home'', ''v'', ''x''])" by code_simp
  from of_path_canonical [OF e] e show ?thesis by simp
qed

text \<open>Containment of well-formed paths compares whole segments: \<open>contains\<close>, which
  tests the text, holds exactly when flavour and root agree and the segments of the one
  are a prefix of the segments of the other, so \<open>/home/u\<close> never contains \<open>/home/user\<close>.\<close>

theorem contains_by_segments:
  assumes "wf_path p" "wf_path q"
  shows "contains p q \<longleftrightarrow>
    ap_flavour p = ap_flavour q \<and> ap_root p = ap_root q \<and> prefix (segments p) (segments q)"
  by (rule contains_iff [OF assms])

lemma contains_by_segments_witness:
  "\<not> contains (mk_posix [''home'', ''u'']) (mk_posix [''home'', ''user'']) \<and>
   contains (mk_posix [''home'', ''u'']) (mk_posix [''home'', ''u'', ''x''])"
proof -
  have wf: "wf_path (mk_posix [''home'', ''u''])" "wf_path (mk_posix [''home'', ''user''])"
    "wf_path (mk_posix [''home'', ''u'', ''x''])" by code_simp+
  have seg: "segments (mk_posix [''home'', ''u'']) = [''home'', ''u'']"
    "segments (mk_posix [''home'', ''user'']) = [''home'', ''user'']"
    "segments (mk_posix [''home'', ''u'', ''x'']) = [''home'', ''u'', ''x'']" by code_simp+
  from contains_by_segments [OF wf(1,2)] contains_by_segments [OF wf(1,3)] seg show ?thesis by simp
qed

text \<open>What \<open>toDisplay\<close> shows of a posix path, relative to a home other than the
  root, \<open>fromUserPath\<close> reads back as the same path.\<close>

theorem display_roundtrip:
  assumes "wf_path home" "ap_flavour home = Posix" "segments home \<noteq> []"
    and "wf_path p" "ap_flavour p = Posix" "reparsable (segments p)"
  shows "from_user_path (to_display p home) home = Inr p"
  by (rule display_roundtrip_aux [OF assms])

lemma display_roundtrip_witness:
  "from_user_path ''~/.ssh/id'' (mk_posix [''home'', ''u'']) = Inr (mk_posix [''home'', ''u'', ''.ssh'', ''id''])"
proof -
  have h: "wf_path (mk_posix [''home'', ''u''])" "segments (mk_posix [''home'', ''u'']) \<noteq> []"
    "wf_path (mk_posix [''home'', ''u'', ''.ssh'', ''id''])"
    "reparsable (segments (mk_posix [''home'', ''u'', ''.ssh'', ''id'']))" by code_simp+
  have "to_display (mk_posix [''home'', ''u'', ''.ssh'', ''id'']) (mk_posix [''home'', ''u'']) = ''~/.ssh/id''"
    by code_simp
  with display_roundtrip [OF h(1) _ h(2,3) _ h(4)] show ?thesis by simp
qed

text \<open>A canonical value is accepted again and unchanged when its first segment cannot
  be taken for a UNC prefix or a device namespace.\<close>

theorem of_path_stable:
  assumes "of_path raw = Inr p" "ap_flavour p = Posix" "reparsable (segments p)"
  shows "of_path (ap_value p) = Inr p"
proof -
  obtain segs where p: "p = mk_posix segs" "\<forall>s \<in> set segs. seg_ok s"
    using wf_posix_E [OF of_path_wf [OF assms(1,2)] assms(2)] .
  then show ?thesis using of_path_posix_path [of segs "[]"] assms(3) by simp
qed

lemma of_path_stable_witness: "of_path ''/etc/passwd'' = Inr (mk_posix [''etc'', ''passwd''])"
proof -
  have e: "of_path ''/etc/./passwd/'' = Inr (mk_posix [''etc'', ''passwd''])"
    and r: "reparsable (segments (mk_posix [''etc'', ''passwd'']))"
    and v: "ap_value (mk_posix [''etc'', ''passwd'']) = ''/etc/passwd''" by code_simp+
  show ?thesis using of_path_stable [OF e _ r] unfolding v by simp
qed

text \<open>Without that condition it fails: the constructor accepts \<open>/./??/x\<close> and yields a
  value that it rejects when the value is parsed again.\<close>

theorem of_path_value_rejected:
  "\<exists>p. of_path ''/./??/x'' = Inr p \<and> ap_flavour p = Posix \<and> of_path (ap_value p) = Inl DeviceNamespace"
proof -
  have "of_path ''/./??/x'' = Inr (mk_posix [''??'', ''x''])"
    "of_path (ap_value (mk_posix [''??'', ''x''])) = Inl DeviceNamespace" by code_simp+
  then show ?thesis by (intro exI [of _ "mk_posix [''??'', ''x'']"]) simp
qed

end
