(* ===== verification/Values.thy ===== *)
theory Values
  imports AbsPath
begin

text \<open>
  The small value objects of \<open>src/domain/value-objects\<close>: \<open>Platform\<close>, \<open>AccessTier\<close>,
  \<open>Disposition\<close>, \<open>Severity\<close>, \<open>RuleId\<close>, \<open>ContentHash\<close>, \<open>WorkspaceId\<close>,
  \<open>GrantScope\<close> and \<open>SourceLocation\<close>. SHA-256 is a parameter \<open>sha\<close> that maps a
  content to its hexadecimal digest. Severities and dispositions are ordered as the
  sources rank them.
\<close>

section \<open>Platform\<close>

datatype platform = Darwin | Linux | Win32

definition all_platforms :: "platform list" where
  "all_platforms = [Darwin, Linux, Win32]"

definition posix_platforms :: "platform list" where
  "posix_platforms = [Darwin, Linux]"

definition platform_name :: "platform \<Rightarrow> string" where
  "platform_name p = (case p of Darwin \<Rightarrow> ''darwin'' | Linux \<Rightarrow> ''linux'' | Win32 \<Rightarrow> ''win32'')"

definition is_platform :: "string \<Rightarrow> bool" where
  "is_platform v = (v \<in> set (map platform_name all_platforms))"

section \<open>Access tier\<close>

datatype tier = Everyday | Dangerous

definition tier_level :: "tier \<Rightarrow> int" where
  "tier_level t = (case t of Everyday \<Rightarrow> 1 | Dangerous \<Rightarrow> 2)"

definition can_be_granted_at_runtime :: "tier \<Rightarrow> bool" where
  "can_be_granted_at_runtime t = (case t of Everyday \<Rightarrow> True | Dangerous \<Rightarrow> False)"

definition tier_of_level :: "int \<Rightarrow> tier res" where
  "tier_of_level l =
     (case find (\<lambda>t. tier_level t = l) [Everyday, Dangerous] of Some t \<Rightarrow> Inr t | None \<Rightarrow> Inl UnknownTier)"

lemma tier_level_simps [simp]: "tier_level Everyday = 1" "tier_level Dangerous = 2"
  by (simp_all add: tier_level_def)

lemma can_be_granted_iff [simp]: "can_be_granted_at_runtime t \<longleftrightarrow> t = Everyday"
  by (cases t) (simp_all add: can_be_granted_at_runtime_def)

lemma tier_of_level_simps [simp]: "tier_of_level 1 = Inr Everyday" "tier_of_level 2 = Inr Dangerous"
  by (simp_all add: tier_of_level_def)

lemma tier_level_roundtrip: "tier_of_level (tier_level t) = Inr t"
  by (cases t) simp_all

section \<open>Disposition\<close>

datatype disposition = Block | Ask | Observe

definition disposition_name :: "disposition \<Rightarrow> string" where
  "disposition_name d = (case d of Block \<Rightarrow> ''block'' | Ask \<Rightarrow> ''ask'' | Observe \<Rightarrow> ''observe'')"

definition strictness :: "disposition \<Rightarrow> nat" where
  "strictness d = (case d of Block \<Rightarrow> 2 | Ask \<Rightarrow> 1 | Observe \<Rightarrow> 0)"

definition stops :: "disposition \<Rightarrow> bool" where
  "stops d = (d = Block)"

definition interrupts :: "disposition \<Rightarrow> bool" where
  "interrupts d = (d = Ask)"

definition disposition_of :: "string \<Rightarrow> disposition res" where
  "disposition_of n =
     (case find (\<lambda>d. disposition_name d = n) [Block, Ask, Observe] of
        Some d \<Rightarrow> Inr d | None \<Rightarrow> Inl UnknownDisposition)"

text \<open>\<open>reduce\<close> from \<open>OBSERVE\<close>, replacing the value only by a strictly stricter one.\<close>

definition strictest :: "disposition list \<Rightarrow> disposition" where
  "strictest ds = foldl (\<lambda>s c. if strictness s < strictness c then c else s) Observe ds"

lemma strictness_simps [simp]: "strictness Block = 2" "strictness Ask = 1" "strictness Observe = 0"
  by (simp_all add: strictness_def)

lemma strictness_inject [simp]: "strictness a = strictness b \<longleftrightarrow> a = b"
  by (cases a; cases b) simp_all

lemma disposition_roundtrip: "disposition_of (disposition_name d) = Inr d"
  by (cases d) (simp_all add: disposition_of_def disposition_name_def)

instantiation disposition :: linorder
begin

definition less_eq_disposition :: "disposition \<Rightarrow> disposition \<Rightarrow> bool" where
  "less_eq_disposition a b = (strictness a \<le> strictness b)"

definition less_disposition :: "disposition \<Rightarrow> disposition \<Rightarrow> bool" where
  "less_disposition a b = (strictness a < strictness b)"

instance
  by standard (auto simp: less_eq_disposition_def less_disposition_def)

end

lemma foldl_max: "foldl (\<lambda>s c. if strictness s < strictness c then c else s) d ds = Max (set (d # ds))"
proof (induction ds arbitrary: d)
  case (Cons x xs)
  have "(if strictness d < strictness x then x else d) = max d x"
    by (auto simp: max_def less_eq_disposition_def)
  with Cons show ?case by (cases "xs = []") (simp_all add: max.assoc)
qed simp

lemma strictest_Max: "strictest ds = Max (set (Observe # ds))"
  by (simp only: strictest_def foldl_max)

lemma strictest_block: "strictest ds = Block \<longleftrightarrow> Block \<in> set ds"
proof
  assume "strictest ds = Block"
  then have "Block \<in> set (Observe # ds)"
    unfolding strictest_Max by (metis Max_in List.finite_set list.set_intros(1) empty_iff)
  then show "Block \<in> set ds" by simp
next
  assume "Block \<in> set ds"
  then have "Block \<le> strictest ds" unfolding strictest_Max by (intro Max_ge) auto
  then show "strictest ds = Block" by (cases "strictest ds") (simp_all add: less_eq_disposition_def)
qed

section \<open>Severity\<close>

datatype severity = Low | Medium | High | Critical

definition severity_name :: "severity \<Rightarrow> string" where
  "severity_name s =
     (case s of Low \<Rightarrow> ''low'' | Medium \<Rightarrow> ''medium'' | High \<Rightarrow> ''high'' | Critical \<Rightarrow> ''critical'')"

definition rank :: "severity \<Rightarrow> nat" where
  "rank s = (case s of Low \<Rightarrow> 0 | Medium \<Rightarrow> 1 | High \<Rightarrow> 2 | Critical \<Rightarrow> 3)"

definition severity_order :: "severity list" where
  "severity_order = [Low, Medium, High, Critical]"

definition severity_of :: "string \<Rightarrow> severity res" where
  "severity_of n =
     (case find (\<lambda>s. severity_name s = n) severity_order of Some s \<Rightarrow> Inr s | None \<Rightarrow> Inl UnknownSeverity)"

definition is_at_least :: "severity \<Rightarrow> severity \<Rightarrow> bool" where
  "is_at_least a b = (rank b \<le> rank a)"

definition escalated :: "severity \<Rightarrow> severity" where
  "escalated s = severity_order ! min (rank s + 1) (length severity_order - 1)"

lemma rank_simps [simp]: "rank Low = 0" "rank Medium = 1" "rank High = 2" "rank Critical = 3"
  by (simp_all add: rank_def)

lemma rank_inject [simp]: "rank a = rank b \<longleftrightarrow> a = b"
  by (cases a; cases b) simp_all

lemma severity_roundtrip: "severity_of (severity_name s) = Inr s"
  by (cases s) (simp_all add: severity_of_def severity_name_def severity_order_def)

lemma escalated_simps [simp]:
  "escalated Low = Medium" "escalated Medium = High" "escalated High = Critical" "escalated Critical = Critical"
  by (simp_all add: escalated_def severity_order_def numeral_nat)

instantiation severity :: linorder
begin

definition less_eq_severity :: "severity \<Rightarrow> severity \<Rightarrow> bool" where
  "less_eq_severity a b = (rank a \<le> rank b)"

definition less_severity :: "severity \<Rightarrow> severity \<Rightarrow> bool" where
  "less_severity a b = (rank a < rank b)"

instance
  by standard (auto simp: less_eq_severity_def less_severity_def)

end

lemma is_at_least_iff: "is_at_least a b \<longleftrightarrow> b \<le> a"
  by (simp add: is_at_least_def less_eq_severity_def)

lemma escalated_ge: "s \<le> escalated s"
  by (cases s) (simp_all add: less_eq_severity_def)

section \<open>Rule identifiers\<close>

record rule_id =
  rid_value :: string
  rid_category :: string
  rid_number :: nat

definition rule_id_of :: "string \<Rightarrow> rule_id res" where
  "rule_id_of raw =
     (case raw of
        [a, g, d, c, n1, n2, n3] \<Rightarrow>
          if [a, g, d] = ''AG-'' \<and> is_upper_letter c \<and> is_digit n1 \<and> is_digit n2 \<and> is_digit n3
          then Inr \<lparr>rid_value = raw, rid_category = [c], rid_number = decimal [n1, n2, n3]\<rparr>
          else Inl MalformedRuleId
      | _ \<Rightarrow> Inl MalformedRuleId)"

section \<open>Content hashes and workspace identifiers\<close>

type_synonym sha = "string \<Rightarrow> string"

text \<open>The documented shape of a hexadecimal SHA-256 digest.\<close>

definition sha_ok :: "sha \<Rightarrow> bool" where
  "sha_ok h = (\<forall>x. length (h x) = 64 \<and> (\<forall>c \<in> set (h x). is_hex c))"

definition zero_sha :: sha where
  "zero_sha x = replicate 64 (CHR ''0'')"

lemma zero_sha_ok: "sha_ok zero_sha"
  by (simp add: sha_ok_def zero_sha_def is_hex_def is_digit_def)

record content_hash =
  ch_hex :: string

definition hash_content :: "sha \<Rightarrow> string \<Rightarrow> content_hash" where
  "hash_content h content = \<lparr>ch_hex = h content\<rparr>"

definition hash_to_string :: "content_hash \<Rightarrow> string" where
  "hash_to_string c = ''sha256:'' @ ch_hex c"

definition hash_parse :: "string \<Rightarrow> content_hash res" where
  "hash_parse s =
     (let hex = drop 7 s
      in if starts_with s ''sha256:'' \<and> length hex = 64 \<and> list_all is_hex hex
         then Inr \<lparr>ch_hex = hex\<rparr> else Inl MalformedHash)"

definition hash_short :: "content_hash \<Rightarrow> string" where
  "hash_short c = take 8 (ch_hex c)"

lemma hash_roundtrip: "sha_ok h \<Longrightarrow> hash_parse (hash_to_string (hash_content h x)) = Inr (hash_content h x)"
  by (simp add: hash_parse_def hash_to_string_def hash_content_def sha_ok_def list_all_iff)

record workspace_id =
  wid_value :: string

definition workspace_id_of_path :: "sha \<Rightarrow> abs_path \<Rightarrow> workspace_id" where
  "workspace_id_of_path h p = \<lparr>wid_value = take 16 (h (ap_value p))\<rparr>"

definition workspace_id_parse :: "string \<Rightarrow> workspace_id res" where
  "workspace_id_parse raw =
     (if length raw = 16 \<and> list_all is_hex raw then Inr \<lparr>wid_value = raw\<rparr> else Inl MalformedWorkspaceId)"

section \<open>Grant scope\<close>

record grant_scope =
  gs_workspace :: "workspace_id option"

definition scope_global :: grant_scope where
  "scope_global = \<lparr>gs_workspace = None\<rparr>"

definition scope_for_workspace :: "workspace_id \<Rightarrow> grant_scope" where
  "scope_for_workspace w = \<lparr>gs_workspace = Some w\<rparr>"

definition scope_parse :: "string \<Rightarrow> grant_scope res" where
  "scope_parse raw =
     (if raw = ''global'' then Inr scope_global
      else if starts_with raw ''workspace:'' then rmap scope_for_workspace (workspace_id_parse (drop 10 raw))
      else Inl MalformedScope)"

definition scope_applies_to :: "grant_scope \<Rightarrow> workspace_id \<Rightarrow> bool" where
  "scope_applies_to s w = (case gs_workspace s of None \<Rightarrow> True | Some v \<Rightarrow> wid_value v = wid_value w)"

definition scope_to_string :: "grant_scope \<Rightarrow> string" where
  "scope_to_string s =
     (case gs_workspace s of None \<Rightarrow> ''global'' | Some w \<Rightarrow> ''workspace:'' @ wid_value w)"

definition wid_ok :: "workspace_id \<Rightarrow> bool" where
  "wid_ok w = (length (wid_value w) = 16 \<and> list_all is_hex (wid_value w))"

lemma wid_of_path_ok: "sha_ok h \<Longrightarrow> wid_ok (workspace_id_of_path h p)"
  by (auto simp: wid_ok_def workspace_id_of_path_def sha_ok_def list_all_iff dest!: in_set_takeD)

lemma scope_roundtrip:
  "(\<And>w. gs_workspace s = Some w \<Longrightarrow> wid_ok w) \<Longrightarrow> scope_parse (scope_to_string s) = Inr s"
  by (cases "gs_workspace s")
     (simp_all add: scope_parse_def scope_to_string_def scope_global_def scope_for_workspace_def
       workspace_id_parse_def wid_ok_def grant_scope.equality workspace_id.equality)

section \<open>Source locations\<close>

record source_location =
  sl_line :: int
  sl_excerpt :: "string option"

definition truncate_text :: "string \<Rightarrow> string" where
  "truncate_text t = (if length t \<le> 120 then t else take 117 t @ ''...'')"

definition at_line :: "int \<Rightarrow> string option \<Rightarrow> source_location res" where
  "at_line line excerpt =
     (if line < 1 then Inl BadLine
      else Inr \<lparr>sl_line = line, sl_excerpt = map_option (truncate_text \<circ> trim) excerpt\<rparr>)"

text \<open>\<open>content.split(/\r?\n/)\<close>.\<close>

definition strip_cr :: "string \<Rightarrow> string" where
  "strip_cr s = (if s \<noteq> [] \<and> last s = CHR 0x0D then butlast s else s)"

definition split_lines :: "string \<Rightarrow> string list" where
  "split_lines s = (let ls = split_on (CHR 0x0A) s in map strip_cr (butlast ls) @ [last ls])"

text \<open>The loop of \<open>firstMatch\<close>; \<open>n\<close> is the number of the first line of the list.\<close>

fun first_match_from :: "(string \<Rightarrow> bool) \<Rightarrow> int \<Rightarrow> string list \<Rightarrow> source_location option" where
  "first_match_from hit n [] = None"
| "first_match_from hit n (l # ls) =
     (if hit l then Some \<lparr>sl_line = n, sl_excerpt = Some (truncate_text (trim l))\<rparr>
      else first_match_from hit (n + 1) ls)"

definition first_match :: "string \<Rightarrow> (string \<Rightarrow> bool) \<Rightarrow> source_location option" where
  "first_match content hit = first_match_from hit 1 (split_lines content)"

lemma truncate_text_length: "length (truncate_text t) \<le> 120"
  by (simp add: truncate_text_def)

lemma first_match_from_sound:
  "first_match_from hit n ls = Some loc \<Longrightarrow>
     \<exists>i < length ls. sl_line loc = n + int i \<and> hit (ls ! i) \<and> (\<forall>j < i. \<not> hit (ls ! j)) \<and>
       sl_excerpt loc = Some (truncate_text (trim (ls ! i)))"
proof (induction ls arbitrary: n)
  case (Cons l ls)
  show ?case
  proof (cases "hit l")
    case True
    with Cons.prems show ?thesis by (intro exI [of _ 0]) auto
  next
    case False
    with Cons.prems have "first_match_from hit (n + 1) ls = Some loc" by simp
    from Cons.IH [OF this] obtain i where "i < length ls" "sl_line loc = n + 1 + int i" "hit (ls ! i)"
      "\<forall>j < i. \<not> hit (ls ! j)" "sl_excerpt loc = Some (truncate_text (trim (ls ! i)))" by blast
    with False show ?thesis
      by (intro exI [of _ "Suc i"]) (auto simp: less_Suc_eq_0_disj)
  qed
qed simp

end
