(* ===== verification/Patterns.thy ===== *)
theory Patterns
  imports Values
begin

text \<open>
  \<open>PathPattern.ts\<close> and \<open>ResourceRef.ts\<close>: globs over absolute paths with the two
  wildcards of the sources, their fixed anchors, and the concrete resources a policy
  names. The matcher of a segment, a greedy search for the literal parts, is proved to
  decide the declarative meaning of \<open>*\<close>, and the matcher of segment lists that of
  \<open>**\<close>.
\<close>

section \<open>Matching one segment\<close>

abbreviation star :: char where
  "star \<equiv> CHR ''*''"

text \<open>The loop over the middle parts; \<open>limit\<close> is where the last part starts.\<close>

fun match_middles :: "string \<Rightarrow> nat \<Rightarrow> string list \<Rightarrow> nat \<Rightarrow> bool" where
  "match_middles seg limit [] cursor = True"
| "match_middles seg limit (m # ms) cursor =
     (if m = [] then match_middles seg limit ms cursor
      else (case index_from m seg cursor of
              None \<Rightarrow> False
            | Some found \<Rightarrow>
                if found + length m > limit then False
                else match_middles seg limit ms (found + length m)))"

definition match_segment :: "string \<Rightarrow> string \<Rightarrow> bool" where
  "match_segment pattern seg =
     (if star \<notin> set pattern then pattern = seg
      else let parts = split_on star pattern; f = hd parts; l = last parts
           in if \<not> starts_with seg f then False
              else if length seg < length f + length l then False
              else if \<not> ends_with seg l then False
              else match_middles seg (length seg - length l) (butlast (tl parts)) (length f))"

text \<open>What \<open>*\<close> means: any characters inside one segment.\<close>

inductive seg_glob :: "string \<Rightarrow> string \<Rightarrow> bool" where
  seg_nil: "seg_glob [] []"
| seg_lit: "c \<noteq> star \<Longrightarrow> seg_glob p s \<Longrightarrow> seg_glob (c # p) (c # s)"
| seg_star: "seg_glob p s \<Longrightarrow> seg_glob (star # p) (t @ s)"

inductive_simps seg_glob_nil: "seg_glob [] s"
inductive_simps seg_glob_cons: "seg_glob (c # p) s"

text \<open>The same over the parts between the stars.\<close>

fun glob_parts :: "string list \<Rightarrow> string \<Rightarrow> bool" where
  "glob_parts [] s = False"
| "glob_parts [x] s = (s = x)"
| "glob_parts (x # y # xs) s =
     (starts_with s x \<and> (\<exists>t. suffix t (drop (length x) s) \<and> glob_parts (y # xs) t))"

lemma glob_parts_lit: "glob_parts ((c # x) # xs) s \<longleftrightarrow> (\<exists>s'. s = c # s' \<and> glob_parts (x # xs) s')"
  by (cases xs; cases s) auto

lemma glob_parts_star: "xs \<noteq> [] \<Longrightarrow> glob_parts ([] # xs) s \<longleftrightarrow> (\<exists>t. suffix t s \<and> glob_parts xs t)"
  by (cases xs) auto

lemma seg_glob_parts: "seg_glob p s \<longleftrightarrow> glob_parts (split_on star p) s"
proof (induction p arbitrary: s)
  case Nil
  then show ?case by (simp add: seg_glob_nil)
next
  case (Cons c p)
  show ?case
  proof (cases "c = star")
    case True
    have "seg_glob (star # p) s \<longleftrightarrow> (\<exists>t. suffix t s \<and> seg_glob p t)"
      by (auto simp: seg_glob_cons suffix_def)
    then show ?thesis using Cons.IH True by (simp add: glob_parts_star)
  next
    case False
    have "split_on star (c # p) = (c # hd (split_on star p)) # tl (split_on star p)"
      using False by (simp split: list.splits)
    then show ?thesis using Cons.IH False by (auto simp: seg_glob_cons glob_parts_lit)
  qed
qed

text \<open>
  \<open>later\<close>: the remaining middle parts and the last part occur in this order in \<open>r\<close>, the
  last one at its end. It is monotone in \<open>r\<close>, so taking the leftmost occurrence of the
  next part never loses a match.
\<close>

definition later :: "string list \<Rightarrow> string \<Rightarrow> string \<Rightarrow> bool" where
  "later ms l r = (\<exists>t. suffix t r \<and> glob_parts (ms @ [l]) t)"

lemma later_mono: "later ms l r' \<Longrightarrow> suffix r' r \<Longrightarrow> later ms l r"
  unfolding later_def by (meson suffix_order.trans)

lemma later_Nil: "later [] l r \<longleftrightarrow> suffix l r"
  by (auto simp: later_def)

lemma later_Cons: "later (m # ms) l r \<longleftrightarrow>
    (\<exists>k \<le> length r. prefix m (drop k r) \<and> later ms l (drop (k + length m) r))"
proof -
  have step: "glob_parts ((m # ms) @ [l]) t \<longleftrightarrow> prefix m t \<and> later ms l (drop (length m) t)" for t
    by (cases ms) (auto simp: later_def)
  have "later (m # ms) l r \<longleftrightarrow> (\<exists>t. suffix t r \<and> prefix m t \<and> later ms l (drop (length m) t))"
    by (simp add: later_def [of "m # ms"] step del: append_Cons)
  also have "\<dots> \<longleftrightarrow> (\<exists>k \<le> length r. prefix m (drop k r) \<and> later ms l (drop (length m) (drop k r)))"
    by (metis drop_eq_Nil length_drop nat_le_linear suffix_drop suffix_take append_take_drop_id
        append_eq_conv_conj suffix_def diff_le_self)
  finally show ?thesis by (simp add: add.commute)
qed

lemma later_leftmost:
  assumes "index_of m r = Some k"
  shows "later (m # ms) l r \<longleftrightarrow> later ms l (drop (k + length m) r)"
proof
  assume "later (m # ms) l r"
  then obtain j where j: "prefix m (drop j r)" "later ms l (drop (j + length m) r)"
    by (auto simp: later_Cons)
  then have "k \<le> j" using index_of_least [OF assms, of j] by force
  then have "drop (j + length m) r = drop (j - k) (drop (k + length m) r)" by (simp add: add.commute)
  then have "suffix (drop (j + length m) r) (drop (k + length m) r)" by (simp only: suffix_drop)
  with j(2) show "later ms l (drop (k + length m) r)" by (rule later_mono)
next
  assume "later ms l (drop (k + length m) r)"
  then show "later (m # ms) l r"
    using index_of_Some [OF assms] index_of_length [OF assms]
    unfolding later_Cons by (intro exI [of _ k]) simp
qed

lemma later_none: "index_of m r = None \<Longrightarrow> \<not> later (m # ms) l r"
  using index_of_None by (auto simp: later_Cons)

lemma later_suffix: "later ms l r \<Longrightarrow> suffix l r"
proof (induction ms arbitrary: r)
  case Nil
  then show ?case by (simp add: later_Nil)
next
  case (Cons m ms)
  then obtain k where "later ms l (drop k r)" by (auto simp: later_Cons)
  from Cons.IH [OF this] show ?case using suffix_drop suffix_order.trans by blast
qed

lemma suffix_drop_iff:
  assumes "suffix l s" "c \<le> length s"
  shows "suffix l (drop c s) \<longleftrightarrow> c \<le> length s - length l"
proof
  assume "suffix l (drop c s)"
  then show "c \<le> length s - length l" using suffix_length_le assms(2) by fastforce
next
  assume le: "c \<le> length s - length l"
  from assms(1) obtain t where t: "s = t @ l" by (auto simp: suffix_def)
  with le show "suffix l (drop c s)" by (simp add: suffix_def)
qed

lemma match_middles_later:
  assumes "suffix l s" "c \<le> length s - length l"
  shows "match_middles s (length s - length l) ms c \<longleftrightarrow> later ms l (drop c s)"
  using assms(2)
proof (induction ms arbitrary: c)
  case Nil
  then show ?case using assms(1) by (simp add: later_Nil suffix_drop_iff)
next
  case (Cons m ms)
  show ?case
  proof (cases "m = []")
    case True
    then have "index_of m (drop c s) = Some 0" by (cases "drop c s") auto
    from later_leftmost [OF this] True Cons show ?thesis by simp
  next
    case False
    show ?thesis
    proof (cases "index_of m (drop c s)")
      case None
      with False later_none [OF None] show ?thesis by (simp add: index_from_def)
    next
      case (Some k)
      have eq: "later (m # ms) l (drop c s) \<longleftrightarrow> later ms l (drop (c + k + length m) s)"
        using later_leftmost [OF Some] by (simp add: add.commute add.left_commute)
      show ?thesis
      proof (cases "c + k + length m \<le> length s - length l")
        case True
        with Cons.IH [OF True] eq False Some show ?thesis by (simp add: index_from_def)
      next
        case nle: False
        have "c + k + length m \<le> length s"
          using index_of_length [OF Some] Cons.prems assms(1) suffix_length_le by fastforce
        then have "\<not> suffix l (drop (c + k + length m) s)"
          using nle suffix_drop_iff [OF assms(1)] by simp
        then have "\<not> later ms l (drop (c + k + length m) s)" using later_suffix by blast
        with eq nle False Some show ?thesis by (simp add: index_from_def)
      qed
    qed
  qed
qed

lemma split_star_two:
  assumes "star \<in> set p"
  obtains f ms l where "split_on star p = f # ms @ [l]"
proof -
  obtain a b where p: "p = a @ star # b" using assms by (auto simp: in_set_conv_decomp)
  then have eq: "split_on star p = split_on star a @ split_on star b" by (simp add: split_by_append)
  obtain f xs where f: "split_on star a = f # xs" by (cases "split_on star a") auto
  obtain ys l where l: "split_on star b = ys @ [l]"
    by (cases "split_on star b" rule: rev_cases) auto
  from eq f l have "split_on star p = f # (xs @ ys) @ [l]" by simp
  with that show ?thesis by blast
qed

lemma match_segment_glob_parts:
  assumes "split_on star p = f # ms @ [l]" "star \<in> set p"
  shows "match_segment p s \<longleftrightarrow> glob_parts (f # ms @ [l]) s"
proof -
  have gp: "glob_parts (f # ms @ [l]) s \<longleftrightarrow> starts_with s f \<and> later ms l (drop (length f) s)"
    by (cases ms) (auto simp: later_def)
  have ms: "match_segment p s \<longleftrightarrow> starts_with s f \<and> length f + length l \<le> length s \<and> ends_with s l \<and>
      match_middles s (length s - length l) ms (length f)"
    using assms by (auto simp: match_segment_def Let_def)
  show ?thesis
  proof (cases "starts_with s f \<and> ends_with s l \<and> length f + length l \<le> length s")
    case True
    then have "match_middles s (length s - length l) ms (length f) \<longleftrightarrow> later ms l (drop (length f) s)"
      by (intro match_middles_later) auto
    with True gp ms show ?thesis by simp
  next
    case False
    have "\<not> glob_parts (f # ms @ [l]) s"
    proof
      assume "glob_parts (f # ms @ [l]) s"
      then have f: "starts_with s f" and "suffix l (drop (length f) s)"
        using gp later_suffix by blast+
      then have "ends_with s l" "length f + length l \<le> length s"
        using suffix_length_le [of l "drop (length f) s"] prefix_length_le [OF f]
        by (auto intro: suffix_order.trans [OF _ suffix_drop])
      with f False show False by simp
    qed
    with False ms show ?thesis by auto
  qed
qed

lemma match_segment_glob: "match_segment p s \<longleftrightarrow> seg_glob p s"
proof (cases "star \<in> set p")
  case True
  then obtain f ms l where "split_on star p = f # ms @ [l]" by (rule split_star_two)
  with True show ?thesis by (simp add: match_segment_glob_parts seg_glob_parts)
next
  case False
  then have "split_on star p = [p]" by (intro split_by_none) auto
  with False show ?thesis by (auto simp: match_segment_def seg_glob_parts)
qed

lemma match_segment_literal: "star \<notin> set p \<Longrightarrow> match_segment p s \<longleftrightarrow> p = s"
  by (simp add: match_segment_def)

section \<open>Matching a list of segments\<close>

abbreviation recursive :: string where
  "recursive \<equiv> ''**''"

fun tails :: "'a list \<Rightarrow> 'a list list" where
  "tails [] = [[]]"
| "tails (x # xs) = (x # xs) # tails xs"

lemma in_tails: "t \<in> set (tails xs) \<longleftrightarrow> suffix t xs"
  by (induction xs) (auto simp: suffix_Cons)

text \<open>
  \<open>matchSegments\<close>: the lists are what is left of the pattern and of the target at the
  two indices of the source; the loop over \<open>skip\<close> runs over the suffixes of the target.
\<close>

primrec match_segments :: "string list \<Rightarrow> string list \<Rightarrow> bool" where
  "match_segments [] target = (target = [])"
| "match_segments (h # ps) target =
     (if h = recursive then list_ex (match_segments ps) (tails target)
      else (case target of [] \<Rightarrow> False | s # ss \<Rightarrow> match_segment h s \<and> match_segments ps ss))"

text \<open>The declarative meaning.\<close>

inductive path_glob :: "string list \<Rightarrow> string list \<Rightarrow> bool" where
  glob_end: "path_glob [] []"
| glob_seg: "h \<noteq> recursive \<Longrightarrow> seg_glob h s \<Longrightarrow> path_glob ps ss \<Longrightarrow> path_glob (h # ps) (s # ss)"
| glob_rec: "path_glob ps ss \<Longrightarrow> path_glob (recursive # ps) (skipped @ ss)"

inductive_simps path_glob_nil: "path_glob [] target"
inductive_simps path_glob_cons: "path_glob (h # ps) target"

lemma match_segments_glob: "match_segments ps target \<longleftrightarrow> path_glob ps target"
proof (induction ps arbitrary: target)
  case Nil
  then show ?case by (auto simp: path_glob_nil)
next
  case (Cons h ps)
  show ?case
  proof (cases "h = recursive")
    case True
    have "path_glob (h # ps) target \<longleftrightarrow> (\<exists>t. suffix t target \<and> path_glob ps t)"
      using True by (auto simp: path_glob_cons suffix_def)
    with True Cons.IH show ?thesis by (auto simp: list_ex_iff in_tails)
  next
    case False
    with Cons.IH show ?thesis
      by (auto simp: path_glob_cons match_segment_glob split: list.splits)
  qed
qed

definition literal_seg :: "string \<Rightarrow> bool" where
  "literal_seg s = (star \<notin> set s)"

lemma literal_not_recursive: "literal_seg s \<Longrightarrow> s \<noteq> recursive"
  by (auto simp: literal_seg_def)

lemma match_literal_head:
  assumes "\<forall>s \<in> set lits. literal_seg s"
  shows "match_segments (lits @ ps) target \<longleftrightarrow> (\<exists>t. target = lits @ t \<and> match_segments ps t)"
  using assms
proof (induction lits arbitrary: target)
  case (Cons l lits)
  have "l \<noteq> recursive" using Cons.prems literal_not_recursive by simp
  moreover have "match_segment l s \<longleftrightarrow> l = s" for s
    using Cons.prems by (simp add: match_segment_literal literal_seg_def)
  ultimately show ?case using Cons by (cases target) auto
qed simp

lemma match_recursive_last: "match_segments [recursive] target"
  by (auto simp: list_ex_iff in_tails intro: exI [of _ "[]"])

section \<open>PathPattern\<close>

record path_pattern =
  pp_raw :: string
  pp_segments :: "string list"
  pp_home_anchored :: bool

definition strip_one_slash :: "string \<Rightarrow> string" where
  "strip_one_slash s = (if starts_with s ''/'' then drop 1 s else s)"

definition pattern_of :: "string \<Rightarrow> path_pattern res" where
  "pattern_of raw =
     (if CHR 0x00 \<in> set raw then Inl NulByte
      else let home_anchored = (raw = ''~'' \<or> starts_with raw ''~/'');
               body = (if home_anchored then strip_one_slash (drop 1 raw) else strip_one_slash raw)
           in if \<not> home_anchored \<and> \<not> starts_with raw ''/'' \<and> \<not> starts_with raw recursive
              then Inl Unanchored
              else Inr \<lparr>pp_raw = raw,
                        pp_segments = filter (\<lambda>s. 0 < length s) (split_on slash body),
                        pp_home_anchored = home_anchored\<rparr>)"

definition relative_to :: "abs_path \<Rightarrow> abs_path \<Rightarrow> string list option" where
  "relative_to home p =
     (if \<not> contains home p then None
      else if ap_value p = ap_value home then Some []
      else Some (split_on slash (drop (length (ap_value home) + 1) (ap_value p))))"

definition pattern_matches :: "path_pattern \<Rightarrow> abs_path \<Rightarrow> abs_path \<Rightarrow> bool" where
  "pattern_matches pat p home =
     (case (if pp_home_anchored pat then relative_to home p else Some (segments p)) of
        None \<Rightarrow> False
      | Some target \<Rightarrow> match_segments (pp_segments pat) target)"

definition literal_prefix :: "path_pattern \<Rightarrow> abs_path \<Rightarrow> abs_path option res" where
  "literal_prefix pat home =
     (let literal = takeWhile literal_seg (pp_segments pat)
      in if literal = [] then Inr (if pp_home_anchored pat then Some home else None)
         else rbind (if pp_home_anchored pat then Inr home else of_path ''/'')
                (\<lambda>base. rmap Some (path_join base literal)))"

definition descends_below_prefix :: "path_pattern \<Rightarrow> bool" where
  "descends_below_prefix pat =
     (let rest = dropWhile literal_seg (pp_segments pat)
      in if rest = [] then False else length rest > 1 \<or> recursive \<in> set rest)"

text \<open>A home that is a posix directory other than the root.\<close>

definition home_ok :: "abs_path \<Rightarrow> bool" where
  "home_ok home = (wf_path home \<and> ap_flavour home = Posix \<and> segments home \<noteq> [])"

lemma home_ok_E:
  assumes "home_ok home"
  obtains hs where "home = mk_posix hs" "\<forall>s \<in> set hs. seg_ok s" "hs \<noteq> []"
proof -
  have wf: "wf_path home" "ap_flavour home = Posix" and ne: "segments home \<noteq> []"
    using assms by (simp_all add: home_ok_def)
  obtain hs where hs: "home = mk_posix hs" "\<forall>s \<in> set hs. seg_ok s" using wf_posix_E [OF wf] .
  then have "hs \<noteq> []" using ne by simp
  with hs that show ?thesis by blast
qed

lemma relative_to_posix:
  assumes "\<forall>s \<in> set hs. seg_ok s" "hs \<noteq> []" "\<forall>s \<in> set ps. seg_ok s"
  shows "relative_to (mk_posix hs) (mk_posix ps) =
    (if prefix hs ps then Some (drop (length hs) ps) else None)"
proof -
  have c: "contains (mk_posix hs) (mk_posix ps) \<longleftrightarrow> prefix hs ps"
    using contains_iff [OF wf_mk_posix wf_mk_posix] assms by simp
  show ?thesis
  proof (cases "prefix hs ps")
    case True
    then obtain r where r: "ps = hs @ r" by (auto simp: prefix_def)
    then have okr: "\<forall>s \<in> set r. seg_ok s" using assms by simp
    show ?thesis
    proof (cases "r = []")
      case True
      with r c show ?thesis by (simp add: relative_to_def)
    next
      case False
      with r assms have "ap_value (mk_posix ps) = posix_path hs @ slash # join ''/'' r"
        by (simp add: posix_path_append)
      with False r c okr show ?thesis by (simp add: relative_to_def split_seg_ok)
    qed
  qed (simp add: relative_to_def c)
qed

lemma pattern_matches_home:
  assumes "home_ok home" "wf_path p" "pp_home_anchored pat"
  shows "pattern_matches pat p home \<longleftrightarrow>
    (\<exists>t. ap_flavour p = Posix \<and> segments p = segments home @ t \<and> match_segments (pp_segments pat) t)"
proof -
  obtain hs where hs: "home = mk_posix hs" "\<forall>s \<in> set hs. seg_ok s" "hs \<noteq> []"
    using home_ok_E [OF assms(1)] .
  show ?thesis
  proof (cases "ap_flavour p = Posix")
    case True
    obtain ps where ps: "p = mk_posix ps" "\<forall>s \<in> set ps. seg_ok s" using wf_posix_E [OF assms(2) True] .
    show ?thesis
      using relative_to_posix [OF hs(2,3) ps(2)] hs ps assms(3)
      by (auto simp: pattern_matches_def prefix_def)
  next
    case False
    then have "\<not> contains home p" using hs by (auto simp: contains_def)
    then show ?thesis using False assms(3) by (simp add: pattern_matches_def relative_to_def)
  qed
qed

lemma path_join_list:
  assumes "\<forall>s \<in> set parts. s \<noteq> []" "parts \<noteq> []" "ap_flavour p = Posix" "ap_value p \<noteq> []"
  shows "path_join p parts = path_join p [join ''/'' parts]"
proof -
  have f: "filter (\<lambda>s. s \<noteq> []) parts = parts" using assms(1) by (induction parts) auto
  have "join ''/'' parts \<noteq> []" using assms by (intro join_nonempty) auto
  then show ?thesis
    using assms f by (simp add: path_join_def is_windows_path_def posix_join_def join_Cons)
qed

lemma path_join_segs:
  assumes "\<forall>s \<in> set segs. seg_ok s" "\<forall>s \<in> set parts. seg_ok s" "parts \<noteq> []" "reparsable (segs @ parts)"
  shows "path_join (mk_posix segs) parts = Inr (mk_posix (segs @ parts))"
proof -
  have "path_join (mk_posix segs) parts = path_join (mk_posix segs) [join ''/'' parts]"
    by (rule path_join_list) (use assms(2,3) in \<open>auto dest: seg_ok_D simp: posix_path_def\<close>)
  then show ?thesis using path_join_posix_plain [OF assms] by simp
qed

text \<open>The segments of a pattern that survive normalisation unchanged.\<close>

definition pattern_ok :: "path_pattern \<Rightarrow> bool" where
  "pattern_ok pat =
     ((\<forall>s \<in> set (pp_segments pat). seg_ok s \<and> CHR 0x00 \<notin> set s) \<and>
      (\<not> pp_home_anchored pat \<longrightarrow> reparsable (takeWhile literal_seg (pp_segments pat))))"

lemma reparsable_append:
  "hs \<noteq> [] \<Longrightarrow> reparsable (hs @ xs) \<longleftrightarrow> reparsable hs \<and> (\<forall>s \<in> set xs. CHR 0x00 \<notin> set s)"
  by (auto simp: reparsable_def)

lemma of_path_root: "of_path ''/'' = Inr (mk_posix [])"
  using of_path_posix_path [of "[]" "[]"] by (simp add: reparsable_def posix_path_def)

lemma literal_prefix_eq:
  assumes "home_ok home" "reparsable (segments home)" "pattern_ok pat"
  shows "literal_prefix pat home =
    (let lits = takeWhile literal_seg (pp_segments pat)
     in Inr (if pp_home_anchored pat then Some (mk_posix (segments home @ lits))
             else if lits = [] then None else Some (mk_posix lits)))"
proof -
  obtain hs where hs: "home = mk_posix hs" "\<forall>s \<in> set hs. seg_ok s" "hs \<noteq> []"
    using home_ok_E [OF assms(1)] .
  let ?lits = "takeWhile literal_seg (pp_segments pat)"
  have ok: "\<forall>s \<in> set ?lits. seg_ok s \<and> CHR 0x00 \<notin> set s"
    using assms(3) by (auto simp: pattern_ok_def dest: set_takeWhileD)
  show ?thesis
  proof (cases "?lits = []")
    case False
    have "pp_home_anchored pat \<Longrightarrow> path_join home ?lits = Inr (mk_posix (hs @ ?lits))"
      unfolding hs(1)
      by (rule path_join_segs) (use hs assms ok False in \<open>auto simp: reparsable_append\<close>)
    moreover have "\<not> pp_home_anchored pat \<Longrightarrow> path_join (mk_posix []) ?lits = Inr (mk_posix ([] @ ?lits))"
      by (rule path_join_segs) (use assms(3) ok False in \<open>auto simp: pattern_ok_def\<close>)
    ultimately show ?thesis using False hs
      by (simp add: literal_prefix_def of_path_root Let_def)
  qed (simp add: literal_prefix_def hs)
qed

text \<open>Everything a pattern matches lies below its anchor.\<close>

lemma anchor_contains:
  assumes "home_ok home" "reparsable (segments home)" "pattern_ok pat"
    and "wf_path p" "ap_flavour p = Posix"
    and "literal_prefix pat home = Inr (Some a)" "pattern_matches pat p home"
  shows "contains a p"
proof -
  let ?lits = "takeWhile literal_seg (pp_segments pat)"
  let ?rest = "dropWhile literal_seg (pp_segments pat)"
  obtain hs where hs: "home = mk_posix hs" "\<forall>s \<in> set hs. seg_ok s" "hs \<noteq> []"
    using home_ok_E [OF assms(1)] .
  have lit: "\<forall>s \<in> set ?lits. literal_seg s" by (auto dest: set_takeWhileD)
  have oklit: "\<forall>s \<in> set ?lits. seg_ok s"
    using assms(3) by (auto simp: pattern_ok_def dest: set_takeWhileD)
  have split: "match_segments (pp_segments pat) t \<Longrightarrow> prefix ?lits t" for t
    using match_literal_head [OF lit, of ?rest t] by (auto simp: prefix_def)
  show ?thesis
  proof (cases "pp_home_anchored pat")
    case True
    then have a: "a = mk_posix (hs @ ?lits)" using literal_prefix_eq [OF assms(1-3)] assms(6) hs by (simp add: Let_def)
    from pattern_matches_home [OF assms(1,4) True] assms(7) obtain t where
      "segments p = hs @ t" "match_segments (pp_segments pat) t" using hs by auto
    then have "prefix (hs @ ?lits) (segments p)" using split by (auto simp: prefix_def)
    moreover have "\<forall>s \<in> set (hs @ ?lits). seg_ok s" using hs oklit by auto
    ultimately show ?thesis
      using contains_iff [OF wf_mk_posix assms(4)] assms(4,5) a by (simp add: wf_path_def)
  next
    case False
    then have a: "a = mk_posix ?lits"
      using literal_prefix_eq [OF assms(1-3)] assms(6) by (simp add: Let_def split: if_splits)
    have "prefix ?lits (segments p)"
      using assms(7) False split by (simp add: pattern_matches_def)
    then show ?thesis
      using contains_iff [OF wf_mk_posix [OF oklit] assms(4)] assms(4,5) a oklit by (simp add: wf_path_def)
  qed
qed

section \<open>ResourceRef\<close>

text \<open>
  \<open>PREFIX\<close> is an object literal, so looking a kind up also finds the properties every
  object inherits; \<open>InheritedScope\<close> is the scope such a lookup gives.
\<close>

datatype resource_scope = Subtree | SingleFile | InheritedScope string

record resource_ref =
  rr_scope :: resource_scope
  rr_path :: abs_path

definition inherited_names :: "string list" where
  "inherited_names =
     [''constructor'', ''__defineGetter__'', ''__defineSetter__'', ''hasOwnProperty'',
      ''__lookupGetter__'', ''__lookupSetter__'', ''isPrototypeOf'', ''propertyIsEnumerable'',
      ''toString'', ''valueOf'', ''__proto__'', ''toLocaleString'']"

definition scope_of_kind :: "string \<Rightarrow> resource_scope option" where
  "scope_of_kind kind =
     (if kind = ''dir'' then Some Subtree
      else if kind = ''file'' then Some SingleFile
      else if kind \<in> set inherited_names then Some (InheritedScope kind)
      else None)"

definition subtree_ref :: "abs_path \<Rightarrow> resource_ref" where
  "subtree_ref p = \<lparr>rr_scope = Subtree, rr_path = p\<rparr>"

definition file_ref :: "abs_path \<Rightarrow> resource_ref" where
  "file_ref p = \<lparr>rr_scope = SingleFile, rr_path = p\<rparr>"

definition resource_parse :: "string \<Rightarrow> abs_path \<Rightarrow> resource_ref res" where
  "resource_parse raw home =
     (let sep = index_of '':'' raw;
          kind = (case sep of None \<Rightarrow> [] | Some i \<Rightarrow> take i raw)
      in case scope_of_kind kind of
           None \<Rightarrow> Inl UnknownResource
         | Some scope \<Rightarrow>
             rmap (\<lambda>p. \<lparr>rr_scope = scope, rr_path = p\<rparr>)
               (from_user_path (case sep of None \<Rightarrow> raw | Some i \<Rightarrow> drop (i + 1) raw) home))"

definition ref_covers :: "resource_ref \<Rightarrow> abs_path \<Rightarrow> bool" where
  "ref_covers r candidate =
     (if rr_scope r = Subtree then contains (rr_path r) candidate else path_eq (rr_path r) candidate)"

definition subsumes :: "resource_ref \<Rightarrow> resource_ref \<Rightarrow> bool" where
  "subsumes r other =
     (if rr_scope r = SingleFile then rr_scope other = SingleFile \<and> path_eq (rr_path r) (rr_path other)
      else contains (rr_path r) (rr_path other))"

definition ref_eq :: "resource_ref \<Rightarrow> resource_ref \<Rightarrow> bool" where
  "ref_eq r other = (rr_scope r = rr_scope other \<and> path_eq (rr_path r) (rr_path other))"

definition to_resource_string :: "resource_ref \<Rightarrow> abs_path \<Rightarrow> string" where
  "to_resource_string r home =
     (if rr_scope r = Subtree then ''dir'' else ''file'') @ '':'' @ to_display (rr_path r) home"

lemma resource_parse_dir: "resource_parse (''dir:'' @ s) home = rmap subtree_ref (from_user_path s home)"
  by (simp add: resource_parse_def scope_of_kind_def subtree_ref_def [abs_def])

lemma resource_parse_file: "resource_parse (''file:'' @ s) home = rmap file_ref (from_user_path s home)"
  by (simp add: resource_parse_def scope_of_kind_def file_ref_def [abs_def])

lemma wf_posix_path_eq:
  assumes "wf_path p" "wf_path q" "ap_flavour p = Posix"
  shows "path_eq p q \<longleftrightarrow> p = q"
proof -
  have "ap_root p = ''/''" using assms(1,3) by (simp add: wf_path_def)
  moreover have "ap_flavour q = Posix \<Longrightarrow> ap_root q = ''/''" using assms(2) by (simp add: wf_path_def)
  ultimately show ?thesis using assms(3) by (auto simp: path_eq_def intro: abs_path.equality)
qed

lemma resource_roundtrip_aux:
  assumes "home_ok home" "wf_path (rr_path r)" "ap_flavour (rr_path r) = Posix"
    and "reparsable (segments (rr_path r))" "rr_scope r = Subtree \<or> rr_scope r = SingleFile"
  shows "resource_parse (to_resource_string r home) home = Inr r"
proof -
  have "from_user_path (to_display (rr_path r) home) home = Inr (rr_path r)"
    using display_roundtrip_aux assms by (auto simp: home_ok_def)
  then show ?thesis
    using assms(5) resource_parse_dir resource_parse_file
    by (auto simp: to_resource_string_def subtree_ref_def file_ref_def)
qed

section \<open>Properties\<close>

text \<open>The segment matcher, which searches the literal parts greedily from the left,
  decides exactly the declarative meaning of \<open>*\<close>: no match is lost by the greedy choice
  and none is invented.\<close>

theorem segment_matcher_correct: "match_segment p s \<longleftrightarrow> seg_glob p s"
  by (rule match_segment_glob)

text \<open>C15: where the home is a posix directory other than \<open>/\<close>, a pattern matches a posix path
  exactly when the path is the home directory (for a pattern anchored there) or the root,
  extended by segments that the pattern's segments describe, \<open>*\<close> within a segment and \<open>**\<close> over
  any number of them. Windows paths are not covered, and with the home \<open>/\<close> it is false, see
  \<open>root_home_loses_tilde\<close>.\<close>

theorem pattern_matcher_correct:
  assumes "home_ok home" "wf_path p" "ap_flavour p = Posix"
  shows "pattern_matches pat p home \<longleftrightarrow>
    (\<exists>t. segments p = (if pp_home_anchored pat then segments home else []) @ t \<and> path_glob (pp_segments pat) t)"
proof (cases "pp_home_anchored pat")
  case True
  with pattern_matches_home [OF assms(1,2)] assms(3) show ?thesis by (simp add: match_segments_glob)
next
  case False
  then show ?thesis by (simp add: pattern_matches_def match_segments_glob)
qed

lemma pattern_matcher_correct_witness:
  "pattern_matches \<lparr>pp_raw = ''~/.ssh/**'', pp_segments = [''.ssh'', recursive], pp_home_anchored = True\<rparr>
     (mk_posix [''home'', ''u'', ''.ssh'', ''id'']) (mk_posix [''home'', ''u''])"
proof -
  have h: "home_ok (mk_posix [''home'', ''u''])" "wf_path (mk_posix [''home'', ''u'', ''.ssh'', ''id''])"
    and s: "segments (mk_posix [''home'', ''u'', ''.ssh'', ''id'']) = [''home'', ''u'', ''.ssh'', ''id'']"
      "segments (mk_posix [''home'', ''u'']) = [''home'', ''u'']" by code_simp+
  have "path_glob [''.ssh'', recursive] [''.ssh'', ''id'']"
    unfolding match_segments_glob [symmetric] by code_simp
  with pattern_matcher_correct [OF h(1,2)] s show ?thesis by simp
qed

text \<open>With the home \<open>/\<close> the path relative to it lacks its first letter: \<open>slice\<close> skips a separator
  that the value of the root already ends with. A pattern for the home then misses the paths it
  names, and matches others.\<close>

lemma root_home_loses_tilde:
  "pattern_of ''~/.ssh/**'' = Inr \<lparr>pp_raw = ''~/.ssh/**'', pp_segments = [''.ssh'', recursive], pp_home_anchored = True\<rparr> \<and>
   relative_to (mk_posix []) (mk_posix [''.ssh'', ''id'']) = Some [''ssh'', ''id''] \<and>
   \<not> pattern_matches \<lparr>pp_raw = ''~/.ssh/**'', pp_segments = [''.ssh'', recursive], pp_home_anchored = True\<rparr>
       (mk_posix [''.ssh'', ''id'']) (mk_posix []) \<and>
   pattern_matches \<lparr>pp_raw = ''~/.ssh/**'', pp_segments = [''.ssh'', recursive], pp_home_anchored = True\<rparr>
       (mk_posix [''x.ssh'', ''id'']) (mk_posix [])"
  by (intro conjI; code_simp)

text \<open>Everything a pattern matches lies below its fixed anchor, \<open>literalPrefix\<close>.\<close>

theorem matches_below_anchor:
  assumes "home_ok home" "reparsable (segments home)" "pattern_ok pat" "wf_path p" "ap_flavour p = Posix"
    and "literal_prefix pat home = Inr (Some a)" "pattern_matches pat p home"
  shows "contains a p"
  by (rule anchor_contains [OF assms])

lemma matches_below_anchor_witness:
  "contains (mk_posix [''home'', ''u'', ''.ssh'']) (mk_posix [''home'', ''u'', ''.ssh'', ''id''])"
proof -
  let ?home = "mk_posix [''home'', ''u'']" and ?p = "mk_posix [''home'', ''u'', ''.ssh'', ''id'']"
  let ?pat = "\<lparr>pp_raw = ''~/.ssh/**'', pp_segments = [''.ssh'', recursive], pp_home_anchored = True\<rparr>"
  have "home_ok ?home" "reparsable (segments ?home)" "pattern_ok ?pat" "wf_path ?p" "ap_flavour ?p = Posix"
    "literal_prefix ?pat ?home = Inr (Some (mk_posix [''home'', ''u'', ''.ssh'']))"
    "pattern_matches ?pat ?p ?home" by code_simp+
  then show ?thesis by (rule matches_below_anchor)
qed

definition ref_ok :: "resource_ref \<Rightarrow> bool" where
  "ref_ok r = (wf_path (rr_path r) \<and> ap_flavour (rr_path r) = Posix \<and>
     (rr_scope r = Subtree \<or> rr_scope r = SingleFile))"

text \<open>A resource that subsumes another covers every path the other covers.\<close>

theorem subsumes_covers:
  assumes "ref_ok r" "ref_ok other" "wf_path p" "ap_flavour p = Posix"
    and "subsumes r other" "ref_covers other p"
  shows "ref_covers r p"
proof -
  have wf: "wf_path (rr_path r)" "wf_path (rr_path other)" "ap_flavour (rr_path other) = Posix"
    using assms by (simp_all add: ref_ok_def)
  have eq: "path_eq (rr_path other) p \<longleftrightarrow> rr_path other = p"
    using wf_posix_path_eq [OF wf(2) assms(3) wf(3)] .
  have eqr: "path_eq (rr_path r) (rr_path other) \<longleftrightarrow> rr_path r = rr_path other"
    using wf_posix_path_eq [OF wf(1,2)] assms(1) by (simp add: ref_ok_def)
  show ?thesis
  proof (cases "rr_scope r = SingleFile")
    case True
    with assms(5) eqr have "rr_path r = rr_path other" "rr_scope other = SingleFile" by (simp_all add: subsumes_def)
    with assms(6) True show ?thesis by (simp add: ref_covers_def)
  next
    case False
    then have r: "rr_scope r = Subtree" using assms(1) by (auto simp: ref_ok_def)
    have "contains (rr_path r) (rr_path other)" using assms(5) False by (simp add: subsumes_def)
    moreover have "contains (rr_path other) p"
      using assms(6) eq wf(2) apath.within_refl by (auto simp: ref_covers_def split: if_splits)
    ultimately have "contains (rr_path r) p" using apath.within_trans wf assms(3) by blast
    with r show ?thesis by (simp add: ref_covers_def)
  qed
qed

lemma subsumes_covers_witness: "ref_covers (subtree_ref (mk_posix [''p''])) (mk_posix [''p'', ''a'', ''b''])"
proof -
  have "ref_ok (subtree_ref (mk_posix [''p'']))" "ref_ok (subtree_ref (mk_posix [''p'', ''a'']))"
    "wf_path (mk_posix [''p'', ''a'', ''b''])" "ap_flavour (mk_posix [''p'', ''a'', ''b'']) = Posix"
    "subsumes (subtree_ref (mk_posix [''p''])) (subtree_ref (mk_posix [''p'', ''a'']))"
    "ref_covers (subtree_ref (mk_posix [''p'', ''a''])) (mk_posix [''p'', ''a'', ''b''])" by code_simp+
  then show ?thesis by (rule subsumes_covers)
qed

text \<open>A resource written with \<open>toResourceString\<close>, as grants are stored, is parsed
  back as the same resource.\<close>

theorem resource_roundtrip:
  assumes "home_ok home" "ref_ok r" "reparsable (segments (rr_path r))"
  shows "resource_parse (to_resource_string r home) home = Inr r"
  using assms by (intro resource_roundtrip_aux) (simp_all add: ref_ok_def)

lemma resource_roundtrip_witness:
  "resource_parse ''dir:~/src'' (mk_posix [''home'', ''u'']) = Inr (subtree_ref (mk_posix [''home'', ''u'', ''src'']))"
proof -
  let ?r = "subtree_ref (mk_posix [''home'', ''u'', ''src''])" and ?home = "mk_posix [''home'', ''u'']"
  have h: "home_ok ?home" "ref_ok ?r" "reparsable (segments (rr_path ?r))" by code_simp+
  have "to_resource_string ?r ?home = ''dir:~/src''" by code_simp
  with resource_roundtrip [OF h] show ?thesis by simp
qed

end
