(* ===== verification/Sensitive.thy ===== *)
theory Sensitive
  imports Patterns
begin

text \<open>
  \<open>src/domain/paths\<close>: the rows that say which paths are sensitive, their constructors
  per category, the registry over them and the shipped rows of \<open>registry.ts\<close>. The
  lemmas show that every row built pairs tier 2 with \<open>block\<close>, and that the shipped rows
  all build, have distinct ids and well-formed patterns. A typographic apostrophe of a
  rationale is written as an ASCII one.
\<close>

section \<open>Rows\<close>

datatype access = Read | Write

datatype sensitive_category = Credential | Persistence | History | Config

record path_context =
  ctx_home :: abs_path
  ctx_workspace :: abs_path
  ctx_platform :: platform

record sensitive_identity =
  si_id :: string
  si_pattern :: string
  si_platforms :: "platform list"
  si_rationale :: string
  si_outside :: "bool option"

record sensitive_path =
  sp_id :: string
  sp_pattern :: path_pattern
  sp_category :: sensitive_category
  sp_read_tier :: tier
  sp_write_tier :: tier
  sp_on_read :: disposition
  sp_on_write :: disposition
  sp_platforms :: "platform list"
  sp_rationale :: string
  sp_outside_only :: bool

definition build_row ::
  "sensitive_category \<Rightarrow> sensitive_identity \<Rightarrow> int \<Rightarrow> int \<Rightarrow> string \<Rightarrow> string \<Rightarrow> sensitive_path res" where
  "build_row category ident read_tier write_tier on_read on_write =
     (if (read_tier = 2) \<noteq> (on_read = ''block'') \<or> (write_tier = 2) \<noteq> (on_write = ''block'')
      then Inl (WeakRow (si_id ident))
      else rbind (pattern_of (si_pattern ident)) (\<lambda>pattern.
           rbind (tier_of_level read_tier) (\<lambda>rt.
           rbind (tier_of_level write_tier) (\<lambda>wt.
           rbind (disposition_of on_read) (\<lambda>rd.
           rbind (disposition_of on_write) (\<lambda>wd.
             Inr \<lparr>sp_id = si_id ident, sp_pattern = pattern, sp_category = category,
                  sp_read_tier = rt, sp_write_tier = wt, sp_on_read = rd, sp_on_write = wd,
                  sp_platforms = si_platforms ident, sp_rationale = si_rationale ident,
                  sp_outside_only = (case si_outside ident of None \<Rightarrow> False | Some b \<Rightarrow> b)\<rparr>))))))"

definition credential_row :: "sensitive_identity \<Rightarrow> sensitive_path res" where
  "credential_row ident = build_row Credential ident 2 2 ''block'' ''block''"

definition history_row :: "sensitive_identity \<Rightarrow> sensitive_path res" where
  "history_row ident = build_row History ident 2 2 ''block'' ''block''"

definition persistence_row :: "sensitive_identity \<Rightarrow> int \<Rightarrow> string \<Rightarrow> sensitive_path res" where
  "persistence_row ident read_tier on_read = build_row Persistence ident read_tier 2 on_read ''block''"

definition configuration_row ::
  "sensitive_identity \<Rightarrow> int \<Rightarrow> int \<Rightarrow> string \<Rightarrow> string \<Rightarrow> sensitive_path res" where
  "configuration_row ident read_tier write_tier on_read on_write =
     build_row Config ident read_tier write_tier on_read on_write"

definition tier_for :: "sensitive_path \<Rightarrow> access \<Rightarrow> tier" where
  "tier_for e a = (case a of Read \<Rightarrow> sp_read_tier e | Write \<Rightarrow> sp_write_tier e)"

definition disposition_for :: "sensitive_path \<Rightarrow> access \<Rightarrow> disposition" where
  "disposition_for e a = (case a of Read \<Rightarrow> sp_on_read e | Write \<Rightarrow> sp_on_write e)"

definition applies_on :: "sensitive_path \<Rightarrow> platform \<Rightarrow> bool" where
  "applies_on e p = (p \<in> set (sp_platforms e))"

definition entry_matches :: "sensitive_path \<Rightarrow> abs_path \<Rightarrow> path_context \<Rightarrow> bool" where
  "entry_matches e p ctx =
     (if \<not> applies_on e (ctx_platform ctx) then False
      else if sp_outside_only e \<and> contains (ctx_workspace ctx) p then False
      else pattern_matches (sp_pattern e) p (ctx_home ctx))"

definition entry_literal_prefix :: "sensitive_path \<Rightarrow> abs_path \<Rightarrow> abs_path option res" where
  "entry_literal_prefix e home = literal_prefix (sp_pattern e) home"

definition entry_descends_below_prefix :: "sensitive_path \<Rightarrow> bool" where
  "entry_descends_below_prefix e = descends_below_prefix (sp_pattern e)"

section \<open>The registry\<close>

record registry =
  reg_entries :: "sensitive_path list"

fun find_duplicate_id :: "string list \<Rightarrow> sensitive_path list \<Rightarrow> string option" where
  "find_duplicate_id seen [] = None"
| "find_duplicate_id seen (e # es) =
     (if sp_id e \<in> set seen then Some (sp_id e) else find_duplicate_id (sp_id e # seen) es)"

text \<open>The source tests the duplicate for truth, so an empty id is never reported.\<close>

definition registry_from_entries :: "sensitive_path list \<Rightarrow> registry res" where
  "registry_from_entries entries =
     (case find_duplicate_id [] entries of
        None \<Rightarrow> Inr \<lparr>reg_entries = entries\<rparr>
      | Some d \<Rightarrow> if d = [] then Inr \<lparr>reg_entries = entries\<rparr> else Inl (DuplicateId d))"

definition reg_for_platform :: "registry \<Rightarrow> platform \<Rightarrow> sensitive_path list" where
  "reg_for_platform r p = filter (\<lambda>e. applies_on e p) (reg_entries r)"

definition reg_matching :: "registry \<Rightarrow> abs_path \<Rightarrow> path_context \<Rightarrow> sensitive_path list" where
  "reg_matching r p ctx = filter (\<lambda>e. entry_matches e p ctx) (reg_entries r)"

definition reg_by_id :: "registry \<Rightarrow> string \<Rightarrow> sensitive_path option" where
  "reg_by_id r i = find (\<lambda>e. sp_id e = i) (reg_entries r)"

definition reg_dangerous_for :: "registry \<Rightarrow> platform \<Rightarrow> access \<Rightarrow> sensitive_path list" where
  "reg_dangerous_for r p a = filter (\<lambda>e. tier_level (tier_for e a) = 2) (reg_for_platform r p)"

section \<open>The shipped rows\<close>

definition sensitive_rows_1 :: "sensitive_path res list" where
  "sensitive_rows_1 =
  [credential_row
     \<lparr>si_id = ''ssh-keys'', si_pattern = ''~/.ssh/**'', si_platforms = all_platforms,
        si_rationale = ''Private keys grant access to every host and repository the user can reach.'',
        si_outside = None\<rparr>,
   credential_row
     \<lparr>si_id = ''aws-credentials'', si_pattern = ''~/.aws/**'', si_platforms = all_platforms,
        si_rationale = ''Long-lived cloud access keys; a leak is an account takeover.'',
        si_outside = None\<rparr>,
   credential_row
     \<lparr>si_id = ''gcloud-credentials'', si_pattern = ''~/.config/gcloud/**'', si_platforms = posix_platforms,
        si_rationale = ''Google Cloud refresh tokens and application default credentials.'',
        si_outside = None\<rparr>,
   credential_row
     \<lparr>si_id = ''kube-config'', si_pattern = ''~/.kube/**'', si_platforms = all_platforms,
        si_rationale = ''Cluster certificates and tokens, usually with administrative rights.'',
        si_outside = None\<rparr>,
   credential_row
     \<lparr>si_id = ''docker-config'', si_pattern = ''~/.docker/**'', si_platforms = all_platforms,
        si_rationale = ''Registry authentication tokens, and a daemon socket path on some setups.'',
        si_outside = None\<rparr>,
   credential_row
     \<lparr>si_id = ''netrc'', si_pattern = ''~/.netrc'', si_platforms = posix_platforms,
        si_rationale = ''Plaintext machine credentials used by curl, git and ftp clients.'',
        si_outside = None\<rparr>,
   credential_row
     \<lparr>si_id = ''npmrc'', si_pattern = ''~/.npmrc'', si_platforms = all_platforms,
        si_rationale = ''Publish tokens; also a registry override that redirects every install.'',
        si_outside = None\<rparr>,
   credential_row
     \<lparr>si_id = ''pypirc'', si_pattern = ''~/.pypirc'', si_platforms = all_platforms,
        si_rationale = ''PyPI upload tokens, enough to publish a package under the user name.'',
        si_outside = None\<rparr>,
   credential_row
     \<lparr>si_id = ''gh-hosts'', si_pattern = ''~/.config/gh/**'', si_platforms = posix_platforms,
        si_rationale = ''GitHub CLI OAuth tokens with repository and workflow scope.'',
        si_outside = None\<rparr>,
   credential_row
     \<lparr>si_id = ''rclone-config'', si_pattern = ''~/.config/rclone/**'', si_platforms = posix_platforms,
        si_rationale = ''Credentials for every configured remote storage backend.'',
        si_outside = None\<rparr>,
   credential_row
     \<lparr>si_id = ''macos-keychain'', si_pattern = ''~/Library/Keychains/**'', si_platforms = [Darwin],
        si_rationale = (''The user'' @ [CHR 0x27] @ ''s credential store; everything they ever saved lives here.''),
        si_outside = None\<rparr>,
   credential_row
     \<lparr>si_id = ''macos-system-keychain'', si_pattern = ''/Library/Keychains/**'', si_platforms = [Darwin],
        si_rationale = ''The machine-wide credential store: Wi-Fi and 802.1X secrets, and certificates whose private keys are guarded by a daemon that a stolen copy never has to ask.'',
        si_outside = None\<rparr>,
   credential_row
     \<lparr>si_id = ''macos-ssh-host-keys'', si_pattern = ''/private/etc/ssh/**'', si_platforms = [Darwin],
        si_rationale = ''Host private keys, present once Remote Login is enabled; they authenticate the machine itself.'',
        si_outside = None\<rparr>,
   credential_row
     \<lparr>si_id = ''macos-root-home'', si_pattern = ''/var/root/**'', si_platforms = [Darwin],
        si_rationale = (''The superuser'' @ [CHR 0x27] @ ''s home: an agent running with elevation finds credentials and history there.''),
        si_outside = None\<rparr>]"

definition sensitive_rows_2 :: "sensitive_path res list" where
  "sensitive_rows_2 =
  [credential_row
     \<lparr>si_id = ''macos-local-account-db'', si_pattern = ''/private/var/db/dslocal/**'', si_platforms = [Darwin],
        si_rationale = ''The local account database; password hashes and account metadata for every user of the machine.'',
        si_outside = None\<rparr>,
   credential_row
     \<lparr>si_id = ''macos-sudoers'', si_pattern = ''/private/etc/sudoers'', si_platforms = [Darwin],
        si_rationale = ''Privilege escalation rules; read access reveals who may sudo and how to bypass.'',
        si_outside = None\<rparr>,
   credential_row
     \<lparr>si_id = ''macos-sudoers-d'', si_pattern = ''/private/etc/sudoers.d/**'', si_platforms = [Darwin],
        si_rationale = ''Drop-in privilege rules; the same sensitivity as the main sudoers file.'',
        si_outside = None\<rparr>,
   credential_row
     \<lparr>si_id = ''gnupg'', si_pattern = ''~/.gnupg/**'', si_platforms = posix_platforms,
        si_rationale = ''Signing and encryption private keys.'',
        si_outside = None\<rparr>,
   credential_row
     \<lparr>si_id = ''env-file-outside-workspace'', si_pattern = ''**/.env'', si_platforms = all_platforms,
        si_rationale = (''Another project'' @ [CHR 0x27] @ ''s environment file is the fastest route to its secrets.''),
        si_outside = Some True\<rparr>,
   credential_row
     \<lparr>si_id = ''env-variant-outside-workspace'', si_pattern = ''**/.env.*'', si_platforms = all_platforms,
        si_rationale = ''Environment overlays of neighbouring projects hold the same secrets.'',
        si_outside = Some True\<rparr>,
   credential_row
     \<lparr>si_id = ''chrome-profile-macos'', si_pattern = ''~/Library/Application Support/Google/Chrome/**'', si_platforms = [Darwin],
        si_rationale = ''Session cookies and saved passwords of every logged-in service.'',
        si_outside = None\<rparr>,
   credential_row
     \<lparr>si_id = ''chromium-profile-linux'', si_pattern = ''~/.config/google-chrome/**'', si_platforms = [Linux],
        si_rationale = ''Session cookies and saved passwords of every logged-in service.'',
        si_outside = None\<rparr>,
   credential_row
     \<lparr>si_id = ''safari-profile'', si_pattern = ''~/Library/Safari/**'', si_platforms = [Darwin],
        si_rationale = ''Browsing history and site data, including authenticated sessions.'',
        si_outside = None\<rparr>,
   credential_row
     \<lparr>si_id = ''firefox-profile'', si_pattern = ''~/.mozilla/firefox/**'', si_platforms = posix_platforms,
        si_rationale = ''logins.json and cookies.sqlite hold decryptable saved credentials.'',
        si_outside = None\<rparr>,
   credential_row
     \<lparr>si_id = ''chrome-profile-windows'', si_pattern = ''~/appdata/local/google/chrome/user data/**'', si_platforms = [Win32],
        si_rationale = ''Chrome cookies and saved sessions provide authenticated access to web services.'',
        si_outside = None\<rparr>,
   credential_row
     \<lparr>si_id = ''edge-profile-windows'', si_pattern = ''~/appdata/local/microsoft/edge/user data/**'', si_platforms = [Win32],
        si_rationale = ''Edge cookies and saved sessions provide authenticated access to web services.'',
        si_outside = None\<rparr>,
   credential_row
     \<lparr>si_id = ''firefox-profile-windows'', si_pattern = ''~/appdata/roaming/mozilla/firefox/**'', si_platforms = [Win32],
        si_rationale = ''Firefox profiles contain saved logins, cookies and authenticated sessions.'',
        si_outside = None\<rparr>,
   persistence_row
     \<lparr>si_id = ''zsh-env'', si_pattern = ''~/.zshenv'', si_platforms = posix_platforms,
        si_rationale = ''Read by every zsh invocation including non-interactive ones: the best foothold on macOS.'',
        si_outside = None\<rparr> 2 ''block'']"

definition sensitive_rows_3 :: "sensitive_path res list" where
  "sensitive_rows_3 =
  [persistence_row
     \<lparr>si_id = ''zsh-rc'', si_pattern = ''~/.zshrc'', si_platforms = posix_platforms,
        si_rationale = ''Runs on every interactive shell; survives deletion of the repository.'',
        si_outside = None\<rparr> 2 ''block'',
   persistence_row
     \<lparr>si_id = ''bash-rc'', si_pattern = ''~/.bashrc'', si_platforms = posix_platforms,
        si_rationale = ''Runs on every interactive bash shell.'',
        si_outside = None\<rparr> 2 ''block'',
   persistence_row
     \<lparr>si_id = ''bash-profile'', si_pattern = ''~/.bash_profile'', si_platforms = posix_platforms,
        si_rationale = ''Runs on every bash login shell.'',
        si_outside = None\<rparr> 2 ''block'',
   persistence_row
     \<lparr>si_id = ''sh-profile'', si_pattern = ''~/.profile'', si_platforms = posix_platforms,
        si_rationale = ''Runs on login for every POSIX shell.'',
        si_outside = None\<rparr> 2 ''block'',
   persistence_row
     \<lparr>si_id = ''fish-config'', si_pattern = ''~/.config/fish/**'', si_platforms = posix_platforms,
        si_rationale = ''config.fish and conf.d run on every fish shell start.'',
        si_outside = None\<rparr> 2 ''block'',
   persistence_row
     \<lparr>si_id = ''git-config'', si_pattern = ''~/.gitconfig'', si_platforms = all_platforms,
        si_rationale = ''core.hooksPath, credential.helper and shell aliases each execute code.'',
        si_outside = None\<rparr> 1 ''observe'',
   persistence_row
     \<lparr>si_id = ''git-config-xdg'', si_pattern = ''~/.config/git/**'', si_platforms = posix_platforms,
        si_rationale = ''XDG location of the same git configuration.'',
        si_outside = None\<rparr> 1 ''observe'',
   persistence_row
     \<lparr>si_id = ''ssh-authorized-keys'', si_pattern = ''~/.ssh/authorized_keys'', si_platforms = all_platforms,
        si_rationale = ''Appending a key grants permanent remote access to the machine.'',
        si_outside = None\<rparr> 2 ''block'',
   persistence_row
     \<lparr>si_id = ''ssh-client-config'', si_pattern = ''~/.ssh/config'', si_platforms = all_platforms,
        si_rationale = ''ProxyCommand and LocalCommand execute on every outgoing connection.'',
        si_outside = None\<rparr> 2 ''block'',
   persistence_row
     \<lparr>si_id = ''launch-agents'', si_pattern = ''~/Library/LaunchAgents/**'', si_platforms = [Darwin],
        si_rationale = ''A plist here runs at every login without any further user action.'',
        si_outside = None\<rparr> 2 ''block'',
   persistence_row
     \<lparr>si_id = ''system-launchd'', si_pattern = ''/Library/LaunchAgents/**'', si_platforms = [Darwin],
        si_rationale = ''System-wide agents run for every user; their arguments can embed credentials.'',
        si_outside = None\<rparr> 2 ''block'']"

definition sensitive_rows_4 :: "sensitive_path res list" where
  "sensitive_rows_4 =
  [persistence_row
     \<lparr>si_id = ''system-launch-daemons'', si_pattern = ''/Library/LaunchDaemons/**'', si_platforms = [Darwin],
        si_rationale = ''Root daemons are the strongest macOS persistence; their plists can embed secrets.'',
        si_outside = None\<rparr> 2 ''block'',
   persistence_row
     \<lparr>si_id = ''systemd-user-units'', si_pattern = ''~/.config/systemd/user/**'', si_platforms = [Linux],
        si_rationale = ''A user unit starts at login and restarts itself on failure.'',
        si_outside = None\<rparr> 2 ''block'',
   persistence_row
     \<lparr>si_id = ''powershell-core-profile'', si_pattern = ''~/documents/powershell/**'', si_platforms = [Win32],
        si_rationale = ''PowerShell profile scripts execute whenever a PowerShell session starts.'',
        si_outside = None\<rparr> 2 ''block'',
   persistence_row
     \<lparr>si_id = ''windows-powershell-profile'', si_pattern = ''~/documents/windowspowershell/**'', si_platforms = [Win32],
        si_rationale = ''Windows PowerShell profile scripts execute whenever a legacy session starts.'',
        si_outside = None\<rparr> 2 ''block'',
   persistence_row
     \<lparr>si_id = ''windows-startup-folder'', si_pattern = ''~/appdata/roaming/microsoft/windows/start menu/programs/startup/**'', si_platforms = [Win32],
        si_rationale = ''Programs placed in the per-user Startup folder execute at every login.'',
        si_outside = None\<rparr> 2 ''block'',
   persistence_row
     \<lparr>si_id = ''crontab-macos'', si_pattern = ''/private/var/at/tabs/**'', si_platforms = [Darwin],
        si_rationale = ''Scheduled execution that outlives the session.'',
        si_outside = None\<rparr> 2 ''block'',
   persistence_row
     \<lparr>si_id = ''crontab-linux'', si_pattern = ''/var/spool/cron/**'', si_platforms = [Linux],
        si_rationale = ''Scheduled execution that outlives the session.'',
        si_outside = None\<rparr> 2 ''block'',
   history_row
     \<lparr>si_id = ''zsh-history'', si_pattern = ''~/.zsh_history'', si_platforms = posix_platforms,
        si_rationale = ''Command lines regularly contain tokens pasted as arguments.'',
        si_outside = None\<rparr>,
   history_row
     \<lparr>si_id = ''bash-history'', si_pattern = ''~/.bash_history'', si_platforms = posix_platforms,
        si_rationale = ''Command lines regularly contain tokens pasted as arguments.'',
        si_outside = None\<rparr>,
   history_row
     \<lparr>si_id = ''psql-history'', si_pattern = ''~/.psql_history'', si_platforms = posix_platforms,
        si_rationale = ''Database queries with embedded connection strings and data.'',
        si_outside = None\<rparr>,
   history_row
     \<lparr>si_id = ''node-repl-history'', si_pattern = ''~/.node_repl_history'', si_platforms = all_platforms,
        si_rationale = ''REPL sessions frequently contain pasted keys.'',
        si_outside = None\<rparr>,
   persistence_row
     \<lparr>si_id = ''claude-settings'', si_pattern = ''~/.claude/settings*.json'', si_platforms = all_platforms,
        si_rationale = ''SessionStart and PreToolUse hooks here run on the next agent start.'',
        si_outside = None\<rparr> 1 ''observe'']"

definition sensitive_rows_5 :: "sensitive_path res list" where
  "sensitive_rows_5 =
  [persistence_row
     \<lparr>si_id = ''claude-config'', si_pattern = ''~/.claude.json'', si_platforms = all_platforms,
        si_rationale = ''Global agent configuration, including approved MCP servers.'',
        si_outside = None\<rparr> 1 ''observe'',
   persistence_row
     \<lparr>si_id = ''gemini-settings'', si_pattern = ''~/.gemini/settings.json'', si_platforms = all_platforms,
        si_rationale = ''Global agent configuration, including tool and MCP permissions.'',
        si_outside = None\<rparr> 1 ''observe'',
   persistence_row
     \<lparr>si_id = ''cursor-mcp'', si_pattern = ''~/.cursor/mcp.json'', si_platforms = all_platforms,
        si_rationale = ''MCP server definitions execute an arbitrary command at session start.'',
        si_outside = None\<rparr> 1 ''observe'',
   persistence_row
     \<lparr>si_id = ''agentkeeper-state'', si_pattern = ''~/.agentkeeper/**'', si_platforms = all_platforms,
        si_rationale = ''Self-protection: an agent that can edit its own allowlist has none.'',
        si_outside = None\<rparr> 1 ''observe'',
   configuration_row
     \<lparr>si_id = ''xdg-tool-config'', si_pattern = ''~/.config/**'', si_platforms = posix_platforms,
        si_rationale = ''Editor and tool settings: useful to the agent, cheap to grant, no secrets by itself.'',
        si_outside = None\<rparr> 1 1 ''observe'' ''observe'']"

definition sensitive_paths :: "sensitive_path list res" where
  "sensitive_paths =
     traverse (\<lambda>row. row)
       (sensitive_rows_1 @ sensitive_rows_2 @ sensitive_rows_3 @ sensitive_rows_4 @ sensitive_rows_5)"

definition default_registry :: "registry res" where
  "default_registry = rbind sensitive_paths registry_from_entries"

section \<open>What building a row guarantees\<close>

text \<open>Tier 2 and \<open>block\<close> go together, for both operations.\<close>

definition row_consistent :: "sensitive_path \<Rightarrow> bool" where
  "row_consistent e =
     (\<forall>a \<in> {Read, Write}. tier_for e a = Dangerous \<longleftrightarrow> disposition_for e a = Block)"

lemma row_consistentD: "row_consistent e \<Longrightarrow> tier_for e a = Dangerous \<longleftrightarrow> disposition_for e a = Block"
  by (cases a) (auto simp: row_consistent_def)

lemma tier_of_level_Inr: "tier_of_level l = Inr t \<longleftrightarrow> l = tier_level t"
  by (cases t) (auto simp: tier_of_level_def split: if_splits)

lemma disposition_of_Inr: "disposition_of n = Inr d \<longleftrightarrow> n = disposition_name d"
  by (cases d) (auto simp: disposition_of_def disposition_name_def split: if_splits)

lemma disposition_name_block [simp]: "disposition_name d = ''block'' \<longleftrightarrow> d = Block"
  by (cases d) (simp_all add: disposition_name_def)

lemma block_disposition_name [simp]: "''block'' = disposition_name d \<longleftrightarrow> d = Block"
  by (cases d) (simp_all add: disposition_name_def)

lemma tier_level_two [simp]: "tier_level t = 2 \<longleftrightarrow> t = Dangerous"
  by (cases t) simp_all

lemma build_row_sel:
  assumes "build_row c ident rt wt rd wd = Inr e"
  shows "rt = tier_level (sp_read_tier e)" "wt = tier_level (sp_write_tier e)"
    "rd = disposition_name (sp_on_read e)" "wd = disposition_name (sp_on_write e)"
    "sp_category e = c" "sp_id e = si_id ident" "pattern_of (si_pattern ident) = Inr (sp_pattern e)"
    "row_consistent e"
  using assms
  by (auto simp: build_row_def tier_of_level_Inr disposition_of_Inr row_consistent_def tier_for_def
      disposition_for_def split: if_splits)

lemma find_duplicate_None:
  "find_duplicate_id seen es = None \<longleftrightarrow> distinct (map sp_id es) \<and> set (map sp_id es) \<inter> set seen = {}"
  by (induction es arbitrary: seen) auto

section \<open>The shipped rows are well formed\<close>

text \<open>
  A pattern without wildcards, or with a single wildcard segment after its literal
  part. Every anchored row has this shape, and for it a location above what it matches
  is above its anchor or matched itself.
\<close>

definition anchor_shape :: "path_pattern \<Rightarrow> bool" where
  "anchor_shape pat =
     (takeWhile literal_seg (pp_segments pat) = [] \<or> length (dropWhile literal_seg (pp_segments pat)) \<le> 1)"

definition entry_ok :: "sensitive_path \<Rightarrow> bool" where
  "entry_ok e =
     (pattern_ok (sp_pattern e) \<and> anchor_shape (sp_pattern e) \<and> row_consistent e \<and> sp_id e \<noteq> [] \<and>
      (sp_category e \<in> {Credential, History} \<longrightarrow> sp_read_tier e = Dangerous \<and> sp_write_tier e = Dangerous) \<and>
      (sp_category e = Persistence \<longrightarrow> sp_write_tier e = Dangerous) \<and>
      (pp_home_anchored (sp_pattern e) \<longrightarrow> takeWhile literal_seg (pp_segments (sp_pattern e)) \<noteq> []))"

definition row_ok :: "sensitive_path res \<Rightarrow> bool" where
  "row_ok r = (case r of Inl _ \<Rightarrow> False | Inr e \<Rightarrow> entry_ok e)"

definition row_id :: "sensitive_path res \<Rightarrow> string" where
  "row_id r = (case r of Inl _ \<Rightarrow> [] | Inr e \<Rightarrow> sp_id e)"

definition registry_ok :: "registry \<Rightarrow> bool" where
  "registry_ok r = ((\<forall>e \<in> set (reg_entries r). entry_ok e) \<and> distinct (map sp_id (reg_entries r)))"

lemma row_okE:
  assumes "row_ok r"
  obtains e where "r = Inr e" "entry_ok e" "row_id r = sp_id e"
  using assms by (cases r) (auto simp: row_ok_def row_id_def)

lemma traverse_rows:
  assumes "\<forall>r \<in> set rows. row_ok r"
  shows "\<exists>es. traverse (\<lambda>row. row) rows = Inr es \<and> (\<forall>e \<in> set es. entry_ok e) \<and>
    map sp_id es = map row_id rows"
  using assms
proof (induction rows)
  case (Cons r rows)
  obtain e where e: "r = Inr e" "entry_ok e" "row_id r = sp_id e" using Cons.prems row_okE by auto
  from Cons obtain es where "traverse (\<lambda>row. row) rows = Inr es" "\<forall>e \<in> set es. entry_ok e"
    "map sp_id es = map row_id rows" by auto
  with e show ?case by (intro exI [of _ "e # es"]) simp
qed simp

lemma rows_1_ok: "list_all row_ok sensitive_rows_1"
  by code_simp

lemma rows_2_ok: "list_all row_ok sensitive_rows_2"
  by code_simp

lemma rows_3_ok: "list_all row_ok sensitive_rows_3"
  by code_simp

lemma rows_4_ok: "list_all row_ok sensitive_rows_4"
  by code_simp

lemma rows_5_ok: "list_all row_ok sensitive_rows_5"
  by code_simp

lemma row_ids_distinct:
  "distinct (map row_id
     (sensitive_rows_1 @ sensitive_rows_2 @ sensitive_rows_3 @ sensitive_rows_4 @ sensitive_rows_5))"
  by code_simp

lemma default_registry_ok: "\<exists>r. default_registry = Inr r \<and> registry_ok r"
proof -
  let ?rows = "sensitive_rows_1 @ sensitive_rows_2 @ sensitive_rows_3 @ sensitive_rows_4 @ sensitive_rows_5"
  have "\<forall>r \<in> set ?rows. row_ok r"
    using rows_1_ok rows_2_ok rows_3_ok rows_4_ok rows_5_ok by (auto simp: list_all_iff)
  from traverse_rows [OF this] obtain es where
    es: "sensitive_paths = Inr es" "\<forall>e \<in> set es. entry_ok e" "map sp_id es = map row_id ?rows"
    unfolding sensitive_paths_def by blast
  have "distinct (map sp_id es)" unfolding es(3) by (rule row_ids_distinct)
  then have "find_duplicate_id [] es = None" by (simp add: find_duplicate_None)
  then have "default_registry = Inr \<lparr>reg_entries = es\<rparr>"
    by (simp add: default_registry_def es(1) registry_from_entries_def)
  with es(2) \<open>distinct (map sp_id es)\<close> show ?thesis
    by (intro exI [of _ "\<lparr>reg_entries = es\<rparr>"]) (simp add: registry_ok_def)
qed

section \<open>Properties\<close>

text \<open>A row can be built only when tier 2 and \<open>block\<close> go together for both operations,
  and credentials and histories are tier 2 for both.\<close>

theorem built_row_consistent:
  assumes "r \<in> {credential_row ident, history_row ident, persistence_row ident rt rd, configuration_row ident rt wt rd wd}"
    and "r = Inr e"
  shows "(\<forall>a. tier_for e a = Dangerous \<longleftrightarrow> disposition_for e a = Block) \<and> sp_id e = si_id ident \<and>
    (sp_category e \<in> {Credential, History} \<longrightarrow> (\<forall>a. tier_for e a = Dangerous)) \<and>
    (sp_category e = Persistence \<longrightarrow> tier_for e Write = Dangerous)"
proof -
  obtain c x y z w where b: "build_row c ident x y z w = Inr e"
    "c \<in> {Credential, History} \<Longrightarrow> x = 2 \<and> y = 2" "c = Persistence \<Longrightarrow> y = 2"
    using assms
    by (fastforce simp: credential_row_def history_row_def persistence_row_def configuration_row_def)
  note sel = build_row_sel [OF b(1)]
  have dangerous: "t = Dangerous" if "2 = tier_level t" for t using that by (cases t) simp_all
  have "sp_category e \<in> {Credential, History} \<Longrightarrow> tier_for e a = Dangerous" for a
    using b(2) sel(1,2,5) dangerous by (cases a) (auto simp: tier_for_def)
  moreover have "sp_category e = Persistence \<Longrightarrow> tier_for e Write = Dangerous"
    using b(3) sel(2,5) dangerous by (auto simp: tier_for_def)
  ultimately show ?thesis using row_consistentD [OF sel(8)] sel(6) by blast
qed

lemma built_row_consistent_witness:
  "\<exists>e. credential_row \<lparr>si_id = ''k'', si_pattern = ''~/.ssh/**'', si_platforms = [Linux],
      si_rationale = ''keys'', si_outside = None\<rparr> = Inr e \<and> tier_for e Read = Dangerous"
proof -
  let ?i = "\<lparr>si_id = ''k'', si_pattern = ''~/.ssh/**'', si_platforms = [Linux],
      si_rationale = ''keys'', si_outside = None\<rparr>"
  let ?e = "\<lparr>sp_id = ''k'', sp_pattern = \<lparr>pp_raw = ''~/.ssh/**'', pp_segments = [''.ssh'', recursive],
      pp_home_anchored = True\<rparr>, sp_category = Credential, sp_read_tier = Dangerous, sp_write_tier = Dangerous,
      sp_on_read = Block, sp_on_write = Block, sp_platforms = [Linux], sp_rationale = ''keys'',
      sp_outside_only = False\<rparr>"
  have e: "credential_row ?i = Inr ?e" by code_simp
  from built_row_consistent [OF _ e, of ?i 0 "[]" 0 "[]"] e
  have "tier_for ?e Read = Dangerous" by simp
  with e show ?thesis by blast
qed

text \<open>The shipped rows all build, and the registry over them has distinct ids, tier 2
  paired with \<open>block\<close>, and patterns whose anchors decide what a tree can reach.\<close>

theorem shipped_registry_ok: "\<exists>r. default_registry = Inr r \<and> registry_ok r"
  by (rule default_registry_ok)

end
