(* ===== verification/Tiers.thy ===== *)
theory Tiers
  imports Sensitive
begin

text \<open>
  \<open>src/domain/policy/AccessTierResolver.ts\<close>: the one decision about a path and an
  operation, whether a resource may be handed over at runtime, and the memo of tier 2
  anchors. The lemmas show that tier and disposition never disagree, that a granted
  subtree holds nothing an anchored tier 2 row matches, and that the memo never changes
  an answer. The locale \<open>runtime_gate\<close> is the interface of the gate.
\<close>

section \<open>The decision\<close>

record access_decision =
  ad_matches :: "sensitive_path list"
  ad_access :: access

definition decision_tier :: "access_decision \<Rightarrow> tier" where
  "decision_tier d =
     (if list_ex (\<lambda>e. tier_level (tier_for e (ad_access d)) = 2) (ad_matches d) then Dangerous else Everyday)"

definition decision_disposition :: "access_decision \<Rightarrow> disposition" where
  "decision_disposition d = strictest (map (\<lambda>e. disposition_for e (ad_access d)) (ad_matches d))"

definition decision_explanation :: "access_decision \<Rightarrow> sensitive_path option" where
  "decision_explanation d =
     (case find (\<lambda>e. tier_level (tier_for e (ad_access d)) = 2) (ad_matches d) of
        Some e \<Rightarrow> Some e
      | None \<Rightarrow> (case ad_matches d of [] \<Rightarrow> None | m # _ \<Rightarrow> Some m))"

definition decide :: "registry \<Rightarrow> abs_path \<Rightarrow> access \<Rightarrow> path_context \<Rightarrow> access_decision" where
  "decide reg p a ctx = \<lparr>ad_matches = reg_matching reg p ctx, ad_access = a\<rparr>"

definition tier_of :: "registry \<Rightarrow> abs_path \<Rightarrow> access \<Rightarrow> path_context \<Rightarrow> tier" where
  "tier_of reg p a ctx = decision_tier (decide reg p a ctx)"

definition disposition_of_path :: "registry \<Rightarrow> abs_path \<Rightarrow> access \<Rightarrow> path_context \<Rightarrow> disposition" where
  "disposition_of_path reg p a ctx = decision_disposition (decide reg p a ctx)"

definition explain :: "registry \<Rightarrow> abs_path \<Rightarrow> access \<Rightarrow> path_context \<Rightarrow> sensitive_path option" where
  "explain reg p a ctx = decision_explanation (decide reg p a ctx)"

lemma decision_tier_dangerous:
  "decision_tier d = Dangerous \<longleftrightarrow> (\<exists>e \<in> set (ad_matches d). tier_for e (ad_access d) = Dangerous)"
  by (auto simp: decision_tier_def list_ex_iff)

lemma tier_of_dangerous:
  "tier_of reg p a ctx = Dangerous \<longleftrightarrow>
     (\<exists>e \<in> set (reg_entries reg). entry_matches e p ctx \<and> tier_for e a = Dangerous)"
  by (auto simp: tier_of_def decision_tier_dangerous decide_def reg_matching_def)

lemma tier_of_dangerous_for:
  "tier_of reg p a ctx = Dangerous \<longleftrightarrow>
     (\<exists>e \<in> set (reg_dangerous_for reg (ctx_platform ctx) a). entry_matches e p ctx)"
  by (auto simp: tier_of_dangerous reg_dangerous_for_def reg_for_platform_def entry_matches_def)

text \<open>Tier, disposition and explanation come from one match set and agree.\<close>

lemma decision_agrees:
  assumes "\<forall>e \<in> set (ad_matches d). row_consistent e"
  shows "decision_tier d = Dangerous \<longleftrightarrow> decision_disposition d = Block"
    and "decision_tier d = Dangerous \<longleftrightarrow>
      (\<exists>e. decision_explanation d = Some e \<and> tier_for e (ad_access d) = Dangerous)"
proof -
  show "decision_tier d = Dangerous \<longleftrightarrow> decision_disposition d = Block"
    using assms row_consistentD
    by (force simp: decision_tier_dangerous decision_disposition_def strictest_block)
  show "decision_tier d = Dangerous \<longleftrightarrow>
      (\<exists>e. decision_explanation d = Some e \<and> tier_for e (ad_access d) = Dangerous)"
  proof (cases "find (\<lambda>e. tier_level (tier_for e (ad_access d)) = 2) (ad_matches d)")
    case None
    then have "decision_tier d \<noteq> Dangerous" by (auto simp: decision_tier_dangerous find_None_all)
    moreover have "e \<in> set (ad_matches d)" if "decision_explanation d = Some e" for e
      using that unfolding decision_explanation_def None by (auto split: list.splits)
    ultimately show ?thesis by (auto simp: decision_tier_dangerous)
  next
    case (Some e)
    from find_Some_in [OF this] Some show ?thesis
      by (auto simp: decision_tier_dangerous decision_explanation_def)
  qed
qed

section \<open>Granting at runtime\<close>

definition options_to_list :: "'a option list \<Rightarrow> 'a list" where
  "options_to_list xs = concat (map (\<lambda>x. case x of None \<Rightarrow> [] | Some y \<Rightarrow> [y]) xs)"

lemma set_options_to_list: "set (options_to_list xs) = {y. Some y \<in> set xs}"
  by (force simp: options_to_list_def split: option.splits)

definition compute_anchors :: "registry \<Rightarrow> access \<Rightarrow> path_context \<Rightarrow> abs_path list res" where
  "compute_anchors reg a ctx =
     rmap options_to_list
       (traverse (\<lambda>e. entry_literal_prefix e (ctx_home ctx)) (reg_dangerous_for reg (ctx_platform ctx) a))"

definition swallows :: "resource_ref \<Rightarrow> abs_path list \<Rightarrow> bool" where
  "swallows r anchors = list_ex (\<lambda>anchor. contains (rr_path r) anchor) anchors"

text \<open>The answer of \<open>canGrantAtRuntime\<close> without the memo.\<close>

definition can_grant :: "registry \<Rightarrow> resource_ref \<Rightarrow> access \<Rightarrow> path_context \<Rightarrow> bool res" where
  "can_grant reg r a ctx =
     (if \<not> can_be_granted_at_runtime (decision_tier (decide reg (rr_path r) a ctx)) then Inr False
      else if rr_scope r = SingleFile then Inr True
      else rbind (compute_anchors reg a ctx) (\<lambda>anchors. Inr (\<not> swallows r anchors)))"

section \<open>The resolver with its memo\<close>

definition access_name :: "access \<Rightarrow> string" where
  "access_name a = (case a of Read \<Rightarrow> ''read'' | Write \<Rightarrow> ''write'')"

record resolver =
  rs_registry :: registry
  rs_cache :: "string \<rightharpoonup> abs_path list"

definition new_resolver :: "registry \<Rightarrow> resolver" where
  "new_resolver reg = \<lparr>rs_registry = reg, rs_cache = Map.empty\<rparr>"

definition cache_key :: "access \<Rightarrow> path_context \<Rightarrow> string" where
  "cache_key a ctx = platform_name (ctx_platform ctx) @ '':'' @ access_name a @ '':'' @ ap_value (ctx_home ctx)"

definition dangerous_anchors ::
  "resolver \<Rightarrow> access \<Rightarrow> path_context \<Rightarrow> (abs_path list \<times> resolver) res" where
  "dangerous_anchors rs a ctx =
     (let key = cache_key a ctx
      in case rs_cache rs key of
           Some cached \<Rightarrow> Inr (cached, rs)
         | None \<Rightarrow> rmap (\<lambda>anchors. (anchors, rs\<lparr>rs_cache := (rs_cache rs)(key \<mapsto> anchors)\<rparr>))
                     (compute_anchors (rs_registry rs) a ctx))"

definition can_grant_at_runtime ::
  "resolver \<Rightarrow> resource_ref \<Rightarrow> access \<Rightarrow> path_context \<Rightarrow> (bool \<times> resolver) res" where
  "can_grant_at_runtime rs r a ctx =
     (if \<not> can_be_granted_at_runtime (decision_tier (decide (rs_registry rs) (rr_path r) a ctx))
      then Inr (False, rs)
      else if rr_scope r = SingleFile then Inr (True, rs)
      else rmap (\<lambda>(anchors, rs'). (\<not> swallows r anchors, rs')) (dangerous_anchors rs a ctx))"

text \<open>
  What the memo may hold: for each key, the anchors of every posix context with that
  key. The key names the platform, the operation and the text of the home, which
  determine the anchors of such a context.
\<close>

definition ctx_posix :: "path_context \<Rightarrow> bool" where
  "ctx_posix ctx = (wf_path (ctx_home ctx) \<and> ap_flavour (ctx_home ctx) = Posix)"

definition cache_ok :: "resolver \<Rightarrow> bool" where
  "cache_ok rs =
     (\<forall>a ctx anchors. ctx_posix ctx \<longrightarrow> rs_cache rs (cache_key a ctx) = Some anchors \<longrightarrow>
        compute_anchors (rs_registry rs) a ctx = Inr anchors)"

lemma compute_anchors_key:
  assumes "ctx_posix c1" "ctx_posix c2" "cache_key a1 c1 = cache_key a2 c2"
  shows "compute_anchors reg a1 c1 = compute_anchors reg a2 c2"
proof -
  have "ctx_platform c1 = ctx_platform c2 \<and> a1 = a2 \<and> ap_value (ctx_home c1) = ap_value (ctx_home c2)"
    using assms(3)
    by (cases "ctx_platform c1"; cases "ctx_platform c2"; cases a1; cases a2)
       (simp_all add: cache_key_def platform_name_def access_name_def)
  moreover have "ctx_home c1 = ctx_home c2"
    using wf_posix_path_eq [of "ctx_home c1" "ctx_home c2"] assms(1,2) calculation
    by (simp add: ctx_posix_def path_eq_def)
  ultimately show ?thesis by (simp add: compute_anchors_def)
qed

lemma cache_ok_new: "cache_ok (new_resolver reg)"
  by (simp add: cache_ok_def new_resolver_def)

lemma dangerous_anchors_memo:
  assumes "cache_ok rs" "ctx_posix ctx"
  shows "(\<exists>e. dangerous_anchors rs a ctx = Inl e \<and> compute_anchors (rs_registry rs) a ctx = Inl e) \<or>
    (\<exists>anchors rs'. dangerous_anchors rs a ctx = Inr (anchors, rs') \<and>
       compute_anchors (rs_registry rs) a ctx = Inr anchors \<and> cache_ok rs' \<and> rs_registry rs' = rs_registry rs)"
proof (cases "rs_cache rs (cache_key a ctx)")
  case (Some anchors)
  with assms show ?thesis by (auto simp: dangerous_anchors_def cache_ok_def)
next
  case None
  show ?thesis
  proof (cases "compute_anchors (rs_registry rs) a ctx")
    case (Inl e)
    with None show ?thesis by (simp add: dangerous_anchors_def)
  next
    case (Inr anchors)
    have "cache_ok (rs\<lparr>rs_cache := (rs_cache rs)(cache_key a ctx \<mapsto> anchors)\<rparr>)"
      unfolding cache_ok_def
    proof (intro allI impI)
      fix a' c' x
      assume c: "ctx_posix c'"
        and x: "rs_cache (rs\<lparr>rs_cache := (rs_cache rs)(cache_key a ctx \<mapsto> anchors)\<rparr>) (cache_key a' c') = Some x"
      show "compute_anchors (rs_registry (rs\<lparr>rs_cache := (rs_cache rs)(cache_key a ctx \<mapsto> anchors)\<rparr>)) a' c' = Inr x"
      proof (cases "cache_key a' c' = cache_key a ctx")
        case True
        with x Inr compute_anchors_key [OF c assms(2) True, of "rs_registry rs"] show ?thesis by simp
      next
        case False
        with x c assms(1) show ?thesis by (simp add: cache_ok_def)
      qed
    qed
    with None Inr show ?thesis by (simp add: dangerous_anchors_def)
  qed
qed

text \<open>The memo is invisible: answers are those of \<open>can_grant\<close>, and it stays sound.\<close>

lemma can_grant_memo:
  assumes "cache_ok rs" "ctx_posix ctx"
  shows "rmap fst (can_grant_at_runtime rs r a ctx) = can_grant (rs_registry rs) r a ctx"
    and "can_grant_at_runtime rs r a ctx = Inr (b, rs') \<Longrightarrow> cache_ok rs' \<and> rs_registry rs' = rs_registry rs"
  using dangerous_anchors_memo [OF assms, of a] assms
  by (auto simp: can_grant_at_runtime_def can_grant_def split: if_splits)

section \<open>What a runtime grant can reach\<close>

text \<open>
  The interface of the gate: a set of locations that must stay closed, and a test that
  refuses every tree in which one of them can be reached.
\<close>

locale runtime_gate =
  fixes may_grant :: "'r \<Rightarrow> bool"
    and reaches :: "'r \<Rightarrow> 'p \<Rightarrow> bool"
    and closed :: "'p \<Rightarrow> bool"
  assumes gate: "may_grant r \<Longrightarrow> reaches r p \<Longrightarrow> \<not> closed p"
begin

lemma opened_never_closed:
  "\<forall>r \<in> set rs. may_grant r \<Longrightarrow> \<exists>r \<in> set rs. reaches r p \<Longrightarrow> \<not> closed p"
  using gate by blast

lemma filtered_never_closed:
  "\<exists>r \<in> set (filter may_grant rs). reaches r p \<Longrightarrow> \<not> closed p"
  using gate by auto

end

definition ctx_ok :: "path_context \<Rightarrow> bool" where
  "ctx_ok ctx =
     (home_ok (ctx_home ctx) \<and> reparsable (segments (ctx_home ctx)) \<and>
      wf_path (ctx_workspace ctx) \<and> ap_flavour (ctx_workspace ctx) = Posix)"

lemma ctx_ok_posix: "ctx_ok ctx \<Longrightarrow> ctx_posix ctx"
  by (simp add: ctx_ok_def ctx_posix_def home_ok_def)

lemma compute_anchors_ok:
  assumes "registry_ok reg" "ctx_ok ctx"
  shows "\<exists>anchors. compute_anchors reg a ctx = Inr anchors \<and>
    (\<forall>e \<in> set (reg_dangerous_for reg (ctx_platform ctx) a). \<forall>x.
       entry_literal_prefix e (ctx_home ctx) = Inr (Some x) \<longrightarrow> x \<in> set anchors)"
proof -
  let ?ds = "reg_dangerous_for reg (ctx_platform ctx) a"
  let ?g = "\<lambda>e. let lits = takeWhile literal_seg (pp_segments (sp_pattern e))
     in if pp_home_anchored (sp_pattern e) then Some (mk_posix (segments (ctx_home ctx) @ lits))
        else if lits = [] then None else Some (mk_posix lits)"
  have "entry_literal_prefix e (ctx_home ctx) = Inr (?g e)" if "e \<in> set ?ds" for e
    using that assms
    by (auto simp: entry_literal_prefix_def literal_prefix_eq ctx_ok_def registry_ok_def entry_ok_def
        reg_dangerous_for_def reg_for_platform_def Let_def)
  then have "traverse (\<lambda>e. entry_literal_prefix e (ctx_home ctx)) ?ds = Inr (map ?g ?ds)"
    and "\<forall>e \<in> set ?ds. entry_literal_prefix e (ctx_home ctx) = Inr (?g e)"
    by (auto intro: traverse_map_Inr)
  then have "compute_anchors reg a ctx = Inr (options_to_list (map ?g ?ds))"
    and mem: "\<And>e. e \<in> set ?ds \<Longrightarrow> entry_literal_prefix e (ctx_home ctx) = Inr (?g e)"
    by (auto simp: compute_anchors_def)
  moreover have "x \<in> set (options_to_list (map ?g ?ds))"
    if e: "e \<in> set ?ds" and x: "entry_literal_prefix e (ctx_home ctx) = Inr (Some x)" for e x
  proof -
    have "?g e = Some x" using mem [OF e] x by simp
    with e have "Some x \<in> set (map ?g ?ds)" by (metis (no_types, lifting) image_eqI list.set_map)
    then show ?thesis by (simp add: set_options_to_list)
  qed
  ultimately show ?thesis by blast
qed

text \<open>
  An anchored row that matches below a tree either has its anchor in the tree or matches
  the tree itself.
\<close>

lemma anchored_match_below:
  assumes ctx: "home_ok (ctx_home ctx)" "reparsable (segments (ctx_home ctx))" and e: "entry_ok e"
    and tree: "wf_path tree" "ap_flavour tree = Posix" and p: "wf_path p" "ap_flavour p = Posix"
    and anchor: "entry_literal_prefix e (ctx_home ctx) = Inr (Some a)"
    and below: "contains tree p" and match: "pattern_matches (sp_pattern e) p (ctx_home ctx)"
  shows "contains tree a \<or> pattern_matches (sp_pattern e) tree (ctx_home ctx)"
proof -
  let ?pat = "sp_pattern e"
  let ?lits = "takeWhile literal_seg (pp_segments ?pat)"
  let ?rest = "dropWhile literal_seg (pp_segments ?pat)"
  let ?base = "if pp_home_anchored ?pat then segments (ctx_home ctx) else []"
  have pok: "pattern_ok ?pat" using e by (simp add: entry_ok_def)
  have lit: "\<forall>s \<in> set ?lits. literal_seg s" by (auto dest: set_takeWhileD)
  have a: "a = mk_posix (?base @ ?lits)" and lits: "?lits \<noteq> []"
    using anchor e literal_prefix_eq [OF ctx pok]
    by (auto simp: entry_literal_prefix_def Let_def entry_ok_def split: if_splits)
  have oklit: "\<forall>s \<in> set ?lits. seg_ok s"
    using pok by (auto simp: pattern_ok_def dest: set_takeWhileD)
  have okbase: "\<forall>s \<in> set (?base @ ?lits). seg_ok s"
    using ctx(1) oklit by (auto simp: home_ok_def wf_path_def)
  have wfa: "wf_path a" unfolding a by (rule wf_mk_posix [OF okbase])
  have m: "pattern_matches ?pat q (ctx_home ctx) \<longleftrightarrow>
      (\<exists>t. segments q = ?base @ ?lits @ t \<and> match_segments ?rest t)"
    if "wf_path q" "ap_flavour q = Posix" for q
  proof -
    have head: "match_segments (pp_segments ?pat) t \<longleftrightarrow> (\<exists>u. t = ?lits @ u \<and> match_segments ?rest u)" for t
      using match_literal_head [OF lit, of ?rest t] by simp
    show ?thesis
    proof (cases "pp_home_anchored ?pat")
      case True
      then show ?thesis using pattern_matches_home [OF ctx(1) that(1) True] head that(2) by auto
    next
      case False
      then show ?thesis using head by (auto simp: pattern_matches_def)
    qed
  qed
  from m [OF p] match obtain t where t: "segments p = ?base @ ?lits @ t" "match_segments ?rest t" by blast
  have cont: "contains q r \<longleftrightarrow> prefix (segments q) (segments r)"
    if "wf_path q" "wf_path r" "ap_flavour q = Posix" "ap_flavour r = Posix" for q r
    using contains_iff [OF that(1,2)] that by (simp add: wf_path_def)
  have "contains a p" using cont [OF wfa p(1)] p(2) a okbase t(1) by (simp add: prefix_def)
  show ?thesis
  proof (cases "contains tree a")
    case False
    then have "contains a tree"
      using apath.below_anchor [OF tree(1) wfa p(1) below \<open>contains a p\<close>] by simp
    then obtain u where u: "segments tree = ?base @ ?lits @ u"
      using cont [OF wfa tree(1)] tree(2) a okbase by (auto simp: prefix_def)
    have "prefix u t" using cont [OF tree(1) p(1) tree(2) p(2)] below u t(1) by simp
    have "u \<noteq> []"
    proof
      assume "u = []"
      then have "segments tree = segments a" using u a okbase by simp
      with False cont [OF tree(1) wfa tree(2)] a show False by simp
    qed
    have "match_segments ?rest u"
    proof (cases "?rest = []")
      case True
      with t \<open>prefix u t\<close> \<open>u \<noteq> []\<close> show ?thesis by simp
    next
      case nonempty: False
      have "length ?rest \<le> 1" using e lits by (simp add: entry_ok_def anchor_shape_def)
      with nonempty obtain w where w: "?rest = [w]" by (cases ?rest) auto
      show ?thesis
      proof (cases "w = recursive")
        case True
        with w show ?thesis using match_recursive_last [of u] by simp
      next
        case False
        with t(2) w obtain x where "t = [x]" by (auto split: list.splits)
        with \<open>prefix u t\<close> \<open>u \<noteq> []\<close> have "u = t" by (cases u) auto
        with t show ?thesis by simp
      qed
    qed
    with m [OF tree] u show ?thesis by blast
  qed simp
qed

lemma can_grant_sound:
  assumes reg: "registry_ok reg" and ctx: "ctx_ok ctx"
    and r: "rr_scope r = Subtree" "wf_path (rr_path r)" "ap_flavour (rr_path r) = Posix"
    and grant: "can_grant reg r a ctx = Inr True"
    and p: "wf_path p" "ap_flavour p = Posix" "contains (rr_path r) p"
    and e: "e \<in> set (reg_dangerous_for reg (ctx_platform ctx) a)" "entry_matches e p ctx"
  shows "entry_literal_prefix e (ctx_home ctx) = Inr None"
proof (rule ccontr)
  have home: "home_ok (ctx_home ctx)" "reparsable (segments (ctx_home ctx))"
    and ws: "wf_path (ctx_workspace ctx)" using ctx by (simp_all add: ctx_ok_def)
  have eok: "entry_ok e" and et: "tier_for e a = Dangerous" and er: "e \<in> set (reg_entries reg)"
    using e(1) reg by (auto simp: reg_dangerous_for_def reg_for_platform_def registry_ok_def)
  assume neq: "entry_literal_prefix e (ctx_home ctx) \<noteq> Inr None"
  then obtain x where x: "entry_literal_prefix e (ctx_home ctx) = Inr (Some x)"
    using literal_prefix_eq [OF home] eok
    by (auto simp: entry_literal_prefix_def entry_ok_def Let_def split: if_splits)
  obtain anchors where anchors: "compute_anchors reg a ctx = Inr anchors" "x \<in> set anchors"
    using compute_anchors_ok [OF reg ctx, of a] e(1) x by blast
  have "\<not> contains (rr_path r) x"
    using grant r(1) anchors by (auto simp: can_grant_def swallows_def list_ex_iff split: if_splits)
  moreover have "\<not> pattern_matches (sp_pattern e) (rr_path r) (ctx_home ctx)"
  proof
    assume pm: "pattern_matches (sp_pattern e) (rr_path r) (ctx_home ctx)"
    have "\<not> (sp_outside_only e \<and> contains (ctx_workspace ctx) (rr_path r))"
      using e(2) p(1,3) apath.within_trans [OF ws r(2) p(1)] by (auto simp: entry_matches_def split: if_splits)
    then have "entry_matches e (rr_path r) ctx"
      using pm e(2) by (auto simp: entry_matches_def split: if_splits)
    then have "tier_of reg (rr_path r) a ctx = Dangerous" using er et by (auto simp: tier_of_dangerous)
    then show False using grant by (simp add: can_grant_def tier_of_def split: if_splits)
  qed
  moreover have "pattern_matches (sp_pattern e) p (ctx_home ctx)"
    using e(2) by (simp add: entry_matches_def split: if_splits)
  ultimately show False
    using anchored_match_below [OF home eok r(2,3) p(1,2) x p(3)] by blast
qed

text \<open>The gate of the resolver: closed are the locations an anchored tier 2 row matches.\<close>

definition anchored_dangerous :: "registry \<Rightarrow> access \<Rightarrow> path_context \<Rightarrow> abs_path \<Rightarrow> bool" where
  "anchored_dangerous reg a ctx p =
     list_ex (\<lambda>e. entry_literal_prefix e (ctx_home ctx) \<noteq> Inr None \<and> entry_matches e p ctx)
       (reg_dangerous_for reg (ctx_platform ctx) a)"

definition gate_open :: "registry \<Rightarrow> access \<Rightarrow> path_context \<Rightarrow> resource_ref \<Rightarrow> bool" where
  "gate_open reg a ctx r =
     (registry_ok reg \<and> ctx_ok ctx \<and> rr_scope r = Subtree \<and> wf_path (rr_path r) \<and>
      ap_flavour (rr_path r) = Posix \<and> can_grant reg r a ctx = Inr True)"

definition gate_reaches :: "resource_ref \<Rightarrow> abs_path \<Rightarrow> bool" where
  "gate_reaches r p = (wf_path p \<and> ap_flavour p = Posix \<and> ref_covers r p)"

interpretation tier_gate: runtime_gate "gate_open reg a ctx" gate_reaches "anchored_dangerous reg a ctx"
proof
  fix r p
  assume open_r: "gate_open reg a ctx r" and reach: "gate_reaches r p"
  show "\<not> anchored_dangerous reg a ctx p"
  proof
    assume "anchored_dangerous reg a ctx p"
    then obtain e where e: "e \<in> set (reg_dangerous_for reg (ctx_platform ctx) a)" "entry_matches e p ctx"
      "entry_literal_prefix e (ctx_home ctx) \<noteq> Inr None"
      by (auto simp: anchored_dangerous_def list_ex_iff)
    have "contains (rr_path r) p" using open_r reach by (simp add: gate_open_def gate_reaches_def ref_covers_def)
    then have "entry_literal_prefix e (ctx_home ctx) = Inr None"
      using open_r reach e(1,2) by (intro can_grant_sound [of reg ctx r a p e]) (simp_all add: gate_open_def gate_reaches_def)
    with e(3) show False by simp
  qed
qed

section \<open>Properties\<close>

text \<open>Tier, disposition and explanation of one path never contradict each other:
  over a consistent registry a path is tier 2 for an operation exactly when the operation
  is blocked, and exactly then the row given as the reason is itself a tier 2 row.\<close>

theorem decision_coherent:
  assumes "registry_ok reg"
  shows "(tier_of reg p a ctx = Dangerous \<longleftrightarrow> disposition_of_path reg p a ctx = Block) \<and>
    (tier_of reg p a ctx = Dangerous \<longleftrightarrow> (\<exists>e. explain reg p a ctx = Some e \<and> tier_for e a = Dangerous))"
proof -
  have "\<forall>e \<in> set (ad_matches (decide reg p a ctx)). row_consistent e"
    using assms by (auto simp: decide_def reg_matching_def registry_ok_def entry_ok_def)
  from decision_agrees [OF this] show ?thesis
    by (simp add: tier_of_def disposition_of_path_def explain_def) (simp add: decide_def)
qed

definition sample_registry :: registry where
  "sample_registry =
     (case traverse (\<lambda>row. row) sensitive_rows_1 of Inr es \<Rightarrow> \<lparr>reg_entries = es\<rparr> | Inl _ \<Rightarrow> \<lparr>reg_entries = []\<rparr>)"

definition sample_ctx :: path_context where
  "sample_ctx = \<lparr>ctx_home = mk_posix [''home'', ''u''], ctx_workspace = mk_posix [''home'', ''u'', ''w''],
     ctx_platform = Linux\<rparr>"

lemma sample_registry_ok: "registry_ok sample_registry"
  unfolding registry_ok_def by (intro conjI) code_simp+

lemma sample_ctx_ok: "ctx_ok sample_ctx"
  by code_simp

lemma decision_coherent_witness:
  "disposition_of_path sample_registry (mk_posix [''home'', ''u'', ''.ssh'', ''id_rsa'']) Read sample_ctx = Block"
proof -
  have "tier_of sample_registry (mk_posix [''home'', ''u'', ''.ssh'', ''id_rsa'']) Read sample_ctx = Dangerous"
    by code_simp
  with decision_coherent [OF sample_registry_ok, of "mk_posix [''home'', ''u'', ''.ssh'', ''id_rsa'']" Read sample_ctx]
  show ?thesis by simp
qed

text \<open>C11: a subtree that the runtime gate lets through holds no location that an anchored
  tier 2 row of the registry matches: no grant of a parent directory hands out a
  credential below it.\<close>

theorem granted_tree_holds_no_secret:
  assumes "registry_ok reg" "ctx_ok ctx" "rr_scope r = Subtree" "wf_path (rr_path r)" "ap_flavour (rr_path r) = Posix"
    and "can_grant reg r a ctx = Inr True" "wf_path p" "ap_flavour p = Posix" "ref_covers r p"
  shows "\<not> anchored_dangerous reg a ctx p"
  using assms by (intro tier_gate.gate [of reg a ctx r p]) (simp_all add: gate_open_def gate_reaches_def)

lemma granted_tree_holds_no_secret_witness:
  "\<not> anchored_dangerous sample_registry Read sample_ctx (mk_posix [''home'', ''u'', ''src'', ''a'']) \<and>
   anchored_dangerous sample_registry Read sample_ctx (mk_posix [''home'', ''u'', ''.ssh'', ''id_rsa'']) \<and>
   can_grant sample_registry (subtree_ref (mk_posix [''home'', ''u''])) Read sample_ctx = Inr False"
proof -
  let ?r = "subtree_ref (mk_posix [''home'', ''u'', ''src''])"
  let ?p = "mk_posix [''home'', ''u'', ''src'', ''a'']"
  have "rr_scope ?r = Subtree" "wf_path (rr_path ?r)" "ap_flavour (rr_path ?r) = Posix"
    "can_grant sample_registry ?r Read sample_ctx = Inr True" "wf_path ?p" "ap_flavour ?p = Posix" "ref_covers ?r ?p"
    by code_simp+
  then have "\<not> anchored_dangerous sample_registry Read sample_ctx ?p"
    by (rule granted_tree_holds_no_secret [OF sample_registry_ok sample_ctx_ok])
  moreover have "anchored_dangerous sample_registry Read sample_ctx (mk_posix [''home'', ''u'', ''.ssh'', ''id_rsa''])"
    "can_grant sample_registry (subtree_ref (mk_posix [''home'', ''u''])) Read sample_ctx = Inr False"
    by code_simp+
  ultimately show ?thesis by blast
qed

fun ask_all :: "resolver \<Rightarrow> (resource_ref \<times> access \<times> path_context) list \<Rightarrow> bool res list" where
  "ask_all rs [] = []"
| "ask_all rs ((r, a, ctx) # qs) =
     (case can_grant_at_runtime rs r a ctx of
        Inl e \<Rightarrow> Inl e # ask_all rs qs
      | Inr (b, rs') \<Rightarrow> Inr b # ask_all rs' qs)"

lemma ask_all_pure:
  assumes "cache_ok rs" "\<forall>(r, a, ctx) \<in> set qs. ctx_posix ctx"
  shows "ask_all rs qs = map (\<lambda>(r, a, ctx). can_grant (rs_registry rs) r a ctx) qs"
  using assms
proof (induction qs arbitrary: rs)
  case (Cons q qs)
  obtain r a ctx where q: "q = (r, a, ctx)" by (cases q)
  have ctx: "ctx_posix ctx" using Cons.prems(2) q by simp
  note memo = can_grant_memo [OF Cons.prems(1) ctx, where r = r and a = a]
  show ?case
  proof (cases "can_grant_at_runtime rs r a ctx")
    case (Inl e)
    with memo(1) Cons q show ?thesis by simp
  next
    case (Inr x)
    obtain b rs' where x: "x = (b, rs')" by (cases x)
    have "cache_ok rs'" "rs_registry rs' = rs_registry rs" using memo(2) Inr x by auto
    with memo(1) Cons q Inr x show ?thesis by simp
  qed
qed simp

text \<open>The memo of anchors is invisible: a resolver asked any sequence of questions
  answers each as the definition without a memo would, errors included.\<close>

theorem memo_invisible:
  assumes "\<forall>(r, a, ctx) \<in> set qs. ctx_posix ctx"
  shows "ask_all (new_resolver reg) qs = map (\<lambda>(r, a, ctx). can_grant reg r a ctx) qs"
  using ask_all_pure [OF cache_ok_new assms] by (simp add: new_resolver_def)

lemma memo_invisible_witness:
  "ask_all (new_resolver sample_registry)
     [(subtree_ref (mk_posix [''home'']), Read, sample_ctx), (subtree_ref (mk_posix [''srv'']), Read, sample_ctx)] =
   [Inr False, Inr True]"
proof -
  let ?qs = "[(subtree_ref (mk_posix [''home'']), Read, sample_ctx), (subtree_ref (mk_posix [''srv'']), Read, sample_ctx)]"
  have "\<forall>(r, a, ctx) \<in> set ?qs. ctx_posix ctx" using ctx_ok_posix [OF sample_ctx_ok] by simp
  note memo = memo_invisible [OF this, of sample_registry]
  have "can_grant sample_registry (subtree_ref (mk_posix [''home''])) Read sample_ctx = Inr False"
    "can_grant sample_registry (subtree_ref (mk_posix [''srv''])) Read sample_ctx = Inr True" by code_simp+
  with memo show ?thesis by simp
qed

end
