(* ===== verification/Network.thy ===== *)
theory Network
  imports Values
begin

text \<open>
  \<open>src/domain/value-objects/NetworkRule.ts\<close> and \<open>parseNetwork\<close> of
  \<open>StarterProfile.ts\<close>: outbound destinations, the normalisation of host names and the
  matching of exact and wildcard destinations. The lemmas show that normalisation is
  idempotent and yields valid labels, and that a wildcard matches exactly the names
  whose labels properly extend its suffix. \<open>Number\<close> is read as an exact decimal value;
  the rounding of long literals to a double is not modelled.
\<close>

section \<open>Numbers read from text\<close>

text \<open>A number that is not finite, or \<open>mantissa * 10 ^ exponent\<close>.\<close>

datatype js_number = NotFinite | Decimal int int

definition js_integer :: "js_number \<Rightarrow> int option" where
  "js_integer n =
     (case n of
        NotFinite \<Rightarrow> None
      | Decimal m e \<Rightarrow>
          if 0 \<le> e then Some (m * 10 ^ nat e)
          else if m mod 10 ^ nat (- e) = 0 then Some (m div 10 ^ nat (- e)) else None)"

definition radix_digits :: "nat \<Rightarrow> string \<Rightarrow> js_number" where
  "radix_digits base s =
     (let val = (\<lambda>c. if is_digit c then digit_val c else code_of (to_lower_char c) - 87);
          ok = (\<lambda>c. (is_digit c \<or> is_letter c) \<and> val c < base)
      in if s = [] \<or> \<not> list_all ok s then NotFinite
         else Decimal (int (foldl (\<lambda>n c. base * n + val c) 0 s)) 0)"

definition exponent_of :: "string \<Rightarrow> int option" where
  "exponent_of s =
     (case s of
        [] \<Rightarrow> Some 0
      | c # r \<Rightarrow>
          if to_lower_char c \<noteq> CHR ''e'' then None
          else let neg = starts_with r ''-'';
                   ds = (if starts_with r ''-'' \<or> starts_with r ''+'' then tl r else r)
               in if ds = [] \<or> \<not> list_all is_digit ds then None
                  else Some (if neg then - int (decimal ds) else int (decimal ds)))"

definition decimal_literal :: "string \<Rightarrow> js_number" where
  "decimal_literal s =
     (let whole = takeWhile is_digit s;
          r1 = dropWhile is_digit s;
          frac = (if starts_with r1 ''.'' then takeWhile is_digit (tl r1) else []);
          r2 = (if starts_with r1 ''.'' then dropWhile is_digit (tl r1) else r1)
      in if whole = [] \<and> frac = [] then NotFinite
         else (case exponent_of r2 of
                 None \<Rightarrow> NotFinite
               | Some e \<Rightarrow> Decimal (int (decimal (whole @ frac))) (e - int (length frac))))"

text \<open>\<open>Number(s)\<close> of a string.\<close>

definition js_number :: "string \<Rightarrow> js_number" where
  "js_number s =
     (let t = trim s; radix = to_lower (take 2 t)
      in if t = [] then Decimal 0 0
         else if radix = ''0x'' then radix_digits 16 (drop 2 t)
         else if radix = ''0o'' then radix_digits 8 (drop 2 t)
         else if radix = ''0b'' then radix_digits 2 (drop 2 t)
         else if starts_with t ''-'' then
           (case decimal_literal (tl t) of NotFinite \<Rightarrow> NotFinite | Decimal m e \<Rightarrow> Decimal (- m) e)
         else if starts_with t ''+'' then decimal_literal (tl t)
         else decimal_literal t)"

section \<open>Rules\<close>

datatype protocol = Tcp | Udp | Ip

datatype net_port = AnyPort | Port nat

record network_rule =
  nr_protocol :: protocol
  nr_host :: string
  nr_port :: net_port

text \<open>A port as the factories receive it: \<open>*\<close>, or a number that may not be an integer.\<close>

datatype port_arg = StarArg | NumArg "int option"

definition assert_port :: "port_arg \<Rightarrow> net_port res" where
  "assert_port p =
     (case p of
        StarArg \<Rightarrow> Inr AnyPort
      | NumArg None \<Rightarrow> Inl InvalidPort
      | NumArg (Some n) \<Rightarrow> if n < 1 \<or> n > 65535 then Inl InvalidPort else Inr (Port (nat n)))"

definition strip_dot :: "string \<Rightarrow> string" where
  "strip_dot s = (if s \<noteq> [] \<and> last s = CHR ''.'' then butlast s else s)"

definition is_loopback_name :: "string \<Rightarrow> bool" where
  "is_loopback_name raw =
     (let n = strip_dot (to_lower raw) in n = ''localhost'' \<or> ends_with n ''.localhost'')"

definition label_char :: "char \<Rightarrow> bool" where
  "label_char c = (is_lower_letter c \<or> is_digit c)"

definition label_ok :: "string \<Rightarrow> bool" where
  "label_ok l =
     (l \<noteq> [] \<and> length l \<le> 63 \<and> label_char (hd l) \<and> label_char (last l) \<and>
      list_all (\<lambda>c. label_char c \<or> c = CHR ''-'') l)"

definition dotted_quad :: "string \<Rightarrow> bool" where
  "dotted_quad s =
     (let parts = split_on (CHR ''.'') s
      in length parts = 4 \<and> list_all (\<lambda>p. p \<noteq> [] \<and> list_all is_digit p) parts)"

definition normalize_candidate_host :: "string \<Rightarrow> string res" where
  "normalize_candidate_host raw =
     (let n = strip_dot (to_lower raw)
      in if length n = 0 \<or> length n > 253 then Inl BadHost
         else if \<not> list_all (\<lambda>c. code_of c \<le> (0x7f :: nat)) n then Inl BadHost
         else if list_ex (\<lambda>c. c \<in> {CHR '':'', CHR ''/'', CHR ''@'', CHR 0x5C} \<or> is_space c) n \<or> dotted_quad n
         then Inl BadHost
         else if list_ex (\<lambda>l. \<not> label_ok l) (split_on (CHR ''.'') n) then Inl BadHost
         else Inr n)"

definition normalize_destination_host :: "string \<Rightarrow> string res" where
  "normalize_destination_host raw =
     (let wildcard = starts_with raw ''*.''
      in if CHR ''*'' \<in> set raw \<and> \<not> wildcard then Inl BadWildcard
         else rbind (normalize_candidate_host (if wildcard then drop 2 raw else raw)) (\<lambda>n.
           if wildcard \<and> CHR ''.'' \<notin> set n then Inl BadWildcard
           else Inr (if wildcard then ''*.'' @ n else n)))"

definition rule_tcp :: "port_arg \<Rightarrow> network_rule res" where
  "rule_tcp p = rmap (\<lambda>q. \<lparr>nr_protocol = Tcp, nr_host = ''any'', nr_port = q\<rparr>) (assert_port p)"

definition rule_udp :: "port_arg \<Rightarrow> network_rule res" where
  "rule_udp p = rmap (\<lambda>q. \<lparr>nr_protocol = Udp, nr_host = ''any'', nr_port = q\<rparr>) (assert_port p)"

definition rule_loopback :: network_rule where
  "rule_loopback = \<lparr>nr_protocol = Ip, nr_host = ''loopback'', nr_port = AnyPort\<rparr>"

definition rule_destination :: "string \<Rightarrow> port_arg \<Rightarrow> network_rule res" where
  "rule_destination host p =
     rbind (normalize_destination_host host) (\<lambda>h.
     rmap (\<lambda>q. \<lparr>nr_protocol = Tcp, nr_host = h, nr_port = q\<rparr>) (assert_port p))"

definition is_explicit_destination :: "network_rule \<Rightarrow> bool" where
  "is_explicit_destination r = (nr_protocol r = Tcp \<and> nr_host r \<noteq> ''any'' \<and> nr_host r \<noteq> ''loopback'')"

definition allows_loopback :: "network_rule \<Rightarrow> bool" where
  "allows_loopback r = (nr_host r = ''loopback'')"

definition port_is :: "net_port \<Rightarrow> nat \<Rightarrow> bool" where
  "port_is p n = (case p of AnyPort \<Rightarrow> False | Port m \<Rightarrow> m = n)"

definition rule_matches :: "network_rule \<Rightarrow> string \<Rightarrow> nat \<Rightarrow> bool" where
  "rule_matches r host port =
     (if nr_host r = ''any'' then nr_protocol r = Tcp \<and> port_is (nr_port r) port
      else if nr_host r = ''loopback'' then
        is_loopback_name host \<and> (nr_port r = AnyPort \<or> port_is (nr_port r) port)
      else if nr_protocol r \<noteq> Tcp \<or> \<not> port_is (nr_port r) port then False
      else (case normalize_candidate_host host of
              Inl _ \<Rightarrow> False
            | Inr candidate \<Rightarrow>
                if \<not> starts_with (nr_host r) ''*.'' then candidate = nr_host r
                else let suffix = drop 1 (nr_host r)
                     in ends_with candidate suffix \<and> length candidate > length suffix))"

definition rule_equals :: "network_rule \<Rightarrow> network_rule \<Rightarrow> bool" where
  "rule_equals r other =
     (nr_protocol r = nr_protocol other \<and> nr_host r = nr_host other \<and> nr_port r = nr_port other)"

definition protocol_name :: "protocol \<Rightarrow> string" where
  "protocol_name p = (case p of Tcp \<Rightarrow> ''tcp'' | Udp \<Rightarrow> ''udp'' | Ip \<Rightarrow> ''ip'')"

definition rule_to_string :: "network_rule \<Rightarrow> string" where
  "rule_to_string r =
     protocol_name (nr_protocol r) @ ''://'' @
     (if nr_host r = ''loopback'' then ''localhost'' else if nr_host r = ''any'' then ''*'' else nr_host r) @
     '':'' @ (case nr_port r of AnyPort \<Rightarrow> ''*'' | Port n \<Rightarrow> show_nat n)"

section \<open>Rules of a profile\<close>

text \<open>A missing port reads as \<open>Number(undefined)\<close>, which is not a number.\<close>

definition parse_network :: "string \<Rightarrow> network_rule res" where
  "parse_network raw =
     (if raw = ''loopback'' then Inr rule_loopback
      else let parts = split_on (CHR '':'') raw;
               parsed = (case parts of
                           _ # p # _ \<Rightarrow> if p = ''*'' then StarArg else NumArg (js_integer (js_number p))
                         | _ \<Rightarrow> NumArg None)
           in if hd parts = ''tcp'' then rule_tcp parsed
              else if hd parts = ''udp'' then rule_udp parsed
              else (case last_index_of (CHR '':'') raw of
                      Some i \<Rightarrow>
                        if i > 0
                        then rule_destination (take i raw) (NumArg (js_integer (js_number (drop (i + 1) raw))))
                        else Inl UnknownNetworkRule
                    | None \<Rightarrow> Inl UnknownNetworkRule))"

section \<open>Normalised hosts\<close>

definition host_char :: "char \<Rightarrow> bool" where
  "host_char c = (label_char c \<or> c = CHR ''-'' \<or> c = CHR ''.'')"

definition host_ok :: "string \<Rightarrow> bool" where
  "host_ok n = (length n \<le> 253 \<and> (\<forall>l \<in> set (split_on (CHR ''.'') n). label_ok l) \<and> \<not> dotted_quad n)"

lemma host_char_lower: "host_char c \<Longrightarrow> to_lower_char c = c"
  by (auto simp: host_char_def label_char_def is_lower_letter_def is_digit_def to_lower_char_def Let_def)

lemma host_ok_chars: "host_ok n \<Longrightarrow> \<forall>c \<in> set n. host_char c"
proof
  fix c assume n: "host_ok n" and c: "c \<in> set n"
  have "c \<in> set (join [CHR ''.''] (split_on (CHR ''.'') n))" using c by (simp add: join_split)
  then have "c = CHR ''.'' \<or> (\<exists>l \<in> set (split_on (CHR ''.'') n). c \<in> set l)"
    using set_join by fastforce
  then show "host_char c" using n by (auto simp: host_ok_def label_ok_def list_all_iff host_char_def)
qed

lemma host_ok_last:
  assumes "host_ok n" shows "n \<noteq> []" "last n \<noteq> CHR ''.''"
proof -
  let ?ls = "split_on (CHR ''.'') n"
  have ok: "label_ok (last ?ls)" using assms by (simp add: host_ok_def)
  then have ne: "last ?ls \<noteq> []" and l: "last (last ?ls) \<noteq> CHR ''.''"
    by (auto simp: label_ok_def label_char_def is_lower_letter_def is_digit_def)
  have "join [CHR ''.''] ?ls \<noteq> []" by (rule join_nonempty) (use ne in simp_all)
  then show "n \<noteq> []" by (simp add: join_split)
  have "last (join [CHR ''.''] ?ls) = last (last ?ls)" by (rule last_join) (use ne in simp_all)
  with l show "last n \<noteq> CHR ''.''" by (simp add: join_split)
qed

lemma normalize_candidate_ok: "normalize_candidate_host raw = Inr n \<Longrightarrow> host_ok n \<and> n = strip_dot (to_lower raw)"
  by (auto simp: normalize_candidate_host_def Let_def host_ok_def list_ex_iff split: if_splits)

lemma host_ok_no_url:
  assumes "host_char c"
  shows "code_of c \<le> (0x7f :: nat)" "c \<notin> {CHR '':'', CHR ''/'', CHR ''@'', CHR 0x5C}" "\<not> is_space c"
  using assms
  by (auto simp: host_char_def label_char_def is_lower_letter_def is_digit_def is_space_def)

lemma normalize_candidate_id:
  assumes "host_ok n" shows "normalize_candidate_host n = Inr n"
proof -
  have lower: "to_lower n = n"
    using host_ok_chars [OF assms] by (simp add: to_lower_def host_char_lower map_idI)
  have dot: "strip_dot n = n" using host_ok_last [OF assms] by (simp add: strip_dot_def)
  have ascii: "list_all (\<lambda>c. code_of c \<le> (0x7f :: nat)) n"
    using host_ok_chars [OF assms] host_ok_no_url(1) by (auto simp: list_all_iff)
  have url: "\<not> list_ex (\<lambda>c. c \<in> {CHR '':'', CHR ''/'', CHR ''@'', CHR 0x5C} \<or> is_space c) n"
    using host_ok_chars [OF assms] host_ok_no_url(2,3) by (fastforce simp: list_ex_iff)
  have labels: "\<not> list_ex (\<lambda>l. \<not> label_ok l) (split_on (CHR ''.'') n)"
    using assms by (simp add: host_ok_def list_ex_iff)
  have "length n \<noteq> 0" "\<not> length n > 253" "\<not> dotted_quad n"
    using assms host_ok_last(1) [OF assms] by (simp_all add: host_ok_def)
  then show ?thesis
    unfolding normalize_candidate_host_def lower dot Let_def using ascii url labels by simp
qed

text \<open>A proper suffix at a label boundary is the same as more labels in front.\<close>

lemma label_suffix:
  assumes "host_ok c"
  shows "ends_with c (CHR ''.'' # suf) \<and> length c > Suc (length suf) \<longleftrightarrow>
    (\<exists>pre. pre \<noteq> [] \<and> split_on (CHR ''.'') c = pre @ split_on (CHR ''.'') suf)"
proof
  assume "ends_with c (CHR ''.'' # suf) \<and> length c > Suc (length suf)"
  then obtain x where "c = x @ CHR ''.'' # suf" by (auto simp: suffix_def)
  then have "split_on (CHR ''.'') c = split_on (CHR ''.'') x @ split_on (CHR ''.'') suf"
    by (simp add: split_by_append)
  then show "\<exists>pre. pre \<noteq> [] \<and> split_on (CHR ''.'') c = pre @ split_on (CHR ''.'') suf"
    by (intro exI [of _ "split_on (CHR ''.'') x"]) simp
next
  assume "\<exists>pre. pre \<noteq> [] \<and> split_on (CHR ''.'') c = pre @ split_on (CHR ''.'') suf"
  then obtain pre where pre: "pre \<noteq> []" "split_on (CHR ''.'') c = pre @ split_on (CHR ''.'') suf" by blast
  have "join ''.'' (split_on (CHR ''.'') c) = join ''.'' pre @ ''.'' @ join ''.'' (split_on (CHR ''.'') suf)"
    unfolding pre(2) by (rule join_append) (use pre(1) in simp_all)
  then have c: "c = join ''.'' pre @ CHR ''.'' # suf" by (simp add: join_split)
  have "last pre \<in> set (split_on (CHR ''.'') c)" using pre by simp
  then have "last pre \<noteq> []" using assms by (auto simp: host_ok_def label_ok_def)
  then have "join ''.'' pre \<noteq> []" using pre(1) by (intro join_nonempty)
  with c show "ends_with c (CHR ''.'' # suf) \<and> length c > Suc (length suf)" by (simp add: suffix_def)
qed

lemma rule_destination_host:
  assumes "rule_destination spec p = Inr r"
  obtains h where "nr_protocol r = Tcp" "assert_port p = Inr (nr_port r)"
    "starts_with spec ''*.'' \<longrightarrow> normalize_candidate_host (drop 2 spec) = Inr h \<and> nr_host r = ''*.'' @ h"
    "\<not> starts_with spec ''*.'' \<longrightarrow> normalize_candidate_host spec = Inr h \<and> nr_host r = h"
  using assms
  by (auto simp: rule_destination_def normalize_destination_host_def Let_def rmap_def
      split: sum.splits if_splits)

section \<open>Properties\<close>

text \<open>Normalisation of a host name is idempotent, and what it yields is a list of at
  most 253 characters of valid labels, lower case, without a trailing dot, and no IPv4
  literal.\<close>

theorem host_normal_form:
  assumes "normalize_candidate_host raw = Inr n"
  shows "normalize_candidate_host n = Inr n \<and> length n \<le> 253 \<and> \<not> dotted_quad n \<and>
    (\<forall>l \<in> set (split_on (CHR ''.'') n). label_ok l) \<and> to_lower n = n"
proof -
  have ok: "host_ok n" using normalize_candidate_ok [OF assms] by blast
  have "to_lower n = n"
    using host_ok_chars [OF ok] by (simp add: to_lower_def host_char_lower map_idI)
  with ok normalize_candidate_id [OF ok] show ?thesis by (simp add: host_ok_def)
qed

lemma host_normal_form_witness:
  "normalize_candidate_host ''API.Example.COM.'' = Inr ''api.example.com'' \<and>
   normalize_candidate_host ''api.example.com'' = Inr ''api.example.com''"
proof -
  have e: "normalize_candidate_host ''API.Example.COM.'' = Inr ''api.example.com''" by code_simp
  from host_normal_form [OF e] e show ?thesis by simp
qed

text \<open>An explicit destination matches a host and a port exactly when the port is its
  own and the normalised host is its own name or, for a wildcard, has the labels of the
  suffix preceded by at least one more label: \<open>*.example.com\<close> matches neither
  \<open>example.com\<close> nor \<open>badexample.com\<close>.\<close>

theorem destination_matches:
  assumes "rule_destination spec p = Inr r" "is_explicit_destination r"
  shows "rule_matches r host port \<longleftrightarrow> nr_port r = Port port \<and>
    (\<exists>c. normalize_candidate_host host = Inr c \<and>
       (if starts_with spec ''*.''
        then \<exists>pre. pre \<noteq> [] \<and> split_on (CHR ''.'') c = pre @ split_on (CHR ''.'') (drop 2 (nr_host r))
        else c = nr_host r))"
proof -
  obtain h where h: "nr_protocol r = Tcp" "assert_port p = Inr (nr_port r)"
    "starts_with spec ''*.'' \<longrightarrow> normalize_candidate_host (drop 2 spec) = Inr h \<and> nr_host r = ''*.'' @ h"
    "\<not> starts_with spec ''*.'' \<longrightarrow> normalize_candidate_host spec = Inr h \<and> nr_host r = h"
    by (rule rule_destination_host [OF assms(1)])
  have port: "port_is (nr_port r) port \<longleftrightarrow> nr_port r = Port port"
    by (cases "nr_port r") (auto simp: port_is_def)
  have ne: "nr_host r \<noteq> ''any''" "nr_host r \<noteq> ''loopback''"
    using assms(2) by (simp_all add: is_explicit_destination_def)
  show ?thesis
  proof (cases "starts_with spec ''*.''")
    case True
    with h(3) have host: "nr_host r = ''*.'' @ h" by simp
    show ?thesis
    proof (cases "normalize_candidate_host host")
      case (Inr c)
      then have "host_ok c" using normalize_candidate_ok by simp
      from label_suffix [OF this, of h] show ?thesis
        using True host Inr h(1) port ne by (simp add: rule_matches_def)
    qed (use True host h(1) port ne in \<open>simp add: rule_matches_def\<close>)
  next
    case False
    with h(4) have "host_ok (nr_host r)" using normalize_candidate_ok by blast
    from host_ok_chars [OF this] have "\<not> starts_with (nr_host r) ''*.''"
      by (auto simp: prefix_def host_char_def label_char_def is_lower_letter_def is_digit_def)
    then show ?thesis
      using False h(1) port ne by (cases "normalize_candidate_host host") (auto simp: rule_matches_def)
  qed
qed

lemma destination_matches_witness:
  "\<exists>r. rule_destination ''*.example.com'' (NumArg (Some 443)) = Inr r \<and>
     rule_matches r ''api.example.com'' 443 \<and> \<not> rule_matches r ''badexample.com'' 443"
proof -
  let ?r = "\<lparr>nr_protocol = Tcp, nr_host = ''*.example.com'', nr_port = Port 443\<rparr>"
  have d: "rule_destination ''*.example.com'' (NumArg (Some 443)) = Inr ?r"
    and e: "is_explicit_destination ?r" by code_simp+
  have s: "starts_with ''*.example.com'' ''*.''" by code_simp
  have a: "normalize_candidate_host ''api.example.com'' = Inr ''api.example.com''"
    and b: "normalize_candidate_host ''badexample.com'' = Inr ''badexample.com''" by code_simp+
  have sa: "split_on (CHR ''.'') ''api.example.com'' = [''api''] @ [''example'', ''com'']"
    and sb: "split_on (CHR ''.'') ''badexample.com'' = [''badexample'', ''com'']"
    and sr: "split_on (CHR ''.'') (drop 2 ''*.example.com'') = [''example'', ''com'']" by code_simp+
  note m = destination_matches [OF d e]
  have "rule_matches ?r ''api.example.com'' 443" unfolding m using s a sa sr by force
  moreover have "\<not> rule_matches ?r ''badexample.com'' 443" unfolding m using s b sb sr by simp
  ultimately show ?thesis using d by blast
qed

text \<open>The host names \<open>any\<close> and \<open>loopback\<close> collide with the two markers of the rule
  type: the destination \<open>any:443\<close> matches every host on port 443, and \<open>loopback:443\<close> is
  taken for permission to use the loopback interface.\<close>

theorem marker_collision:
  "\<exists>r s. parse_network ''any:443'' = Inr r \<and> (\<forall>host. rule_matches r host 443) \<and> \<not> is_explicit_destination r \<and>
     parse_network ''loopback:443'' = Inr s \<and> allows_loopback s"
proof -
  let ?r = "\<lparr>nr_protocol = Tcp, nr_host = ''any'', nr_port = Port 443\<rparr>"
  let ?s = "\<lparr>nr_protocol = Tcp, nr_host = ''loopback'', nr_port = Port 443\<rparr>"
  have "parse_network ''any:443'' = Inr ?r" "parse_network ''loopback:443'' = Inr ?s" by code_simp+
  then show ?thesis
    by (intro exI [of _ ?r] exI [of _ ?s])
       (simp add: rule_matches_def is_explicit_destination_def allows_loopback_def port_is_def)
qed

end
