(* ===== verification/Policy.thy ===== *)
theory Policy
  imports Tiers Network "HOL-Library.Multiset"
begin

text \<open>
  Grants and the sandbox policy: \<open>src/domain/entities/Grant.ts\<close>,
  \<open>policy/DenyRule.ts\<close>, \<open>policy/StarterProfile.ts\<close>, \<open>policy/SandboxPolicy.ts\<close> and
  \<open>policy/PolicyBuilder.ts\<close>. SHA-256 and the two conversions of dates are parameters.
  The builder asks the tier resolver through \<open>can_grant\<close>, since its memo never changes
  an answer. The lemmas show that the deny list refuses exactly the tier 2 locations,
  that only a grant typed by hand overrides it, and that every grant is accounted for.
\<close>

section \<open>Grants\<close>

datatype grant_origin = Runtime | Manual

record grant_props =
  gp_resource :: resource_ref
  gp_access :: access
  gp_scope :: grant_scope
  gp_granted_at :: "int option"
  gp_reason :: string
  gp_origin :: grant_origin

record grant =
  g_id :: string
  g_props :: grant_props

record grant_json =
  gj_resource :: string
  gj_access :: string
  gj_scope :: string
  gj_granted_at :: "string option"
  gj_reason :: "string option"
  gj_origin :: "string option"

text \<open>
  \<open>Date\<close>: milliseconds since the epoch, \<open>None\<close> for an invalid date. \<open>dt_parse\<close> is
  \<open>new Date(text)\<close> and \<open>dt_iso\<close> is \<open>toISOString\<close> of a valid date.
\<close>

record dates =
  dt_parse :: "string \<Rightarrow> int option"
  dt_iso :: "int \<Rightarrow> string"

definition scope_text :: "resource_scope \<Rightarrow> string" where
  "scope_text s =
     (case s of
        Subtree \<Rightarrow> ''subtree''
      | SingleFile \<Rightarrow> ''file''
      | InheritedScope k \<Rightarrow>
          if k = ''__proto__'' then ''[object Object]''
          else ''function '' @ (if k = ''constructor'' then ''Object'' else k) @ ''() { [native code] }'')"

definition ref_to_string :: "resource_ref \<Rightarrow> string" where
  "ref_to_string r = scope_text (rr_scope r) @ '':'' @ ap_value (rr_path r)"

definition access_of :: "string \<Rightarrow> access res" where
  "access_of s = (if s = ''read'' then Inr Read else if s = ''write'' then Inr Write else Inl UnknownAccess)"

definition origin_of :: "string \<Rightarrow> grant_origin res" where
  "origin_of s =
     (if s = ''runtime'' then Inr Runtime else if s = ''manual'' then Inr Manual else Inl UnknownOrigin)"

definition origin_name :: "grant_origin \<Rightarrow> string" where
  "origin_name g = (case g of Runtime \<Rightarrow> ''runtime'' | Manual \<Rightarrow> ''manual'')"

definition grant_new :: "sha \<Rightarrow> grant_props \<Rightarrow> grant" where
  "grant_new h p =
     \<lparr>g_id = take 12 (h (ref_to_string (gp_resource p) @ ''|'' @ access_name (gp_access p) @ ''|'' @
        scope_to_string (gp_scope p))),
      g_props = p\<rparr>"

definition grant_create :: "sha \<Rightarrow> grant_props \<Rightarrow> grant res" where
  "grant_create h p =
     (if length (trim (gp_reason p)) = 0 then Inl EmptyReason
      else Inr (grant_new h (p\<lparr>gp_reason := trim (gp_reason p)\<rparr>)))"

definition grant_from_json :: "sha \<Rightarrow> dates \<Rightarrow> grant_json \<Rightarrow> abs_path \<Rightarrow> grant res" where
  "grant_from_json h dt raw home =
     rbind (access_of (gj_access raw)) (\<lambda>access.
     rbind (origin_of (case gj_origin raw of None \<Rightarrow> ''manual'' | Some s \<Rightarrow> s)) (\<lambda>origin.
     rbind (resource_parse (gj_resource raw) home) (\<lambda>resource.
     rbind (scope_parse (gj_scope raw)) (\<lambda>scope.
       grant_create h
         \<lparr>gp_resource = resource, gp_access = access, gp_scope = scope,
          gp_granted_at = (case gj_granted_at raw of None \<Rightarrow> Some 0 | Some s \<Rightarrow> dt_parse dt s),
          gp_reason = (case gj_reason raw of None \<Rightarrow> ''hand-written entry'' | Some s \<Rightarrow> s),
          gp_origin = origin\<rparr>))))"

definition grant_applies_to :: "grant \<Rightarrow> workspace_id \<Rightarrow> bool" where
  "grant_applies_to g w = scope_applies_to (gp_scope (g_props g)) w"

definition grant_covers :: "grant \<Rightarrow> access \<Rightarrow> workspace_id \<Rightarrow> bool" where
  "grant_covers g a w = (gp_access (g_props g) = a \<and> grant_applies_to g w)"

definition grant_to_json :: "dates \<Rightarrow> grant \<Rightarrow> abs_path \<Rightarrow> grant_json res" where
  "grant_to_json dt g home =
     (let p = g_props g
      in case gp_granted_at p of
           None \<Rightarrow> Inl InvalidDate
         | Some t \<Rightarrow> Inr \<lparr>gj_resource = to_resource_string (gp_resource p) home,
                        gj_access = access_name (gp_access p),
                        gj_scope = scope_to_string (gp_scope p),
                        gj_granted_at = Some (dt_iso dt t),
                        gj_reason = Some (gp_reason p),
                        gj_origin = Some (origin_name (gp_origin p))\<rparr>)"

section \<open>Refusals\<close>

record deny_rule =
  dn_source :: string
  dn_pattern :: path_pattern
  dn_access :: access
  dn_reason :: string
  dn_except :: "abs_path option"

definition deny_matches :: "deny_rule \<Rightarrow> abs_path \<Rightarrow> abs_path \<Rightarrow> bool" where
  "deny_matches d p home =
     (if (case dn_except d of None \<Rightarrow> False | Some w \<Rightarrow> contains w p) then False
      else pattern_matches (dn_pattern d) p home)"

definition deny_to_string :: "deny_rule \<Rightarrow> string" where
  "deny_to_string d =
     ''deny '' @ access_name (dn_access d) @ '' '' @ pp_raw (dn_pattern d) @
     (case dn_except d of None \<Rightarrow> [] | Some w \<Rightarrow> '' except '' @ ap_value w) @
     '' ('' @ dn_source d @ '')''"

section \<open>Starter profiles\<close>

record profile_spec =
  ps_id :: string
  ps_name :: string
  ps_description :: string
  ps_reads :: "string list"
  ps_writes :: "string list"
  ps_network :: "string list"

record starter_profile =
  sf_id :: string
  sf_name :: string
  sf_description :: string
  sf_read_specs :: "string list"
  sf_write_specs :: "string list"
  sf_network :: "network_rule list"

definition profile_from_spec :: "profile_spec \<Rightarrow> starter_profile res" where
  "profile_from_spec s =
     (if length (trim (ps_id s)) = 0 then Inl EmptyProfileId
      else rmap (\<lambda>rules. \<lparr>sf_id = ps_id s, sf_name = ps_name s, sf_description = ps_description s,
                     sf_read_specs = ps_reads s, sf_write_specs = ps_writes s, sf_network = rules\<rparr>)
             (traverse parse_network (ps_network s)))"

definition profile_reads :: "starter_profile \<Rightarrow> abs_path \<Rightarrow> resource_ref list res" where
  "profile_reads p home = traverse (\<lambda>raw. resource_parse raw home) (sf_read_specs p)"

definition profile_writes :: "starter_profile \<Rightarrow> abs_path \<Rightarrow> resource_ref list res" where
  "profile_writes p home = traverse (\<lambda>raw. resource_parse raw home) (sf_write_specs p)"

section \<open>The sandbox policy\<close>

record policy_override =
  ov_ref :: resource_ref
  ov_access :: access
  ov_reason :: string

datatype broker_transport = TcpLoopback nat | UnixSocketRelay abs_path abs_path nat

datatype network_enforcement = Closed | Unconfigured | Brokered broker_transport

record policy_props =
  pr_workspace :: abs_path
  pr_reads :: "resource_ref list"
  pr_writes :: "resource_ref list"
  pr_denies :: "deny_rule list"
  pr_overrides :: "policy_override list"
  pr_network :: "network_rule list"
  pr_enforcement :: "network_enforcement option"
  pr_runtime_refs :: "resource_ref list"

record sandbox_policy =
  po_workspace :: abs_path
  po_reads :: "resource_ref list"
  po_writes :: "resource_ref list"
  po_denies :: "deny_rule list"
  po_overrides :: "policy_override list"
  po_network :: "network_rule list"
  po_enforcement :: network_enforcement
  po_runtime_refs :: "resource_ref list"
  po_hash :: string

definition describe_override :: "policy_override \<Rightarrow> string" where
  "describe_override ov = access_name (ov_access ov) @ '' '' @ ref_to_string (ov_ref ov) @ '' ('' @ ov_reason ov @ '')''"

abbreviation newline :: string where
  "newline \<equiv> [CHR 0x0A]"

definition digest_section :: "string \<Rightarrow> string list \<Rightarrow> string" where
  "digest_section label values = label @ newline @ join newline (sort values)"

definition policy_digest :: "sha \<Rightarrow> policy_props \<Rightarrow> string" where
  "policy_digest h p =
     ''sha256:'' @ h (join (newline @ ''--'' @ newline)
       [''workspace'' @ newline @ ap_value (pr_workspace p),
        digest_section ''read'' (map ref_to_string (pr_reads p)),
        digest_section ''write'' (map ref_to_string (pr_writes p)),
        digest_section ''deny'' (map deny_to_string (pr_denies p)),
        digest_section ''override'' (map describe_override (pr_overrides p)),
        digest_section ''network'' (map rule_to_string (pr_network p)),
        digest_section ''runtime'' (map ref_to_string (pr_runtime_refs p))])"

definition policy_new :: "sha \<Rightarrow> policy_props \<Rightarrow> sandbox_policy" where
  "policy_new h p =
     \<lparr>po_workspace = pr_workspace p, po_reads = pr_reads p, po_writes = pr_writes p,
      po_denies = pr_denies p, po_overrides = pr_overrides p, po_network = pr_network p,
      po_enforcement = (case pr_enforcement p of
                          Some e \<Rightarrow> e
                        | None \<Rightarrow> if length (pr_network p) = 0 then Closed else Unconfigured),
      po_runtime_refs = pr_runtime_refs p, po_hash = policy_digest h p\<rparr>"

definition allows_ref :: "sandbox_policy \<Rightarrow> access \<Rightarrow> resource_ref list" where
  "allows_ref pol a = (if a = Read then po_reads pol else po_writes pol)"

definition is_denied :: "sandbox_policy \<Rightarrow> access \<Rightarrow> abs_path \<Rightarrow> path_context \<Rightarrow> bool" where
  "is_denied pol a p ctx = list_ex (\<lambda>d. dn_access d = a \<and> deny_matches d p (ctx_home ctx)) (po_denies pol)"

definition is_overridden :: "sandbox_policy \<Rightarrow> access \<Rightarrow> abs_path \<Rightarrow> bool" where
  "is_overridden pol a p = list_ex (\<lambda>ov. ov_access ov = a \<and> ref_covers (ov_ref ov) p) (po_overrides pol)"

definition policy_allows :: "sandbox_policy \<Rightarrow> access \<Rightarrow> abs_path \<Rightarrow> path_context \<Rightarrow> bool" where
  "policy_allows pol a p ctx =
     (if is_overridden pol a p then True
      else if is_denied pol a p ctx then False
      else list_ex (\<lambda>r. ref_covers r p) (allows_ref pol a))"

definition allows_network :: "sandbox_policy \<Rightarrow> bool" where
  "allows_network pol = (length (po_network pol) > 0)"

definition with_network_enforcement ::
  "sha \<Rightarrow> sandbox_policy \<Rightarrow> network_enforcement \<Rightarrow> sandbox_policy" where
  "with_network_enforcement h pol e =
     policy_new h \<lparr>pr_workspace = po_workspace pol, pr_reads = po_reads pol, pr_writes = po_writes pol,
       pr_denies = po_denies pol, pr_overrides = po_overrides pol, pr_network = po_network pol,
       pr_enforcement = Some e, pr_runtime_refs = po_runtime_refs pol\<rparr>"

section \<open>The builder\<close>

record policy_input =
  pi_profile :: starter_profile
  pi_grants :: "grant list"
  pi_context :: path_context
  pi_workspace_id :: workspace_id
  pi_toolchain_roots :: "abs_path list"
  pi_state_dir :: abs_path
  pi_agent_state_dirs :: "abs_path list"
  pi_temp_dirs :: "abs_path list"

datatype rejection_reason = Tier2RuntimeGrant | Tier2Resource | OutOfScope

record rejected_grant =
  rj_resource :: string
  rj_access :: access
  rj_reason :: rejection_reason
  rj_detail :: string

record policy_builder =
  pb_tiers :: registry
  pb_registry :: registry

definition assert_workspace_is_sane :: "registry \<Rightarrow> path_context \<Rightarrow> unit res" where
  "assert_workspace_is_sane reg ctx =
     rbind (traverse (\<lambda>e. rmap (\<lambda>anchor. (e, anchor)) (entry_literal_prefix e (ctx_home ctx)))
              (reg_dangerous_for reg (ctx_platform ctx) Read))
       (\<lambda>pairs. case find (\<lambda>(e, anchor). case anchor of None \<Rightarrow> False
                                     | Some x \<Rightarrow> contains (ctx_workspace ctx) x) pairs of
                  None \<Rightarrow> Inr ()
                | Some (e, _) \<Rightarrow> Inl (UnsafeWorkspace (sp_id e)))"

definition deny_of :: "access \<Rightarrow> path_context \<Rightarrow> sensitive_path \<Rightarrow> deny_rule" where
  "deny_of a ctx e =
     \<lparr>dn_source = sp_id e, dn_pattern = sp_pattern e, dn_access = a, dn_reason = sp_rationale e,
      dn_except = (if sp_outside_only e then Some (ctx_workspace ctx) else None)\<rparr>"

definition deny_rules :: "registry \<Rightarrow> path_context \<Rightarrow> deny_rule list" where
  "deny_rules reg ctx =
     concat (map (\<lambda>a. map (deny_of a ctx) (reg_dangerous_for reg (ctx_platform ctx) a)) [Read, Write])"

text \<open>The arrays the builder fills.\<close>

record build_state =
  bs_reads :: "resource_ref list"
  bs_writes :: "resource_ref list"
  bs_overrides :: "policy_override list"
  bs_runtime_refs :: "resource_ref list"
  bs_rejected :: "rejected_grant list"

definition push_ref :: "access \<Rightarrow> resource_ref \<Rightarrow> build_state \<Rightarrow> build_state" where
  "push_ref a r bs =
     (if a = Read then bs\<lparr>bs_reads := bs_reads bs @ [r]\<rparr> else bs\<lparr>bs_writes := bs_writes bs @ [r]\<rparr>)"

definition profile_rejection :: "starter_profile \<Rightarrow> path_context \<Rightarrow> access \<Rightarrow> resource_ref \<Rightarrow> rejected_grant" where
  "profile_rejection prof ctx a r =
     \<lparr>rj_resource = to_resource_string r (ctx_home ctx), rj_access = a, rj_reason = Tier2Resource,
      rj_detail = ''starter profile \"'' @ sf_id prof @ ''\" asks for a tier 2 resource''\<rparr>"

text \<open>The helper \<open>add\<close> of \<open>collectProfile\<close> over the resources of one list.\<close>

fun add_profile_refs ::
  "registry \<Rightarrow> starter_profile \<Rightarrow> path_context \<Rightarrow> access \<Rightarrow> resource_ref list \<Rightarrow> build_state \<Rightarrow> build_state res" where
  "add_profile_refs reg prof ctx a [] bs = Inr bs"
| "add_profile_refs reg prof ctx a (r # rs) bs =
     rbind (can_grant reg r a ctx) (\<lambda>ok.
       add_profile_refs reg prof ctx a rs
         (if ok then push_ref a r bs
          else bs\<lparr>bs_rejected := bs_rejected bs @ [profile_rejection prof ctx a r]\<rparr>))"

definition collect_profile :: "registry \<Rightarrow> policy_input \<Rightarrow> build_state \<Rightarrow> build_state res" where
  "collect_profile reg inp bs =
     (let ctx = pi_context inp; prof = pi_profile inp
      in rbind (profile_reads prof (ctx_home ctx)) (\<lambda>rs.
         rbind (add_profile_refs reg prof ctx Read rs bs) (\<lambda>bs1.
         rbind (profile_writes prof (ctx_home ctx)) (\<lambda>ws.
           add_profile_refs reg prof ctx Write ws bs1))))"

definition grant_rejection :: "path_context \<Rightarrow> grant \<Rightarrow> rejected_grant" where
  "grant_rejection ctx g =
     \<lparr>rj_resource = to_resource_string (gp_resource (g_props g)) (ctx_home ctx),
      rj_access = gp_access (g_props g), rj_reason = Tier2RuntimeGrant,
      rj_detail = ''tier 2 access cannot be granted while the agent is running''\<rparr>"

definition collect_grant :: "registry \<Rightarrow> policy_input \<Rightarrow> grant \<Rightarrow> build_state \<Rightarrow> build_state res" where
  "collect_grant reg inp g bs =
     (let ctx = pi_context inp; p = g_props g; r = gp_resource p; a = gp_access p
      in if \<not> grant_applies_to g (pi_workspace_id inp) then Inr bs
         else rbind (can_grant reg r a ctx) (\<lambda>ok.
           Inr (if ok then (push_ref a r bs)\<lparr>bs_runtime_refs := bs_runtime_refs bs @ [r]\<rparr>
                else if gp_origin p = Manual then
                  (push_ref a r bs)\<lparr>bs_overrides := bs_overrides bs @ [\<lparr>ov_ref = r, ov_access = a, ov_reason = gp_reason p\<rparr>],
                     bs_runtime_refs := bs_runtime_refs bs @ [r]\<rparr>
                else bs\<lparr>bs_rejected := bs_rejected bs @ [grant_rejection ctx g]\<rparr>)))"

fun collect_grants :: "registry \<Rightarrow> policy_input \<Rightarrow> grant list \<Rightarrow> build_state \<Rightarrow> build_state res" where
  "collect_grants reg inp [] bs = Inr bs"
| "collect_grants reg inp (g # gs) bs = rbind (collect_grant reg inp g bs) (collect_grants reg inp gs)"

record build_result =
  br_policy :: sandbox_policy
  br_rejected :: "rejected_grant list"

definition base_state :: "policy_input \<Rightarrow> abs_path \<Rightarrow> abs_path \<Rightarrow> build_state" where
  "base_state inp config decisions =
     (let ctx = pi_context inp; subtrees = map subtree_ref
      in \<lparr>bs_reads = [subtree_ref (ctx_workspace ctx)] @ subtrees (pi_toolchain_roots inp) @
                      subtrees (pi_agent_state_dirs inp) @ subtrees (pi_temp_dirs inp) @
                      [file_ref config, file_ref decisions],
          bs_writes = [subtree_ref (ctx_workspace ctx)] @ subtrees (pi_agent_state_dirs inp) @
                      subtrees (pi_temp_dirs inp),
          bs_overrides = [], bs_runtime_refs = [], bs_rejected = []\<rparr>)"

definition build_policy :: "sha \<Rightarrow> policy_builder \<Rightarrow> policy_input \<Rightarrow> build_result res" where
  "build_policy h pb inp =
     (let ctx = pi_context inp
      in rbind (assert_workspace_is_sane (pb_registry pb) ctx) (\<lambda>_.
         rbind (path_join (pi_state_dir inp) [''config.json'']) (\<lambda>config.
         rbind (path_join (pi_state_dir inp) [''decisions.json'']) (\<lambda>decisions.
         rbind (collect_profile (pb_tiers pb) inp (base_state inp config decisions)) (\<lambda>bs1.
         rbind (collect_grants (pb_tiers pb) inp (pi_grants inp) bs1) (\<lambda>bs.
           Inr \<lparr>br_policy = policy_new h
                  \<lparr>pr_workspace = ctx_workspace ctx, pr_reads = bs_reads bs, pr_writes = bs_writes bs,
                   pr_denies = deny_rules (pb_registry pb) ctx, pr_overrides = bs_overrides bs,
                   pr_network = sf_network (pi_profile inp), pr_enforcement = None,
                   pr_runtime_refs = bs_runtime_refs bs\<rparr>,
                br_rejected = bs_rejected bs\<rparr>))))))"

section \<open>Lemmas\<close>

lemma deny_of_matches:
  assumes "e \<in> set (reg_dangerous_for reg (ctx_platform ctx) a)"
  shows "deny_matches (deny_of a ctx e) p (ctx_home ctx) \<longleftrightarrow> entry_matches e p ctx"
  using assms
  by (auto simp: deny_matches_def deny_of_def entry_matches_def reg_dangerous_for_def reg_for_platform_def)

lemma deny_rules_exact:
  "(\<exists>d \<in> set (deny_rules reg ctx). dn_access d = a \<and> deny_matches d p (ctx_home ctx)) \<longleftrightarrow>
     tier_of reg p a ctx = Dangerous"
proof -
  have acc: "dn_access (deny_of b ctx e) = b" for b e by (simp add: deny_of_def)
  have mem: "d \<in> set (deny_rules reg ctx) \<longleftrightarrow>
      (\<exists>b. \<exists>e \<in> set (reg_dangerous_for reg (ctx_platform ctx) b). d = deny_of b ctx e)" for d
  proof -
    have "(\<exists>b. Q b) \<longleftrightarrow> Q Read \<or> Q Write" for Q :: "access \<Rightarrow> bool" by (metis access.exhaust)
    then show ?thesis by (auto simp: deny_rules_def)
  qed
  have "(\<exists>d \<in> set (deny_rules reg ctx). dn_access d = a \<and> deny_matches d p (ctx_home ctx)) \<longleftrightarrow>
      (\<exists>e \<in> set (reg_dangerous_for reg (ctx_platform ctx) a). deny_matches (deny_of a ctx e) p (ctx_home ctx))"
    unfolding Bex_def mem using acc by metis
  then show ?thesis using deny_of_matches [of _ reg ctx a p] by (auto simp: tier_of_dangerous_for)
qed

text \<open>The builder only ever adds to its arrays.\<close>

definition grows :: "build_state \<Rightarrow> build_state \<Rightarrow> bool" where
  "grows bs bs' =
     (set (bs_reads bs) \<subseteq> set (bs_reads bs') \<and> set (bs_writes bs) \<subseteq> set (bs_writes bs') \<and>
      set (bs_overrides bs) \<subseteq> set (bs_overrides bs') \<and> set (bs_runtime_refs bs) \<subseteq> set (bs_runtime_refs bs') \<and>
      set (bs_rejected bs) \<subseteq> set (bs_rejected bs'))"

definition bs_refs :: "access \<Rightarrow> build_state \<Rightarrow> resource_ref list" where
  "bs_refs a bs = (if a = Read then bs_reads bs else bs_writes bs)"

lemma grows_refl [simp]: "grows bs bs"
  by (simp add: grows_def)

lemma grows_trans: "grows a b \<Longrightarrow> grows b c \<Longrightarrow> grows a c"
  unfolding grows_def by blast

lemma grows_refs: "grows bs bs' \<Longrightarrow> r \<in> set (bs_refs a bs) \<Longrightarrow> r \<in> set (bs_refs a bs')"
  by (auto simp: grows_def bs_refs_def split: if_splits)

lemma push_ref_sel [simp]:
  "r \<in> set (bs_refs a (push_ref a r bs))"
  "bs_overrides (push_ref a r bs) = bs_overrides bs"
  "bs_runtime_refs (push_ref a r bs) = bs_runtime_refs bs"
  "bs_rejected (push_ref a r bs) = bs_rejected bs"
  by (simp_all add: push_ref_def bs_refs_def)

lemma push_ref_grows: "grows bs (push_ref a r bs)"
  by (auto simp: grows_def push_ref_def)

definition profile_outcome ::
  "registry \<Rightarrow> starter_profile \<Rightarrow> path_context \<Rightarrow> access \<Rightarrow> build_state \<Rightarrow> resource_ref \<Rightarrow> bool" where
  "profile_outcome reg prof ctx a bs r =
     (can_grant reg r a ctx = Inr True \<and> r \<in> set (bs_refs a bs) \<or>
      can_grant reg r a ctx = Inr False \<and> profile_rejection prof ctx a r \<in> set (bs_rejected bs))"

lemma profile_outcome_grows: "profile_outcome reg prof ctx a bs r \<Longrightarrow> grows bs bs' \<Longrightarrow> profile_outcome reg prof ctx a bs' r"
  using grows_refs by (fastforce simp: profile_outcome_def grows_def)

lemma add_profile_refs_facts:
  "add_profile_refs reg prof ctx a rs bs = Inr bs' \<Longrightarrow>
     grows bs bs' \<and> bs_overrides bs' = bs_overrides bs \<and> (\<forall>r \<in> set rs. profile_outcome reg prof ctx a bs' r)"
proof (induction rs arbitrary: bs)
  case (Cons x rs)
  obtain ok where ok: "can_grant reg x a ctx = Inr ok" using Cons.prems by (auto simp: rbind_eq_Inr)
  let ?bs = "if ok then push_ref a x bs
    else bs\<lparr>bs_rejected := bs_rejected bs @ [profile_rejection prof ctx a x]\<rparr>"
  have "add_profile_refs reg prof ctx a rs ?bs = Inr bs'" using Cons.prems ok by simp
  from Cons.IH [OF this] have ih: "grows ?bs bs'" "bs_overrides bs' = bs_overrides ?bs"
    "\<forall>r \<in> set rs. profile_outcome reg prof ctx a bs' r" by blast+
  have "grows bs ?bs" using push_ref_grows by (auto simp: grows_def)
  moreover have "profile_outcome reg prof ctx a ?bs x" using ok by (simp add: profile_outcome_def)
  ultimately show ?case using ih grows_trans profile_outcome_grows by (auto split: if_splits)
qed simp

text \<open>How one applicable grant ends up.\<close>

definition grant_outcome :: "registry \<Rightarrow> policy_input \<Rightarrow> grant \<Rightarrow> build_state \<Rightarrow> bool" where
  "grant_outcome reg inp g bs =
     (let p = g_props g; r = gp_resource p; a = gp_access p; ctx = pi_context inp
      in can_grant reg r a ctx = Inr True \<and> r \<in> set (bs_refs a bs) \<and> r \<in> set (bs_runtime_refs bs) \<or>
         can_grant reg r a ctx = Inr False \<and> gp_origin p = Manual \<and> r \<in> set (bs_refs a bs) \<and>
           r \<in> set (bs_runtime_refs bs) \<and> \<lparr>ov_ref = r, ov_access = a, ov_reason = gp_reason p\<rparr> \<in> set (bs_overrides bs) \<or>
         can_grant reg r a ctx = Inr False \<and> gp_origin p = Runtime \<and> grant_rejection ctx g \<in> set (bs_rejected bs))"

definition override_origin :: "registry \<Rightarrow> policy_input \<Rightarrow> grant list \<Rightarrow> policy_override \<Rightarrow> bool" where
  "override_origin reg inp gs ov =
     (\<exists>g \<in> set gs. grant_applies_to g (pi_workspace_id inp) \<and> gp_origin (g_props g) = Manual \<and>
        gp_resource (g_props g) = ov_ref ov \<and> gp_access (g_props g) = ov_access ov \<and>
        can_grant reg (ov_ref ov) (ov_access ov) (pi_context inp) = Inr False)"

lemma grant_outcome_grows: "grant_outcome reg inp g bs \<Longrightarrow> grows bs bs' \<Longrightarrow> grant_outcome reg inp g bs'"
  using grows_refs by (fastforce simp: grant_outcome_def Let_def grows_def)

lemma bs_refs_update [simp]:
  "bs_refs a (bs\<lparr>bs_runtime_refs := x\<rparr>) = bs_refs a bs"
  "bs_refs a (bs\<lparr>bs_overrides := y\<rparr>) = bs_refs a bs"
  "bs_refs a (bs\<lparr>bs_rejected := z\<rparr>) = bs_refs a bs"
  by (simp_all add: bs_refs_def)

lemma collect_grant_facts:
  assumes "collect_grant reg inp g bs = Inr bs'"
  shows "grows bs bs'"
    and "grant_applies_to g (pi_workspace_id inp) \<Longrightarrow> grant_outcome reg inp g bs'"
    and "ov \<in> set (bs_overrides bs') \<Longrightarrow> ov \<in> set (bs_overrides bs) \<or> override_origin reg inp [g] ov"
proof -
  let ?p = "g_props g"
  let ?r = "gp_resource ?p" and ?a = "gp_access ?p"
  consider (skip) "\<not> grant_applies_to g (pi_workspace_id inp)" "bs' = bs"
    | (open_up) "can_grant reg ?r ?a (pi_context inp) = Inr True"
        "bs' = (push_ref ?a ?r bs)\<lparr>bs_runtime_refs := bs_runtime_refs bs @ [?r]\<rparr>"
    | (manual) "grant_applies_to g (pi_workspace_id inp)" "can_grant reg ?r ?a (pi_context inp) = Inr False"
        "gp_origin ?p = Manual"
        "bs' = (push_ref ?a ?r bs)\<lparr>bs_overrides := bs_overrides bs @ [\<lparr>ov_ref = ?r, ov_access = ?a, ov_reason = gp_reason ?p\<rparr>],
                 bs_runtime_refs := bs_runtime_refs bs @ [?r]\<rparr>"
    | (refused) "can_grant reg ?r ?a (pi_context inp) = Inr False" "gp_origin ?p = Runtime"
        "bs' = bs\<lparr>bs_rejected := bs_rejected bs @ [grant_rejection (pi_context inp) g]\<rparr>"
  proof (cases "grant_applies_to g (pi_workspace_id inp)")
    case False
    with assms skip show thesis by (simp add: collect_grant_def Let_def)
  next
    case True
    with assms obtain ok where ok: "can_grant reg ?r ?a (pi_context inp) = Inr ok"
      by (cases "can_grant reg ?r ?a (pi_context inp)") (simp_all add: collect_grant_def Let_def)
    show thesis
      using assms True ok open_up manual refused
      by (cases ok; cases "gp_origin ?p") (simp_all add: collect_grant_def Let_def)
  qed
  note cases = this
  have g: "grows bs (push_ref ?a ?r bs)" by (rule push_ref_grows)
  show "grows bs bs'"
    by (cases rule: cases) (use g in \<open>auto simp: grows_def\<close>)
  show "grant_applies_to g (pi_workspace_id inp) \<Longrightarrow> grant_outcome reg inp g bs'"
    by (cases rule: cases) (simp_all add: grant_outcome_def Let_def)
  show "ov \<in> set (bs_overrides bs') \<Longrightarrow> ov \<in> set (bs_overrides bs) \<or> override_origin reg inp [g] ov"
    by (cases rule: cases) (auto simp: override_origin_def)
qed

lemma override_origin_mono: "override_origin reg inp gs ov \<Longrightarrow> set gs \<subseteq> set gs' \<Longrightarrow> override_origin reg inp gs' ov"
  by (auto simp: override_origin_def)

lemma collect_grants_facts:
  "collect_grants reg inp gs bs = Inr bs' \<Longrightarrow>
     grows bs bs' \<and>
     (\<forall>g \<in> set gs. grant_applies_to g (pi_workspace_id inp) \<longrightarrow> grant_outcome reg inp g bs') \<and>
     (\<forall>ov \<in> set (bs_overrides bs'). ov \<in> set (bs_overrides bs) \<or> override_origin reg inp gs ov)"
proof (induction gs arbitrary: bs)
  case (Cons x gs)
  then obtain bs1 where s: "collect_grant reg inp x bs = Inr bs1" "collect_grants reg inp gs bs1 = Inr bs'" by auto
  note one = collect_grant_facts [OF s(1)]
  from Cons.IH [OF s(2)] have ih: "grows bs1 bs'"
    "\<forall>g \<in> set gs. grant_applies_to g (pi_workspace_id inp) \<longrightarrow> grant_outcome reg inp g bs'"
    "\<forall>ov \<in> set (bs_overrides bs'). ov \<in> set (bs_overrides bs1) \<or> override_origin reg inp gs ov" by blast+
  have "grows bs bs'" by (rule grows_trans [OF one(1) ih(1)])
  moreover have "\<forall>g \<in> set (x # gs). grant_applies_to g (pi_workspace_id inp) \<longrightarrow> grant_outcome reg inp g bs'"
    using ih(2) one(2) grant_outcome_grows [OF _ ih(1)] by auto
  moreover have "\<forall>ov \<in> set (bs_overrides bs'). ov \<in> set (bs_overrides bs) \<or> override_origin reg inp (x # gs) ov"
  proof
    fix ov assume "ov \<in> set (bs_overrides bs')"
    with ih(3) one(3) have "ov \<in> set (bs_overrides bs) \<or> override_origin reg inp [x] ov \<or> override_origin reg inp gs ov"
      by blast
    then show "ov \<in> set (bs_overrides bs) \<or> override_origin reg inp (x # gs) ov"
      using override_origin_mono [of reg inp "[x]" ov "x # gs"] override_origin_mono [of reg inp gs ov "x # gs"]
      by auto
  qed
  ultimately show ?case by blast
qed simp

lemma build_policy_cases:
  assumes "build_policy h pb inp = Inr res"
  obtains config decisions bs1 bs where
    "assert_workspace_is_sane (pb_registry pb) (pi_context inp) = Inr ()"
    "collect_profile (pb_tiers pb) inp (base_state inp config decisions) = Inr bs1"
    "collect_grants (pb_tiers pb) inp (pi_grants inp) bs1 = Inr bs"
    "po_denies (br_policy res) = deny_rules (pb_registry pb) (pi_context inp)"
    "po_reads (br_policy res) = bs_reads bs" "po_writes (br_policy res) = bs_writes bs"
    "po_overrides (br_policy res) = bs_overrides bs" "po_runtime_refs (br_policy res) = bs_runtime_refs bs"
    "br_rejected res = bs_rejected bs" "po_workspace (br_policy res) = ctx_workspace (pi_context inp)"
  using assms by (auto simp: build_policy_def Let_def policy_new_def)

lemma collect_profile_overrides:
  "collect_profile reg inp bs = Inr bs' \<Longrightarrow> bs_overrides bs' = bs_overrides bs"
  using add_profile_refs_facts by (fastforce simp: collect_profile_def Let_def)

lemma base_state_overrides [simp]: "bs_overrides (base_state inp c d) = []"
  by (simp add: base_state_def Let_def)

lemma built_overrides:
  assumes "build_policy h pb inp = Inr res" "ov \<in> set (po_overrides (br_policy res))"
  shows "override_origin (pb_tiers pb) inp (pi_grants inp) ov"
proof -
  obtain config decisions bs1 bs where b:
    "collect_profile (pb_tiers pb) inp (base_state inp config decisions) = Inr bs1"
    "collect_grants (pb_tiers pb) inp (pi_grants inp) bs1 = Inr bs"
    "po_overrides (br_policy res) = bs_overrides bs" by (rule build_policy_cases [OF assms(1)])
  have "bs_overrides bs1 = []" using collect_profile_overrides [OF b(1)] by simp
  with collect_grants_facts [OF b(2)] assms(2) b(3) show ?thesis by simp
qed

lemma built_denied:
  assumes "build_policy h pb inp = Inr res"
  shows "is_denied (br_policy res) a p (pi_context inp) \<longleftrightarrow> tier_of (pb_registry pb) p a (pi_context inp) = Dangerous"
proof -
  have "po_denies (br_policy res) = deny_rules (pb_registry pb) (pi_context inp)"
    by (rule build_policy_cases [OF assms])
  with deny_rules_exact [of "pb_registry pb" "pi_context inp" a p] show ?thesis
    by (simp add: is_denied_def list_ex_iff)
qed

lemma build_refuses_unsafe:
  assumes "registry_ok (pb_registry pb)" "ctx_ok (pi_context inp)"
    and e: "e \<in> set (reg_dangerous_for (pb_registry pb) (ctx_platform (pi_context inp)) Read)"
    and x: "entry_literal_prefix e (ctx_home (pi_context inp)) = Inr (Some x)"
    and c: "contains (ctx_workspace (pi_context inp)) x"
  shows "\<exists>i. build_policy h pb inp = Inl (UnsafeWorkspace i)"
proof -
  let ?ctx = "pi_context inp" and ?ds = "reg_dangerous_for (pb_registry pb) (ctx_platform (pi_context inp)) Read"
  have ok: "\<exists>y. entry_literal_prefix d (ctx_home ?ctx) = Inr y" if "d \<in> set ?ds" for d
    using that assms(1,2) literal_prefix_eq
    by (auto simp: entry_literal_prefix_def ctx_ok_def registry_ok_def entry_ok_def reg_dangerous_for_def
        reg_for_platform_def Let_def)
  define g where "g d = (d, case entry_literal_prefix d (ctx_home ?ctx) of Inr y \<Rightarrow> y | Inl _ \<Rightarrow> None)" for d
  have t: "traverse (\<lambda>d. rmap (\<lambda>anchor. (d, anchor)) (entry_literal_prefix d (ctx_home ?ctx))) ?ds = Inr (map g ?ds)"
    by (rule traverse_map_Inr) (use ok in \<open>force simp: g_def\<close>)
  let ?P = "\<lambda>(d, anchor). case anchor of None \<Rightarrow> False | Some y \<Rightarrow> contains (ctx_workspace ?ctx) y"
  have "g e \<in> set (map g ?ds)" using e by simp
  moreover have "?P (g e)" using x c by (simp add: g_def)
  ultimately have "g e \<in> set (map g ?ds) \<and> ?P (g e)" by blast
  then obtain d y where "find ?P (map g ?ds) = Some (d, y)"
    using find_None_all [of ?P "map g ?ds"] by (cases "find ?P (map g ?ds)") auto
  then have "assert_workspace_is_sane (pb_registry pb) ?ctx = Inl (UnsafeWorkspace (sp_id d))"
    unfolding assert_workspace_is_sane_def t rbind_simps by simp
  then show ?thesis by (simp add: build_policy_def Let_def)
qed

lemma digest_section_perm: "mset xs = mset ys \<Longrightarrow> digest_section l (map f xs) = digest_section l (map f ys)"
proof -
  assume "mset xs = mset ys"
  then have "mset (map f xs) = mset (map f ys)" by simp
  then have "sort (map f xs) = sort (map f ys)" by (metis mset_sort properties_for_sort sorted_sort)
  then show ?thesis by (simp add: digest_section_def)
qed

lemma policy_digest_perm:
  assumes "pr_workspace p = pr_workspace q" "mset (pr_reads p) = mset (pr_reads q)"
    "mset (pr_writes p) = mset (pr_writes q)" "mset (pr_denies p) = mset (pr_denies q)"
    "mset (pr_overrides p) = mset (pr_overrides q)" "mset (pr_network p) = mset (pr_network q)"
    "mset (pr_runtime_refs p) = mset (pr_runtime_refs q)"
  shows "policy_digest h p = policy_digest h q"
  unfolding policy_digest_def assms(1) digest_section_perm [OF assms(2)] digest_section_perm [OF assms(3)]
    digest_section_perm [OF assms(4)] digest_section_perm [OF assms(5)] digest_section_perm [OF assms(6)]
    digest_section_perm [OF assms(7)] ..

section \<open>Properties\<close>

definition sample_grant :: "string \<Rightarrow> grant_origin \<Rightarrow> grant" where
  "sample_grant dir origin =
     grant_new zero_sha \<lparr>gp_resource = subtree_ref (mk_posix [''home'', ''u'', dir]), gp_access = Read,
       gp_scope = scope_global, gp_granted_at = Some 0, gp_reason = ''needed'', gp_origin = origin\<rparr>"

definition sample_input :: policy_input where
  "sample_input =
     \<lparr>pi_profile = \<lparr>sf_id = ''web'', sf_name = ''Web'', sf_description = [], sf_read_specs = [''dir:~/.ssh'', ''dir:/opt''],
        sf_write_specs = [], sf_network = []\<rparr>,
      pi_grants = [sample_grant ''.ssh'' Runtime, sample_grant ''.gnupg'' Manual, sample_grant ''docs'' Runtime],
      pi_context = sample_ctx, pi_workspace_id = \<lparr>wid_value = replicate 16 (CHR ''0'')\<rparr>,
      pi_toolchain_roots = [], pi_state_dir = mk_posix [''home'', ''u'', ''.agentkeeper''],
      pi_agent_state_dirs = [], pi_temp_dirs = [mk_posix [''tmp'']]\<rparr>"

definition sample_builder :: policy_builder where
  "sample_builder = \<lparr>pb_tiers = sample_registry, pb_registry = sample_registry\<rparr>"

lemma sample_build: "\<exists>res. build_policy zero_sha sample_builder sample_input = Inr res"
proof -
  have "is_ok (build_policy zero_sha sample_builder sample_input)" by code_simp
  then show ?thesis by (simp add: is_ok_iff)
qed

lemma sample_context [simp]: "pi_context sample_input = sample_ctx" "pb_registry sample_builder = sample_registry"
  "pb_tiers sample_builder = sample_registry"
  by (simp_all add: sample_input_def sample_builder_def)

text \<open>C10: the deny list of a built policy refuses exactly the locations that the tier
  resolver calls tier 2 for the operation, the exception for the workspace included: the
  sandbox and the hook rules never disagree about what is dangerous.\<close>

theorem denied_iff_tier2:
  assumes "build_policy h pb inp = Inr res"
  shows "is_denied (br_policy res) a p (pi_context inp) \<longleftrightarrow>
    tier_of (pb_registry pb) p a (pi_context inp) = Dangerous"
  by (rule built_denied [OF assms])

lemma denied_iff_tier2_witness:
  "\<exists>res. build_policy zero_sha sample_builder sample_input = Inr res \<and>
     is_denied (br_policy res) Read (mk_posix [''home'', ''u'', ''.ssh'', ''id_rsa'']) sample_ctx"
proof -
  obtain res where r: "build_policy zero_sha sample_builder sample_input = Inr res" using sample_build by blast
  have "tier_of sample_registry (mk_posix [''home'', ''u'', ''.ssh'', ''id_rsa'']) Read sample_ctx = Dangerous"
    by code_simp
  with denied_iff_tier2 [OF r] r show ?thesis by simp
qed

text \<open>C1: whatever the profile and the grants ask for, a built policy allows an operation on a
  tier 2 location only where a grant typed by hand, in scope, for the same operation,
  covers it; a grant made at run time never opens one.\<close>

theorem tier2_only_by_manual_grant:
  assumes "build_policy h pb inp = Inr res" "policy_allows (br_policy res) a p (pi_context inp)"
    and "tier_of (pb_registry pb) p a (pi_context inp) = Dangerous"
  shows "\<exists>g \<in> set (pi_grants inp). gp_origin (g_props g) = Manual \<and> grant_covers g a (pi_workspace_id inp) \<and>
    ref_covers (gp_resource (g_props g)) p"
proof -
  have "is_overridden (br_policy res) a p"
    using assms(2,3) built_denied [OF assms(1), of a p] by (simp add: policy_allows_def split: if_splits)
  then obtain ov where "ov \<in> set (po_overrides (br_policy res))" "ov_access ov = a" "ref_covers (ov_ref ov) p"
    by (auto simp: is_overridden_def list_ex_iff)
  with built_overrides [OF assms(1)] show ?thesis by (fastforce simp: override_origin_def grant_covers_def)
qed

lemma tier2_only_by_manual_grant_witness:
  "\<exists>res. build_policy zero_sha sample_builder sample_input = Inr res \<and>
     \<not> policy_allows (br_policy res) Read (mk_posix [''home'', ''u'', ''.ssh'', ''id_rsa'']) sample_ctx"
proof -
  let ?p = "mk_posix [''home'', ''u'', ''.ssh'', ''id_rsa'']"
  obtain res where r: "build_policy zero_sha sample_builder sample_input = Inr res" using sample_build by blast
  have t: "tier_of sample_registry ?p Read sample_ctx = Dangerous"
    and n: "list_all (\<lambda>g. gp_origin (g_props g) = Runtime \<or> \<not> ref_covers (gp_resource (g_props g)) ?p)
      (pi_grants sample_input)" by code_simp+
  have "\<not> policy_allows (br_policy res) Read ?p sample_ctx"
    using tier2_only_by_manual_grant [OF r, of Read ?p] t n unfolding list_all_iff
    by (metis grant_origin.distinct(1) sample_context(1,2))
  with r show ?thesis by blast
qed

text \<open>No grant in scope is dropped silently: its resource is in the list of its operation
  and marked as a runtime resource, or it was made at run time for a tier 2 resource and
  is reported as rejected with that reason.\<close>

theorem every_grant_accounted:
  assumes "build_policy h pb inp = Inr res" "g \<in> set (pi_grants inp)" "grant_applies_to g (pi_workspace_id inp)"
  shows "(let p = g_props g; r = gp_resource p; a = gp_access p; ctx = pi_context inp
    in r \<in> set (allows_ref (br_policy res) a) \<and> r \<in> set (po_runtime_refs (br_policy res)) \<or>
       gp_origin p = Runtime \<and> can_grant (pb_tiers pb) r a ctx = Inr False \<and>
       (\<exists>j \<in> set (br_rejected res). rj_resource j = to_resource_string r (ctx_home ctx) \<and> rj_access j = a \<and>
          rj_reason j = Tier2RuntimeGrant))"
proof -
  obtain bs1 bs where b: "collect_grants (pb_tiers pb) inp (pi_grants inp) bs1 = Inr bs"
    "po_reads (br_policy res) = bs_reads bs" "po_writes (br_policy res) = bs_writes bs"
    "po_runtime_refs (br_policy res) = bs_runtime_refs bs" "br_rejected res = bs_rejected bs"
    by (rule build_policy_cases [OF assms(1)])
  have "grant_outcome (pb_tiers pb) inp g bs" using collect_grants_facts [OF b(1)] assms(2,3) by blast
  moreover have "bs_refs a bs = allows_ref (br_policy res) a" for a
    using b(2,3) by (simp add: bs_refs_def allows_ref_def)
  ultimately show ?thesis
    using b(4,5) by (auto simp: grant_outcome_def Let_def grant_rejection_def intro: rev_bexI)
qed

lemma every_grant_accounted_witness:
  "\<exists>res. build_policy zero_sha sample_builder sample_input = Inr res \<and>
     subtree_ref (mk_posix [''home'', ''u'', ''docs'']) \<in> set (po_reads (br_policy res))"
proof -
  let ?g = "sample_grant ''docs'' Runtime"
  obtain res where r: "build_policy zero_sha sample_builder sample_input = Inr res" using sample_build by blast
  have g: "?g \<in> set (pi_grants sample_input)" by (simp add: sample_input_def)
  have a: "grant_applies_to ?g (pi_workspace_id sample_input)"
    and c: "can_grant sample_registry (subtree_ref (mk_posix [''home'', ''u'', ''docs''])) Read sample_ctx = Inr True"
    by code_simp+
  have p: "gp_resource (g_props ?g) = subtree_ref (mk_posix [''home'', ''u'', ''docs''])" "gp_access (g_props ?g) = Read"
    by (simp_all add: sample_grant_def grant_new_def)
  from every_grant_accounted [OF r g a] c p r show ?thesis by (auto simp: Let_def allows_ref_def)
qed

text \<open>A workspace that contains the anchor of a row whose reads are tier 2, such as the
  home directory, is refused with the row that says so, and no policy is built for it.\<close>

theorem unsafe_workspace_refused:
  assumes "registry_ok (pb_registry pb)" "ctx_ok (pi_context inp)"
    and "e \<in> set (reg_dangerous_for (pb_registry pb) (ctx_platform (pi_context inp)) Read)"
    and "entry_literal_prefix e (ctx_home (pi_context inp)) = Inr (Some x)"
    and "contains (ctx_workspace (pi_context inp)) x"
  shows "\<exists>i. build_policy h pb inp = Inl (UnsafeWorkspace i)"
  by (rule build_refuses_unsafe [OF assms])

definition home_input :: policy_input where
  "home_input = sample_input\<lparr>pi_context := sample_ctx\<lparr>ctx_workspace := mk_posix [''home'', ''u'']\<rparr>\<rparr>"

lemma unsafe_workspace_refused_witness: "\<exists>i. build_policy zero_sha sample_builder home_input = Inl (UnsafeWorkspace i)"
proof -
  let ?ctx = "pi_context home_input"
  have reg: "registry_ok (pb_registry sample_builder)" using sample_registry_ok by simp
  have ctx: "ctx_ok ?ctx" by code_simp
  have "list_ex (\<lambda>e. case entry_literal_prefix e (ctx_home ?ctx) of Inr (Some x) \<Rightarrow> contains (ctx_workspace ?ctx) x
      | _ \<Rightarrow> False) (reg_dangerous_for (pb_registry sample_builder) (ctx_platform ?ctx) Read)" by code_simp
  then obtain e where e: "e \<in> set (reg_dangerous_for (pb_registry sample_builder) (ctx_platform ?ctx) Read)"
    and c: "case entry_literal_prefix e (ctx_home ?ctx) of Inr (Some x) \<Rightarrow> contains (ctx_workspace ?ctx) x | _ \<Rightarrow> False"
    unfolding list_ex_iff by blast
  from c obtain x where "entry_literal_prefix e (ctx_home ?ctx) = Inr (Some x)" "contains (ctx_workspace ?ctx) x"
    by (cases "entry_literal_prefix e (ctx_home ?ctx)") (auto split: option.splits)
  then show ?thesis by (rule unsafe_workspace_refused [OF reg ctx e])
qed

text \<open>The policy hash depends on the capabilities only: rules assembled in another order
  hash alike, and installing the launch-time network transport keeps the hash.\<close>

theorem policy_hash_canonical:
  assumes "pr_workspace p = pr_workspace q" "mset (pr_reads p) = mset (pr_reads q)"
    "mset (pr_writes p) = mset (pr_writes q)" "mset (pr_denies p) = mset (pr_denies q)"
    "mset (pr_overrides p) = mset (pr_overrides q)" "mset (pr_network p) = mset (pr_network q)"
    "mset (pr_runtime_refs p) = mset (pr_runtime_refs q)"
  shows "po_hash (policy_new h p) = po_hash (policy_new h q) \<and>
    po_hash (with_network_enforcement h (policy_new h p) e) = po_hash (policy_new h q) \<and>
    po_enforcement (with_network_enforcement h (policy_new h p) e) = e"
  using policy_digest_perm [OF assms, of h]
  by (simp add: policy_new_def with_network_enforcement_def policy_digest_def)

definition sample_props :: "resource_ref list \<Rightarrow> policy_props" where
  "sample_props rs = \<lparr>pr_workspace = mk_posix [''w''], pr_reads = rs, pr_writes = [], pr_denies = [],
     pr_overrides = [], pr_network = [], pr_enforcement = None, pr_runtime_refs = []\<rparr>"

lemma policy_hash_canonical_witness:
  "po_hash (policy_new zero_sha (sample_props [subtree_ref (mk_posix [''a'']), file_ref (mk_posix [''b''])])) =
   po_hash (policy_new zero_sha (sample_props [file_ref (mk_posix [''b'']), subtree_ref (mk_posix [''a''])]))"
  using policy_hash_canonical
    [of "sample_props [subtree_ref (mk_posix [''a'']), file_ref (mk_posix [''b''])]"
        "sample_props [file_ref (mk_posix [''b'']), subtree_ref (mk_posix [''a''])]"]
  by (simp add: sample_props_def)

definition grant_ok :: "abs_path \<Rightarrow> grant_props \<Rightarrow> bool" where
  "grant_ok home p =
     (home_ok home \<and> ref_ok (gp_resource p) \<and> reparsable (segments (rr_path (gp_resource p))) \<and>
      (case gs_workspace (gp_scope p) of None \<Rightarrow> True | Some w \<Rightarrow> wid_ok w) \<and> gp_granted_at p \<noteq> None)"

lemma grant_roundtrip_aux:
  assumes "grant_ok home p" "grant_create h p = Inr g" "\<forall>t. dt_parse dt (dt_iso dt t) = Some t"
  shows "rbind (grant_to_json dt g home) (\<lambda>j. grant_from_json h dt j home) = Inr g"
proof -
  let ?q = "p\<lparr>gp_reason := trim (gp_reason p)\<rparr>"
  have g: "g = grant_new h ?q" and ne: "trim (gp_reason p) \<noteq> []"
    using assms(2) by (simp_all add: grant_create_def split: if_splits)
  have props: "g_props g = ?q" by (simp add: g grant_new_def)
  obtain t where t: "gp_granted_at p = Some t" using assms(1) by (auto simp: grant_ok_def)
  have r: "resource_parse (to_resource_string (gp_resource p) home) home = Inr (gp_resource p)"
    using assms(1) by (intro resource_roundtrip_aux) (simp_all add: grant_ok_def ref_ok_def)
  have s: "scope_parse (scope_to_string (gp_scope p)) = Inr (gp_scope p)"
    using assms(1) by (intro scope_roundtrip) (auto simp: grant_ok_def)
  have a: "access_of (access_name (gp_access p)) = Inr (gp_access p)"
    by (cases "gp_access p") (simp_all add: access_of_def access_name_def)
  have o: "origin_of (origin_name (gp_origin p)) = Inr (gp_origin p)"
    by (cases "gp_origin p") (simp_all add: origin_of_def origin_name_def)
  have eq: "\<lparr>gp_resource = gp_resource p, gp_access = gp_access p, gp_scope = gp_scope p,
      gp_granted_at = Some t, gp_reason = trim (gp_reason p), gp_origin = gp_origin p\<rparr> = ?q"
    using t by simp
  have "grant_create h ?q = Inr g" using ne by (simp add: grant_create_def g trim_trim)
  then have "grant_create h \<lparr>gp_resource = gp_resource p, gp_access = gp_access p, gp_scope = gp_scope p,
      gp_granted_at = Some t, gp_reason = trim (gp_reason p), gp_origin = gp_origin p\<rparr> = Inr g"
    unfolding eq .
  then show ?thesis
    using t r s a o assms(3) by (simp add: grant_to_json_def grant_from_json_def props Let_def)
qed

text \<open>A grant written to \<open>allowlist.json\<close> is read back as the same grant, origin
  included, when its date is valid.\<close>

theorem grant_roundtrip:
  assumes "grant_ok home p" "grant_create h p = Inr g" "\<forall>t. dt_parse dt (dt_iso dt t) = Some t"
  shows "rbind (grant_to_json dt g home) (\<lambda>j. grant_from_json h dt j home) = Inr g"
  using assms by (rule grant_roundtrip_aux)

definition sample_dates :: dates where
  "sample_dates =
     \<lparr>dt_parse = (\<lambda>s. Some (if starts_with s ''-'' then - int (length (tl s)) else int (length s))),
      dt_iso = (\<lambda>t. if t < 0 then CHR ''-'' # replicate (nat (- t)) (CHR ''0'') else replicate (nat t) (CHR ''0''))\<rparr>"

lemma sample_dates_ok: "\<forall>t. dt_parse sample_dates (dt_iso sample_dates t) = Some t"
proof
  fix t :: int
  have "\<not> starts_with (replicate (nat t) (CHR ''0'')) ''-''" by (cases "nat t") simp_all
  then show "dt_parse sample_dates (dt_iso sample_dates t) = Some t" by (simp add: sample_dates_def)
qed

lemma grant_roundtrip_witness:
  "\<exists>g j. grant_to_json sample_dates g (mk_posix [''home'', ''u'']) = Inr j \<and> gj_resource j = ''dir:~/docs'' \<and>
     grant_from_json zero_sha sample_dates j (mk_posix [''home'', ''u'']) = Inr g"
proof -
  let ?p = "\<lparr>gp_resource = subtree_ref (mk_posix [''home'', ''u'', ''docs'']), gp_access = Write,
    gp_scope = scope_global, gp_granted_at = Some 3, gp_reason = '' notes '', gp_origin = Runtime\<rparr>"
  let ?home = "mk_posix [''home'', ''u'']"
  let ?g = "grant_new zero_sha (?p\<lparr>gp_reason := trim (gp_reason ?p)\<rparr>)"
  have ok: "grant_ok ?home ?p" by code_simp
  have n: "trim (gp_reason ?p) \<noteq> []" by code_simp
  then have c: "grant_create zero_sha ?p = Inr ?g" unfolding grant_create_def by simp
  have d: "to_resource_string (gp_resource ?p) ?home = ''dir:~/docs''" by code_simp
  obtain j where j: "grant_to_json sample_dates ?g ?home = Inr j" "gj_resource j = ''dir:~/docs''"
    using d by (auto simp: grant_to_json_def grant_new_def)
  from grant_roundtrip [OF ok c sample_dates_ok] j show ?thesis by auto
qed

end
