(* ===== verification/Broker.thy ===== *)
theory Broker
  imports Network
begin

text \<open>
  \<open>src/infrastructure/network\<close>: the decision of \<open>DestinationGuard.ts\<close> after name
  resolution, the CONNECT authority parser, the classes of addresses, and the handshake
  of \<open>NodeDestinationBroker.ts\<close> as steps over the chunks a client sends. Name
  resolution and dialling are parameters; sockets, timers and the byte tunnel are left
  out. \<open>isIP\<close> of node is written out from its documented grammar.
\<close>

section \<open>IP literals\<close>

definition v4_octet :: "string \<Rightarrow> bool" where
  "v4_octet s =
     (s \<noteq> [] \<and> length s \<le> 3 \<and> list_all is_digit s \<and> decimal s \<le> 255 \<and> (length s = 1 \<or> hd s \<noteq> CHR ''0''))"

definition is_ipv4 :: "string \<Rightarrow> bool" where
  "is_ipv4 s = (let parts = split_on (CHR ''.'') s in length parts = 4 \<and> list_all v4_octet parts)"

definition hex_group :: "string \<Rightarrow> bool" where
  "hex_group s = (s \<noteq> [] \<and> length s \<le> 4 \<and> list_all (\<lambda>c. is_hex (to_lower_char c)) s)"

text \<open>How many 16 bit groups a colon separated list stands for, when it is well formed.\<close>

fun group_count :: "bool \<Rightarrow> string list \<Rightarrow> nat option" where
  "group_count v4 [] = Some 0"
| "group_count v4 (t # ts) =
     (if v4 \<and> ts = [] \<and> is_ipv4 t then Some 2
      else if hex_group t then map_option Suc (group_count v4 ts) else None)"

definition groups_of :: "string \<Rightarrow> string list" where
  "groups_of s = (if s = [] then [] else split_on (CHR '':'') s)"

text \<open>The text before and after the first \<open>::\<close>, when there is one.\<close>

definition at_gap :: "string \<Rightarrow> (string \<times> string) option" where
  "at_gap s = map_option (\<lambda>i. (take i s, drop (i + 2) s)) (index_of ''::'' s)"

definition zone_char :: "char \<Rightarrow> bool" where
  "zone_char c = (is_digit c \<or> is_letter c \<or> c \<in> {CHR ''-'', CHR ''.'', CHR '':''})"

definition is_ipv6 :: "string \<Rightarrow> bool" where
  "is_ipv6 s =
     (let addr = takeWhile (\<lambda>c. c \<noteq> CHR ''%'') s; zone = dropWhile (\<lambda>c. c \<noteq> CHR ''%'') s
      in (zone = [] \<or> tl zone \<noteq> [] \<and> list_all zone_char (tl zone)) \<and>
         (case at_gap addr of
            None \<Rightarrow> group_count True (groups_of addr) = Some 8
          | Some (l, r) \<Rightarrow>
              (case (group_count False (groups_of l), group_count True (groups_of r)) of
                 (Some m, Some n) \<Rightarrow> m + n \<le> 7
               | _ \<Rightarrow> False)))"

definition is_ip :: "string \<Rightarrow> nat" where
  "is_ip s = (if is_ipv4 s then 4 else if is_ipv6 s then 6 else 0)"

section \<open>Address classes\<close>

unbundle bit_operations_syntax

definition parse_ipv4 :: "string \<Rightarrow> (nat \<times> nat \<times> nat \<times> nat) option" where
  "parse_ipv4 address =
     (let parts = split_on (CHR ''.'') address;
          bad = (\<lambda>p. \<not> (p \<noteq> [] \<and> length p \<le> 3 \<and> list_all is_digit p) \<or> decimal p > 255)
      in if length parts \<noteq> 4 \<or> list_ex bad parts then None
         else (case map decimal parts of [a, b, c, d] \<Rightarrow> Some (a, b, c, d) | _ \<Rightarrow> None))"

definition is_public_octets :: "nat \<times> nat \<times> nat \<times> nat \<Rightarrow> bool" where
  "is_public_octets octets =
     (case octets of (a, b, c, _) \<Rightarrow>
        if a = 0 \<or> a = 10 \<or> a = 127 \<or> a \<ge> 224 then False
        else if a = 100 \<and> b \<ge> 64 \<and> b \<le> 127 then False
        else if a = 169 \<and> b = 254 then False
        else if a = 172 \<and> b \<ge> 16 \<and> b \<le> 31 then False
        else if a = 192 \<and> b = 168 then False
        else if a = 192 \<and> b = 0 \<and> (c = 0 \<or> c = 2) then False
        else if a = 192 \<and> b = 88 \<and> c = 99 then False
        else if a = 198 \<and> (b = 18 \<or> b = 19 \<or> b = 51 \<and> c = 100) then False
        else if a = 203 \<and> b = 0 \<and> c = 113 then False
        else True)"

definition is_public_ipv4 :: "string \<Rightarrow> bool" where
  "is_public_ipv4 address = (case parse_ipv4 address of None \<Rightarrow> False | Some octets \<Rightarrow> is_public_octets octets)"

definition hex_val :: "char \<Rightarrow> nat" where
  "hex_val c = (if is_digit c then digit_val c else code_of c - 87)"

definition parse_hex :: "string \<Rightarrow> nat" where
  "parse_hex s = foldl (\<lambda>n c. 16 * n + hex_val c) 0 s"

text \<open>The loop of \<open>parseIpv6Part\<close>; \<open>tokens.at(-1)\<close> is \<open>lst\<close>.\<close>

fun ipv6_tokens :: "string \<Rightarrow> string list \<Rightarrow> nat list option" where
  "ipv6_tokens lst [] = Some []"
| "ipv6_tokens lst (token # ts) =
     (if CHR ''.'' \<in> set token then
        (case parse_ipv4 token of
           None \<Rightarrow> None
         | Some (a, b, c, d) \<Rightarrow>
             if token \<noteq> lst then None
             else map_option (\<lambda>ws. (push_bit 8 a OR b) # (push_bit 8 c OR d) # ws) (ipv6_tokens lst ts))
      else if token = [] \<or> length token > 4 \<or> \<not> list_all is_hex token then None
      else map_option (\<lambda>ws. parse_hex token # ws) (ipv6_tokens lst ts))"

definition parse_ipv6_part :: "string \<Rightarrow> nat list option" where
  "parse_ipv6_part raw =
     (if raw = [] then Some []
      else let tokens = split_on (CHR '':'') raw in ipv6_tokens (last tokens) tokens)"

text \<open>\<open>split('::')\<close> yields at most two parts exactly when no second \<open>::\<close> follows the first.\<close>

definition ipv6_words :: "string \<Rightarrow> nat list option" where
  "ipv6_words address =
     (let s = to_lower address
      in if CHR ''%'' \<in> set s then None
         else (case at_gap s of
                 None \<Rightarrow>
                   (case parse_ipv6_part s of
                      None \<Rightarrow> None
                    | Some head \<Rightarrow> if length head = 8 then Some head else None)
               | Some (h, t) \<Rightarrow>
                   if at_gap t \<noteq> None then None
                   else (case (parse_ipv6_part h, parse_ipv6_part t) of
                           (Some head, Some tail) \<Rightarrow>
                             if length head + length tail > 7 then None
                             else Some (head @ replicate (8 - length head - length tail) 0 @ tail)
                         | _ \<Rightarrow> None)))"

definition is_ipv4_mapped :: "nat list \<Rightarrow> bool" where
  "is_ipv4_mapped words = (list_all (\<lambda>w. w = 0) (take 5 words) \<and> words ! 5 = 0xffff)"

definition quad_text :: "nat list \<Rightarrow> string" where
  "quad_text words =
     show_nat (drop_bit 8 (words ! 6)) @ ''.'' @ show_nat (words ! 6 AND 0xff) @ ''.'' @
     show_nat (drop_bit 8 (words ! 7)) @ ''.'' @ show_nat (words ! 7 AND 0xff)"

definition is_public_words :: "nat list \<Rightarrow> bool" where
  "is_public_words words =
     (if words ! 0 AND 0xe000 \<noteq> 0x2000 then False
      else if words ! 0 = 0x2001 \<and> words ! 1 = 0x0db8 then False
      else if words ! 0 = 0x2001 \<and> words ! 1 = 0x0000 then False
      else if words ! 0 = 0x2001 \<and> words ! 1 = 0x0002 then False
      else True)"

definition is_public_address :: "string \<Rightarrow> bool" where
  "is_public_address address =
     (let family = is_ip address
      in if family = 4 then is_public_ipv4 address
         else if family \<noteq> 6 then False
         else (case ipv6_words address of
                 None \<Rightarrow> False
               | Some words \<Rightarrow>
                   if is_ipv4_mapped words then is_public_ipv4 (quad_text words)
                   else is_public_words words))"

definition is_loopback_address :: "string \<Rightarrow> bool" where
  "is_loopback_address address =
     (if is_ip address = 4
      then (case parse_ipv4 address of None \<Rightarrow> False | Some (a, _, _, _) \<Rightarrow> a = 127)
      else (case ipv6_words address of
              None \<Rightarrow> False
            | Some words \<Rightarrow>
                if list_all (\<lambda>w. w = 0) (take 7 words) \<and> words ! 7 = 1 then True
                else if \<not> is_ipv4_mapped words then False
                else drop_bit 8 (words ! 6) = 127))"

definition loopback_host :: "string \<Rightarrow> bool" where
  "loopback_host host =
     (let n = strip_dot (to_lower host)
      in n = ''localhost'' \<or> ends_with n ''.localhost'' \<or> is_loopback_address n)"

section \<open>DestinationGuard\<close>

record resolved_address =
  ra_address :: string
  ra_family :: nat

datatype denial = DestinationNotAllowed | DnsEmpty | NonPublicAddress | LoopbackResolutionMismatch

datatype authorization = Allowed string nat | Denied denial

definition authorize ::
  "string \<Rightarrow> nat \<Rightarrow> network_rule list \<Rightarrow> resolved_address list \<Rightarrow> authorization" where
  "authorize host port rules addresses =
     (let loopback_rule = find (\<lambda>r. allows_loopback r \<and> loopback_host host) rules;
          exact_rule = find (\<lambda>r. is_explicit_destination r \<and> rule_matches r host port) rules
      in if loopback_rule = None \<and> exact_rule = None then Denied DestinationNotAllowed
         else case addresses of
                [] \<Rightarrow> Denied DnsEmpty
              | selected # _ \<Rightarrow>
                  if loopback_rule \<noteq> None
                  then if \<not> list_all (\<lambda>a. is_loopback_address (ra_address a)) addresses
                       then Denied LoopbackResolutionMismatch
                       else Allowed (ra_address selected) (ra_family selected)
                  else if \<not> list_all (\<lambda>a. is_public_address (ra_address a)) addresses
                       then Denied NonPublicAddress
                       else Allowed (ra_address selected) (ra_family selected))"

definition port_text_ok :: "string \<Rightarrow> bool" where
  "port_text_ok s = (s \<noteq> [] \<and> length s \<le> 5 \<and> list_all is_digit s)"

definition authority_char_bad :: "char \<Rightarrow> bool" where
  "authority_char_bad c =
     (code_of c \<le> (0x20 :: nat) \<or> code_of c = (0x7f :: nat) \<or> c \<in> {CHR ''/'', CHR ''@'', CHR 0x5C})"

definition check_port :: "string \<Rightarrow> string \<Rightarrow> (string \<times> nat) res" where
  "check_port host raw_port =
     (let port = decimal raw_port in if port < 1 \<or> port > 65535 then Inl BadAuthority else Inr (host, port))"

definition parse_connect_authority :: "string \<Rightarrow> (string \<times> nat) res" where
  "parse_connect_authority authority =
     (if authority = [] \<or> length authority > 512 \<or> list_ex authority_char_bad authority then Inl BadAuthority
      else if starts_with authority ''['' then
        (case index_of '']'' authority of
           None \<Rightarrow> Inl BadAuthority
         | Some i \<Rightarrow>
             let host = drop 1 (take i authority); rest = drop (i + 1) authority
             in if host = [] \<or> \<not> starts_with rest '':'' \<or> \<not> port_text_ok (tl rest) \<or> is_ip host \<noteq> 6
                then Inl BadAuthority else check_port host (tl rest))
      else (case last_index_of (CHR '':'') authority of
              None \<Rightarrow> Inl BadAuthority
            | Some i \<Rightarrow>
                if i = 0 \<or> index_of '':'' authority \<noteq> Some i then Inl BadAuthority
                else let host = strip_dot (to_lower (take i authority)); raw_port = drop (i + 1) authority
                     in if \<not> port_text_ok raw_port then Inl BadAuthority else check_port host raw_port))"

section \<open>The broker\<close>

definition validate_rules :: "network_rule list \<Rightarrow> unit res" where
  "validate_rules rules =
     (if rules = [] then Inl BadBrokerRules
      else rmap (\<lambda>_. ()) (traverse (\<lambda>r.
        if allows_loopback r then Inr ()
        else if nr_protocol r \<noteq> Tcp then Inl BadBrokerRules
        else if \<not> is_explicit_destination r then Inl BadBrokerRules
        else Inr ()) rules))"

definition is_loopback_authority :: "string \<Rightarrow> bool" where
  "is_loopback_authority host =
     (let n = strip_dot (to_lower host)
      in if n = ''localhost'' \<or> ends_with n ''.localhost'' then True
         else if is_ip n = 4 then hd (split_on (CHR ''.'') n) = ''127''
         else n = ''::1'' \<or> starts_with (to_lower n) ''::ffff:127.'')"

definition authority_allowed :: "string \<Rightarrow> nat \<Rightarrow> network_rule list \<Rightarrow> bool" where
  "authority_allowed host port rules =
     list_ex (\<lambda>r. is_explicit_destination r \<and> rule_matches r host port \<or>
                  allows_loopback r \<and> is_loopback_authority host) rules"

text \<open>\<open>lookup\<close> stands for \<open>node:dns\<close>; \<open>None\<close> is a failed or timed out resolution.\<close>

definition resolve_host ::
  "(string \<Rightarrow> resolved_address list option) \<Rightarrow> string \<Rightarrow> resolved_address list option" where
  "resolve_host lookup host =
     (let family = is_ip host
      in if family = 4 \<or> family = 6 then Some [\<lparr>ra_address = host, ra_family = family\<rparr>]
         else map_option (filter (\<lambda>a. ra_family a = 4 \<or> ra_family a = 6)) (lookup host))"

text \<open>What the broker does to the network, in order, and how a handshake ends.\<close>

datatype net_effect = Resolve string | Dial string nat nat

datatype handshake =
    Waiting string
  | Rejected nat
  | Tunnel string nat nat string

record broker =
  bk_max_header :: nat
  bk_rules :: "network_rule list"
  bk_lookup :: "string \<Rightarrow> resolved_address list option"
  bk_dial :: "string \<Rightarrow> nat \<Rightarrow> nat \<Rightarrow> bool"

definition crlf :: string where
  "crlf = [CHR 0x0D, CHR 0x0A]"

text \<open>The request line: \<open>CONNECT\<close>, one target without blanks, HTTP version 1.0 or 1.1.\<close>

definition connect_target :: "string \<Rightarrow> string option" where
  "connect_target line =
     (case split_on (CHR '' '') line of
        [m, t, v] \<Rightarrow>
          if m = ''CONNECT'' \<and> t \<noteq> [] \<and> (v = ''HTTP/1.0'' \<or> v = ''HTTP/1.1'') then Some t else None
      | _ \<Rightarrow> None)"

definition open_tunnel :: "broker \<Rightarrow> string \<Rightarrow> nat \<Rightarrow> string \<Rightarrow> handshake \<times> net_effect list" where
  "open_tunnel bk host port remainder =
     (if \<not> authority_allowed host port (bk_rules bk) then (Rejected 403, [])
      else (case resolve_host (bk_lookup bk) host of
              None \<Rightarrow> (Rejected 502, [Resolve host])
            | Some addresses \<Rightarrow>
                (case authorize host port (bk_rules bk) addresses of
                   Denied _ \<Rightarrow> (Rejected 403, [Resolve host])
                 | Allowed address family \<Rightarrow>
                     if bk_dial bk address port family
                     then (Tunnel address port family remainder, [Resolve host, Dial address port family])
                     else (Rejected 502, [Resolve host, Dial address port family]))))"

definition on_data :: "broker \<Rightarrow> string \<Rightarrow> string \<Rightarrow> handshake \<times> net_effect list" where
  "on_data bk header chunk =
     (let h = header @ chunk
      in if length h > bk_max_header bk then (Rejected 431, [])
         else (case index_of (crlf @ crlf) h of
                 None \<Rightarrow> (Waiting h, [])
               | Some boundary \<Rightarrow>
                   let preface = take (boundary + 4) h; remainder = drop (boundary + 4) h;
                       line = (case index_of crlf preface of None \<Rightarrow> [] | Some i \<Rightarrow> take i preface)
                   in (case connect_target line of
                         None \<Rightarrow> (Rejected 405, [])
                       | Some target \<Rightarrow>
                           (case parse_connect_authority target of
                              Inl _ \<Rightarrow> (Rejected 400, [])
                            | Inr (host, port) \<Rightarrow> open_tunnel bk host port remainder))))"

text \<open>The chunks of one client; the listener is removed when the handshake ends.\<close>

fun feed :: "broker \<Rightarrow> string \<Rightarrow> string list \<Rightarrow> handshake \<times> net_effect list" where
  "feed bk header [] = (Waiting header, [])"
| "feed bk header (c # cs) =
     (case on_data bk header c of
        (Waiting h, effs) \<Rightarrow> feed bk h cs
      | result \<Rightarrow> result)"

section \<open>Lemmas\<close>

lemma authorize_allowed:
  assumes "authorize host port rules addresses = Allowed a f"
  shows "\<exists>rest. addresses = \<lparr>ra_address = a, ra_family = f\<rparr> # rest"
    and "(\<exists>r \<in> set rules. allows_loopback r \<and> loopback_host host) \<and>
        (\<forall>x \<in> set addresses. is_loopback_address (ra_address x)) \<or>
      (\<exists>r \<in> set rules. is_explicit_destination r \<and> rule_matches r host port) \<and>
        (\<forall>x \<in> set addresses. is_public_address (ra_address x))"
proof -
  have lb: "find (\<lambda>r. allows_loopback r \<and> loopback_host host) rules \<noteq> None \<Longrightarrow>
      \<exists>r \<in> set rules. allows_loopback r \<and> loopback_host host"
    using find_Some_in by fastforce
  have ex: "find (\<lambda>r. is_explicit_destination r \<and> rule_matches r host port) rules \<noteq> None \<Longrightarrow>
      \<exists>r \<in> set rules. is_explicit_destination r \<and> rule_matches r host port"
    using find_Some_in by fastforce
  show "\<exists>rest. addresses = \<lparr>ra_address = a, ra_family = f\<rparr> # rest"
    using assms by (auto simp: authorize_def Let_def split: if_splits list.splits)
  show "(\<exists>r \<in> set rules. allows_loopback r \<and> loopback_host host) \<and>
        (\<forall>x \<in> set addresses. is_loopback_address (ra_address x)) \<or>
      (\<exists>r \<in> set rules. is_explicit_destination r \<and> rule_matches r host port) \<and>
        (\<forall>x \<in> set addresses. is_public_address (ra_address x))"
  proof (cases "find (\<lambda>r. allows_loopback r \<and> loopback_host host) rules = None")
    case True
    with assms have "find (\<lambda>r. is_explicit_destination r \<and> rule_matches r host port) rules \<noteq> None"
      "list_all (\<lambda>x. is_public_address (ra_address x)) addresses"
      by (auto simp: authorize_def Let_def split: if_splits list.splits)
    with ex show ?thesis by (simp add: list_all_iff)
  next
    case False
    with assms have "list_all (\<lambda>x. is_loopback_address (ra_address x)) addresses"
      by (auto simp: authorize_def Let_def split: if_splits list.splits)
    with lb [OF False] show ?thesis by (simp add: list_all_iff)
  qed
qed

lemma on_data_tunnel:
  assumes "on_data bk header chunk = (Tunnel a port f rem, effs)"
  shows "length (header @ chunk) \<le> bk_max_header bk \<and>
    (\<exists>target host. parse_connect_authority target = Inr (host, port) \<and>
       open_tunnel bk host port rem = (Tunnel a port f rem, effs))"
proof -
  have "length (header @ chunk) \<le> bk_max_header bk"
    using assms by (auto simp: on_data_def Let_def split: if_splits)
  moreover obtain target host p rem' where
    t: "parse_connect_authority target = Inr (host, p)" "open_tunnel bk host p rem' = (Tunnel a port f rem, effs)"
    using assms by (auto simp: on_data_def Let_def split: if_splits option.splits sum.splits)
  have "p = port \<and> rem' = rem"
    using t(2) by (auto simp: open_tunnel_def split: if_splits option.splits authorization.splits)
  with t calculation show ?thesis by blast
qed

lemma feed_tunnel:
  assumes "feed bk header chunks = (Tunnel a port f rem, effs)"
  shows "\<exists>target host. parse_connect_authority target = Inr (host, port) \<and>
    open_tunnel bk host port rem = (Tunnel a port f rem, effs)"
  using assms
proof (induction chunks arbitrary: header)
  case (Cons c cs)
  obtain r e where r: "on_data bk header c = (r, e)" by (cases "on_data bk header c")
  show ?case
  proof (cases r)
    case (Waiting h)
    with Cons r show ?thesis by simp
  next
    case (Tunnel x1 x2 x3 x4)
    with Cons.prems r have "on_data bk header c = (Tunnel a port f rem, effs)" by simp
    from on_data_tunnel [OF this] show ?thesis by blast
  qed (use Cons.prems r in simp)
qed simp

lemma open_tunnel_effects:
  assumes "open_tunnel bk host port rem = (r, effs)"
  shows "Resolve h \<in> set effs \<Longrightarrow> h = host \<and> authority_allowed host port (bk_rules bk)"
    and "Dial a p f \<in> set effs \<Longrightarrow> p = port \<and> authority_allowed host port (bk_rules bk) \<and>
      (\<exists>addresses. resolve_host (bk_lookup bk) host = Some addresses \<and>
         authorize host port (bk_rules bk) addresses = Allowed a f)"
  using assms by (auto simp: open_tunnel_def split: if_splits option.splits authorization.splits)

lemma feed_effects:
  assumes "feed bk header chunks = (r, effs)" "effs \<noteq> []"
  shows "\<exists>target host port rem. parse_connect_authority target = Inr (host, port) \<and>
    open_tunnel bk host port rem = (r, effs)"
  using assms
proof (induction chunks arbitrary: header)
  case (Cons c cs)
  obtain r' e where r': "on_data bk header c = (r', e)" by (cases "on_data bk header c")
  show ?case
  proof (cases "\<exists>h. r' = Waiting h")
    case True
    with Cons r' show ?thesis by auto
  next
    case False
    with Cons.prems(1) r' have "on_data bk header c = (r, effs)" by (cases r') auto
    with Cons.prems(2) show ?thesis
      by (auto simp: on_data_def Let_def split: if_splits option.splits sum.splits)
  qed
qed simp

lemma parse_connect_bounds:
  assumes "parse_connect_authority authority = Inr (host, port)"
  shows "1 \<le> port \<and> port \<le> 65535 \<and> length authority \<le> 512 \<and> \<not> list_ex authority_char_bad authority"
  using assms
  by (auto simp: parse_connect_authority_def check_port_def Let_def split: if_splits option.splits)

section \<open>Properties\<close>

text \<open>C14: whatever bytes a client sends, in whatever chunks, the broker dials only the first
  address of a resolution of a host it was configured for, on the requested port, and
  only when every address of that resolution is a loopback address (for a loopback host
  under a loopback rule) or public (for an explicit destination that matches).\<close>

theorem dial_only_authorised:
  assumes "feed bk [] chunks = (r, effs)" "Dial a port f \<in> set effs"
  shows "\<exists>target host rest. parse_connect_authority target = Inr (host, port) \<and>
    authority_allowed host port (bk_rules bk) \<and>
    resolve_host (bk_lookup bk) host = Some (\<lparr>ra_address = a, ra_family = f\<rparr> # rest) \<and>
    ((\<exists>u \<in> set (bk_rules bk). allows_loopback u) \<and> loopback_host host \<and>
       (\<forall>x \<in> set (\<lparr>ra_address = a, ra_family = f\<rparr> # rest). is_loopback_address (ra_address x)) \<or>
     (\<exists>u \<in> set (bk_rules bk). is_explicit_destination u \<and> rule_matches u host port) \<and>
       (\<forall>x \<in> set (\<lparr>ra_address = a, ra_family = f\<rparr> # rest). is_public_address (ra_address x)))"
proof -
  have "effs \<noteq> []" using assms(2) by auto
  then obtain target host p remn where t: "parse_connect_authority target = Inr (host, p)"
    "open_tunnel bk host p remn = (r, effs)" using feed_effects [OF assms(1)] by blast
  from open_tunnel_effects(2) [OF t(2) assms(2)] obtain addresses where
    o: "p = port" "authority_allowed host port (bk_rules bk)"
      "resolve_host (bk_lookup bk) host = Some addresses"
      "authorize host port (bk_rules bk) addresses = Allowed a f" by blast
  from authorize_allowed(1) [OF o(4)] obtain rest where
    a: "addresses = \<lparr>ra_address = a, ra_family = f\<rparr> # rest" by blast
  show ?thesis
    using t(1) o(1-3) authorize_allowed(2) [OF o(4)] unfolding a by blast
qed

definition sample_broker :: broker where
  "sample_broker = \<lparr>bk_max_header = 16384,
     bk_rules = [\<lparr>nr_protocol = Tcp, nr_host = ''api.example.com'', nr_port = Port 443\<rparr>],
     bk_lookup = (\<lambda>host. Some [\<lparr>ra_address = ''93.184.216.34'', ra_family = 4\<rparr>]),
     bk_dial = (\<lambda>a p f. True)\<rparr>"

definition sample_chunks :: "string list" where
  "sample_chunks = [''CONNECT api.exam'', ''ple.com:443 HTTP/1.1'' @ crlf, crlf @ ''tls'']"

lemma sample_feed:
  "feed sample_broker [] sample_chunks =
     (Tunnel ''93.184.216.34'' 443 4 ''tls'', [Resolve ''api.example.com'', Dial ''93.184.216.34'' 443 4])"
  by code_simp

lemma dial_only_authorised_witness:
  "\<exists>host. authority_allowed host 443 (bk_rules sample_broker) \<and> is_public_address ''93.184.216.34''"
proof -
  from dial_only_authorised [OF sample_feed, of "''93.184.216.34''" 443 4] obtain host rest where
    h: "authority_allowed host 443 (bk_rules sample_broker)"
    and d: "(\<exists>u \<in> set (bk_rules sample_broker). allows_loopback u) \<or>
      (\<forall>x \<in> set (\<lparr>ra_address = ''93.184.216.34'', ra_family = 4\<rparr> # rest). is_public_address (ra_address x))"
    by auto
  have "\<not> (\<exists>u \<in> set (bk_rules sample_broker). allows_loopback u)"
    by (simp add: sample_broker_def allows_loopback_def)
  with h d show ?thesis by auto
qed

text \<open>No name is resolved before the authority has been allowed, so the broker cannot be
  used to probe names.\<close>

theorem resolve_only_allowed:
  assumes "feed bk [] chunks = (r, effs)" "Resolve host \<in> set effs"
  shows "\<exists>target port. parse_connect_authority target = Inr (host, port) \<and>
    authority_allowed host port (bk_rules bk)"
proof -
  have "effs \<noteq> []" using assms(2) by auto
  then obtain target h p remn where t: "parse_connect_authority target = Inr (h, p)"
    "open_tunnel bk h p remn = (r, effs)" using feed_effects [OF assms(1)] by blast
  from open_tunnel_effects(1) [OF t(2) assms(2)] t(1) show ?thesis by blast
qed

lemma resolve_only_allowed_witness: "\<exists>port. authority_allowed ''api.example.com'' port (bk_rules sample_broker)"
  using resolve_only_allowed [OF sample_feed, of "''api.example.com''"] by auto

text \<open>A CONNECT authority that is accepted has a port from 1 to 65535 and comes from at
  most 512 characters, none of them a control character, a blank, a slash, a backslash
  or an at sign; otherwise parsing throws.\<close>

theorem connect_authority_bounds:
  assumes "parse_connect_authority authority = Inr (host, port)"
  shows "1 \<le> port \<and> port \<le> 65535 \<and> length authority \<le> 512 \<and> \<not> list_ex authority_char_bad authority"
  by (rule parse_connect_bounds [OF assms])

lemma connect_authority_bounds_witness:
  "parse_connect_authority ''[2606:4700::1]:65535'' = Inr (''2606:4700::1'', 65535) \<and>
   \<not> list_ex authority_char_bad ''[2606:4700::1]:65535''"
proof -
  have e: "parse_connect_authority ''[2606:4700::1]:65535'' = Inr (''2606:4700::1'', 65535)" by code_simp
  from connect_authority_bounds [OF e] e show ?thesis by simp
qed

text \<open>The special-purpose IPv4 blocks the guard refuses, as base address and prefix length.\<close>

definition v4_number :: "nat \<times> nat \<times> nat \<times> nat \<Rightarrow> nat" where
  "v4_number octets = (case octets of (a, b, c, d) \<Rightarrow> ((a * 256 + b) * 256 + c) * 256 + d)"

definition in_block :: "nat \<Rightarrow> (nat \<times> nat \<times> nat \<times> nat) \<times> nat \<Rightarrow> bool" where
  "in_block n block = (n div 2 ^ (32 - snd block) = v4_number (fst block) div 2 ^ (32 - snd block))"

definition special_blocks :: "((nat \<times> nat \<times> nat \<times> nat) \<times> nat) list" where
  "special_blocks =
     [((0, 0, 0, 0), 8), ((10, 0, 0, 0), 8), ((127, 0, 0, 0), 8), ((224, 0, 0, 0), 3),
      ((100, 64, 0, 0), 10), ((169, 254, 0, 0), 16), ((172, 16, 0, 0), 12), ((192, 168, 0, 0), 16),
      ((192, 0, 0, 0), 24), ((192, 0, 2, 0), 24), ((192, 88, 99, 0), 24), ((198, 18, 0, 0), 15),
      ((198, 51, 100, 0), 24), ((203, 0, 113, 0), 24)]"

lemma v4_div:
  assumes "a < 256" "b < 256" "c < 256" "d < 256"
  shows "v4_number (a, b, c, d) div 16777216 = a"
    and "v4_number (a, b, c, d) div 536870912 = a div 32"
    and "v4_number (a, b, c, d) div 65536 = a * 256 + b"
    and "v4_number (a, b, c, d) div 4194304 = (a * 256 + b) div 64"
    and "v4_number (a, b, c, d) div 1048576 = (a * 256 + b) div 16"
    and "v4_number (a, b, c, d) div 131072 = (a * 256 + b) div 2"
    and "v4_number (a, b, c, d) div 256 = (a * 256 + b) * 256 + c"
proof -
  have 8: "v4_number (a, b, c, d) div 256 = (a * 256 + b) * 256 + c"
    using assms by (simp add: v4_number_def)
  have d16: "((a * 256 + b) * 256 + c) div 256 = a * 256 + b" using assms by simp
  have d24: "(a * 256 + b) div 256 = a" using assms by simp
  have split: "n div (256 * k) = n div 256 div k" for n k :: nat by (simp add: div_mult2_eq)
  show "v4_number (a, b, c, d) div 256 = (a * 256 + b) * 256 + c" by (rule 8)
  show 16: "v4_number (a, b, c, d) div 65536 = a * 256 + b"
    using split [of "v4_number (a, b, c, d)" 256] 8 d16 by simp
  have split16: "n div (65536 * k) = n div 65536 div k" for n k :: nat by (simp add: div_mult2_eq)
  show 24: "v4_number (a, b, c, d) div 16777216 = a"
    using split16 [of "v4_number (a, b, c, d)" 256] 16 d24 by simp
  have split24: "n div (16777216 * k) = n div 16777216 div k" for n k :: nat by (simp add: div_mult2_eq)
  show "v4_number (a, b, c, d) div 536870912 = a div 32"
    using split24 [of "v4_number (a, b, c, d)" 32] 24 by simp
  show "v4_number (a, b, c, d) div 4194304 = (a * 256 + b) div 64"
    using split16 [of "v4_number (a, b, c, d)" 64] 16 by simp
  show "v4_number (a, b, c, d) div 1048576 = (a * 256 + b) div 16"
    using split16 [of "v4_number (a, b, c, d)" 16] 16 by simp
  show "v4_number (a, b, c, d) div 131072 = (a * 256 + b) div 2"
    using split16 [of "v4_number (a, b, c, d)" 2] 16 by simp
qed

lemma byte_pair:
  fixes m n i j :: nat
  assumes "i < 256" "j < 256"
  shows "m * 256 + i = n * 256 + j \<longleftrightarrow> m = n \<and> i = j"
proof -
  have "(m * 256 + i) div 256 = m" "(m * 256 + i) mod 256 = i" "(n * 256 + j) div 256 = n" "(n * 256 + j) mod 256 = j"
    using assms by simp_all
  then show ?thesis by metis
qed

lemma byte_triple:
  fixes a b c x y z :: nat
  assumes "b < 256" "c < 256" "y < 256" "z < 256"
  shows "(a * 256 + b) * 256 + c = (x * 256 + y) * 256 + z \<longleftrightarrow> a = x \<and> b = y \<and> c = z"
  by (simp only: byte_pair [OF assms(2,4)] byte_pair [OF assms(1,3)] conj_assoc)

lemma quotient_iff: "0 < k \<Longrightarrow> n div k = q \<longleftrightarrow> q * k \<le> n \<and> n < q * k + (k :: nat)"
  by (metis div_nat_eqI div_times_less_eq_dividend dividend_less_div_times mult.commute mult_Suc_right add.commute)

lemma byte_range:
  fixes a b x l h :: nat
  assumes "b < 256" "h \<le> 256"
  shows "x * 256 + l \<le> a * 256 + b \<and> a * 256 + b < x * 256 + h \<longleftrightarrow> a = x \<and> l \<le> b \<and> b < h"
proof (cases a x rule: linorder_cases)
  case less
  then have "Suc a * 256 \<le> x * 256" by (intro mult_le_mono1) simp
  with less assms(1) show ?thesis by simp
next
  case greater
  then have "Suc x * 256 \<le> a * 256" by (intro mult_le_mono1) simp
  with greater assms(2) show ?thesis by simp
qed simp

text \<open>The blocks that end inside an octet, over the octets.\<close>

lemma partial_blocks:
  fixes a b :: nat
  assumes "a < 256" "b < 256"
  shows "a div 32 = 7 \<longleftrightarrow> a \<ge> 224"
    and "(a * 256 + b) div 64 = 401 \<longleftrightarrow> a = 100 \<and> b \<ge> 64 \<and> b \<le> 127"
    and "(a * 256 + b) div 16 = 2753 \<longleftrightarrow> a = 172 \<and> b \<ge> 16 \<and> b \<le> 31"
    and "(a * 256 + b) div 2 = 25353 \<longleftrightarrow> a = 198 \<and> (b = 18 \<or> b = 19)"
proof -
  show "a div 32 = 7 \<longleftrightarrow> a \<ge> 224" using assms(1) by (auto simp: quotient_iff)
  show "(a * 256 + b) div 64 = 401 \<longleftrightarrow> a = 100 \<and> b \<ge> 64 \<and> b \<le> 127"
    using quotient_iff [of 64 "a * 256 + b" 401] byte_range [OF assms(2), of 128 100 64 a] by auto
  show "(a * 256 + b) div 16 = 2753 \<longleftrightarrow> a = 172 \<and> b \<ge> 16 \<and> b \<le> 31"
    using quotient_iff [of 16 "a * 256 + b" 2753] byte_range [OF assms(2), of 32 172 16 a] by auto
  show "(a * 256 + b) div 2 = 25353 \<longleftrightarrow> a = 198 \<and> (b = 18 \<or> b = 19)"
    using quotient_iff [of 2 "a * 256 + b" 25353] byte_range [OF assms(2), of 20 198 18 a] by auto
qed

lemma special_blocks_octets:
  assumes "a < 256" "b < 256" "c < 256" "d < 256"
  shows "(\<forall>block \<in> set special_blocks. \<not> in_block (v4_number (a, b, c, d)) block) \<longleftrightarrow>
    \<not> (a = 0 \<or> a = 10 \<or> a = 127 \<or> a div 32 = 7 \<or> (a * 256 + b) div 64 = 401 \<or>
       a * 256 + b = 169 * 256 + 254 \<or> (a * 256 + b) div 16 = 2753 \<or> a * 256 + b = 192 * 256 + 168 \<or>
       (a * 256 + b) * 256 + c = (192 * 256 + 0) * 256 + 0 \<or>
       (a * 256 + b) * 256 + c = (192 * 256 + 0) * 256 + 2 \<or>
       (a * 256 + b) * 256 + c = (192 * 256 + 88) * 256 + 99 \<or> (a * 256 + b) div 2 = 25353 \<or>
       (a * 256 + b) * 256 + c = (198 * 256 + 51) * 256 + 100 \<or>
       (a * 256 + b) * 256 + c = (203 * 256 + 0) * 256 + 113)"
proof -
  have base: "v4_number (0, 0, 0, 0) = 0" "v4_number (10, 0, 0, 0) = 167772160"
    "v4_number (127, 0, 0, 0) = 2130706432" "v4_number (224, 0, 0, 0) = 3758096384"
    "v4_number (100, 64, 0, 0) = 1681915904" "v4_number (169, 254, 0, 0) = 2851995648"
    "v4_number (172, 16, 0, 0) = 2886729728" "v4_number (192, 168, 0, 0) = 3232235520"
    "v4_number (192, 0, 0, 0) = 3221225472" "v4_number (192, 0, 2, 0) = 3221225984"
    "v4_number (192, 88, 99, 0) = 3227017984" "v4_number (198, 18, 0, 0) = 3323068416"
    "v4_number (198, 51, 100, 0) = 3325256704" "v4_number (203, 0, 113, 0) = 3405803776"
    by (simp_all add: v4_number_def)
  show ?thesis by (simp add: special_blocks_def in_block_def v4_div [OF assms] base)
qed

text \<open>The octet tests of \<open>isPublicIpv4\<close> refuse exactly the addresses of the
  special-purpose blocks: this network, private use, shared address space, loopback,
  link local, protocol assignments, documentation, relay anycast, benchmarking,
  multicast and reserved.\<close>

theorem public_ipv4_blocks:
  assumes "a < 256" "b < 256" "c < 256" "d < 256"
  shows "is_public_octets (a, b, c, d) \<longleftrightarrow>
    (\<forall>block \<in> set special_blocks. \<not> in_block (v4_number (a, b, c, d)) block)"
proof -
  have e2: "a * 256 + b = 169 * 256 + 254 \<longleftrightarrow> a = 169 \<and> b = 254"
    "a * 256 + b = 192 * 256 + 168 \<longleftrightarrow> a = 192 \<and> b = 168"
    by (rule byte_pair [OF assms(2)], simp)+
  have e3: "(a * 256 + b) * 256 + c = (192 * 256 + 0) * 256 + 0 \<longleftrightarrow> a = 192 \<and> b = 0 \<and> c = 0"
    "(a * 256 + b) * 256 + c = (192 * 256 + 0) * 256 + 2 \<longleftrightarrow> a = 192 \<and> b = 0 \<and> c = 2"
    "(a * 256 + b) * 256 + c = (192 * 256 + 88) * 256 + 99 \<longleftrightarrow> a = 192 \<and> b = 88 \<and> c = 99"
    "(a * 256 + b) * 256 + c = (198 * 256 + 51) * 256 + 100 \<longleftrightarrow> a = 198 \<and> b = 51 \<and> c = 100"
    "(a * 256 + b) * 256 + c = (203 * 256 + 0) * 256 + 113 \<longleftrightarrow> a = 203 \<and> b = 0 \<and> c = 113"
    by (rule byte_triple [OF assms(2,3)], simp, simp)+
  have pub: "is_public_octets (a, b, c, d) \<longleftrightarrow>
    \<not> (a = 0 \<or> a = 10 \<or> a = 127 \<or> a \<ge> 224) \<and> \<not> (a = 100 \<and> b \<ge> 64 \<and> b \<le> 127) \<and>
    \<not> (a = 169 \<and> b = 254) \<and> \<not> (a = 172 \<and> b \<ge> 16 \<and> b \<le> 31) \<and> \<not> (a = 192 \<and> b = 168) \<and>
    \<not> (a = 192 \<and> b = 0 \<and> (c = 0 \<or> c = 2)) \<and> \<not> (a = 192 \<and> b = 88 \<and> c = 99) \<and>
    \<not> (a = 198 \<and> (b = 18 \<or> b = 19 \<or> b = 51 \<and> c = 100)) \<and> \<not> (a = 203 \<and> b = 0 \<and> c = 113)"
    by (simp only: is_public_octets_def prod.case if_bool_eq_conj) argo
  show ?thesis
    unfolding special_blocks_octets [OF assms] partial_blocks [OF assms(1,2)] e2 e3 pub by argo
qed

lemma public_ipv4_blocks_witness:
  "\<not> is_public_octets (169, 254, 169, 254) \<and> is_public_octets (93, 184, 216, 34)"
proof -
  have b: "((169, 254, 0, 0), 16) \<in> set special_blocks" "in_block (v4_number (169, 254, 169, 254)) ((169, 254, 0, 0), 16)"
    "\<forall>block \<in> set special_blocks. \<not> in_block (v4_number (93, 184, 216, 34)) block" by code_simp+
  from public_ipv4_blocks [of 169 254 169 254] public_ipv4_blocks [of 93 184 216 34] b
  show ?thesis by auto
qed

text \<open>The guard takes 6to4 addresses for public, also those that embed a private or link
  local IPv4 address, although it refuses Teredo and IPv4-mapped forms of them.\<close>

theorem sixtofour_is_public:
  "is_public_address ''2002:a9fe:a9fe::'' \<and> \<not> is_public_address ''169.254.169.254'' \<and>
   \<not> is_public_address ''::ffff:169.254.169.254''"
  by (intro conjI) code_simp+

end
