(* ===== verification/Environment.thy ===== *)
theory Environment
  imports Prelude
begin

text \<open>
  \<open>src/domain/policy/EnvironmentPolicy.ts\<close> and \<open>EnvironmentSanitizer.ts\<close>: which
  variables of the user's environment an agent process receives. An environment is an
  association list with distinct names; a value that is not a string at run time is
  \<open>None\<close>. The lemmas show that nothing but the allowed variables passes, unchanged,
  and that a provider credential reaches only the executables entitled to it.
\<close>

section \<open>The policy\<close>

definition provider_api_keys :: "string list" where
  "provider_api_keys =
     [''ANTHROPIC_API_KEY'', ''OPENAI_API_KEY'', ''GEMINI_API_KEY'', ''GOOGLE_API_KEY'', ''OPENROUTER_API_KEY'']"

definition safe_variable_names :: "string list" where
  "safe_variable_names =
     [''PATH'', ''SHELL'', ''TERM'', ''COLORTERM'', ''TERM_PROGRAM'', ''TERM_PROGRAM_VERSION'', ''COLUMNS'',
      ''LINES'', ''NO_COLOR'', ''FORCE_COLOR'', ''CLICOLOR'', ''CLICOLOR_FORCE'', ''LANG'', ''LANGUAGE'',
      ''LC_ALL'', ''LC_CTYPE'', ''LC_COLLATE'', ''LC_MESSAGES'', ''LC_MONETARY'', ''LC_NUMERIC'', ''LC_TIME'',
      ''LC_PAPER'', ''LC_NAME'', ''LC_ADDRESS'', ''LC_TELEPHONE'', ''LC_MEASUREMENT'', ''LC_IDENTIFICATION'',
      ''TZ'', ''CI'', ''OS'', ''PROCESSOR_ARCHITECTURE'', ''PROCESSOR_IDENTIFIER'', ''NUMBER_OF_PROCESSORS'']"

record env_policy =
  ep_provider_keys :: "string list"

definition env_policy_new :: "string list \<Rightarrow> env_policy" where
  "env_policy_new keys = \<lparr>ep_provider_keys = sort (remdups keys)\<rparr>"

definition env_strict :: "string list \<Rightarrow> env_policy res" where
  "env_strict keys =
     (if list_ex (\<lambda>k. k \<notin> set provider_api_keys) keys then Inl UnknownProviderKey
      else Inr (env_policy_new keys))"

definition executable_name :: "string \<Rightarrow> string" where
  "executable_name executable =
     (let basename = to_lower (last (split_on (CHR ''/'') (replace_char (CHR 0x5C) (CHR ''/'') executable)))
      in if list_ex (ends_with basename) [''.exe'', ''.cmd'', ''.bat'', ''.ps1'']
         then take (length basename - 4) basename else basename)"

definition env_for_executable :: "string \<Rightarrow> env_policy res" where
  "env_for_executable executable =
     (let name = executable_name executable
      in if name = ''claude'' \<or> name = ''claude-code'' then env_strict [''ANTHROPIC_API_KEY'']
         else if name = ''codex'' then env_strict [''OPENAI_API_KEY'']
         else if name = ''gemini'' then env_strict [''GEMINI_API_KEY'', ''GOOGLE_API_KEY'']
         else if name = ''opencode'' \<or> name = ''aider'' then env_strict provider_api_keys
         else env_strict [])"

definition env_allows :: "env_policy \<Rightarrow> string \<Rightarrow> bool" where
  "env_allows pol name =
     (let n = to_upper name
      in if starts_with n ''AGENTKEEPER_'' then False
         else if n \<in> set safe_variable_names then True
         else name = n \<and> name \<in> set (ep_provider_keys pol))"

section \<open>The sanitizer\<close>

type_synonym environment = "(string \<times> string option) list"

record sanitization =
  sn_environment :: "(string \<times> string) list"
  sn_removed :: "string list"
  sn_removed_count :: nat

text \<open>The loop over the sorted names.\<close>

fun sanitize_names ::
  "environment \<Rightarrow> env_policy \<Rightarrow> string list \<Rightarrow> (string \<times> string) list \<Rightarrow> string list \<Rightarrow>
     (string \<times> string) list \<times> string list" where
  "sanitize_names source pol [] env removed = (env, removed)"
| "sanitize_names source pol (name # names) env removed =
     (case map_of source name of
        Some (Some v) \<Rightarrow>
          if \<not> env_allows pol name then sanitize_names source pol names env (removed @ [name])
          else sanitize_names source pol names (env @ [(name, v)]) removed
      | _ \<Rightarrow> sanitize_names source pol names env (removed @ [name]))"

definition sanitize :: "environment \<Rightarrow> env_policy \<Rightarrow> sanitization" where
  "sanitize source pol =
     (let (env, removed) = sanitize_names source pol (sort (map fst source)) [] []
      in \<lparr>sn_environment = env, sn_removed = removed, sn_removed_count = length removed\<rparr>)"

section \<open>Lemmas\<close>

definition kept :: "environment \<Rightarrow> env_policy \<Rightarrow> string \<Rightarrow> bool" where
  "kept source pol name = (env_allows pol name \<and> (\<exists>v. map_of source name = Some (Some v)))"

lemma sanitize_names_eq:
  "sanitize_names source pol names env removed =
     (env @ map (\<lambda>n. (n, the (the (map_of source n)))) (filter (kept source pol) names),
      removed @ filter (\<lambda>n. \<not> kept source pol n) names)"
  by (induction names arbitrary: env removed) (auto simp: kept_def split: option.splits)

lemma sanitize_eq:
  "sn_environment (sanitize source pol) =
     map (\<lambda>n. (n, the (the (map_of source n)))) (filter (kept source pol) (sort (map fst source)))"
  "sn_removed (sanitize source pol) = filter (\<lambda>n. \<not> kept source pol n) (sort (map fst source))"
  "sn_removed_count (sanitize source pol) = length (sn_removed (sanitize source pol))"
  by (simp_all add: sanitize_def sanitize_names_eq)

lemma env_strict_ok: "set keys \<subseteq> set provider_api_keys \<Longrightarrow> env_strict keys = Inr (env_policy_new keys)"
  by (auto simp: env_strict_def list_ex_iff)

lemma env_for_executable_ok:
  "\<exists>keys. set keys \<subseteq> set provider_api_keys \<and> env_for_executable executable = Inr (env_policy_new keys)"
proof -
  define n where "n = executable_name executable"
  define ks where "ks = (if n = ''claude'' \<or> n = ''claude-code'' then [''ANTHROPIC_API_KEY'']
    else if n = ''codex'' then [''OPENAI_API_KEY'']
    else if n = ''gemini'' then [''GEMINI_API_KEY'', ''GOOGLE_API_KEY'']
    else if n = ''opencode'' \<or> n = ''aider'' then provider_api_keys else [])"
  have "env_for_executable executable = env_strict ks"
    by (simp add: env_for_executable_def ks_def n_def)
  moreover have "set ks \<subseteq> set provider_api_keys" by (auto simp: ks_def provider_api_keys_def)
  ultimately show ?thesis using env_strict_ok by auto
qed

lemma safe_not_provider: "set safe_variable_names \<inter> set provider_api_keys = {}"
  by (simp add: safe_variable_names_def provider_api_keys_def)

section \<open>Properties\<close>

text \<open>The sanitized environment holds exactly the allowed variables that have a string
  value, with that value; every other name is reported as removed, both in order; none
  of the launcher's own \<open>AGENTKEEPER_\<close> names passes in any case.\<close>

theorem sanitize_exact:
  assumes "distinct (map fst source)"
  shows "map_of (sn_environment (sanitize source pol)) name =
      (if env_allows pol name then (case map_of source name of Some v \<Rightarrow> v | None \<Rightarrow> None) else None) \<and>
    (name \<in> set (sn_removed (sanitize source pol)) \<longleftrightarrow>
      name \<in> fst ` set source \<and> name \<notin> fst ` set (sn_environment (sanitize source pol))) \<and>
    sorted (map fst (sn_environment (sanitize source pol))) \<and> sorted (sn_removed (sanitize source pol)) \<and>
    length (sn_environment (sanitize source pol)) + sn_removed_count (sanitize source pol) = length source \<and>
    (starts_with (to_upper name) ''AGENTKEEPER_'' \<longrightarrow> name \<notin> fst ` set (sn_environment (sanitize source pol)))"
proof -
  let ?names = "sort (map fst source)"
  have fst_env: "map fst (sn_environment (sanitize source pol)) = filter (kept source pol) ?names"
    by (simp add: sanitize_eq comp_def)
  have val: "map_of (map (\<lambda>n. (n, the (the (map_of source n)))) ns) name =
      (if name \<in> set ns then Some (the (the (map_of source name))) else None)" for ns
    by (induction ns) auto
  have dom: "name \<in> fst ` set source \<longleftrightarrow> map_of source name \<noteq> None"
    by (simp add: map_of_eq_None_iff)
  have mem: "name \<in> fst ` set (sn_environment (sanitize source pol)) \<longleftrightarrow> name \<in> fst ` set source \<and> kept source pol name"
    using arg_cong [OF fst_env, of set] by auto
  have "length (sn_environment (sanitize source pol)) + sn_removed_count (sanitize source pol) = length ?names"
    using sum_length_filter_compl [of "kept source pol" ?names] by (simp add: sanitize_eq)
  moreover have "map_of (sn_environment (sanitize source pol)) name =
      (if env_allows pol name then (case map_of source name of Some v \<Rightarrow> v | None \<Rightarrow> None) else None)"
    unfolding sanitize_eq val using dom by (auto simp: kept_def split: option.splits)
  moreover have "sorted (map fst (sn_environment (sanitize source pol)))" "sorted (sn_removed (sanitize source pol))"
    unfolding fst_env unfolding sanitize_eq
    using sorted_filter [of "\<lambda>x. x" ?names] by simp_all
  moreover have "starts_with (to_upper name) ''AGENTKEEPER_'' \<Longrightarrow> \<not> kept source pol name"
    by (simp add: kept_def env_allows_def)
  ultimately show ?thesis using mem by (auto simp: sanitize_eq(2))
qed

lemma sanitize_exact_witness:
  "map_of (sn_environment (sanitize [(''PATH'', Some ''/bin''), (''AWS_SECRET'', Some ''x'')] (env_policy_new [])))
     ''AWS_SECRET'' = None"
proof -
  have d: "distinct (map fst [(''PATH'', Some ''/bin''), (''AWS_SECRET'', Some ''x'')])" by simp
  have "\<not> env_allows (env_policy_new []) ''AWS_SECRET''" by code_simp
  with sanitize_exact [OF d, of "env_policy_new []" "''AWS_SECRET''"] show ?thesis by simp
qed

text \<open>C32: a provider credential, in whatever case it is spelled, reaches a process only under
  its canonical name and only when the executable is one that is entitled to it; an
  executable that is not known receives none.\<close>

theorem credential_entitlement:
  assumes "env_for_executable executable = Inr pol" "env_allows pol name" "to_upper name \<in> set provider_api_keys"
  shows "name = to_upper name \<and>
    (executable_name executable \<in> {''opencode'', ''aider''} \<or>
     executable_name executable \<in> {''claude'', ''claude-code''} \<and> name = ''ANTHROPIC_API_KEY'' \<or>
     executable_name executable = ''codex'' \<and> name = ''OPENAI_API_KEY'' \<or>
     executable_name executable = ''gemini'' \<and> name \<in> {''GEMINI_API_KEY'', ''GOOGLE_API_KEY''})"
proof -
  have "to_upper name \<notin> set safe_variable_names" using assms(3) safe_not_provider by blast
  then have n: "name = to_upper name" "name \<in> set (ep_provider_keys pol)"
    using assms(2) by (simp_all add: env_allows_def Let_def split: if_splits)
  have keys: "env_strict ks = Inr pol \<Longrightarrow> set (ep_provider_keys pol) = set ks" for ks
    by (auto simp: env_strict_def env_policy_new_def split: if_splits)
  show ?thesis
    using assms(1) n keys unfolding env_for_executable_def Let_def
    by (fastforce split: if_splits)
qed

lemma credential_entitlement_witness:
  "\<exists>pol. env_for_executable ''/usr/bin/Claude.EXE'' = Inr pol \<and> env_allows pol ''ANTHROPIC_API_KEY'' \<and>
     \<not> env_allows pol ''OPENAI_API_KEY''"
proof -
  have e: "env_for_executable ''/usr/bin/Claude.EXE'' = Inr \<lparr>ep_provider_keys = [''ANTHROPIC_API_KEY'']\<rparr>"
    and a: "env_allows \<lparr>ep_provider_keys = [''ANTHROPIC_API_KEY'']\<rparr> ''ANTHROPIC_API_KEY''"
    and k: "to_upper ''OPENAI_API_KEY'' \<in> set provider_api_keys"
    and x: "executable_name ''/usr/bin/Claude.EXE'' = ''claude''" by code_simp+
  have "\<not> env_allows \<lparr>ep_provider_keys = [''ANTHROPIC_API_KEY'']\<rparr> ''OPENAI_API_KEY''"
    using credential_entitlement [OF e _ k] x by auto
  with e a show ?thesis by blast
qed

end
