(* ===== verification/Notification.thy ===== *)
theory Notification
  imports Prelude
begin

text \<open>
  \<open>src/domain/notification/NotificationPolicy.ts\<close>: the limits of notifications and the
  budget that enforces them. A \<open>Map\<close> is an association list in insertion order; a time
  is a number of milliseconds. The lemmas show that the budget never exceeds its window
  limit nor remembers more than 512 keys, and that a key notifies again only after its
  cooldown or after 512 other notifications.
\<close>

section \<open>The policy\<close>

record notification_policy =
  np_max :: int
  np_window :: int
  np_cooldown :: int

text \<open>\<open>Number.isSafeInteger\<close> of an integer.\<close>

definition safe_integer :: "int \<Rightarrow> bool" where
  "safe_integer n = (\<bar>n\<bar> \<le> 9007199254740991)"

definition notification_policy_create :: "int \<Rightarrow> int \<Rightarrow> int \<Rightarrow> notification_policy res" where
  "notification_policy_create m w c =
     (if \<not> safe_integer m \<or> m < 1 \<or> w < 1 \<or> c < 1 then Inl BadLimits
      else Inr \<lparr>np_max = m, np_window = w, np_cooldown = c\<rparr>)"

definition standard_policy :: "notification_policy res" where
  "standard_policy = notification_policy_create 5 60000 (15 * 60000)"

section \<open>The budget\<close>

datatype suppression = Paused | Approved | Duplicate | RateLimit

record budget =
  nb_window_started :: "int option"
  nb_sent :: int
  nb_recent :: "(string \<times> int) list"

definition new_budget :: budget where
  "new_budget = \<lparr>nb_window_started = None, nb_sent = 0, nb_recent = []\<rparr>"

definition prune :: "notification_policy \<Rightarrow> int \<Rightarrow> (string \<times> int) list \<Rightarrow> (string \<times> int) list" where
  "prune pol now m = filter (\<lambda>(_, sent). \<not> now - sent \<ge> np_cooldown pol) m"

fun enforce_recent_bound :: "(string \<times> int) list \<Rightarrow> (string \<times> int) list" where
  "enforce_recent_bound [] = []"
| "enforce_recent_bound (x # m) = (if length (x # m) > 512 then enforce_recent_bound m else x # m)"

definition claim :: "notification_policy \<Rightarrow> budget \<Rightarrow> string \<Rightarrow> int \<Rightarrow> suppression option \<times> budget" where
  "claim pol b key at =
     (let recent = prune pol at (nb_recent b); b1 = b\<lparr>nb_recent := recent\<rparr>
      in if (case map_of recent key of None \<Rightarrow> False | Some previous \<Rightarrow> at - previous < np_cooldown pol)
         then (Some Duplicate, b1)
         else let b2 = (case nb_window_started b1 of
                          None \<Rightarrow> b1\<lparr>nb_window_started := Some at, nb_sent := 0\<rparr>
                        | Some w \<Rightarrow> if at - w \<ge> np_window pol
                                   then b1\<lparr>nb_window_started := Some at, nb_sent := 0\<rparr> else b1)
              in if nb_sent b2 \<ge> np_max pol then (Some RateLimit, b2)
                 else (None, b2\<lparr>nb_sent := nb_sent b2 + 1,
                               nb_recent := enforce_recent_bound (map_set key at recent)\<rparr>))"

definition suppress_notification ::
  "notification_policy \<Rightarrow> bool \<Rightarrow> bool \<Rightarrow> budget \<Rightarrow> string \<Rightarrow> int \<Rightarrow> suppression option \<times> budget" where
  "suppress_notification pol paused approved_high b key at =
     (if paused then (Some Paused, b)
      else if approved_high then (Some Approved, b)
      else claim pol b key at)"

text \<open>A stream of findings at their times; the answers in order.\<close>

fun run_claims :: "notification_policy \<Rightarrow> budget \<Rightarrow> (string \<times> int) list \<Rightarrow> suppression option list \<times> budget" where
  "run_claims pol b [] = ([], b)"
| "run_claims pol b ((k, t) # cs) =
     (let (r, b') = claim pol b k t; (rs, b'') = run_claims pol b' cs in (r # rs, b''))"

section \<open>Lemmas\<close>

lemma enforce_recent_bound_drop: "enforce_recent_bound m = drop (length m - 512) m"
proof (induction m)
  case (Cons x m)
  show ?case
  proof (cases "length m \<ge> 512")
    case True
    then have "length (x # m) - 512 = Suc (length m - 512)" by simp
    with Cons True show ?thesis by simp
  qed simp
qed simp

lemma claim_fresh:
  assumes "claim pol b key at = (None, b')"
  shows "key \<notin> fst ` set (prune pol at (nb_recent b))"
    and "nb_recent b' = drop (length (prune pol at (nb_recent b)) - 511) (prune pol at (nb_recent b) @ [(key, at)])"
proof -
  let ?r = "prune pol at (nb_recent b)"
  show fresh: "key \<notin> fst ` set ?r"
  proof
    assume "key \<in> fst ` set ?r"
    then obtain s where s: "map_of ?r key = Some s" by (metis map_of_eq_None_iff option.exhaust)
    then have "at - s < np_cooldown pol" using map_of_SomeD [OF s] by (auto simp: prune_def)
    with s assms show False by (simp add: claim_def Let_def)
  qed
  have "nb_recent b' = enforce_recent_bound (map_set key at ?r)"
    using assms by (auto simp: claim_def Let_def split: if_splits option.splits)
  with map_set_fresh [OF fresh] show "nb_recent b' = drop (length ?r - 511) (?r @ [(key, at)])"
    by (simp add: enforce_recent_bound_drop del: drop_append)
qed

lemma claim_refused:
  assumes "claim pol b key at = (Some r, b')"
  shows "nb_recent b' = prune pol at (nb_recent b)"
  using assms by (auto simp: claim_def Let_def split: if_splits option.splits)

definition budget_ok :: "notification_policy \<Rightarrow> budget \<Rightarrow> bool" where
  "budget_ok pol b =
     (0 \<le> nb_sent b \<and> nb_sent b \<le> np_max pol \<and> length (nb_recent b) \<le> 512 \<and> distinct (map fst (nb_recent b)))"

lemma distinct_filter_keys: "distinct (map fst m) \<Longrightarrow> distinct (map fst (filter P m))"
  by (induction m) auto

lemma claim_ok:
  assumes "budget_ok pol b" "0 < np_max pol" "claim pol b key at = (r, b')"
  shows "budget_ok pol b'"
proof -
  let ?p = "prune pol at (nb_recent b)"
  have p: "length ?p \<le> 512" "distinct (map fst ?p)"
    using assms(1) le_trans [OF length_filter_le] by (auto simp: budget_ok_def prune_def distinct_filter_keys)
  have sent: "0 \<le> nb_sent b' \<and> nb_sent b' \<le> np_max pol"
    using assms by (auto simp: claim_def budget_ok_def Let_def split: if_splits option.splits)
  show ?thesis
  proof (cases r)
    case None
    note f = claim_fresh [OF assms(3) [unfolded None]]
    have "distinct (map fst (?p @ [(key, at)]))" using f(1) p(2) by simp
    then have "distinct (map fst (nb_recent b'))" unfolding f(2) drop_map [symmetric] by (rule distinct_drop)
    moreover have "length (nb_recent b') \<le> 512" unfolding f(2) using p(1) by (simp del: drop_append)
    ultimately show ?thesis using sent by (simp add: budget_ok_def)
  next
    case (Some s)
    from claim_refused [OF assms(3) [unfolded Some]] p sent show ?thesis by (simp add: budget_ok_def)
  qed
qed

text \<open>
  A key sent at time \<open>s\<close>, while \<open>n\<close> later notifications were sent: it is still
  remembered, behind at most \<open>n\<close> newer entries, until 512 of them pushed it out.
\<close>

definition remembered :: "string \<Rightarrow> int \<Rightarrow> nat \<Rightarrow> budget \<Rightarrow> bool" where
  "remembered k s n b =
     (\<exists>older newer. nb_recent b = older @ (k, s) # newer \<and> length newer \<le> n \<and> k \<notin> fst ` set older \<union> fst ` set newer)"

lemma remembered_prune:
  assumes "remembered k s n b" "t - s < np_cooldown pol"
  shows "\<exists>older newer. prune pol t (nb_recent b) = older @ (k, s) # newer \<and> length newer \<le> n \<and>
    k \<notin> fst ` set older \<union> fst ` set newer"
proof -
  obtain older newer where r: "nb_recent b = older @ (k, s) # newer" "length newer \<le> n"
    "k \<notin> fst ` set older \<union> fst ` set newer" using assms(1) by (auto simp: remembered_def)
  have "prune pol t (nb_recent b) = prune pol t older @ (k, s) # prune pol t newer"
    using assms(2) by (simp add: r(1) prune_def)
  moreover have "length (prune pol t newer) \<le> n"
    unfolding prune_def using length_filter_le r(2) by (rule le_trans)
  moreover have "k \<notin> fst ` set (prune pol t older) \<union> fst ` set (prune pol t newer)"
    using r(3) by (auto simp: prune_def)
  ultimately show ?thesis by blast
qed

lemma remembered_step:
  assumes "remembered k s n b" "t - s < np_cooldown pol" "claim pol b k' t = (r, b')"
  shows "r = Some Duplicate \<or> k' \<noteq> k"
    and "r \<noteq> None \<Longrightarrow> remembered k s n b'"
    and "r = None \<Longrightarrow> n < 511 \<Longrightarrow> remembered k s (Suc n) b'"
proof -
  let ?p = "prune pol t (nb_recent b)"
  obtain older newer where p: "?p = older @ (k, s) # newer" "length newer \<le> n"
    "k \<notin> fst ` set older \<union> fst ` set newer" using remembered_prune [OF assms(1,2)] by blast
  have "map_of older k = None" using p(3) by (simp add: map_of_eq_None_iff)
  then have "k' = k \<Longrightarrow> map_of ?p k' = Some s" by (simp add: p(1) map_add_def)
  then show dup: "r = Some Duplicate \<or> k' \<noteq> k" using assms(2,3) by (auto simp: claim_def Let_def)
  show "r \<noteq> None \<Longrightarrow> remembered k s n b'"
    using claim_refused assms(3) p by (fastforce simp: remembered_def)
  assume none: "r = None" and n: "n < 511"
  note f = claim_fresh(2) [OF assms(3) [unfolded none]]
  have "length ?p - 511 \<le> length older" using p(2) n by (simp add: p(1))
  then have "nb_recent b' = drop (length ?p - 511) older @ (k, s) # newer @ [(k', t)]"
    unfolding f by (simp add: p(1))
  moreover have "k \<notin> fst ` set (drop (length ?p - 511) older)"
    using p(3) set_drop_subset [of "length ?p - 511" older] by blast
  moreover have "k' \<noteq> k" using dup none by simp
  ultimately show "remembered k s (Suc n) b'"
    unfolding remembered_def using p(2,3)
    by (intro exI [of _ "drop (length ?p - 511) older"] exI [of _ "newer @ [(k', t)]"]) auto
qed

definition sent_count :: "suppression option list \<Rightarrow> nat" where
  "sent_count rs = length (filter (\<lambda>r. r = None) rs)"

lemma run_claims_Cons:
  "claim pol b k t = (r, b') \<Longrightarrow> run_claims pol b' cs = (rs, b'') \<Longrightarrow>
     run_claims pol b ((k, t) # cs) = (r # rs, b'')"
  by simp

lemma run_claims_length: "length (fst (run_claims pol b cs)) = length cs"
  by (induction pol b cs rule: run_claims.induct) (auto simp: Let_def split: prod.splits)

lemma remembered_run:
  assumes "remembered k s n b" "run_claims pol b cs = (rs, b')"
    and "\<forall>c \<in> set cs. snd c - s < np_cooldown pol" "n + sent_count rs < 512"
  shows "\<forall>i < length cs. fst (cs ! i) = k \<longrightarrow> rs ! i = Some Duplicate"
  using assms
proof (induction cs arbitrary: n b rs)
  case (Cons c cs)
  obtain k' t where c: "c = (k', t)" by (cases c)
  obtain r b1 where r: "claim pol b k' t = (r, b1)" by (cases "claim pol b k' t")
  obtain rs' where rs: "run_claims pol b1 cs = (rs', b')" "rs = r # rs'"
    using Cons.prems(2) r by (auto simp: c Let_def split: prod.splits)
  have t: "t - s < np_cooldown pol" using Cons.prems(3) c by simp
  note step = remembered_step [OF Cons.prems(1) t r]
  have tail: "\<forall>i < length cs. fst (cs ! i) = k \<longrightarrow> rs' ! i = Some Duplicate"
  proof (cases "r = None")
    case True
    then have m: "Suc n + sent_count rs' < 512" using Cons.prems(4) by (simp add: rs(2) sent_count_def)
    then have "remembered k s (Suc n) b1" using step(3) [OF True] by simp
    then show ?thesis by (rule Cons.IH [OF _ rs(1) _ m]) (use Cons.prems(3) in simp)
  next
    case False
    have m: "n + sent_count rs' < 512" using Cons.prems(4) False by (auto simp: rs(2) sent_count_def)
    show ?thesis by (rule Cons.IH [OF step(2) [OF False] rs(1) _ m]) (use Cons.prems(3) in simp)
  qed
  show ?case
  proof (intro allI impI)
    fix i assume i: "i < length (c # cs)" "fst ((c # cs) ! i) = k"
    show "rs ! i = Some Duplicate"
    proof (cases i)
      case 0
      with i(2) c step(1) rs(2) show ?thesis by auto
    next
      case (Suc j)
      with i tail rs(2) show ?thesis by simp
    qed
  qed
qed simp

lemma run_claims_ok:
  "budget_ok pol b \<Longrightarrow> 0 < np_max pol \<Longrightarrow> budget_ok pol (snd (run_claims pol b cs))"
proof (induction cs arbitrary: b)
  case (Cons c cs)
  obtain r b1 where r: "claim pol b (fst c) (snd c) = (r, b1)" by (cases "claim pol b (fst c) (snd c)")
  have "run_claims pol b (c # cs) = (r # fst (run_claims pol b1 cs), snd (run_claims pol b1 cs))"
    using r by (cases c) (simp add: Let_def split: prod.splits)
  with Cons.IH [OF claim_ok [OF Cons.prems r] Cons.prems(2)] show ?case by simp
qed simp

section \<open>Properties\<close>

text \<open>Over any stream of findings, the number sent in the current window never exceeds
  the limit, and at most 512 keys are remembered, each once.\<close>

theorem budget_bounds:
  assumes "0 < np_max pol"
  shows "let (rs, b) = run_claims pol new_budget cs
    in 0 \<le> nb_sent b \<and> nb_sent b \<le> np_max pol \<and> length (nb_recent b) \<le> 512 \<and> distinct (map fst (nb_recent b))"
proof -
  have "budget_ok pol new_budget" using assms by (simp add: budget_ok_def new_budget_def)
  from run_claims_ok [OF this assms, of cs] show ?thesis by (auto simp: budget_ok_def split: prod.splits)
qed

definition sample_limits :: notification_policy where
  "sample_limits = \<lparr>np_max = 1, np_window = 10, np_cooldown = 50\<rparr>"

lemma budget_bounds_witness:
  "snd (run_claims sample_limits new_budget [(''a'', 0), (''b'', 5), (''a'', 12)]) =
     \<lparr>nb_window_started = Some 0, nb_sent = 1, nb_recent = [(''a'', 0)]\<rparr> \<and>
   nb_sent (snd (run_claims sample_limits new_budget [(''a'', 0), (''b'', 5), (''a'', 12)])) \<le> 1"
proof -
  have "0 < np_max sample_limits" by (simp add: sample_limits_def)
  from budget_bounds [OF this, of "[(''a'', 0), (''b'', 5), (''a'', 12)]"]
  have "nb_sent (snd (run_claims sample_limits new_budget [(''a'', 0), (''b'', 5), (''a'', 12)])) \<le> np_max sample_limits"
    by (auto split: prod.splits)
  moreover have "snd (run_claims sample_limits new_budget [(''a'', 0), (''b'', 5), (''a'', 12)]) =
     \<lparr>nb_window_started = Some 0, nb_sent = 1, nb_recent = [(''a'', 0)]\<rparr>" by code_simp
  ultimately show ?thesis by (simp add: sample_limits_def)
qed

text \<open>A finding that was sent is not sent again within its cooldown: every repetition
  before the cooldown is over is answered \<open>duplicate\<close>, whatever other findings come
  between, as long as fewer than 512 others are sent and no key has to be forgotten.\<close>

theorem repeat_waits_for_cooldown:
  assumes "claim pol b k s = (None, b1)" "run_claims pol b1 cs = (rs, b2)"
    and "\<forall>c \<in> set cs. snd c - s < np_cooldown pol" "sent_count rs < 512"
  shows "\<forall>i < length cs. fst (cs ! i) = k \<longrightarrow> rs ! i = Some Duplicate"
proof -
  let ?p = "prune pol s (nb_recent b)"
  note f = claim_fresh [OF assms(1)]
  have "nb_recent b1 = drop (length ?p - 511) ?p @ (k, s) # []" using f(2) by simp
  moreover have "k \<notin> fst ` set (drop (length ?p - 511) ?p)"
    using f(1) set_drop_subset [of "length ?p - 511" ?p] by blast
  ultimately have "remembered k s 0 b1"
    unfolding remembered_def by (intro exI [of _ "drop (length ?p - 511) ?p"] exI [of _ "[]"]) auto
  from remembered_run [OF this assms(2,3)] assms(4) show ?thesis by simp
qed

lemma repeat_waits_for_cooldown_witness:
  "fst (run_claims sample_limits (snd (claim sample_limits new_budget ''a'' 0)) [(''b'', 5), (''a'', 12)]) ! 1 = Some Duplicate"
proof -
  have c: "claim sample_limits new_budget ''a'' 0 = (None, \<lparr>nb_window_started = Some 0, nb_sent = 1, nb_recent = [(''a'', 0)]\<rparr>)"
    and r: "run_claims sample_limits \<lparr>nb_window_started = Some 0, nb_sent = 1, nb_recent = [(''a'', 0)]\<rparr>
      [(''b'', 5), (''a'', 12)] = ([Some RateLimit, Some Duplicate], \<lparr>nb_window_started = Some 0, nb_sent = 1, nb_recent = [(''a'', 0)]\<rparr>)"
    by code_simp+
  have "\<forall>c \<in> set [(''b'', 5), (''a'', 12)]. snd c - 0 < np_cooldown sample_limits" by (simp add: sample_limits_def)
  from repeat_waits_for_cooldown [OF c r this]
  have "[Some RateLimit, Some Duplicate] ! 1 = Some Duplicate" by (force simp: sent_count_def)
  then show ?thesis unfolding c snd_conv r fst_conv .
qed

end
