(* ===== verification/Protection.thy ===== *)
theory Protection
  imports Policy
begin

text \<open>
  \<open>src/domain/protection/ProtectionStatus.ts\<close> and
  \<open>src/application/use-cases/AssessProtection.ts\<close>: the status a user is shown and how it
  is derived from the canaries and the known limits of a backend. The probes and the
  runner are ports and so parameters; a promise that rejects is the failure of a port. The
  lemmas show that an assessment throws exactly when a port that it consults does, since nothing
  catches the failure, and that it reports \<open>PROTECTED\<close> exactly when every part of the boundary
  was verified.
\<close>

section \<open>ProtectionStatus\<close>

datatype protection_level = PROTECTED | DEGRADED | UNPROTECTED | BYPASSED

datatype mechanism = Seatbelt | Bubblewrap | AppContainer | NoMechanism

datatype canary_state = CanaryPassed | CanaryFailed | CanaryNotRun

datatype enforcement_state = Enforced | Partial | Unverified | NoEnforcement

datatype network_protection = NetDenied | NetBrokered | NetPortOnly | NetUnrestricted | NetNone

record capabilities =
  cp_mechanism :: mechanism
  cp_deny_canary :: canary_state
  cp_filesystem :: enforcement_state
  cp_process_tree :: enforcement_state
  cp_network :: network_protection

datatype protection_area = AreaOperator | AreaPlatform | AreaSandbox | AreaFilesystem | AreaProcess | AreaNetwork | AreaPolicy

record protection_reason =
  rn_code :: string
  rn_area :: protection_area
  rn_message :: string

record protection_status =
  st_level :: protection_level
  st_capabilities :: capabilities
  st_reasons :: "protection_reason list"

definition is_complete :: "capabilities \<Rightarrow> protection_reason list \<Rightarrow> bool" where
  "is_complete c reasons =
     (cp_mechanism c \<noteq> NoMechanism \<and> cp_deny_canary c = CanaryPassed \<and> cp_filesystem c = Enforced \<and>
      cp_process_tree c = Enforced \<and> (cp_network c = NetDenied \<or> cp_network c = NetBrokered) \<and>
      length reasons = 0)"

definition status_create ::
  "protection_level \<Rightarrow> capabilities \<Rightarrow> protection_reason list \<Rightarrow> protection_status res" where
  "status_create level c reasons =
     (if level = PROTECTED \<and> \<not> is_complete c reasons then Inl FalseProtected
      else Inr \<lparr>st_level = level, st_capabilities = c, st_reasons = reasons\<rparr>)"

definition is_protected :: "protection_status \<Rightarrow> bool" where
  "is_protected s = (st_level s = PROTECTED)"

section \<open>Ports\<close>

datatype sandbox_probe_code =
    ProbePassed
  | DenyCanaryReadable
  | ChildDenyCanaryReadable
  | WorkspaceUnreadable
  | ChildProbeFailed
  | RunnerFailed
  | CanaryTimedOut
  | UnexpectedExit

record sandbox_probe_result =
  sp_passed :: bool
  sp_code :: sandbox_probe_code
  sp_child_denied :: bool
  sp_detail :: "string option"

datatype network_probe_code =
    NetPassed
  | BrokerUnavailable
  | AllowedDestinationRefused
  | RelayFailed
  | ArbitraryDestinationAllowed
  | MetadataDestinationAllowed

record network_probe_result =
  np_passed :: bool
  np_code :: network_probe_code
  np_enforcement :: "broker_transport option"

record sandbox_runner =
  sr_mechanism :: mechanism
  sr_unenforceable :: "sandbox_policy \<Rightarrow> path_context \<Rightarrow> string list res"

record assess_request =
  aq_platform :: platform
  aq_runner :: "sandbox_runner option"
  aq_policy :: sandbox_policy
  aq_context :: path_context
  aq_bypassed :: bool
  aq_broker_verified :: "bool option"

record probes =
  pb_sandbox :: "sandbox_runner \<Rightarrow> platform \<Rightarrow> sandbox_probe_result res"
  pb_network :: "(network_rule list \<Rightarrow> platform \<Rightarrow> network_probe_result res) option"

section \<open>AssessProtection\<close>

definition inactive_capabilities :: capabilities where
  "inactive_capabilities =
     \<lparr>cp_mechanism = NoMechanism, cp_deny_canary = CanaryNotRun, cp_filesystem = NoEnforcement,
      cp_process_tree = NoEnforcement, cp_network = NetNone\<rparr>"

definition reason :: "string \<Rightarrow> protection_area \<Rightarrow> string \<Rightarrow> protection_reason" where
  "reason code area message = \<lparr>rn_code = code, rn_area = area, rn_message = message\<rparr>"

definition unprotected :: "string \<Rightarrow> protection_area \<Rightarrow> string \<Rightarrow> protection_status res" where
  "unprotected code area message = status_create UNPROTECTED inactive_capabilities [reason code area message]"

definition mechanism_name :: "mechanism \<Rightarrow> string" where
  "mechanism_name m =
     (case m of Seatbelt \<Rightarrow> ''seatbelt'' | Bubblewrap \<Rightarrow> ''bubblewrap'' | AppContainer \<Rightarrow> ''appcontainer''
      | NoMechanism \<Rightarrow> ''none'')"

definition mechanism_matches_platform :: "mechanism \<Rightarrow> platform \<Rightarrow> bool" where
  "mechanism_matches_platform m p =
     (m = Seatbelt \<and> p = Darwin \<or> m = Bubblewrap \<and> p = Linux \<or> m = AppContainer \<and> p = Win32)"

definition probe_code_name :: "sandbox_probe_code \<Rightarrow> string" where
  "probe_code_name c =
     (case c of
        ProbePassed \<Rightarrow> ''passed''
      | DenyCanaryReadable \<Rightarrow> ''deny-canary-readable''
      | ChildDenyCanaryReadable \<Rightarrow> ''child-deny-canary-readable''
      | WorkspaceUnreadable \<Rightarrow> ''workspace-unreadable''
      | ChildProbeFailed \<Rightarrow> ''child-probe-failed''
      | RunnerFailed \<Rightarrow> ''runner-failed''
      | CanaryTimedOut \<Rightarrow> ''canary-timed-out''
      | UnexpectedExit \<Rightarrow> ''unexpected-exit'')"

definition probe_message :: "sandbox_probe_code \<Rightarrow> string" where
  "probe_message c =
     (case c of
        ProbePassed \<Rightarrow> ''The sandbox probe reported failure with a passing result code.''
      | DenyCanaryReadable \<Rightarrow> ''The sandboxed process could read the outside deny canary.''
      | ChildDenyCanaryReadable \<Rightarrow> ''A sandboxed child process could read the outside deny canary.''
      | WorkspaceUnreadable \<Rightarrow> ''The sandbox denied the workspace allow canary, so the boundary is unusable.''
      | ChildProbeFailed \<Rightarrow> ''The child-process deny canary did not complete successfully.''
      | RunnerFailed \<Rightarrow> ''The sandbox runner could not start the canary process.''
      | CanaryTimedOut \<Rightarrow> ''The sandbox canary did not finish in time, so the boundary could not be verified.''
      | UnexpectedExit \<Rightarrow> ''The sandbox canary returned an unrecognised result.'')"

definition probe_failure_reason :: "sandbox_probe_result \<Rightarrow> protection_reason" where
  "probe_failure_reason p =
     (if sp_code p = ProbePassed
      then reason ''sandbox.probe-inconsistent'' AreaSandbox (probe_message ProbePassed)
      else reason (''sandbox.'' @ probe_code_name (sp_code p)) AreaSandbox
             (probe_message (sp_code p) @
              (case sp_detail p of None \<Rightarrow> [] | Some d \<Rightarrow> '' ('' @ d @ '')'')))"

definition network_code_name :: "network_probe_code \<Rightarrow> string" where
  "network_code_name c =
     (case c of
        NetPassed \<Rightarrow> ''passed''
      | BrokerUnavailable \<Rightarrow> ''broker-unavailable''
      | AllowedDestinationRefused \<Rightarrow> ''allowed-destination-refused''
      | RelayFailed \<Rightarrow> ''relay-failed''
      | ArbitraryDestinationAllowed \<Rightarrow> ''arbitrary-destination-allowed''
      | MetadataDestinationAllowed \<Rightarrow> ''metadata-destination-allowed'')"

definition network_probe_message :: "network_probe_code \<Rightarrow> string" where
  "network_probe_message c =
     (case c of
        NetPassed \<Rightarrow> ''The destination broker canary passed.''
      | BrokerUnavailable \<Rightarrow>
          ''The destination broker refused to start for the requested destinations, so egress stays closed.''
      | AllowedDestinationRefused \<Rightarrow>
          ''The destination broker refused an approved destination, so protected runs would lose network access.''
      | RelayFailed \<Rightarrow>
          ''An approved tunnel was established but did not carry traffic, so the broker transport is unusable.''
      | ArbitraryDestinationAllowed \<Rightarrow>
          ''The destination broker accepted a destination outside the allowlist; egress is not confined.''
      | MetadataDestinationAllowed \<Rightarrow>
          ''The destination broker accepted the cloud metadata endpoint; egress is not confined.'')"

definition broker_required :: protection_reason where
  "broker_required = reason ''network.broker-required'' AreaNetwork
     ''Requested egress stays denied and protected runs fail closed until a verified destination broker is available.''"

record broker_verification =
  bv_verified :: bool
  bv_enforcement :: "broker_transport option"
  bv_reason :: "protection_reason option"

definition verify_broker :: "probes \<Rightarrow> assess_request \<Rightarrow> bool \<Rightarrow> broker_verification res" where
  "verify_broker ps rq egress =
     (case aq_broker_verified rq of
        Some v \<Rightarrow> Inr \<lparr>bv_verified = v, bv_enforcement = None, bv_reason = None\<rparr>
      | None \<Rightarrow>
          (case pb_network ps of
             None \<Rightarrow> Inr \<lparr>bv_verified = False, bv_enforcement = None, bv_reason = None\<rparr>
           | Some probe \<Rightarrow>
               if \<not> egress then Inr \<lparr>bv_verified = False, bv_enforcement = None, bv_reason = None\<rparr>
               else rmap (\<lambda>r. if np_passed r
                       then \<lparr>bv_verified = True, bv_enforcement = np_enforcement r, bv_reason = None\<rparr>
                       else \<lparr>bv_verified = False, bv_enforcement = None,
                             bv_reason = Some (reason (''network.'' @ network_code_name (np_code r)) AreaNetwork
                               (network_probe_message (np_code r)))\<rparr>)
                      (probe (po_network (aq_policy rq)) (aq_platform rq))))"

definition mentions_filesystem :: "string \<Rightarrow> bool" where
  "mentions_filesystem message =
     list_ex (contains_str (to_lower message)) [''mount'', ''wildcard'', ''file'', ''path'']"

text \<open>The policy in the shape a protected run would carry.\<close>

definition judged_policy :: "sha \<Rightarrow> broker_verification \<Rightarrow> assess_request \<Rightarrow> sandbox_policy" where
  "judged_policy h bv rq =
     (case bv_enforcement bv of
        None \<Rightarrow> aq_policy rq
      | Some t \<Rightarrow> with_network_enforcement h (aq_policy rq) (Brokered t))"

definition backend_reasons :: "mechanism \<Rightarrow> protection_reason list" where
  "backend_reasons m =
     (if m = Seatbelt
      then [reason ''seatbelt.broad-system-read'' AreaFilesystem
              ''The current Seatbelt profile permits broad reads outside user home directories.'']
      else if m = AppContainer
      then [reason ''appcontainer.compatibility-surface'' AreaFilesystem
              ''Stable AppContainer confines user resources but retains a documented common-system compatibility surface.'']
      else [])"

definition network_reasons :: "mechanism \<Rightarrow> bool \<Rightarrow> broker_verification \<Rightarrow> protection_reason list" where
  "network_reasons m egress bv =
     (if \<not> egress then []
      else if m = AppContainer
      then [reason ''network.appcontainer-deny-only'' AreaNetwork
              ''AppContainer starts with zero network capabilities; requested egress stays denied until a destination broker is available.'']
      else if bv_verified bv then []
      else [case bv_reason bv of None \<Rightarrow> broker_required | Some r \<Rightarrow> r])"

text \<open>What follows a passed canary.\<close>

definition assess_verified ::
  "sha \<Rightarrow> probes \<Rightarrow> assess_request \<Rightarrow> sandbox_runner \<Rightarrow> sandbox_probe_result \<Rightarrow> protection_status res" where
  "assess_verified h ps rq runner probe =
     (let m = sr_mechanism runner;
          egress = (length (po_network (aq_policy rq)) > 0)
      in rbind (verify_broker ps rq egress) (\<lambda>bv.
         rbind (sr_unenforceable runner (judged_policy h bv rq) (aq_context rq)) (\<lambda>gaps.
         let fs = (if m = Seatbelt \<or> m = AppContainer then Partial
                   else if filter mentions_filesystem gaps = [] then Enforced else Partial);
             net = (if egress \<and> m \<noteq> AppContainer \<and> bv_verified bv then NetBrokered else NetDenied);
             caps = \<lparr>cp_mechanism = m, cp_deny_canary = CanaryPassed, cp_filesystem = fs,
                     cp_process_tree = (if sp_child_denied probe then Enforced else Unverified),
                     cp_network = net\<rparr>;
             reasons = map (reason ''policy.unenforceable'' AreaPolicy) gaps @ backend_reasons m @
               network_reasons m egress bv @
               (if cp_process_tree caps \<noteq> Enforced
                then [reason ''process.child-boundary-unverified'' AreaProcess
                        ''The deny canary was not verified in a child process.'']
                else [])
         in status_create (if length reasons = 0 then PROTECTED else DEGRADED) caps reasons)))"

definition assess_protection :: "sha \<Rightarrow> probes \<Rightarrow> assess_request \<Rightarrow> protection_status res" where
  "assess_protection h ps rq =
     (if aq_bypassed rq then
        status_create BYPASSED inactive_capabilities
          [reason ''operator.bypassed'' AreaOperator ''Sandbox protection was explicitly bypassed.'']
      else if ctx_platform (aq_context rq) \<noteq> aq_platform rq then
        unprotected ''platform.context-mismatch'' AreaPlatform
          ''The policy context platform does not match the platform being assessed.''
      else case aq_runner rq of
        None \<Rightarrow>
          if aq_platform rq = Win32
          then unprotected ''platform.windows-runner-unavailable'' AreaPlatform
            ''No Windows sandbox backend is shipped: the AppContainer backend never completed its own deny canary, and an unproven boundary is not a boundary.''
          else unprotected ''sandbox.runner-missing'' AreaPlatform
            ''No sandbox runner is available; no isolation boundary is active.''
      | Some runner \<Rightarrow>
          let m = sr_mechanism runner
          in if m = NoMechanism then
               unprotected ''sandbox.mechanism-none'' AreaSandbox
                 ''The selected runner executes commands without an isolation mechanism.''
             else if \<not> mechanism_matches_platform m (aq_platform rq) then
               unprotected ''platform.runner-mismatch'' AreaPlatform
                 (''The '' @ mechanism_name m @ '' runner cannot provide a boundary on '' @
                  platform_name (aq_platform rq) @ ''.'')
             else rbind (pb_sandbox ps runner (aq_platform rq)) (\<lambda>probe.
                  if \<not> sp_passed probe then
                    status_create UNPROTECTED
                      \<lparr>cp_mechanism = m, cp_deny_canary = CanaryFailed, cp_filesystem = NoEnforcement,
                       cp_process_tree = NoEnforcement, cp_network = NetNone\<rparr>
                      [probe_failure_reason probe]
                  else assess_verified h ps rq runner probe))"

section \<open>Lemmas\<close>

lemma status_create_other: "level \<noteq> PROTECTED \<Longrightarrow>
    status_create level c rs = Inr \<lparr>st_level = level, st_capabilities = c, st_reasons = rs\<rparr>"
  by (simp add: status_create_def)

lemma unprotected_ok: "\<exists>st. unprotected a b c = Inr st \<and> st_level st = UNPROTECTED"
  by (simp add: unprotected_def status_create_other)

lemma backend_reasons_none: "m \<noteq> NoMechanism \<Longrightarrow> backend_reasons m = [] \<longleftrightarrow> m = Bubblewrap"
  by (cases m) (simp_all add: backend_reasons_def)

text \<open>The conditions under which the verified part reports \<open>PROTECTED\<close>.\<close>

definition boundary_complete ::
  "sha \<Rightarrow> probes \<Rightarrow> assess_request \<Rightarrow> sandbox_runner \<Rightarrow> sandbox_probe_result \<Rightarrow> bool" where
  "boundary_complete h ps rq runner probe =
     (let egress = (po_network (aq_policy rq) \<noteq> [])
      in sp_child_denied probe \<and>
         (\<exists>bv. verify_broker ps rq egress = Inr bv \<and> (egress \<longrightarrow> bv_verified bv) \<and>
            sr_unenforceable runner (judged_policy h bv rq) (aq_context rq) = Inr []))"

text \<open>The ports that are consulted once the canary passed, and the failure of one of them.\<close>

definition later_port_throws :: "sha \<Rightarrow> probes \<Rightarrow> assess_request \<Rightarrow> sandbox_runner \<Rightarrow> error \<Rightarrow> bool" where
  "later_port_throws h ps rq runner e =
     (let egress = (po_network (aq_policy rq) \<noteq> [])
      in aq_broker_verified rq = None \<and> egress \<and>
           (\<exists>probe. pb_network ps = Some probe \<and> probe (po_network (aq_policy rq)) (aq_platform rq) = Inl e) \<or>
         (\<exists>bv. verify_broker ps rq egress = Inr bv \<and>
            sr_unenforceable runner (judged_policy h bv rq) (aq_context rq) = Inl e))"

definition port_throws :: "sha \<Rightarrow> probes \<Rightarrow> assess_request \<Rightarrow> error \<Rightarrow> bool" where
  "port_throws h ps rq e =
     (\<not> aq_bypassed rq \<and> ctx_platform (aq_context rq) = aq_platform rq \<and>
      (case aq_runner rq of None \<Rightarrow> False
       | Some runner \<Rightarrow> mechanism_matches_platform (sr_mechanism runner) (aq_platform rq) \<and>
           (case pb_sandbox ps runner (aq_platform rq) of
              Inl e' \<Rightarrow> e = e'
            | Inr probe \<Rightarrow> sp_passed probe \<and> later_port_throws h ps rq runner e)))"

lemma rmap_Inl_iff: "rmap f r = Inl e \<longleftrightarrow> r = Inl e"
  by (cases r) simp_all

lemma verify_broker_throws:
  "verify_broker ps rq egress = Inl e \<longleftrightarrow> aq_broker_verified rq = None \<and> egress \<and>
     (\<exists>probe. pb_network ps = Some probe \<and> probe (po_network (aq_policy rq)) (aq_platform rq) = Inl e)"
  by (auto simp: verify_broker_def rmap_Inl_iff split: option.splits)

lemma later_port_throws_iff:
  "later_port_throws h ps rq runner e \<longleftrightarrow>
     rbind (verify_broker ps rq (po_network (aq_policy rq) \<noteq> []))
       (\<lambda>bv. sr_unenforceable runner (judged_policy h bv rq) (aq_context rq)) = Inl e"
  unfolding later_port_throws_def Let_def verify_broker_throws [symmetric]
  by (cases "verify_broker ps rq (po_network (aq_policy rq) \<noteq> [])") auto

lemma assess_verified_level:
  assumes "sr_mechanism runner \<noteq> NoMechanism"
  shows "case assess_verified h ps rq runner probe of
      Inl e \<Rightarrow> later_port_throws h ps rq runner e
    | Inr st \<Rightarrow> (\<forall>e. \<not> later_port_throws h ps rq runner e) \<and> st_level st \<in> {PROTECTED, DEGRADED} \<and>
        (st_level st = PROTECTED \<longleftrightarrow> sr_mechanism runner = Bubblewrap \<and> boundary_complete h ps rq runner probe)"
proof -
  let ?m = "sr_mechanism runner" and ?egress = "po_network (aq_policy rq) \<noteq> []"
  show ?thesis
  proof (cases "verify_broker ps rq ?egress")
    case (Inl e)
    then show ?thesis by (simp add: assess_verified_def Let_def later_port_throws_iff)
  next
    case bv: (Inr bv)
    show ?thesis
    proof (cases "sr_unenforceable runner (judged_policy h bv rq) (aq_context rq)")
      case (Inl e)
      then show ?thesis using bv by (simp add: assess_verified_def Let_def later_port_throws_iff)
    next
      case gaps: (Inr gaps)
      let ?reasons = "map (reason ''policy.unenforceable'' AreaPolicy) gaps @ backend_reasons ?m @
          network_reasons ?m ?egress bv @
          (if (if sp_child_denied probe then Enforced else Unverified) \<noteq> Enforced
           then [reason ''process.child-boundary-unverified'' AreaProcess
                         ''The deny canary was not verified in a child process.''] else [])"
      let ?caps = "\<lparr>cp_mechanism = ?m, cp_deny_canary = CanaryPassed,
          cp_filesystem = (if ?m = Seatbelt \<or> ?m = AppContainer then Partial
                    else if filter mentions_filesystem gaps = [] then Enforced else Partial),
          cp_process_tree = (if sp_child_denied probe then Enforced else Unverified),
          cp_network = (if ?egress \<and> ?m \<noteq> AppContainer \<and> bv_verified bv then NetBrokered else NetDenied)\<rparr>"
      have eq: "assess_verified h ps rq runner probe =
          status_create (if ?reasons = [] then PROTECTED else DEGRADED) ?caps ?reasons"
        by (simp only: assess_verified_def Let_def length_0_conv length_greater_0_conv capabilities.select_convs
            bv gaps rbind_simps)
      have empty: "?reasons = [] \<longleftrightarrow> ?m = Bubblewrap \<and> boundary_complete h ps rq runner probe"
        using backend_reasons_none [OF assms] bv gaps
        by (auto simp: boundary_complete_def network_reasons_def Let_def)
      have complete: "is_complete ?caps ?reasons" if r: "?reasons = []"
      proof -
        have "?m = Bubblewrap" "boundary_complete h ps rq runner probe" using r empty by blast+
        then show ?thesis
          unfolding r using bv gaps by (auto simp: is_complete_def boundary_complete_def Let_def)
      qed
      have "\<exists>st. assess_verified h ps rq runner probe = Inr st \<and> st_level st \<in> {PROTECTED, DEGRADED} \<and>
          (st_level st = PROTECTED \<longleftrightarrow> ?m = Bubblewrap \<and> boundary_complete h ps rq runner probe)"
        using complete unfolding eq empty [symmetric]
        by (cases "?reasons = []") (simp_all only: status_create_def if_True if_False simp_thms protection_level.distinct,
          auto)
      moreover have "\<not> later_port_throws h ps rq runner e" for e
        using bv gaps by (simp add: later_port_throws_iff)
      ultimately show ?thesis by auto
    qed
  qed
qed

section \<open>Properties\<close>

text \<open>C18: an assessment throws exactly when a port that it consults throws, with the same
  failure: the canary when a runner fits the platform, and after a passed canary the network
  probe, when egress is asked for and not decided yet, and the backend. Otherwise it reports
  \<open>PROTECTED\<close> exactly when protection was not bypassed, the context is of the assessed platform,
  the runner is bubblewrap on Linux, its deny canary passed, also in a child process, the
  backend can enforce everything the policy asks for in the shape a protected run would carry,
  and requested egress goes through a verified broker.\<close>

theorem protected_iff_verified:
  "case assess_protection h ps rq of
     Inl e \<Rightarrow> port_throws h ps rq e
   | Inr st \<Rightarrow> (\<forall>e. \<not> port_throws h ps rq e) \<and>
       (st_level st = PROTECTED \<longleftrightarrow>
          \<not> aq_bypassed rq \<and> ctx_platform (aq_context rq) = aq_platform rq \<and> aq_platform rq = Linux \<and>
          (\<exists>runner probe. aq_runner rq = Some runner \<and> sr_mechanism runner = Bubblewrap \<and>
             pb_sandbox ps runner (aq_platform rq) = Inr probe \<and> sp_passed probe \<and>
             boundary_complete h ps rq runner probe))"
proof -
  note other = unprotected_ok status_create_other
  have refused: "\<exists>st. unprotected a b c = Inr st \<and> st_level st \<noteq> PROTECTED" for a b c
    using unprotected_ok by (metis protection_level.distinct(3))
  consider (bypassed) "aq_bypassed rq" | (mismatch) "\<not> aq_bypassed rq" "ctx_platform (aq_context rq) \<noteq> aq_platform rq"
    | (no_runner) "\<not> aq_bypassed rq" "ctx_platform (aq_context rq) = aq_platform rq" "aq_runner rq = None"
    | (runner) r where "\<not> aq_bypassed rq" "ctx_platform (aq_context rq) = aq_platform rq" "aq_runner rq = Some r"
    by (cases "aq_runner rq") blast+
  then show ?thesis
  proof cases
    case bypassed
    then show ?thesis by (simp add: assess_protection_def port_throws_def other)
  next
    case mismatch
    then have "\<exists>st. assess_protection h ps rq = Inr st \<and> st_level st \<noteq> PROTECTED"
      by (cases "aq_platform rq = Win32") (simp_all add: assess_protection_def refused)
    then obtain st where "assess_protection h ps rq = Inr st" "st_level st \<noteq> PROTECTED" by blast
    then show ?thesis using mismatch by (simp add: port_throws_def)
  next
    case no_runner
    then have "\<exists>st. assess_protection h ps rq = Inr st \<and> st_level st \<noteq> PROTECTED"
      by (cases "aq_platform rq = Win32") (simp_all add: assess_protection_def refused)
    then obtain st where "assess_protection h ps rq = Inr st" "st_level st \<noteq> PROTECTED" by blast
    then show ?thesis using no_runner by (simp add: port_throws_def)
  next
    case runner
    let ?m = "sr_mechanism r" and ?probe = "pb_sandbox ps r (aq_platform rq)"
    have bw: "?m = Bubblewrap \<Longrightarrow> mechanism_matches_platform ?m (aq_platform rq) \<longleftrightarrow> aq_platform rq = Linux"
      "mechanism_matches_platform ?m (aq_platform rq) \<Longrightarrow> ?m \<noteq> NoMechanism"
      by (auto simp: mechanism_matches_platform_def)
    show ?thesis
    proof (cases "mechanism_matches_platform ?m (aq_platform rq)")
      case False
      then have "\<exists>st. assess_protection h ps rq = Inr st \<and> st_level st \<noteq> PROTECTED"
        using runner by (cases "?m = NoMechanism") (simp_all add: assess_protection_def Let_def refused)
      then obtain st where "assess_protection h ps rq = Inr st" "st_level st \<noteq> PROTECTED" by blast
      then show ?thesis using False bw(1) runner by (auto simp: port_throws_def)
    next
      case ok: True
      show ?thesis
      proof (cases ?probe)
        case (Inl e)
        then show ?thesis using ok bw(2) runner by (simp add: assess_protection_def port_throws_def Let_def)
      next
        case probe: (Inr probe)
        show ?thesis
        proof (cases "sp_passed probe")
          case True
          then have "assess_protection h ps rq = assess_verified h ps rq r probe"
            using ok bw(2) runner probe by (simp add: assess_protection_def Let_def)
          then show ?thesis
            using assess_verified_level [OF bw(2) [OF ok], of h ps rq probe] ok bw(1) runner True probe
            by (auto simp: port_throws_def split: sum.splits)
        next
          case False
          with ok bw(2) runner probe show ?thesis
            by (simp add: assess_protection_def port_throws_def Let_def other)
        qed
      qed
    qed
  qed
qed

text \<open>No adapter can create a \<open>PROTECTED\<close> status by hand without a passed deny canary,
  complete enforcement, denied or brokered network and an empty list of reasons.\<close>

theorem no_false_protected:
  assumes "status_create level c reasons = Inr st" "is_protected st"
  shows "cp_mechanism (st_capabilities st) \<noteq> NoMechanism \<and> cp_deny_canary (st_capabilities st) = CanaryPassed \<and>
    cp_filesystem (st_capabilities st) = Enforced \<and> cp_process_tree (st_capabilities st) = Enforced \<and>
    cp_network (st_capabilities st) \<in> {NetDenied, NetBrokered} \<and> st_reasons st = []"
  using assms by (auto simp: status_create_def is_protected_def is_complete_def split: if_splits)

lemma no_false_protected_witness:
  "\<exists>st. status_create PROTECTED \<lparr>cp_mechanism = Bubblewrap, cp_deny_canary = CanaryPassed, cp_filesystem = Enforced,
      cp_process_tree = Enforced, cp_network = NetDenied\<rparr> [] = Inr st \<and> st_reasons st = []"
proof -
  let ?c = "\<lparr>cp_mechanism = Bubblewrap, cp_deny_canary = CanaryPassed, cp_filesystem = Enforced,
      cp_process_tree = Enforced, cp_network = NetDenied\<rparr>"
  have s: "status_create PROTECTED ?c [] = Inr \<lparr>st_level = PROTECTED, st_capabilities = ?c, st_reasons = []\<rparr>"
    by (simp add: status_create_def is_complete_def)
  have p: "is_protected \<lparr>st_level = PROTECTED, st_capabilities = ?c, st_reasons = []\<rparr>" by (simp add: is_protected_def)
  from no_false_protected [OF s p] s show ?thesis by simp
qed

end
