(* ===== verification/Json.thy ===== *)
theory Json
  imports Network
begin

text \<open>
  JSON values as \<open>JSON.parse\<close> yields them. An object is an association list in the order
  of its keys, each key once. \<open>JSON.parse\<close> itself is a parameter of what uses it.
\<close>

datatype json =
    JNull
  | JBool bool
  | JNumber js_number
  | JString string
  | JArray "json list"
  | JObject "(string \<times> json) list"

text \<open>The property of a value; \<open>None\<close> is \<open>undefined\<close>. Inherited properties are not used by the modelled code.\<close>

definition property :: "json \<Rightarrow> string \<Rightarrow> json option" where
  "property j key = (case j of JObject props \<Rightarrow> map_of props key | _ \<Rightarrow> None)"

definition as_string :: "json option \<Rightarrow> string option" where
  "as_string j = (case j of Some (JString s) \<Rightarrow> Some s | _ \<Rightarrow> None)"

section \<open>Reading and writing\<close>

text \<open>
  \<open>JSON.parse\<close> and \<open>JSON.stringify\<close> are parameters, over the type of a file's text. The
  values both deal in: the keys of an object are distinct, those that are array indices come
  first and in ascending order, and a number is finite and in lowest terms.
\<close>

definition array_index :: "string \<Rightarrow> bool" where
  "array_index k =
     (k \<noteq> [] \<and> list_all is_digit k \<and> (k = ''0'' \<or> hd k \<noteq> CHR ''0'') \<and> decimal k < 4294967295)"

definition property_order :: "string list \<Rightarrow> bool" where
  "property_order ks =
     (let indices = filter array_index ks
      in distinct ks \<and> ks = indices @ filter (\<lambda>k. \<not> array_index k) ks \<and> sorted (map decimal indices))"

definition lowest_terms :: "js_number \<Rightarrow> bool" where
  "lowest_terms n = (case n of NotFinite \<Rightarrow> False | Decimal m e \<Rightarrow> if m = 0 then e = 0 else m mod 10 \<noteq> 0)"

fun wf_json :: "json \<Rightarrow> bool" where
  "wf_json (JNumber n) = lowest_terms n"
| "wf_json (JArray js) = (\<forall>j \<in> set js. wf_json j)"
| "wf_json (JObject props) = (property_order (map fst props) \<and> (\<forall>p \<in> set props. wf_json (snd p)))"
| "wf_json _ = True"

record 'r json_io =
  io_parse :: "'r \<Rightarrow> json option"
  io_print :: "json \<Rightarrow> 'r"

text \<open>What the stores rely on.\<close>

definition json_io_ok :: "'r json_io \<Rightarrow> bool" where
  "json_io_ok io =
     ((\<forall>j. wf_json j \<longrightarrow> io_parse io (io_print io j) = Some j) \<and>
      (\<forall>r j. io_parse io r = Some j \<longrightarrow> wf_json j))"

definition plain_io :: "json json_io" where
  "plain_io = \<lparr>io_parse = (\<lambda>j. if wf_json j then Some j else None), io_print = (\<lambda>j. j)\<rparr>"

lemma plain_io_ok: "json_io_ok plain_io"
  by (simp add: json_io_ok_def plain_io_def)

lemma property_order_plain:
  "\<forall>k \<in> set ks. \<not> array_index k \<Longrightarrow> property_order ks \<longleftrightarrow> distinct ks"
proof -
  assume plain: "\<forall>k \<in> set ks. \<not> array_index k"
  then have "filter array_index ks = []" "filter (\<lambda>k. \<not> array_index k) ks = ks"
    by (simp_all add: filter_empty_conv filter_id_conv)
  then show ?thesis by (simp add: property_order_def)
qed

lemma property_order_append:
  "property_order ks \<Longrightarrow> k \<notin> set ks \<Longrightarrow> \<not> array_index k \<Longrightarrow> property_order (ks @ [k])"
  by (simp add: property_order_def Let_def)

text \<open>An integer as a JSON number in lowest terms.\<close>

function json_int_from :: "int \<Rightarrow> int \<Rightarrow> js_number" where
  "json_int_from m e = (if m \<noteq> 0 \<and> m mod 10 = 0 then json_int_from (m div 10) (e + 1) else Decimal m (if m = 0 then 0 else e))"
  by pat_completeness auto
termination
  by (relation "measure (\<lambda>(m, e). nat \<bar>m\<bar>)") (auto simp: nat_less_eq_zless abs_if)

definition json_int :: "int \<Rightarrow> json" where
  "json_int n = JNumber (json_int_from n 0)"

end
