(* ===== verification/Shell.thy ===== *)
theory Shell
  imports Json Tiers
begin

text \<open>
  \<open>src/domain/value-objects/ShellCommand.ts\<close> and \<open>src/domain/entities/ToolCall.ts\<close>: how
  a command line is cut into commands and words, and which paths a tool call names. The
  loops over the characters are recursive functions that carry the loop's variables.
  The lemmas show that quoted words are never cut and come back unchanged, and which
  paths a call is judged by.
\<close>

section \<open>Commands of a line\<close>

definition is_quote :: "char \<Rightarrow> bool" where
  "is_quote c = (c = CHR 0x22 \<or> c = CHR 0x27)"

abbreviation single_quote :: char where
  "single_quote \<equiv> CHR 0x27"

definition is_separator :: "char \<Rightarrow> bool" where
  "is_separator c = (c = CHR '';'' \<or> c = CHR 0x0A \<or> c = CHR ''|'' \<or> c = CHR ''&'')"

text \<open>The variables \<open>current\<close>, \<open>quote\<close> and \<open>escaped\<close> of \<open>splitSegments\<close>.\<close>

function split_loop :: "string \<Rightarrow> char option \<Rightarrow> bool \<Rightarrow> string \<Rightarrow> string list" where
  "split_loop current quote escaped [] = [current]"
| "split_loop current quote escaped (c # cs) =
     (if escaped then split_loop (current @ [c]) quote False cs
      else if c = CHR 0x5C \<and> quote \<noteq> Some single_quote then split_loop (current @ [c]) quote True cs
      else if quote \<noteq> None then
        split_loop (current @ [c]) (if quote = Some c then None else quote) False cs
      else if is_quote c then split_loop (current @ [c]) (Some c) False cs
      else if is_separator c then
        current # split_loop [] None False (case cs of [] \<Rightarrow> [] | d # ds \<Rightarrow> if d = c then ds else cs)
      else split_loop (current @ [c]) None False cs)"
  by pat_completeness auto
termination
  by (relation "measure (\<lambda>(_, _, _, cs). length cs)") (auto split: list.splits)

definition split_segments :: "string \<Rightarrow> string list" where
  "split_segments raw = filter (\<lambda>s. length (trim s) > 0) (split_loop [] None False raw)"

text \<open>The same for \<open>tokenize\<close>.\<close>

fun token_loop :: "string \<Rightarrow> char option \<Rightarrow> bool \<Rightarrow> string \<Rightarrow> string list" where
  "token_loop current quote escaped [] = (if length current > 0 then [current] else [])"
| "token_loop current quote escaped (c # cs) =
     (if escaped then token_loop (current @ [c]) quote False cs
      else if c = CHR 0x5C \<and> quote \<noteq> Some single_quote then token_loop current quote True cs
      else if quote \<noteq> None then
        (if quote = Some c then token_loop current None False cs
         else token_loop (current @ [c]) quote False cs)
      else if is_quote c then token_loop current (Some c) False cs
      else if is_space c then
        (if length current > 0 then current # token_loop [] None False cs else token_loop [] None False cs)
      else token_loop (current @ [c]) None False cs)"

definition tokenize :: "string \<Rightarrow> string list" where
  "tokenize raw = token_loop [] None False (trim raw)"

section \<open>Segments\<close>

record shell_segment =
  sg_tokens :: "string list"
  sg_assignments :: "(string \<times> string) list"

definition name_start :: "char \<Rightarrow> bool" where
  "name_start c = (is_letter c \<or> c = CHR ''_'')"

definition name_char :: "char \<Rightarrow> bool" where
  "name_char c = (is_letter c \<or> is_digit c \<or> c = CHR ''_'')"

text \<open>The pattern \<open>^([A-Za-z_][A-Za-z0-9_]*)=(.*)$\<close>, whose dot matches no line end.\<close>

definition assignment_of :: "string \<Rightarrow> (string \<times> string) option" where
  "assignment_of token =
     (let name = takeWhile name_char token; rest = dropWhile name_char token
      in if name \<noteq> [] \<and> name_start (hd name) \<and> starts_with rest ''='' \<and>
            CHR 0x0A \<notin> set (tl rest) \<and> CHR 0x0D \<notin> set (tl rest)
         then Some (name, tl rest) else None)"

text \<open>\<open>assignments[name] = value\<close>: an object ignores a text assigned to \<open>__proto__\<close>.\<close>

definition assign_name :: "string \<Rightarrow> string \<Rightarrow> (string \<times> string) list \<Rightarrow> (string \<times> string) list" where
  "assign_name k v m = (if k = ''__proto__'' then m else map_set k v m)"

fun skip_wrappers :: "string list \<Rightarrow> (string \<times> string) list \<Rightarrow> shell_segment" where
  "skip_wrappers [] m = \<lparr>sg_tokens = [], sg_assignments = m\<rparr>"
| "skip_wrappers (t # ts) m =
     (case assignment_of t of
        Some (k, v) \<Rightarrow> skip_wrappers ts (assign_name k v m)
      | None \<Rightarrow>
          if t = ''env'' \<or> t = ''sudo'' \<or> t = ''/usr/bin/env'' then skip_wrappers ts m
          else \<lparr>sg_tokens = t # ts, sg_assignments = m\<rparr>)"

definition segment_of :: "string \<Rightarrow> shell_segment" where
  "segment_of raw = skip_wrappers (tokenize raw) []"

definition sg_program :: "shell_segment \<Rightarrow> string option" where
  "sg_program s = (case sg_tokens s of [] \<Rightarrow> None | t # _ \<Rightarrow> Some t)"

definition sg_args :: "shell_segment \<Rightarrow> string list" where
  "sg_args s = drop 1 (sg_tokens s)"

definition sg_subcommand :: "shell_segment \<Rightarrow> string option" where
  "sg_subcommand s = find (\<lambda>a. \<not> starts_with a ''-'') (sg_args s)"

definition has_flag :: "shell_segment \<Rightarrow> string list \<Rightarrow> bool" where
  "has_flag s flags = list_ex (\<lambda>a. a \<in> set flags) (sg_args s)"

definition segment_text :: "shell_segment \<Rightarrow> string" where
  "segment_text s = join '' '' (sg_tokens s)"

definition runs_program :: "shell_segment \<Rightarrow> string \<Rightarrow> bool" where
  "runs_program s program =
     (case sg_program s of None \<Rightarrow> False | Some p \<Rightarrow> p = program \<or> ends_with p (CHR ''/'' # program))"

record shell_command =
  sc_raw :: string
  sc_segments :: "shell_segment list"

definition parse_shell :: "string \<Rightarrow> shell_command" where
  "parse_shell raw =
     \<lparr>sc_raw = raw,
      sc_segments = filter (\<lambda>s. length (sg_tokens s) > 0) (map segment_of (split_segments raw))\<rparr>"

definition programs :: "shell_command \<Rightarrow> string list" where
  "programs c = concat (map (\<lambda>s. case sg_program s of None \<Rightarrow> [] | Some p \<Rightarrow> [p]) (sc_segments c))"

definition invokes :: "shell_command \<Rightarrow> string \<Rightarrow> bool" where
  "invokes c program = list_ex (\<lambda>n. n = program \<or> ends_with n (CHR ''/'' # program)) (programs c)"

definition invocations_of :: "shell_command \<Rightarrow> string \<Rightarrow> shell_segment list" where
  "invocations_of c program = filter (\<lambda>s. runs_program s program) (sc_segments c)"

definition command_assignments :: "shell_command \<Rightarrow> (string \<times> string) list" where
  "command_assignments c =
     foldl (\<lambda>m s. foldl (\<lambda>m (k, v). map_set k v m) m (sg_assignments s)) [] (sc_segments c)"

section \<open>Tool calls\<close>

record tool_call =
  tc_tool :: string
  tc_input :: "(string \<times> json) list"
  tc_context :: path_context

definition path_keys :: "string list" where
  "path_keys = [''file_path'', ''path'', ''filePath'', ''notebook_path'', ''target_file'']"

definition read_tools :: "string list" where
  "read_tools = [''Read'', ''Grep'', ''Glob'', ''NotebookRead'', ''LS'']"

definition write_tools :: "string list" where
  "write_tools = [''Write'', ''Edit'', ''MultiEdit'', ''NotebookEdit'', ''str_replace_editor'']"

definition is_shell :: "tool_call \<Rightarrow> bool" where
  "is_shell call = (tc_tool call = ''Bash'' \<or> tc_tool call = ''Shell'' \<or> tc_tool call = ''run_terminal_cmd'')"

definition is_mcp :: "tool_call \<Rightarrow> bool" where
  "is_mcp call = starts_with (tc_tool call) ''mcp__''"

definition call_access :: "tool_call \<Rightarrow> access" where
  "call_access call =
     (if tc_tool call \<in> set read_tools then Read
      else if tc_tool call \<in> set write_tools then Write else Write)"

definition call_command :: "tool_call \<Rightarrow> shell_command option" where
  "call_command call =
     (if \<not> is_shell call then None
      else map_option parse_shell (as_string (map_of (tc_input call) ''command'')))"

definition expand_argument :: "path_context \<Rightarrow> string \<Rightarrow> abs_path res" where
  "expand_argument ctx raw =
     (if starts_with raw ''~'' then from_user_path raw (ctx_home ctx)
      else if starts_with raw ''/'' then of_path raw
      else path_join (ctx_workspace ctx) [raw])"

definition collect_path :: "path_context \<Rightarrow> string \<Rightarrow> string list \<Rightarrow> string list" where
  "collect_path ctx raw found =
     (case expand_argument ctx raw of
        Inl _ \<Rightarrow> found
      | Inr p \<Rightarrow> if ap_value p \<in> set found then found else found @ [ap_value p])"

definition path_argument :: "string \<Rightarrow> bool" where
  "path_argument token =
     (\<not> starts_with token ''-'' \<and> (CHR ''/'' \<in> set token \<or> starts_with token ''~''))"

definition named_arguments :: "tool_call \<Rightarrow> string list" where
  "named_arguments call =
     concat (map (\<lambda>key. case as_string (map_of (tc_input call) key) of None \<Rightarrow> [] | Some v \<Rightarrow> [v]) path_keys) @
     (case call_command call of
        None \<Rightarrow> []
      | Some c \<Rightarrow> concat (map (\<lambda>s. filter path_argument (drop 1 (sg_tokens s))) (sc_segments c)))"

definition call_paths :: "tool_call \<Rightarrow> abs_path list res" where
  "call_paths call =
     traverse of_path (foldl (\<lambda>found raw. collect_path (tc_context call) raw found) [] (named_arguments call))"

definition call_text :: "tool_call \<Rightarrow> string" where
  "call_text call = (case call_command call of None \<Rightarrow> tc_tool call | Some c \<Rightarrow> tc_tool call @ '': '' @ sc_raw c)"

section \<open>Lemmas on quoting\<close>

text \<open>A word between single quotes, which is how a shell is given it verbatim.\<close>

definition quoted :: "string \<Rightarrow> string" where
  "quoted w = single_quote # w @ [single_quote]"

definition quoted_line :: "string list \<Rightarrow> string" where
  "quoted_line ws = join '' '' (map quoted ws)"

definition word_ok :: "string \<Rightarrow> bool" where
  "word_ok w = (w \<noteq> [] \<and> single_quote \<notin> set w)"

lemma split_quoted_rest:
  "single_quote \<notin> set w \<Longrightarrow>
     split_loop cur (Some single_quote) False (w @ single_quote # cs) =
     split_loop (cur @ w @ [single_quote]) None False cs"
  by (induction w arbitrary: cur) (auto simp: is_quote_def)

lemma split_quoted:
  "word_ok w \<Longrightarrow> split_loop cur None False (quoted w @ cs) = split_loop (cur @ quoted w) None False cs"
  using split_quoted_rest [of w "cur @ [single_quote]" cs]
  by (simp add: quoted_def word_ok_def is_quote_def)

lemma split_quoted_line:
  assumes "\<forall>w \<in> set ws. word_ok w"
  shows "split_loop cur None False (quoted_line ws) = [cur @ quoted_line ws]"
  using assms
proof (induction ws arbitrary: cur)
  case Nil
  then show ?case by (simp add: quoted_line_def)
next
  case (Cons w ws)
  show ?case
  proof (cases "ws = []")
    case True
    then show ?thesis using split_quoted [of w cur "[]"] Cons.prems by (simp add: quoted_line_def)
  next
    case False
    then have line: "quoted_line (w # ws) = quoted w @ CHR '' '' # quoted_line ws"
      by (simp add: quoted_line_def join_Cons)
    have "split_loop cur None False (quoted_line (w # ws)) =
        split_loop (cur @ quoted w) None False (CHR '' '' # quoted_line ws)"
      unfolding line by (rule split_quoted) (use Cons.prems in simp)
    also have "\<dots> = split_loop (cur @ quoted w @ '' '') None False (quoted_line ws)"
      by (simp add: is_quote_def is_separator_def)
    also have "\<dots> = [cur @ quoted w @ '' '' @ quoted_line ws]"
      using Cons.IH [of "cur @ quoted w @ '' ''"] Cons.prems by simp
    finally show ?thesis by (simp add: line)
  qed
qed

lemma token_quoted_rest:
  "single_quote \<notin> set w \<Longrightarrow>
     token_loop cur (Some single_quote) False (w @ single_quote # cs) = token_loop (cur @ w) None False cs"
  by (induction w arbitrary: cur) auto

lemma token_quoted:
  "word_ok w \<Longrightarrow> token_loop [] None False (quoted w @ cs) = token_loop w None False cs"
  using token_quoted_rest [of w "[]" cs] by (simp add: quoted_def word_ok_def is_quote_def)

lemma token_quoted_line:
  assumes "\<forall>w \<in> set ws. word_ok w"
  shows "token_loop [] None False (quoted_line ws) = ws"
  using assms
proof (induction ws)
  case Nil
  then show ?case by (simp add: quoted_line_def)
next
  case (Cons w ws)
  then have w: "word_ok w" "w \<noteq> []" by (auto simp: word_ok_def)
  show ?case
  proof (cases "ws = []")
    case True
    then show ?thesis using token_quoted [OF w(1), of "[]"] w(2) by (simp add: quoted_line_def)
  next
    case False
    then have "quoted_line (w # ws) = quoted w @ CHR '' '' # quoted_line ws"
      by (simp add: quoted_line_def join_Cons)
    then have "token_loop [] None False (quoted_line (w # ws)) = token_loop w None False (CHR '' '' # quoted_line ws)"
      using token_quoted [OF w(1)] by simp
    also have "\<dots> = w # token_loop [] None False (quoted_line ws)"
      using w(2) by (simp add: is_quote_def is_space_def)
    finally show ?thesis using Cons by simp
  qed
qed

lemma trim_id: "s = [] \<or> \<not> is_space (hd s) \<and> \<not> is_space (last s) \<Longrightarrow> trim s = s"
proof (cases s rule: rev_cases)
  case (snoc u c)
  assume "s = [] \<or> \<not> is_space (hd s) \<and> \<not> is_space (last s)"
  then have "\<not> is_space (hd s)" "\<not> is_space c" using snoc by simp_all
  moreover have "dropWhile is_space s = s" using \<open>\<not> is_space (hd s)\<close> by (cases s) auto
  ultimately show ?thesis by (simp add: trim_def trim_start_def snoc)
qed (simp add: trim_def trim_start_def)

lemma quoted_line_ends:
  assumes "ws \<noteq> []"
  shows "quoted_line ws \<noteq> [] \<and> hd (quoted_line ws) = single_quote \<and> last (quoted_line ws) = single_quote"
  using assms
proof (induction ws)
  case (Cons w ws)
  then show ?case
    by (cases "ws = []") (auto simp: quoted_line_def join_Cons quoted_def last_append)
qed simp

section \<open>Lemmas on the paths of a call\<close>

lemma collect_path_cases:
  "set (collect_path ctx raw found) =
     (case expand_argument ctx raw of Inl _ \<Rightarrow> set found | Inr p \<Rightarrow> insert (ap_value p) (set found))"
  by (cases "expand_argument ctx raw") (auto simp: collect_path_def)

lemma collect_path_extends: "\<exists>vs. collect_path ctx raw found = found @ vs"
  by (cases "expand_argument ctx raw") (auto simp: collect_path_def)

lemma collected_paths:
  "set (foldl (\<lambda>found raw. collect_path ctx raw found) found raws) =
     set found \<union> {ap_value p | p raw. raw \<in> set raws \<and> expand_argument ctx raw = Inr p}"
proof (induction raws arbitrary: found)
  case (Cons raw raws)
  show ?case
    by (cases "expand_argument ctx raw") (auto simp: Cons.IH collect_path_cases)
qed simp

lemma collected_distinct:
  "distinct found \<Longrightarrow> distinct (foldl (\<lambda>found raw. collect_path ctx raw found) found raws)"
proof (induction raws arbitrary: found)
  case (Cons raw raws)
  then show ?case by (cases "expand_argument ctx raw") (auto simp: collect_path_def)
qed simp

lemma expanded_again:
  assumes "wf_path (ctx_home ctx)" "expand_argument ctx raw = Inr p"
    "ap_flavour p = Posix" "reparsable (segments p)"
  shows "of_path (ap_value p) = Inr p"
proof -
  have "p = ctx_home ctx \<or> (\<exists>r. of_path r = Inr p)"
    using assms(2) by (auto simp: expand_argument_def from_user_path_def path_join_def split: if_splits)
  then have "wf_path p" using assms(1,3) of_path_wf by auto
  then obtain segs where "p = mk_posix segs" "\<forall>s \<in> set segs. seg_ok s"
    using wf_posix_E assms(3) by blast
  then show ?thesis using of_path_posix_path [of segs "[]"] assms(4) by simp
qed

lemma call_paths_sound:
  assumes "call_paths call = Inr ps" "q \<in> set ps"
  shows "\<exists>raw p. raw \<in> set (named_arguments call) \<and> expand_argument (tc_context call) raw = Inr p \<and>
    of_path (ap_value p) = Inr q"
  using traverse_set [OF assms(1) [unfolded call_paths_def] assms(2)] by (auto simp: collected_paths)

lemma call_paths_complete:
  assumes "call_paths call = Inr ps" "raw \<in> set (named_arguments call)"
    "expand_argument (tc_context call) raw = Inr p"
  shows "\<exists>q \<in> set ps. of_path (ap_value p) = Inr q"
  by (rule traverse_set' [OF assms(1) [unfolded call_paths_def]]) (use assms(2,3) in \<open>auto simp: collected_paths\<close>)

section \<open>Properties\<close>

text \<open>A command line of single-quoted words is one command whose words come back
  unchanged, separators, blanks, backslashes and double quotes inside them included: a
  quoted argument can neither hide a command nor be taken for one.\<close>

theorem quoted_words_survive:
  assumes "ws \<noteq> []" "\<forall>w \<in> set ws. word_ok w"
  shows "split_segments (quoted_line ws) = [quoted_line ws] \<and> tokenize (quoted_line ws) = ws"
proof -
  note e = quoted_line_ends [OF assms(1)]
  have t: "trim (quoted_line ws) = quoted_line ws"
    by (rule trim_id) (use e in \<open>simp add: is_space_def\<close>)
  then have "length (trim (quoted_line ws)) > 0" using e by simp
  moreover have "split_loop [] None False (quoted_line ws) = [quoted_line ws]"
    using split_quoted_line [OF assms(2), of "[]"] by simp
  ultimately have "split_segments (quoted_line ws) = [quoted_line ws]" by (simp add: split_segments_def)
  then show ?thesis using token_quoted_line [OF assms(2)] t by (simp add: tokenize_def)
qed

lemma quoted_words_survive_witness:
  "tokenize (quoted_line [''git'', ''commit'', ''-m'', ''a; rm -rf / && b'']) = [''git'', ''commit'', ''-m'', ''a; rm -rf / && b'']"
proof -
  have "\<forall>w \<in> set [''git'', ''commit'', ''-m'', ''a; rm -rf / && b'']. word_ok w" by (simp add: word_ok_def)
  from quoted_words_survive [OF _ this] show ?thesis by simp
qed

text \<open>A call is judged by exactly the locations its path arguments denote: every
  argument that expands to a usable path is among them, and nothing else is.\<close>

theorem call_paths_exact:
  assumes "call_paths call = Inr ps" "wf_path (ctx_home (tc_context call))"
    and "\<forall>raw \<in> set (named_arguments call). \<forall>p. expand_argument (tc_context call) raw = Inr p \<longrightarrow>
           ap_flavour p = Posix \<and> reparsable (segments p)"
  shows "q \<in> set ps \<longleftrightarrow>
    (\<exists>raw \<in> set (named_arguments call). expand_argument (tc_context call) raw = Inr q)"
proof
  assume "q \<in> set ps"
  then obtain raw p where r: "raw \<in> set (named_arguments call)"
    "expand_argument (tc_context call) raw = Inr p" "of_path (ap_value p) = Inr q"
    using call_paths_sound [OF assms(1)] by blast
  moreover have "of_path (ap_value p) = Inr p" using expanded_again assms(2,3) r(1,2) by blast
  ultimately show "\<exists>raw \<in> set (named_arguments call). expand_argument (tc_context call) raw = Inr q"
    by auto
next
  assume "\<exists>raw \<in> set (named_arguments call). expand_argument (tc_context call) raw = Inr q"
  then obtain raw where r: "raw \<in> set (named_arguments call)"
    "expand_argument (tc_context call) raw = Inr q" by blast
  then obtain q' where "q' \<in> set ps" "of_path (ap_value q) = Inr q'"
    using call_paths_complete [OF assms(1)] by blast
  moreover have "of_path (ap_value q) = Inr q" using expanded_again assms(2,3) r by blast
  ultimately show "q \<in> set ps" by simp
qed

definition sample_call :: tool_call where
  "sample_call =
     \<lparr>tc_tool = ''Bash'', tc_input = [(''command'', JString ''cat ~/.ssh/id_rsa'')],
      tc_context = sample_ctx\<rparr>"

lemma call_paths_exact_witness:
  "mk_posix [''home'', ''u'', ''.ssh'', ''id_rsa''] \<in> set [mk_posix [''home'', ''u'', ''.ssh'', ''id_rsa'']]"
proof -
  have "call_paths sample_call = Inr [mk_posix [''home'', ''u'', ''.ssh'', ''id_rsa'']]"
    "wf_path (ctx_home (tc_context sample_call))"
    "named_arguments sample_call = [''~/.ssh/id_rsa'']"
    "expand_argument (tc_context sample_call) ''~/.ssh/id_rsa'' = Inr (mk_posix [''home'', ''u'', ''.ssh'', ''id_rsa''])"
    "reparsable (segments (mk_posix [''home'', ''u'', ''.ssh'', ''id_rsa'']))" by code_simp+
  then show ?thesis by (subst call_paths_exact [of sample_call]) auto
qed

text \<open>One argument can make the question which paths a call names throw: an argument
  is collected as the text of an accepted path, which is parsed again outside the
  \<open>try\<close>, and the text of \<open>/./??/x\<close> is refused there.\<close>

lemma call_paths_throw:
  "call_paths \<lparr>tc_tool = ''Read'', tc_input = [(''file_path'', JString ''/./??/x''), (''path'', JString other)],
     tc_context = ctx\<rparr> = Inl DeviceNamespace"
proof -
  let ?call = "\<lparr>tc_tool = ''Read'', tc_input = [(''file_path'', JString ''/./??/x''), (''path'', JString other)],
     tc_context = ctx\<rparr>"
  let ?bad = "mk_posix [''??'', ''x'']"
  have e: "of_path ''/./??/x'' = Inr ?bad" "posix_path [''??'', ''x''] = ''/??/x''" "of_path ''/??/x'' = Inl DeviceNamespace"
    by code_simp+
  have n: "named_arguments ?call = [''/./??/x'', other]"
    by (simp add: named_arguments_def path_keys_def call_command_def is_shell_def as_string_def)
  have f: "collect_path ctx ''/./??/x'' [] = [''/??/x'']"
    by (simp add: collect_path_def expand_argument_def e)
  have "\<exists>vs. foldl (\<lambda>found raw. collect_path ctx raw found) [] [''/./??/x'', other] = ''/??/x'' # vs"
    using collect_path_extends [of ctx other "[''/??/x'']"] by (simp only: foldl_Cons foldl_Nil f) auto
  then show ?thesis using e(3) n by (auto simp: call_paths_def)
qed

end
