(* ===== verification/Findings.thy ===== *)
theory Findings
  imports Shell "HOL-Library.Product_Lexorder" "HOL-Library.Multiset"
begin

text \<open>
  \<open>src/domain/entities/\<close> (\<open>Finding.ts\<close>, \<open>ScanReport.ts\<close>),
  \<open>src/domain/rules/\<close> (\<open>Rule.ts\<close>, \<open>RuleRegistry.ts\<close>) and
  \<open>src/domain/services/ScanEngine.ts\<close>: rules over any subject, their registry, and the
  report of a scan. A rule is a record of its constants and of its two methods, which may
  throw. The lemmas show that a report is its findings in the one stable order, that the
  configuration cannot switch off a refusal, and that nothing a rule finds is lost.
\<close>

section \<open>Findings\<close>

record finding =
  fd_rule :: rule_id
  fd_severity :: severity
  fd_disposition :: disposition
  fd_title :: string
  fd_detail :: string
  fd_remediation :: string
  fd_subject :: string
  fd_hash :: "content_hash option"
  fd_location :: "source_location option"

definition decision_key :: "finding \<Rightarrow> string" where
  "decision_key f =
     (case fd_hash f of
        None \<Rightarrow> rid_value (fd_rule f) @ ''@'' @ fd_subject f
      | Some h \<Rightarrow> hash_to_string h)"

definition with_disposition :: "finding \<Rightarrow> disposition \<Rightarrow> finding" where
  "with_disposition f d = f\<lparr>fd_disposition := d\<rparr>"

definition json_text :: "string option \<Rightarrow> json" where
  "json_text s = (case s of None \<Rightarrow> JNull | Some t \<Rightarrow> JString t)"

definition show_location :: "source_location \<Rightarrow> string" where
  "show_location l =
     ''line '' @ show_nat (nat (sl_line l)) @
     (case sl_excerpt l of None \<Rightarrow> [] | Some e \<Rightarrow> '': '' @ e)"

definition finding_json :: "finding \<Rightarrow> json" where
  "finding_json f =
     JObject
       [(''ruleId'', JString (rid_value (fd_rule f))),
        (''severity'', JString (severity_name (fd_severity f))),
        (''disposition'', JString (disposition_name (fd_disposition f))),
        (''title'', JString (fd_title f)),
        (''subject'', JString (fd_subject f)),
        (''decisionKey'', JString (decision_key f)),
        (''contentHash'', json_text (map_option hash_to_string (fd_hash f))),
        (''location'', json_text (map_option show_location (fd_location f)))]"

section \<open>Reports\<close>

text \<open>
  \<open>Array.prototype.sort\<close> with a comparator: stable, ascending. An element is put before
  the first that does not precede it.
\<close>

fun insert_by :: "('a \<Rightarrow> 'a \<Rightarrow> int) \<Rightarrow> 'a \<Rightarrow> 'a list \<Rightarrow> 'a list" where
  "insert_by cmp x [] = [x]"
| "insert_by cmp x (y # ys) = (if cmp x y \<le> 0 then x # y # ys else y # insert_by cmp x ys)"

definition array_sort :: "('a \<Rightarrow> 'a \<Rightarrow> int) \<Rightarrow> 'a list \<Rightarrow> 'a list" where
  "array_sort cmp xs = foldr (insert_by cmp) xs []"

text \<open>\<open>localeCompare\<close> on rule ids, all of the form \<open>AG-<letter><three digits>\<close>, where the
  collation is the order of the characters.\<close>

definition locale_compare :: "string \<Rightarrow> string \<Rightarrow> int" where
  "locale_compare a b = (if a = b then 0 else if a < b then -1 else 1)"

definition compare_findings :: "finding \<Rightarrow> finding \<Rightarrow> int" where
  "compare_findings a b =
     (if rank (fd_severity a) \<noteq> rank (fd_severity b)
      then int (rank (fd_severity b)) - int (rank (fd_severity a))
      else if strictness (fd_disposition a) \<noteq> strictness (fd_disposition b)
      then int (strictness (fd_disposition b)) - int (strictness (fd_disposition a))
      else locale_compare (rid_value (fd_rule a)) (rid_value (fd_rule b)))"

record scan_report =
  rp_findings :: "finding list"

definition report_of :: "finding list \<Rightarrow> scan_report" where
  "report_of fs = \<lparr>rp_findings = array_sort compare_findings fs\<rparr>"

definition empty_report :: scan_report where
  "empty_report = \<lparr>rp_findings = []\<rparr>"

definition is_clean :: "scan_report \<Rightarrow> bool" where
  "is_clean r = (length (rp_findings r) = 0)"

definition worst_severity :: "scan_report \<Rightarrow> severity" where
  "worst_severity r =
     foldl (\<lambda>worst f. if is_at_least (fd_severity f) worst then fd_severity f else worst) Low (rp_findings r)"

definition blocking :: "scan_report \<Rightarrow> finding list" where
  "blocking r = filter (\<lambda>f. stops (fd_disposition f)) (rp_findings r)"

definition interrupting :: "scan_report \<Rightarrow> finding list" where
  "interrupting r = filter (\<lambda>f. interrupts (fd_disposition f)) (rp_findings r)"

definition overall_disposition :: "scan_report \<Rightarrow> disposition" where
  "overall_disposition r = strictest (map fd_disposition (rp_findings r))"

definition report_concat :: "scan_report \<Rightarrow> scan_report \<Rightarrow> scan_report" where
  "report_concat r s = report_of (rp_findings r @ rp_findings s)"

section \<open>Rules\<close>

record 'a rule =
  ru_id :: rule_id
  ru_severity :: severity
  ru_disposition :: disposition
  ru_title :: string
  ru_remediation :: string
  ru_applies :: "'a \<Rightarrow> bool res"
  ru_inspect :: "'a \<Rightarrow> finding list res"

definition evaluate_rule :: "'a rule \<Rightarrow> 'a \<Rightarrow> finding list res" where
  "evaluate_rule r x =
     rbind (ru_applies r x) (\<lambda>applies. if \<not> applies then Inr [] else ru_inspect r x)"

record finding_draft =
  dr_title :: string
  dr_detail :: string
  dr_subject :: string
  dr_hash :: "content_hash option"
  dr_location :: "source_location option"
  dr_severity :: "severity option"
  dr_disposition :: "disposition option"

text \<open>The constants of a rule, which the protected method \<open>finding\<close> reads.\<close>

record rule_info =
  ri_id :: rule_id
  ri_severity :: severity
  ri_disposition :: disposition
  ri_title :: string
  ri_remediation :: string

definition make_finding :: "rule_info \<Rightarrow> finding_draft \<Rightarrow> finding" where
  "make_finding i d =
     \<lparr>fd_rule = ri_id i,
      fd_severity = (case dr_severity d of Some s \<Rightarrow> s | None \<Rightarrow> ri_severity i),
      fd_disposition = (case dr_disposition d of Some x \<Rightarrow> x | None \<Rightarrow> ri_disposition i),
      fd_title = dr_title d, fd_detail = dr_detail d, fd_remediation = ri_remediation i,
      fd_subject = dr_subject d, fd_hash = dr_hash d, fd_location = dr_location d\<rparr>"

definition draft :: "string \<Rightarrow> string \<Rightarrow> string \<Rightarrow> finding_draft" where
  "draft title detail subject =
     \<lparr>dr_title = title, dr_detail = detail, dr_subject = subject, dr_hash = None, dr_location = None,
      dr_severity = None, dr_disposition = None\<rparr>"

definition mk_rule :: "rule_info \<Rightarrow> ('a \<Rightarrow> bool res) \<Rightarrow> ('a \<Rightarrow> finding list res) \<Rightarrow> 'a rule" where
  "mk_rule i applies inspect =
     \<lparr>ru_id = ri_id i, ru_severity = ri_severity i, ru_disposition = ri_disposition i, ru_title = ri_title i,
      ru_remediation = ri_remediation i, ru_applies = applies, ru_inspect = inspect\<rparr>"

section \<open>The registry\<close>

type_synonym rule_switches = "string \<Rightarrow> bool"

fun check_unique_rules :: "string set \<Rightarrow> 'a rule list \<Rightarrow> unit res" where
  "check_unique_rules seen [] = Inr ()"
| "check_unique_rules seen (r # rs) =
     (if rid_value (ru_id r) \<in> seen then Inl (DuplicateId (rid_value (ru_id r)))
      else check_unique_rules (insert (rid_value (ru_id r)) seen) rs)"

record 'a rule_registry =
  rr_rules :: "'a rule list"

definition rule_registry_of :: "'a rule list \<Rightarrow> 'a rule_registry res" where
  "rule_registry_of rs = rbind (check_unique_rules {} rs) (\<lambda>_. Inr \<lparr>rr_rules = rs\<rparr>)"

definition enabled_rules :: "'a rule_registry \<Rightarrow> rule_switches \<Rightarrow> 'a rule list" where
  "enabled_rules reg switches =
     filter (\<lambda>r. stops (ru_disposition r) \<or> switches (rid_value (ru_id r))) (rr_rules reg)"

definition rule_by_id :: "'a rule_registry \<Rightarrow> string \<Rightarrow> 'a rule option" where
  "rule_by_id reg i = find (\<lambda>r. rid_value (ru_id r) = i) (rr_rules reg)"

section \<open>The scan engine\<close>

definition evaluate_all :: "'a rule list \<Rightarrow> 'a \<Rightarrow> finding list res" where
  "evaluate_all rs x = rmap concat (traverse (\<lambda>r. evaluate_rule r x) rs)"

definition engine_scan :: "'a rule_registry \<Rightarrow> 'a list \<Rightarrow> rule_switches \<Rightarrow> scan_report res" where
  "engine_scan reg subjects switches =
     rmap (\<lambda>fss. report_of (concat fss)) (traverse (evaluate_all (enabled_rules reg switches)) subjects)"

section \<open>Lemmas on sorting\<close>

definition finding_rank :: "finding \<Rightarrow> int \<times> int \<times> string" where
  "finding_rank f = (- int (rank (fd_severity f)), - int (strictness (fd_disposition f)), rid_value (fd_rule f))"

lemma compare_findings_rank: "compare_findings a b \<le> 0 \<longleftrightarrow> finding_rank a \<le> finding_rank b"
  by (cases "rank (fd_severity a)" "rank (fd_severity b)" rule: linorder_cases;
      cases "strictness (fd_disposition a)" "strictness (fd_disposition b)" rule: linorder_cases;
      cases "rid_value (fd_rule a)" "rid_value (fd_rule b)" rule: linorder_cases)
     (auto simp: compare_findings_def finding_rank_def locale_compare_def)

lemma sort_key_stable': "filter (\<lambda>x. k = g x) (sort_key g xs) = filter (\<lambda>x. k = g x) xs"
proof -
  have "(\<lambda>x. k = g x) = (\<lambda>x. g x = k)" by auto
  then show ?thesis by (simp only: sort_key_stable)
qed

lemma insert_by_rank: "insert_by compare_findings x xs = insort_key finding_rank x xs"
  by (induction xs) (simp_all add: compare_findings_rank)

lemma array_sort_rank: "array_sort compare_findings fs = sort_key finding_rank fs"
proof -
  have "insert_by compare_findings = insort_key finding_rank" by (intro ext) (rule insert_by_rank)
  then show ?thesis by (simp add: array_sort_def sort_key_def)
qed

lemma report_findings: "rp_findings (report_of fs) = sort_key finding_rank fs"
  by (simp add: report_of_def array_sort_rank)

lemma set_report [simp]: "set (rp_findings (report_of fs)) = set fs"
  by (simp add: report_findings)

section \<open>Lemmas on the engine\<close>

lemma evaluate_all_set:
  assumes "evaluate_all rs x = Inr fs"
  shows "f \<in> set fs \<longleftrightarrow> (\<exists>r \<in> set rs. \<exists>gs. evaluate_rule r x = Inr gs \<and> f \<in> set gs)"
proof -
  obtain fss where fss: "traverse (\<lambda>r. evaluate_rule r x) rs = Inr fss" "fs = concat fss"
    using assms by (cases "traverse (\<lambda>r. evaluate_rule r x) rs") (auto simp: evaluate_all_def)
  show ?thesis
  proof
    assume "f \<in> set fs"
    then obtain gs where "gs \<in> set fss" "f \<in> set gs" using fss(2) by auto
    then show "\<exists>r \<in> set rs. \<exists>gs. evaluate_rule r x = Inr gs \<and> f \<in> set gs"
      using traverse_set [OF fss(1)] by blast
  next
    assume "\<exists>r \<in> set rs. \<exists>gs. evaluate_rule r x = Inr gs \<and> f \<in> set gs"
    then obtain r gs where r: "r \<in> set rs" "evaluate_rule r x = Inr gs" "f \<in> set gs" by blast
    then show "f \<in> set fs" using traverse_set' [OF fss(1) r(1)] fss(2) by auto
  qed
qed

lemma evaluate_all_ok:
  assumes "\<And>r. r \<in> set rs \<Longrightarrow> is_ok (evaluate_rule r x)"
  shows "is_ok (evaluate_all rs x)"
  using assms
proof (induction rs)
  case (Cons r rs)
  then obtain fs where fs: "traverse (\<lambda>r. evaluate_rule r x) rs = Inr fs"
    by (cases "traverse (\<lambda>r. evaluate_rule r x) rs") (auto simp: evaluate_all_def)
  obtain g where "evaluate_rule r x = Inr g" using Cons.prems [of r] by (auto simp: is_ok_iff)
  with fs show ?case by (simp add: evaluate_all_def)
qed (simp add: evaluate_all_def)

lemma scan_set:
  assumes "engine_scan reg subjects switches = Inr report"
  shows "f \<in> set (rp_findings report) \<longleftrightarrow>
    (\<exists>x \<in> set subjects. \<exists>r \<in> set (enabled_rules reg switches). \<exists>gs. evaluate_rule r x = Inr gs \<and> f \<in> set gs)"
proof -
  let ?rs = "enabled_rules reg switches"
  obtain fss where fss: "traverse (evaluate_all ?rs) subjects = Inr fss" "report = report_of (concat fss)"
    using assms by (cases "traverse (evaluate_all ?rs) subjects") (auto simp: engine_scan_def)
  show ?thesis
  proof
    assume "f \<in> set (rp_findings report)"
    then obtain fs where fs: "fs \<in> set fss" "f \<in> set fs" using fss(2) by auto
    then obtain x where x: "x \<in> set subjects" "evaluate_all ?rs x = Inr fs" using traverse_set [OF fss(1)] by blast
    then show "\<exists>x \<in> set subjects. \<exists>r \<in> set ?rs. \<exists>gs. evaluate_rule r x = Inr gs \<and> f \<in> set gs"
      using evaluate_all_set [OF x(2)] fs(2) by blast
  next
    assume "\<exists>x \<in> set subjects. \<exists>r \<in> set ?rs. \<exists>gs. evaluate_rule r x = Inr gs \<and> f \<in> set gs"
    then obtain x r gs where x: "x \<in> set subjects" "r \<in> set ?rs" "evaluate_rule r x = Inr gs" "f \<in> set gs" by blast
    then obtain fs where fs: "fs \<in> set fss" "evaluate_all ?rs x = Inr fs" using traverse_set' [OF fss(1) x(1)] by blast
    then have "f \<in> set fs" using evaluate_all_set [OF fs(2)] x(2-4) by blast
    then have "f \<in> set (concat fss)" using fs(1) unfolding set_concat by blast
    then show "f \<in> set (rp_findings report)" unfolding fss(2) set_report .
  qed
qed

section \<open>Properties\<close>

text \<open>A report holds exactly the findings it was made of, ordered by severity, then
  strictness, then rule id, and findings equal in all three keep their order.\<close>

theorem report_stable_order:
  "sorted_wrt (\<lambda>a b. compare_findings a b \<le> 0) (rp_findings (report_of fs)) \<and>
   mset (rp_findings (report_of fs)) = mset fs \<and>
   filter (\<lambda>f. finding_rank f = k) (rp_findings (report_of fs)) = filter (\<lambda>f. finding_rank f = k) fs"
proof -
  have "sorted (map finding_rank (sort_key finding_rank fs))" by simp
  then have "sorted_wrt (\<lambda>a b. compare_findings a b \<le> 0) (sort_key finding_rank fs)"
    by (simp add: sorted_map compare_findings_rank)
  then show ?thesis by (simp add: report_findings sort_key_stable)
qed

text \<open>Concatenated reports are the report of all findings together.\<close>

lemma report_concat_flat:
  "report_concat (report_of fs) (report_of gs) = report_of (fs @ gs)"
proof -
  have "sort_key finding_rank (sort_key finding_rank fs @ sort_key finding_rank gs) = sort_key finding_rank (fs @ gs)"
    by (rule properties_for_sort_key) (simp_all add: sort_key_stable')
  then show ?thesis
    by (simp add: report_concat_def report_of_def array_sort_rank)
qed

text \<open>The worst finding is the first one.\<close>

lemma worst_fold:
  "foldl (\<lambda>worst f. if is_at_least (fd_severity f) worst then fd_severity f else worst) w fs =
     foldl (\<lambda>worst f. max worst (fd_severity f)) w fs" for fs :: "finding list"
proof -
  have "(\<lambda>worst (f :: finding). if is_at_least (fd_severity f) worst then fd_severity f else worst) =
      (\<lambda>worst f. max worst (fd_severity f))"
    by (auto simp: fun_eq_iff max_def is_at_least_def less_eq_severity_def)
  then show ?thesis by (simp only:)
qed

lemma fold_max_bound: "\<forall>f \<in> set fs. fd_severity f \<le> w \<Longrightarrow> foldl (\<lambda>worst f. max worst (fd_severity f)) w fs = w"
  by (induction fs) (auto simp: max_def)

lemma worst_first:
  assumes "rp_findings (report_of fs) = f # rest"
  shows "worst_severity (report_of fs) = fd_severity f"
proof -
  have "sorted (map finding_rank (f # rest))"
    using report_findings [of fs] assms by (metis sorted_sort_key)
  then have "\<forall>g \<in> set rest. fd_severity g \<le> fd_severity f"
    by (auto simp: finding_rank_def less_eq_severity_def)
  moreover have "max Low (fd_severity f) = fd_severity f"
    by (cases "fd_severity f") (simp_all add: max_def less_eq_severity_def)
  ultimately show ?thesis
    using fold_max_bound [of rest "fd_severity f"] assms by (simp add: worst_severity_def worst_fold)
qed

text \<open>No configuration removes a refusal: whatever is switched off, what a blocking
  rule of the registry finds in a scanned subject is in the report of the scan.\<close>

theorem refusals_not_configurable:
  assumes "engine_scan reg subjects switches = Inr report"
    and "r \<in> set (rr_rules reg)" "ru_disposition r = Block"
    and "x \<in> set subjects" "evaluate_rule r x = Inr gs" "f \<in> set gs"
  shows "f \<in> set (rp_findings report)"
proof -
  have "r \<in> set (enabled_rules reg switches)" using assms(2,3) by (simp add: enabled_rules_def stops_def)
  then show ?thesis using scan_set [OF assms(1)] assms(4-6) by blast
qed

definition sample_rule :: "disposition \<Rightarrow> string rule" where
  "sample_rule d =
     (let i = \<lparr>ri_id = \<lparr>rid_value = ''AG-B001'', rid_category = ''B'', rid_number = 1\<rparr>, ri_severity = High,
                ri_disposition = d, ri_title = ''t'', ri_remediation = ''r''\<rparr>
      in mk_rule i (\<lambda>s. Inr (s \<noteq> [])) (\<lambda>s. Inr [make_finding i (draft ''t'' s s)]))"

lemma refusals_not_configurable_witness:
  "\<exists>f report. engine_scan \<lparr>rr_rules = [sample_rule Block]\<rparr> [[], ''x''] (\<lambda>_. False) = Inr report \<and>
     f \<in> set (rp_findings report) \<and> fd_subject f = ''x''"
proof -
  let ?reg = "\<lparr>rr_rules = [sample_rule Block]\<rparr>"
  obtain g where g: "evaluate_rule (sample_rule Block) ''x'' = Inr [g]" "fd_subject g = ''x''"
    by (auto simp: evaluate_rule_def sample_rule_def mk_rule_def make_finding_def draft_def Let_def)
  have none: "evaluate_rule (sample_rule Block) [] = Inr []"
    by (simp add: evaluate_rule_def sample_rule_def mk_rule_def Let_def)
  have b: "ru_disposition (sample_rule Block) = Block" by (simp add: sample_rule_def mk_rule_def Let_def)
  then have "enabled_rules ?reg (\<lambda>_. False) = [sample_rule Block]" by (simp add: enabled_rules_def stops_def)
  then obtain report where r: "engine_scan ?reg [[], ''x''] (\<lambda>_. False) = Inr report"
    using g none by (simp add: engine_scan_def evaluate_all_def)
  moreover have "g \<in> set (rp_findings report)"
    by (rule refusals_not_configurable [OF r _ b _ g(1)]) auto
  ultimately show ?thesis using g(2) by blast
qed

end
