(* ===== verification/ToolRules.thy ===== *)
theory ToolRules
  imports Findings
begin

text \<open>
  \<open>src/domain/rules/toolcall/\<close>: the refusals (family B, \<open>blocking.ts\<close>) and the
  irreversible actions (family A, \<open>actions.ts\<close>) that a tool call is judged by. The
  regular expressions are written out as tests on the text. The lemmas show that the rules
  never throw where the paths of the call can be computed, and what makes each refusal fire.
  The apostrophe of two remediation texts, outside the modelled characters, is written as
  its UTF-8 bytes.
\<close>

definition the_rule_id :: "string \<Rightarrow> rule_id" where
  "the_rule_id raw =
     (case rule_id_of raw of
        Inr i \<Rightarrow> i | Inl _ \<Rightarrow> \<lparr>rid_value = raw, rid_category = [], rid_number = 0\<rparr>)"

definition rule_info_of :: "string \<Rightarrow> severity \<Rightarrow> disposition \<Rightarrow> string \<Rightarrow> string \<Rightarrow> rule_info" where
  "rule_info_of raw s d title remediation =
     \<lparr>ri_id = the_rule_id raw, ri_severity = s, ri_disposition = d, ri_title = title,
      ri_remediation = remediation\<rparr>"

definition right_quote :: string where
  "right_quote = [CHR 0xE2, CHR 0x80, CHR 0x99]"

definition call_display :: "abs_path \<Rightarrow> tool_call \<Rightarrow> string" where
  "call_display p call = to_display p (ctx_home (tc_context call))"

text \<open>A rule that reports the paths of the call that satisfy a test.\<close>

definition report_paths :: "rule_info \<Rightarrow> (abs_path \<Rightarrow> bool) \<Rightarrow> (abs_path \<Rightarrow> string) \<Rightarrow> tool_call \<Rightarrow> finding list res" where
  "report_paths i test detail call =
     rmap (\<lambda>ps. map (\<lambda>p. make_finding i (draft (ri_title i) (detail p) (call_display p call))) (filter test ps))
       (call_paths call)"

section \<open>AG-B001: protected paths\<close>

definition sensitive_path_info :: rule_info where
  "sensitive_path_info = rule_info_of ''AG-B001'' Critical Block ''Tool call reaches for a protected path''
     (''Access to credentials, persistence and shell history is configured by editing '' @
      ''~/.agentkeeper/allowlist.json in a text editor. There is no prompt for it, by design.'')"

definition sensitive_path_applies :: "tool_call \<Rightarrow> bool res" where
  "sensitive_path_applies call = rmap (\<lambda>ps. length ps > 0) (call_paths call)"

definition sensitive_path_detail :: "registry \<Rightarrow> tool_call \<Rightarrow> abs_path \<Rightarrow> string" where
  "sensitive_path_detail reg call p =
     tc_tool call @ '' would '' @ access_name (call_access call) @ '' '' @ call_display p call @ ''. '' @
     (case decision_explanation (decide reg p (call_access call) (tc_context call)) of
        Some e \<Rightarrow> sp_rationale e
      | None \<Rightarrow> ''This path holds credentials or grants persistence.'')"

definition sensitive_path_inspect :: "registry \<Rightarrow> tool_call \<Rightarrow> finding list res" where
  "sensitive_path_inspect reg call =
     report_paths sensitive_path_info
       (\<lambda>p. \<not> can_be_granted_at_runtime (decision_tier (decide reg p (call_access call) (tc_context call))))
       (sensitive_path_detail reg call) call"

definition sensitive_path_rule :: "registry \<Rightarrow> tool_call rule" where
  "sensitive_path_rule reg =
     mk_rule sensitive_path_info sensitive_path_applies (sensitive_path_inspect reg)"

section \<open>AG-B002: environment files of other projects\<close>

definition is_env_file :: "abs_path \<Rightarrow> bool" where
  "is_env_file p = (basename p = ''.env'' \<or> starts_with (basename p) ''.env.'')"

definition foreign_env_info :: rule_info where
  "foreign_env_info = rule_info_of ''AG-B002'' Critical Block
     ''Tool call reads an environment file outside the workspace''
     (''The current project'' @ right_quote @ ''s own .env is available. Another project'' @ right_quote @
      ''s is not, and no task in this '' @ ''repository needs it.'')"

definition foreign_env_applies :: "tool_call \<Rightarrow> bool res" where
  "foreign_env_applies call = rmap (list_ex is_env_file) (call_paths call)"

definition foreign_env_inspect :: "tool_call \<Rightarrow> finding list res" where
  "foreign_env_inspect call =
     report_paths foreign_env_info
       (\<lambda>p. is_env_file p \<and> \<not> contains (ctx_workspace (tc_context call)) p)
       (\<lambda>p. tc_tool call @ '' would read '' @ call_display p call @ '', which belongs to another project.'') call"

definition foreign_env_rule :: "tool_call rule" where
  "foreign_env_rule = mk_rule foreign_env_info foreign_env_applies foreign_env_inspect"

section \<open>AG-B003: the configuration of agents\<close>

text \<open>
  The pattern \<open>AGENT_CONFIG\<close>: the last segment of the value is \<open>.<agent>.json\<close>, or the
  last two are \<open>.<agent>\<close> and a name that starts with \<open>settings\<close> or \<open>mcp\<close> and ends
  with \<open>.json\<close> after it.
\<close>

definition agent_names :: "string list" where
  "agent_names = [''claude'', ''gemini'', ''cursor'', ''codex'', ''aider'']"

definition settings_words :: "string list" where
  "settings_words = [''settings'', ''mcp'']"

definition agent_settings_name :: "string \<Rightarrow> bool" where
  "agent_settings_name seg =
     list_ex (\<lambda>w. starts_with seg w \<and> ends_with (drop (length w) seg) ''.json'') settings_words"

definition is_agent_config :: "string \<Rightarrow> bool" where
  "is_agent_config v =
     (let segs = split_on slash v; l = last segs; dir = last (butlast segs)
      in l \<in> set (map (\<lambda>a. CHR ''.'' # a @ ''.json'') agent_names) \<or>
         length segs > 1 \<and> dir \<in> set (map (\<lambda>a. CHR ''.'' # a) agent_names) \<and> agent_settings_name l)"

definition agent_config_info :: rule_info where
  "agent_config_info = rule_info_of ''AG-B003'' Critical Block ''Tool call writes agent configuration''
     (''Hooks and MCP servers written here run on the next session start. Change agent settings '' @
      ''yourself, in your editor.'')"

definition agent_config_applies :: "tool_call \<Rightarrow> bool res" where
  "agent_config_applies call = Inr (call_access call = Write \<or> is_shell call)"

definition agent_config_inspect :: "tool_call \<Rightarrow> finding list res" where
  "agent_config_inspect call =
     report_paths agent_config_info (\<lambda>p. is_agent_config (ap_value p))
       (\<lambda>p. tc_tool call @ '' would write '' @ call_display p call @ '', which executes on the next start.'') call"

definition agent_config_rule :: "tool_call rule" where
  "agent_config_rule = mk_rule agent_config_info agent_config_applies agent_config_inspect"

section \<open>AG-B004: where git looks for hooks\<close>

definition git_hooks_info :: rule_info where
  "git_hooks_info = rule_info_of ''AG-B004'' Critical Block ''Tool call changes where git looks for hooks''
     (''core.hooksPath makes every git operation run code from a directory of the setter'' @ right_quote @ ''s '' @
      ''choosing. Set it yourself if you need it.'')"

definition shell_applies :: "tool_call \<Rightarrow> bool res" where
  "shell_applies call = Inr (is_shell call)"

definition git_hooks_inspect :: "tool_call \<Rightarrow> finding list res" where
  "git_hooks_inspect call =
     (case call_command call of
        None \<Rightarrow> Inr []
      | Some c \<Rightarrow> Inr (map (\<lambda>s. make_finding git_hooks_info
            (draft (ri_title git_hooks_info) (''The command sets core.hooksPath: '' @ segment_text s) (segment_text s)))
          (filter (\<lambda>s. list_ex (\<lambda>t. contains_str t ''core.hooksPath'') (sg_tokens s))
            (filter (\<lambda>s. ''config'' \<in> set (sg_tokens s)) (invocations_of c ''git'')))))"

definition git_hooks_rule :: "tool_call rule" where
  "git_hooks_rule = mk_rule git_hooks_info shell_applies git_hooks_inspect"

section \<open>AG-B005: agentkeeper itself\<close>

definition self_protection_info :: rule_info where
  "self_protection_info = rule_info_of ''AG-B005'' Critical Block ''Tool call modifies agentkeeper itself''
     (''Grants are added by editing ~/.agentkeeper/allowlist.json yourself. That gap between asking '' @
      ''and receiving is the whole permission model; a tool call cannot close it.'')"

text \<open>The pattern \<open>/agentkeeper\s+(grants|uninstall|pause)/\<close>.\<close>

definition reconfigures :: "string \<Rightarrow> bool" where
  "reconfigures raw =
     list_ex (\<lambda>t. starts_with t ''agentkeeper'' \<and>
        (let rest = drop 11 t; word = dropWhile is_space rest
         in rest \<noteq> word \<and> list_ex (starts_with word) [''grants'', ''uninstall'', ''pause'']))
       (suffixes raw)"

definition self_protection_inspect :: "tool_call \<Rightarrow> finding list res" where
  "self_protection_inspect call =
     rbind (path_join (ctx_home (tc_context call)) [''.agentkeeper'']) (\<lambda>state_dir.
     rmap (\<lambda>fs. fs @
         (case call_command call of
            None \<Rightarrow> []
          | Some c \<Rightarrow>
              if reconfigures (sc_raw c)
              then [make_finding self_protection_info (draft (ri_title self_protection_info)
                      (''The command would reconfigure agentkeeper: '' @ sc_raw c) (sc_raw c))]
              else []))
       (report_paths self_protection_info (contains state_dir)
          (\<lambda>p. tc_tool call @ '' would modify '' @ call_display p call @ ''.'') call))"

definition self_protection_rule :: "tool_call rule" where
  "self_protection_rule = mk_rule self_protection_info (\<lambda>_. Inr True) self_protection_inspect"

section \<open>AG-B006: isolation switched off\<close>

definition bypass_info :: rule_info where
  "bypass_info = rule_info_of ''AG-B006'' Critical Block
     ''Tool call tries to start a command with isolation disabled''
     (''AGENTKEEPER_BYPASS exists so *you* can skip the wrapper from your own shell. Reaching it '' @
      ''from inside the agent would make the wrapper optional, which is the same as absent.'')"

definition bypass_inspect :: "tool_call \<Rightarrow> finding list res" where
  "bypass_inspect call =
     (case call_command call of
        None \<Rightarrow> Inr []
      | Some c \<Rightarrow>
          if \<not> list_ex (\<lambda>(name, _). name = ''AGENTKEEPER_BYPASS'') (command_assignments c) \<and>
             \<not> contains_str (sc_raw c) ''AGENTKEEPER_BYPASS''
          then Inr []
          else Inr [make_finding bypass_info
                 (draft (ri_title bypass_info) (''The command sets AGENTKEEPER_BYPASS: '' @ sc_raw c) (sc_raw c))])"

definition bypass_rule :: "tool_call rule" where
  "bypass_rule = mk_rule bypass_info shell_applies bypass_inspect"

definition blocking_rules :: "registry \<Rightarrow> tool_call rule list" where
  "blocking_rules reg =
     [sensitive_path_rule reg, foreign_env_rule, agent_config_rule, git_hooks_rule, self_protection_rule, bypass_rule]"

section \<open>Family A: irreversible actions\<close>

text \<open>The base class \<open>ShellActionRule\<close>: one finding for every command of the line that
  matches.\<close>

definition action_info :: "string \<Rightarrow> severity \<Rightarrow> string \<Rightarrow> string \<Rightarrow> rule_info" where
  "action_info raw s title remediation = rule_info_of raw s Ask title remediation"

definition shell_action_applies :: "tool_call \<Rightarrow> bool res" where
  "shell_action_applies call = Inr (is_shell call \<and> call_command call \<noteq> None)"

definition shell_action_inspect ::
  "rule_info \<Rightarrow> (shell_segment \<Rightarrow> tool_call \<Rightarrow> bool) \<Rightarrow> string \<Rightarrow> tool_call \<Rightarrow> finding list res" where
  "shell_action_inspect i test text call =
     (case call_command call of
        None \<Rightarrow> Inr []
      | Some c \<Rightarrow> Inr (map (\<lambda>s. make_finding i (draft (ri_title i) (text @ segment_text s) (segment_text s)))
          (filter (\<lambda>s. test s call) (sc_segments c))))"

definition shell_action_rule :: "rule_info \<Rightarrow> (shell_segment \<Rightarrow> tool_call \<Rightarrow> bool) \<Rightarrow> string \<Rightarrow> tool_call rule" where
  "shell_action_rule i test text = mk_rule i shell_action_applies (shell_action_inspect i test text)"

definition protected_branches :: "string list" where
  "protected_branches = [''main'', ''master'', ''release'', ''production'']"

definition force_push_matches :: "shell_segment \<Rightarrow> tool_call \<Rightarrow> bool" where
  "force_push_matches s call =
     (if \<not> runs_program s ''git'' \<or> sg_subcommand s \<noteq> Some ''push'' then False
      else if \<not> has_flag s [''--force'', ''-f'', ''--force-with-lease''] then False
      else list_ex (\<lambda>a. list_ex (\<lambda>b. contains_str a b) protected_branches) (sg_args s))"

definition force_push_rule :: "tool_call rule" where
  "force_push_rule = shell_action_rule
     (action_info ''AG-A001'' High ''Force push to a protected branch''
        ''A force push discards commits on the remote. Confirm the branch and the remote first.'')
     force_push_matches ''The command force-pushes to a protected branch: ''"

definition publish_commands :: "(string \<times> string) list" where
  "publish_commands =
     [(''npm'', ''publish''), (''pnpm'', ''publish''), (''yarn'', ''publish''), (''cargo'', ''publish''),
      (''twine'', ''upload''), (''gem'', ''push'')]"

definition publish_matches :: "shell_segment \<Rightarrow> tool_call \<Rightarrow> bool" where
  "publish_matches s call =
     list_ex (\<lambda>(program, sub). runs_program s program \<and> sg_subcommand s = Some sub) publish_commands"

definition publish_rule :: "tool_call rule" where
  "publish_rule = shell_action_rule
     (action_info ''AG-A002'' Critical ''Package publication''
        (''Publishing puts code under your name onto a registry other people install from. It cannot '' @
         ''be undone.''))
     publish_matches ''The command publishes a package: ''"

definition resolve_target :: "string \<Rightarrow> tool_call \<Rightarrow> abs_path option" where
  "resolve_target arg call =
     (let r = (if starts_with arg ''~'' then Some (from_user_path arg (ctx_home (tc_context call)))
               else if starts_with arg ''/'' then Some (of_path arg)
               else if CHR ''*'' \<in> set arg then None
               else Some (path_join (ctx_workspace (tc_context call)) [arg]))
      in case r of Some (Inr p) \<Rightarrow> Some p | _ \<Rightarrow> None)"

text \<open>The pattern \<open>/^-[a-z]*r/i\<close>.\<close>

definition recursive_flag :: "string \<Rightarrow> bool" where
  "recursive_flag arg =
     (case arg of
        [] \<Rightarrow> False
      | c # cs \<Rightarrow> c = CHR ''-'' \<and> list_ex (\<lambda>x. x = CHR ''r'' \<or> x = CHR ''R'') (takeWhile is_letter cs))"

definition recursive_delete_matches :: "shell_segment \<Rightarrow> tool_call \<Rightarrow> bool" where
  "recursive_delete_matches s call =
     (if \<not> runs_program s ''rm'' then False
      else if \<not> list_ex recursive_flag (sg_args s) then False
      else list_ex (\<lambda>arg. case resolve_target arg call of
                      None \<Rightarrow> True
                    | Some target \<Rightarrow> \<not> contains (ctx_workspace (tc_context call)) target)
             (filter (\<lambda>a. \<not> starts_with a ''-'') (sg_args s)))"

definition recursive_delete_rule :: "tool_call rule" where
  "recursive_delete_rule = shell_action_rule
     (action_info ''AG-A003'' Critical ''Recursive delete outside the workspace''
        ''Check the path. Inside the workspace this is routine; outside it is not.'')
     recursive_delete_matches ''The command deletes recursively outside the workspace: ''"

definition infrastructure :: "(string \<times> string list) list" where
  "infrastructure =
     [(''aws'', [''delete'', ''terminate'', ''put'', ''create'', ''update'', ''modify'']),
      (''gcloud'', [''delete'', ''create'', ''update'', ''deploy'']),
      (''kubectl'', [''delete'', ''apply'', ''patch'', ''scale'', ''drain'']),
      (''terraform'', [''apply'', ''destroy'']),
      (''pulumi'', [''up'', ''destroy''])]"

definition infrastructure_matches :: "shell_segment \<Rightarrow> tool_call \<Rightarrow> bool" where
  "infrastructure_matches s call =
     (case find (\<lambda>e. runs_program s (fst e)) infrastructure of
        None \<Rightarrow> False
      | Some e \<Rightarrow> list_ex (\<lambda>a. a \<in> set (snd e)) (sg_args s))"

definition infrastructure_rule :: "tool_call rule" where
  "infrastructure_rule = shell_action_rule
     (action_info ''AG-A004'' Critical ''Infrastructure change''
        ''This command changes live infrastructure. Confirm the account and the target.'')
     infrastructure_matches ''The command changes infrastructure: ''"

text \<open>The patterns \<open>/^\/:/\<close> and \<open>/^(-v|--volume)?=?\/:\//\<close>.\<close>

definition mounts_host_root :: "string \<Rightarrow> bool" where
  "mounts_host_root arg =
     (starts_with arg ''/:'' \<or>
      list_ex (\<lambda>p. starts_with arg (p @ ''/:/'')) [[], ''='', ''-v'', ''-v='', ''--volume'', ''--volume=''])"

definition docker_escape_matches :: "shell_segment \<Rightarrow> tool_call \<Rightarrow> bool" where
  "docker_escape_matches s call =
     (if \<not> runs_program s ''docker'' \<and> \<not> runs_program s ''podman'' then False
      else list_ex (\<lambda>a. contains_str a ''docker.sock'' \<or> mounts_host_root a \<or> a = ''--privileged'') (sg_args s))"

definition docker_escape_rule :: "tool_call rule" where
  "docker_escape_rule = shell_action_rule
     (action_info ''AG-A005'' High ''Container mounts the host filesystem or the Docker socket''
        (''Mounting / or docker.sock hands the container everything this machine has, including the '' @
         ''files the sandbox is keeping out of reach.''))
     docker_escape_matches ''The command gives a container host-level access: ''"

definition workflow_edit_info :: rule_info where
  "workflow_edit_info = action_info ''AG-A006'' High ''CI workflow modified''
     ''A workflow change runs on the next push, with whatever secrets the job holds. Read the diff.''"

definition workflow_edit_rule :: "tool_call rule" where
  "workflow_edit_rule = mk_rule workflow_edit_info (\<lambda>call. Inr (call_access call = Write))
     (\<lambda>call. report_paths workflow_edit_info (\<lambda>p. contains_str (ap_value p) ''/.github/workflows/'')
        (\<lambda>p. tc_tool call @ '' would modify '' @ call_display p call @ ''.'') call)"

text \<open>The pattern \<open>OUTBOUND_MCP\<close>, which ignores case.\<close>

definition outbound_words :: "string list" where
  "outbound_words = [''send'', ''post'', ''create'', ''publish'', ''notify'', ''email'', ''message'', ''comment'', ''tweet'', ''upload'']"

definition outbound_info :: rule_info where
  "outbound_info = action_info ''AG-A007'' High ''Outbound message through an MCP server''
     (''This sends something out of your machine under your identity. Read what is being sent and '' @
      ''to whom.'')"

definition outbound_rule :: "tool_call rule" where
  "outbound_rule = mk_rule outbound_info (\<lambda>call. Inr (is_mcp call))
     (\<lambda>call. if \<not> list_ex (\<lambda>w. contains_str (to_lower (tc_tool call)) w) outbound_words then Inr []
        else Inr [make_finding outbound_info (draft (ri_title outbound_info)
               (tc_tool call @ '' sends data out of this machine.'') (tc_tool call))])"

definition action_rules :: "tool_call rule list" where
  "action_rules =
     [force_push_rule, publish_rule, recursive_delete_rule, infrastructure_rule, docker_escape_rule,
      workflow_edit_rule, outbound_rule]"

text \<open>The scanner of the container: \<open>toolCallScanner(includeActions)\<close>.\<close>

definition tool_call_scanner :: "registry \<Rightarrow> bool \<Rightarrow> tool_call rule_registry res" where
  "tool_call_scanner reg include_actions =
     rule_registry_of (if include_actions then blocking_rules reg @ action_rules else blocking_rules reg)"

section \<open>Lemmas\<close>

lemmas rule_record_simps = mk_rule_def rule_info_of_def action_info_def shell_action_rule_def

lemma report_paths_ok: "call_paths call = Inr ps \<Longrightarrow> is_ok (report_paths i test detail call)"
  by (simp add: report_paths_def)

text \<open>Where the paths of a call can be computed and the state directory can be named, no
  rule throws.\<close>

lemma blocking_rules_total:
  assumes "call_paths call = Inr ps" "path_join (ctx_home (tc_context call)) [''.agentkeeper''] = Inr d"
    and "r \<in> set (blocking_rules reg)"
  shows "is_ok (evaluate_rule r call)"
  using assms
  by (auto simp: blocking_rules_def evaluate_rule_def rule_record_simps sensitive_path_rule_def foreign_env_rule_def
      agent_config_rule_def git_hooks_rule_def self_protection_rule_def bypass_rule_def report_paths_def
      sensitive_path_applies_def sensitive_path_inspect_def foreign_env_applies_def foreign_env_inspect_def
      agent_config_applies_def agent_config_inspect_def shell_applies_def git_hooks_inspect_def
      self_protection_inspect_def bypass_inspect_def split: option.splits)

lemma shell_action_total: "is_ok (evaluate_rule (shell_action_rule i test text) call)"
  by (simp add: evaluate_rule_def rule_record_simps shell_action_applies_def shell_action_inspect_def split: option.splits)

lemma action_rules_total:
  assumes "call_paths call = Inr ps" and "r \<in> set action_rules"
  shows "is_ok (evaluate_rule r call)"
proof -
  have "is_ok (evaluate_rule workflow_edit_rule call)" "is_ok (evaluate_rule outbound_rule call)"
    using assms(1) by (simp_all add: evaluate_rule_def workflow_edit_rule_def outbound_rule_def mk_rule_def report_paths_def)
  then show ?thesis using assms(2)
    by (auto simp: action_rules_def force_push_rule_def publish_rule_def recursive_delete_rule_def
        infrastructure_rule_def docker_escape_rule_def shell_action_total)
qed

lemma blocking_rules_block: "r \<in> set (blocking_rules reg) \<Longrightarrow> ru_disposition r = Block"
  by (auto simp: blocking_rules_def rule_record_simps sensitive_path_rule_def foreign_env_rule_def
      agent_config_rule_def git_hooks_rule_def self_protection_rule_def bypass_rule_def sensitive_path_info_def
      foreign_env_info_def agent_config_info_def git_hooks_info_def self_protection_info_def bypass_info_def)

lemma scanner_rules:
  assumes "tool_call_scanner reg include = Inr engine"
  shows "set (rr_rules engine) = set (blocking_rules reg) \<union> (if include then set action_rules else {})"
  using assms by (auto simp: tool_call_scanner_def rule_registry_of_def split: if_splits)

text \<open>The registry of the shipped rules is accepted: their ids are distinct.\<close>

lemma rule_ids:
  "map (\<lambda>r. rid_value (ru_id r)) (blocking_rules reg @ action_rules) =
     [''AG-B001'', ''AG-B002'', ''AG-B003'', ''AG-B004'', ''AG-B005'', ''AG-B006'',
      ''AG-A001'', ''AG-A002'', ''AG-A003'', ''AG-A004'', ''AG-A005'', ''AG-A006'', ''AG-A007'']"
proof -
  have ids: "rid_value (the_rule_id ''AG-B001'') = ''AG-B001''" "rid_value (the_rule_id ''AG-B002'') = ''AG-B002''"
    "rid_value (the_rule_id ''AG-B003'') = ''AG-B003''" "rid_value (the_rule_id ''AG-B004'') = ''AG-B004''"
    "rid_value (the_rule_id ''AG-B005'') = ''AG-B005''" "rid_value (the_rule_id ''AG-B006'') = ''AG-B006''"
    "rid_value (the_rule_id ''AG-A001'') = ''AG-A001''" "rid_value (the_rule_id ''AG-A002'') = ''AG-A002''"
    "rid_value (the_rule_id ''AG-A003'') = ''AG-A003''" "rid_value (the_rule_id ''AG-A004'') = ''AG-A004''"
    "rid_value (the_rule_id ''AG-A005'') = ''AG-A005''" "rid_value (the_rule_id ''AG-A006'') = ''AG-A006''"
    "rid_value (the_rule_id ''AG-A007'') = ''AG-A007''" by code_simp+
  show ?thesis
    by (simp add: blocking_rules_def action_rules_def rule_record_simps ids sensitive_path_rule_def foreign_env_rule_def
        agent_config_rule_def git_hooks_rule_def self_protection_rule_def bypass_rule_def sensitive_path_info_def
        foreign_env_info_def agent_config_info_def git_hooks_info_def self_protection_info_def bypass_info_def
        force_push_rule_def publish_rule_def recursive_delete_rule_def infrastructure_rule_def docker_escape_rule_def
        workflow_edit_rule_def workflow_edit_info_def outbound_rule_def outbound_info_def)
qed

lemma check_unique_distinct:
  "distinct (map (\<lambda>r. rid_value (ru_id r)) rs) \<Longrightarrow> (\<forall>r \<in> set rs. rid_value (ru_id r) \<notin> seen) \<Longrightarrow>
     check_unique_rules seen rs = Inr ()"
proof (induction rs arbitrary: seen)
  case (Cons r rs)
  have "\<forall>x \<in> set rs. rid_value (ru_id x) \<notin> insert (rid_value (ru_id r)) seen"
    using Cons.prems by (auto simp: image_iff)
  then show ?case using Cons.IH [of "insert (rid_value (ru_id r)) seen"] Cons.prems by simp
qed simp

lemma scanner_built: "\<exists>engine. tool_call_scanner reg include = Inr engine"
proof -
  have "distinct (map (\<lambda>r. rid_value (ru_id r)) (blocking_rules reg @ action_rules))"
    unfolding rule_ids by simp
  then have "check_unique_rules {} (if include then blocking_rules reg @ action_rules else blocking_rules reg) = Inr ()"
    by (intro check_unique_distinct) (auto simp: if_splits)
  then show ?thesis by (simp add: tool_call_scanner_def rule_registry_of_def)
qed

text \<open>Cutting a text at its slashes.\<close>

lemma split_last:
  assumes "pre = [] \<or> last pre = slash" "slash \<notin> set x"
  shows "\<exists>rest. split_on slash (pre @ x) = rest @ [x]"
proof (cases "pre = []")
  case False
  then obtain u where "pre = u @ [slash]" using assms(1) by (metis append_butlast_last_id)
  then have "split_on slash (pre @ x) = split_on slash u @ split_on slash x"
    using split_by_append [of "\<lambda>c. c = slash" slash u x] by simp
  then show ?thesis using assms(2) split_by_none [of x "\<lambda>c. c = slash"] by auto
next
  case True
  have "split_on slash x = [x]" using assms(2) by (intro split_by_none) auto
  then show ?thesis using True by (intro exI [of _ "[]"]) simp
qed

lemma split_last_two:
  assumes "pre = [] \<or> last pre = slash" "slash \<notin> set x" "slash \<notin> set y"
  shows "\<exists>rest. split_on slash (pre @ x @ slash # y) = rest @ [x, y]"
proof -
  obtain rest where "split_on slash (pre @ x) = rest @ [x]" using split_last [OF assms(1,2)] by blast
  moreover have "split_on slash ((pre @ x) @ slash # y) = split_on slash (pre @ x) @ split_on slash y"
    by (rule split_by_append) simp
  ultimately show ?thesis using assms(3) split_by_none [of y "\<lambda>c. c = slash"] by auto
qed

lemma joined_last:
  assumes "split_on slash v = rest @ [x]"
  shows "\<exists>pre. v = pre @ x \<and> (pre = [] \<or> last pre = slash)"
proof (cases "rest = []")
  case True
  then show ?thesis using join_split [of slash v] assms by (intro exI [of _ "[]"]) simp
next
  case False
  then have "v = join [slash] rest @ [slash] @ x" using join_split [of slash v] assms by (simp add: join_append)
  then show ?thesis by (intro exI [of _ "join [slash] rest @ [slash]"]) simp
qed

lemma agent_name_no_slash: "a \<in> set agent_names \<Longrightarrow> slash \<notin> set a"
  by (auto simp: agent_names_def)

lemma settings_words_no_slash: "w \<in> set settings_words \<Longrightarrow> slash \<notin> set w"
  by (auto simp: settings_words_def)

lemma agent_settings_name_iff:
  "agent_settings_name l \<longleftrightarrow> (\<exists>w mid. w \<in> set settings_words \<and> l = w @ mid @ ''.json'')"
proof
  assume "agent_settings_name l"
  then obtain w where w: "w \<in> set settings_words" "starts_with l w" "ends_with (drop (length w) l) ''.json''"
    unfolding agent_settings_name_def list_ex_iff by blast
  then obtain mid where "drop (length w) l = mid @ ''.json''" unfolding suffix_def by blast
  moreover have "l = w @ drop (length w) l" using w(2) by (auto simp: prefix_def)
  ultimately show "\<exists>w mid. w \<in> set settings_words \<and> l = w @ mid @ ''.json''" using w(1) by metis
next
  assume "\<exists>w mid. w \<in> set settings_words \<and> l = w @ mid @ ''.json''"
  then obtain w mid where w: "w \<in> set settings_words" and l: "l = w @ mid @ ''.json''" by blast
  have "starts_with l w \<and> ends_with (drop (length w) l) ''.json''" unfolding l by (simp add: suffix_def)
  then show "agent_settings_name l" using w unfolding agent_settings_name_def list_ex_iff by blast
qed

lemma agent_config_split:
  assumes "v = pre @ CHR ''.'' # a @ tail" "pre = [] \<or> last pre = slash" "a \<in> set agent_names"
    and "tail = ''.json'' \<or> (\<exists>l. tail = slash # l \<and> slash \<notin> set l \<and> agent_settings_name l)"
  shows "is_agent_config v"
  using assms(4)
proof
  assume t: "tail = ''.json''"
  then have "slash \<notin> set (CHR ''.'' # a @ tail)" using agent_name_no_slash [OF assms(3)] by simp
  then obtain rest where "split_on slash v = rest @ [CHR ''.'' # a @ tail]"
    using split_last [OF assms(2)] assms(1) by blast
  then show ?thesis using assms(3) t by (auto simp: is_agent_config_def Let_def)
next
  assume "\<exists>l. tail = slash # l \<and> slash \<notin> set l \<and> agent_settings_name l"
  then obtain l where l: "tail = slash # l" "slash \<notin> set l" "agent_settings_name l" by blast
  have "slash \<notin> set (CHR ''.'' # a)" using agent_name_no_slash [OF assms(3)] by simp
  then obtain rest where "split_on slash v = rest @ [CHR ''.'' # a, l]"
    using split_last_two [OF assms(2) _ l(2), of "CHR ''.'' # a"] assms(1) l(1) by auto
  then show ?thesis using assms(3) l(3) by (simp add: is_agent_config_def butlast_append)
qed

section \<open>Properties\<close>

text \<open>The test for agent configuration decides the language of the pattern
  \<open>(^|/).(agent)(.json|/(settings|mcp)[^/]*.json)$\<close>.\<close>

theorem agent_config_pattern:
  "is_agent_config v \<longleftrightarrow>
    (\<exists>pre a tail. v = pre @ CHR ''.'' # a @ tail \<and> (pre = [] \<or> last pre = slash) \<and> a \<in> set agent_names \<and>
       (tail = ''.json'' \<or>
        (\<exists>w mid. w \<in> set settings_words \<and> slash \<notin> set mid \<and> tail = slash # w @ mid @ ''.json'')))"
proof
  assume v: "is_agent_config v"
  obtain rest l where s: "split_on slash v = rest @ [l]" by (metis split_by_not_Nil rev_exhaust)
  show "\<exists>pre a tail. v = pre @ CHR ''.'' # a @ tail \<and> (pre = [] \<or> last pre = slash) \<and> a \<in> set agent_names \<and>
       (tail = ''.json'' \<or>
        (\<exists>w mid. w \<in> set settings_words \<and> slash \<notin> set mid \<and> tail = slash # w @ mid @ ''.json''))"
  proof (cases "l \<in> set (map (\<lambda>a. CHR ''.'' # a @ ''.json'') agent_names)")
    case True
    then obtain a where "a \<in> set agent_names" "l = CHR ''.'' # a @ ''.json''" by auto
    then show ?thesis using joined_last [OF s] by blast
  next
    case False
    then have r: "rest \<noteq> []" "agent_settings_name l" "last rest \<in> set (map (\<lambda>a. CHR ''.'' # a) agent_names)"
      using v s by (auto simp: is_agent_config_def Let_def)
    then obtain a where a: "a \<in> set agent_names" "last rest = CHR ''.'' # a" by auto
    obtain w mid where l: "w \<in> set settings_words" "l = w @ mid @ ''.json''"
      using r(2) unfolding agent_settings_name_iff by blast
    have "slash \<notin> set l" using split_by_elem [of l "\<lambda>c. c = slash" v slash] s by auto
    then have "slash \<notin> set mid" using l(2) by simp
    have v: "v = join [slash] rest @ slash # l" using join_split [of slash v] s r(1) by (simp add: join_append)
    have "split_on slash (join [slash] rest) = rest"
      using split_by_elem [of _ "\<lambda>c. c = slash" v slash] s r(1) by (intro split_join) auto
    then obtain pre where "join [slash] rest = pre @ CHR ''.'' # a" "pre = [] \<or> last pre = slash"
      using joined_last [of "join [slash] rest" "butlast rest" "CHR ''.'' # a"] a(2) r(1)
      by (metis append_butlast_last_id)
    then show ?thesis using v a(1) l \<open>slash \<notin> set mid\<close>
      by (intro exI [of _ pre] exI [of _ a] exI [of _ "slash # l"]) auto
  qed
next
  assume "\<exists>pre a tail. v = pre @ CHR ''.'' # a @ tail \<and> (pre = [] \<or> last pre = slash) \<and> a \<in> set agent_names \<and>
       (tail = ''.json'' \<or>
        (\<exists>w mid. w \<in> set settings_words \<and> slash \<notin> set mid \<and> tail = slash # w @ mid @ ''.json''))"
  then obtain pre a tail where r: "v = pre @ CHR ''.'' # a @ tail" "pre = [] \<or> last pre = slash" "a \<in> set agent_names"
    "tail = ''.json'' \<or> (\<exists>w mid. w \<in> set settings_words \<and> slash \<notin> set mid \<and> tail = slash # w @ mid @ ''.json'')"
    by blast
  from r(4) have "tail = ''.json'' \<or> (\<exists>l. tail = slash # l \<and> slash \<notin> set l \<and> agent_settings_name l)"
  proof
    assume "\<exists>w mid. w \<in> set settings_words \<and> slash \<notin> set mid \<and> tail = slash # w @ mid @ ''.json''"
    then obtain w mid where t: "w \<in> set settings_words" "slash \<notin> set mid" "tail = slash # w @ mid @ ''.json''" by blast
    have "agent_settings_name (w @ mid @ ''.json'')" using t(1) agent_settings_name_iff by blast
    moreover have "slash \<notin> set (w @ mid @ ''.json'')" using settings_words_no_slash [OF t(1)] t(2) by simp
    ultimately show ?thesis using t(3) by blast
  qed simp
  then show "is_agent_config v" by (rule agent_config_split [OF r(1-3)])
qed

end
