(* ===== verification/Config.thy ===== *)
theory Config
  imports Json AbsPath
begin

text \<open>
  \<open>src/infrastructure/config/Configuration.ts\<close>: the optional, hand-edited
  \<open>config.json\<close>. \<open>JSON.parse\<close> is a parameter. The lemmas show that an unknown value never
  weakens anything: every field that narrows the protection has to be written exactly.
\<close>

datatype on_unavailable = WarnOnly | FailClosed

datatype notification_mode = NativeNotes | TerminalNotes | NoNotes

record configuration =
  cf_sandbox_enabled :: bool
  cf_starter_profile :: string
  cf_on_unavailable :: on_unavailable
  cf_watch_roots :: "string list"
  cf_watch_home :: bool
  cf_strict_mode :: bool
  cf_notifications :: notification_mode
  cf_rules :: "(string \<times> bool) list"
  cf_retention_days :: int

definition config_defaults :: configuration where
  "config_defaults =
     \<lparr>cf_sandbox_enabled = True, cf_starter_profile = ''web'', cf_on_unavailable = FailClosed,
      cf_watch_roots = [], cf_watch_home = True, cf_strict_mode = False, cf_notifications = NativeNotes,
      cf_rules = [(''categoryA'', False)], cf_retention_days = 90\<rparr>"

definition bool_or :: "bool \<Rightarrow> json option \<Rightarrow> bool" where
  "bool_or d j = (case j of Some (JBool b) \<Rightarrow> b | _ \<Rightarrow> d)"

text \<open>The pattern \<open>/^[a-z0-9][a-z0-9-]{0,63}$/i\<close>.\<close>

definition profile_name_ok :: "string \<Rightarrow> bool" where
  "profile_name_ok s =
     (case s of
        [] \<Rightarrow> False
      | c # cs \<Rightarrow> (is_letter c \<or> is_digit c) \<and> length cs \<le> 63 \<and>
          list_all (\<lambda>x. is_letter x \<or> is_digit x \<or> x = CHR ''-'') cs)"

text \<open>\<open>parseRules\<close>: an entry whose value is no object with a boolean is skipped, and
  assigning to \<open>__proto__\<close> adds no entry.\<close>

definition rule_enabled :: "json \<Rightarrow> bool option" where
  "rule_enabled j =
     (case j of JObject props \<Rightarrow> (case map_of props ''enabled'' of Some (JBool b) \<Rightarrow> Some b | _ \<Rightarrow> None) | _ \<Rightarrow> None)"

fun add_rule_entries :: "(string \<times> json) list \<Rightarrow> (string \<times> bool) list \<Rightarrow> (string \<times> bool) list" where
  "add_rule_entries [] parsed = parsed"
| "add_rule_entries ((i, candidate) # rest) parsed =
     (case rule_enabled candidate of
        None \<Rightarrow> add_rule_entries rest parsed
      | Some b \<Rightarrow> add_rule_entries rest (if i = ''__proto__'' then parsed else map_set i b parsed))"

definition parse_rules :: "json option \<Rightarrow> (string \<times> bool) list" where
  "parse_rules j =
     (case j of Some (JObject props) \<Rightarrow> add_rule_entries props [(''categoryA'', False)] | _ \<Rightarrow> [(''categoryA'', False)])"

definition default_document :: configuration where
  "default_document = config_defaults\<lparr>cf_rules := parse_rules (Some (JObject [(''categoryA'', JObject [(''enabled'', JBool False)])]))\<rparr>"

definition parse_notifications :: "json option \<Rightarrow> notification_mode" where
  "parse_notifications j =
     (case j of
        Some (JString s) \<Rightarrow>
          if s = ''native'' then NativeNotes else if s = ''terminal'' then TerminalNotes
          else if s = ''none'' then NoNotes else cf_notifications config_defaults
      | _ \<Rightarrow> cf_notifications config_defaults)"

definition parse_retention :: "json option \<Rightarrow> int" where
  "parse_retention j =
     (case j of
        Some (JNumber n) \<Rightarrow>
          (case js_integer n of
             Some i \<Rightarrow> if 1 \<le> i \<and> i \<le> 3650 then i else cf_retention_days config_defaults
           | None \<Rightarrow> cf_retention_days config_defaults)
      | _ \<Rightarrow> cf_retention_days config_defaults)"

definition has_version :: "(string \<times> json) list \<Rightarrow> int \<Rightarrow> bool" where
  "has_version props n = (case map_of props ''version'' of Some (JNumber m) \<Rightarrow> js_integer m = Some n | _ \<Rightarrow> False)"

definition parse_document :: "json \<Rightarrow> configuration" where
  "parse_document v =
     (case v of
        JObject props \<Rightarrow>
          (if \<not> has_version props 1
           then default_document
           else let sandbox = (case map_of props ''sandbox'' of Some (JObject s) \<Rightarrow> s | _ \<Rightarrow> [])
             in \<lparr>cf_sandbox_enabled = bool_or (cf_sandbox_enabled config_defaults) (map_of sandbox ''enabled''),
                 cf_starter_profile =
                   (case as_string (map_of sandbox ''starterProfile'') of
                      Some s \<Rightarrow> if profile_name_ok s then s else cf_starter_profile config_defaults
                    | None \<Rightarrow> cf_starter_profile config_defaults),
                 cf_on_unavailable =
                   (case as_string (map_of sandbox ''onUnavailable'') of
                      Some s \<Rightarrow> if s = ''warn'' then WarnOnly else if s = ''fail'' then FailClosed
                        else cf_on_unavailable config_defaults
                    | None \<Rightarrow> cf_on_unavailable config_defaults),
                 cf_watch_roots =
                   (case map_of props ''watchRoots'' of
                      Some (JArray js) \<Rightarrow> concat (map (\<lambda>j. case j of JString s \<Rightarrow> [s] | _ \<Rightarrow> []) js)
                    | _ \<Rightarrow> cf_watch_roots config_defaults),
                 cf_watch_home = bool_or (cf_watch_home config_defaults) (map_of props ''watchHome''),
                 cf_strict_mode = bool_or (cf_strict_mode config_defaults) (map_of props ''strictMode''),
                 cf_notifications = parse_notifications (map_of props ''notifications''),
                 cf_rules = parse_rules (map_of props ''rules''),
                 cf_retention_days = parse_retention (map_of props ''logRetentionDays'')\<rparr>)
      | _ \<Rightarrow> default_document)"

text \<open>\<open>load\<close>: what is read of the file, and what \<open>JSON.parse\<close> makes of it.\<close>

definition load_config :: "(string \<Rightarrow> json option) \<Rightarrow> string option res \<Rightarrow> configuration res" where
  "load_config json_parse raw =
     rbind raw (\<lambda>r. Inr
       (case r of
          None \<Rightarrow> default_document
        | Some text \<Rightarrow> (case json_parse text of Some v \<Rightarrow> parse_document v | None \<Rightarrow> default_document)))"

definition config_is_enabled :: "configuration \<Rightarrow> string \<Rightarrow> bool" where
  "config_is_enabled c rule_id =
     (case map_of (cf_rules c) rule_id of
        Some b \<Rightarrow> b
      | None \<Rightarrow> (case map_of (cf_rules c) (''category'' @ take 1 (drop 3 rule_id)) of Some b \<Rightarrow> b | None \<Rightarrow> True))"

definition config_watch_roots :: "configuration \<Rightarrow> abs_path \<Rightarrow> abs_path list" where
  "config_watch_roots c home =
     concat (map (\<lambda>raw. case from_user_path raw home of Inr p \<Rightarrow> [p] | Inl _ \<Rightarrow> []) (cf_watch_roots c))"

section \<open>Lemmas\<close>

lemma default_document_eq: "default_document = config_defaults"
  by (simp add: default_document_def config_defaults_def parse_rules_def rule_enabled_def)

lemma add_rule_entries_category:
  "map_of parsed k \<noteq> None \<Longrightarrow> map_of (add_rule_entries props parsed) k \<noteq> None"
  by (induction props parsed rule: add_rule_entries.induct) (auto simp: map_of_map_set split: option.splits)

lemma add_rule_entries_source:
  "map_of (add_rule_entries props parsed) k = Some b \<Longrightarrow> map_of parsed k = Some b \<or>
     (\<exists>j. (k, j) \<in> set props \<and> rule_enabled j = Some b)"
proof (induction props parsed rule: add_rule_entries.induct)
  case (2 i candidate rest parsed)
  show ?case
  proof (cases "rule_enabled candidate")
    case None
    then show ?thesis using 2 by auto
  next
    case (Some c)
    then show ?thesis using 2 by (auto simp: map_of_map_set split: if_splits)
  qed
qed simp

text \<open>The fields of a document that is accepted as the current version.\<close>

definition current_document :: "json \<Rightarrow> (string \<times> json) list option" where
  "current_document v = (case v of JObject props \<Rightarrow> if has_version props 1 then Some props else None | _ \<Rightarrow> None)"

definition sandbox_field :: "json \<Rightarrow> string \<Rightarrow> json option" where
  "sandbox_field v key =
     (case current_document v of
        Some props \<Rightarrow> (case map_of props ''sandbox'' of Some (JObject s) \<Rightarrow> map_of s key | _ \<Rightarrow> None)
      | None \<Rightarrow> None)"

lemma current_document_Some: "current_document v = Some props \<longleftrightarrow> v = JObject props \<and> has_version props 1"
  by (cases v) (auto simp: current_document_def)

lemma parse_document_old: "current_document v = None \<Longrightarrow> parse_document v = config_defaults"
  by (cases v) (simp_all add: parse_document_def current_document_def default_document_eq split: if_splits)

definition sandbox_of :: "(string \<times> json) list \<Rightarrow> (string \<times> json) list" where
  "sandbox_of props = (case map_of props ''sandbox'' of Some (JObject s) \<Rightarrow> s | _ \<Rightarrow> [])"

lemma sandbox_field_of: "current_document v = Some props \<Longrightarrow> sandbox_field v k = map_of (sandbox_of props) k"
  by (simp add: sandbox_field_def sandbox_of_def split: option.splits json.splits)

lemma warn_only_explicit:
  "(case as_string j of
      Some s \<Rightarrow> if s = ''warn'' then WarnOnly else if s = ''fail'' then FailClosed else FailClosed
    | None \<Rightarrow> FailClosed) = (if as_string j = Some ''warn'' then WarnOnly else FailClosed)"
  by (cases "as_string j") simp_all

lemma parse_document_current:
  assumes "current_document v = Some props"
  shows "cf_sandbox_enabled (parse_document v) = bool_or True (sandbox_field v ''enabled'')"
    and "cf_on_unavailable (parse_document v) =
      (if as_string (sandbox_field v ''onUnavailable'') = Some ''warn'' then WarnOnly else FailClosed)"
    and "cf_rules (parse_document v) = parse_rules (map_of props ''rules'')"
    and "cf_retention_days (parse_document v) = parse_retention (map_of props ''logRetentionDays'')"
proof -
  have v: "v = JObject props" and c: "has_version props 1" using assms by (simp_all add: current_document_Some)
  then have c: "(\<not> has_version props 1) = False" by simp
  note d = parse_document_def json.case c if_False Let_def sandbox_of_def [symmetric]
    configuration.select_convs
  have t: "cf_sandbox_enabled config_defaults" "cf_on_unavailable config_defaults = FailClosed"
    by (simp_all add: config_defaults_def)
  have sf: "sandbox_field (JObject props) k = map_of (sandbox_of props) k" for k
    using sandbox_field_of [OF assms] unfolding v .
  show "cf_sandbox_enabled (parse_document v) = bool_or True (sandbox_field v ''enabled'')"
    unfolding v d sf using t(1) by simp
  show "cf_on_unavailable (parse_document v) =
      (if as_string (sandbox_field v ''onUnavailable'') = Some ''warn'' then WarnOnly else FailClosed)"
    unfolding v d sf t(2) by (rule warn_only_explicit)
  show "cf_rules (parse_document v) = parse_rules (map_of props ''rules'')"
    "cf_retention_days (parse_document v) = parse_retention (map_of props ''logRetentionDays'')"
    unfolding v d by simp_all
qed

section \<open>Properties\<close>

text \<open>A configuration weakens the sandbox only where it says so in so many words:
  the sandbox is off only for a current document whose \<open>sandbox.enabled\<close> is the boolean
  false, and an unavailable sandbox is only a warning where \<open>sandbox.onUnavailable\<close> is the
  text \<open>C27: warn\<close>; family A is on only where an entry for it enables it, and the retention is
  between one day and ten years.\<close>

theorem config_weakens_only_explicitly:
  "(\<not> cf_sandbox_enabled (parse_document v) \<longleftrightarrow> sandbox_field v ''enabled'' = Some (JBool False)) \<and>
   (cf_on_unavailable (parse_document v) = WarnOnly \<longleftrightarrow> sandbox_field v ''onUnavailable'' = Some (JString ''warn'')) \<and>
   (config_is_enabled (parse_document v) ''categoryA'' \<longrightarrow>
      (\<exists>props entries j. current_document v = Some props \<and> map_of props ''rules'' = Some (JObject entries) \<and>
         (''categoryA'', j) \<in> set entries \<and> rule_enabled j = Some True)) \<and>
   1 \<le> cf_retention_days (parse_document v) \<and> cf_retention_days (parse_document v) \<le> 3650"
proof (cases "current_document v")
  case None
  then have "sandbox_field v k = None" for k by (simp add: sandbox_field_def)
  then show ?thesis by (simp add: parse_document_old [OF None] config_defaults_def config_is_enabled_def)
next
  case (Some props)
  note p = parse_document_current [OF Some]
  have off: "\<not> bool_or True j \<longleftrightarrow> j = Some (JBool False)" for j
    by (auto simp: bool_or_def split: option.splits json.splits)
  have str: "as_string j = Some s \<longleftrightarrow> j = Some (JString s)" for j s
    by (auto simp: as_string_def split: option.splits json.splits)
  have retention: "1 \<le> parse_retention j \<and> parse_retention j \<le> 3650" for j
    by (auto simp: parse_retention_def config_defaults_def split: option.splits json.splits)
  have "\<exists>entries j. map_of props ''rules'' = Some (JObject entries) \<and> (''categoryA'', j) \<in> set entries \<and>
      rule_enabled j = Some True" if "config_is_enabled (parse_document v) ''categoryA''"
  proof -
    let ?r = "parse_rules (map_of props ''rules'')"
    have "map_of ?r ''categoryA'' \<noteq> None"
      unfolding parse_rules_def using add_rule_entries_category [of "[(''categoryA'', False)]" "''categoryA''"]
      by (auto split: option.splits json.splits)
    then have "map_of ?r ''categoryA'' = Some True"
      using that by (auto simp: config_is_enabled_def p(3) split: option.splits)
    then obtain entries where "map_of props ''rules'' = Some (JObject entries)"
      "map_of (add_rule_entries entries [(''categoryA'', False)]) ''categoryA'' = Some True"
      by (auto simp: parse_rules_def split: option.splits json.splits)
    then show ?thesis using add_rule_entries_source [of entries "[(''categoryA'', False)]" "''categoryA''" True] by auto
  qed
  then show ?thesis using Some by (simp add: p(1,2,4) off str retention)
qed

lemma config_weakens_only_explicitly_witness:
  "\<not> config_is_enabled (parse_document (JObject [(''version'', JNumber (Decimal 1 0)),
       (''sandbox'', JObject [(''enabled'', JString ''false''), (''onUnavailable'', JString ''continue-anyway'')]),
       (''rules'', JObject [(''categoryA'', JObject [(''enabled'', JString ''true'')])])])) ''categoryA'' \<and>
   cf_sandbox_enabled (parse_document (JObject [(''version'', JNumber (Decimal 1 0)),
       (''sandbox'', JObject [(''enabled'', JString ''false'')])]))"
proof -
  let ?v = "JObject [(''version'', JNumber (Decimal 1 0)),
       (''sandbox'', JObject [(''enabled'', JString ''false''), (''onUnavailable'', JString ''continue-anyway'')]),
       (''rules'', JObject [(''categoryA'', JObject [(''enabled'', JString ''true'')])])]"
  let ?u = "JObject [(''version'', JNumber (Decimal 1 0)), (''sandbox'', JObject [(''enabled'', JString ''false'')])]"
  let ?entries = "[(''categoryA'', JObject [(''enabled'', JString ''true'')])]"
  have u: "sandbox_field ?u ''enabled'' \<noteq> Some (JBool False)" by code_simp
  have "current_document ?v = Some [(''version'', JNumber (Decimal 1 0)),
       (''sandbox'', JObject [(''enabled'', JString ''false''), (''onUnavailable'', JString ''continue-anyway'')]),
       (''rules'', JObject ?entries)]" by code_simp
  moreover have "rule_enabled (JObject [(''enabled'', JString ''true'')]) \<noteq> Some True" by code_simp
  ultimately show ?thesis
    using config_weakens_only_explicitly [of ?v] config_weakens_only_explicitly [of ?u] u by auto
qed

end
