(* ===== verification/Hook.thy ===== *)
theory Hook
  imports ToolRules Config
begin

text \<open>
  \<open>src/application/use-cases/EvaluateToolCall.ts\<close> and
  \<open>src/presentation/cli/commands/HookCommand.ts\<close>: the verdict on a tool call and the hook
  that an agent runs before it. The stores, the audit log and the process environment are
  parameters that may fail. The lemmas give the verdict on every branch, show that a call
  that names a protected path is refused whatever the configuration, the stored decisions
  and the audit log do, and where the hook fails open.
\<close>

section \<open>Verdicts\<close>

text \<open>
  A decision as the store returns it. Its fields are read without a check:
  \<open>UnknownVerdict\<close> is a verdict that is neither of the two words, a subject that is not
  a string is \<open>None\<close>, and \<open>ruleIds\<close> is any value, \<open>None\<close> when it is missing.
\<close>

datatype verdict = Allow | Deny | UnknownVerdict

record stored_decision =
  dc_key :: string
  dc_verdict :: verdict
  dc_subject :: "string option"
  dc_rule_ids :: "json option"
  dc_decided_at :: "int option"

record audit_entry =
  au_at :: "int option"
  au_event :: string
  au_details :: "(string \<times> json) list"

datatype call_decision = AllowCall | DenyCall | AskCall

record tool_call_verdict =
  tv_decision :: call_decision
  tv_reason :: string
  tv_findings :: "finding list"

text \<open>\<open>record\<close>: the entry that is appended; a failing \<open>append\<close> is swallowed.\<close>

definition record_entry :: "int option \<Rightarrow> string \<Rightarrow> tool_call \<Rightarrow> finding list \<Rightarrow> audit_entry" where
  "record_entry now event call fs =
     \<lparr>au_at = now, au_event = event,
      au_details =
        [(''tool'', JString (tc_tool call)),
         (''rules'', JArray (map (\<lambda>f. JString (rid_value (fd_rule f))) fs)),
         (''subjects'', JArray (map (\<lambda>f. JString (fd_subject f)) fs)),
         (''disposition'', JString (disposition_name (strictest (map fd_disposition fs))))]\<rparr>"

definition record_event ::
  "(audit_entry \<Rightarrow> bool) \<Rightarrow> audit_entry \<Rightarrow> audit_entry list \<Rightarrow> audit_entry list" where
  "record_event append_ok e log = (if append_ok e then log @ [e] else log)"

text \<open>The loop over the asking findings: it stops at the first that was denied.\<close>

fun decide_asking :: "(string \<times> stored_decision) list \<Rightarrow> finding list \<Rightarrow> finding list \<Rightarrow> finding + finding list" where
  "decide_asking stored [] undecided = Inr undecided"
| "decide_asking stored (f # fs) undecided =
     (case map_of stored (decision_key f) of
        None \<Rightarrow> decide_asking stored fs (undecided @ [f])
      | Some d \<Rightarrow> if dc_verdict d = Deny then Inl f else decide_asking stored fs undecided)"

definition index_decisions :: "stored_decision list \<Rightarrow> (string \<times> stored_decision) list" where
  "index_decisions ds = foldl (\<lambda>m d. map_set (dc_key d) d m) [] ds"

definition verdict_of :: "call_decision \<Rightarrow> string \<Rightarrow> finding list \<Rightarrow> tool_call_verdict" where
  "verdict_of d reason fs = \<lparr>tv_decision = d, tv_reason = reason, tv_findings = fs\<rparr>"

definition details_text :: "finding list \<Rightarrow> string" where
  "details_text fs = join '' '' (map fd_detail fs)"

text \<open>\<open>execute\<close>: the verdict and the log after it.\<close>

definition evaluate_tool_call ::
  "tool_call rule_registry \<Rightarrow> rule_switches \<Rightarrow> stored_decision list res \<Rightarrow> (audit_entry \<Rightarrow> bool) \<Rightarrow> int option \<Rightarrow>
     tool_call \<Rightarrow> audit_entry list \<Rightarrow> (tool_call_verdict \<times> audit_entry list) res" where
  "evaluate_tool_call engine switches decisions append_ok now call log =
     rbind (engine_scan engine [call] switches) (\<lambda>report.
       if is_clean report then Inr (verdict_of AllowCall ''no rule matched'' [], log)
       else if length (blocking report) > 0 then
         Inr (verdict_of DenyCall (details_text (blocking report)) (blocking report),
              record_event append_ok (record_entry now ''toolcall.blocked'' call (blocking report)) log)
       else rbind decisions (\<lambda>ds.
         case decide_asking (index_decisions ds) (interrupting report) [] of
           Inl f \<Rightarrow>
             Inr (verdict_of DenyCall (fd_detail f) [f],
                  record_event append_ok (record_entry now ''toolcall.denied-by-decision'' call [f]) log)
         | Inr undecided \<Rightarrow>
             if length undecided = 0
             then Inr (verdict_of AllowCall ''previously approved'' (rp_findings report), log)
             else Inr (verdict_of AskCall (details_text undecided) undecided,
                       record_event append_ok (record_entry now ''toolcall.ask'' call undecided) log)))"

section \<open>The hook\<close>

record hook_payload =
  hp_tool_name :: string
  hp_tool_input :: "(string \<times> json) list"
  hp_cwd :: "string option"

text \<open>\<open>parse\<close>. An array passes the test for an object; it has none of the keys that are
  read from the input.\<close>

definition parse_payload :: "(string \<Rightarrow> json option) \<Rightarrow> string \<Rightarrow> hook_payload option" where
  "parse_payload json_parse raw =
     (case json_parse raw of
        Some (JObject props) \<Rightarrow>
          (case as_string (map_of props ''tool_name'') of
             None \<Rightarrow> None
           | Some name \<Rightarrow>
               Some \<lparr>hp_tool_name = name,
                     hp_tool_input = (case map_of props ''tool_input'' of Some (JObject input) \<Rightarrow> input | _ \<Rightarrow> []),
                     hp_cwd = as_string (map_of props ''cwd'')\<rparr>)
      | _ \<Rightarrow> None)"

text \<open>What the hook's process gives it.\<close>

record hook_world =
  hw_config :: "configuration res"
  hw_stdin :: "string res"
  hw_json_parse :: "string \<Rightarrow> json option"
  hw_real_path :: "abs_path \<Rightarrow> abs_path res"
  hw_home :: abs_path
  hw_cwd :: abs_path
  hw_platform :: platform
  hw_registry :: registry
  hw_decisions :: "stored_decision list res"
  hw_append_ok :: "audit_entry \<Rightarrow> bool"
  hw_now :: "int option"

record hook_outcome =
  ho_exit :: nat
  ho_refusal :: "string option"

definition hook_context :: "hook_world \<Rightarrow> hook_payload \<Rightarrow> path_context res" where
  "hook_context w p =
     rbind (hw_real_path w (hw_home w)) (\<lambda>home.
     rbind (rbind (case hp_cwd p of None \<Rightarrow> Inr (hw_cwd w) | Some c \<Rightarrow> of_path c) (hw_real_path w)) (\<lambda>workspace.
     Inr \<lparr>ctx_home = home, ctx_workspace = workspace, ctx_platform = hw_platform w\<rparr>))"

definition hook_verdict :: "hook_world \<Rightarrow> configuration \<Rightarrow> tool_call \<Rightarrow> tool_call_verdict res" where
  "hook_verdict w config call =
     rbind (tool_call_scanner (hw_registry w) (config_is_enabled config ''categoryA'')) (\<lambda>engine.
     rmap fst (evaluate_tool_call engine (config_is_enabled config) (hw_decisions w) (hw_append_ok w) (hw_now w) call []))"

text \<open>The body of the \<open>try\<close> once the configuration is known.\<close>

definition hook_body :: "hook_world \<Rightarrow> configuration \<Rightarrow> hook_outcome res" where
  "hook_body w config =
     rbind (hw_stdin w) (\<lambda>raw.
       case parse_payload (hw_json_parse w) raw of
         None \<Rightarrow> Inr \<lparr>ho_exit = 0, ho_refusal = None\<rparr>
       | Some p \<Rightarrow>
           rbind (hook_context w p) (\<lambda>ctx.
           rbind (hook_verdict w config \<lparr>tc_tool = hp_tool_name p, tc_input = hp_tool_input p, tc_context = ctx\<rparr>) (\<lambda>v.
             Inr \<lparr>ho_exit = 0,
                  ho_refusal = (if tv_decision v = AllowCall then None else Some (tv_reason v))\<rparr>)))"

definition hook_command :: "hook_world \<Rightarrow> string list \<Rightarrow> hook_outcome" where
  "hook_command w args =
     (if args = [] \<or> hd args \<noteq> ''pretooluse'' then \<lparr>ho_exit = 1, ho_refusal = None\<rparr>
      else case hw_config w of
             Inl _ \<Rightarrow> \<lparr>ho_exit = 0, ho_refusal = None\<rparr>
           | Inr config \<Rightarrow>
               (case hook_body w config of
                  Inr outcome \<Rightarrow> outcome
                | Inl _ \<Rightarrow> \<lparr>ho_exit = (if cf_strict_mode config then 1 else 0), ho_refusal = None\<rparr>))"

section \<open>Lemmas\<close>

lemma decide_asking_denied:
  assumes "decide_asking stored fs u = Inl f"
  shows "f \<in> set fs \<and> (\<exists>d. map_of stored (decision_key f) = Some d \<and> dc_verdict d = Deny)"
  using assms
proof (induction stored fs u rule: decide_asking.induct)
  case (2 stored g fs undecided)
  then show ?case by (auto split: option.splits if_splits)
qed simp

lemma decide_asking_undecided:
  assumes "decide_asking stored fs u = Inr undecided"
  shows "undecided = u @ filter (\<lambda>f. map_of stored (decision_key f) = None) fs \<and>
    (\<forall>f \<in> set fs. \<forall>d. map_of stored (decision_key f) = Some d \<longrightarrow> dc_verdict d \<noteq> Deny)"
  using assms
proof (induction stored fs u rule: decide_asking.induct)
  case (2 stored g fs undecided)
  show ?case
  proof (cases "map_of stored (decision_key g)")
    case (Some d)
    then show ?thesis using 2 by (cases "dc_verdict d") auto
  qed (use 2 in auto)
qed simp

lemma is_clean_iff: "is_clean r \<longleftrightarrow> rp_findings r = []"
  by (simp add: is_clean_def)

text \<open>A blocking finding decides, before any decision is read.\<close>

lemma blocked_verdict:
  assumes "engine_scan engine [call] switches = Inr report" "f \<in> set (rp_findings report)"
    "fd_disposition f = Block"
  shows "\<exists>v log'. evaluate_tool_call engine switches decisions append_ok now call log = Inr (v, log') \<and>
    tv_decision v = DenyCall \<and> f \<in> set (tv_findings v)"
proof -
  have "f \<in> set (blocking report)" using assms(2,3) by (simp add: blocking_def stops_def)
  moreover from this have "length (blocking report) > 0" by (auto simp: length_pos_if_in_set)
  moreover have "\<not> is_clean report" using assms(2) by (auto simp: is_clean_iff)
  ultimately show ?thesis using assms(1) by (simp add: evaluate_tool_call_def verdict_of_def)
qed

text \<open>The scan of a call whose paths can be computed does not throw.\<close>

lemma scan_total:
  assumes "tool_call_scanner reg include = Inr engine" "call_paths call = Inr ps"
    "path_join (ctx_home (tc_context call)) [''.agentkeeper''] = Inr d"
  shows "\<exists>report. engine_scan engine [call] switches = Inr report"
proof -
  have "is_ok (evaluate_all (enabled_rules engine switches) call)"
  proof (rule evaluate_all_ok)
    fix r
    assume "r \<in> set (enabled_rules engine switches)"
    then have "r \<in> set (blocking_rules reg) \<or> r \<in> set action_rules"
      using scanner_rules [OF assms(1)] by (auto simp: enabled_rules_def split: if_splits)
    then show "is_ok (evaluate_rule r call)"
      using blocking_rules_total [OF assms(2,3)] action_rules_total [OF assms(2)] by blast
  qed
  then show ?thesis by (auto simp: engine_scan_def is_ok_iff)
qed

lemma sensitive_path_reported:
  assumes "call_paths call = Inr ps" "p \<in> set ps"
    "tier_of reg p (call_access call) (tc_context call) = Dangerous"
  shows "\<exists>gs f. evaluate_rule (sensitive_path_rule reg) call = Inr gs \<and> f \<in> set gs \<and>
    fd_disposition f = Block \<and> fd_subject f = call_display p call"
proof -
  have "decision_tier (decide reg p (call_access call) (tc_context call)) = Dangerous"
    using assms(3) by (simp add: tier_of_def)
  moreover have "length ps > 0" using assms(2) by (auto simp: length_pos_if_in_set)
  ultimately show ?thesis
    using assms(1,2)
    by (auto simp: evaluate_rule_def sensitive_path_rule_def mk_rule_def sensitive_path_applies_def
        sensitive_path_inspect_def report_paths_def make_finding_def draft_def sensitive_path_info_def
        rule_info_of_def can_be_granted_at_runtime_def intro!: bexI [of _ p])
qed

lemma protected_path_denied:
  assumes "tool_call_scanner reg include = Inr engine" "call_paths call = Inr ps" "p \<in> set ps"
    "tier_of reg p (call_access call) (tc_context call) = Dangerous"
    "path_join (ctx_home (tc_context call)) [''.agentkeeper''] = Inr d"
  shows "\<exists>v log'. evaluate_tool_call engine switches decisions append_ok now call log = Inr (v, log') \<and>
    tv_decision v = DenyCall"
proof -
  obtain report where report: "engine_scan engine [call] switches = Inr report"
    using scan_total [OF assms(1,2,5)] by blast
  obtain gs f where f: "evaluate_rule (sensitive_path_rule reg) call = Inr gs" "f \<in> set gs" "fd_disposition f = Block"
    using sensitive_path_reported [OF assms(2-4)] by blast
  have "sensitive_path_rule reg \<in> set (blocking_rules reg)" by (simp add: blocking_rules_def)
  then have "sensitive_path_rule reg \<in> set (enabled_rules engine switches)"
    using scanner_rules [OF assms(1)] blocking_rules_block by (simp add: enabled_rules_def stops_def)
  then have "f \<in> set (rp_findings report)" using scan_set [OF report] f by auto
  from blocked_verdict [OF report this f(3)] show ?thesis by blast
qed

section \<open>Properties\<close>

text \<open>C13: when the configuration can be read, the input parses and each path that the tool call
  names is accepted by the path parser, then if one of these paths is protected the hook refuses
  the call and says so, whatever the configuration switches off, whatever decisions are stored
  or unreadable, and whether or not the audit log can be written. Where a path is malformed the
  hook opens, see \<open>hook_opens_on_malformed_path\<close>.\<close>

theorem protected_path_always_refused:
  assumes "hw_config w = Inr config" "hw_stdin w = Inr raw"
    and "parse_payload (hw_json_parse w) raw = Some p" "hook_context w p = Inr ctx"
    and "call = \<lparr>tc_tool = hp_tool_name p, tc_input = hp_tool_input p, tc_context = ctx\<rparr>"
    and "call_paths call = Inr ps" "q \<in> set ps" "tier_of (hw_registry w) q (call_access call) ctx = Dangerous"
    and "path_join (ctx_home ctx) [''.agentkeeper''] = Inr d"
  shows "ho_exit (hook_command w [''pretooluse'']) = 0 \<and> ho_refusal (hook_command w [''pretooluse'']) \<noteq> None"
proof -
  have ctx: "tc_context call = ctx" using assms(5) by simp
  obtain engine where engine: "tool_call_scanner (hw_registry w) (config_is_enabled config ''categoryA'') = Inr engine"
    using scanner_built by blast
  obtain v log' where "evaluate_tool_call engine (config_is_enabled config) (hw_decisions w) (hw_append_ok w) (hw_now w) call [] = Inr (v, log')"
    and deny: "tv_decision v = DenyCall"
    using protected_path_denied [OF engine assms(6,7)] assms(8,9) unfolding ctx by blast
  then have "hook_verdict w config call = Inr v" using engine by (simp add: hook_verdict_def)
  then have "hook_body w config = Inr \<lparr>ho_exit = 0, ho_refusal = Some (tv_reason v)\<rparr>"
    using assms(2-5) deny by (simp add: hook_body_def)
  then show ?thesis using assms(1) by (simp add: hook_command_def)
qed

definition sample_world :: "string \<Rightarrow> (string \<times> json) list \<Rightarrow> hook_world" where
  "sample_world tool input =
     \<lparr>hw_config = Inr (config_defaults\<lparr>cf_rules := [(''AG-B001'', False)]\<rparr>), hw_stdin = Inr [],
      hw_json_parse = (\<lambda>_. Some (JObject [(''tool_name'', JString tool), (''tool_input'', JObject input)])),
      hw_real_path = Inr, hw_home = ctx_home sample_ctx, hw_cwd = ctx_workspace sample_ctx, hw_platform = Linux,
      hw_registry = sample_registry, hw_decisions = Inl CorruptStore, hw_append_ok = (\<lambda>_. False), hw_now = Some 0\<rparr>"

lemma protected_path_always_refused_witness:
  "ho_refusal (hook_command (sample_world ''Bash'' [(''command'', JString ''cat ~/.ssh/id_rsa'')]) [''pretooluse'']) \<noteq> None"
proof -
  let ?w = "sample_world ''Bash'' [(''command'', JString ''cat ~/.ssh/id_rsa'')]"
  let ?p = "\<lparr>hp_tool_name = ''Bash'', hp_tool_input = [(''command'', JString ''cat ~/.ssh/id_rsa'')], hp_cwd = None\<rparr>"
  let ?call = "\<lparr>tc_tool = ''Bash'', tc_input = [(''command'', JString ''cat ~/.ssh/id_rsa'')], tc_context = sample_ctx\<rparr>"
  let ?q = "mk_posix [''home'', ''u'', ''.ssh'', ''id_rsa'']"
  have pay: "parse_payload (hw_json_parse ?w) [] = Some ?p" by code_simp
  have ctx: "hook_context ?w ?p = Inr sample_ctx" by code_simp
  have paths: "call_paths ?call = Inr [?q]" by code_simp
  have tier: "tier_of (hw_registry ?w) ?q (call_access ?call) sample_ctx = Dangerous" by code_simp
  have join: "path_join (ctx_home sample_ctx) [''.agentkeeper''] = Inr (mk_posix [''home'', ''u'', ''.agentkeeper''])" by code_simp
  have w: "hw_config ?w = Inr (config_defaults\<lparr>cf_rules := [(''AG-B001'', False)]\<rparr>)" "hw_stdin ?w = Inr []"
    by (simp_all add: sample_world_def)
  have q: "?q \<in> set [?q]" by simp
  have c: "?call = \<lparr>tc_tool = hp_tool_name ?p, tc_input = hp_tool_input ?p, tc_context = sample_ctx\<rparr>" by simp
  from protected_path_always_refused [OF w pay ctx c paths q tier join] show ?thesis by blast
qed

lemma verdict_cases_aux:
  assumes "engine_scan engine [call] switches = Inr report" "decisions = Inr ds"
  shows "\<exists>v log'. evaluate_tool_call engine switches decisions append_ok now call log = Inr (v, log') \<and>
    (tv_decision v = DenyCall \<longleftrightarrow>
       (\<exists>f \<in> set (rp_findings report). fd_disposition f = Block \<or> fd_disposition f = Ask \<and>
          (\<exists>d. map_of (index_decisions ds) (decision_key f) = Some d \<and> dc_verdict d = Deny))) \<and>
    (tv_decision v = AskCall \<longleftrightarrow> tv_decision v \<noteq> DenyCall \<and>
       (\<exists>f \<in> set (rp_findings report). fd_disposition f = Ask \<and>
          map_of (index_decisions ds) (decision_key f) = None))"
proof -
  note e = evaluate_tool_call_def verdict_of_def
  let ?st = "index_decisions ds"
  have block: "set (blocking report) = {f \<in> set (rp_findings report). fd_disposition f = Block}"
    by (auto simp: blocking_def stops_def)
  have ask: "set (interrupting report) = {f \<in> set (rp_findings report). fd_disposition f = Ask}"
    by (auto simp: interrupting_def interrupts_def)
  consider "rp_findings report = []" | "rp_findings report \<noteq> []" "blocking report \<noteq> []"
    | "rp_findings report \<noteq> []" "blocking report = []" by blast
  then show ?thesis
  proof cases
    case 1
    then show ?thesis using assms by (simp add: e is_clean_iff)
  next
    case 2
    then obtain f where "f \<in> set (rp_findings report)" "fd_disposition f = Block" using block by (cases "blocking report") auto
    then show ?thesis using 2 assms by (auto simp: e is_clean_iff)
  next
    case 3
    then have nb: "\<forall>f \<in> set (rp_findings report). fd_disposition f \<noteq> Block" using block by auto
    show ?thesis
    proof (cases "decide_asking ?st (interrupting report) []")
      case (Inl f)
      then have "f \<in> set (rp_findings report)" "fd_disposition f = Ask"
        "\<exists>d. map_of ?st (decision_key f) = Some d \<and> dc_verdict d = Deny"
        using decide_asking_denied [OF Inl] ask by auto
      then show ?thesis using 3 assms Inl by (auto simp: e is_clean_iff)
    next
      case (Inr undecided)
      note u = decide_asking_undecided [OF Inr]
      have no_deny: "\<not> (\<exists>f \<in> set (rp_findings report). fd_disposition f = Block \<or> fd_disposition f = Ask \<and>
          (\<exists>d. map_of ?st (decision_key f) = Some d \<and> dc_verdict d = Deny))"
        using nb u ask by fastforce
      have open_q: "undecided \<noteq> [] \<longleftrightarrow> (\<exists>f \<in> set (rp_findings report). fd_disposition f = Ask \<and>
          map_of ?st (decision_key f) = None)"
        using u ask by (auto simp: filter_empty_conv)
      show ?thesis
      proof (cases "undecided = []")
        case True
        then have "evaluate_tool_call engine switches decisions append_ok now call log =
            Inr (verdict_of AllowCall ''previously approved'' (rp_findings report), log)"
          using 3 assms Inr by (simp add: evaluate_tool_call_def is_clean_iff)
        then show ?thesis using no_deny open_q True by (auto simp: verdict_of_def)
      next
        case False
        then have "\<exists>log'. evaluate_tool_call engine switches decisions append_ok now call log =
            Inr (verdict_of AskCall (details_text undecided) undecided, log')"
          using 3 assms Inr by (simp add: evaluate_tool_call_def is_clean_iff)
        then show ?thesis using no_deny open_q False by (auto simp: verdict_of_def)
      qed
    qed
  qed
qed

text \<open>The verdict on a call, on every branch: it is refused exactly when a rule blocks
  it or the user once denied the same thing, otherwise it is a question exactly when a
  question was never answered, and otherwise it is allowed.\<close>

theorem verdict_cases:
  assumes "engine_scan engine [call] switches = Inr report" "decisions = Inr ds"
  shows "\<exists>v log'. evaluate_tool_call engine switches decisions append_ok now call log = Inr (v, log') \<and>
    (tv_decision v = DenyCall \<longleftrightarrow>
       (\<exists>f \<in> set (rp_findings report). fd_disposition f = Block \<or> fd_disposition f = Ask \<and>
          (\<exists>d. map_of (index_decisions ds) (decision_key f) = Some d \<and> dc_verdict d = Deny))) \<and>
    (tv_decision v = AskCall \<longleftrightarrow> tv_decision v \<noteq> DenyCall \<and>
       (\<exists>f \<in> set (rp_findings report). fd_disposition f = Ask \<and>
          map_of (index_decisions ds) (decision_key f) = None))"
  using assms by (rule verdict_cases_aux)

lemma verdict_cases_witness:
  "\<exists>v log'. evaluate_tool_call \<lparr>rr_rules = [outbound_rule]\<rparr> (\<lambda>_. True) (Inr []) (\<lambda>_. True) (Some 0)
       \<lparr>tc_tool = ''mcp__mail__Send'', tc_input = [], tc_context = sample_ctx\<rparr> [] = Inr (v, log') \<and>
     tv_decision v = AskCall"
proof -
  let ?call = "\<lparr>tc_tool = ''mcp__mail__Send'', tc_input = [], tc_context = sample_ctx\<rparr>"
  let ?f = "make_finding outbound_info (draft ''Outbound message through an MCP server''
     ''mcp__mail__Send sends data out of this machine.'' ''mcp__mail__Send'')"
  have scan: "engine_scan \<lparr>rr_rules = [outbound_rule]\<rparr> [?call] (\<lambda>_. True) = Inr (report_of [?f])"
    and f: "fd_disposition ?f = Ask" by code_simp+
  from verdict_cases [OF scan refl, where ds = "[]" and append_ok = "\<lambda>_. True" and now = "Some 0" and log = "[]"] f
  show ?thesis by (auto simp: report_findings index_decisions_def)
qed

text \<open>The hook fails open on one malformed argument: a call that names \<open>/./??/x\<close> is let
  through unless strict mode is on, whatever other paths it names, because computing its
  paths throws and the hook does not refuse on its own errors.\<close>

theorem hook_opens_on_malformed_path:
  assumes "hw_config w = Inr config" "hw_stdin w = Inr raw"
    and "parse_payload (hw_json_parse w) raw =
      Some \<lparr>hp_tool_name = ''Read'', hp_tool_input = [(''file_path'', JString ''/./??/x''), (''path'', JString other)], hp_cwd = cwd\<rparr>"
  shows "ho_refusal (hook_command w [''pretooluse'']) = None \<and>
    (\<not> cf_strict_mode config \<longrightarrow> ho_exit (hook_command w [''pretooluse'']) = 0)"
proof -
  let ?input = "[(''file_path'', JString ''/./??/x''), (''path'', JString other)]"
  have throws: "\<exists>e. hook_verdict w config \<lparr>tc_tool = ''Read'', tc_input = ?input, tc_context = ctx\<rparr> = Inl e" for ctx
  proof -
    let ?call = "\<lparr>tc_tool = ''Read'', tc_input = ?input, tc_context = ctx\<rparr>"
    obtain engine where engine: "tool_call_scanner (hw_registry w) (config_is_enabled config ''categoryA'') = Inr engine"
      using scanner_built by blast
    have "call_paths ?call = Inl DeviceNamespace" by (rule call_paths_throw)
    then have "evaluate_rule (sensitive_path_rule (hw_registry w)) ?call = Inl DeviceNamespace"
      by (simp add: evaluate_rule_def sensitive_path_rule_def mk_rule_def sensitive_path_applies_def)
    moreover have "sensitive_path_rule (hw_registry w) \<in> set (enabled_rules engine (config_is_enabled config))"
      using scanner_rules [OF engine] blocking_rules_block [of "sensitive_path_rule (hw_registry w)" "hw_registry w"]
      by (simp add: enabled_rules_def stops_def blocking_rules_def)
    ultimately obtain e where
      "traverse (\<lambda>r. evaluate_rule r ?call) (enabled_rules engine (config_is_enabled config)) = Inl e"
      using traverse_throws [of "sensitive_path_rule (hw_registry w)" _ "\<lambda>r. evaluate_rule r ?call"] by blast
    then have "evaluate_all (enabled_rules engine (config_is_enabled config)) ?call = Inl e"
      by (simp add: evaluate_all_def)
    then have "engine_scan engine [?call] (config_is_enabled config) = Inl e" by (simp add: engine_scan_def)
    then show ?thesis using engine by (simp add: hook_verdict_def evaluate_tool_call_def)
  qed
  have "\<exists>e. hook_body w config = Inl e"
  proof (cases "hook_context w \<lparr>hp_tool_name = ''Read'', hp_tool_input = ?input, hp_cwd = cwd\<rparr>")
    case (Inl e)
    then show ?thesis using assms(2,3) by (simp add: hook_body_def)
  next
    case (Inr ctx)
    then show ?thesis using assms(2,3) throws [of ctx] by (auto simp: hook_body_def)
  qed
  then show ?thesis using assms(1) by (auto simp: hook_command_def)
qed

lemma hook_opens_on_malformed_path_witness:
  "ho_refusal (hook_command (sample_world ''Read''
      [(''file_path'', JString ''/./??/x''), (''path'', JString ''/home/u/.ssh/id_rsa'')]) [''pretooluse'']) = None"
proof -
  let ?w = "sample_world ''Read'' [(''file_path'', JString ''/./??/x''), (''path'', JString ''/home/u/.ssh/id_rsa'')]"
  have pay: "parse_payload (hw_json_parse ?w) [] = Some \<lparr>hp_tool_name = ''Read'',
      hp_tool_input = [(''file_path'', JString ''/./??/x''), (''path'', JString ''/home/u/.ssh/id_rsa'')], hp_cwd = None\<rparr>"
    by code_simp
  have w: "hw_config ?w = Inr (config_defaults\<lparr>cf_rules := [(''AG-B001'', False)]\<rparr>)" "hw_stdin ?w = Inr []"
    by (simp_all add: sample_world_def)
  from hook_opens_on_malformed_path [OF w pay] show ?thesis by blast
qed

text \<open>A path written with two leading slashes is taken for a network share also where
  the platform has none: no pattern below the home directory matches it, so the rules for
  protected paths are silent on it.\<close>

theorem double_slash_evades_home_rows:
  assumes "of_path (slash # slash # c # rest) = Inr p" "\<not> is_sep c"
    and "ap_flavour (ctx_home ctx) = Posix" "pp_home_anchored (sp_pattern e)"
  shows "ap_flavour p = WindowsUnc \<and> \<not> entry_matches e p ctx"
proof -
  have "\<not> windows_drive_absolute (slash # slash # c # rest)"
    by (simp add: windows_drive_absolute_def has_drive_def is_letter_def is_lower_letter_def is_upper_letter_def)
  moreover have "windows_unc (slash # slash # c # rest)"
    using assms(2) by (simp add: windows_unc_def is_sep_def)
  ultimately have "from_windows (slash # slash # c # rest) WindowsUnc = Inr p"
    using assms(1) by (simp add: of_path_def split: if_splits)
  then have "ap_flavour p = WindowsUnc" by (rule from_windows_flavour)
  then show ?thesis using assms(3,4)
    by (simp add: entry_matches_def pattern_matches_def relative_to_def contains_def)
qed

lemma double_slash_evades_home_rows_witness:
  "entry_matches (hd (reg_entries sample_registry)) (mk_posix [''home'', ''u'', ''.ssh'', ''id_rsa'']) sample_ctx \<and>
   \<not> entry_matches (hd (reg_entries sample_registry))
       \<lparr>ap_value = ''//home/u/.ssh/id_rsa'', ap_flavour = WindowsUnc, ap_root = ''//home/u''\<rparr> sample_ctx"
proof -
  let ?p = "\<lparr>ap_value = ''//home/u/.ssh/id_rsa'', ap_flavour = WindowsUnc, ap_root = ''//home/u''\<rparr>"
  have o: "of_path ''//home/u/.ssh/id_rsa'' = Inr ?p" by code_simp
  have s: "\<not> is_sep (CHR ''h'')" and f: "ap_flavour (ctx_home sample_ctx) = Posix"
    and h: "pp_home_anchored (sp_pattern (hd (reg_entries sample_registry)))"
    and m: "entry_matches (hd (reg_entries sample_registry)) (mk_posix [''home'', ''u'', ''.ssh'', ''id_rsa'']) sample_ctx"
    by code_simp+
  show ?thesis using m double_slash_evades_home_rows [OF o s f h] by blast
qed

end
