(* ===== verification/Steps.thy ===== *)
theory Steps
  imports Main
begin

text \<open>
  Transition systems: the interface every concurrent component is proved against. A
  component provides its initial states, its step relation and an invariant; the locale
  gives what holds in every reachable state, and, with a measure, how long a run can be.
\<close>

inductive reachable :: "('s \<Rightarrow> bool) \<Rightarrow> ('s \<Rightarrow> 's \<Rightarrow> bool) \<Rightarrow> 's \<Rightarrow> bool" for init step where
  reach_init: "init s \<Longrightarrow> reachable init step s"
| reach_step: "reachable init step s \<Longrightarrow> step s s' \<Longrightarrow> reachable init step s'"

locale transition_system =
  fixes init :: "'s \<Rightarrow> bool" and step :: "'s \<Rightarrow> 's \<Rightarrow> bool" and inv :: "'s \<Rightarrow> bool"
  assumes init_inv: "init s \<Longrightarrow> inv s"
    and step_inv: "inv s \<Longrightarrow> step s s' \<Longrightarrow> inv s'"
begin

lemma reachable_inv: "reachable init step s \<Longrightarrow> inv s"
  by (induction rule: reachable.induct) (blast intro: init_inv step_inv)+

lemma steps_inv: "step\<^sup>*\<^sup>* s s' \<Longrightarrow> inv s \<Longrightarrow> inv s'"
  by (induction rule: rtranclp_induct) (blast intro: step_inv)+

end

locale terminating_system = transition_system init step inv
  for init :: "'s \<Rightarrow> bool" and step :: "'s \<Rightarrow> 's \<Rightarrow> bool" and inv :: "'s \<Rightarrow> bool" +
  fixes weight :: "'s \<Rightarrow> nat" and final :: "'s \<Rightarrow> bool"
  assumes step_weight: "inv s \<Longrightarrow> step s s' \<Longrightarrow> weight s' < weight s"
    and progress: "inv s \<Longrightarrow> \<not> final s \<Longrightarrow> \<exists>s'. step s s'"
begin

lemma run_length: "(step ^^ n) s s' \<Longrightarrow> inv s \<Longrightarrow> inv s' \<and> n + weight s' \<le> weight s"
proof (induction n arbitrary: s')
  case (Suc n)
  from Suc.prems(1) obtain t where t: "(step ^^ n) s t" "step t s'" by (auto elim: relpowp_Suc_E)
  with Suc.IH Suc.prems(2) have "inv t" "n + weight t \<le> weight s" by auto
  then show ?case using t(2) step_inv step_weight by fastforce
qed simp

text \<open>Every run can be continued until a final state, and none is infinite.\<close>

lemma reaches_final: "inv s \<Longrightarrow> \<exists>s'. step\<^sup>*\<^sup>* s s' \<and> final s'"
proof (induction "weight s" arbitrary: s rule: less_induct)
  case less
  show ?case
  proof (cases "final s")
    case False
    then obtain t where t: "step s t" using progress less.prems by blast
    then have "weight t < weight s" "inv t" using step_weight step_inv less.prems by blast+
    then obtain s' where "step\<^sup>*\<^sup>* t s'" "final s'" using less.hyps by blast
    then show ?thesis using t by (meson converse_rtranclp_into_rtranclp)
  qed blast
qed

lemma no_infinite_run: "\<not> (\<exists>f. inv (f 0) \<and> (\<forall>n. step (f n) (f (Suc n))))"
proof
  assume "\<exists>f. inv (f 0) \<and> (\<forall>n. step (f n) (f (Suc n)))"
  then obtain f where f: "inv (f 0)" "\<And>n. step (f n) (f (Suc n))" by blast
  have i: "inv (f n)" for n by (induction n) (use f step_inv in blast)+
  have "weight (f n) + n \<le> weight (f 0)" for n
  proof (induction n)
    case (Suc n)
    then show ?case using step_weight [OF i f(2), of n] by simp
  qed simp
  from this [of "Suc (weight (f 0))"] show False by simp
qed

end

end
