(* ===== verification/Services.thy ===== *)
theory Services
  imports Prelude Steps
begin

text \<open>
  \<open>src/application/services/\<close>: the bounded worker pool (\<open>BoundedConcurrency.ts\<close>), the
  single-flight scheduler (\<open>SingleFlightScheduler.ts\<close>), the serial audit log
  (\<open>SerialAuditLog.ts\<close>) and the upgrade monitor (\<open>UpgradeMonitor.ts\<close>). A state machine
  per component: its steps are the points at which the JavaScript event loop can switch to
  other code. The lemmas show what holds however those steps interleave: the bound and the
  order of results of the pool, when the scheduler observes a request and the one window
  in which it loses it, and the order of audit entries.
\<close>

section \<open>The worker pool\<close>

text \<open>\<open>pl_error\<close> is the first rejection, with which the call rejects at once; the other
  workers go on.\<close>

record 'r pool =
  pl_cursor :: nat
  pl_running :: "nat list"
  pl_results :: "nat \<Rightarrow> 'r option"
  pl_error :: "error option"

text \<open>The head of the worker's loop: it takes the next index or ends.\<close>

definition worker_next :: "'a list \<Rightarrow> 'r pool \<Rightarrow> 'r pool" where
  "worker_next items s =
     (if pl_cursor s < length items
      then s\<lparr>pl_cursor := pl_cursor s + 1, pl_running := pl_running s @ [pl_cursor s]\<rparr>
      else s)"

text \<open>An operation settles: its result is stored and its worker goes on, or the worker ends.\<close>

definition settle :: "'a list \<Rightarrow> ('a \<Rightarrow> nat \<Rightarrow> 'r res) \<Rightarrow> nat \<Rightarrow> 'r pool \<Rightarrow> 'r pool" where
  "settle items operation i s =
     (let s1 = s\<lparr>pl_running := remove1 i (pl_running s)\<rparr>
      in case operation (items ! i) i of
           Inr r \<Rightarrow> worker_next items (s1\<lparr>pl_results := (pl_results s)(i := Some r)\<rparr>)
         | Inl e \<Rightarrow> s1\<lparr>pl_error := (case pl_error s of None \<Rightarrow> Some e | Some e' \<Rightarrow> Some e')\<rparr>)"

definition pool_empty :: "'r pool" where
  "pool_empty = \<lparr>pl_cursor = 0, pl_running = [], pl_results = (\<lambda>_. None), pl_error = None\<rparr>"

fun start_workers :: "'a list \<Rightarrow> nat \<Rightarrow> 'r pool \<Rightarrow> 'r pool" where
  "start_workers items 0 s = s"
| "start_workers items (Suc n) s = start_workers items n (worker_next items s)"

definition pool_start :: "'a list \<Rightarrow> nat \<Rightarrow> 'r pool" where
  "pool_start items concurrency = start_workers items (min concurrency (length items)) pool_empty"

inductive pool_step :: "'a list \<Rightarrow> ('a \<Rightarrow> nat \<Rightarrow> 'r res) \<Rightarrow> 'r pool \<Rightarrow> 'r pool \<Rightarrow> bool" for items operation where
  settled: "i \<in> set (pl_running s) \<Longrightarrow> pool_step items operation s (settle items operation i s)"

inductive_simps pool_step_iff: "pool_step items operation s s'"

text \<open>What the returned promise is settled with, if it is.\<close>

definition pool_outcome :: "'a list \<Rightarrow> 'r pool \<Rightarrow> 'r list res option" where
  "pool_outcome items s =
     (case pl_error s of
        Some e \<Rightarrow> Some (Inl e)
      | None \<Rightarrow> if pl_running s = [] then Some (Inr (map (the \<circ> pl_results s) [0..<length items])) else None)"

text \<open>The call: a bad concurrency throws, no items need no worker.\<close>

definition map_with_concurrency :: "'a list \<Rightarrow> int option \<Rightarrow> ('r pool + 'r list) res" where
  "map_with_concurrency items concurrency =
     (case concurrency of
        Some c \<Rightarrow> if c < 1 then Inl BadConcurrency
          else if items = [] then Inr (Inr [])
          else Inr (Inl (pool_start items (nat c)))
      | None \<Rightarrow> Inl BadConcurrency)"

subsection \<open>Invariant of the pool\<close>

definition pool_inv :: "'a list \<Rightarrow> nat \<Rightarrow> ('a \<Rightarrow> nat \<Rightarrow> 'r res) \<Rightarrow> 'r pool \<Rightarrow> bool" where
  "pool_inv items c operation s =
     (distinct (pl_running s) \<and> length (pl_running s) \<le> c \<and> pl_cursor s \<le> length items \<and>
      set (pl_running s) \<subseteq> {..<pl_cursor s} \<and>
      (\<forall>i r. pl_results s i = Some r \<longrightarrow> i < pl_cursor s \<and> i \<notin> set (pl_running s) \<and> operation (items ! i) i = Inr r) \<and>
      (pl_error s = None \<longrightarrow>
         (\<forall>i < pl_cursor s. i \<notin> set (pl_running s) \<longrightarrow> pl_results s i \<noteq> None) \<and>
         (pl_cursor s < length items \<longrightarrow> length (pl_running s) = c)) \<and>
      (\<forall>e. pl_error s = Some e \<longrightarrow> (\<exists>i < length items. operation (items ! i) i = Inl e)))"

definition pool_weight :: "'a list \<Rightarrow> 'r pool \<Rightarrow> nat" where
  "pool_weight items s = length items - pl_cursor s + length (pl_running s)"

lemma start_workers_form:
  "pl_running s = [0..<pl_cursor s] \<Longrightarrow> pl_cursor s + n \<le> length items \<Longrightarrow>
     start_workers items n s = s\<lparr>pl_cursor := pl_cursor s + n, pl_running := [0..<pl_cursor s + n]\<rparr>"
  by (induction n arbitrary: s) (simp_all add: worker_next_def)

lemma pool_start_form:
  "pool_start items c = pool_empty\<lparr>pl_cursor := min c (length items), pl_running := [0..<min c (length items)]\<rparr>"
proof -
  have "pl_running pool_empty = [0..<pl_cursor pool_empty]"
    "pl_cursor pool_empty + min c (length items) \<le> length items" by (simp_all add: pool_empty_def)
  from start_workers_form [OF this] show ?thesis by (simp add: pool_start_def pool_empty_def)
qed

lemma pool_start_inv: "pool_inv items c operation (pool_start items c)"
  by (auto simp: pool_start_form pool_inv_def pool_empty_def)

lemma settle_error:
  assumes "pool_inv items c operation s" "i \<in> set (pl_running s)" "operation (items ! i) i = Inl e"
  shows "pool_inv items c operation (settle items operation i s)"
proof -
  have i: "i < pl_cursor s" "pl_cursor s \<le> length items" using assms(1,2) by (auto simp: pool_inv_def)
  then have "i < length items" by simp
  then show ?thesis using assms
    by (auto simp: pool_inv_def settle_def length_remove1 split: option.splits)
qed

lemma settle_result:
  assumes "pool_inv items c operation s" "i \<in> set (pl_running s)" "operation (items ! i) i = Inr r"
  shows "pool_inv items c operation (settle items operation i s)"
proof -
  let ?s = "s\<lparr>pl_running := remove1 i (pl_running s), pl_results := (pl_results s)(i := Some r)\<rparr>"
  have i: "i < pl_cursor s" and d: "distinct (pl_running s)" and len: "length (pl_running s) \<le> c"
    using assms(1,2) by (auto simp: pool_inv_def)
  have l: "length (remove1 i (pl_running s)) = length (pl_running s) - 1" "length (pl_running s) > 0"
    using assms(2) by (auto simp: length_remove1 length_pos_if_in_set)
  have eq: "settle items operation i s = worker_next items ?s"
    using assms(3) by (simp add: settle_def)
  show ?thesis
  proof (cases "pl_cursor s < length items")
    case True
    then have "settle items operation i s =
        ?s\<lparr>pl_cursor := pl_cursor s + 1, pl_running := remove1 i (pl_running s) @ [pl_cursor s]\<rparr>"
      by (simp add: eq worker_next_def)
    then show ?thesis using assms i d l True unfolding pool_inv_def by (auto simp: less_Suc_eq)
  next
    case False
    then have "settle items operation i s = ?s" by (simp add: eq worker_next_def)
    then show ?thesis using assms i d l False unfolding pool_inv_def by auto
  qed
qed

lemma settle_weight:
  assumes "pool_inv items c operation s" "i \<in> set (pl_running s)"
  shows "pool_weight items (settle items operation i s) < pool_weight items s"
proof -
  obtain k where "length (pl_running s) = Suc k" using assms(2) by (cases "pl_running s") auto
  moreover from this have "length (remove1 i (pl_running s)) = k" using assms(2) by (simp add: length_remove1)
  moreover have "pl_cursor s \<le> length items" using assms(1) by (simp add: pool_inv_def)
  ultimately show ?thesis
    by (auto simp: pool_weight_def settle_def worker_next_def Let_def split: sum.splits)
qed

interpretation worker_pool: terminating_system
  "\<lambda>s. s = pool_start items c" "pool_step items operation" "pool_inv items c operation"
  "pool_weight items" "\<lambda>s. pl_running s = []"
proof
  fix s s'
  show "pool_inv items c operation s" if "s = pool_start items c" using that pool_start_inv by blast
  show "pool_inv items c operation s'"
    if pool: "pool_inv items c operation s" and step: "pool_step items operation s s'"
  proof -
    obtain i where i: "i \<in> set (pl_running s)" "s' = settle items operation i s" using step by (auto simp: pool_step_iff)
    show ?thesis unfolding i(2)
      by (cases "operation (items ! i) i") (erule settle_error [OF pool i(1)], erule settle_result [OF pool i(1)])
  qed
  show "pool_weight items s' < pool_weight items s"
    if "pool_inv items c operation s" "pool_step items operation s s'"
    using that settle_weight by (auto simp: pool_step_iff)
  show "\<exists>s'. pool_step items operation s s'" if "pool_inv items c operation s" "pl_running s \<noteq> []"
    using that(2) by (auto simp: pool_step_iff intro: list.set_sel(1))
qed

lemma pool_start_weight: "pool_weight items (pool_start items c) = length items"
  by (simp add: pool_weight_def pool_start_form pool_empty_def min_def)

lemma pool_done_results:
  assumes "pool_inv items c operation s" "c > 0" "pl_error s = None" "pl_running s = []"
  shows "map Inr (map (the \<circ> pl_results s) [0..<length items]) = map (\<lambda>i. operation (items ! i) i) [0..<length items]"
proof -
  have all: "pl_cursor s = length items" using assms by (auto simp: pool_inv_def)
  have "Inr (the (pl_results s i)) = operation (items ! i) i" if i: "i < length items" for i
  proof -
    obtain r where "pl_results s i = Some r" using assms i all by (auto simp: pool_inv_def)
    then show ?thesis using assms(1) unfolding pool_inv_def by auto
  qed
  then show ?thesis by simp
qed

section \<open>The single-flight scheduler\<close>

text \<open>
  \<open>SfIdle\<close>: no drain; \<open>SfRunning\<close>: the task's promise is pending; \<open>SfHandling\<close>: the error
  handler's is; \<open>SfClosing\<close>: the loop has ended and the callback that clears \<open>inFlight\<close> is
  still queued. \<open>sf_starts\<close> counts the starts of the task.
\<close>

datatype sf_phase = SfIdle | SfRunning | SfHandling | SfClosing

record scheduler =
  sf_dirty :: bool
  sf_phase :: sf_phase
  sf_starts :: nat

datatype sf_event = Request | TaskDone | TaskFailed | Handled | Cleared

definition scheduler_init :: scheduler where
  "scheduler_init = \<lparr>sf_dirty = False, sf_phase = SfIdle, sf_starts = 0\<rparr>"

definition drain_loop :: "scheduler \<Rightarrow> scheduler" where
  "drain_loop s =
     (if sf_dirty s then \<lparr>sf_dirty = False, sf_phase = SfRunning, sf_starts = sf_starts s + 1\<rparr>
      else s\<lparr>sf_phase := SfClosing\<rparr>)"

definition sf_request :: "scheduler \<Rightarrow> scheduler" where
  "sf_request s =
     (let s1 = s\<lparr>sf_dirty := True\<rparr> in if sf_phase s1 = SfIdle then drain_loop s1 else s1)"

fun sf_step :: "scheduler \<Rightarrow> sf_event \<Rightarrow> scheduler option" where
  "sf_step s Request = Some (sf_request s)"
| "sf_step s TaskDone = (if sf_phase s = SfRunning then Some (drain_loop s) else None)"
| "sf_step s TaskFailed = (if sf_phase s = SfRunning then Some (s\<lparr>sf_phase := SfHandling\<rparr>) else None)"
| "sf_step s Handled = (if sf_phase s = SfHandling then Some (drain_loop s) else None)"
| "sf_step s Cleared = (if sf_phase s = SfClosing then Some (s\<lparr>sf_phase := SfIdle\<rparr>) else None)"

fun sf_run :: "scheduler \<Rightarrow> sf_event list \<Rightarrow> scheduler option" where
  "sf_run s [] = Some s"
| "sf_run s (e # es) = (case sf_step s e of None \<Rightarrow> None | Some s' \<Rightarrow> sf_run s' es)"

definition sf_active :: "scheduler \<Rightarrow> bool" where
  "sf_active s = (sf_phase s \<noteq> SfIdle)"

subsection \<open>Lemmas on the scheduler\<close>

lemma sf_step_starts: "sf_step s e = Some s' \<Longrightarrow> sf_starts s \<le> sf_starts s'"
  by (cases e) (auto simp: sf_request_def drain_loop_def Let_def split: if_splits)

lemma sf_run_starts: "sf_run s es = Some s' \<Longrightarrow> sf_starts s \<le> sf_starts s'"
proof (induction es arbitrary: s)
  case (Cons e es)
  then obtain t where "sf_step s e = Some t" "sf_run t es = Some s'" by (auto split: option.splits)
  then show ?case using Cons.IH sf_step_starts by fastforce
qed simp

text \<open>A pending request stays pending while the task or its handler runs, until a start.\<close>

definition owes_start :: "scheduler \<Rightarrow> bool" where
  "owes_start s = (sf_dirty s \<and> (sf_phase s = SfRunning \<or> sf_phase s = SfHandling))"

lemma owed_or_started:
  assumes "sf_step s e = Some s'" "owes_start s"
  shows "owes_start s' \<or> sf_starts s < sf_starts s'"
  using assms by (cases e) (auto simp: owes_start_def sf_request_def drain_loop_def Let_def split: if_splits)

lemma owed_until_idle:
  assumes "sf_run s es = Some s'" "owes_start s" "sf_phase s' = SfIdle"
  shows "sf_starts s < sf_starts s'"
  using assms
proof (induction es arbitrary: s)
  case Nil
  then show ?case by (simp add: owes_start_def)
next
  case (Cons e es)
  then obtain t where t: "sf_step s e = Some t" "sf_run t es = Some s'" by (auto split: option.splits)
  then have "owes_start t \<or> sf_starts s < sf_starts t" using owed_or_started Cons.prems(2) by blast
  then show ?case
  proof
    assume "owes_start t"
    then have "sf_starts t < sf_starts s'" using Cons.IH t(2) Cons.prems(3) by blast
    then show ?thesis using sf_step_starts [OF t(1)] by simp
  qed (use sf_run_starts [OF t(2)] in simp)
qed

text \<open>Without further requests at most five events remain, and one is always possible.\<close>

definition sf_weight :: "scheduler \<Rightarrow> nat" where
  "sf_weight s =
     (case sf_phase s of
        SfIdle \<Rightarrow> 0 | SfClosing \<Rightarrow> 1
      | SfHandling \<Rightarrow> if sf_dirty s then 4 else 2 | SfRunning \<Rightarrow> if sf_dirty s then 5 else 3)"

lemma sf_step_weight: "sf_step s e = Some s' \<Longrightarrow> e \<noteq> Request \<Longrightarrow> sf_weight s' < sf_weight s"
  by (cases e) (auto simp: sf_weight_def drain_loop_def split: if_splits)

lemma sf_run_weight: "sf_run s es = Some s' \<Longrightarrow> Request \<notin> set es \<Longrightarrow> length es + sf_weight s' \<le> sf_weight s"
proof (induction es arbitrary: s)
  case (Cons e es)
  then obtain t where t: "sf_step s e = Some t" "sf_run t es = Some s'" by (auto split: option.splits)
  then show ?case using Cons.IH [OF t(2)] sf_step_weight [OF t(1)] Cons.prems(2) by auto
qed simp

lemma sf_progress: "sf_phase s \<noteq> SfIdle \<Longrightarrow> \<exists>e s'. e \<noteq> Request \<and> sf_step s e = Some s'"
  by (cases "sf_phase s") (metis sf_event.distinct sf_step.simps)+

lemma sf_weight_le: "sf_weight s \<le> 5"
  by (simp add: sf_weight_def split: sf_phase.splits)

section \<open>The serial audit log\<close>

text \<open>Appends wait for the ones before them; the inner log settles the first in line. The
  written entries are the inner log, the failed ones are what their callers are told.\<close>

record 'e serial_log =
  sl_waiting :: "'e list"
  sl_written :: "'e list"
  sl_failed :: "'e list"

datatype 'e log_event = Append 'e | Settle bool

fun log_step :: "'e serial_log \<Rightarrow> 'e log_event \<Rightarrow> 'e serial_log" where
  "log_step s (Append e) = s\<lparr>sl_waiting := sl_waiting s @ [e]\<rparr>"
| "log_step s (Settle ok) =
     (case sl_waiting s of
        [] \<Rightarrow> s
      | e # es \<Rightarrow>
          if ok then s\<lparr>sl_waiting := es, sl_written := sl_written s @ [e]\<rparr>
          else s\<lparr>sl_waiting := es, sl_failed := sl_failed s @ [e]\<rparr>)"

definition log_run :: "'e log_event list \<Rightarrow> 'e serial_log" where
  "log_run es = foldl log_step \<lparr>sl_waiting = [], sl_written = [], sl_failed = []\<rparr> es"

fun appended :: "'e log_event list \<Rightarrow> 'e list" where
  "appended [] = []"
| "appended (Append e # es) = e # appended es"
| "appended (Settle ok # es) = appended es"

lemma appended_snoc [simp]:
  "appended (es @ [Append e]) = appended es @ [e]" "appended (es @ [Settle ok]) = appended es"
  by (induction es rule: appended.induct) simp_all

text \<open>Whether each entry settled so far was written, in the order of the appends.\<close>

definition log_inv :: "'e list \<Rightarrow> bool list \<Rightarrow> 'e serial_log \<Rightarrow> bool" where
  "log_inv entries flags s =
     (length flags \<le> length entries \<and> sl_waiting s = drop (length flags) entries \<and>
      sl_written s = map fst (filter snd (zip entries flags)) \<and>
      sl_failed s = map fst (filter (\<lambda>x. \<not> snd x) (zip entries flags)))"

lemma zip_take_more: "length flags \<le> length entries \<Longrightarrow> zip (entries @ ys) flags = zip entries flags"
  by (simp add: zip_append1)

lemma zip_snoc:
  "drop (length flags) entries = e # es \<Longrightarrow> zip entries (flags @ [b]) = zip entries flags @ [(e, b)]"
proof -
  assume d: "drop (length flags) entries = e # es"
  have "length flags < length entries" using d by (metis drop_all leI list.distinct(1))
  then obtain us where "entries = us @ e # es" "length us = length flags"
    using d append_take_drop_id [of "length flags" entries] by (metis length_take min.absorb4)
  then show ?thesis by (simp add: zip_append1)
qed

lemma log_run_inv: "\<exists>flags. log_inv (appended es) flags (log_run es)"
proof (induction es rule: rev_induct)
  case Nil
  then show ?case by (intro exI [of _ "[]"]) (simp add: log_inv_def log_run_def)
next
  case (snoc x es)
  then obtain flags where inv: "log_inv (appended es) flags (log_run es)" by blast
  have run: "log_run (es @ [x]) = log_step (log_run es) x" by (simp add: log_run_def)
  show ?case
  proof (cases x)
    case (Append e)
    have "log_inv (appended es @ [e]) flags (log_step (log_run es) (Append e))"
      using inv by (simp add: log_inv_def zip_take_more)
    then show ?thesis using Append run by auto
  next
    case (Settle ok)
    show ?thesis
    proof (cases "sl_waiting (log_run es)")
      case Nil
      then show ?thesis using inv Settle run by auto
    next
      case (Cons e rest)
      then have d: "drop (length flags) (appended es) = e # rest" using inv by (simp add: log_inv_def)
      then have "length flags < length (appended es)" by (metis drop_all leI list.distinct(1))
      moreover have "drop (Suc (length flags)) (appended es) = rest" using d by (metis drop_Suc tl_drop list.sel(3))
      ultimately have "log_inv (appended es) (flags @ [ok]) (log_step (log_run es) (Settle ok))"
        using inv d zip_snoc [OF d] by (simp add: log_inv_def)
      then show ?thesis using Settle run by auto
    qed
  qed
qed

section \<open>The upgrade monitor\<close>

definition dev_version :: string where
  "dev_version = ''0.0.0-dev''"

text \<open>The answer, and the version \<open>onStale\<close> is called with, if it is.\<close>

definition check_once :: "string \<Rightarrow> string option res \<Rightarrow> (bool \<times> string option) res" where
  "check_once running installed =
     (if running = dev_version then Inr (False, None)
      else rbind installed (\<lambda>i.
        case i of
          None \<Rightarrow> Inr (False, None)
        | Some v \<Rightarrow> if v = running then Inr (False, None) else Inr (True, Some v)))"

section \<open>Properties\<close>

text \<open>C33: the worker pool computes the map, whatever order the operations finish in: when
  the returned promise resolves, it holds the result of every item in input order, and
  when it rejects, some operation did; at no time do more operations run than allowed.\<close>

theorem pool_refines_map:
  assumes "reachable (\<lambda>s. s = pool_start items c) (pool_step items operation) s" "c > 0"
  shows "length (pl_running s) \<le> c \<and> distinct (pl_running s) \<and>
    (case pool_outcome items s of
       Some (Inr rs) \<Rightarrow> map Inr rs = map (\<lambda>i. operation (items ! i) i) [0..<length items]
     | Some (Inl e) \<Rightarrow> \<exists>i < length items. operation (items ! i) i = Inl e
     | None \<Rightarrow> pl_running s \<noteq> [])"
proof -
  have inv: "pool_inv items c operation s" by (rule worker_pool.reachable_inv [OF assms(1)])
  then have bound: "length (pl_running s) \<le> c" "distinct (pl_running s)" by (simp_all add: pool_inv_def)
  show ?thesis
  proof (cases "pl_error s")
    case None
    then show ?thesis using bound pool_done_results [OF inv assms(2) None] by (simp add: pool_outcome_def)
  next
    case (Some e)
    then show ?thesis using bound inv by (simp add: pool_outcome_def pool_inv_def)
  qed
qed

lemma pool_refines_map_witness:
  "\<exists>s. reachable (\<lambda>s. s = pool_start [10, 20, 30 :: nat] 2) (pool_step [10, 20, 30] (\<lambda>x i. Inr (x + i))) s \<and>
     pool_outcome [10, 20, 30 :: nat] s = Some (Inr [10, 21, 32 :: nat])"
proof -
  let ?items = "[10, 20, 30 :: nat]" and ?op = "\<lambda>x i. Inr (x + i) :: nat res"
  let ?s0 = "pool_start ?items 2"
  let ?s1 = "settle ?items ?op 1 ?s0"
  let ?s2 = "settle ?items ?op 0 ?s1"
  let ?s3 = "settle ?items ?op 2 ?s2"
  let ?reach = "reachable (\<lambda>s. s = ?s0) (pool_step ?items ?op)"
  have r: "pl_running ?s0 = [0, 1]" "pl_running ?s1 = [0, 2]" "pl_running ?s2 = [2]" "pl_running ?s3 = []"
    and e: "pl_error ?s3 = None" by code_simp+
  have "?reach ?s0" by (rule reach_init) simp
  then have "?reach ?s1" by (rule reach_step) (rule settled, unfold r, simp)
  then have "?reach ?s2" by (rule reach_step) (rule settled, unfold r, simp)
  then have s3: "?reach ?s3" by (rule reach_step) (rule settled, unfold r, simp)
  have out: "pool_outcome ?items ?s3 = Some (Inr (map (the \<circ> pl_results ?s3) [0..<length ?items]))"
    using r(4) e by (simp add: pool_outcome_def)
  from pool_refines_map [OF s3] have "map Inr (map (the \<circ> pl_results ?s3) [0..<length ?items]) =
      map (\<lambda>i. ?op (?items ! i) i) [0..<length ?items]"
    unfolding out by simp
  then have "map (the \<circ> pl_results ?s3) [0..<length ?items] = [10, 21, 32]" by (simp add: upt_rec)
  then show ?thesis using s3 out by (intro exI [of _ ?s3]) simp
qed

text \<open>C35: the worker pool always finishes: no run of it is infinite, a run has at most one
  step per item, and from every state it can reach, it can go on until nothing runs and
  the promise is settled.\<close>

theorem pool_terminates:
  "\<not> (\<exists>f. f 0 = pool_start items c \<and> (\<forall>n. pool_step items operation (f n) (f (Suc n)))) \<and>
   (\<forall>n s. (pool_step items operation ^^ n) (pool_start items c) s \<longrightarrow> n \<le> length items \<and>
      (\<exists>s'. (pool_step items operation)\<^sup>*\<^sup>* s s' \<and> pl_running s' = [] \<and> pool_outcome items s' \<noteq> None))"
proof (intro conjI allI impI)
  show "\<not> (\<exists>f. f 0 = pool_start items c \<and> (\<forall>n. pool_step items operation (f n) (f (Suc n))))"
    using worker_pool.no_infinite_run [of items c operation] pool_start_inv [of items c operation] by metis
next
  fix n s
  assume "(pool_step items operation ^^ n) (pool_start items c) s"
  from worker_pool.run_length [OF this pool_start_inv]
  have inv: "pool_inv items c operation s" and w: "n + pool_weight items s \<le> length items"
    by (simp_all add: pool_start_weight)
  from w show "n \<le> length items" by simp
  from worker_pool.reaches_final [OF inv] obtain s' where
    "(pool_step items operation)\<^sup>*\<^sup>* s s'" "pl_running s' = []" by blast
  then show "\<exists>s'. (pool_step items operation)\<^sup>*\<^sup>* s s' \<and> pl_running s' = [] \<and> pool_outcome items s' \<noteq> None"
    by (intro exI [of _ s']) (simp add: pool_outcome_def split: option.splits)
qed

lemma pool_terminates_witness:
  "\<not> (\<exists>f. f 0 = pool_start [1, 2 :: nat] 2 \<and> (\<forall>n. pool_step [1, 2 :: nat] (\<lambda>x i. Inl IoFailure :: nat res) (f n) (f (Suc n)))) \<and>
   (\<exists>s'. (pool_step [1, 2 :: nat] (\<lambda>x i. Inl IoFailure :: nat res))\<^sup>*\<^sup>* (pool_start [1, 2 :: nat] 2) s' \<and> pl_running s' = [])"
proof -
  note t = pool_terminates [of "[1, 2 :: nat]" 2 "\<lambda>x i. Inl IoFailure :: nat res"]
  have "(pool_step [1, 2 :: nat] (\<lambda>x i. Inl IoFailure :: nat res) ^^ 0) (pool_start [1, 2 :: nat] 2) (pool_start [1, 2 :: nat] 2)" by simp
  then show ?thesis using t by blast
qed

text \<open>C34: a request is served: unless it falls into the window in which the last drain is
  being cleared, the task starts after it before the scheduler is idle again; and without
  further requests the scheduler is idle after at most five events, one of which is always
  possible, so it does become idle when tasks and handlers settle.\<close>

theorem request_is_served:
  assumes "sf_phase s \<noteq> SfClosing" "sf_run s (Request # es) = Some s'"
  shows "(sf_phase s' = SfIdle \<longrightarrow> sf_starts s < sf_starts s') \<and>
    (\<forall>more t. Request \<notin> set more \<and> sf_run s' more = Some t \<longrightarrow> length more \<le> 5) \<and>
    (sf_phase s' \<noteq> SfIdle \<longrightarrow> (\<exists>e t. e \<noteq> Request \<and> sf_step s' e = Some t))"
proof (intro conjI impI allI)
  assume idle: "sf_phase s' = SfIdle"
  have run: "sf_run (sf_request s) es = Some s'" using assms(2) by simp
  show "sf_starts s < sf_starts s'"
  proof (cases "sf_phase s = SfIdle")
    case True
    then have "sf_starts s < sf_starts (sf_request s)" by (simp add: sf_request_def drain_loop_def)
    then show ?thesis using sf_run_starts [OF run] by simp
  next
    case False
    then have "owes_start (sf_request s)" using assms(1)
      by (cases "sf_phase s") (simp_all add: sf_request_def owes_start_def)
    from owed_until_idle [OF run this idle] show ?thesis using False by (simp add: sf_request_def)
  qed
next
  fix more t
  assume "Request \<notin> set more \<and> sf_run s' more = Some t"
  then show "length more \<le> 5" using sf_run_weight [of s' more t] sf_weight_le [of s'] by simp
next
  assume "sf_phase s' \<noteq> SfIdle"
  then show "\<exists>e t. e \<noteq> Request \<and> sf_step s' e = Some t" by (rule sf_progress)
qed

lemma request_is_served_witness:
  "sf_run scheduler_init [Request, Request, TaskFailed, Handled, TaskDone, Cleared] =
     Some \<lparr>sf_dirty = False, sf_phase = SfIdle, sf_starts = 2\<rparr> \<and> 0 < (2 :: nat)"
proof -
  have r: "sf_run scheduler_init [Request, Request, TaskFailed, Handled, TaskDone, Cleared] =
      Some \<lparr>sf_dirty = False, sf_phase = SfIdle, sf_starts = 2\<rparr>"
    and i: "sf_phase scheduler_init \<noteq> SfClosing" "sf_starts scheduler_init = 0" by code_simp+
  from request_is_served [OF i(1) r] r i(2) show ?thesis by simp
qed

text \<open>The window loses a request: one that arrives after the loop of the last drain
  ended and before its promise's callback has run sets the flag, but no task starts for it,
  and the scheduler is idle with work pending.\<close>

theorem request_lost_while_clearing:
  "\<exists>before s. sf_run scheduler_init before = Some s \<and>
     (\<exists>s'. sf_run s [Request, Cleared] = Some s' \<and> \<not> sf_active s' \<and> sf_dirty s' \<and> sf_starts s' = sf_starts s)"
proof -
  have "sf_run scheduler_init [Request, TaskDone] = Some \<lparr>sf_dirty = False, sf_phase = SfClosing, sf_starts = 1\<rparr>"
    "sf_run \<lparr>sf_dirty = False, sf_phase = SfClosing, sf_starts = 1\<rparr> [Request, Cleared] =
       Some \<lparr>sf_dirty = True, sf_phase = SfIdle, sf_starts = 1\<rparr>"
    "\<not> sf_active \<lparr>sf_dirty = True, sf_phase = SfIdle, sf_starts = 1\<rparr>" by code_simp+
  then show ?thesis
    by (intro exI [of _ "[Request, TaskDone]"] exI [of _ "\<lparr>sf_dirty = False, sf_phase = SfClosing, sf_starts = 1\<rparr>"])
       simp
qed

text \<open>The serial log keeps the order of the appends and survives failures: what was
  written is exactly the appended entries whose own turn succeeded, in the order of the
  appends, whatever happened to the entries before them.\<close>

theorem audit_order_kept:
  "\<exists>flags. length flags + length (sl_waiting (log_run es)) = length (appended es) \<and>
     sl_written (log_run es) = map fst (filter snd (zip (appended es) flags)) \<and>
     sl_failed (log_run es) = map fst (filter (\<lambda>x. \<not> snd x) (zip (appended es) flags))"
proof -
  obtain flags where "log_inv (appended es) flags (log_run es)" using log_run_inv [of es] by blast
  then show ?thesis by (intro exI [of _ flags]) (simp add: log_inv_def)
qed

end
