(* ===== verification/Install.thy ===== *)
theory Install
  imports AbsPath
begin

text \<open>
  \<open>src/application/use-cases/\<close> (\<open>ExecuteInstallationPlan.ts\<close>,
  \<open>ExecuteProtectionInstallation.ts\<close>, \<open>ApplyChanges.ts\<close>): installation as a transaction over
  files, the Git configuration and the resident service. The file system, Git and the
  service manager are a state whose every operation may fail, before or after its effect:
  \<open>faults n\<close> says how the \<open>n\<close>-th operation behaves. The lemmas show that a failed
  transaction leaves everything as it was unless it reports that its rollback failed.
  File modes are not part of the state, and no other process writes during a transaction.
\<close>

section \<open>The file system\<close>

datatype fault = NoFault | FaultBefore | FaultAfter

type_synonym faults = "nat \<Rightarrow> fault"

type_synonym files = "string \<Rightarrow> string option"

record fs =
  fs_files :: files
  fs_ops :: nat

text \<open>An operation with an effect on the state.\<close>

definition io :: "faults \<Rightarrow> ('a fs_scheme \<Rightarrow> 'a fs_scheme) \<Rightarrow> 'a fs_scheme \<Rightarrow> unit res \<times> 'a fs_scheme" where
  "io faults effect s =
     (let s1 = s\<lparr>fs_ops := fs_ops s + 1\<rparr>
      in case faults (fs_ops s) of
           NoFault \<Rightarrow> (Inr (), effect s1)
         | FaultBefore \<Rightarrow> (Inl IoFailure, s1)
         | FaultAfter \<Rightarrow> (Inl IoFailure, effect s1))"

definition fs_read :: "faults \<Rightarrow> abs_path \<Rightarrow> 'a fs_scheme \<Rightarrow> string option res \<times> 'a fs_scheme" where
  "fs_read faults p s =
     (let s1 = s\<lparr>fs_ops := fs_ops s + 1\<rparr>
      in if faults (fs_ops s) = NoFault then (Inr (fs_files s (ap_value p)), s1) else (Inl IoFailure, s1))"

definition set_file :: "abs_path \<Rightarrow> string option \<Rightarrow> 'a fs_scheme \<Rightarrow> 'a fs_scheme" where
  "set_file p content s = s\<lparr>fs_files := (fs_files s)(ap_value p := content)\<rparr>"

definition fs_write :: "faults \<Rightarrow> abs_path \<Rightarrow> string \<Rightarrow> 'a fs_scheme \<Rightarrow> unit res \<times> 'a fs_scheme" where
  "fs_write faults p content = io faults (set_file p (Some content))"

definition fs_remove :: "faults \<Rightarrow> abs_path \<Rightarrow> 'a fs_scheme \<Rightarrow> unit res \<times> 'a fs_scheme" where
  "fs_remove faults p = io faults (set_file p None)"

text \<open>What both branches of applying and restoring a change do.\<close>

definition put_content :: "faults \<Rightarrow> abs_path \<Rightarrow> string option \<Rightarrow> 'a fs_scheme \<Rightarrow> unit res \<times> 'a fs_scheme" where
  "put_content faults p content =
     (case content of None \<Rightarrow> fs_remove faults p | Some c \<Rightarrow> fs_write faults p c)"

section \<open>Executing an installation plan\<close>

datatype installation_operation = Activate | Deactivate | Repair

record installation_change =
  ic_path :: abs_path
  ic_before :: "string option"
  ic_after :: "string option"
  ic_summary :: string
  ic_mode :: "nat option"

record installation_conflict =
  cn_code :: string
  cn_path :: abs_path
  cn_message :: string

record installation_plan =
  ip_operation :: installation_operation
  ip_changes :: "installation_change list"
  ip_conflicts :: "installation_conflict list"

text \<open>The two loops of \<open>execute\<close>.\<close>

fun check_preconditions ::
  "faults \<Rightarrow> installation_change list \<Rightarrow> 'a fs_scheme \<Rightarrow> unit res \<times> 'a fs_scheme" where
  "check_preconditions faults [] s = (Inr (), s)"
| "check_preconditions faults (c # cs) s =
     (case fs_read faults (ic_path c) s of
        (Inl e, s1) \<Rightarrow> (Inl e, s1)
      | (Inr content, s1) \<Rightarrow>
          if content \<noteq> ic_before c then (Inl StalePlan, s1) else check_preconditions faults cs s1)"

definition apply_change :: "faults \<Rightarrow> installation_change \<Rightarrow> 'a fs_scheme \<Rightarrow> unit res \<times> 'a fs_scheme" where
  "apply_change faults c = put_content faults (ic_path c) (ic_after c)"

definition restore_change :: "faults \<Rightarrow> installation_change \<Rightarrow> 'a fs_scheme \<Rightarrow> unit res \<times> 'a fs_scheme" where
  "restore_change faults c = put_content faults (ic_path c) (ic_before c)"

text \<open>The \<open>try\<close>: the number of applied changes, or the error and the attempted changes.\<close>

fun apply_loop ::
  "faults \<Rightarrow> installation_change list \<Rightarrow> installation_change list \<Rightarrow> nat \<Rightarrow> 'a fs_scheme \<Rightarrow>
     (error \<times> installation_change list + nat) \<times> 'a fs_scheme" where
  "apply_loop faults [] attempted n s = (Inr n, s)"
| "apply_loop faults (c # cs) attempted n s =
     (case fs_read faults (ic_path c) s of
        (Inl e, s1) \<Rightarrow> (Inl (e, attempted), s1)
      | (Inr content, s1) \<Rightarrow>
          if content \<noteq> ic_before c then (Inl (StalePlan, attempted), s1)
          else (case apply_change faults c s1 of
                  (Inl e, s2) \<Rightarrow> (Inl (e, attempted @ [c]), s2)
                | (Inr _, s2) \<Rightarrow> apply_loop faults cs (attempted @ [c]) (n + 1) s2))"

text \<open>The rollback: the number of changes that could not be restored.\<close>

fun restore_loop :: "faults \<Rightarrow> installation_change list \<Rightarrow> 'a fs_scheme \<Rightarrow> nat \<times> 'a fs_scheme" where
  "restore_loop faults [] s = (0, s)"
| "restore_loop faults (c # cs) s =
     (case restore_change faults c s of
        (Inl _, s1) \<Rightarrow> (case restore_loop faults cs s1 of (n, s2) \<Rightarrow> (n + 1, s2))
      | (Inr _, s1) \<Rightarrow> restore_loop faults cs s1)"

definition execute_plan :: "faults \<Rightarrow> installation_plan \<Rightarrow> 'a fs_scheme \<Rightarrow> nat res \<times> 'a fs_scheme" where
  "execute_plan faults plan s =
     (if length (ip_conflicts plan) > 0 then (Inl PlanConflict, s)
      else case check_preconditions faults (ip_changes plan) s of
             (Inl e, s1) \<Rightarrow> (Inl e, s1)
           | (Inr _, s1) \<Rightarrow>
               (case apply_loop faults (ip_changes plan) [] 0 s1 of
                  (Inr n, s2) \<Rightarrow> (Inr n, s2)
                | (Inl (e, attempted), s2) \<Rightarrow>
                    (case restore_loop faults (rev attempted) s2 of
                       (errors, s3) \<Rightarrow> (if errors > 0 then Inl RollbackFailed else Inl e, s3))))"

text \<open>The dry run only remembers the plans.\<close>

definition dry_run :: "installation_plan list \<Rightarrow> installation_plan \<Rightarrow> (nat \<times> bool) \<times> installation_plan list" where
  "dry_run plans plan = ((0, True), plans @ [plan])"

section \<open>What a transaction does, abstractly\<close>

definition installed :: "installation_change list \<Rightarrow> files \<Rightarrow> files" where
  "installed cs files = foldl (\<lambda>f c. f(ap_value (ic_path c) := ic_after c)) files cs"

definition undone :: "installation_change list \<Rightarrow> files \<Rightarrow> files" where
  "undone cs files = foldl (\<lambda>f c. f(ap_value (ic_path c) := ic_before c)) files cs"

text \<open>The specification: all changes, or none and an error, or a reported failure of the
  rollback.\<close>

definition install_spec :: "installation_plan \<Rightarrow> files \<Rightarrow> nat res \<Rightarrow> files \<Rightarrow> bool" where
  "install_spec plan files r files' =
     (case r of
        Inr n \<Rightarrow> ip_conflicts plan = [] \<and> n = length (ip_changes plan) \<and> files' = installed (ip_changes plan) files \<and>
          undone (rev (ip_changes plan)) files' = files
      | Inl e \<Rightarrow> e = RollbackFailed \<or> files' = files)"

section \<open>Lemmas on the file system\<close>

text \<open>An operation leaves the part of the state it is not about alone.\<close>

definition same_rest :: "'a fs_scheme \<Rightarrow> 'a fs_scheme \<Rightarrow> bool" where
  "same_rest s t = (fs.more t = fs.more s \<and> fs_ops s \<le> fs_ops t)"

lemma same_rest_refl [simp]: "same_rest s s"
  by (simp add: same_rest_def)

lemma same_rest_trans: "same_rest s t \<Longrightarrow> same_rest t u \<Longrightarrow> same_rest s u"
  by (auto simp: same_rest_def)

lemma read_cases:
  assumes "fs_read faults p s = (r, t)"
  shows "fs_files t = fs_files s" "same_rest s t" "fs_ops t = fs_ops s + 1"
    "r = Inr (fs_files s (ap_value p)) \<and> faults (fs_ops s) = NoFault \<or>
     r = Inl IoFailure \<and> faults (fs_ops s) \<noteq> NoFault"
  using assms by (auto simp: fs_read_def same_rest_def Let_def split: if_splits)

lemma put_content_cases:
  assumes "put_content faults p content s = (r, t)"
  shows "same_rest s t" "fs_ops t = fs_ops s + 1"
    "r = Inr () \<and> fs_files t = (fs_files s)(ap_value p := content) \<and> faults (fs_ops s) = NoFault \<or>
     r = Inl IoFailure \<and> faults (fs_ops s) \<noteq> NoFault \<and>
       (fs_files t = fs_files s \<or> fs_files t = (fs_files s)(ap_value p := content))"
proof -
  have "put_content faults p content s = io faults (set_file p content) s"
    by (simp add: put_content_def fs_remove_def fs_write_def split: option.splits)
  then have "io faults (set_file p content) s = (r, t)" using assms by simp
  then show "same_rest s t" "fs_ops t = fs_ops s + 1"
    "r = Inr () \<and> fs_files t = (fs_files s)(ap_value p := content) \<and> faults (fs_ops s) = NoFault \<or>
     r = Inl IoFailure \<and> faults (fs_ops s) \<noteq> NoFault \<and>
       (fs_files t = fs_files s \<or> fs_files t = (fs_files s)(ap_value p := content))"
    by (auto simp: io_def set_file_def same_rest_def Let_def split: fault.splits)
qed

section \<open>Lemmas on the transaction\<close>

lemma undone_snoc: "undone (rev (cs @ [c])) f = undone (rev cs) (f(ap_value (ic_path c) := ic_before c))"
  by (simp add: undone_def)

lemma undone_Cons: "undone (c # cs) f = undone cs (f(ap_value (ic_path c) := ic_before c))"
  by (simp add: undone_def)

lemma check_keeps:
  "check_preconditions faults cs s = (r, t) \<Longrightarrow> fs_files t = fs_files s \<and> same_rest s t \<and> r \<noteq> Inl RollbackFailed"
proof (induction cs arbitrary: s)
  case (Cons c cs)
  obtain q s1 where read: "fs_read faults (ic_path c) s = (q, s1)" by (cases "fs_read faults (ic_path c) s")
  note r = read_cases [OF read]
  show ?case
  proof (cases q)
    case (Inl e)
    then show ?thesis using Cons.prems read r by auto
  next
    case (Inr content)
    show ?thesis
    proof (cases "content = ic_before c")
      case True
      then have "check_preconditions faults cs s1 = (r, t)" using Cons.prems read Inr by simp
      then show ?thesis using Cons.IH r(1,2) same_rest_trans by fastforce
    next
      case False
      then show ?thesis using Cons.prems read Inr r by auto
    qed
  qed
qed auto

text \<open>The loop keeps what undoing the attempted changes gives.\<close>

lemma apply_loop_undo:
  assumes "apply_loop faults cs attempted n s = (r, t)" "undone (rev attempted) (fs_files s) = files"
  shows "same_rest s t \<and>
    (case r of
       Inr m \<Rightarrow> m = n + length cs \<and> fs_files t = installed cs (fs_files s) \<and>
         undone (rev (attempted @ cs)) (fs_files t) = files
     | Inl (e, tried) \<Rightarrow> undone (rev tried) (fs_files t) = files \<and> e \<noteq> RollbackFailed)"
  using assms
proof (induction cs arbitrary: attempted n s)
  case Nil
  then show ?case by (auto simp: installed_def)
next
  case (Cons c cs)
  obtain q s1 where read: "fs_read faults (ic_path c) s = (q, s1)" by (cases "fs_read faults (ic_path c) s")
  note rd = read_cases [OF read]
  show ?case
  proof (cases "q = Inr (ic_before c)")
    case False
    then have "r = Inl (IoFailure, attempted) \<or> r = Inl (StalePlan, attempted)" "t = s1"
      using Cons.prems(1) read rd(4) by (auto split: sum.splits if_splits)
    then show ?thesis using Cons.prems(2) rd(1,2) by auto
  next
    case True
    then have before: "fs_files s1 (ap_value (ic_path c)) = ic_before c" using rd by auto
    obtain a s2 where app: "apply_change faults c s1 = (a, s2)" by (cases "apply_change faults c s1")
    note ap = put_content_cases [OF app [unfolded apply_change_def]]
    have same: "same_rest s s2" using rd(2) ap(1) same_rest_trans by blast
    have restored: "(fs_files s2)(ap_value (ic_path c) := ic_before c) = fs_files s1"
      using ap(3) before by (auto simp: fun_eq_iff)
    with Cons.prems(2) rd(1) have u: "undone (rev (attempted @ [c])) (fs_files s2) = files"
      unfolding undone_snoc by simp
    show ?thesis
    proof (cases a)
      case (Inl e)
      then have "r = Inl (IoFailure, attempted @ [c])" "t = s2"
        using Cons.prems(1) read True app ap(3) by auto
      then show ?thesis using u same by simp
    next
      case (Inr x)
      then have "apply_loop faults cs (attempted @ [c]) (n + 1) s2 = (r, t)"
        using Cons.prems(1) read True app by simp
      from Cons.IH [OF this u] have IH: "same_rest s2 t"
        "case r of Inr m \<Rightarrow> m = n + 1 + length cs \<and> fs_files t = installed cs (fs_files s2) \<and>
            undone (rev ((attempted @ [c]) @ cs)) (fs_files t) = files
         | Inl (e, tried) \<Rightarrow> undone (rev tried) (fs_files t) = files \<and> e \<noteq> RollbackFailed" by blast+
      have "fs_files s2 = (fs_files s)(ap_value (ic_path c) := ic_after c)" using ap(3) Inr rd(1) by auto
      then have "installed cs (fs_files s2) = installed (c # cs) (fs_files s)" by (simp add: installed_def)
      then show ?thesis using IH same same_rest_trans by (auto split: sum.splits)
    qed
  qed
qed

lemma restore_loop_undo:
  "restore_loop faults cs s = (n, t) \<Longrightarrow>
     same_rest s t \<and> (n = 0 \<longrightarrow> fs_files t = undone cs (fs_files s))"
proof (induction cs arbitrary: s n t)
  case (Cons c cs)
  obtain a s1 where res: "restore_change faults c s = (a, s1)" by (cases "restore_change faults c s")
  note rs = put_content_cases [OF res [unfolded restore_change_def]]
  obtain m s2 where rest: "restore_loop faults cs s1 = (m, s2)" by (cases "restore_loop faults cs s1")
  note IH = Cons.IH [OF rest]
  show ?case
  proof (cases a)
    case (Inl e)
    then have "n = m + 1" "t = s2" using Cons.prems res rest by auto
    then show ?thesis using IH rs(1) same_rest_trans by auto
  next
    case (Inr x)
    then have "n = m" "t = s2" using Cons.prems res rest by auto
    moreover have f: "(fs_files s)(ap_value (ic_path c) := ic_before c) = fs_files s1" using rs(3) Inr by auto
    ultimately show ?thesis using IH rs(1) same_rest_trans [of s s1 s2] unfolding undone_Cons f by simp
  qed
qed (simp add: undone_def)

lemma execute_plan_refines:
  assumes "execute_plan faults plan s = (r, t)"
  shows "install_spec plan (fs_files s) r (fs_files t) \<and> same_rest s t"
proof (cases "ip_conflicts plan = []")
  case False
  then show ?thesis using assms by (auto simp: execute_plan_def install_spec_def)
next
  case True
  obtain c s1 where check: "check_preconditions faults (ip_changes plan) s = (c, s1)"
    by (cases "check_preconditions faults (ip_changes plan) s")
  note ck = check_keeps [OF check]
  show ?thesis
  proof (cases c)
    case (Inl e)
    then show ?thesis using assms True check ck by (auto simp: execute_plan_def install_spec_def)
  next
    case (Inr u)
    obtain a s2 where app: "apply_loop faults (ip_changes plan) [] 0 s1 = (a, s2)"
      by (cases "apply_loop faults (ip_changes plan) [] 0 s1")
    have "undone (rev []) (fs_files s1) = fs_files s" using ck by (simp add: undone_def)
    note ap = apply_loop_undo [OF app this]
    show ?thesis
    proof (cases a)
      case (Inr n)
      have rt: "r = Inr n" "t = s2"
        using assms True check \<open>c = Inr u\<close> app Inr by (auto simp: execute_plan_def)
      have "n = length (ip_changes plan)" "fs_files s2 = installed (ip_changes plan) (fs_files s1)"
        "undone (rev (ip_changes plan)) (fs_files s2) = fs_files s" "same_rest s1 s2"
        using ap unfolding Inr by auto
      then show ?thesis using rt True ck same_rest_trans by (auto simp: install_spec_def)
    next
      case (Inl et)
      obtain e tried where et: "et = (e, tried)" by (cases et)
      obtain k s3 where rest: "restore_loop faults (rev tried) s2 = (k, s3)"
        by (cases "restore_loop faults (rev tried) s2")
      have rt: "r = (if k > 0 then Inl RollbackFailed else Inl e)" "t = s3"
        using assms True check \<open>c = Inr u\<close> app Inl et rest by (auto simp: execute_plan_def)
      have "undone (rev tried) (fs_files s2) = fs_files s" "same_rest s1 s2" using ap Inl et by simp_all
      moreover note restore_loop_undo [OF rest]
      ultimately have "same_rest s s3" "k = 0 \<longrightarrow> fs_files s3 = fs_files s"
        using ck same_rest_trans by metis+
      then show ?thesis using rt by (auto simp: install_spec_def)
    qed
  qed
qed

text \<open>Where the error of a transaction comes from.\<close>

lemma check_matches:
  "check_preconditions faults cs s = (Inr u, t) \<Longrightarrow> \<forall>c \<in> set cs. fs_files s (ap_value (ic_path c)) = ic_before c"
proof (induction cs arbitrary: s)
  case (Cons c cs)
  obtain q s1 where read: "fs_read faults (ic_path c) s = (q, s1)" by (cases "fs_read faults (ic_path c) s")
  note rd = read_cases [OF read]
  have q: "q = Inr (ic_before c)" "check_preconditions faults cs s1 = (Inr u, t)"
    using Cons.prems read by (auto split: sum.splits if_splits)
  then show ?case using Cons.IH [OF q(2)] rd by auto
qed simp

lemma apply_loop_fault:
  assumes "apply_loop faults cs attempted n s = (Inl (e, tried), t)"
    and "\<forall>c \<in> set cs. fs_files s (ap_value (ic_path c)) = ic_before c"
    and "distinct (map (\<lambda>c. ap_value (ic_path c)) cs)"
  shows "\<exists>k < fs_ops t. faults k \<noteq> NoFault"
  using assms
proof (induction cs arbitrary: attempted n s)
  case (Cons c cs)
  obtain q s1 where read: "fs_read faults (ic_path c) s = (q, s1)" by (cases "fs_read faults (ic_path c) s")
  note rd = read_cases [OF read]
  show ?case
  proof (cases q)
    case (Inl x)
    then show ?thesis using Cons.prems(1) read rd(3,4) by auto
  next
    case (Inr content)
    then have content: "content = ic_before c" using rd(4) Cons.prems(2) by auto
    obtain a s2 where app: "apply_change faults c s1 = (a, s2)" by (cases "apply_change faults c s1")
    note ap = put_content_cases [OF app [unfolded apply_change_def]]
    show ?thesis
    proof (cases a)
      case (Inl x)
      then have "t = s2" using Cons.prems(1) read Inr content app by auto
      then show ?thesis using ap(2,3) Inl by auto
    next
      case (Inr y)
      then have loop: "apply_loop faults cs (attempted @ [c]) (n + 1) s2 = (Inl (e, tried), t)"
        using Cons.prems(1) read \<open>q = Inr content\<close> content app by simp
      have "fs_files s2 = (fs_files s)(ap_value (ic_path c) := ic_after c)" using ap(3) Inr rd(1) by auto
      then have "\<forall>d \<in> set cs. fs_files s2 (ap_value (ic_path d)) = ic_before d"
        using Cons.prems(2,3) by (auto simp: image_iff)
      then show ?thesis using Cons.IH [OF loop] Cons.prems(3) by simp
    qed
  qed
qed simp

lemma restore_loop_no_fault:
  "restore_loop faults cs s = (n, t) \<Longrightarrow> \<forall>k \<ge> fs_ops s. faults k = NoFault \<Longrightarrow> n = 0"
proof (induction cs arbitrary: s n t)
  case (Cons c cs)
  obtain a s1 where res: "restore_change faults c s = (a, s1)" by (cases "restore_change faults c s")
  note rs = put_content_cases [OF res [unfolded restore_change_def]]
  have a: "a = Inr ()" using rs(3) Cons.prems(2) by auto
  then have "restore_loop faults cs s1 = (n, t)" using Cons.prems(1) res by simp
  then show ?case using Cons.IH Cons.prems(2) rs(2) by auto
qed simp

section \<open>Properties of the transaction\<close>

text \<open>C19: executing a plan refines an atomic step: whatever operations fail, before or after
  their effect, either every change is made, or there is an error and every file is as it
  was, or the error says that the rollback failed.\<close>

theorem install_refines_atomic:
  assumes "execute_plan faults plan s = (r, t)"
  shows "install_spec plan (fs_files s) r (fs_files t)"
  using execute_plan_refines [OF assms] by blast

definition sample_plan :: installation_plan where
  "sample_plan =
     \<lparr>ip_operation = Activate,
      ip_changes =
        [\<lparr>ic_path = mk_posix [''a''], ic_before = Some ''old'', ic_after = Some ''new'', ic_summary = [], ic_mode = None\<rparr>,
         \<lparr>ic_path = mk_posix [''b''], ic_before = None, ic_after = Some ''x'', ic_summary = [], ic_mode = Some 384\<rparr>],
      ip_conflicts = []\<rparr>"

definition sample_fs :: fs where
  "sample_fs = \<lparr>fs_files = [''/a'' \<mapsto> ''old''], fs_ops = 0\<rparr>"

lemma install_refines_atomic_witness:
  "fs_files (snd (execute_plan (\<lambda>n. if n = 5 then FaultAfter else NoFault) sample_plan sample_fs)) = [''/a'' \<mapsto> ''old'']"
proof -
  let ?f = "\<lambda>n. if n = (5 :: nat) then FaultAfter else NoFault"
  obtain r t where e: "execute_plan ?f sample_plan sample_fs = (r, t)" by (cases "execute_plan ?f sample_plan sample_fs")
  have "fst (execute_plan ?f sample_plan sample_fs) = Inl IoFailure" by code_simp
  then have "r = Inl IoFailure" using e by simp
  then show ?thesis using install_refines_atomic [OF e] e by (simp add: install_spec_def sample_fs_def)
qed

text \<open>One failing operation is always survived: with at most one fault and no path
  changed twice, the rollback succeeds, so every file is changed or none is.\<close>

theorem install_survives_one_fault:
  assumes "execute_plan faults plan s = (r, t)" "distinct (map (\<lambda>c. ap_value (ic_path c)) (ip_changes plan))"
    and "\<forall>m n. faults m \<noteq> NoFault \<and> faults n \<noteq> NoFault \<longrightarrow> m = n"
  shows "(r = Inr (length (ip_changes plan)) \<and> fs_files t = installed (ip_changes plan) (fs_files s)) \<or>
    (\<exists>e. r = Inl e \<and> e \<noteq> RollbackFailed \<and> fs_files t = fs_files s)"
proof -
  have spec: "install_spec plan (fs_files s) r (fs_files t)" using execute_plan_refines [OF assms(1)] by blast
  have "r \<noteq> Inl RollbackFailed"
  proof
    assume r: "r = Inl RollbackFailed"
    obtain c s1 where check: "check_preconditions faults (ip_changes plan) s = (c, s1)"
      by (cases "check_preconditions faults (ip_changes plan) s")
    have "c \<noteq> Inl RollbackFailed" using check_keeps [OF check] by blast
    then obtain u where u: "c = Inr u" using r assms(1) check
      by (cases c) (auto simp: execute_plan_def split: if_splits)
    obtain a s2 where app: "apply_loop faults (ip_changes plan) [] 0 s1 = (a, s2)"
      by (cases "apply_loop faults (ip_changes plan) [] 0 s1")
    obtain e tried where a: "a = Inl (e, tried)"
      using r assms(1) check u app by (cases a) (auto simp: execute_plan_def split: if_splits)
    obtain k s3 where rest: "restore_loop faults (rev tried) s2 = (k, s3)" by (cases "restore_loop faults (rev tried) s2")
    have "\<forall>d \<in> set (ip_changes plan). fs_files s1 (ap_value (ic_path d)) = ic_before d"
      using check_matches [OF check [unfolded u]] check_keeps [OF check] by simp
    then obtain j where j: "j < fs_ops s2" "faults j \<noteq> NoFault"
      using apply_loop_fault [OF app [unfolded a]] assms(2) by blast
    then have "\<forall>m \<ge> fs_ops s2. faults m = NoFault" using assms(3) by (metis not_less)
    then have "k = 0" by (rule restore_loop_no_fault [OF rest])
    moreover have "undone (rev []) (fs_files s1) = fs_files s1" by (simp add: undone_def)
    from apply_loop_undo [OF app this] have "e \<noteq> RollbackFailed" unfolding a by simp
    ultimately show False using r assms(1) check u app a rest by (auto simp: execute_plan_def split: if_splits)
  qed
  then show ?thesis using spec by (cases r) (auto simp: install_spec_def)
qed

lemma install_survives_one_fault_witness:
  "fst (execute_plan (\<lambda>n. if n = 3 then FaultBefore else NoFault) sample_plan sample_fs) \<noteq> Inl RollbackFailed"
proof -
  let ?f = "\<lambda>n. if n = (3 :: nat) then FaultBefore else NoFault"
  obtain r t where e: "execute_plan ?f sample_plan sample_fs = (r, t)" by (cases "execute_plan ?f sample_plan sample_fs")
  have d: "distinct (map (\<lambda>c. ap_value (ic_path c)) (ip_changes sample_plan))" by code_simp
  have "\<forall>m n. ?f m \<noteq> NoFault \<and> ?f n \<noteq> NoFault \<longrightarrow> m = n" by simp
  from install_survives_one_fault [OF e d this] show ?thesis using e by auto
qed

end
