(* ===== verification/ProtectInstall.thy ===== *)
theory ProtectInstall
  imports Install
begin

text \<open>
  \<open>src/application/use-cases/ExecuteProtectionInstallation.ts\<close>: the files of an installation
  together with the global Git hooks path and the resident services. The state of the
  outside world extends that of the files; what a service manager makes of a request is a
  parameter. The lemmas show that a failed activation or deactivation leaves the files and
  Git as they were, and that a service that cannot be started never undoes the rest.
\<close>

record service_status =
  ss_registered :: bool
  ss_active :: bool
  ss_healthy :: bool

record system = fs +
  sy_git :: "string option"
  sy_services :: "string \<Rightarrow> service_status"

record service_registration =
  sr_platform :: string
  sr_id :: string
  sr_descriptor :: abs_path

datatype desired = ActiveService | AbsentService

text \<open>\<open>setDesired\<close> and \<open>restart\<close> of a service manager; \<open>restore\<close> sets the status given.\<close>

record service_manager =
  sm_set :: "service_registration \<Rightarrow> desired \<Rightarrow> service_status \<Rightarrow> service_status"
  sm_restart :: "service_registration \<Rightarrow> service_status \<Rightarrow> service_status"

datatype transition =
    GitHooksPath "string option" "string option"
  | Service service_registration service_status desired bool

definition is_service :: "transition \<Rightarrow> bool" where
  "is_service t = (case t of GitHooksPath _ _ \<Rightarrow> False | Service _ _ _ _ \<Rightarrow> True)"

record protection_plan =
  pp_operation :: installation_operation
  pp_file_plan :: installation_plan
  pp_external :: "transition list"
  pp_plan_conflicts :: "installation_conflict list"

record protection_result =
  pr_files_applied :: nat
  pr_external_applied :: nat
  pr_degraded :: nat

definition set_service :: "service_registration \<Rightarrow> service_status \<Rightarrow> system \<Rightarrow> system" where
  "set_service r st s = s\<lparr>sy_services := (sy_services s)(sr_id r := st)\<rparr>"

definition same_service_status :: "service_status \<Rightarrow> service_status \<Rightarrow> bool" where
  "same_service_status a b =
     (ss_registered a = ss_registered b \<and> ss_active a = ss_active b \<and> ss_healthy a = ss_healthy b)"

text \<open>\<open>externalPreconditionMatches\<close>: one read of the outside world.\<close>

definition precondition_matches :: "faults \<Rightarrow> transition \<Rightarrow> system \<Rightarrow> bool res \<times> system" where
  "precondition_matches faults t s =
     (let s1 = s\<lparr>fs_ops := fs_ops s + 1\<rparr>
      in if faults (fs_ops s) \<noteq> NoFault then (Inl IoFailure, s1)
         else case t of
                GitHooksPath before after \<Rightarrow> (Inr (sy_git s = before), s1)
              | Service r before after restart \<Rightarrow>
                  (Inr (same_service_status (sy_services s (sr_id r)) before), s1))"

definition verify_external :: "faults \<Rightarrow> transition \<Rightarrow> system \<Rightarrow> unit res \<times> system" where
  "verify_external faults t s =
     (case precondition_matches faults t s of
        (Inl e, s1) \<Rightarrow> (Inl e, s1)
      | (Inr m, s1) \<Rightarrow> (if \<not> m then Inl StalePlan else Inr (), s1))"

text \<open>All preconditions are read before the first mismatch is looked for.\<close>

fun match_all :: "faults \<Rightarrow> transition list \<Rightarrow> system \<Rightarrow> bool list res \<times> system" where
  "match_all faults [] s = (Inr [], s)"
| "match_all faults (t # ts) s =
     (case precondition_matches faults t s of
        (r, s1) \<Rightarrow> (case match_all faults ts s1 of
           (rs, s2) \<Rightarrow> (rbind r (\<lambda>m. rmap (\<lambda>ms. m # ms) rs), s2)))"

definition verify_all :: "faults \<Rightarrow> transition list \<Rightarrow> system \<Rightarrow> unit res \<times> system" where
  "verify_all faults ts s =
     (case match_all faults ts s of
        (Inl e, s1) \<Rightarrow> (Inl e, s1)
      | (Inr ms, s1) \<Rightarrow> (if list_ex Not ms then Inl StalePlan else Inr (), s1))"

definition apply_external :: "service_manager \<Rightarrow> faults \<Rightarrow> transition \<Rightarrow> system \<Rightarrow> unit res \<times> system" where
  "apply_external sm faults t =
     (case t of
        GitHooksPath before after \<Rightarrow> io faults (\<lambda>s. s\<lparr>sy_git := after\<rparr>)
      | Service r before after restart \<Rightarrow>
          if restart then io faults (\<lambda>s. set_service r (sm_restart sm r (sy_services s (sr_id r))) s)
          else io faults (\<lambda>s. set_service r (sm_set sm r after (sy_services s (sr_id r))) s))"

definition restore_external :: "faults \<Rightarrow> transition \<Rightarrow> system \<Rightarrow> unit res \<times> system" where
  "restore_external faults t =
     (case t of
        GitHooksPath before after \<Rightarrow> io faults (\<lambda>s. s\<lparr>sy_git := before\<rparr>)
      | Service r before after restart \<Rightarrow> io faults (set_service r before))"

fun rollback_external :: "faults \<Rightarrow> transition list \<Rightarrow> system \<Rightarrow> nat \<times> system" where
  "rollback_external faults [] s = (0, s)"
| "rollback_external faults (t # ts) s =
     (case restore_external faults t s of
        (Inl _, s1) \<Rightarrow> (case rollback_external faults ts s1 of (n, s2) \<Rightarrow> (n + 1, s2))
      | (Inr _, s1) \<Rightarrow> rollback_external faults ts s1)"

text \<open>The loop over the external changes of an activation: the transitions to roll back, how
  many were applied and how many services were given up, or the error.\<close>

fun activate_loop ::
  "service_manager \<Rightarrow> faults \<Rightarrow> transition list \<Rightarrow> transition list \<Rightarrow> nat \<Rightarrow> nat \<Rightarrow> system \<Rightarrow>
     (error \<times> transition list + nat \<times> nat) \<times> system" where
  "activate_loop sm faults [] attempted applied degraded s = (Inr (applied, degraded), s)"
| "activate_loop sm faults (t # ts) attempted applied degraded s =
     (case verify_external faults t s of
        (Inl e, s1) \<Rightarrow> (Inl (e, attempted), s1)
      | (Inr _, s1) \<Rightarrow>
          if is_service t then
            (case apply_external sm faults t s1 of
               (Inr _, s2) \<Rightarrow> activate_loop sm faults ts (attempted @ [t]) (applied + 1) degraded s2
             | (Inl _, s2) \<Rightarrow>
                 activate_loop sm faults ts attempted applied (degraded + 1) (snd (restore_external faults t s2)))
          else
            (case apply_external sm faults t s1 of
               (Inr _, s2) \<Rightarrow> activate_loop sm faults ts (attempted @ [t]) (applied + 1) degraded s2
             | (Inl e, s2) \<Rightarrow> (Inl (e, attempted @ [t]), s2)))"

definition invert_change :: "installation_change \<Rightarrow> installation_change" where
  "invert_change c =
     c\<lparr>ic_before := ic_after c, ic_after := ic_before c, ic_summary := ''Rollback: '' @ ic_summary c\<rparr>"

definition invert_plan :: "installation_plan \<Rightarrow> installation_plan" where
  "invert_plan p =
     \<lparr>ip_operation = Deactivate, ip_changes = map invert_change (rev (ip_changes p)), ip_conflicts = []\<rparr>"

definition rollback_error :: "error \<Rightarrow> nat \<Rightarrow> error" where
  "rollback_error e n = (if n = 0 then e else RollbackFailed)"

definition activate_or_repair ::
  "service_manager \<Rightarrow> faults \<Rightarrow> protection_plan \<Rightarrow> system \<Rightarrow> protection_result res \<times> system" where
  "activate_or_repair sm faults plan s =
     (case execute_plan faults (pp_file_plan plan) s of
        (Inl e, s1) \<Rightarrow> (Inl e, s1)
      | (Inr n, s1) \<Rightarrow>
          (case activate_loop sm faults (pp_external plan) [] 0 0 s1 of
             (Inr (applied, degraded), s2) \<Rightarrow>
               (Inr \<lparr>pr_files_applied = n, pr_external_applied = applied, pr_degraded = degraded\<rparr>, s2)
           | (Inl (e, attempted), s2) \<Rightarrow>
               (case rollback_external faults (rev attempted) s2 of
                  (errors, s3) \<Rightarrow>
                    if length (ip_changes (pp_file_plan plan)) > 0 then
                      (case execute_plan faults (invert_plan (pp_file_plan plan)) s3 of
                         (Inr _, s4) \<Rightarrow> (Inl (rollback_error e errors), s4)
                       | (Inl _, s4) \<Rightarrow> (Inl (rollback_error e (errors + 1)), s4))
                    else (Inl (rollback_error e errors), s3))))"

fun deactivate_loop ::
  "service_manager \<Rightarrow> faults \<Rightarrow> transition list \<Rightarrow> transition list \<Rightarrow> system \<Rightarrow>
     (error \<times> transition list + transition list) \<times> system" where
  "deactivate_loop sm faults [] attempted s = (Inr attempted, s)"
| "deactivate_loop sm faults (t # ts) attempted s =
     (case verify_external faults t s of
        (Inl e, s1) \<Rightarrow> (Inl (e, attempted), s1)
      | (Inr _, s1) \<Rightarrow>
          (case apply_external sm faults t s1 of
             (Inl e, s2) \<Rightarrow> (Inl (e, attempted @ [t]), s2)
           | (Inr _, s2) \<Rightarrow> deactivate_loop sm faults ts (attempted @ [t]) s2))"

definition deactivate ::
  "service_manager \<Rightarrow> faults \<Rightarrow> protection_plan \<Rightarrow> system \<Rightarrow> protection_result res \<times> system" where
  "deactivate sm faults plan s =
     (case deactivate_loop sm faults (pp_external plan) [] s of
        (Inl (e, attempted), s1) \<Rightarrow>
          (case rollback_external faults (rev attempted) s1 of
             (errors, s2) \<Rightarrow> (Inl (rollback_error e errors), s2))
      | (Inr attempted, s1) \<Rightarrow>
          (case execute_plan faults (pp_file_plan plan) s1 of
             (Inr n, s2) \<Rightarrow>
               (Inr \<lparr>pr_files_applied = n, pr_external_applied = length (pp_external plan), pr_degraded = 0\<rparr>, s2)
           | (Inl e, s2) \<Rightarrow>
               (case rollback_external faults (rev attempted) s2 of
                  (errors, s3) \<Rightarrow> (Inl (rollback_error e errors), s3))))"

definition execute_protection ::
  "service_manager \<Rightarrow> faults \<Rightarrow> protection_plan \<Rightarrow> system \<Rightarrow> protection_result res \<times> system" where
  "execute_protection sm faults plan s =
     (if length (pp_plan_conflicts plan) > 0 then (Inl PlanConflict, s)
      else case verify_all faults (pp_external plan) s of
             (Inl e, s1) \<Rightarrow> (Inl e, s1)
           | (Inr _, s1) \<Rightarrow>
               if pp_operation plan = Deactivate then deactivate sm faults plan s1
               else activate_or_repair sm faults plan s1)"

section \<open>Lemmas\<close>

text \<open>What rolling back gives, for Git and for the services.\<close>

definition git_undone :: "transition list \<Rightarrow> string option \<Rightarrow> string option" where
  "git_undone ts g = foldl (\<lambda>g t. case t of GitHooksPath before _ \<Rightarrow> before | Service _ _ _ _ \<Rightarrow> g) g ts"

definition services_undone :: "transition list \<Rightarrow> (string \<Rightarrow> service_status) \<Rightarrow> string \<Rightarrow> service_status" where
  "services_undone ts f =
     foldl (\<lambda>f t. case t of GitHooksPath _ _ \<Rightarrow> f | Service r before _ _ \<Rightarrow> f(sr_id r := before)) f ts"

lemma io_cases:
  assumes "io faults effect s = (r, t)"
  shows "(r = Inr () \<and> t = effect (s\<lparr>fs_ops := fs_ops s + 1\<rparr>)) \<or>
    (\<exists>e. r = Inl e \<and> e \<noteq> RollbackFailed \<and> (t = s\<lparr>fs_ops := fs_ops s + 1\<rparr> \<or> t = effect (s\<lparr>fs_ops := fs_ops s + 1\<rparr>)))"
  using assms by (auto simp: io_def Let_def split: fault.splits)

lemma same_status_eq: "same_service_status a b \<longleftrightarrow> a = b"
  by (auto simp: same_service_status_def)

lemma verify_external_cases:
  assumes "verify_external faults t s = (r, s1)"
  shows "fs_files s1 = fs_files s \<and> sy_git s1 = sy_git s \<and> sy_services s1 = sy_services s \<and>
    (case r of
       Inr _ \<Rightarrow> (case t of GitHooksPath before _ \<Rightarrow> sy_git s = before
                        | Service reg before _ _ \<Rightarrow> sy_services s (sr_id reg) = before)
     | Inl e \<Rightarrow> e \<noteq> RollbackFailed)"
  using assms
  by (cases t) (auto simp: verify_external_def precondition_matches_def Let_def same_status_eq split: if_splits)

lemma match_all_keeps:
  "match_all faults ts s = (r, s1) \<Longrightarrow>
     fs_files s1 = fs_files s \<and> sy_git s1 = sy_git s \<and> sy_services s1 = sy_services s \<and> r \<noteq> Inl RollbackFailed"
proof (induction ts arbitrary: s r s1)
  case (Cons t ts)
  obtain m s2 where m: "precondition_matches faults t s = (m, s2)" by (cases "precondition_matches faults t s")
  obtain rs s3 where rs: "match_all faults ts s2 = (rs, s3)" by (cases "match_all faults ts s2")
  have "fs_files s2 = fs_files s" "sy_git s2 = sy_git s" "sy_services s2 = sy_services s" "m \<noteq> Inl RollbackFailed"
    using m by (auto simp: precondition_matches_def Let_def split: if_splits transition.splits)
  moreover have "r = rbind m (\<lambda>x. rmap (\<lambda>ms. x # ms) rs)" "s1 = s3" using Cons.prems m rs by simp_all
  ultimately show ?case using Cons.IH [OF rs] by (cases m; cases rs) auto
qed auto

lemma apply_external_cases:
  assumes "apply_external sm faults t s = (r, s1)"
  shows "fs_files s1 = fs_files s \<and> r \<noteq> Inl RollbackFailed \<and>
    (case t of
       GitHooksPath before after \<Rightarrow> sy_services s1 = sy_services s
     | Service reg before after restart \<Rightarrow> sy_git s1 = sy_git s \<and>
         (\<forall>i. i \<noteq> sr_id reg \<longrightarrow> sy_services s1 i = sy_services s i))"
  using assms
  by (cases t) (auto simp: apply_external_def set_service_def dest!: io_cases split: if_splits)

lemma restore_external_cases:
  assumes "restore_external faults t s = (r, s1)"
  shows "fs_files s1 = fs_files s"
    and "is_service t \<Longrightarrow> sy_git s1 = sy_git s"
    and "r = Inr u \<Longrightarrow> sy_git s1 = git_undone [t] (sy_git s) \<and> sy_services s1 = services_undone [t] (sy_services s)"
  using assms
  by (cases t; auto simp: restore_external_def set_service_def git_undone_def services_undone_def is_service_def
      dest!: io_cases)+

lemma git_undone_Cons: "git_undone (t # ts) g = git_undone ts (git_undone [t] g)"
  by (simp add: git_undone_def)

lemma git_undone_append: "git_undone (ts @ us) g = git_undone us (git_undone ts g)"
  by (simp add: git_undone_def)

lemma services_undone_Cons: "services_undone (t # ts) f = services_undone ts (services_undone [t] f)"
  by (simp add: services_undone_def)

lemma services_undone_append: "services_undone (ts @ us) f = services_undone us (services_undone ts f)"
  by (simp add: services_undone_def)

lemma rollback_external_undo:
  "rollback_external faults ts s = (n, t) \<Longrightarrow>
     fs_files t = fs_files s \<and>
     (n = 0 \<longrightarrow> sy_git t = git_undone ts (sy_git s) \<and> sy_services t = services_undone ts (sy_services s))"
proof (induction ts arbitrary: s n t)
  case Nil
  then show ?case by (simp add: git_undone_def services_undone_def)
next
  case (Cons x ts)
  obtain a s1 where res: "restore_external faults x s = (a, s1)" by (cases "restore_external faults x s")
  obtain m s2 where rest: "rollback_external faults ts s1 = (m, s2)" by (cases "rollback_external faults ts s1")
  note IH = Cons.IH [OF rest] and rs = restore_external_cases [OF res]
  show ?case
  proof (cases a)
    case (Inl e)
    then have "n = m + 1" "t = s2" using Cons.prems res rest by auto
    then show ?thesis using IH rs(1) by auto
  next
    case (Inr u)
    then have nt: "n = m" "t = s2" using Cons.prems res rest by auto
    from rs(3) [OF Inr] show ?thesis
      unfolding git_undone_Cons [of x ts] services_undone_Cons [of x ts] using IH rs(1) nt by auto
  qed
qed

text \<open>Attempted transitions and the state they can be undone to.\<close>

lemma attempted_undo:
  assumes "verify_external faults t s = (Inr u, s1)" "apply_external sm faults t s1 = (r, s2)"
  shows "git_undone [t] (sy_git s2) = sy_git s \<and> services_undone [t] (sy_services s2) = sy_services s"
proof (cases t)
  case (GitHooksPath before after)
  then show ?thesis using verify_external_cases [OF assms(1)] apply_external_cases [OF assms(2)]
    by (simp add: git_undone_def services_undone_def)
next
  case (Service reg before after restart)
  then have v: "sy_services s (sr_id reg) = before" "sy_services s1 = sy_services s" "sy_git s1 = sy_git s"
    using verify_external_cases [OF assms(1)] by auto
  have a: "sy_git s2 = sy_git s1" "\<forall>i. i \<noteq> sr_id reg \<longrightarrow> sy_services s2 i = sy_services s1 i"
    using apply_external_cases [OF assms(2)] Service by auto
  have "(sy_services s2)(sr_id reg := before) = sy_services s" using v a(2) by (auto simp: fun_eq_iff)
  then show ?thesis using v a(1) Service by (simp add: git_undone_def services_undone_def)
qed

lemma deactivate_loop_undo:
  assumes "deactivate_loop sm faults ts attempted s = (r, s')"
    and "git_undone (rev attempted) (sy_git s) = g" "services_undone (rev attempted) (sy_services s) = f"
  shows "fs_files s' = fs_files s \<and>
    (case r of
       Inr tried \<Rightarrow> git_undone (rev tried) (sy_git s') = g \<and> services_undone (rev tried) (sy_services s') = f
     | Inl (e, tried) \<Rightarrow> e \<noteq> RollbackFailed \<and> git_undone (rev tried) (sy_git s') = g \<and>
         services_undone (rev tried) (sy_services s') = f)"
  using assms
proof (induction ts arbitrary: attempted s)
  case (Cons t ts)
  obtain v s1 where ver: "verify_external faults t s = (v, s1)" by (cases "verify_external faults t s")
  note vc = verify_external_cases [OF ver]
  show ?case
  proof (cases v)
    case (Inl e)
    then have "r = Inl (e, attempted)" "s' = s1" using Cons.prems(1) ver by auto
    then show ?thesis using Cons.prems(2,3) vc Inl by auto
  next
    case (Inr u)
    obtain a s2 where app: "apply_external sm faults t s1 = (a, s2)" by (cases "apply_external sm faults t s1")
    note ac = apply_external_cases [OF app]
    note un = attempted_undo [OF ver [unfolded Inr] app]
    have g: "git_undone (rev (attempted @ [t])) (sy_git s2) = g"
      "services_undone (rev (attempted @ [t])) (sy_services s2) = f"
      using un Cons.prems(2,3) git_undone_Cons [of t "rev attempted"] services_undone_Cons [of t "rev attempted"]
      by simp_all
    show ?thesis
    proof (cases a)
      case (Inl e)
      then have "r = Inl (e, attempted @ [t])" "s' = s2" using Cons.prems(1) ver \<open>v = Inr u\<close> app by auto
      then show ?thesis using g vc ac Inl by auto
    next
      case (Inr x)
      then have "deactivate_loop sm faults ts (attempted @ [t]) s2 = (r, s')"
        using Cons.prems(1) ver \<open>v = Inr u\<close> app by simp
      from Cons.IH [OF this g] show ?thesis using vc ac by (auto split: sum.splits)
    qed
  qed
qed auto

lemma activate_loop_undo:
  assumes "activate_loop sm faults ts attempted n d s = (r, s')" "git_undone (rev attempted) (sy_git s) = g"
  shows "fs_files s' = fs_files s \<and>
    (case r of Inr _ \<Rightarrow> True
     | Inl (e, tried) \<Rightarrow> e \<noteq> RollbackFailed \<and> git_undone (rev tried) (sy_git s') = g)"
  using assms
proof (induction ts arbitrary: attempted n d s)
  case (Cons t ts)
  obtain v s1 where ver: "verify_external faults t s = (v, s1)" by (cases "verify_external faults t s")
  note vc = verify_external_cases [OF ver]
  show ?case
  proof (cases v)
    case (Inl e)
    then have "r = Inl (e, attempted)" "s' = s1" using Cons.prems(1) ver by auto
    then show ?thesis using Cons.prems(2) vc Inl by auto
  next
    case (Inr u)
    obtain a s2 where app: "apply_external sm faults t s1 = (a, s2)" by (cases "apply_external sm faults t s1")
    note ac = apply_external_cases [OF app]
    have g: "git_undone (rev (attempted @ [t])) (sy_git s2) = g"
      using attempted_undo [OF ver [unfolded Inr] app] Cons.prems(2) git_undone_Cons [of t "rev attempted"] by simp
    show ?thesis
    proof (cases a)
      case (Inr x)
      then have "activate_loop sm faults ts (attempted @ [t]) (n + 1) d s2 = (r, s')"
        using Cons.prems(1) ver \<open>v = Inr u\<close> app by (simp split: if_splits)
      from Cons.IH [OF this g] show ?thesis using vc ac by (auto split: sum.splits)
    next
      case (Inl e)
      show ?thesis
      proof (cases "is_service t")
        case False
        then have "r = Inl (e, attempted @ [t])" "s' = s2" using Cons.prems(1) ver \<open>v = Inr u\<close> app Inl by auto
        then show ?thesis using g vc ac Inl by auto
      next
        case True
        obtain b s3 where res: "restore_external faults t s2 = (b, s3)" by (cases "restore_external faults t s2")
        have loop: "activate_loop sm faults ts attempted n (d + 1) s3 = (r, s')"
          using Cons.prems(1) ver \<open>v = Inr u\<close> app Inl True res by simp
        have "sy_git s3 = sy_git s"
          using restore_external_cases(2) [OF res True] ac vc True by (cases t) (auto simp: is_service_def)
        then have "git_undone (rev attempted) (sy_git s3) = g" using Cons.prems(2) by simp
        from Cons.IH [OF loop this] show ?thesis
          using restore_external_cases(1) [OF res] vc ac by (auto split: sum.splits)
      qed
    qed
  qed
qed auto

lemma inverted_undone: "installed (map invert_change (rev cs)) f = undone (rev cs) f"
  by (simp add: installed_def undone_def foldl_map invert_change_def)

text \<open>The file plan touches nothing else.\<close>

lemma plan_keeps_system:
  "execute_plan faults plan s = (r, t) \<Longrightarrow> sy_git t = sy_git s \<and> sy_services t = sy_services s"
proof -
  assume "execute_plan faults plan s = (r, t)"
  then have "fs.more t = fs.more s" using execute_plan_refines by (fastforce simp: same_rest_def)
  then show ?thesis by (cases s; cases t) simp
qed

lemma rollback_error_eq: "rollback_error e n \<noteq> RollbackFailed \<Longrightarrow> n = 0"
  by (auto simp: rollback_error_def split: if_splits)

section \<open>Properties\<close>

lemma nothing_undone: "git_undone (rev []) (sy_git t) = sy_git t" "services_undone (rev []) (sy_services t) = sy_services t"
  by (simp_all add: git_undone_def services_undone_def)

lemma deactivate_restores:
  assumes "deactivate sm faults plan s = (Inl e, s')" "e \<noteq> RollbackFailed"
  shows "fs_files s' = fs_files s \<and> sy_git s' = sy_git s \<and> sy_services s' = sy_services s"
proof -
  obtain l s1 where loop: "deactivate_loop sm faults (pp_external plan) [] s = (l, s1)"
    by (cases "deactivate_loop sm faults (pp_external plan) [] s")
  note lp = deactivate_loop_undo [OF loop nothing_undone]
  show ?thesis
  proof (cases l)
    case (Inl et)
    obtain e' tried where et: "et = (e', tried)" by (cases et)
    obtain k s2 where rb: "rollback_external faults (rev tried) s1 = (k, s2)"
      by (cases "rollback_external faults (rev tried) s1")
    have "e = rollback_error e' k" "s' = s2" using assms(1) loop Inl et rb by (auto simp: deactivate_def)
    then show ?thesis using rollback_external_undo [OF rb] rollback_error_eq assms(2) lp Inl et by auto
  next
    case (Inr tried)
    obtain q s2 where ex: "execute_plan faults (pp_file_plan plan) s1 = (q, s2)"
      by (cases "execute_plan faults (pp_file_plan plan) s1")
    obtain e' where q: "q = Inl e'" using assms(1) loop Inr ex by (cases q) (auto simp: deactivate_def)
    obtain k s3 where rb: "rollback_external faults (rev tried) s2 = (k, s3)"
      by (cases "rollback_external faults (rev tried) s2")
    have e: "e = rollback_error e' k" "s' = s3" using assms(1) loop Inr ex q rb by (auto simp: deactivate_def)
    have k: "k = 0" using rollback_error_eq assms(2) e(1) by blast
    then have "e' \<noteq> RollbackFailed" using assms(2) e(1) by (simp add: rollback_error_def)
    then have "fs_files s2 = fs_files s1" using execute_plan_refines [OF ex] q by (simp add: install_spec_def)
    then show ?thesis using rollback_external_undo [OF rb] k e(2) lp Inr plan_keeps_system [OF ex] by auto
  qed
qed

text \<open>The files after an activation that failed at an external step are taken back by the inverted plan.\<close>

lemma inverted_plan_restores:
  assumes "execute_plan faults (invert_plan fp) s = (Inr x, s')" "undone (rev (ip_changes fp)) (fs_files s) = m"
  shows "fs_files s' = m"
  using execute_plan_refines [OF assms(1)] assms(2) by (simp add: install_spec_def invert_plan_def inverted_undone)

lemma activate_restores:
  assumes "activate_or_repair sm faults plan s = (Inl e, s')" "e \<noteq> RollbackFailed"
  shows "fs_files s' = fs_files s \<and> sy_git s' = sy_git s"
proof -
  let ?fp = "pp_file_plan plan"
  obtain q s1 where ex: "execute_plan faults ?fp s = (q, s1)" by (cases "execute_plan faults ?fp s")
  note spec = execute_plan_refines [OF ex] plan_keeps_system [OF ex]
  show ?thesis
  proof (cases q)
    case (Inl e')
    then have "e = e'" "s' = s1" using assms(1) ex by (auto simp: activate_or_repair_def)
    then show ?thesis using spec Inl assms(2) by (auto simp: install_spec_def)
  next
    case (Inr n)
    obtain l s2 where loop: "activate_loop sm faults (pp_external plan) [] 0 0 s1 = (l, s2)"
      by (cases "activate_loop sm faults (pp_external plan) [] 0 0 s1")
    note lp = activate_loop_undo [OF loop nothing_undone(1)]
    obtain e' tried where l: "l = Inl (e', tried)"
      using assms(1) ex Inr loop by (cases l) (auto simp: activate_or_repair_def)
    obtain k s3 where rb: "rollback_external faults (rev tried) s2 = (k, s3)"
      by (cases "rollback_external faults (rev tried) s2")
    note ru = rollback_external_undo [OF rb]
    have "undone (rev (ip_changes ?fp)) (fs_files s1) = fs_files s"
      using spec(1) unfolding Inr install_spec_def sum.case by blast
    moreover have "fs_files s3 = fs_files s1" using lp ru by simp
    ultimately have undo: "undone (rev (ip_changes ?fp)) (fs_files s3) = fs_files s" by simp
    show ?thesis
    proof (cases "ip_changes ?fp = []")
      case True
      then have e: "e = rollback_error e' k" "s' = s3"
        using assms(1) ex Inr loop l rb by (auto simp: activate_or_repair_def)
      then have "k = 0" using rollback_error_eq assms(2) by blast
      moreover have "fs_files s3 = fs_files s" using undo True by (simp add: undone_def)
      ultimately show ?thesis using e(2) ru lp l spec(2) by auto
    next
      case changes: False
      obtain w s4 where inv: "execute_plan faults (invert_plan ?fp) s3 = (w, s4)"
        by (cases "execute_plan faults (invert_plan ?fp) s3")
      have e: "e = rollback_error e' (case w of Inr _ \<Rightarrow> k | Inl _ \<Rightarrow> k + 1)" "s' = s4"
        using assms(1) ex Inr loop l rb inv changes by (auto simp: activate_or_repair_def split: sum.splits)
      have "(case w of Inr _ \<Rightarrow> k | Inl _ \<Rightarrow> k + 1) = 0" using rollback_error_eq assms(2) e(1) by blast
      then obtain x where w: "w = Inr x" and k: "k = 0" by (cases w) auto
      have "fs_files s4 = fs_files s" using inverted_plan_restores [OF inv [unfolded w] undo] .
      then show ?thesis using e(2) ru k lp l spec(2) plan_keeps_system [OF inv] by auto
    qed
  qed
qed

text \<open>C22: a failed installation of the protection leaves no trace unless it says so: when
  executing the plan ends with an error that does not report a failed rollback, every file
  and the Git hooks path are as they were, and after a deactivation the services are too.\<close>

theorem protection_install_restores:
  assumes "execute_protection sm faults plan s = (Inl e, s')" "e \<noteq> RollbackFailed"
  shows "fs_files s' = fs_files s \<and> sy_git s' = sy_git s \<and>
    (pp_operation plan = Deactivate \<longrightarrow> sy_services s' = sy_services s)"
proof (cases "pp_plan_conflicts plan = []")
  case False
  then show ?thesis using assms(1) by (auto simp: execute_protection_def)
next
  case True
  obtain ms s0 where m: "match_all faults (pp_external plan) s = (ms, s0)" by (cases "match_all faults (pp_external plan) s")
  note keep = match_all_keeps [OF m]
  obtain v where ver: "verify_all faults (pp_external plan) s = (v, s0)"
    using m by (cases ms) (auto simp: verify_all_def)
  show ?thesis
  proof (cases v)
    case (Inl x)
    then show ?thesis using assms(1) True ver keep by (auto simp: execute_protection_def)
  next
    case (Inr u)
    then have run: "(if pp_operation plan = Deactivate then deactivate sm faults plan s0
        else activate_or_repair sm faults plan s0) = (Inl e, s')"
      using assms(1) True ver by (simp add: execute_protection_def)
    show ?thesis
    proof (cases "pp_operation plan = Deactivate")
      case True
      then show ?thesis using deactivate_restores [of sm faults plan s0 e s'] run assms(2) keep by simp
    next
      case False
      then show ?thesis using activate_restores [of sm faults plan s0 e s'] run assms(2) keep by simp
    qed
  qed
qed

definition idle_service :: service_status where
  "idle_service = \<lparr>ss_registered = False, ss_active = False, ss_healthy = False\<rparr>"

definition sample_system :: system where
  "sample_system =
     \<lparr>fs_files = [''/a'' \<mapsto> ''old''], fs_ops = 0, sy_git = Some ''/usr/hooks'', sy_services = (\<lambda>_. idle_service)\<rparr>"

definition sample_protection :: protection_plan where
  "sample_protection =
     \<lparr>pp_operation = Activate, pp_file_plan = sample_plan,
      pp_external = [GitHooksPath (Some ''/usr/hooks'') (Some ''/home/u/.agentkeeper/git-hooks'')],
      pp_plan_conflicts = []\<rparr>"

lemma protection_install_restores_witness:
  "sy_git (snd (execute_protection \<lparr>sm_set = (\<lambda>_ _ st. st), sm_restart = (\<lambda>_ st. st)\<rparr>
      (\<lambda>n. if n = 8 then FaultAfter else NoFault) sample_protection sample_system)) = Some ''/usr/hooks''"
proof -
  let ?sm = "\<lparr>sm_set = (\<lambda>_ _ st. st), sm_restart = (\<lambda>_ st. st)\<rparr>"
  let ?f = "\<lambda>n. if n = (8 :: nat) then FaultAfter else NoFault"
  obtain r t where e: "execute_protection ?sm ?f sample_protection sample_system = (r, t)"
    by (cases "execute_protection ?sm ?f sample_protection sample_system")
  have "fst (execute_protection ?sm ?f sample_protection sample_system) = Inl IoFailure" by code_simp
  then have r: "r = Inl IoFailure" using e by simp
  have "IoFailure \<noteq> RollbackFailed" by simp
  from protection_install_restores [OF e [unfolded r] this] show ?thesis using e by (simp add: sample_system_def)
qed

end
