(* ===== verification/Changes.thy ===== *)
theory Changes
  imports Install
begin

text \<open>
  \<open>src/application/use-cases/ApplyChanges.ts\<close>: planned changes are made one by one, each
  after a copy of the original was put into the backup directory, and can be reverted from
  the copies. The text of the clock is a parameter. The lemmas show when reverting restores
  every file, and that two paths can share a backup, in which case it does not.
\<close>

record planned_change =
  pc_path :: abs_path
  pc_before :: "string option"
  pc_after :: "string option"
  pc_summary :: string

record applied_change =
  ac_path :: abs_path
  ac_backup :: "abs_path option"

text \<open>The name of a backup: the time and the path, with the characters replaced.\<close>

definition backup_name :: "string \<Rightarrow> abs_path \<Rightarrow> string" where
  "backup_name time p =
     map (\<lambda>c. if c = CHR '':'' \<or> c = CHR ''.'' then CHR ''-'' else c) time @ ''--'' @
     replace_char slash (CHR ''_'') (ap_value p)"

definition backup_target :: "abs_path \<Rightarrow> string \<Rightarrow> abs_path \<Rightarrow> abs_path res" where
  "backup_target dir time p = path_join dir [backup_name time p]"

definition write_backup ::
  "faults \<Rightarrow> abs_path \<Rightarrow> string \<Rightarrow> planned_change \<Rightarrow> fs \<Rightarrow> abs_path option res \<times> fs" where
  "write_backup faults dir time c s =
     (case pc_before c of
        None \<Rightarrow> (Inr None, s)
      | Some content \<Rightarrow>
          (case backup_target dir time (pc_path c) of
             Inl e \<Rightarrow> (Inl e, s)
           | Inr target \<Rightarrow>
               (case fs_write faults target content s of
                  (Inl e, s1) \<Rightarrow> (Inl e, s1)
                | (Inr _, s1) \<Rightarrow> (Inr (Some target), s1))))"

text \<open>One round of \<open>execute\<close>; appending to the audit log is an operation that may fail.\<close>

definition apply_planned ::
  "faults \<Rightarrow> abs_path \<Rightarrow> string \<Rightarrow> planned_change \<Rightarrow> fs \<Rightarrow> applied_change res \<times> fs" where
  "apply_planned faults dir time c s =
     (case write_backup faults dir time c s of
        (Inl e, s1) \<Rightarrow> (Inl e, s1)
      | (Inr backup, s1) \<Rightarrow>
          (case put_content faults (pc_path c) (pc_after c) s1 of
             (Inl e, s2) \<Rightarrow> (Inl e, s2)
           | (Inr _, s2) \<Rightarrow>
               (case io faults (\<lambda>s. s) s2 of
                  (Inl e, s3) \<Rightarrow> (Inl e, s3)
                | (Inr _, s3) \<Rightarrow> (Inr \<lparr>ac_path = pc_path c, ac_backup = backup\<rparr>, s3))))"

text \<open>\<open>clock\<close> are the texts of the clock, one per change that is backed up.\<close>

fun execute_changes ::
  "faults \<Rightarrow> abs_path \<Rightarrow> (nat \<Rightarrow> string) \<Rightarrow> planned_change list \<Rightarrow> fs \<Rightarrow> applied_change list res \<times> fs" where
  "execute_changes faults dir clock [] s = (Inr [], s)"
| "execute_changes faults dir clock (c # cs) s =
     (if pc_before c = pc_after c then execute_changes faults dir clock cs s
      else case apply_planned faults dir (clock (fs_ops s)) c s of
             (Inl e, s1) \<Rightarrow> (Inl e, s1)
           | (Inr a, s1) \<Rightarrow>
               (case execute_changes faults dir clock cs s1 of
                  (Inl e, s2) \<Rightarrow> (Inl e, s2)
                | (Inr as, s2) \<Rightarrow> (Inr (a # as), s2)))"

fun revert_loop :: "faults \<Rightarrow> applied_change list \<Rightarrow> fs \<Rightarrow> unit res \<times> fs" where
  "revert_loop faults [] s = (Inr (), s)"
| "revert_loop faults (a # as) s =
     (case ac_backup a of
        None \<Rightarrow>
          (case fs_remove faults (ac_path a) s of
             (Inl e, s1) \<Rightarrow> (Inl e, s1) | (Inr _, s1) \<Rightarrow> revert_loop faults as s1)
      | Some b \<Rightarrow>
          (case fs_read faults b s of
             (Inl e, s1) \<Rightarrow> (Inl e, s1)
           | (Inr None, s1) \<Rightarrow> revert_loop faults as s1
           | (Inr (Some original), s1) \<Rightarrow>
               (case fs_write faults (ac_path a) original s1 of
                  (Inl e, s2) \<Rightarrow> (Inl e, s2) | (Inr _, s2) \<Rightarrow> revert_loop faults as s2)))"

definition revert_changes :: "faults \<Rightarrow> applied_change list \<Rightarrow> fs \<Rightarrow> unit res \<times> fs" where
  "revert_changes faults applied = revert_loop faults (rev applied)"

section \<open>Lemmas\<close>

definition no_faults :: faults where
  "no_faults = (\<lambda>_. NoFault)"

definition backup_values :: "applied_change list \<Rightarrow> string set" where
  "backup_values as = {ap_value b | a b. a \<in> set as \<and> ac_backup a = Some b}"

lemma put_content_ok:
  "put_content no_faults p content s = (Inr (), set_file p content (s\<lparr>fs_ops := fs_ops s + 1\<rparr>))"
  by (simp add: put_content_def fs_remove_def fs_write_def io_def no_faults_def split: option.splits)

lemma read_ok: "fs_read no_faults p s = (Inr (fs_files s (ap_value p)), s\<lparr>fs_ops := fs_ops s + 1\<rparr>)"
  by (simp add: fs_read_def no_faults_def Let_def)

text \<open>What one applied change leaves: the content, and the original in its backup.\<close>

lemma apply_planned_ok:
  assumes "apply_planned no_faults dir time c s = (Inr a, t)"
  shows "ac_path a = pc_path c" "(ac_backup a = None) = (pc_before c = None)"
    "fs_files t = (case (ac_backup a, pc_before c) of
       (Some b, Some original) \<Rightarrow> (fs_files s)(ap_value b \<mapsto> original, ap_value (pc_path c) := pc_after c)
     | _ \<Rightarrow> (fs_files s)(ap_value (pc_path c) := pc_after c))"
proof -
  have put: "put_content no_faults p x u = (Inr (), set_file p x (u\<lparr>fs_ops := fs_ops u + 1\<rparr>))" for p x and u :: fs
    by (rule put_content_ok)
  have wr: "fs_write no_faults p x u = (Inr (), set_file p (Some x) (u\<lparr>fs_ops := fs_ops u + 1\<rparr>))" for p x and u :: fs
    using put [of p "Some x" u] by (simp add: put_content_def)
  have idle: "io no_faults (\<lambda>s. s) u = (Inr (), u\<lparr>fs_ops := fs_ops u + 1\<rparr>)" for u :: fs
    by (simp add: io_def no_faults_def)
  show "ac_path a = pc_path c" "(ac_backup a = None) = (pc_before c = None)"
    "fs_files t = (case (ac_backup a, pc_before c) of
       (Some b, Some original) \<Rightarrow> (fs_files s)(ap_value b \<mapsto> original, ap_value (pc_path c) := pc_after c)
     | _ \<Rightarrow> (fs_files s)(ap_value (pc_path c) := pc_after c))"
    using assms
    by (auto simp: apply_planned_def write_backup_def put wr idle set_file_def split: option.splits sum.splits)
qed

definition changed_values :: "applied_change list \<Rightarrow> string set" where
  "changed_values as = {ap_value (ac_path a) | a. a \<in> set as}"

lemma changed_values_simps [simp]:
  "changed_values [] = {}" "changed_values (a # as) = insert (ap_value (ac_path a)) (changed_values as)"
  by (auto simp: changed_values_def)

lemma backup_values_simps [simp]:
  "backup_values [] = {}"
  "backup_values (a # as) = (case ac_backup a of None \<Rightarrow> {} | Some b \<Rightarrow> {ap_value b}) \<union> backup_values as"
  by (auto simp: backup_values_def split: option.splits)

text \<open>Backups that no other change shares.\<close>

fun backups_apart :: "applied_change list \<Rightarrow> bool" where
  "backups_apart [] = True"
| "backups_apart (a # as) =
     ((case ac_backup a of None \<Rightarrow> True | Some b \<Rightarrow> ap_value b \<notin> backup_values as) \<and> backups_apart as)"

text \<open>The backups hold the files as they were.\<close>

definition backed_up :: "files \<Rightarrow> applied_change list \<Rightarrow> files \<Rightarrow> bool" where
  "backed_up original as files =
     (\<forall>a \<in> set as.
        (case ac_backup a of
           None \<Rightarrow> original (ap_value (ac_path a)) = None
         | Some b \<Rightarrow> original (ap_value (ac_path a)) \<noteq> None \<and> files (ap_value b) = original (ap_value (ac_path a))))"

lemma backed_up_cong:
  assumes "\<And>a. a \<in> set as \<Longrightarrow> f (ap_value (ac_path a)) = g (ap_value (ac_path a))"
    and "\<And>a b. a \<in> set as \<Longrightarrow> ac_backup a = Some b \<Longrightarrow> h (ap_value b) = k (ap_value b)"
  shows "backed_up f as h = backed_up g as k"
  unfolding backed_up_def
proof (rule ball_cong [OF refl])
  fix a
  assume a: "a \<in> set as"
  show "(case ac_backup a of None \<Rightarrow> f (ap_value (ac_path a)) = None
        | Some b \<Rightarrow> f (ap_value (ac_path a)) \<noteq> None \<and> h (ap_value b) = f (ap_value (ac_path a))) =
      (case ac_backup a of None \<Rightarrow> g (ap_value (ac_path a)) = None
        | Some b \<Rightarrow> g (ap_value (ac_path a)) \<noteq> None \<and> k (ap_value b) = g (ap_value (ac_path a)))"
    using assms(1) [OF a] assms(2) [OF a] by (cases "ac_backup a") simp_all
qed

lemma backed_up_Cons:
  "backed_up original (a # as) files \<longleftrightarrow>
     (case ac_backup a of
        None \<Rightarrow> original (ap_value (ac_path a)) = None
      | Some b \<Rightarrow> original (ap_value (ac_path a)) \<noteq> None \<and> files (ap_value b) = original (ap_value (ac_path a))) \<and>
     backed_up original as files"
  by (simp add: backed_up_def)

lemma changed_in: "execute_changes no_faults dir clock cs s = (Inr as, t) \<Longrightarrow>
    changed_values as \<subseteq> {ap_value (pc_path c) | c. c \<in> set cs}"
proof (induction cs arbitrary: s as)
  case (Cons c cs)
  show ?case
  proof (cases "pc_before c = pc_after c")
    case True
    then show ?thesis using Cons by fastforce
  next
    case False
    obtain r s1 where ap: "apply_planned no_faults dir (clock (fs_ops s)) c s = (r, s1)"
      by (cases "apply_planned no_faults dir (clock (fs_ops s)) c s")
    obtain q s2 where ex: "execute_changes no_faults dir clock cs s1 = (q, s2)"
      by (cases "execute_changes no_faults dir clock cs s1")
    obtain a as' where a: "r = Inr a" "q = Inr as'" "as = a # as'" "t = s2"
      using Cons.prems False ap ex by (auto split: sum.splits)
    show ?thesis using Cons.IH ex a apply_planned_ok(1) [OF ap [unfolded a(1)]] by fastforce
  qed
qed simp

lemma execute_backs_up:
  assumes "execute_changes no_faults dir clock cs s = (Inr as, t)"
    and "\<forall>c \<in> set cs. fs_files s (ap_value (pc_path c)) = pc_before c"
    and "distinct (map (\<lambda>c. ap_value (pc_path c)) cs)" "backups_apart as"
    and "\<forall>c \<in> set cs. ap_value (pc_path c) \<notin> backup_values as"
  shows "backed_up (fs_files s) as (fs_files t) \<and>
    (\<forall>x. x \<notin> changed_values as \<and> x \<notin> backup_values as \<longrightarrow> fs_files t x = fs_files s x)"
  using assms
proof (induction cs arbitrary: s as)
  case Nil
  then show ?case by (auto simp: backed_up_def)
next
  case (Cons c cs)
  show ?case
  proof (cases "pc_before c = pc_after c")
    case True
    then show ?thesis using Cons.IH [of s as] Cons.prems by simp
  next
    case False
    obtain r s1 where ap: "apply_planned no_faults dir (clock (fs_ops s)) c s = (r, s1)"
      by (cases "apply_planned no_faults dir (clock (fs_ops s)) c s")
    obtain q s2 where ex: "execute_changes no_faults dir clock cs s1 = (q, s2)"
      by (cases "execute_changes no_faults dir clock cs s1")
    obtain a as' where a: "r = Inr a" "q = Inr as'" "as = a # as'" "t = s2"
      using Cons.prems(1) False ap ex by (auto split: sum.splits)
    note one = apply_planned_ok [OF ap [unfolded a(1)]]
    let ?p = "ap_value (pc_path c)"
    have before: "fs_files s ?p = pc_before c" using Cons.prems(2) by simp
    have keep: "fs_files s1 x = fs_files s x" if "x \<noteq> ?p" "\<forall>b. ac_backup a = Some b \<longrightarrow> x \<noteq> ap_value b" for x
      using that one(3) by (auto split: option.splits)
    have sub: "changed_values as' \<subseteq> {ap_value (pc_path d) | d. d \<in> set cs}"
      using changed_in [of dir clock cs s1 as' s2] ex a(2) by blast
    have fresh: "?p \<notin> changed_values as'" "?p \<notin> backup_values as'"
      using sub Cons.prems(3,5) a(3) by (auto split: option.splits)
    have rest: "\<forall>d \<in> set cs. fs_files s1 (ap_value (pc_path d)) = pc_before d"
    proof
      fix d
      assume d: "d \<in> set cs"
      have "?p \<notin> (\<lambda>c. ap_value (pc_path c)) ` set cs" using Cons.prems(3) by simp
      then have "ap_value (pc_path d) \<noteq> ?p" using d by (metis image_eqI)
      moreover have "\<forall>b. ac_backup a = Some b \<longrightarrow> ap_value (pc_path d) \<noteq> ap_value b"
        using Cons.prems(5) d a(3) by auto
      ultimately show "fs_files s1 (ap_value (pc_path d)) = pc_before d" using keep Cons.prems(2) d by simp
    qed
    have IH: "backed_up (fs_files s1) as' (fs_files t)"
      "\<forall>x. x \<notin> changed_values as' \<and> x \<notin> backup_values as' \<longrightarrow> fs_files t x = fs_files s1 x"
      using Cons.IH [of s1 as'] ex a rest Cons.prems(3-5) by auto
    have first: "case ac_backup a of None \<Rightarrow> fs_files s ?p = None
        | Some b \<Rightarrow> fs_files s ?p \<noteq> None \<and> fs_files t (ap_value b) = fs_files s ?p"
    proof (cases "ac_backup a")
      case None
      then show ?thesis using one(2) before by simp
    next
      case (Some b)
      then obtain original where original: "pc_before c = Some original" using one(2) by auto
      have apart: "ap_value b \<notin> backup_values as'" using Cons.prems(4) a(3) Some by simp
      have path: "ap_value b \<noteq> ?p" using Cons.prems(5) a(3) Some by auto
      have "\<forall>d \<in> set cs. ap_value (pc_path d) \<noteq> ap_value b" using Cons.prems(5) a(3) Some by simp
      then have "ap_value b \<notin> changed_values as'" using subsetD [OF sub, of "ap_value b"] by fastforce
      then have "fs_files t (ap_value b) = fs_files s1 (ap_value b)" using IH(2) apart by blast
      then show ?thesis using one(3) Some original path before by simp
    qed
    have others: "backed_up (fs_files s) as' (fs_files t)"
    proof -
      have "fs_files s1 (ap_value (ac_path d)) = fs_files s (ap_value (ac_path d))" if d: "d \<in> set as'" for d
      proof (rule keep)
        have "ap_value (ac_path d) \<in> changed_values as'" using d by (auto simp: changed_values_def)
        then show "ap_value (ac_path d) \<noteq> ?p" "\<forall>b. ac_backup a = Some b \<longrightarrow> ap_value (ac_path d) \<noteq> ap_value b"
          using fresh(1) sub Cons.prems(5) a(3) by auto
      qed
      then have "backed_up (fs_files s1) as' (fs_files t) = backed_up (fs_files s) as' (fs_files t)"
        by (intro backed_up_cong) simp_all
      then show ?thesis using IH(1) by simp
    qed
    have "backed_up (fs_files s) as (fs_files t)"
      using first others unfolding a(3) backed_up_Cons one(1) by blast
    moreover have "fs_files t x = fs_files s x" if "x \<notin> changed_values as \<and> x \<notin> backup_values as" for x
    proof -
      have "x \<noteq> ?p" "\<forall>b. ac_backup a = Some b \<longrightarrow> x \<noteq> ap_value b" "x \<notin> changed_values as'" "x \<notin> backup_values as'"
        using that a(3) one(1) by auto
      then show ?thesis using IH(2) keep by simp
    qed
    ultimately show ?thesis by blast
  qed
qed

lemma revert_restores_files:
  assumes "backed_up original as (fs_files s)" "changed_values as \<inter> backup_values as = {}"
  shows "\<exists>t. revert_loop no_faults as s = (Inr (), t) \<and>
    (\<forall>x. fs_files t x = (if x \<in> changed_values as then original x else fs_files s x))"
  using assms
proof (induction as arbitrary: s)
  case (Cons a as)
  let ?p = "ap_value (ac_path a)"
  obtain s1 where one: "revert_loop no_faults (a # as) s = revert_loop no_faults as s1"
    and s1: "fs_files s1 = (fs_files s)(?p := original ?p)"
  proof (cases "ac_backup a")
    case None
    then have "original ?p = None" using Cons.prems(1) by (simp add: backed_up_def)
    moreover have "fs_remove no_faults (ac_path a) s = (Inr (), set_file (ac_path a) None (s\<lparr>fs_ops := fs_ops s + 1\<rparr>))"
      using put_content_ok [of "ac_path a" None s] by (simp add: put_content_def)
    ultimately show ?thesis using that None by (simp add: set_file_def)
  next
    case (Some b)
    then obtain x where x: "original ?p = Some x" "fs_files s (ap_value b) = Some x"
      using Cons.prems(1) by (auto simp: backed_up_def)
    let ?s = "s\<lparr>fs_ops := fs_ops s + 1\<rparr>"
    have "fs_write no_faults (ac_path a) x ?s = (Inr (), set_file (ac_path a) (Some x) (?s\<lparr>fs_ops := fs_ops ?s + 1\<rparr>))"
      using put_content_ok [of "ac_path a" "Some x" ?s] by (simp add: put_content_def)
    then show ?thesis using that Some x by (simp add: read_ok set_file_def)
  qed
  have "backed_up original as (fs_files s1)"
  proof -
    have "ap_value b \<noteq> ?p" if "d \<in> set as" "ac_backup d = Some b" for d b
    proof -
      have "ap_value b \<in> backup_values (a # as)" using that by (auto simp: backup_values_def)
      moreover have "?p \<in> changed_values (a # as)" by simp
      ultimately show ?thesis using Cons.prems(2) unfolding disjoint_iff by metis
    qed
    then have keep: "fs_files s1 (ap_value b) = fs_files s (ap_value b)" if "d \<in> set as" "ac_backup d = Some b" for d b
      using that s1 by simp
    have "backed_up original as (fs_files s1) = backed_up original as (fs_files s)"
      by (intro backed_up_cong keep) simp_all
    then show ?thesis using Cons.prems(1) by (simp add: backed_up_def)
  qed
  moreover have "changed_values as \<inter> backup_values as = {}" using Cons.prems(2) by auto
  ultimately obtain t where "revert_loop no_faults as s1 = (Inr (), t)"
    "\<forall>x. fs_files t x = (if x \<in> changed_values as then original x else fs_files s1 x)"
    using Cons.IH by blast
  then show ?case using one s1 by auto
qed simp

lemma backed_up_rev: "backed_up original (rev as) files = backed_up original as files"
  by (simp add: backed_up_def)

lemma values_rev: "changed_values (rev as) = changed_values as" "backup_values (rev as) = backup_values as"
  by (simp_all add: changed_values_def backup_values_def)

section \<open>Properties\<close>

text \<open>Changes that were made can be undone exactly: when each path is changed once, was as
  planned, and the backups are files of their own, reverting puts every file back that is
  not itself a backup.\<close>

theorem revert_restores:
  assumes "execute_changes no_faults dir clock cs s = (Inr as, t)"
    and "\<forall>c \<in> set cs. fs_files s (ap_value (pc_path c)) = pc_before c"
    and "distinct (map (\<lambda>c. ap_value (pc_path c)) cs)" "backups_apart as"
    and "\<forall>c \<in> set cs. ap_value (pc_path c) \<notin> backup_values as"
  shows "\<exists>u. revert_changes no_faults as t = (Inr (), u) \<and>
    (\<forall>x. x \<notin> backup_values as \<longrightarrow> fs_files u x = fs_files s x)"
proof -
  note made = execute_backs_up [OF assms]
  have "changed_values as \<inter> backup_values as = {}" using changed_in [OF assms(1)] assms(5) by blast
  then obtain u where u: "revert_changes no_faults as t = (Inr (), u)"
    "\<forall>x. fs_files u x = (if x \<in> changed_values as then fs_files s x else fs_files t x)"
    using revert_restores_files [of "fs_files s" "rev as" t] made
    by (auto simp: revert_changes_def backed_up_rev values_rev)
  then show ?thesis using made by auto
qed

definition change_of :: "string list \<Rightarrow> string option \<Rightarrow> string option \<Rightarrow> planned_change" where
  "change_of segs before after = \<lparr>pc_path = mk_posix segs, pc_before = before, pc_after = after, pc_summary = []\<rparr>"

lemma revert_restores_witness:
  "\<exists>as t u. execute_changes no_faults (mk_posix [''b'']) (\<lambda>n. show_nat n)
      [change_of [''x''] (Some ''1'') None, change_of [''y''] None (Some ''2'')]
      \<lparr>fs_files = [''/x'' \<mapsto> ''1''], fs_ops = 0\<rparr> = (Inr as, t) \<and>
     revert_changes no_faults as t = (Inr (), u) \<and> fs_files u ''/x'' = Some ''1'' \<and> fs_files u ''/y'' = None"
proof -
  let ?cs = "[change_of [''x''] (Some ''1'') None, change_of [''y''] None (Some ''2'')]"
  let ?s = "\<lparr>fs_files = [''/x'' \<mapsto> ''1''], fs_ops = 0\<rparr>"
  let ?as = "[\<lparr>ac_path = mk_posix [''x''], ac_backup = Some (mk_posix [''b'', ''0--_x''])\<rparr>,
     \<lparr>ac_path = mk_posix [''y''], ac_backup = None\<rparr>]"
  obtain r t where e: "execute_changes no_faults (mk_posix [''b'']) (\<lambda>n. show_nat n) ?cs ?s = (r, t)"
    by (cases "execute_changes no_faults (mk_posix [''b'']) (\<lambda>n. show_nat n) ?cs ?s")
  have "fst (execute_changes no_faults (mk_posix [''b'']) (\<lambda>n. show_nat n) ?cs ?s) = Inr ?as" by code_simp
  then have r: "r = Inr ?as" using e by simp
  have v: "ap_value (mk_posix [''x'']) = ''/x''" "ap_value (mk_posix [''y'']) = ''/y''"
    "ap_value (mk_posix [''b'', ''0--_x'']) = ''/b/0--_x''" by code_simp+
  have m: "\<forall>c \<in> set ?cs. fs_files ?s (ap_value (pc_path c)) = pc_before c"
    and d: "distinct (map (\<lambda>c. ap_value (pc_path c)) ?cs)"
    and a: "backups_apart ?as" and n: "\<forall>c \<in> set ?cs. ap_value (pc_path c) \<notin> backup_values ?as"
    by (simp_all add: change_of_def v del: mk_posix_sel)
  have x: "''/x'' \<notin> backup_values ?as" "''/y'' \<notin> backup_values ?as" by (simp_all add: v del: mk_posix_sel)
  from revert_restores [OF e [unfolded r] m d a n] x e r show ?thesis by fastforce
qed

text \<open>Two paths can share a backup: the name replaces slashes, so for \<open>/x/y_z\<close> and
  \<open>/x_y/z\<close>, changed in the same millisecond, the second original overwrites the first, and
  reverting puts the second's content into both files.\<close>

theorem shared_backup_lost:
  "(case execute_changes no_faults (mk_posix [''b'']) (\<lambda>_. ''2026-01-01T00:00:00.000Z'')
       [change_of [''x'', ''y_z''] (Some ''first'') None, change_of [''x_y'', ''z''] (Some ''second'') None]
       \<lparr>fs_files = [''/x/y_z'' \<mapsto> ''first'', ''/x_y/z'' \<mapsto> ''second''], fs_ops = 0\<rparr> of
     (Inr as, t) \<Rightarrow> map_prod id (\<lambda>u. map (fs_files u) [''/x/y_z'', ''/x_y/z'']) (revert_changes no_faults as t)
   | (Inl e, t) \<Rightarrow> (Inl e, [])) = (Inr (), [Some ''second'', Some ''second''])"
  by code_simp

end
