(* ===== verification/Store.thy ===== *)
theory Store
  imports Policy Hook
begin

text \<open>
  \<open>src/infrastructure/store/JsonDocument.ts\<close> and the JSON stores of
  \<open>src/infrastructure/store/stores.ts\<close>: grants, decisions and the baseline. A store is
  the text of its one file, \<open>None\<close> when the file does not exist; an operation that throws
  leaves it as it is, since only the last step writes, and the file system replaces a file
  in one step. The two locales state what the clients of the grant and the decision store
  rely on; both are interpreted on the JSON stores.
\<close>

section \<open>Versioned documents\<close>

definition schema_version :: int where
  "schema_version = 1"

definition is_number :: "json option \<Rightarrow> int \<Rightarrow> bool" where
  "is_number j v = (case j of Some (JNumber n) \<Rightarrow> js_integer n = Some v | _ \<Rightarrow> False)"

text \<open>An array is an object without a \<open>version\<close>.\<close>

definition load_document :: "'r json_io \<Rightarrow> json \<Rightarrow> 'r option \<Rightarrow> json res" where
  "load_document io blank file =
     (case file of
        None \<Rightarrow> Inr blank
      | Some raw \<Rightarrow>
          (case io_parse io raw of
             None \<Rightarrow> Inl CorruptStore
           | Some parsed \<Rightarrow>
               if is_number (property parsed ''version'') schema_version then Inr parsed else Inl CorruptStore))"

definition save_document :: "'r json_io \<Rightarrow> json \<Rightarrow> 'r option" where
  "save_document io doc = Some (io_print io doc)"

definition versioned :: "string \<Rightarrow> json \<Rightarrow> json" where
  "versioned key content = JObject [(''version'', json_int schema_version), (key, content)]"

lemma is_number_json_int: "is_number (Some (json_int schema_version)) schema_version"
  by code_simp

lemma wf_json_int: "wf_json (json_int schema_version)"
  by code_simp

lemma property_versioned [simp]:
  "property (versioned key c) ''version'' = Some (json_int schema_version)"
  "key \<noteq> ''version'' \<Longrightarrow> property (versioned key c) key = Some c"
  by (simp_all add: property_def versioned_def)

lemma load_versioned:
  assumes "json_io_ok io" "wf_json c" "\<not> array_index key" "key \<noteq> ''version''"
  shows "load_document io blank (save_document io (versioned key c)) = Inr (versioned key c)"
proof -
  have v: "\<not> array_index ''version''" by code_simp
  have "wf_json (versioned key c)"
    using assms v wf_json_int by (simp add: versioned_def property_order_plain)
  then have "io_parse io (io_print io (versioned key c)) = Some (versioned key c)"
    using assms(1) by (simp add: json_io_ok_def)
  then show ?thesis
    by (simp add: load_document_def save_document_def is_number_json_int)
qed

lemma load_wf: "json_io_ok io \<Longrightarrow> wf_json blank \<Longrightarrow> load_document io blank file = Inr doc \<Longrightarrow> wf_json doc"
  by (auto simp: load_document_def json_io_ok_def split: option.splits if_splits)

text \<open>A file that is not the store's is never taken for an empty store.\<close>

lemma corrupt_is_refused:
  "load_document io blank (Some raw) = Inr doc \<Longrightarrow>
     io_parse io raw = Some doc \<and> is_number (property doc ''version'') schema_version"
  by (auto simp: load_document_def split: option.splits if_splits)

section \<open>Dates in JSON\<close>

text \<open>\<open>dt_value\<close> is \<open>new Date(x)\<close> of any JSON value.\<close>

record json_dates = dates +
  dt_value :: "json \<Rightarrow> int option"

definition date_of :: "json_dates \<Rightarrow> json option \<Rightarrow> int option" where
  "date_of dt j = (case j of None \<Rightarrow> None | Some v \<Rightarrow> dt_value dt v)"

definition dates_ok :: "json_dates \<Rightarrow> bool" where
  "dates_ok dt = (\<forall>t. dt_value dt (JString (dt_iso dt t)) = Some t)"

definition iso_text :: "json_dates \<Rightarrow> int option \<Rightarrow> string res" where
  "iso_text dt t = (case t of None \<Rightarrow> Inl InvalidDate | Some n \<Rightarrow> Inr (dt_iso dt n))"

section \<open>Grants in JSON\<close>

definition text_or :: "string \<Rightarrow> error \<Rightarrow> json option \<Rightarrow> string res" where
  "text_or fallback e j =
     (case j of None \<Rightarrow> Inr fallback | Some JNull \<Rightarrow> Inr fallback | Some (JString s) \<Rightarrow> Inr s | _ \<Rightarrow> Inl e)"

definition text_field :: "error \<Rightarrow> json option \<Rightarrow> string res" where
  "text_field e j = (case j of Some (JString s) \<Rightarrow> Inr s | _ \<Rightarrow> Inl e)"

text \<open>\<open>Grant.fromJSON\<close> of a value that was only cast to the shape of a grant.\<close>

definition grant_of_value :: "sha \<Rightarrow> json_dates \<Rightarrow> abs_path \<Rightarrow> json \<Rightarrow> grant res" where
  "grant_of_value h dt home raw =
     (if raw = JNull then Inl TypeErr
      else
        rbind (rbind (text_field UnknownAccess (property raw ''access'')) access_of) (\<lambda>access.
        rbind (rbind (text_or ''manual'' UnknownOrigin (property raw ''origin'')) origin_of) (\<lambda>origin.
        rbind (rbind (text_field TypeErr (property raw ''resource'')) (\<lambda>r. resource_parse r home)) (\<lambda>resource.
        rbind (rbind (text_field TypeErr (property raw ''scope'')) scope_parse) (\<lambda>scope.
        rbind (text_or ''hand-written entry'' TypeErr (property raw ''reason'')) (\<lambda>reason.
          grant_create h
            \<lparr>gp_resource = resource, gp_access = access, gp_scope = scope,
             gp_granted_at =
               (case property raw ''grantedAt'' of None \<Rightarrow> Some 0 | Some v \<Rightarrow> dt_value dt v),
             gp_reason = reason, gp_origin = origin\<rparr>))))))"

definition grant_value :: "grant_json \<Rightarrow> json" where
  "grant_value g =
     JObject
       ([(''resource'', JString (gj_resource g)), (''access'', JString (gj_access g)),
         (''scope'', JString (gj_scope g))] @
        map (\<lambda>t. (''grantedAt'', JString t)) (options_to_list [gj_granted_at g]) @
        map (\<lambda>t. (''reason'', JString t)) (options_to_list [gj_reason g]) @
        map (\<lambda>t. (''origin'', JString t)) (options_to_list [gj_origin g]))"

lemma grant_value_read:
  assumes "\<And>t. gj_granted_at g = Some t \<Longrightarrow> dt_value dt (JString t) = dt_parse dt t"
  shows "grant_of_value h dt home (grant_value g) = grant_from_json h (dates.truncate dt) g home"
  using assms
  by (simp add: grant_of_value_def grant_value_def grant_from_json_def property_def text_field_def
      text_or_def options_to_list_def dates.truncate_def split: option.split)

lemma wf_grant_value: "wf_json (grant_value g)"
proof -
  have k: "\<not> array_index ''resource''" "\<not> array_index ''access''" "\<not> array_index ''scope''"
    "\<not> array_index ''grantedAt''" "\<not> array_index ''reason''" "\<not> array_index ''origin''"
    by code_simp+
  show ?thesis
    by (simp add: grant_value_def options_to_list_def property_order_plain k split: option.split)
qed

section \<open>The grant store\<close>

text \<open>\<open>Array.filter\<close> with a callback that may throw.\<close>

fun filter_res :: "('a \<Rightarrow> bool res) \<Rightarrow> 'a list \<Rightarrow> 'a list res" where
  "filter_res p [] = Inr []"
| "filter_res p (x # xs) =
     rbind (p x) (\<lambda>keep. rbind (filter_res p xs) (\<lambda>ys. Inr (if keep then x # ys else ys)))"

lemma filter_res_traverse:
  "traverse f xs = Inr ys \<Longrightarrow>
     \<exists>zs. filter_res (\<lambda>x. rmap p (f x)) xs = Inr zs \<and> traverse f zs = Inr (filter p ys) \<and>
          set zs \<subseteq> set xs \<and> length zs = length (filter p ys)"
proof (induction xs arbitrary: ys)
  case (Cons x xs)
  then obtain y ys' where y: "f x = Inr y" "traverse f xs = Inr ys'" "ys = y # ys'" by auto
  from Cons.IH [OF y(2)] obtain zs where "filter_res (\<lambda>x. rmap p (f x)) xs = Inr zs"
    "traverse f zs = Inr (filter p ys')" "set zs \<subseteq> set xs" "length zs = length (filter p ys')" by blast
  then show ?case using y by auto
qed simp

lemma filter_res_throws: "traverse f xs = Inl e \<Longrightarrow> filter_res (\<lambda>x. rmap p (f x)) xs = Inl e"
proof (induction xs)
  case (Cons x xs)
  then show ?case by (cases "f x"; cases "traverse f xs") auto
qed simp

lemma same_length_filter:
  "length (filter (\<lambda>x. f x \<noteq> i) xs) = length xs \<longleftrightarrow> i \<notin> f ` set xs"
proof
  assume "length (filter (\<lambda>x. f x \<noteq> i) xs) = length xs"
  then show "i \<notin> f ` set xs" using length_filter_less [of _ xs "\<lambda>x. f x \<noteq> i"] by fastforce
next
  assume "i \<notin> f ` set xs"
  then have "filter (\<lambda>x. f x \<noteq> i) xs = xs" by (auto simp: filter_id_conv)
  then show "length (filter (\<lambda>x. f x \<noteq> i) xs) = length xs" by simp
qed

lemma traverse_length: "traverse f xs = Inr ys \<Longrightarrow> length ys = length xs"
  by (induction xs arbitrary: ys) auto

lemma traverse_append: "traverse f xs = Inr ys \<Longrightarrow> f x = Inr y \<Longrightarrow> traverse f (xs @ [x]) = Inr (ys @ [y])"
  by (induction xs arbitrary: ys) auto

record 'r store_env =
  se_io :: "'r json_io"
  se_sha :: sha
  se_dates :: json_dates
  se_home :: abs_path

definition env_ok :: "'r store_env \<Rightarrow> bool" where
  "env_ok env =
     (json_io_ok (se_io env) \<and> dates_ok (se_dates env) \<and>
      (\<forall>t. dt_value (se_dates env) (JString t) = dt_parse (se_dates env) t))"

definition no_grants :: json where
  "no_grants = versioned ''grants'' (JArray [])"

definition grant_entries :: "'r store_env \<Rightarrow> 'r option \<Rightarrow> json list res" where
  "grant_entries env file =
     rbind (load_document (se_io env) no_grants file) (\<lambda>doc.
       case property doc ''grants'' of Some (JArray xs) \<Rightarrow> Inr xs | _ \<Rightarrow> Inl TypeErr)"

definition read_grant :: "'r store_env \<Rightarrow> json \<Rightarrow> grant res" where
  "read_grant env = grant_of_value (se_sha env) (se_dates env) (se_home env)"

definition save_grants :: "'r store_env \<Rightarrow> json list \<Rightarrow> 'r option" where
  "save_grants env xs = save_document (se_io env) (versioned ''grants'' (JArray xs))"

definition grants_all :: "'r store_env \<Rightarrow> 'r option \<Rightarrow> grant list res" where
  "grants_all env file = rbind (grant_entries env file) (traverse (read_grant env))"

definition grants_add :: "'r store_env \<Rightarrow> grant \<Rightarrow> 'r option \<Rightarrow> 'r option res" where
  "grants_add env g file =
     rbind (grant_entries env file) (\<lambda>xs.
     rbind (filter_res (\<lambda>raw. rmap (\<lambda>x. g_id x \<noteq> g_id g) (read_grant env raw)) xs) (\<lambda>existing.
     rbind (grant_to_json (dates.truncate (se_dates env)) g (se_home env)) (\<lambda>j.
       Inr (save_grants env (existing @ [grant_value j])))))"

definition grants_revoke :: "'r store_env \<Rightarrow> string \<Rightarrow> 'r option \<Rightarrow> (bool \<times> 'r option) res" where
  "grants_revoke env i file =
     rbind (grant_entries env file) (\<lambda>xs.
     rbind (filter_res (\<lambda>raw. rmap (\<lambda>x. g_id x \<noteq> i) (read_grant env raw)) xs) (\<lambda>remaining.
       if length remaining = length xs then Inr (False, file)
       else Inr (True, save_grants env remaining)))"

text \<open>A grant that its own JSON gives back.\<close>

definition storable :: "'r store_env \<Rightarrow> grant \<Rightarrow> bool" where
  "storable env g =
     (grant_ok (se_home env) (g_props g) \<and> grant_create (se_sha env) (g_props g) = Inr g)"

lemma property_wf: "wf_json j \<Longrightarrow> property j k = Some v \<Longrightarrow> wf_json v"
  by (cases j) (auto simp: property_def dest!: map_of_SomeD)

lemma wf_no_grants: "wf_json no_grants"
  by code_simp

lemma grant_entries_wf: "env_ok env \<Longrightarrow> grant_entries env file = Inr xs \<Longrightarrow> \<forall>x \<in> set xs. wf_json x"
proof -
  assume env: "env_ok env" and "grant_entries env file = Inr xs"
  then obtain doc where doc: "load_document (se_io env) no_grants file = Inr doc"
    "property doc ''grants'' = Some (JArray xs)"
    by (auto simp: grant_entries_def split: option.splits json.splits)
  have "wf_json doc" using load_wf env wf_no_grants doc(1) by (auto simp: env_ok_def)
  then have "wf_json (JArray xs)" using doc(2) by (rule property_wf)
  then show ?thesis by simp
qed

lemma grant_entries_save:
  assumes "env_ok env" "\<forall>x \<in> set xs. wf_json x"
  shows "grant_entries env (save_grants env xs) = Inr xs"
proof -
  have k: "\<not> array_index ''grants''" by code_simp
  have "load_document (se_io env) no_grants (save_grants env xs) = Inr (versioned ''grants'' (JArray xs))"
    unfolding save_grants_def using assms k by (intro load_versioned) (auto simp: env_ok_def)
  then show ?thesis by (simp add: grant_entries_def)
qed

lemma read_grant_back:
  assumes "env_ok env" "storable env g"
  obtains j where "grant_to_json (dates.truncate (se_dates env)) g (se_home env) = Inr j"
    and "read_grant env (grant_value j) = Inr g"
proof -
  have dates: "\<forall>t. dt_parse (dates.truncate (se_dates env)) (dt_iso (dates.truncate (se_dates env)) t) = Some t"
    using assms(1) unfolding env_ok_def dates_ok_def by (metis dates.select_convs dates.truncate_def)
  have ok: "grant_ok (se_home env) (g_props g)" "grant_create (se_sha env) (g_props g) = Inr g"
    using assms(2) by (simp_all add: storable_def)
  from grant_roundtrip_aux [OF ok dates] obtain j where j:
    "grant_to_json (dates.truncate (se_dates env)) g (se_home env) = Inr j"
    "grant_from_json (se_sha env) (dates.truncate (se_dates env)) j (se_home env) = Inr g"
    by (rule rbind_eq_InrE)
  have "read_grant env (grant_value j) = Inr g"
    using j(2) assms(1) by (simp add: read_grant_def grant_value_read env_ok_def)
  with j(1) that show ?thesis by blast
qed

section \<open>What the clients of the grant store rely on\<close>

datatype grant_op = AddGrant grant | RevokeGrant string

fun run_grant_ops ::
  "(grant \<Rightarrow> 's \<Rightarrow> 's res) \<Rightarrow> (string \<Rightarrow> 's \<Rightarrow> (bool \<times> 's) res) \<Rightarrow> grant_op list \<Rightarrow> 's \<Rightarrow> 's res" where
  "run_grant_ops add revoke [] s = Inr s"
| "run_grant_ops add revoke (AddGrant g # ops) s = rbind (add g s) (run_grant_ops add revoke ops)"
| "run_grant_ops add revoke (RevokeGrant i # ops) s =
     rbind (revoke i s) (\<lambda>(found, s'). run_grant_ops add revoke ops s')"

text \<open>The abstract store: a grant for each id.\<close>

definition apply_grant_op :: "grant_op \<Rightarrow> (string \<rightharpoonup> grant) \<Rightarrow> (string \<rightharpoonup> grant)" where
  "apply_grant_op op m = (case op of AddGrant g \<Rightarrow> m(g_id g \<mapsto> g) | RevokeGrant i \<Rightarrow> m(i := None))"

definition grant_map :: "grant list \<Rightarrow> (string \<rightharpoonup> grant)" where
  "grant_map gs = map_of (map (\<lambda>g. (g_id g, g)) gs)"

definition op_storable :: "(grant \<Rightarrow> bool) \<Rightarrow> grant_op \<Rightarrow> bool" where
  "op_storable ok op = (case op of AddGrant g \<Rightarrow> ok g | RevokeGrant i \<Rightarrow> True)"

lemma grant_map_filter: "grant_map (filter (\<lambda>x. g_id x \<noteq> i) gs) = (grant_map gs)(i := None)"
  by (induction gs) (auto simp: grant_map_def fun_eq_iff)

lemma grant_map_append:
  "grant_map (filter (\<lambda>x. g_id x \<noteq> g_id g) gs @ [g]) = (grant_map gs)(g_id g \<mapsto> g)"
  using grant_map_filter [of "g_id g" gs]
  by (auto simp: grant_map_def map_add_def fun_eq_iff split: option.splits)

lemma distinct_ids_filter: "distinct (map g_id gs) \<Longrightarrow> distinct (map g_id (filter p gs))"
  by (rule distinct_map_filter)

locale grant_store =
  fixes env_ok :: "'e \<Rightarrow> bool"
    and all :: "'e \<Rightarrow> 's \<Rightarrow> grant list res"
    and add :: "'e \<Rightarrow> grant \<Rightarrow> 's \<Rightarrow> 's res"
    and revoke :: "'e \<Rightarrow> string \<Rightarrow> 's \<Rightarrow> (bool \<times> 's) res"
    and ok :: "'e \<Rightarrow> grant \<Rightarrow> bool"
  assumes all_add: "env_ok env \<Longrightarrow> ok env g \<Longrightarrow> all env s = Inr gs \<Longrightarrow>
      \<exists>s'. add env g s = Inr s' \<and> all env s' = Inr (filter (\<lambda>x. g_id x \<noteq> g_id g) gs @ [g])"
    and all_revoke: "env_ok env \<Longrightarrow> all env s = Inr gs \<Longrightarrow>
      \<exists>s'. revoke env i s = Inr (i \<in> g_id ` set gs, s') \<and> all env s' = Inr (filter (\<lambda>x. g_id x \<noteq> i) gs)"
    and add_refused: "all env s = Inl e \<Longrightarrow> add env g s = Inl e"
    and revoke_refused: "all env s = Inl e \<Longrightarrow> revoke env i s = Inl e"
begin

lemma step_refines:
  assumes "env_ok env" "all env s = Inr gs" "distinct (map g_id gs)" "op_storable (ok env) op"
  obtains s' gs' where
    "\<And>ops. run_grant_ops (add env) (revoke env) (op # ops) s = run_grant_ops (add env) (revoke env) ops s'"
    and "all env s' = Inr gs'" and "distinct (map g_id gs')"
    and "grant_map gs' = apply_grant_op op (grant_map gs)"
proof (cases op)
  case (AddGrant g)
  then obtain s' where s': "add env g s = Inr s'"
    "all env s' = Inr (filter (\<lambda>x. g_id x \<noteq> g_id g) gs @ [g])"
    using all_add [OF assms(1) _ assms(2)] assms(4) by (auto simp: op_storable_def)
  have run: "run_grant_ops (add env) (revoke env) (op # ops) s = run_grant_ops (add env) (revoke env) ops s'" for ops
    using s'(1) AddGrant by simp
  have "distinct (map g_id (filter (\<lambda>x. g_id x \<noteq> g_id g) gs @ [g]))"
    using distinct_ids_filter [OF assms(3)] by (auto simp: image_iff)
  from that [OF run s'(2) this] show ?thesis
    using AddGrant by (simp add: apply_grant_op_def grant_map_append)
next
  case (RevokeGrant i)
  obtain s' where s': "revoke env i s = Inr (i \<in> g_id ` set gs, s')"
    "all env s' = Inr (filter (\<lambda>x. g_id x \<noteq> i) gs)"
    using all_revoke [OF assms(1,2)] by blast
  have run: "run_grant_ops (add env) (revoke env) (op # ops) s = run_grant_ops (add env) (revoke env) ops s'" for ops
    using s'(1) RevokeGrant by simp
  from that [OF run s'(2) distinct_ids_filter [OF assms(3)]] show ?thesis
    using RevokeGrant by (simp add: apply_grant_op_def grant_map_filter)
qed

lemma run_refines:
  assumes "env_ok env" "all env s = Inr gs" "distinct (map g_id gs)" "list_all (op_storable (ok env)) ops"
  shows "\<exists>s' gs'. run_grant_ops (add env) (revoke env) ops s = Inr s' \<and> all env s' = Inr gs' \<and>
     distinct (map g_id gs') \<and> grant_map gs' = fold apply_grant_op ops (grant_map gs)"
  using assms(2-4)
proof (induction ops arbitrary: s gs)
  case (Cons op ops)
  then have "op_storable (ok env) op" by simp
  from step_refines [OF assms(1) Cons.prems(1,2) this] obtain s1 gs1 where 1:
    "run_grant_ops (add env) (revoke env) (op # ops) s = run_grant_ops (add env) (revoke env) ops s1"
    "all env s1 = Inr gs1" "distinct (map g_id gs1)" "grant_map gs1 = apply_grant_op op (grant_map gs)" by metis
  show ?case using Cons.IH [OF 1(2,3)] Cons.prems(3) 1(1,4) by simp
qed simp

text \<open>A store that cannot be read stays as it is: no operation writes it.\<close>

lemma unreadable_is_kept:
  "all env s = Inl e \<Longrightarrow> run_grant_ops (add env) (revoke env) (op # ops) s = Inl e"
  by (cases op) (simp_all add: add_refused revoke_refused)

end

section \<open>The JSON store provides it\<close>

lemma grants_all_add:
  assumes "env_ok env" "storable env g" "grants_all env file = Inr gs"
  shows "\<exists>file'. grants_add env g file = Inr file' \<and>
    grants_all env file' = Inr (filter (\<lambda>x. g_id x \<noteq> g_id g) gs @ [g])"
proof -
  obtain xs where xs: "grant_entries env file = Inr xs" "traverse (read_grant env) xs = Inr gs"
    using assms(3) by (auto simp: grants_all_def)
  obtain ys where ys: "filter_res (\<lambda>raw. rmap (\<lambda>x. g_id x \<noteq> g_id g) (read_grant env raw)) xs = Inr ys"
    "traverse (read_grant env) ys = Inr (filter (\<lambda>x. g_id x \<noteq> g_id g) gs)" "set ys \<subseteq> set xs"
    using filter_res_traverse [OF xs(2)] by blast
  obtain j where j: "grant_to_json (dates.truncate (se_dates env)) g (se_home env) = Inr j"
    "read_grant env (grant_value j) = Inr g" using read_grant_back [OF assms(1,2)] .
  let ?file = "save_grants env (ys @ [grant_value j])"
  have "\<forall>x \<in> set (ys @ [grant_value j]). wf_json x"
    using grant_entries_wf [OF assms(1) xs(1)] ys(3) wf_grant_value by auto
  then have "grants_all env ?file = Inr (filter (\<lambda>x. g_id x \<noteq> g_id g) gs @ [g])"
    using traverse_append [OF ys(2) j(2)] by (simp add: grants_all_def grant_entries_save [OF assms(1)])
  moreover have "grants_add env g file = Inr ?file" using xs(1) ys(1) j(1) by (simp add: grants_add_def)
  ultimately show ?thesis by blast
qed

lemma grants_all_revoke:
  assumes "env_ok env" "grants_all env file = Inr gs"
  shows "\<exists>file'. grants_revoke env i file = Inr (i \<in> g_id ` set gs, file') \<and>
    grants_all env file' = Inr (filter (\<lambda>x. g_id x \<noteq> i) gs)"
proof -
  obtain xs where xs: "grant_entries env file = Inr xs" "traverse (read_grant env) xs = Inr gs"
    using assms(2) by (auto simp: grants_all_def)
  obtain ys where ys: "filter_res (\<lambda>raw. rmap (\<lambda>x. g_id x \<noteq> i) (read_grant env raw)) xs = Inr ys"
    "traverse (read_grant env) ys = Inr (filter (\<lambda>x. g_id x \<noteq> i) gs)" "set ys \<subseteq> set xs"
    "length ys = length (filter (\<lambda>x. g_id x \<noteq> i) gs)"
    using filter_res_traverse [OF xs(2)] by blast
  have len: "length xs = length gs" using traverse_length [OF xs(2)] by simp
  have present: "length ys = length xs \<longleftrightarrow> i \<notin> g_id ` set gs"
    unfolding ys(4) len by (rule same_length_filter)
  show ?thesis
  proof (cases "length ys = length xs")
    case True
    then have "i \<notin> g_id ` set gs" using present by simp
    then have "filter (\<lambda>x. g_id x \<noteq> i) gs = gs" by (auto simp: filter_id_conv)
    then show ?thesis using True present xs(1) ys(1) assms(2) by (simp add: grants_revoke_def)
  next
    case False
    have "\<forall>x \<in> set ys. wf_json x" using grant_entries_wf [OF assms(1) xs(1)] ys(3) by auto
    then have "grants_all env (save_grants env ys) = Inr (filter (\<lambda>x. g_id x \<noteq> i) gs)"
      using ys(2) by (simp add: grants_all_def grant_entries_save [OF assms(1)])
    then show ?thesis using False present xs(1) ys(1) by (simp add: grants_revoke_def)
  qed
qed

lemma grants_refused:
  assumes "grants_all env file = Inl e"
  shows "grants_add env g file = Inl e" "grants_revoke env i file = Inl e"
proof -
  show "grants_add env g file = Inl e"
  proof (cases "grant_entries env file")
    case (Inr xs)
    then have "traverse (read_grant env) xs = Inl e" using assms by (simp add: grants_all_def)
    from filter_res_throws [OF this] Inr show ?thesis by (simp add: grants_add_def)
  qed (use assms in \<open>simp add: grants_all_def grants_add_def\<close>)
  show "grants_revoke env i file = Inl e"
  proof (cases "grant_entries env file")
    case (Inr xs)
    then have "traverse (read_grant env) xs = Inl e" using assms by (simp add: grants_all_def)
    from filter_res_throws [OF this] Inr show ?thesis by (simp add: grants_revoke_def)
  qed (use assms in \<open>simp add: grants_all_def grants_revoke_def\<close>)
qed

interpretation json_grants: grant_store env_ok grants_all grants_add grants_revoke storable
  by unfold_locales (simp_all add: grants_all_add grants_all_revoke grants_refused)

text \<open>C29: the allowlist file is a map from grant ids to grants. Whatever sequence of additions
  and revocations runs on a readable allowlist without a repeated id, none of them throws, and
  what is read afterwards is exactly the result of the same sequence on a map: an addition
  replaces the grant of its id, a revocation removes it, every other grant is untouched.\<close>

theorem grants_refine_map:
  assumes "env_ok env" "grants_all env file = Inr gs" "distinct (map g_id gs)"
    and "list_all (op_storable (storable env)) ops"
  shows "\<exists>file' gs'. run_grant_ops (grants_add env) (grants_revoke env) ops file = Inr file' \<and>
    grants_all env file' = Inr gs' \<and> distinct (map g_id gs') \<and>
    grant_map gs' = fold apply_grant_op ops (grant_map gs)"
  using assms by (rule json_grants.run_refines)

definition sample_json_dates :: json_dates where
  "sample_json_dates =
     dates.extend sample_dates
       \<lparr>dt_value = (\<lambda>j. case j of JString s \<Rightarrow> dt_parse sample_dates s | _ \<Rightarrow> None)\<rparr>"

definition sample_sha :: sha where
  "sample_sha s = drop 16 s"

definition sample_env :: "json store_env" where
  "sample_env =
     \<lparr>se_io = plain_io, se_sha = sample_sha, se_dates = sample_json_dates,
      se_home = mk_posix [''home'', ''u'']\<rparr>"

lemma sample_env_ok: "env_ok sample_env"
  using sample_dates_ok
  by (simp add: env_ok_def sample_env_def plain_io_ok dates_ok_def sample_json_dates_def dates.extend_def)

definition stored_grant :: "resource_ref \<Rightarrow> grant" where
  "stored_grant r =
     grant_new sample_sha \<lparr>gp_resource = r, gp_access = Read, gp_scope = scope_global,
       gp_granted_at = Some 3, gp_reason = ''docs'', gp_origin = Runtime\<rparr>"

definition sample_ops :: "grant_op list" where
  "sample_ops =
     [AddGrant (stored_grant (subtree_ref (mk_posix [''home'', ''u'', ''docs'']))),
      AddGrant (stored_grant (file_ref (mk_posix [''etc'', ''hosts'']))),
      RevokeGrant ''docs|read|gl'']"

lemma grants_refine_map_witness:
  "\<exists>file' gs'. run_grant_ops (grants_add sample_env) (grants_revoke sample_env) sample_ops None = Inr file' \<and>
     grants_all sample_env file' = Inr gs' \<and> distinct (map g_id gs') \<and>
     grant_map gs' = fold apply_grant_op sample_ops (grant_map [])"
proof (rule grants_refine_map [OF sample_env_ok])
  show "grants_all sample_env None = Inr []" by code_simp
  show "list_all (op_storable (storable sample_env)) sample_ops" by code_simp
qed simp

section \<open>Decisions\<close>

definition verdict_of_value :: "json option \<Rightarrow> verdict" where
  "verdict_of_value j =
     (if j = Some (JString ''allow'') then Allow else if j = Some (JString ''deny'') then Deny
      else UnknownVerdict)"

text \<open>\<open>UnknownVerdict\<close> is never recorded.\<close>

definition verdict_name :: "verdict \<Rightarrow> string" where
  "verdict_name v = (case v of Allow \<Rightarrow> ''allow'' | Deny \<Rightarrow> ''deny'' | UnknownVerdict \<Rightarrow> [])"

text \<open>A \<open>key\<close> of the stored value itself hides the key it is stored under.\<close>

definition decision_of_value :: "json_dates \<Rightarrow> string \<Rightarrow> json \<Rightarrow> stored_decision res" where
  "decision_of_value dt key stored =
     (if stored = JNull then Inl TypeErr
      else Inr \<lparr>dc_key = (case as_string (property stored ''key'') of None \<Rightarrow> key | Some k \<Rightarrow> k),
                dc_verdict = verdict_of_value (property stored ''verdict''),
                dc_subject = as_string (property stored ''subject''),
                dc_rule_ids = property stored ''ruleIds'',
                dc_decided_at = date_of dt (property stored ''decidedAt'')\<rparr>)"

definition value_of_decision :: "json_dates \<Rightarrow> stored_decision \<Rightarrow> json res" where
  "value_of_decision dt d =
     rbind (iso_text dt (dc_decided_at d)) (\<lambda>at.
       Inr (JObject
         ([(''verdict'', JString (verdict_name (dc_verdict d)))] @
          map (\<lambda>t. (''subject'', JString t)) (options_to_list [dc_subject d]) @
          map (\<lambda>r. (''ruleIds'', r)) (options_to_list [dc_rule_ids d]) @
          [(''decidedAt'', JString at)])))"

definition no_decisions :: json where
  "no_decisions = versioned ''decisions'' (JObject [])"

text \<open>The own properties of a value. \<open>Object.entries\<close> and a property access throw on
  \<open>null\<close> and \<open>undefined\<close>; a spread takes them for an empty object.\<close>

definition own_entries :: "json option \<Rightarrow> (string \<times> json) list res" where
  "own_entries j =
     (case j of
        None \<Rightarrow> Inl TypeErr
      | Some v \<Rightarrow>
          (case v of
             JNull \<Rightarrow> Inl TypeErr
           | JObject props \<Rightarrow> Inr props
           | JArray xs \<Rightarrow> Inr (zip (map show_nat [0..<length xs]) xs)
           | JString s \<Rightarrow> Inr (zip (map show_nat [0..<length s]) (map (\<lambda>c. JString [c]) s))
           | _ \<Rightarrow> Inr []))"

definition spread :: "json option \<Rightarrow> (string \<times> json) list" where
  "spread j = (case own_entries j of Inl _ \<Rightarrow> [] | Inr props \<Rightarrow> props)"

definition load_decisions :: "'r store_env \<Rightarrow> 'r option \<Rightarrow> json option res" where
  "load_decisions env file =
     rmap (\<lambda>doc. property doc ''decisions'') (load_document (se_io env) no_decisions file)"

definition read_decision :: "json_dates \<Rightarrow> string \<Rightarrow> (string \<times> json) list \<Rightarrow> stored_decision option res" where
  "read_decision dt key ps =
     (case map_of ps key of
        None \<Rightarrow> Inr None
      | Some stored \<Rightarrow> rmap Some (decision_of_value dt key stored))"

definition decisions_find :: "'r store_env \<Rightarrow> string \<Rightarrow> 'r option \<Rightarrow> stored_decision option res" where
  "decisions_find env key file =
     rbind (rbind (load_decisions env file) own_entries) (read_decision (se_dates env) key)"

definition decisions_all :: "'r store_env \<Rightarrow> 'r option \<Rightarrow> stored_decision list res" where
  "decisions_all env file =
     rbind (rbind (load_decisions env file) own_entries)
       (traverse (\<lambda>(key, stored). decision_of_value (se_dates env) key stored))"

fun put_decisions :: "json_dates \<Rightarrow> stored_decision list \<Rightarrow> (string \<times> json) list \<Rightarrow> (string \<times> json) list res" where
  "put_decisions dt [] ps = Inr ps"
| "put_decisions dt (d # ds) ps =
     rbind (value_of_decision dt d) (\<lambda>v. put_decisions dt ds (map_set (dc_key d) v ps))"

definition decisions_record_many :: "'r store_env \<Rightarrow> stored_decision list \<Rightarrow> 'r option \<Rightarrow> 'r option res" where
  "decisions_record_many env ds file =
     (if length ds = 0 then Inr file
      else rbind (load_decisions env file) (\<lambda>stored.
           rbind (put_decisions (se_dates env) ds (spread stored)) (\<lambda>ps.
             Inr (save_document (se_io env) (versioned ''decisions'' (JObject ps))))))"

definition decisions_record :: "'r store_env \<Rightarrow> stored_decision \<Rightarrow> 'r option \<Rightarrow> 'r option res" where
  "decisions_record env d = decisions_record_many env [d]"

section \<open>What the clients of the decision store rely on\<close>

definition latest :: "string \<Rightarrow> stored_decision list \<Rightarrow> stored_decision option" where
  "latest key ds = map_of (rev (map (\<lambda>d. (dc_key d, d)) ds)) key"

lemma latest_simps [simp]:
  "latest key [] = None"
  "latest key (ds @ [d]) = (if dc_key d = key then Some d else latest key ds)"
  by (simp_all add: latest_def)

lemma latest_Cons:
  "latest key (d # ds) = (case latest key ds of None \<Rightarrow> if dc_key d = key then Some d else None | Some e \<Rightarrow> Some e)"
  by (simp add: latest_def map_add_def split: option.split)

lemma index_decisions_latest: "map_of (index_decisions ds) key = latest key ds"
  by (induction ds rule: rev_induct) (simp_all add: index_decisions_def map_of_map_set)

definition decision_storable :: "stored_decision \<Rightarrow> bool" where
  "decision_storable d =
     (dc_verdict d \<noteq> UnknownVerdict \<and> dc_subject d \<noteq> None \<and> dc_decided_at d \<noteq> None \<and>
      (case dc_rule_ids d of None \<Rightarrow> False | Some j \<Rightarrow> wf_json j) \<and> \<not> array_index (dc_key d))"

text \<open>
  The interface: a state in which every stored decision can be read, and the laws of
  looking up, reading all, and recording many at once.
\<close>

locale decision_store =
  fixes env_ok :: "'e \<Rightarrow> bool"
    and readable :: "'e \<Rightarrow> 's \<Rightarrow> bool"
    and find :: "'e \<Rightarrow> string \<Rightarrow> 's \<Rightarrow> stored_decision option res"
    and all :: "'e \<Rightarrow> 's \<Rightarrow> stored_decision list res"
    and put :: "'e \<Rightarrow> stored_decision list \<Rightarrow> 's \<Rightarrow> 's res"
    and ok :: "stored_decision \<Rightarrow> bool"
  assumes find_all: "env_ok env \<Longrightarrow> readable env s \<Longrightarrow>
      \<exists>ds. all env s = Inr ds \<and> (\<forall>key. find env key s = Inr (latest key ds))"
    and find_put: "env_ok env \<Longrightarrow> readable env s \<Longrightarrow> list_all ok ds \<Longrightarrow>
      \<exists>s'. put env ds s = Inr s' \<and> readable env s' \<and>
        (\<forall>key. find env key s' = (case latest key ds of None \<Rightarrow> find env key s | Some d \<Rightarrow> Inr (Some d)))"
begin

lemma find_put_same:
  assumes "env_ok env" "readable env s" "ok d"
  obtains s' where "put env [d] s = Inr s'" "readable env s'"
    and "\<And>key. find env key s' = (if key = dc_key d then Inr (Some d) else find env key s)"
  using find_put [OF assms(1,2), of "[d]"] assms(3) by (force simp: latest_def split: if_splits)

lemma find_total: "env_ok env \<Longrightarrow> readable env s \<Longrightarrow> \<exists>r. find env key s = Inr r"
  using find_all by fastforce

end

section \<open>The JSON store provides it, too\<close>

definition granted_entry_ok :: "json \<Rightarrow> bool" where
  "granted_entry_ok v = (v \<noteq> JNull \<and> as_string (property v ''key'') = None)"

definition decisions_readable :: "'r store_env \<Rightarrow> 'r option \<Rightarrow> bool" where
  "decisions_readable env file =
     (case load_decisions env file of
        Inr (Some (JObject ps)) \<Rightarrow> list_all (\<lambda>p. granted_entry_ok (snd p)) ps
      | _ \<Rightarrow> False)"

lemma decisions_readableE:
  assumes "decisions_readable env file"
  obtains ps where "load_decisions env file = Inr (Some (JObject ps))" "\<forall>p \<in> set ps. granted_entry_ok (snd p)"
  using assms by (auto simp: decisions_readable_def list_all_iff split: sum.splits option.splits json.splits)

lemma load_decisions_wf:
  assumes "env_ok env" "load_decisions env file = Inr (Some v)"
  shows "wf_json v"
proof -
  obtain doc where doc: "load_document (se_io env) no_decisions file = Inr doc" "property doc ''decisions'' = Some v"
    using assms(2) by (cases "load_document (se_io env) no_decisions file") (auto simp: load_decisions_def)
  have "wf_json no_decisions" by code_simp
  then have "wf_json doc" using load_wf doc(1) assms(1) by (auto simp: env_ok_def)
  then show ?thesis using property_wf doc(2) by blast
qed

lemma load_decisions_save:
  assumes "env_ok env" "wf_json v"
  shows "load_decisions env (save_document (se_io env) (versioned ''decisions'' v)) = Inr (Some v)"
proof -
  have k: "\<not> array_index ''decisions''" by code_simp
  show ?thesis
    using load_versioned [of "se_io env" v "''decisions''"] assms k by (simp add: load_decisions_def env_ok_def)
qed

lemma value_of_decision_back:
  assumes "dates_ok dt" "decision_storable d"
  obtains v where "value_of_decision dt d = Inr v" "wf_json v" "granted_entry_ok v"
    and "decision_of_value dt (dc_key d) v = Inr d"
proof -
  obtain t where t: "dc_decided_at d = Some t" using assms(2) by (auto simp: decision_storable_def)
  obtain u where u: "dc_subject d = Some u" using assms(2) by (auto simp: decision_storable_def)
  obtain r where r: "dc_rule_ids d = Some r" "wf_json r"
    using assms(2) by (auto simp: decision_storable_def split: option.splits)
  define v where "v = JObject [(''verdict'', JString (verdict_name (dc_verdict d))), (''subject'', JString u),
    (''ruleIds'', r), (''decidedAt'', JString (dt_iso dt t))]"
  have k: "\<not> array_index ''verdict''" "\<not> array_index ''subject''" "\<not> array_index ''ruleIds''"
    "\<not> array_index ''decidedAt''" by code_simp+
  have "value_of_decision dt d = Inr v"
    by (simp add: value_of_decision_def t u r iso_text_def options_to_list_def v_def)
  moreover have "wf_json v" using r k by (simp add: v_def property_order_plain)
  moreover have "granted_entry_ok v" by (simp add: granted_entry_ok_def v_def property_def as_string_def)
  moreover have "verdict_of_value (Some (JString (verdict_name (dc_verdict d)))) = dc_verdict d"
    using assms(2) by (cases "dc_verdict d") (simp_all add: decision_storable_def verdict_of_value_def verdict_name_def)
  then have "decision_of_value dt (dc_key d) v = Inr d"
    using assms(1) t u r
    by (simp add: decision_of_value_def v_def property_def as_string_def date_of_def dates_ok_def)
  ultimately show ?thesis using that by blast
qed

lemma map_set_keys:
  "map fst (map_set k v ps) = (if k \<in> fst ` set ps then map fst ps else map fst ps @ [k])"
  by (induction k v ps rule: map_set.induct) auto

lemma set_map_set: "p \<in> set (map_set k v ps) \<Longrightarrow> p \<in> set ps \<or> p = (k, v)"
  by (induction k v ps rule: map_set.induct) (auto split: if_splits)

lemma wf_map_set:
  "wf_json (JObject ps) \<Longrightarrow> wf_json v \<Longrightarrow> \<not> array_index k \<Longrightarrow> wf_json (JObject (map_set k v ps))"
  using property_order_append [of "map fst ps" k]
  by (auto simp: map_set_keys dest!: set_map_set)

lemma put_decisions_read:
  assumes "dates_ok dt" "list_all decision_storable ds" "wf_json (JObject ps)" "\<forall>p \<in> set ps. granted_entry_ok (snd p)"
  shows "\<exists>ps'. put_decisions dt ds ps = Inr ps' \<and> wf_json (JObject ps') \<and> (\<forall>p \<in> set ps'. granted_entry_ok (snd p)) \<and>
    (\<forall>key. read_decision dt key ps' =
      (case latest key ds of None \<Rightarrow> read_decision dt key ps | Some d \<Rightarrow> Inr (Some d)))"
  using assms(2-4)
proof (induction ds arbitrary: ps)
  case (Cons d ds)
  then have d: "decision_storable d" and k: "\<not> array_index (dc_key d)" by (simp_all add: decision_storable_def)
  obtain v where v: "value_of_decision dt d = Inr v" "wf_json v" "granted_entry_ok v"
    "decision_of_value dt (dc_key d) v = Inr d" using value_of_decision_back [OF assms(1) d] .
  let ?ps = "map_set (dc_key d) v ps"
  have "\<forall>p \<in> set ?ps. granted_entry_ok (snd p)" using Cons.prems(3) v(3) by (auto dest!: set_map_set)
  from Cons.IH [OF _ wf_map_set [OF Cons.prems(2) v(2) k] this] Cons.prems(1) obtain ps' where ps':
    "put_decisions dt ds ?ps = Inr ps'" "wf_json (JObject ps')" "\<forall>p \<in> set ps'. granted_entry_ok (snd p)"
    "\<And>key. read_decision dt key ps' =
      (case latest key ds of None \<Rightarrow> read_decision dt key ?ps | Some d \<Rightarrow> Inr (Some d))" by auto
  have "read_decision dt key ?ps = (if key = dc_key d then Inr (Some d) else read_decision dt key ps)" for key
    using v(4) by (simp add: read_decision_def map_of_map_set)
  then have "read_decision dt key ps' =
      (case latest key (d # ds) of None \<Rightarrow> read_decision dt key ps | Some d \<Rightarrow> Inr (Some d))" for key
    by (auto simp: ps'(4) latest_Cons split: option.split)
  then show ?case using ps'(1-3) v(1) by auto
qed simp

lemma traverse_decisions:
  assumes "distinct (map fst ps)" "\<forall>p \<in> set ps. granted_entry_ok (snd p)"
  shows "\<exists>ds. traverse (\<lambda>(key, stored). decision_of_value dt key stored) ps = Inr ds \<and>
    map dc_key ds = map fst ps \<and> (\<forall>key. read_decision dt key ps = Inr (map_of (map (\<lambda>d. (dc_key d, d)) ds) key))"
  using assms
proof (induction ps)
  case (Cons p ps)
  obtain k v where p: "p = (k, v)" by (cases p)
  obtain ds where ds: "traverse (\<lambda>(key, stored). decision_of_value dt key stored) ps = Inr ds"
    "map dc_key ds = map fst ps"
    "\<And>key. read_decision dt key ps = Inr (map_of (map (\<lambda>d. (dc_key d, d)) ds) key)"
    using Cons by auto
  obtain d where d: "decision_of_value dt k v = Inr d" "dc_key d = k"
    using Cons.prems(2) p by (auto simp: decision_of_value_def granted_entry_ok_def)
  have "read_decision dt key (p # ps) = Inr (map_of (map (\<lambda>d. (dc_key d, d)) (d # ds)) key)" for key
    using ds(3) [of key] d p by (simp add: read_decision_def)
  then show ?case using ds d p by auto
qed (simp add: read_decision_def)

lemma map_of_rev_distinct: "distinct (map fst ps) \<Longrightarrow> map_of (rev ps) k = map_of ps k"
  using map_of_eqI [of "rev ps" ps] by (metis distinct_rev rev_map map_of_eq_Some_iff not_None_eq set_rev set_map option.exhaust)

lemma decisions_find_all:
  assumes "env_ok env" "decisions_readable env file"
  shows "\<exists>ds. decisions_all env file = Inr ds \<and> (\<forall>key. decisions_find env key file = Inr (latest key ds))"
proof -
  obtain ps where ps: "load_decisions env file = Inr (Some (JObject ps))" "\<forall>p \<in> set ps. granted_entry_ok (snd p)"
    using decisions_readableE [OF assms(2)] .
  have "wf_json (JObject ps)" using load_decisions_wf assms(1) ps(1) by blast
  then have dist: "distinct (map fst ps)" by (simp add: property_order_def Let_def)
  obtain ds where ds: "traverse (\<lambda>(key, stored). decision_of_value (se_dates env) key stored) ps = Inr ds"
    "map dc_key ds = map fst ps"
    "\<And>key. read_decision (se_dates env) key ps = Inr (map_of (map (\<lambda>d. (dc_key d, d)) ds) key)"
    using traverse_decisions [OF dist ps(2), of "se_dates env"] by blast
  have "map fst (map (\<lambda>d. (dc_key d, d)) ds) = map fst ps" using ds(2) by (simp add: comp_def)
  then have "map_of (map (\<lambda>d. (dc_key d, d)) ds) key = latest key ds" for key
    using dist map_of_rev_distinct [of "map (\<lambda>d. (dc_key d, d)) ds" key] by (simp add: latest_def)
  then show ?thesis using ps(1) ds by (simp add: decisions_find_def decisions_all_def own_entries_def)
qed

lemma decisions_find_put:
  assumes "env_ok env" "decisions_readable env file" "list_all decision_storable ds"
  shows "\<exists>file'. decisions_record_many env ds file = Inr file' \<and> decisions_readable env file' \<and>
    (\<forall>key. decisions_find env key file' =
      (case latest key ds of None \<Rightarrow> decisions_find env key file | Some d \<Rightarrow> Inr (Some d)))"
proof (cases "ds = []")
  case True
  then show ?thesis using assms(2) by (simp add: decisions_record_many_def)
next
  case False
  obtain ps where ps: "load_decisions env file = Inr (Some (JObject ps))" "\<forall>p \<in> set ps. granted_entry_ok (snd p)"
    using decisions_readableE [OF assms(2)] .
  have wf: "wf_json (JObject ps)" using load_decisions_wf assms(1) ps(1) by blast
  have dates: "dates_ok (se_dates env)" using assms(1) by (simp add: env_ok_def)
  obtain ps' where ps': "put_decisions (se_dates env) ds ps = Inr ps'" "wf_json (JObject ps')"
    "\<forall>p \<in> set ps'. granted_entry_ok (snd p)"
    "\<And>key. read_decision (se_dates env) key ps' =
      (case latest key ds of None \<Rightarrow> read_decision (se_dates env) key ps | Some d \<Rightarrow> Inr (Some d))"
    using put_decisions_read [OF dates assms(3) wf ps(2)] by blast
  let ?file = "save_document (se_io env) (versioned ''decisions'' (JObject ps'))"
  have load: "load_decisions env ?file = Inr (Some (JObject ps'))" using load_decisions_save [OF assms(1) ps'(2)] .
  have "decisions_record_many env ds file = Inr ?file"
    using False ps(1) ps'(1) by (simp add: decisions_record_many_def spread_def own_entries_def)
  moreover have "decisions_readable env ?file"
    using load ps'(3) by (simp add: decisions_readable_def list_all_iff)
  moreover have "decisions_find env key ?file =
      (case latest key ds of None \<Rightarrow> decisions_find env key file | Some d \<Rightarrow> Inr (Some d))" for key
    using load ps(1) ps'(4) [of key] by (simp add: decisions_find_def own_entries_def split: option.split)
  ultimately show ?thesis by blast
qed

interpretation json_decisions: decision_store env_ok decisions_readable decisions_find decisions_all
    decisions_record_many decision_storable
  by unfold_locales (simp_all add: decisions_find_all decisions_find_put)

lemma no_file_is_readable: "decisions_readable env None"
  by (simp add: decisions_readable_def load_decisions_def load_document_def no_decisions_def)

text \<open>A verdict is not checked: whatever is not one of the two words is neither.\<close>

lemma unknown_verdict_read:
  "property v ''verdict'' = Some (JString w) \<Longrightarrow> w \<noteq> ''allow'' \<Longrightarrow> w \<noteq> ''deny'' \<Longrightarrow>
     decision_of_value dt key v = Inr d \<Longrightarrow> dc_verdict d = UnknownVerdict"
  by (auto simp: decision_of_value_def verdict_of_value_def split: if_splits)

section \<open>The baseline\<close>

record baseline_entry =
  bl_path :: abs_path
  bl_hash :: content_hash
  bl_recorded_at :: "int option"

definition no_entries :: json where
  "no_entries = versioned ''entries'' (JArray [])"

definition entry_of_value :: "json_dates \<Rightarrow> json \<Rightarrow> baseline_entry res" where
  "entry_of_value dt raw =
     (if raw = JNull then Inl TypeErr
      else rbind (rbind (text_field TypeErr (property raw ''path'')) of_path) (\<lambda>path.
           rbind (rbind (text_field TypeErr (property raw ''hash'')) hash_parse) (\<lambda>hash.
             Inr \<lparr>bl_path = path, bl_hash = hash, bl_recorded_at = date_of dt (property raw ''recordedAt'')\<rparr>)))"

definition value_of_entry :: "json_dates \<Rightarrow> baseline_entry \<Rightarrow> json res" where
  "value_of_entry dt e =
     rmap (\<lambda>at. JObject [(''path'', JString (ap_value (bl_path e))),
                         (''hash'', JString (hash_to_string (bl_hash e))), (''recordedAt'', JString at)])
       (iso_text dt (bl_recorded_at e))"

definition baseline_load :: "'r store_env \<Rightarrow> 'r option \<Rightarrow> baseline_entry list res" where
  "baseline_load env file =
     rbind (load_document (se_io env) no_entries file) (\<lambda>doc.
       case property doc ''entries'' of
         Some (JArray xs) \<Rightarrow> traverse (entry_of_value (se_dates env)) xs
       | _ \<Rightarrow> Inl TypeErr)"

definition baseline_save :: "'r store_env \<Rightarrow> baseline_entry list \<Rightarrow> 'r option res" where
  "baseline_save env es =
     rbind (traverse (value_of_entry (se_dates env)) es) (\<lambda>xs.
       Inr (save_document (se_io env) (versioned ''entries'' (JArray xs))))"

definition entry_storable :: "baseline_entry \<Rightarrow> bool" where
  "entry_storable e =
     (of_path (ap_value (bl_path e)) = Inr (bl_path e) \<and>
      hash_parse (hash_to_string (bl_hash e)) = Inr (bl_hash e) \<and> bl_recorded_at e \<noteq> None)"

lemma value_of_entry_back:
  assumes "dates_ok dt" "entry_storable e"
  obtains v where "value_of_entry dt e = Inr v" "wf_json v" "entry_of_value dt v = Inr e"
proof -
  obtain t where t: "bl_recorded_at e = Some t" using assms(2) by (auto simp: entry_storable_def)
  define v where "v = JObject [(''path'', JString (ap_value (bl_path e))),
    (''hash'', JString (hash_to_string (bl_hash e))), (''recordedAt'', JString (dt_iso dt t))]"
  have k: "\<not> array_index ''path''" "\<not> array_index ''hash''" "\<not> array_index ''recordedAt''" by code_simp+
  have "value_of_entry dt e = Inr v" by (simp add: value_of_entry_def t iso_text_def v_def)
  moreover have "wf_json v" using k by (simp add: v_def property_order_plain)
  moreover have "entry_of_value dt v = Inr e"
    using assms t
    by (simp add: entry_of_value_def v_def property_def text_field_def entry_storable_def date_of_def dates_ok_def)
  ultimately show ?thesis using that by blast
qed

lemma baseline_saved:
  assumes "env_ok env" "list_all entry_storable es"
  shows "\<exists>file. baseline_save env es = Inr file \<and> baseline_load env file = Inr es"
proof -
  have dates: "dates_ok (se_dates env)" using assms(1) by (simp add: env_ok_def)
  have "\<exists>xs. traverse (value_of_entry (se_dates env)) es = Inr xs \<and> (\<forall>x \<in> set xs. wf_json x) \<and>
      traverse (entry_of_value (se_dates env)) xs = Inr es"
    using assms(2)
  proof (induction es)
    case (Cons e es)
    then obtain xs where xs: "traverse (value_of_entry (se_dates env)) es = Inr xs" "\<forall>x \<in> set xs. wf_json x"
      "traverse (entry_of_value (se_dates env)) xs = Inr es" by auto
    obtain v where v: "value_of_entry (se_dates env) e = Inr v" "wf_json v" "entry_of_value (se_dates env) v = Inr e"
      using value_of_entry_back [OF dates] Cons.prems by auto
    show ?case by (rule exI [of _ "v # xs"]) (use xs v in simp)
  qed simp
  then obtain xs where xs: "traverse (value_of_entry (se_dates env)) es = Inr xs" "\<forall>x \<in> set xs. wf_json x"
    "traverse (entry_of_value (se_dates env)) xs = Inr es" by blast
  have k: "\<not> array_index ''entries''" by code_simp
  have "load_document (se_io env) no_entries (save_document (se_io env) (versioned ''entries'' (JArray xs))) =
      Inr (versioned ''entries'' (JArray xs))"
    using assms(1) xs(2) k by (intro load_versioned) (auto simp: env_ok_def)
  then show ?thesis using xs by (simp add: baseline_save_def baseline_load_def)
qed

end
