(* ===== verification/Decisions.thy ===== *)
theory Decisions
  imports Store
begin

text \<open>
  \<open>src/application/use-cases/\<close> (\<open>GrantAccess.ts\<close>, \<open>ReviewFindings.ts\<close>): granting access
  while the agent runs, and answering the findings of an interactive scan. Both work on a
  store through its interface, so their lemmas are proved in the locales of the stores and
  hold for the JSON stores. The prompter, the clock and the audit log are parameters.
\<close>

section \<open>Reviewing findings\<close>

datatype answer_choice = AllowOnce | AllowForever | DenyOnce | DenyForever

definition answer_name :: "answer_choice \<Rightarrow> string" where
  "answer_name a =
     (case a of AllowOnce \<Rightarrow> ''allow-once'' | AllowForever \<Rightarrow> ''allow-forever''
      | DenyOnce \<Rightarrow> ''deny'' | DenyForever \<Rightarrow> ''deny-forever'')"

text \<open>
  What the use case is given. An answer depends on the questions asked before; the clock is
  read once for each number of questions. \<open>rc_append\<close> says whether the log takes an entry.
\<close>

record 's review_ports =
  rc_find :: "string \<Rightarrow> 's \<Rightarrow> stored_decision option res"
  rc_put :: "stored_decision list \<Rightarrow> 's \<Rightarrow> 's res"
  rc_ask :: "finding list \<Rightarrow> finding \<Rightarrow> answer_choice option"
  rc_append :: "audit_entry list \<Rightarrow> audit_entry \<Rightarrow> bool"
  rc_now :: "nat \<Rightarrow> int option"

record 's review_state =
  rv_store :: 's
  rv_log :: "audit_entry list"
  rv_asked :: "finding list"
  rv_kept :: "finding list"
  rv_answers :: nat
  rv_recorded :: nat

definition review_entry :: "int option \<Rightarrow> finding \<Rightarrow> answer_choice \<Rightarrow> bool \<Rightarrow> audit_entry" where
  "review_entry now f answer persisted =
     \<lparr>au_at = now, au_event = ''finding.reviewed'',
      au_details =
        [(''decisionKey'', JString (decision_key f)),
         (''rule'', JString (rid_value (fd_rule f))),
         (''subject'', JString (fd_subject f)),
         (''answer'', JString (answer_name answer)),
         (''persisted'', JBool persisted)]\<rparr>"

definition record_review ::
  "'s review_ports \<Rightarrow> finding \<Rightarrow> answer_choice \<Rightarrow> bool \<Rightarrow> 's review_state \<Rightarrow> unit res \<times> 's review_state" where
  "record_review ports f answer persisted s =
     (let e = review_entry (rc_now ports (length (rv_asked s))) f answer persisted
      in if rc_append ports (rv_log s) e then (Inr (), s\<lparr>rv_log := rv_log s @ [e]\<rparr>) else (Inl IoFailure, s))"

definition keep :: "finding \<Rightarrow> 's review_state \<Rightarrow> 's review_state" where
  "keep f s = s\<lparr>rv_kept := rv_kept s @ [f]\<rparr>"

definition review_decision :: "int option \<Rightarrow> finding \<Rightarrow> verdict \<Rightarrow> stored_decision" where
  "review_decision now f v =
     \<lparr>dc_key = decision_key f, dc_verdict = v, dc_subject = Some (fd_subject f),
      dc_rule_ids = Some (JArray [JString (rid_value (fd_rule f))]), dc_decided_at = now\<rparr>"

text \<open>The two branches after an answer.\<close>

definition persist_answer ::
  "'s review_ports \<Rightarrow> finding \<Rightarrow> answer_choice \<Rightarrow> 's review_state \<Rightarrow> unit res \<times> 's review_state" where
  "persist_answer ports f answer s =
     (let v = (if answer = AllowForever then Allow else Deny)
      in case rc_put ports [review_decision (rc_now ports (length (rv_asked s))) f v] (rv_store s) of
           Inl e \<Rightarrow> (Inl e, s)
         | Inr store \<Rightarrow>
             let s1 = s\<lparr>rv_store := store, rv_recorded := rv_recorded s + 1\<rparr>
             in record_review ports f answer True (if v = Deny then keep f s1 else s1))"

definition take_answer ::
  "'s review_ports \<Rightarrow> finding \<Rightarrow> answer_choice \<Rightarrow> 's review_state \<Rightarrow> unit res \<times> 's review_state" where
  "take_answer ports f answer s =
     (let s1 = s\<lparr>rv_answers := rv_answers s + 1\<rparr>
      in if answer = AllowOnce then record_review ports f answer False s1
         else if answer = DenyOnce then record_review ports f answer False (keep f s1)
         else persist_answer ports f answer s1)"

definition review_finding ::
  "'s review_ports \<Rightarrow> finding \<Rightarrow> 's review_state \<Rightarrow> unit res \<times> 's review_state" where
  "review_finding ports f s =
     (if \<not> interrupts (fd_disposition f) then (Inr (), keep f s)
      else case rc_find ports (decision_key f) (rv_store s) of
             Inl e \<Rightarrow> (Inl e, s)
           | Inr (Some previous) \<Rightarrow> (Inr (), if dc_verdict previous = Deny then keep f s else s)
           | Inr None \<Rightarrow>
               let s1 = s\<lparr>rv_asked := rv_asked s @ [f]\<rparr>
               in case rc_ask ports (rv_asked s) f of
                    None \<Rightarrow> (Inr (), keep f s1)
                  | Some answer \<Rightarrow> take_answer ports f answer s1)"

fun review_loop :: "'s review_ports \<Rightarrow> finding list \<Rightarrow> 's review_state \<Rightarrow> unit res \<times> 's review_state" where
  "review_loop ports [] s = (Inr (), s)"
| "review_loop ports (f # fs) s = sbind (review_finding ports f) (\<lambda>_. review_loop ports fs) s"

definition review_start :: "'s \<Rightarrow> audit_entry list \<Rightarrow> 's review_state" where
  "review_start store log =
     \<lparr>rv_store = store, rv_log = log, rv_asked = [], rv_kept = [], rv_answers = 0, rv_recorded = 0\<rparr>"

record review_outcome =
  ro_report :: scan_report
  ro_answers :: nat
  ro_recorded :: nat

definition review_findings ::
  "'s review_ports \<Rightarrow> scan_report \<Rightarrow> 's \<Rightarrow> audit_entry list \<Rightarrow> review_outcome res \<times> 's review_state" where
  "review_findings ports report store log =
     sbind (review_loop ports (rp_findings report))
       (\<lambda>_ s. (Inr \<lparr>ro_report = report_of (rv_kept s), ro_answers = rv_answers s, ro_recorded = rv_recorded s\<rparr>, s))
       (review_start store log)"

section \<open>What a review changes\<close>

definition answered :: "'s review_ports \<Rightarrow> 's review_state \<Rightarrow> finding \<Rightarrow> answer_choice \<Rightarrow> bool" where
  "answered ports s f a = (\<exists>pre post. rv_asked s = pre @ f # post \<and> rc_ask ports pre f = Some a)"

definition durable_answer :: "'s review_ports \<Rightarrow> 's review_state \<Rightarrow> string \<Rightarrow> stored_decision \<Rightarrow> bool" where
  "durable_answer ports s key d =
     (\<exists>f now. key = decision_key f \<and>
        (answered ports s f AllowForever \<and> d = review_decision now f Allow \<or>
         answered ports s f DenyForever \<and> d = review_decision now f Deny))"

text \<open>
  From one state of a review to a later one: the lists only grow, no decision changes, and
  a new one is what the user answered.
\<close>

definition advances :: "'s review_ports \<Rightarrow> 's review_state \<Rightarrow> 's review_state \<Rightarrow> bool" where
  "advances ports s s' =
     (prefix (rv_kept s) (rv_kept s') \<and> prefix (rv_asked s) (rv_asked s') \<and>
      (\<forall>key d. rc_find ports key (rv_store s) = Inr (Some d) \<longrightarrow> rc_find ports key (rv_store s') = Inr (Some d)) \<and>
      (\<forall>key d. rc_find ports key (rv_store s') = Inr (Some d) \<longrightarrow>
         rc_find ports key (rv_store s) = Inr (Some d) \<or> durable_answer ports s' key d))"

text \<open>Why a finding is, or is not, in the report of a review.\<close>

definition accounted :: "'s review_ports \<Rightarrow> 's review_state \<Rightarrow> finding \<Rightarrow> bool" where
  "accounted ports s f =
     (f \<in> set (rv_kept s) \<or>
      interrupts (fd_disposition f) \<and>
      ((\<exists>d. rc_find ports (decision_key f) (rv_store s) = Inr (Some d) \<and> dc_verdict d \<noteq> Deny) \<or>
       answered ports s f AllowOnce))"

lemma answered_mono: "prefix (rv_asked s) (rv_asked s') \<Longrightarrow> answered ports s f a \<Longrightarrow> answered ports s' f a"
  unfolding answered_def prefix_def by (metis append_Cons append_assoc)

lemma advances_refl: "advances ports s s"
  by (simp add: advances_def)

lemma advances_trans: "advances ports s t \<Longrightarrow> advances ports t u \<Longrightarrow> advances ports s u"
proof -
  assume 1: "advances ports s t" and 2: "advances ports t u"
  have mono: "durable_answer ports t key d \<Longrightarrow> durable_answer ports u key d" for key d
    using answered_mono [of t u ports] 2 unfolding durable_answer_def advances_def by blast
  show ?thesis
    using 1 2 mono unfolding advances_def by (blast intro: prefix_order.trans)
qed

lemma accounted_mono: "advances ports s s' \<Longrightarrow> accounted ports s f \<Longrightarrow> accounted ports s' f"
  using answered_mono [of s s' ports f AllowOnce] set_mono_prefix [of "rv_kept s" "rv_kept s'"]
  unfolding accounted_def advances_def by blast

lemma record_review_cases:
  assumes "record_review ports f a p s = (r, s')"
  shows "rv_store s' = rv_store s" "rv_asked s' = rv_asked s" "rv_kept s' = rv_kept s"
    and "r = Inr () \<or> r = Inl IoFailure \<and> (\<exists>log e. \<not> rc_append ports log e)"
  using assms by (auto simp: record_review_def Let_def split: if_splits)

context decision_store
begin

text \<open>The ports of a review that runs on this store.\<close>

definition on_store :: "'e \<Rightarrow> 's review_ports \<Rightarrow> bool" where
  "on_store env ports =
     (rc_find ports = find env \<and> rc_put ports = put env \<and>
      (\<forall>n f v. v \<noteq> UnknownVerdict \<longrightarrow> ok (review_decision (rc_now ports n) f v)))"

lemma persist_settles:
  assumes "env_ok env" "on_store env ports" "readable env (rv_store s)"
    and "rc_find ports (decision_key f) (rv_store s) = Inr None"
    and "interrupts (fd_disposition f)" "answered ports s f a" "a = AllowForever \<or> a = DenyForever"
    and run: "persist_answer ports f a s = (r, s')"
  shows "readable env (rv_store s') \<and> advances ports s s' \<and>
    (r = Inr () \<and> accounted ports s' f \<or> r = Inl IoFailure \<and> (\<exists>log e. \<not> rc_append ports log e))"
proof -
  define v where "v = (if a = AllowForever then Allow else Deny)"
  define d where "d = review_decision (rc_now ports (length (rv_asked s))) f v"
  have "ok d" using assms(2) by (simp add: on_store_def d_def v_def)
  from find_put_same [OF assms(1,3) this] obtain st where st: "put env [d] (rv_store s) = Inr st"
    "readable env st" "\<And>key. find env key st = (if key = dc_key d then Inr (Some d) else find env key (rv_store s))"
    by metis
  define s1 where "s1 = s\<lparr>rv_store := st, rv_recorded := Suc (rv_recorded s)\<rparr>"
  define s2 where "s2 = (if v = Deny then keep f s1 else s1)"
  have "record_review ports f a True s2 = (r, s')"
    using run st(1) assms(2) by (simp add: persist_answer_def Let_def on_store_def flip: v_def d_def s1_def s2_def)
  note rec = record_review_cases [OF this]
  have asked: "rv_asked s' = rv_asked s" and store: "rv_store s' = st"
    using rec by (simp_all add: s2_def s1_def keep_def)
  have kept: "rv_kept s' = rv_kept s @ (if v = Deny then [f] else [])"
    using rec by (simp add: s2_def s1_def keep_def)
  have fnd: "rc_find ports key (rv_store s') =
      (if key = decision_key f then Inr (Some d) else rc_find ports key (rv_store s))" for key
    using st(3) assms(2) store by (simp add: on_store_def d_def review_decision_def)
  have "answered ports s' f a" using assms(6) asked by (simp add: answered_def)
  then have "durable_answer ports s' (decision_key f) d"
    using assms(7) unfolding durable_answer_def by (auto simp: d_def v_def)
  then have "advances ports s s'"
    using assms(4) by (simp add: advances_def asked kept fnd)
  moreover have "accounted ports s' f"
  proof (cases "v = Deny")
    case True
    then show ?thesis by (simp add: accounted_def kept)
  next
    case False
    then have "dc_verdict d \<noteq> Deny" by (simp add: d_def review_decision_def)
    then show ?thesis using assms(5) by (auto simp: accounted_def fnd)
  qed
  ultimately show ?thesis using rec st(2) store by auto
qed

lemma take_settles:
  assumes "env_ok env" "on_store env ports" "readable env (rv_store s)"
    and "rc_find ports (decision_key f) (rv_store s) = Inr None"
    and "interrupts (fd_disposition f)" "answered ports s f a"
    and run: "take_answer ports f a s = (r, s')"
  shows "readable env (rv_store s') \<and> advances ports s s' \<and>
    (r = Inr () \<and> accounted ports s' f \<or> r = Inl IoFailure \<and> (\<exists>log e. \<not> rc_append ports log e))"
proof -
  let ?s = "s\<lparr>rv_answers := rv_answers s + 1\<rparr>"
  have same: "advances ports s t \<longleftrightarrow> advances ports ?s t" for t by (simp add: advances_def)
  consider "a = AllowOnce" | "a = DenyOnce" | "a = AllowForever \<or> a = DenyForever" by (cases a) auto
  then show ?thesis
  proof cases
    case 1
    then have "record_review ports f a False ?s = (r, s')" using run by (simp add: take_answer_def)
    note rec = record_review_cases [OF this]
    have "advances ports s s'" using rec by (simp add: advances_def)
    moreover have "accounted ports s' f" using rec 1 assms(5,6) by (simp add: accounted_def answered_def)
    ultimately show ?thesis using rec assms(3) by auto
  next
    case 2
    then have "record_review ports f a False (keep f ?s) = (r, s')" using run by (simp add: take_answer_def)
    note rec = record_review_cases [OF this]
    have "advances ports s s'" "accounted ports s' f" using rec by (simp_all add: advances_def accounted_def keep_def)
    then show ?thesis using rec assms(3) by (auto simp: keep_def)
  next
    case 3
    then have "persist_answer ports f a ?s = (r, s')" using run by (auto simp: take_answer_def)
    from persist_settles [OF assms(1,2) _ _ assms(5) _ 3 this] assms(3,4,6) show ?thesis
      by (simp add: same answered_def)
  qed
qed

lemma finding_settles:
  assumes "env_ok env" "on_store env ports" "readable env (rv_store s)"
    and run: "review_finding ports f s = (r, s')"
  shows "readable env (rv_store s') \<and> advances ports s s' \<and>
    (r = Inr () \<and> accounted ports s' f \<or> r = Inl IoFailure \<and> (\<exists>log e. \<not> rc_append ports log e))"
proof (cases "interrupts (fd_disposition f)")
  case False
  then show ?thesis using run assms(3) by (auto simp: review_finding_def advances_def accounted_def keep_def)
next
  case True
  have fnd: "rc_find ports = find env" using assms(2) by (simp add: on_store_def)
  obtain previous where p: "find env (decision_key f) (rv_store s) = Inr previous"
    using find_total [OF assms(1,3)] by blast
  show ?thesis
  proof (cases previous)
    case (Some d)
    then have "r = Inr ()" "s' = (if dc_verdict d = Deny then keep f s else s)"
      using run p True fnd by (simp_all add: review_finding_def)
    then show ?thesis using assms(3) Some p True fnd by (auto simp: advances_def accounted_def keep_def)
  next
    case None
    let ?s = "s\<lparr>rv_asked := rv_asked s @ [f]\<rparr>"
    have adv: "advances ports s ?s" by (simp add: advances_def)
    show ?thesis
    proof (cases "rc_ask ports (rv_asked s) f")
      case None
      then have "r = Inr ()" "s' = keep f ?s" using run p True fnd \<open>previous = None\<close>
        by (simp_all add: review_finding_def Let_def)
      then show ?thesis using assms(3) by (auto simp: advances_def accounted_def keep_def)
    next
      case (Some a)
      then have run': "take_answer ports f a ?s = (r, s')" using run p True fnd \<open>previous = None\<close>
        by (simp add: review_finding_def Let_def)
      have "answered ports ?s f a" using Some by (auto simp: answered_def)
      from take_settles [OF assms(1,2) _ _ True this run'] assms(3) p fnd \<open>previous = None\<close>
        advances_trans [OF adv] show ?thesis by auto
    qed
  qed
qed

lemma loop_settles:
  assumes "env_ok env" "on_store env ports" "readable env (rv_store s)"
    and "review_loop ports fs s = (r, s')"
  shows "readable env (rv_store s') \<and> advances ports s s' \<and>
    (r = Inr () \<and> (\<forall>f \<in> set fs. accounted ports s' f) \<or>
     r = Inl IoFailure \<and> (\<exists>log e. \<not> rc_append ports log e))"
  using assms(3,4)
proof (induction fs arbitrary: s)
  case (Cons f fs)
  obtain r1 s1 where 1: "review_finding ports f s = (r1, s1)" by fastforce
  note head = finding_settles [OF assms(1,2) Cons.prems(1) 1]
  show ?case
  proof (cases "r1 = Inr ()")
    case True
    then have run: "review_loop ports fs s1 = (r, s')" using Cons.prems(2) 1 by (simp add: sbind_def)
    have "readable env (rv_store s1)" using head by blast
    note tail = Cons.IH [OF this run]
    then have "accounted ports s' f" using accounted_mono head True by (metis Inl_Inr_False)
    then show ?thesis using tail head advances_trans by (metis set_ConsD)
  next
    case False
    then obtain e where "r1 = Inl e" using head by blast
    then have "(r, s') = (Inl e, s1)" using Cons.prems(2) 1 by (simp add: sbind_def)
    then show ?thesis using head \<open>r1 = Inl e\<close> by simp
  qed
qed (simp add: advances_refl)

end

section \<open>Reviews on the JSON store\<close>

definition json_review_ports ::
  "'r store_env \<Rightarrow> (finding list \<Rightarrow> finding \<Rightarrow> answer_choice option) \<Rightarrow>
     (audit_entry list \<Rightarrow> audit_entry \<Rightarrow> bool) \<Rightarrow> (nat \<Rightarrow> int option) \<Rightarrow> 'r option review_ports" where
  "json_review_ports env ask accepts now =
     \<lparr>rc_find = decisions_find env, rc_put = decisions_record_many env, rc_ask = ask, rc_append = accepts,
      rc_now = now\<rparr>"

lemma not_array_index: "c \<in> set k \<Longrightarrow> \<not> is_digit c \<Longrightarrow> \<not> array_index k"
  by (auto simp: array_index_def list_all_iff)

lemma decision_key_plain: "\<not> array_index (decision_key f)"
proof (cases "fd_hash f")
  case None
  have "\<not> is_digit (CHR ''@'')" by code_simp
  then show ?thesis using None by (intro not_array_index [of "CHR ''@''"]) (simp_all add: decision_key_def)
next
  case (Some h)
  have "\<not> is_digit (CHR '':'')" by code_simp
  then show ?thesis
    using Some by (intro not_array_index [of "CHR '':''"]) (simp_all add: decision_key_def hash_to_string_def)
qed

lemma review_decision_storable:
  "v \<noteq> UnknownVerdict \<Longrightarrow> now \<noteq> None \<Longrightarrow> decision_storable (review_decision now f v)"
  by (simp add: decision_storable_def review_decision_def decision_key_plain)

lemma json_on_store:
  "\<forall>n. now n \<noteq> None \<Longrightarrow> json_decisions.on_store env (json_review_ports env ask accepts now)"
  by (simp add: json_decisions.on_store_def json_review_ports_def review_decision_storable)

lemma review_findings_cases:
  assumes "review_findings ports report store log = (r, s)"
  obtains e where "review_loop ports (rp_findings report) (review_start store log) = (Inl e, s)" "r = Inl e"
  | out where "review_loop ports (rp_findings report) (review_start store log) = (Inr (), s)" "r = Inr out"
      "ro_report out = report_of (rv_kept s)"
  using assms by (auto simp: review_findings_def sbind_def split: prod.splits sum.splits)

text \<open>C28: a review loses no finding. On a readable decision store it returns unless the audit
  log refuses an entry, and leaves a readable store; every decision that was stored is still
  there, a new one is a durable answer the user gave in this review; and a finding missing
  from the report it returns asked a question that a stored decision other than a denial, or
  the user's one-time permission, answers.\<close>

theorem review_loses_nothing:
  assumes "env_ok env" "decisions_readable env file" "\<forall>n. now n \<noteq> None"
    and "review_findings (json_review_ports env ask accepts now) report file log = (r, s)"
  shows "decisions_readable env (rv_store s) \<and>
    advances (json_review_ports env ask accepts now) (review_start file log) s \<and>
    (case r of
       Inl e \<Rightarrow> e = IoFailure \<and> (\<exists>log' entry. \<not> accepts log' entry)
     | Inr out \<Rightarrow>
         set (rp_findings (ro_report out)) = set (rv_kept s) \<and>
         (\<forall>f \<in> set (rp_findings report). accounted (json_review_ports env ask accepts now) s f))"
proof -
  let ?ports = "json_review_ports env ask accepts now"
  note settles = json_decisions.loop_settles [OF assms(1) json_on_store [OF assms(3)], of "review_start file log"]
  have start: "decisions_readable env (rv_store (review_start file log))" using assms(2) by (simp add: review_start_def)
  have ap: "rc_append ?ports = accepts" by (simp add: json_review_ports_def)
  show ?thesis
  proof (rule review_findings_cases [OF assms(4)])
    fix e assume "review_loop ?ports (rp_findings report) (review_start file log) = (Inl e, s)" "r = Inl e"
    then show ?thesis using settles [OF start] ap by fastforce
  next
    fix out assume run: "review_loop ?ports (rp_findings report) (review_start file log) = (Inr (), s)" "r = Inr out"
      "ro_report out = report_of (rv_kept s)"
    then show ?thesis using settles [OF start run(1)] by simp
  qed
qed

text \<open>What one denial for ever does to later tool calls, whatever their rule or subject.\<close>

lemma denied_for_ever:
  assumes "env_ok env" "decisions_readable env file" "t \<noteq> None"
    and "decisions_record env (review_decision t f Deny) file = Inr file'"
    and "engine_scan engine [call] switches = Inr report" "g \<in> set (rp_findings report)"
    and "fd_disposition g = Ask" "decision_key g = decision_key f"
  shows "\<exists>v log'. evaluate_tool_call engine switches (decisions_all env file') append_ok now call log = Inr (v, log') \<and>
    tv_decision v = DenyCall"
proof -
  have "decision_storable (review_decision t f Deny)" using review_decision_storable assms(3) by simp
  from json_decisions.find_put_same [OF assms(1,2) this] obtain file1 where
    1: "decisions_record_many env [review_decision t f Deny] file = Inr file1" "decisions_readable env file1"
    "\<And>key. decisions_find env key file1 =
      (if key = dc_key (review_decision t f Deny) then Inr (Some (review_decision t f Deny))
       else decisions_find env key file)" by blast
  have same: "file1 = file'" using 1(1) assms(4) by (simp add: decisions_record_def)
  have file': "decisions_readable env file'"
    "decisions_find env (decision_key f) file' = Inr (Some (review_decision t f Deny))"
    using 1(2,3) unfolding same by (simp_all add: review_decision_def)
  obtain ds where ds: "decisions_all env file' = Inr ds" "latest (decision_key f) ds = Some (review_decision t f Deny)"
    using json_decisions.find_all [OF assms(1) file'(1)] file'(2) by auto
  then have "map_of (index_decisions ds) (decision_key g) = Some (review_decision t f Deny)"
    using assms(8) by (simp add: index_decisions_latest)
  moreover have "dc_verdict (review_decision t f Deny) = Deny" by (simp add: review_decision_def)
  ultimately show ?thesis
    using verdict_cases_aux [OF assms(5) ds(1)] assms(6,7) by metis
qed

definition sample_finding :: "disposition \<Rightarrow> string \<Rightarrow> finding" where
  "sample_finding d subject =
     \<lparr>fd_rule = \<lparr>rid_value = ''AG-A001'', rid_category = ''A'', rid_number = 1\<rparr>, fd_severity = Low, fd_disposition = d, fd_title = [], fd_detail = [],
      fd_remediation = [], fd_subject = subject, fd_hash = None, fd_location = None\<rparr>"

definition sample_ask :: "finding list \<Rightarrow> finding \<Rightarrow> answer_choice option" where
  "sample_ask asked f = (if fd_subject f = ''once'' then Some AllowOnce else Some DenyForever)"

lemma review_loses_nothing_witness:
  "\<exists>out s. review_findings (json_review_ports sample_env sample_ask (\<lambda>_ _. True) (\<lambda>_. Some 5))
      (report_of [sample_finding Ask ''once'', sample_finding Ask ''ever'', sample_finding Block ''no''])
      None [] = (Inr out, s) \<and>
    decisions_readable sample_env (rv_store s) \<and>
    set (rp_findings (ro_report out)) = {sample_finding Ask ''ever'', sample_finding Block ''no''}"
proof -
  let ?ports = "json_review_ports sample_env sample_ask (\<lambda>_ _. True) (\<lambda>_. Some 5)"
  let ?report = "report_of [sample_finding Ask ''once'', sample_finding Ask ''ever'', sample_finding Block ''no'']"
  obtain r s where run: "review_findings ?ports ?report None [] = (r, s)" by fastforce
  have "\<forall>n :: nat. (\<lambda>_. Some (5 :: int)) n \<noteq> None" by simp
  from review_loses_nothing [OF sample_env_ok no_file_is_readable this run]
  have safe: "decisions_readable sample_env (rv_store s)" "r \<noteq> Inl e"
    "r = Inr out \<Longrightarrow> set (rp_findings (ro_report out)) = set (rv_kept s)" for e out by (auto split: sum.splits)
  have "rv_kept (snd (review_findings ?ports ?report None [])) =
      [sample_finding Block ''no'', sample_finding Ask ''ever'']" by code_simp
  then have "set (rv_kept s) = {sample_finding Ask ''ever'', sample_finding Block ''no''}" by (auto simp: run)
  then show ?thesis using run safe by (cases r) auto
qed

section \<open>Granting access\<close>

datatype grant_outcome_kind = Granted grant | GrantRefused string

record grant_request =
  gq_resource :: resource_ref
  gq_access :: access
  gq_reason :: string
  gq_global :: bool
  gq_context :: path_context

record 's grant_ports =
  gc_add :: "grant \<Rightarrow> 's \<Rightarrow> 's res"
  gc_tiers :: registry
  gc_sha :: sha
  gc_append :: "audit_entry list \<Rightarrow> audit_entry \<Rightarrow> bool"
  gc_now :: "int option"

record 's grant_state =
  gt_store :: 's
  gt_log :: "audit_entry list"

definition append_entry ::
  "'s grant_ports \<Rightarrow> string \<Rightarrow> (string \<times> json) list \<Rightarrow> 's grant_state \<Rightarrow> unit res \<times> 's grant_state" where
  "append_entry ports event details s =
     (let e = \<lparr>au_at = gc_now ports, au_event = event, au_details = details\<rparr>
      in if gc_append ports (gt_log s) e then (Inr (), s\<lparr>gt_log := gt_log s @ [e]\<rparr>) else (Inl IoFailure, s))"

definition add_grant :: "'s grant_ports \<Rightarrow> grant \<Rightarrow> 's grant_state \<Rightarrow> unit res \<times> 's grant_state" where
  "add_grant ports g s =
     (case gc_add ports g (gt_store s) of Inl e \<Rightarrow> (Inl e, s) | Inr store \<Rightarrow> (Inr (), s\<lparr>gt_store := store\<rparr>))"

definition refusal_message :: "grant_request \<Rightarrow> sensitive_path option \<Rightarrow> string" where
  "refusal_message q reason =
     ''Access to '' @ to_resource_string (gq_resource q) (ctx_home (gq_context q)) @
     '' is not configurable while the agent is running.'' @
     (case reason of None \<Rightarrow> [] | Some e \<Rightarrow> '' '' @ sp_rationale e) @
     '' It can only be changed by editing ~/.agentkeeper/allowlist.json yourself.''"

definition requested_grant :: "sha \<Rightarrow> int option \<Rightarrow> grant_request \<Rightarrow> grant_props" where
  "requested_grant h now q =
     \<lparr>gp_resource = gq_resource q, gp_access = gq_access q,
      gp_scope = (if gq_global q then scope_global
                  else scope_for_workspace (workspace_id_of_path h (ctx_workspace (gq_context q)))),
      gp_granted_at = now, gp_reason = gq_reason q, gp_origin = Runtime\<rparr>"

definition request_access ::
  "'s grant_ports \<Rightarrow> grant_request \<Rightarrow> 's grant_state \<Rightarrow> grant_outcome_kind res \<times> 's grant_state" where
  "request_access ports q s =
     (let r = gq_resource q; ctx = gq_context q; shown = JString (to_resource_string r (ctx_home ctx))
      in case can_grant (gc_tiers ports) r (gq_access q) ctx of
           Inl e \<Rightarrow> (Inl e, s)
         | Inr False \<Rightarrow>
             let reason = explain (gc_tiers ports) (rr_path r) (gq_access q) ctx
             in sbind (append_entry ports ''grant.refused''
                        [(''resource'', shown), (''access'', JString (access_name (gq_access q))),
                         (''registryEntry'', json_text (map_option sp_id reason))])
                  (\<lambda>_ s1. (Inr (GrantRefused (refusal_message q reason)), s1)) s
         | Inr True \<Rightarrow>
             (case grant_create (gc_sha ports) (requested_grant (gc_sha ports) (gc_now ports) q) of
                Inl e \<Rightarrow> (Inl e, s)
              | Inr g \<Rightarrow>
                  sbind (add_grant ports g)
                    (\<lambda>_. sbind (append_entry ports ''grant.added''
                        [(''id'', JString (g_id g)), (''resource'', shown),
                         (''access'', JString (access_name (gq_access q))),
                         (''scope'', JString (scope_to_string (gp_scope (g_props g))))])
                      (\<lambda>_ s1. (Inr (Granted g), s1))) s))"

text \<open>Requests one after the other; each is answered, or throws and the next is made all the same.\<close>

fun request_all ::
  "'s grant_ports \<Rightarrow> grant_request list \<Rightarrow> 's grant_state \<Rightarrow> grant_outcome_kind res list \<times> 's grant_state" where
  "request_all ports [] s = ([], s)"
| "request_all ports (q # qs) s =
     (let (r, s1) = request_access ports q s; (rs, s2) = request_all ports qs s1 in (r # rs, s2))"

section \<open>What requests can do to the allowlist\<close>

definition gate_of :: "registry \<Rightarrow> path_context \<Rightarrow> grant \<Rightarrow> bool" where
  "gate_of reg ctx g = (can_grant reg (gp_resource (g_props g)) (gp_access (g_props g)) ctx = Inr True)"

definition request_grant :: "'s grant_ports \<Rightarrow> grant_request \<Rightarrow> grant res" where
  "request_grant ports q = grant_create (gc_sha ports) (requested_grant (gc_sha ports) (gc_now ports) q)"

lemma request_grant_props:
  "request_grant ports q = Inr g \<Longrightarrow>
     gp_origin (g_props g) = Runtime \<and> gp_resource (g_props g) = gq_resource q \<and> gp_access (g_props g) = gq_access q"
  by (auto simp: request_grant_def grant_create_def grant_new_def requested_grant_def split: if_splits)

lemma append_entry_store: "append_entry ports ev ds s = (r, s') \<Longrightarrow> gt_store s' = gt_store s"
  by (auto simp: append_entry_def Let_def split: if_splits)

context grant_store
begin

lemma request_effect:
  assumes "env_ok env" "gc_add ports = add env" "all env (gt_store s) = Inr gs"
    and "\<And>g. request_grant ports q = Inr g \<Longrightarrow> ok env g"
    and run: "request_access ports q s = (r, s')"
  shows "\<exists>gs'. all env (gt_store s') = Inr gs' \<and>
    (gs' = gs \<or> can_grant (gc_tiers ports) (gq_resource q) (gq_access q) (gq_context q) = Inr True \<and>
      (\<exists>g. request_grant ports q = Inr g \<and> gs' = filter (\<lambda>x. g_id x \<noteq> g_id g) gs @ [g]))"
proof (cases "can_grant (gc_tiers ports) (gq_resource q) (gq_access q) (gq_context q)")
  case (Inl e)
  then show ?thesis using run assms(3) by (simp add: request_access_def Let_def)
next
  case (Inr gate)
  show ?thesis
  proof (cases gate)
    case False
    then have "gt_store s' = gt_store s"
      using run Inr append_entry_store
      by (auto simp: request_access_def Let_def sbind_def split: prod.splits sum.splits)
    then show ?thesis using assms(3) by simp
  next
    case True
    show ?thesis
    proof (cases "request_grant ports q")
      case (Inl e)
      then show ?thesis using run Inr True assms(3) by (simp add: request_access_def Let_def request_grant_def)
    next
      case (Inr g)
      then have created: "grant_create (gc_sha ports) (requested_grant (gc_sha ports) (gc_now ports) q) = Inr g"
        by (simp add: request_grant_def)
      obtain st where st: "add env g (gt_store s) = Inr st"
        "all env st = Inr (filter (\<lambda>x. g_id x \<noteq> g_id g) gs @ [g])"
        using all_add [OF assms(1) assms(4) [OF Inr] assms(3)] by blast
      have "add_grant ports g s = (Inr (), s\<lparr>gt_store := st\<rparr>)" using st(1) assms(2) by (simp add: add_grant_def)
      then have "gt_store s' = st"
        using run True \<open>can_grant (gc_tiers ports) (gq_resource q) (gq_access q) (gq_context q) = Inr gate\<close> created
        by (auto simp: request_access_def Let_def sbind_def dest!: append_entry_store split: prod.splits sum.splits)
      then show ?thesis using st(2) Inr True
          \<open>can_grant (gc_tiers ports) (gq_resource q) (gq_access q) (gq_context q) = Inr gate\<close> by auto
    qed
  qed
qed

lemma requests_effect:
  assumes "env_ok env" "gc_add ports = add env" "all env (gt_store s) = Inr gs"
    and "\<forall>q \<in> set qs. gq_context q = ctx \<and> (\<forall>g. request_grant ports q = Inr g \<longrightarrow> ok env g)"
    and "request_all ports qs s = (rs, s')"
  shows "\<exists>gs'. all env (gt_store s') = Inr gs' \<and>
    (\<forall>g \<in> set gs'. g \<in> set gs \<or> gp_origin (g_props g) = Runtime \<and> gate_of (gc_tiers ports) ctx g) \<and>
    (\<forall>g \<in> set gs. g \<in> set gs' \<or>
       (\<exists>q \<in> set qs. \<exists>g'. request_grant ports q = Inr g' \<and> g_id g' = g_id g \<and> gate_of (gc_tiers ports) ctx g'))"
  using assms(3-5)
proof (induction qs arbitrary: s gs rs)
  case (Cons q qs)
  obtain r s1 rs2 where run: "request_access ports q s = (r, s1)" "request_all ports qs s1 = (rs2, s')"
    using Cons.prems(3) by (auto simp: Let_def split: prod.splits)
  have "\<And>g. request_grant ports q = Inr g \<Longrightarrow> ok env g" using Cons.prems(2) by auto
  from request_effect [OF assms(1,2) Cons.prems(1) this run(1)] obtain gs1 where 1: "all env (gt_store s1) = Inr gs1"
    "gs1 = gs \<or> can_grant (gc_tiers ports) (gq_resource q) (gq_access q) (gq_context q) = Inr True \<and>
      (\<exists>g. request_grant ports q = Inr g \<and> gs1 = filter (\<lambda>x. g_id x \<noteq> g_id g) gs @ [g])" by blast
  have ctx: "gq_context q = ctx" using Cons.prems(2) by simp
  have tail: "\<forall>q \<in> set qs. gq_context q = ctx \<and> (\<forall>g. request_grant ports q = Inr g \<longrightarrow> ok env g)"
    using Cons.prems(2) by simp
  from Cons.IH [OF 1(1) tail run(2)] obtain gs' where 2: "all env (gt_store s') = Inr gs'"
    "\<And>g. g \<in> set gs' \<Longrightarrow> g \<in> set gs1 \<or> gp_origin (g_props g) = Runtime \<and> gate_of (gc_tiers ports) ctx g"
    "\<And>g. g \<in> set gs1 \<Longrightarrow> g \<in> set gs' \<or>
       (\<exists>q \<in> set qs. \<exists>g'. request_grant ports q = Inr g' \<and> g_id g' = g_id g \<and> gate_of (gc_tiers ports) ctx g')"
    by auto
  show ?case
  proof (cases "gs1 = gs")
    case True
    then show ?thesis using 2 by auto
  next
    case False
    then obtain g where g: "request_grant ports q = Inr g" "gs1 = filter (\<lambda>x. g_id x \<noteq> g_id g) gs @ [g]"
      "can_grant (gc_tiers ports) (gq_resource q) (gq_access q) ctx = Inr True" using 1(2) ctx by blast
    have gate: "gate_of (gc_tiers ports) ctx g" "gp_origin (g_props g) = Runtime"
      using request_grant_props [OF g(1)] g(3) by (simp_all add: gate_of_def)
    have "x \<in> set gs' \<or> (\<exists>q \<in> set (q # qs). \<exists>g'. request_grant ports q = Inr g' \<and> g_id g' = g_id x \<and>
        gate_of (gc_tiers ports) ctx g')" if "x \<in> set gs" for x
    proof (cases "g_id x = g_id g")
      case True
      then show ?thesis using g(1) gate(1) by auto
    next
      case False
      then have "x \<in> set gs1" using g(2) that by simp
      then show ?thesis using 2(3) by auto
    qed
    moreover have "x \<in> set gs \<or> gp_origin (g_props x) = Runtime \<and> gate_of (gc_tiers ports) ctx x" if "x \<in> set gs'" for x
      using 2(2) [OF that] g(2) gate by auto
    ultimately show ?thesis using 2(1) by blast
  qed
qed auto

end

text \<open>C12: no sequence of requests made while the agent runs opens what is dangerous, and none
  takes back what only the user's editor could open. Starting from any readable allowlist,
  every grant that is stored afterwards was stored before, or is a runtime grant that the
  tier gate lets through; and a stored grant that the gate would refuse is still there, unless
  a digest of 48 bits collides. A grant typed by hand that the gate lets through too may be
  replaced: the id leaves out the origin, so a request for the same resource and access takes
  its place.\<close>

theorem requests_never_open_tier2:
  assumes "env_ok env" "gc_add ports = grants_add env" "grants_all env (gt_store s) = Inr gs"
    and "\<forall>q \<in> set qs. gq_context q = ctx \<and>
       (case request_grant ports q of Inl _ \<Rightarrow> True
        | Inr g \<Rightarrow> storable env g \<and> (\<forall>g' \<in> set gs. g_id g' = g_id g \<longrightarrow>
            gp_resource (g_props g') = gq_resource q \<and> gp_access (g_props g') = gq_access q))"
    and "request_all ports qs s = (rs, s')"
  shows "\<exists>gs'. grants_all env (gt_store s') = Inr gs' \<and>
    (\<forall>g \<in> set gs'. g \<in> set gs \<or> gp_origin (g_props g) = Runtime \<and> gate_of (gc_tiers ports) ctx g) \<and>
    (\<forall>g \<in> set gs. \<not> gate_of (gc_tiers ports) ctx g \<longrightarrow> g \<in> set gs')"
proof -
  have ok: "\<forall>q \<in> set qs. gq_context q = ctx \<and> (\<forall>g. request_grant ports q = Inr g \<longrightarrow> storable env g)"
    using assms(4) by force
  obtain gs' where gs': "grants_all env (gt_store s') = Inr gs'"
    "\<forall>g \<in> set gs'. g \<in> set gs \<or> gp_origin (g_props g) = Runtime \<and> gate_of (gc_tiers ports) ctx g"
    "\<And>g. g \<in> set gs \<Longrightarrow> g \<in> set gs' \<or>
       (\<exists>q \<in> set qs. \<exists>g'. request_grant ports q = Inr g' \<and> g_id g' = g_id g \<and> gate_of (gc_tiers ports) ctx g')"
    using json_grants.requests_effect [OF assms(1,2,3) ok assms(5)] by blast
  have "g \<in> set gs'" if g: "g \<in> set gs" "\<not> gate_of (gc_tiers ports) ctx g" for g
  proof (rule ccontr)
    assume "g \<notin> set gs'"
    then obtain q g' where q: "q \<in> set qs" "request_grant ports q = Inr g'" "g_id g' = g_id g"
      "gate_of (gc_tiers ports) ctx g'" using gs'(3) g(1) by blast
    have "gp_resource (g_props g) = gq_resource q \<and> gp_access (g_props g) = gq_access q"
      using assms(4) q g(1) by fastforce
    then have "gate_of (gc_tiers ports) ctx g" using q(4) request_grant_props [OF q(2)] by (simp add: gate_of_def)
    then show False using g(2) by contradiction
  qed
  then show ?thesis using gs'(1,2) by blast
qed

definition typed_grant :: grant where
  "typed_grant =
     grant_new sample_sha \<lparr>gp_resource = subtree_ref (mk_posix [''home'', ''u'', ''.ssh'']), gp_access = Read,
       gp_scope = scope_global, gp_granted_at = Some 3, gp_reason = ''typed'', gp_origin = Manual\<rparr>"

definition sample_allowlist :: "json option" where
  "sample_allowlist = (case grants_add sample_env typed_grant None of Inl _ \<Rightarrow> None | Inr file \<Rightarrow> file)"

definition sample_grant_ports :: "json option grant_ports" where
  "sample_grant_ports =
     \<lparr>gc_add = grants_add sample_env, gc_tiers = sample_registry, gc_sha = sample_sha,
      gc_append = (\<lambda>_ _. True), gc_now = Some 7\<rparr>"

definition sample_request :: "string \<Rightarrow> grant_request" where
  "sample_request name =
     \<lparr>gq_resource = subtree_ref (mk_posix [''home'', ''u'', name]), gq_access = Read, gq_reason = ''work'',
      gq_global = True, gq_context = sample_ctx\<rparr>"

lemma requests_never_open_tier2_witness:
  "\<exists>rs s' gs'.
    request_all sample_grant_ports [sample_request ''.ssh'', sample_request ''docs'']
      \<lparr>gt_store = sample_allowlist, gt_log = []\<rparr> = (rs, s') \<and>
    grants_all sample_env (gt_store s') = Inr gs' \<and> typed_grant \<in> set gs' \<and> length gs' = 2"
proof -
  let ?s = "\<lparr>gt_store = sample_allowlist, gt_log = [] :: audit_entry list\<rparr>"
  let ?qs = "[sample_request ''.ssh'', sample_request ''docs'']"
  obtain rs s' where run: "request_all sample_grant_ports ?qs ?s = (rs, s')" by fastforce
  have add: "gc_add sample_grant_ports = grants_add sample_env" by (simp add: sample_grant_ports_def)
  have all: "grants_all sample_env (gt_store ?s) = Inr [typed_grant]" by code_simp
  have qs: "\<forall>q \<in> set ?qs. gq_context q = sample_ctx \<and>
       (case request_grant sample_grant_ports q of Inl _ \<Rightarrow> True
        | Inr g \<Rightarrow> storable sample_env g \<and> (\<forall>g' \<in> set [typed_grant]. g_id g' = g_id g \<longrightarrow>
            gp_resource (g_props g') = gq_resource q \<and> gp_access (g_props g') = gq_access q))"
    by code_simp
  have closed: "\<not> gate_of (gc_tiers sample_grant_ports) sample_ctx typed_grant" by code_simp
  obtain gs' where gs': "grants_all sample_env (gt_store s') = Inr gs'" "typed_grant \<in> set gs'"
    using requests_never_open_tier2 [OF sample_env_ok add all qs run] closed by auto
  have "rmap length (grants_all sample_env (gt_store (snd (request_all sample_grant_ports ?qs ?s)))) = Inr 2"
    by code_simp
  then have "length gs' = 2" using gs'(1) by (simp add: run del: request_all.simps)
  with run gs' show ?thesis by blast
qed

end
