(* ===== verification/AuditLog.thy ===== *)
theory AuditLog
  imports Store
begin

text \<open>
  The audit log of \<open>src/infrastructure/store/stores.ts\<close> (\<open>JsonlAuditLog\<close>): evidence in one
  JSON line per entry, in segments that each process owns, with rollover by size and age and
  bounded retention. The archive directory is the list of its files in the order the file
  system lists them; the clock, the random parts of file names and the liveness of a process
  are parameters, and the clock is read once per operation. No other process writes during
  an operation, and the file system does not fail. Subdirectories of the archive are
  never listed, so they are not part of the state.
\<close>

section \<open>Options\<close>

record audit_options =
  ao_max_segment :: int
  ao_max_total :: int
  ao_max_segments :: int
  ao_max_entry :: int
  ao_retention_days :: int
  ao_process :: int
  ao_instance :: string

record audit_request =
  ar_max_segment :: "int option"
  ar_max_total :: "int option"
  ar_max_segments :: "int option"
  ar_max_entry :: "int option"
  ar_retention_days :: "int option"
  ar_process :: "int option"
  ar_instance :: "string option"

definition max_safe_integer :: int where
  "max_safe_integer = 9007199254740991"

definition or_else :: "'a option \<Rightarrow> 'a \<Rightarrow> 'a" where
  "or_else x d = (case x of None \<Rightarrow> d | Some y \<Rightarrow> y)"

text \<open>\<open>timestamp\<close>, of a date that may be invalid.\<close>

definition timestamp :: "int option \<Rightarrow> int res" where
  "timestamp now =
     (case now of
        None \<Rightarrow> Inl InvalidDate
      | Some ms \<Rightarrow> if ms < 0 \<or> ms > 9999999999999 then Inl InvalidDate else Inr ms)"

definition positive :: "int \<Rightarrow> bool" where
  "positive n = (1 \<le> n \<and> n \<le> max_safe_integer)"

text \<open>A size is an integer here; \<open>pid\<close> and \<open>hex\<close> are the process and the random bytes.\<close>

definition resolve_audit_options :: "int \<Rightarrow> string \<Rightarrow> int option \<Rightarrow> audit_request \<Rightarrow> audit_options res" where
  "resolve_audit_options pid hex now q =
     (let o1 = \<lparr>ao_max_segment = or_else (ar_max_segment q) (4 * 1024 * 1024),
                ao_max_total = or_else (ar_max_total q) (32 * 1024 * 1024),
                ao_max_segments = or_else (ar_max_segments q) 32,
                ao_max_entry = or_else (ar_max_entry q) (64 * 1024),
                ao_retention_days = or_else (ar_retention_days q) 90,
                ao_process = or_else (ar_process q) pid,
                ao_instance = or_else (ar_instance q) hex\<rparr>
      in if \<not> list_all positive [ao_max_segment o1, ao_max_total o1, ao_max_segments o1, ao_max_entry o1,
                                 ao_retention_days o1, ao_process o1] then Inl BadLimits
         else if ao_max_entry o1 > ao_max_segment o1 then Inl BadLimits
         else if ao_max_segment o1 > ao_max_total o1 then Inl BadLimits
         else if \<not> (length (ao_instance o1) = 12 \<and> list_all is_hex (ao_instance o1)) then Inl BadLimits
         else rmap (\<lambda>_. o1) (timestamp now))"

section \<open>Segments and their names\<close>

datatype segment_state = OpenSegment | ClosedSegment

definition state_suffix :: "segment_state \<Rightarrow> string" where
  "state_suffix st = (case st of OpenSegment \<Rightarrow> ''.open.jsonl'' | ClosedSegment \<Rightarrow> ''.closed.jsonl'')"

definition pad_start :: "nat \<Rightarrow> int \<Rightarrow> string" where
  "pad_start w n = (let t = show_nat (nat n) in replicate (w - length t) (CHR ''0'') @ t)"

definition segment_path :: "audit_options \<Rightarrow> int \<Rightarrow> int \<Rightarrow> segment_state \<Rightarrow> string" where
  "segment_path o1 created sequence st =
     ''audit-'' @ pad_start 13 created @ ''-'' @ pad_start 10 (ao_process o1) @ ''-'' @ ao_instance o1 @ ''-'' @
     pad_start 8 sequence @ state_suffix st"

definition legacy_path :: "int \<Rightarrow> string \<Rightarrow> string" where
  "legacy_path now hex = ''legacy-'' @ pad_start 13 now @ ''-'' @ hex @ ''.closed.jsonl''"

definition claim_path :: "string \<Rightarrow> string" where
  "claim_path hex = ''.deleting-'' @ hex"

definition digits :: "nat \<Rightarrow> string \<Rightarrow> bool" where
  "digits n s = (length s = n \<and> list_all is_digit s)"

definition hexes :: "nat \<Rightarrow> string \<Rightarrow> bool" where
  "hexes n s = (length s = n \<and> list_all is_hex s)"

record segment_name =
  sn_created :: int
  sn_process :: "int option"
  sn_state :: segment_state

text \<open>The two patterns: every field has a fixed width.\<close>

definition parse_managed :: "string \<Rightarrow> segment_name option" where
  "parse_managed name =
     (let created = take 13 (drop 6 name); pid = take 10 (drop 20 name); inst = take 12 (drop 31 name);
          serial = take 8 (drop 44 name); rest = drop 52 name
      in if name = ''audit-'' @ created @ ''-'' @ pid @ ''-'' @ inst @ ''-'' @ serial @ rest \<and>
            digits 13 created \<and> digits 10 pid \<and> hexes 12 inst \<and> digits 8 serial \<and>
            (rest = state_suffix OpenSegment \<or> rest = state_suffix ClosedSegment)
         then Some \<lparr>sn_created = int (decimal created), sn_process = Some (int (decimal pid)),
                    sn_state = (if rest = state_suffix OpenSegment then OpenSegment else ClosedSegment)\<rparr>
         else None)"

definition parse_legacy :: "string \<Rightarrow> segment_name option" where
  "parse_legacy name =
     (let created = take 13 (drop 7 name); hex = take 12 (drop 21 name)
      in if name = ''legacy-'' @ created @ ''-'' @ hex @ ''.closed.jsonl'' \<and> digits 13 created \<and> hexes 12 hex
         then Some \<lparr>sn_created = int (decimal created), sn_process = None, sn_state = ClosedSegment\<rparr>
         else None)"

definition parse_segment_name :: "string \<Rightarrow> segment_name option" where
  "parse_segment_name name =
     (case parse_managed name of Some s \<Rightarrow> Some s | None \<Rightarrow> parse_legacy name)"

definition is_claim :: "string \<Rightarrow> bool" where
  "is_claim name = (starts_with name ''.deleting-'' \<and> hexes 12 (drop 10 name))"

definition with_segment_state :: "string \<Rightarrow> segment_state \<Rightarrow> string" where
  "with_segment_state name st =
     (if ends_with name (state_suffix OpenSegment)
      then take (length name - length (state_suffix OpenSegment)) name @ state_suffix st
      else if ends_with name (state_suffix ClosedSegment)
      then take (length name - length (state_suffix ClosedSegment)) name @ state_suffix st
      else name)"

section \<open>The archive\<close>

type_synonym archive = "(string \<times> string) list"

text \<open>The size of a text in UTF-8.\<close>

definition byte_length :: "string \<Rightarrow> int" where
  "byte_length s = sum_list (map (\<lambda>c. if code_of c < 128 then 1 else 2) s)"

definition remove_file :: "string \<Rightarrow> archive \<Rightarrow> archive" where
  "remove_file name ar = filter (\<lambda>f. fst f \<noteq> name) ar"

definition move_file :: "string \<Rightarrow> string \<Rightarrow> archive \<Rightarrow> archive" where
  "move_file source destination ar =
     (case map_of ar source of
        None \<Rightarrow> ar
      | Some raw \<Rightarrow> map_set destination raw (remove_file source ar))"

definition append_file :: "string \<Rightarrow> string \<Rightarrow> archive \<Rightarrow> archive" where
  "append_file name text ar =
     map_set name ((case map_of ar name of None \<Rightarrow> [] | Some raw \<Rightarrow> raw) @ text) ar"

definition stat_size :: "archive \<Rightarrow> string \<Rightarrow> int option" where
  "stat_size ar name = map_option byte_length (map_of ar name)"

record audit_segment = segment_name +
  sg_name :: string
  sg_size :: int

definition max_discovered :: nat where
  "max_discovered = 4096"

definition list_archive :: "archive \<Rightarrow> archive res" where
  "list_archive ar = (if length ar > max_discovered then Inl TooMany else Inr ar)"

definition compare_segments :: "audit_segment \<Rightarrow> audit_segment \<Rightarrow> int" where
  "compare_segments a b =
     (if sn_created a \<noteq> sn_created b then sn_created a - sn_created b
      else if sn_process a = None \<and> sn_process b \<noteq> None then -1
      else if sn_process a \<noteq> None \<and> sn_process b = None then 1
      else locale_compare (sg_name a) (sg_name b))"

definition read_segment :: "string \<times> string \<Rightarrow> audit_segment res" where
  "read_segment f =
     (case parse_segment_name (fst f) of
        None \<Rightarrow> Inl CorruptArchive
      | Some s \<Rightarrow> Inr (segment_name.extend s \<lparr>sg_name = fst f, sg_size = byte_length (snd f)\<rparr>))"

definition discover_segments :: "archive \<Rightarrow> audit_segment list res" where
  "discover_segments ar =
     rbind (list_archive ar) (\<lambda>files.
     rmap (array_sort compare_segments)
       (traverse read_segment (filter (\<lambda>f. \<not> is_claim (fst f)) files)))"

section \<open>Retention\<close>

definition day_ms :: int where
  "day_ms = 24 * 60 * 60000"

definition evictable :: "(int \<Rightarrow> bool) \<Rightarrow> string \<Rightarrow> audit_segment \<Rightarrow> bool" where
  "evictable alive current g =
     (if sg_name g = current then False
      else case sn_process g of
             None \<Rightarrow> True
           | Some p \<Rightarrow> sn_state g = ClosedSegment \<or> \<not> alive p)"

text \<open>The claim is a move, the deletion removes what was claimed.\<close>

definition claim_and_delete :: "string \<Rightarrow> audit_segment \<Rightarrow> archive \<Rightarrow> archive" where
  "claim_and_delete hex g ar = remove_file (claim_path hex) (move_file (sg_name g) (claim_path hex) ar)"

definition remove_deletion_claims :: "archive \<Rightarrow> archive res" where
  "remove_deletion_claims ar =
     rmap (\<lambda>files. fold (\<lambda>f. if is_claim (fst f) then remove_file (fst f) else id) files ar) (list_archive ar)"

text \<open>What one round of the loop of \<open>maintain\<close> decides.\<close>

datatype maintenance = Evict audit_segment | Enough | Full

definition total_size :: "audit_segment list \<Rightarrow> int" where
  "total_size gs = sum_list (map sg_size gs)"

definition choose_eviction ::
  "audit_options \<Rightarrow> (int \<Rightarrow> bool) \<Rightarrow> string \<Rightarrow> int \<Rightarrow> int \<Rightarrow> bool \<Rightarrow> audit_segment list \<Rightarrow> maintenance" where
  "choose_eviction opts alive current boundary reserved creates gs =
     (case find (\<lambda>g. evictable alive current g \<and> sn_created g \<le> boundary) gs of
        Some expired \<Rightarrow> Evict expired
      | None \<Rightarrow>
          let total = total_size gs + reserved; count = int (length gs) + (if creates then 1 else 0)
          in if total \<le> ao_max_total opts \<and> count \<le> ao_max_segments opts then Enough
             else (case find (evictable alive current) gs of Some oldest \<Rightarrow> Evict oldest | None \<Rightarrow> Full))"

lemma remove_file_less:
  "name \<in> fst ` set ar \<Longrightarrow> length (remove_file name ar) < length ar"
  unfolding remove_file_def by (metis (mono_tags, lifting) imageE length_filter_less)

lemma remove_absent: "name \<notin> fst ` set ar \<Longrightarrow> remove_file name ar = ar"
  by (force simp: remove_file_def filter_id_conv)

lemma claim_and_delete_files:
  assumes "distinct (map fst ar)" "sg_name g \<noteq> claim_path hex" "claim_path hex \<notin> fst ` set ar"
  shows "claim_and_delete hex g ar = remove_file (sg_name g) ar"
proof (cases "map_of ar (sg_name g)")
  case None
  then have "sg_name g \<notin> fst ` set ar" by (simp add: map_of_eq_None_iff)
  then show ?thesis using None assms(3) by (simp add: claim_and_delete_def move_file_def remove_absent)
next
  case (Some raw)
  have new: "claim_path hex \<notin> fst ` set (remove_file (sg_name g) ar)" using assms(3) by (auto simp: remove_file_def)
  then have "map_set (claim_path hex) raw (remove_file (sg_name g) ar) =
      remove_file (sg_name g) ar @ [(claim_path hex, raw)]" by (rule map_set_fresh)
  moreover have "remove_file (claim_path hex) (remove_file (sg_name g) ar) = remove_file (sg_name g) ar"
    using remove_absent [OF new] .
  ultimately show ?thesis using Some by (simp add: claim_and_delete_def move_file_def remove_file_def)
qed

lemma claim_and_delete_length: "length (claim_and_delete hex g ar) \<le> length (remove_file (sg_name g) ar)"
proof -
  have *: "length (remove_file k (map_set k v xs)) \<le> length xs" for k v and xs :: archive
    by (induction k v xs rule: map_set.induct) (auto simp: remove_file_def le_SucI)
  show ?thesis
  proof (cases "map_of ar (sg_name g)")
    case None
    then have "sg_name g \<notin> fst ` set ar" by (simp add: map_of_eq_None_iff)
    then show ?thesis using None by (simp add: claim_and_delete_def move_file_def remove_absent) (simp add: remove_file_def)
  qed (simp add: claim_and_delete_def move_file_def *)
qed

lemma read_segment_name: "read_segment f = Inr g \<Longrightarrow> sg_name g = fst f \<and> sg_size g = byte_length (snd f)"
  by (auto simp: read_segment_def segment_name.extend_def split: option.splits)

lemma set_array_sort [simp]: "set (array_sort cmp xs) = set xs"
proof -
  have "set (insert_by cmp x ys) = insert x (set ys)" for x ys
    by (induction cmp x ys rule: insert_by.induct) auto
  then show ?thesis by (induction xs) (simp_all add: array_sort_def)
qed

lemma length_array_sort [simp]: "length (array_sort cmp xs) = length xs"
proof -
  have "length (insert_by cmp x ys) = Suc (length ys)" for x ys
    by (induction cmp x ys rule: insert_by.induct) auto
  then show ?thesis by (induction xs) (simp_all add: array_sort_def)
qed

lemma discover_segments_cases:
  assumes "discover_segments ar = Inr gs"
  obtains hs where "traverse read_segment (filter (\<lambda>f. \<not> is_claim (fst f)) ar) = Inr hs"
    and "gs = array_sort compare_segments hs" and "length ar \<le> max_discovered"
  using assms by (auto simp: discover_segments_def list_archive_def rmap_def split: if_splits sum.splits)

lemma discovered_name: "discover_segments ar = Inr gs \<Longrightarrow> g \<in> set gs \<Longrightarrow> sg_name g \<in> fst ` set ar"
  by (auto elim!: discover_segments_cases dest!: traverse_set read_segment_name simp: image_iff)

lemma choose_evict: "choose_eviction opts alive current boundary reserved creates gs = Evict g \<Longrightarrow>
    g \<in> set gs \<and> evictable alive current g"
  by (auto simp: choose_eviction_def Let_def find_Some_iff split: option.splits if_splits)

text \<open>
  The loop. It draws a new random name for each claim; every round removes a file, so it ends.
\<close>

function maintain_loop ::
  "audit_options \<Rightarrow> (int \<Rightarrow> bool) \<Rightarrow> (nat \<Rightarrow> string) \<Rightarrow> string \<Rightarrow> int \<Rightarrow> int \<Rightarrow> bool \<Rightarrow>
     nat \<Rightarrow> archive \<Rightarrow> unit res \<times> archive \<times> nat" where
  "maintain_loop opts alive draw current boundary reserved creates n ar =
     (case discover_segments ar of
        Inl e \<Rightarrow> (Inl e, ar, n)
      | Inr gs \<Rightarrow>
          (case choose_eviction opts alive current boundary reserved creates gs of
             Enough \<Rightarrow> (Inr (), ar, n)
           | Full \<Rightarrow> (Inl ArchiveFull, ar, n)
           | Evict g \<Rightarrow>
               maintain_loop opts alive draw current boundary reserved creates (n + 1)
                 (claim_and_delete (draw n) g ar)))"
  by pat_completeness auto
termination
proof (relation "measure (\<lambda>(opts, alive, draw, current, boundary, reserved, creates, n, ar). length ar)")
  fix opts alive draw current boundary reserved creates and n :: nat and ar gs g
  assume "discover_segments ar = Inr gs"
    "choose_eviction opts alive current boundary reserved creates gs = Evict g"
  then have "sg_name g \<in> fst ` set ar" using choose_evict discovered_name by blast
  then have "length (claim_and_delete (draw n) g ar) < length ar"
    using remove_file_less claim_and_delete_length le_less_trans by blast
  then show "((opts, alive, draw, current, boundary, reserved, creates, n + 1, claim_and_delete (draw n) g ar),
      opts, alive, draw, current, boundary, reserved, creates, n, ar)
      \<in> measure (\<lambda>(opts, alive, draw, current, boundary, reserved, creates, n, ar). length ar)" by simp
qed simp

declare maintain_loop.simps [simp del]

section \<open>The log\<close>

record audit_log =
  lg_archive :: archive
  lg_legacy :: "string option"
  lg_current :: string
  lg_created :: int
  lg_sequence :: int
  lg_drawn :: nat

text \<open>What the log is given: its options, the liveness of processes, random hexadecimal
  strings, the clock of the operation, \<open>JSON\<close> and dates.\<close>

record audit_world =
  aw_options :: audit_options
  aw_alive :: "int \<Rightarrow> bool"
  aw_draw :: "nat \<Rightarrow> string"
  aw_json :: "string json_io"
  aw_dates :: dates

definition new_log :: "audit_world \<Rightarrow> int option \<Rightarrow> archive \<Rightarrow> string option \<Rightarrow> audit_log res" where
  "new_log w now ar legacy =
     rmap (\<lambda>ms. \<lparr>lg_archive = ar, lg_legacy = legacy,
                  lg_current = segment_path (aw_options w) ms 0 OpenSegment, lg_created = ms,
                  lg_sequence = 0, lg_drawn = 0\<rparr>) (timestamp now)"

definition advance_current :: "audit_world \<Rightarrow> int \<Rightarrow> audit_log \<Rightarrow> audit_log" where
  "advance_current w now l =
     (let l1 = l\<lparr>lg_sequence := lg_sequence l + 1, lg_created := now\<rparr>
      in l1\<lparr>lg_current := segment_path (aw_options w) now (lg_sequence l1) OpenSegment\<rparr>)"

definition close_current :: "audit_log \<Rightarrow> audit_log" where
  "close_current l =
     l\<lparr>lg_archive := move_file (lg_current l) (with_segment_state (lg_current l) ClosedSegment) (lg_archive l)\<rparr>"

text \<open>The clock reads \<open>now\<close>; a step that reads it throws on an invalid date.\<close>

definition with_timestamp :: "int option \<Rightarrow> (int \<Rightarrow> 's \<Rightarrow> 'a res \<times> 's) \<Rightarrow> 's \<Rightarrow> 'a res \<times> 's" where
  "with_timestamp now f s = (case timestamp now of Inl e \<Rightarrow> (Inl e, s) | Inr ms \<Rightarrow> f ms s)"

definition migrate_legacy :: "audit_world \<Rightarrow> int option \<Rightarrow> audit_log \<Rightarrow> unit res \<times> audit_log" where
  "migrate_legacy w now l =
     (case lg_legacy l of
        None \<Rightarrow> (Inr (), l)
      | Some raw \<Rightarrow>
          with_timestamp now (\<lambda>ms l1.
            (Inr (), l1\<lparr>lg_archive := map_set (legacy_path ms (aw_draw w (lg_drawn l1))) raw (lg_archive l1),
                        lg_legacy := None, lg_drawn := lg_drawn l1 + 1\<rparr>)) l)"

definition prepare_current ::
  "audit_world \<Rightarrow> int option \<Rightarrow> int \<Rightarrow> audit_log \<Rightarrow> int option res \<times> audit_log" where
  "prepare_current w now line_bytes =
     with_timestamp now (\<lambda>ms l.
       let info = stat_size (lg_archive l) (lg_current l);
           aged = ms - lg_created l \<ge> day_ms;
           l1 = (case info of
                   None \<Rightarrow> if aged then advance_current w ms l else l
                 | Some bytes \<Rightarrow>
                     if bytes + line_bytes > ao_max_segment (aw_options w) \<or> aged
                     then advance_current w ms (close_current l) else l)
       in (Inr (stat_size (lg_archive l1) (lg_current l1)), l1))"

definition close_current_if_aged :: "audit_world \<Rightarrow> int option \<Rightarrow> audit_log \<Rightarrow> unit res \<times> audit_log" where
  "close_current_if_aged w now =
     with_timestamp now (\<lambda>ms l.
       (Inr (), if stat_size (lg_archive l) (lg_current l) = None \<or> ms - lg_created l < day_ms then l
                else advance_current w ms (close_current l)))"

definition maintain ::
  "audit_world \<Rightarrow> int option \<Rightarrow> int \<Rightarrow> bool \<Rightarrow> audit_log \<Rightarrow> unit res \<times> audit_log" where
  "maintain w now reserved creates l =
     (case remove_deletion_claims (lg_archive l) of
        Inl e \<Rightarrow> (Inl e, l)
      | Inr ar \<Rightarrow>
          with_timestamp now (\<lambda>ms l1.
            let boundary = ms - ao_retention_days (aw_options w) * day_ms - day_ms
            in case maintain_loop (aw_options w) (aw_alive w) (aw_draw w) (lg_current l1) boundary reserved creates
                      (lg_drawn l1) (lg_archive l1) of
                 (r, ar', n) \<Rightarrow> (r, l1\<lparr>lg_archive := ar', lg_drawn := n\<rparr>)) (l\<lparr>lg_archive := ar\<rparr>))"

text \<open>\<open>JSON.stringify\<close> without an indent, and the newline.\<close>

definition entry_value :: "dates \<Rightarrow> audit_entry \<Rightarrow> json res" where
  "entry_value dt e =
     (case au_at e of
        None \<Rightarrow> Inl InvalidDate
      | Some t \<Rightarrow>
          Inr (JObject (map_set ''event'' (JString (au_event e))
                 (map_set ''at'' (JString (dt_iso dt t)) (au_details e)))))"

definition serialise_entry :: "audit_world \<Rightarrow> audit_entry \<Rightarrow> string res" where
  "serialise_entry w e =
     rbind (entry_value (aw_dates w) e) (\<lambda>j.
       let line = io_print (aw_json w) j @ [char_of (10 :: nat)]
       in if byte_length line > ao_max_entry (aw_options w) then Inl EntryTooLarge else Inr line)"

definition log_append :: "audit_world \<Rightarrow> int option \<Rightarrow> audit_entry \<Rightarrow> audit_log \<Rightarrow> unit res \<times> audit_log" where
  "log_append w now e l =
     (case serialise_entry w e of
        Inl err \<Rightarrow> (Inl err, l)
      | Inr line \<Rightarrow>
          sbind (migrate_legacy w now) (\<lambda>_.
          sbind (prepare_current w now (byte_length line)) (\<lambda>current.
          sbind (maintain w now (byte_length line) (current = None)) (\<lambda>_ l1.
            (Inr (), l1\<lparr>lg_archive := append_file (lg_current l1) line (lg_archive l1)\<rparr>)))) l)"

section \<open>Reading\<close>

definition entry_of_line :: "audit_world \<Rightarrow> int \<Rightarrow> string \<Rightarrow> audit_entry option" where
  "entry_of_line w moment line =
     (if trim line = [] then None
      else case io_parse (aw_json w) line of
             Some (JObject props) \<Rightarrow>
               (case (as_string (map_of props ''at''), as_string (map_of props ''event'')) of
                  (Some at, Some event) \<Rightarrow>
                    (case dt_parse (aw_dates w) at of
                       None \<Rightarrow> None
                     | Some when \<Rightarrow>
                         if when < moment then None
                         else Some \<lparr>au_at = Some when, au_event = event,
                                    au_details = filter (\<lambda>p. fst p \<noteq> ''at'' \<and> fst p \<noteq> ''event'') props\<rparr>)
                | _ \<Rightarrow> None)
           | _ \<Rightarrow> None)"

definition parse_audit_lines :: "audit_world \<Rightarrow> int \<Rightarrow> string \<Rightarrow> audit_entry list" where
  "parse_audit_lines w moment raw =
     options_to_list (map (entry_of_line w moment) (split_on (char_of (10 :: nat)) raw))"

fun read_segments ::
  "audit_world \<Rightarrow> int \<Rightarrow> archive \<Rightarrow> int \<Rightarrow> audit_segment list \<Rightarrow> audit_entry list res" where
  "read_segments w moment ar bytes [] = Inr []"
| "read_segments w moment ar bytes (g # gs) =
     (if bytes + sg_size g > ao_max_total (aw_options w) then Inl ArchiveFull
      else rmap ((@) (case map_of ar (sg_name g) of None \<Rightarrow> [] | Some raw \<Rightarrow> parse_audit_lines w moment raw))
             (read_segments w moment ar (bytes + sg_size g) gs))"

definition log_since :: "audit_world \<Rightarrow> int option \<Rightarrow> int \<Rightarrow> audit_log \<Rightarrow> audit_entry list res \<times> audit_log" where
  "log_since w now moment =
     sbind (migrate_legacy w now) (\<lambda>_.
     sbind (close_current_if_aged w now) (\<lambda>_.
     sbind (maintain w now 0 False) (\<lambda>_ l.
       (rbind (discover_segments (lg_archive l)) (read_segments w moment (lg_archive l) 0), l))))"

section \<open>Lemmas on the archive\<close>

lemma map_of_remove_file: "map_of (remove_file n ar) x = (if x = n then None else map_of ar x)"
  by (induction ar) (auto simp: remove_file_def)

lemma map_of_move_file:
  "x \<noteq> source \<Longrightarrow> x \<noteq> destination \<Longrightarrow> map_of (move_file source destination ar) x = map_of ar x"
  by (simp add: move_file_def map_of_map_set map_of_remove_file split: option.split)

lemma map_of_append_file:
  "map_of (append_file name text ar) x =
     (if x = name then Some (or_else (map_of ar name) [] @ text) else map_of ar x)"
  by (simp add: append_file_def map_of_map_set or_else_def split: option.split)

lemma map_of_claim_and_delete:
  "x \<noteq> sg_name g \<Longrightarrow> x \<noteq> claim_path hex \<Longrightarrow> map_of (claim_and_delete hex g ar) x = map_of ar x"
  by (simp add: claim_and_delete_def map_of_remove_file map_of_move_file)

lemma no_claim_left: "x \<in> fst ` set (claim_and_delete hex g ar) \<Longrightarrow> x \<in> fst ` set ar \<and> x \<noteq> claim_path hex"
proof -
  assume x: "x \<in> fst ` set (claim_and_delete hex g ar)"
  then have "map_of (claim_and_delete hex g ar) x \<noteq> None" by (simp add: map_of_eq_None_iff)
  then have ne: "x \<noteq> claim_path hex" and "map_of (move_file (sg_name g) (claim_path hex) ar) x \<noteq> None"
    by (auto simp: claim_and_delete_def map_of_remove_file split: if_splits)
  then have "map_of ar x \<noteq> None"
    by (auto simp: move_file_def map_of_map_set map_of_remove_file split: option.splits if_splits)
  then show ?thesis using ne by (simp add: map_of_eq_None_iff)
qed

text \<open>A file that no other process may touch: the open segment of a living process.\<close>

definition live_segment :: "(int \<Rightarrow> bool) \<Rightarrow> string \<Rightarrow> bool" where
  "live_segment alive name =
     (case parse_segment_name name of
        None \<Rightarrow> False
      | Some s \<Rightarrow> sn_state s = OpenSegment \<and> (case sn_process s of None \<Rightarrow> False | Some p \<Rightarrow> alive p))"

lemma live_managed:
  assumes "live_segment alive name"
  shows "starts_with name ''audit-'' \<and> (\<exists>stem. name = stem @ state_suffix OpenSegment)"
proof -
  obtain s where s: "parse_segment_name name = Some s" "sn_state s = OpenSegment" "sn_process s \<noteq> None"
    using assms by (auto simp: live_segment_def split: option.splits)
  then have m: "parse_managed name = Some s"
    by (auto simp: parse_segment_name_def parse_legacy_def Let_def split: option.splits if_splits)
  define inner where "inner = take 13 (drop 6 name) @ ''-'' @ take 10 (drop 20 name) @ ''-'' @
    take 12 (drop 31 name) @ ''-'' @ take 8 (drop 44 name)"
  have eq: "name = ''audit-'' @ take 13 (drop 6 name) @ ''-'' @ take 10 (drop 20 name) @ ''-'' @
      take 12 (drop 31 name) @ ''-'' @ take 8 (drop 44 name) @ drop 52 name"
    and rest: "drop 52 name = state_suffix OpenSegment"
    using m s(2) unfolding parse_managed_def Let_def by (auto split: if_splits)
  have "name = ''audit-'' @ inner @ state_suffix OpenSegment"
    using eq unfolding inner_def rest [symmetric] by (simp only: append.assoc)
  then show ?thesis by (metis append.assoc prefixI)
qed

lemma live_not_claim: "live_segment alive name \<Longrightarrow> name \<noteq> claim_path hex"
  using live_managed [of alive name] by (auto simp: claim_path_def)

lemma live_not_legacy: "live_segment alive name \<Longrightarrow> name \<noteq> legacy_path ms hex"
  using live_managed [of alive name] by (auto simp: legacy_path_def)

lemma live_not_closed: "live_segment alive name \<Longrightarrow> name \<noteq> stem @ state_suffix ClosedSegment"
proof
  assume "live_segment alive name" and closed: "name = stem @ state_suffix ClosedSegment"
  then obtain stem' where opened: "name = stem' @ state_suffix OpenSegment" using live_managed by blast
  have "take 11 (rev name) = rev (state_suffix OpenSegment)" by (simp add: opened state_suffix_def)
  moreover have "take 11 (rev name) = take 11 (rev (state_suffix ClosedSegment))"
    by (simp add: closed state_suffix_def)
  ultimately show False by (simp add: state_suffix_def)
qed

lemma live_not_evictable:
  "live_segment alive (sg_name g) \<Longrightarrow> read_segment f = Inr g \<Longrightarrow> \<not> evictable alive current g"
  by (auto simp: live_segment_def evictable_def read_segment_def segment_name.extend_def split: option.splits if_splits)

lemma discovered_of:
  assumes "discover_segments ar = Inr gs" "g \<in> set gs"
  shows "\<exists>f \<in> set ar. \<not> is_claim (fst f) \<and> read_segment f = Inr g"
proof -
  obtain hs where hs: "traverse read_segment (filter (\<lambda>f. \<not> is_claim (fst f)) ar) = Inr hs"
    "gs = array_sort compare_segments hs" using discover_segments_cases [OF assms(1)] .
  then have "g \<in> set hs" using assms(2) by simp
  from traverse_set [OF hs(1) this] show ?thesis unfolding set_filter by blast
qed

text \<open>What holds through every round of the loop, and why it stops.\<close>

lemma maintain_loop_rule:
  assumes "maintain_loop opts alive draw current boundary reserved creates n ar = (r, ar', n')" "I ar"
    and step: "\<And>m ar gs g. I ar \<Longrightarrow> discover_segments ar = Inr gs \<Longrightarrow>
      choose_eviction opts alive current boundary reserved creates gs = Evict g \<Longrightarrow>
      I (claim_and_delete (draw m) g ar)"
  shows "I ar' \<and>
    (case r of
       Inr _ \<Rightarrow> \<exists>gs. discover_segments ar' = Inr gs \<and>
         choose_eviction opts alive current boundary reserved creates gs = Enough
     | Inl e \<Rightarrow> discover_segments ar' = Inl e \<or> e = ArchiveFull \<and>
         (\<exists>gs. discover_segments ar' = Inr gs \<and>
            choose_eviction opts alive current boundary reserved creates gs = Full))"
  using assms(1,2)
proof (induction "length ar" arbitrary: n ar rule: less_induct)
  case less
  note run = less.prems(1) [unfolded maintain_loop.simps [of opts alive draw current boundary reserved creates n ar]]
  show ?case
  proof (cases "discover_segments ar")
    case (Inl e)
    then show ?thesis using run less.prems(2) by auto
  next
    case (Inr gs)
    show ?thesis
    proof (cases "choose_eviction opts alive current boundary reserved creates gs")
      case (Evict g)
      let ?ar = "claim_and_delete (draw n) g ar"
      have "sg_name g \<in> fst ` set ar" using choose_evict [OF Evict] discovered_name [OF Inr] by blast
      then have "length ?ar < length ar" using remove_file_less claim_and_delete_length le_less_trans by blast
      moreover have "maintain_loop opts alive draw current boundary reserved creates (n + 1) ?ar = (r, ar', n')"
        using run Inr Evict by simp
      ultimately show ?thesis using less.hyps step [OF less.prems(2) Inr Evict] by blast
    qed (use run Inr less.prems(2) in auto)
  qed
qed

lemma loop_keeps:
  assumes "maintain_loop opts alive draw current boundary reserved creates n ar = (r, ar', n')"
    and "live_segment alive name \<or> name = current" "\<And>m. name \<noteq> claim_path (draw m)"
  shows "map_of ar' name = map_of ar name"
proof -
  have "map_of (claim_and_delete (draw m) g ar1) name = map_of ar1 name"
    if evict: "discover_segments ar1 = Inr gs" "choose_eviction opts alive current boundary reserved creates gs = Evict g"
    for m ar1 gs g
  proof (rule map_of_claim_and_delete)
    obtain f where f: "read_segment f = Inr g" using discovered_of [OF evict(1)] choose_evict [OF evict(2)] by blast
    have "evictable alive current g" using choose_evict [OF evict(2)] by simp
    then show "name \<noteq> sg_name g"
      using assms(2) live_not_evictable [OF _ f] by (auto simp: evictable_def)
  qed (rule assms(3))
  with maintain_loop_rule [OF assms(1), of "\<lambda>x. map_of x name = map_of ar name"] show ?thesis by simp
qed

lemma remove_claims_keeps:
  assumes "remove_deletion_claims ar = Inr ar'" "\<not> is_claim name"
  shows "map_of ar' name = map_of ar name"
proof -
  have "map_of (fold (\<lambda>f. if is_claim (fst f) then remove_file (fst f) else id) fs ar) name = map_of ar name" for fs ar
    by (induction fs arbitrary: ar) (use assms(2) in \<open>auto simp: map_of_remove_file\<close>)
  then show ?thesis using assms(1) by (auto simp: remove_deletion_claims_def list_archive_def split: if_splits)
qed

section \<open>No operation touches another process's segment\<close>

lemma live_not_is_claim: "live_segment alive name \<Longrightarrow> \<not> is_claim name"
  using live_managed [of alive name] by (auto simp: is_claim_def prefix_def)

lemma closed_form:
  "with_segment_state name ClosedSegment = name \<or>
   (\<exists>stem. with_segment_state name ClosedSegment = stem @ state_suffix ClosedSegment)"
  by (auto simp: with_segment_state_def)

lemma migrate_keeps:
  assumes "migrate_legacy w now l = (r, l')" "live_segment (aw_alive w) name"
  shows "map_of (lg_archive l') name = map_of (lg_archive l) name"
  using assms(1) live_not_legacy [OF assms(2)]
  by (auto simp: migrate_legacy_def with_timestamp_def map_of_map_set split: option.splits sum.splits)

lemma close_keeps:
  assumes "live_segment alive name" "name \<noteq> lg_current l"
  shows "map_of (lg_archive (close_current l)) name = map_of (lg_archive l) name"
proof -
  have "name \<noteq> with_segment_state (lg_current l) ClosedSegment"
    using closed_form [of "lg_current l"] live_not_closed [OF assms(1)] assms(2) by metis
  then show ?thesis using assms(2) by (simp add: close_current_def map_of_move_file)
qed

lemma prepare_keeps:
  assumes "prepare_current w now bytes l = (r, l')" "live_segment alive name" "name \<noteq> lg_current l"
  shows "map_of (lg_archive l') name = map_of (lg_archive l) name"
proof -
  have adv: "lg_archive (advance_current w ms k) = lg_archive k" for ms k by (simp add: advance_current_def Let_def)
  show ?thesis
    using assms(1) close_keeps [OF assms(2,3)]
    by (auto simp: prepare_current_def with_timestamp_def Let_def adv split: sum.splits option.splits if_splits)
qed

lemma maintain_keeps:
  assumes "maintain w now reserved creates l = (r, l')"
    and "live_segment (aw_alive w) name \<or> name = lg_current l \<and> \<not> is_claim name"
    and draws: "\<And>m. name \<noteq> claim_path (aw_draw w m)"
  shows "map_of (lg_archive l') name = map_of (lg_archive l) name"
proof -
  have nc: "\<not> is_claim name" using assms(2) live_not_is_claim by blast
  show ?thesis
  proof (cases "remove_deletion_claims (lg_archive l)")
    case (Inl e)
    then show ?thesis using assms(1) by (simp add: maintain_def)
  next
    case (Inr ar)
    note claims = remove_claims_keeps [OF Inr nc]
    show ?thesis
    proof (cases "timestamp now")
      case (Inl e)
      then show ?thesis using assms(1) Inr claims by (auto simp: maintain_def with_timestamp_def)
    next
      case ms: (Inr ms)
      obtain r1 ar1 n1 where loop: "maintain_loop (aw_options w) (aw_alive w) (aw_draw w) (lg_current l)
          (ms - ao_retention_days (aw_options w) * day_ms - day_ms) reserved creates (lg_drawn l) ar = (r1, ar1, n1)"
        by (metis prod_cases3)
      have "lg_archive l' = ar1" using assms(1) Inr ms loop by (auto simp: maintain_def with_timestamp_def Let_def)
      moreover have "map_of ar1 name = map_of ar name"
        using loop_keeps [OF loop _ draws] assms(2) by blast
      ultimately show ?thesis using claims by simp
    qed
  qed
qed

lemma maintain_current: "maintain w now reserved creates l = (r, l') \<Longrightarrow> lg_current l' = lg_current l"
  by (auto simp: maintain_def with_timestamp_def Let_def split: sum.splits prod.splits)

lemma migrate_current: "migrate_legacy w now l = (r, l') \<Longrightarrow> lg_current l' = lg_current l"
  by (auto simp: migrate_legacy_def with_timestamp_def split: sum.splits option.splits)

lemma log_append_cases:
  assumes "log_append w now e l = (r, l')"
  obtains (too_large) err where "serialise_entry w e = Inl err" "l' = l" "r = Inl err"
  | (failed) line l1 l2 r1 r2 err where "serialise_entry w e = Inr line" "r = Inl err"
      "migrate_legacy w now l = (r1, l1)" "l' = l1 \<or> prepare_current w now (byte_length line) l1 = (r2, l2) \<and>
        (l' = l2 \<or> (\<exists>creates r3. maintain w now (byte_length line) creates l2 = (r3, l')))"
  | (finished) line l1 l2 l3 current where "serialise_entry w e = Inr line" "r = Inr ()"
      "migrate_legacy w now l = (Inr (), l1)"
      "prepare_current w now (byte_length line) l1 = (Inr current, l2)"
      "maintain w now (byte_length line) (current = None) l2 = (Inr (), l3)"
      "l' = l3\<lparr>lg_archive := append_file (lg_current l3) line (lg_archive l3)\<rparr>"
proof (cases "serialise_entry w e")
  case (Inl err)
  then show ?thesis using assms too_large by (simp add: log_append_def)
next
  case line: (Inr line)
  obtain r1 l1 where 1: "migrate_legacy w now l = (r1, l1)" by fastforce
  show ?thesis
  proof (cases r1)
    case (Inl err)
    then have "r = Inl err" "l' = l1" using assms line 1 by (auto simp: log_append_def sbind_def)
    with failed line 1 show ?thesis by blast
  next
    case m: (Inr u)
    obtain r2 l2 where 2: "prepare_current w now (byte_length line) l1 = (r2, l2)" by fastforce
    show ?thesis
    proof (cases r2)
      case (Inl err)
      then have "r = Inl err" "l' = l2" using assms line 1 2 m by (auto simp: log_append_def sbind_def)
      with failed line 1 2 show ?thesis by blast
    next
      case p: (Inr current)
      obtain r3 l3 where 3: "maintain w now (byte_length line) (current = None) l2 = (r3, l3)" by fastforce
      show ?thesis
      proof (cases r3)
        case (Inl err)
        then have "r = Inl err" "l' = l3" using assms line 1 2 3 m p by (auto simp: log_append_def sbind_def)
        with failed line 1 2 3 show ?thesis by blast
      next
        case (Inr v)
        then show ?thesis using assms line 1 2 3 m p finished by (simp add: log_append_def sbind_def)
      qed
    qed
  qed
qed

text \<open>The segment an append writes to is the log's own, or the next that it names.\<close>

lemma prepare_names:
  assumes "prepare_current w now bytes l = (r, l')"
  shows "lg_current l' = lg_current l \<or> (\<exists>ms. timestamp now = Inr ms \<and>
    lg_current l' = segment_path (aw_options w) ms (lg_sequence l + 1) OpenSegment)"
  using assms
  by (auto simp: prepare_current_def with_timestamp_def Let_def advance_current_def close_current_def
      split: sum.splits option.splits if_splits)

lemma migrate_sequence: "migrate_legacy w now l = (r, l') \<Longrightarrow> lg_sequence l' = lg_sequence l"
  by (auto simp: migrate_legacy_def with_timestamp_def split: sum.splits option.splits)

text \<open>C27: appending an entry leaves the evidence another process is writing as it is. Whatever the
  options, the archive and the clock, and whether the append succeeds or throws, every open
  segment of a living process other than the log's current one still has its content. The one
  exception bears the name, with the log's own process and instance, the clock and the next number
  of its sequence, that the log gives its next segment: a file already there is continued, so it
  begins with what it held.\<close>

theorem append_keeps_live_evidence:
  assumes "log_append w now e l = (r, l')" "live_segment (aw_alive w) name" "name \<noteq> lg_current l"
    and "map_of (lg_archive l) name = Some raw"
  shows "map_of (lg_archive l') name = Some raw \<or>
    (\<exists>ms more. timestamp now = Inr ms \<and>
       name = segment_path (aw_options w) ms (lg_sequence l + 1) OpenSegment \<and>
       map_of (lg_archive l') name = Some (raw @ more))"
proof -
  note live = assms(2)
  have draws: "\<And>m. name \<noteq> claim_path (aw_draw w m)" using live_not_claim [OF live] by blast
  have m: "map_of (lg_archive l1) name = Some raw" "lg_current l1 = lg_current l"
    if "migrate_legacy w now l = (r1, l1)" for r1 l1
    using migrate_keeps [OF that live] migrate_current [OF that] assms(4) by simp_all
  have p: "map_of (lg_archive l2) name = Some raw"
    if "migrate_legacy w now l = (r1, l1)" "prepare_current w now n l1 = (r2, l2)" for r1 l1 n r2 l2
    using prepare_keeps [OF that(2) live] m [OF that(1)] assms(3) by simp
  have k: "map_of (lg_archive l3) name = Some raw"
    if "map_of (lg_archive l2) name = Some raw" "maintain w now n c l2 = (r3, l3)" for l2 n c r3 l3
    using maintain_keeps [OF that(2) disjI1 [OF live] draws] that(1) by simp
  show ?thesis using assms(1)
  proof (cases rule: log_append_cases)
    case too_large
    then show ?thesis using assms(4) by simp
  next
    case (failed line l1 l2 r1 r2 err)
    then have "map_of (lg_archive l') name = Some raw" using m p k by blast
    then show ?thesis ..
  next
    case (finished line l1 l2 l3 current)
    have held: "map_of (lg_archive l3) name = Some raw" using k [OF p [OF finished(3,4)] finished(5)] .
    show ?thesis
    proof (cases "name = lg_current l3")
      case False
      then show ?thesis using held finished(6) by (simp add: map_of_append_file)
    next
      case True
      then obtain ms where "timestamp now = Inr ms" "name = segment_path (aw_options w) ms (lg_sequence l + 1) OpenSegment"
        using prepare_names [OF finished(4)] maintain_current [OF finished(5)] migrate_sequence [OF finished(3)]
          m(2) [OF finished(3)] assms(3) by auto
      moreover have "map_of (lg_archive l') name = Some (raw @ line)"
        using True held finished(6) by (simp add: map_of_append_file or_else_def)
      ultimately show ?thesis by blast
    qed
  qed
qed

section \<open>The archive stays within its limits\<close>

definition archive_bytes :: "archive \<Rightarrow> int" where
  "archive_bytes ar = sum_list (map (\<lambda>f. byte_length (snd f)) ar)"

lemma byte_length_append [simp]: "byte_length (s @ t) = byte_length s + byte_length t"
  by (simp add: byte_length_def)

lemma byte_length_Nil [simp]: "byte_length [] = 0"
  by (simp add: byte_length_def)

lemma archive_bytes_append_file:
  "archive_bytes (append_file name text ar) = archive_bytes ar + byte_length text"
proof -
  have "archive_bytes (map_set name (or_else (map_of ar name) [] @ text) ar) = archive_bytes ar + byte_length text"
    by (induction ar) (auto simp: archive_bytes_def or_else_def)
  then show ?thesis by (simp add: append_file_def or_else_def)
qed

lemma length_map_set: "length (map_set k v m) = (if map_of m k = None then Suc (length m) else length m)"
  by (induction k v m rule: map_set.induct) auto

lemma sum_array_sort: "sum_list (map f (array_sort cmp xs)) = (sum_list (map f xs) :: int)"
proof -
  have "sum_list (map f (insert_by cmp x ys)) = f x + sum_list (map f ys)" for x ys
    by (induction cmp x ys rule: insert_by.induct) auto
  then show ?thesis by (induction xs) (simp_all add: array_sort_def)
qed

definition claimless :: "archive \<Rightarrow> bool" where
  "claimless ar = (\<forall>f \<in> set ar. \<not> is_claim (fst f))"

lemma discovered_totals:
  assumes "discover_segments ar = Inr gs" "claimless ar"
  shows "length gs = length ar" "total_size gs = archive_bytes ar"
proof -
  obtain hs where hs: "traverse read_segment (filter (\<lambda>f. \<not> is_claim (fst f)) ar) = Inr hs"
    "gs = array_sort compare_segments hs" using discover_segments_cases [OF assms(1)] .
  have "filter (\<lambda>f. \<not> is_claim (fst f)) ar = ar" using assms(2) by (simp add: claimless_def filter_id_conv)
  then have t: "traverse read_segment ar = Inr hs" using hs(1) by simp
  have sizes: "map sg_size hs = map (\<lambda>f. byte_length (snd f)) ar"
    using t by (induction ar arbitrary: hs) (auto dest!: read_segment_name)
  show "length gs = length ar" using traverse_length [OF t] hs(2) by simp
  show "total_size gs = archive_bytes ar"
    by (simp add: total_size_def archive_bytes_def hs(2) sum_array_sort sizes)
qed

lemma claimless_removed:
  assumes "remove_deletion_claims ar = Inr ar'"
  shows "claimless ar'"
proof -
  let ?drop = "\<lambda>f :: string \<times> string. if is_claim (fst f) then remove_file (fst f) else id"
  have sub: "set (fold ?drop fs as) \<subseteq> set as" for fs as
  proof (induction fs arbitrary: as)
    case (Cons f fs)
    have "set (?drop f as) \<subseteq> set as" by (auto simp: remove_file_def)
    then show ?case using Cons.IH [of "?drop f as"] by (simp only: fold.simps comp_apply)
  qed simp
  have gone: "f \<in> set fs \<Longrightarrow> is_claim (fst f) \<Longrightarrow> f \<notin> set (fold ?drop fs as)" for f fs as
  proof (induction fs arbitrary: as)
    case (Cons g fs)
    show ?case
    proof (cases "f = g")
      case True
      then have "f \<notin> set (?drop g as)" using Cons.prems(2) by (auto simp: remove_file_def)
      then show ?thesis using sub [of fs "?drop g as"] by auto
    qed (use Cons in auto)
  qed simp
  have "ar' = fold ?drop ar ar"
    using assms by (auto simp: remove_deletion_claims_def list_archive_def split: if_splits)
  then show ?thesis using sub gone unfolding claimless_def by blast
qed

lemma maintain_enough:
  assumes "maintain w now reserved creates l = (Inr (), l')"
  obtains ms gs where "timestamp now = Inr ms" "claimless (lg_archive l')" "discover_segments (lg_archive l') = Inr gs"
    and "choose_eviction (aw_options w) (aw_alive w) (lg_current l)
      (ms - ao_retention_days (aw_options w) * day_ms - day_ms) reserved creates gs = Enough"
proof -
  obtain ar where ar: "remove_deletion_claims (lg_archive l) = Inr ar"
    using assms by (auto simp: maintain_def split: sum.splits)
  obtain ms where ms: "timestamp now = Inr ms"
    using assms ar by (auto simp: maintain_def with_timestamp_def split: sum.splits)
  let ?b = "ms - ao_retention_days (aw_options w) * day_ms - day_ms"
  obtain r1 ar1 n1 where loop: "maintain_loop (aw_options w) (aw_alive w) (aw_draw w) (lg_current l) ?b
      reserved creates (lg_drawn l) ar = (r1, ar1, n1)" by (metis prod_cases3)
  have r: "r1 = Inr ()" "lg_archive l' = ar1" using assms ar ms loop
    by (auto simp: maintain_def with_timestamp_def Let_def)
  have step: "claimless (claim_and_delete hex g as)" if as: "claimless as" for hex g as
    unfolding claimless_def
  proof
    fix f assume "f \<in> set (claim_and_delete hex g as)"
    then have "fst f \<in> fst ` set as" using no_claim_left imageI by blast
    then show "\<not> is_claim (fst f)" using as unfolding claimless_def by (metis imageE)
  qed
  from maintain_loop_rule [OF loop, of claimless] claimless_removed [OF ar] step r(1) obtain gs where gs:
    "claimless ar1" "discover_segments ar1 = Inr gs"
    "choose_eviction (aw_options w) (aw_alive w) (lg_current l) ?b reserved creates gs = Enough" by auto
  show ?thesis using that [OF ms] gs r(2) by simp
qed

lemma choose_enough:
  "choose_eviction opts alive current boundary reserved creates gs = Enough \<longleftrightarrow>
     (\<forall>g \<in> set gs. \<not> (evictable alive current g \<and> sn_created g \<le> boundary)) \<and>
     total_size gs + reserved \<le> ao_max_total opts \<and>
     int (length gs) + (if creates then 1 else 0) \<le> ao_max_segments opts"
proof (cases "find (\<lambda>g. evictable alive current g \<and> sn_created g \<le> boundary) gs")
  case None
  let ?fits = "total_size gs + reserved \<le> ao_max_total opts \<and>
     int (length gs) + (if creates then 1 else 0) \<le> ao_max_segments opts"
  have "\<forall>g \<in> set gs. \<not> (evictable alive current g \<and> sn_created g \<le> boundary)"
    using None unfolding find_None_iff by blast
  moreover have "choose_eviction opts alive current boundary reserved creates gs = Enough \<longleftrightarrow> ?fits"
    by (auto simp: choose_eviction_def Let_def None split: option.splits)
  ultimately show ?thesis by blast
next
  case (Some g)
  then have "\<exists>g \<in> set gs. evictable alive current g \<and> sn_created g \<le> boundary" by (auto simp: find_Some_iff)
  then show ?thesis using Some by (auto simp: choose_eviction_def)
qed

lemma maintain_returns:
  assumes "maintain w now reserved creates l = (Inr (), l')"
  shows "archive_bytes (lg_archive l') + reserved \<le> ao_max_total (aw_options w) \<and>
    int (length (lg_archive l')) + (if creates then 1 else 0) \<le> ao_max_segments (aw_options w)"
proof -
  obtain ms gs where gs: "claimless (lg_archive l')" "discover_segments (lg_archive l') = Inr gs"
    "choose_eviction (aw_options w) (aw_alive w) (lg_current l)
      (ms - ao_retention_days (aw_options w) * day_ms - day_ms) reserved creates gs = Enough"
    using maintain_enough [OF assms] .
  then show ?thesis using discovered_totals [OF gs(2,1)] unfolding choose_enough by simp
qed

definition owned_name :: "string \<Rightarrow> bool" where
  "owned_name name = starts_with name ''audit-''"

lemma owned_plain: "owned_name name \<Longrightarrow> \<not> is_claim name \<and> name \<noteq> claim_path hex \<and> name \<noteq> legacy_path ms hex"
  by (auto simp: owned_name_def is_claim_def claim_path_def legacy_path_def prefix_def)

lemma owned_segment_path: "owned_name (segment_path o1 created sequence st)"
  by (simp add: owned_name_def segment_path_def)

lemma segment_path_not_legacy: "segment_path o1 created sequence st \<noteq> legacy_path ms hex"
  by (simp add: segment_path_def legacy_path_def)

lemma migrate_map:
  assumes "migrate_legacy w now l = (r, l')" "\<And>ms hex. name \<noteq> legacy_path ms hex"
  shows "map_of (lg_archive l') name = map_of (lg_archive l) name"
proof (cases "lg_legacy l")
  case (Some raw)
  then show ?thesis
    using assms by (cases "timestamp now") (auto simp: migrate_legacy_def with_timestamp_def map_of_map_set)
qed (use assms in \<open>simp add: migrate_legacy_def\<close>)

lemma segment_path_not_closed: "segment_path o1 created sequence OpenSegment \<noteq> stem @ state_suffix ClosedSegment"
proof
  assume eq: "segment_path o1 created sequence OpenSegment = stem @ state_suffix ClosedSegment"
  define front where "front = ''audit-'' @ pad_start 13 created @ ''-'' @ pad_start 10 (ao_process o1) @ ''-'' @
    ao_instance o1 @ ''-'' @ pad_start 8 sequence"
  have "segment_path o1 created sequence OpenSegment = front @ state_suffix OpenSegment"
    by (simp add: segment_path_def front_def)
  then have "take 11 (rev (front @ state_suffix OpenSegment)) = take 11 (rev (stem @ state_suffix ClosedSegment))"
    using eq by simp
  then show False by (simp add: state_suffix_def)
qed

lemma prepare_current_room:
  assumes "prepare_current w now bytes l = (Inr current, l')" "owned_name (lg_current l)"
    and "bytes \<le> ao_max_segment (aw_options w)"
    and fresh: "\<And>ms. now = Some ms \<Longrightarrow>
      map_of (lg_archive l) (segment_path (aw_options w) ms (lg_sequence l + 1) OpenSegment) = None"
  shows "owned_name (lg_current l')" "current = stat_size (lg_archive l') (lg_current l')"
    and "or_else current 0 + bytes \<le> ao_max_segment (aw_options w)"
proof -
  obtain ms where ms: "now = Some ms" "timestamp now = Inr ms"
    using assms(1) by (auto simp: prepare_current_def with_timestamp_def timestamp_def split: option.splits if_splits)
  let ?new = "segment_path (aw_options w) ms (lg_sequence l + 1) OpenSegment"
  have closed: "map_of (lg_archive (close_current l)) ?new = None"
  proof (cases "?new = lg_current l")
    case True
    then show ?thesis using fresh [OF ms(1)] by (simp add: close_current_def move_file_def)
  next
    case False
    then have "?new \<noteq> with_segment_state (lg_current l) ClosedSegment"
      using closed_form [of "lg_current l"] segment_path_not_closed by metis
    then show ?thesis using fresh [OF ms(1)] False by (simp add: close_current_def map_of_move_file)
  qed
  have adv: "lg_archive (advance_current w ms k) = lg_archive k"
    "lg_current (advance_current w ms k) = segment_path (aw_options w) ms (lg_sequence k + 1) OpenSegment" for k
    by (simp_all add: advance_current_def Let_def)
  have seq: "lg_sequence (close_current l) = lg_sequence l" by (simp add: close_current_def)
  have run: "l' = (case stat_size (lg_archive l) (lg_current l) of
                   None \<Rightarrow> if ms - lg_created l \<ge> day_ms then advance_current w ms l else l
                 | Some held \<Rightarrow>
                     if held + bytes > ao_max_segment (aw_options w) \<or> ms - lg_created l \<ge> day_ms
                     then advance_current w ms (close_current l) else l)"
    and cur: "current = stat_size (lg_archive l') (lg_current l')"
    using assms(1) ms(2) by (auto simp: prepare_current_def with_timestamp_def Let_def)
  show "current = stat_size (lg_archive l') (lg_current l')" by (rule cur)
  show "owned_name (lg_current l')" using run assms(2) by (auto simp: adv owned_segment_path split: option.splits)
  show "or_else current 0 + bytes \<le> ao_max_segment (aw_options w)"
    using assms(3) run cur fresh [OF ms(1)] closed seq
    by (auto simp: adv stat_size_def or_else_def split: option.splits if_splits)
qed

text \<open>What an append that returns leaves behind, step by step.\<close>

lemma append_facts:
  assumes "log_append w now e l = (Inr (), l')" "owned_name (lg_current l)"
  obtains line l1 l2 l3 current where "serialise_entry w e = Inr line"
    and "migrate_legacy w now l = (Inr (), l1)" "lg_current l1 = lg_current l"
    and "prepare_current w now (byte_length line) l1 = (Inr current, l2)"
    and "current = stat_size (lg_archive l2) (lg_current l2)" "owned_name (lg_current l2)"
    and "maintain w now (byte_length line) (current = None) l2 = (Inr (), l3)" "lg_current l3 = lg_current l2"
    and "map_of (lg_archive l3) (lg_current l2) = map_of (lg_archive l2) (lg_current l2)"
    and "l' = l3\<lparr>lg_archive := append_file (lg_current l2) line (lg_archive l3)\<rparr>"
    and "archive_bytes (lg_archive l') \<le> ao_max_total (aw_options w)"
    and "int (length (lg_archive l')) \<le> ao_max_segments (aw_options w)"
  using assms(1)
proof (cases rule: log_append_cases)
  case (finished line l1 l2 l3 current)
  have cur1: "lg_current l1 = lg_current l" using migrate_current [OF finished(3)] .
  then have own1: "owned_name (lg_current l1)" using assms(2) by simp
  have adv: "lg_current (advance_current w ms k) = segment_path (aw_options w) ms (lg_sequence k + 1) OpenSegment" for ms k
    by (simp add: advance_current_def Let_def)
  have stat: "current = stat_size (lg_archive l2) (lg_current l2)" "owned_name (lg_current l2)"
    using finished(4) own1
    by (auto simp: prepare_current_def with_timestamp_def Let_def adv owned_segment_path
        split: sum.splits option.splits if_splits)
  note kept = maintain_returns [OF finished(5)]
  have cur: "lg_current l3 = lg_current l2" using maintain_current [OF finished(5)] .
  have same: "map_of (lg_archive l3) (lg_current l2) = map_of (lg_archive l2) (lg_current l2)"
    using maintain_keeps [OF finished(5), of "lg_current l2"] owned_plain [OF stat(2)] by blast
  have absent: "current = None \<longleftrightarrow> map_of (lg_archive l3) (lg_current l3) = None"
    using stat(1) same cur by (simp add: stat_size_def)
  have "archive_bytes (lg_archive l') \<le> ao_max_total (aw_options w)"
    using kept finished(6) by (simp add: archive_bytes_append_file)
  moreover have "int (length (lg_archive l')) \<le> ao_max_segments (aw_options w)"
    using kept absent finished(6) by (auto simp: append_file_def length_map_set split: if_splits)
  ultimately show ?thesis
    using that [OF finished(1,3) cur1 finished(4) stat finished(5) cur same] finished(6) cur by simp
qed auto

text \<open>C30: after every append that returns, the whole archive directory holds at most the
  configured number of bytes and of files, the new line included, and the active segment holds
  the line at its end and is within its own limit. The name of a segment the log has not
  opened yet is taken to be free.\<close>

theorem append_within_bounds:
  assumes "log_append w now e l = (Inr (), l')" "owned_name (lg_current l)"
    and "ao_max_entry (aw_options w) \<le> ao_max_segment (aw_options w)"
    and "case now of None \<Rightarrow> True | Some ms \<Rightarrow>
      map_of (lg_archive l) (segment_path (aw_options w) ms (lg_sequence l + 1) OpenSegment) = None"
  shows "archive_bytes (lg_archive l') \<le> ao_max_total (aw_options w) \<and>
    int (length (lg_archive l')) \<le> ao_max_segments (aw_options w) \<and>
    (\<exists>line content. serialise_entry w e = Inr line \<and>
       map_of (lg_archive l') (lg_current l') = Some (content @ line) \<and>
       byte_length (content @ line) \<le> ao_max_segment (aw_options w))"
proof -
  obtain line l1 l2 l3 current where f: "serialise_entry w e = Inr line"
    "migrate_legacy w now l = (Inr (), l1)" "lg_current l1 = lg_current l"
    "prepare_current w now (byte_length line) l1 = (Inr current, l2)"
    "current = stat_size (lg_archive l2) (lg_current l2)" "owned_name (lg_current l2)"
    "maintain w now (byte_length line) (current = None) l2 = (Inr (), l3)" "lg_current l3 = lg_current l2"
    "map_of (lg_archive l3) (lg_current l2) = map_of (lg_archive l2) (lg_current l2)"
    "l' = l3\<lparr>lg_archive := append_file (lg_current l2) line (lg_archive l3)\<rparr>"
    "archive_bytes (lg_archive l') \<le> ao_max_total (aw_options w)"
    "int (length (lg_archive l')) \<le> ao_max_segments (aw_options w)"
    using append_facts [OF assms(1,2)] .
  have small: "byte_length line \<le> ao_max_segment (aw_options w)"
    using f(1) assms(3) by (auto simp: serialise_entry_def Let_def split: if_splits)
  have seq: "lg_sequence l1 = lg_sequence l"
    using f(2) by (auto simp: migrate_legacy_def with_timestamp_def split: option.splits sum.splits)
  have fresh: "map_of (lg_archive l1) (segment_path (aw_options w) ms (lg_sequence l1 + 1) OpenSegment) = None"
    if "now = Some ms" for ms
    using migrate_map [OF f(2) segment_path_not_legacy] assms(4) that by (simp add: seq)
  have "owned_name (lg_current l1)" using assms(2) f(3) by simp
  note room = prepare_current_room [OF f(4) this small fresh]
  have "map_of (lg_archive l') (lg_current l') = Some (or_else (map_of (lg_archive l2) (lg_current l2)) [] @ line)"
    using f(8,9,10) by (simp add: map_of_append_file)
  moreover have "byte_length (or_else (map_of (lg_archive l2) (lg_current l2)) [] @ line) \<le> ao_max_segment (aw_options w)"
    using room(3) f(5) by (auto simp: stat_size_def or_else_def split: option.splits)
  ultimately show ?thesis using f(1,11,12) by blast
qed

section \<open>The oldest evidence goes first\<close>

definition segment_key :: "audit_segment \<Rightarrow> int \<times> bool \<times> string" where
  "segment_key g = (sn_created g, sn_process g \<noteq> None, sg_name g)"

lemma compare_segments_key: "compare_segments a b \<le> 0 \<longleftrightarrow> segment_key a \<le> segment_key b"
  by (auto simp: compare_segments_def segment_key_def locale_compare_def less_eq_prod_def less_prod_def)

lemma array_sort_key:
  assumes "\<And>x y. cmp x y \<le> 0 \<longleftrightarrow> key x \<le> (key y :: 'k :: linorder)"
  shows "array_sort cmp xs = sort_key key xs"
proof -
  have "insert_by cmp x ys = insort_key key x ys" for x ys
    by (induction ys) (simp_all add: assms)
  then show ?thesis by (induction xs) (simp_all add: array_sort_def)
qed

lemma discovered_sorted: "discover_segments ar = Inr gs \<Longrightarrow> sorted (map segment_key gs)"
  by (erule discover_segments_cases) (simp add: array_sort_key [OF compare_segments_key])

lemma find_sorted:
  assumes "find P xs = Some x" "sorted (map key xs)" "y \<in> set xs" "P y"
  shows "key x \<le> key y"
proof -
  obtain i where i: "i < length xs" "x = xs ! i" "\<And>j. j < i \<Longrightarrow> \<not> P (xs ! j)"
    using assms(1) unfolding find_Some_iff by blast
  obtain k where k: "k < length xs" "y = xs ! k" using assms(3) by (auto simp: in_set_conv_nth)
  then have "i \<le> k" using i(3) assms(4) by (metis not_le)
  then show ?thesis using sorted_nth_mono [OF assms(2), of i k] i k by simp
qed

lemma choose_oldest:
  assumes "choose_eviction opts alive current boundary reserved creates gs = Evict g"
    and "sorted (map segment_key gs)" "h \<in> set gs" "evictable alive current h"
  shows "segment_key g \<le> segment_key h"
proof (cases "find (\<lambda>g. evictable alive current g \<and> sn_created g \<le> boundary) gs")
  case None
  then have "find (evictable alive current) gs = Some g"
    using assms(1) by (auto simp: choose_eviction_def Let_def split: if_splits option.splits)
  from find_sorted [OF this assms(2,3,4)] show ?thesis .
next
  case (Some e)
  then have e: "e = g" using assms(1) by (simp add: choose_eviction_def)
  show ?thesis
  proof (cases "sn_created h \<le> boundary")
    case True
    then have "evictable alive current h \<and> sn_created h \<le> boundary" using assms(4) by simp
    from find_sorted [OF Some assms(2,3) this] show ?thesis using e by simp
  next
    case False
    moreover have "sn_created g \<le> boundary" using Some e by (auto simp: find_Some_iff)
    ultimately show ?thesis by (simp add: segment_key_def less_eq_prod_def)
  qed
qed

text \<open>What was removed is no newer than what could still be.\<close>

definition oldest_first :: "(int \<Rightarrow> bool) \<Rightarrow> string \<Rightarrow> archive \<Rightarrow> archive \<Rightarrow> bool" where
  "oldest_first alive current before after =
     (\<forall>f \<in> set before. \<forall>f' \<in> set after. f \<notin> set after \<longrightarrow>
        (\<forall>g'. read_segment f' = Inr g' \<and> evictable alive current g' \<longrightarrow>
          (\<exists>g. read_segment f = Inr g \<and> evictable alive current g \<and> segment_key g \<le> segment_key g')))"

lemma loop_oldest_first:
  assumes run: "maintain_loop opts alive draw current boundary reserved creates n ar = (r, ar', n')"
    and ar: "distinct (map fst ar)" "claimless ar" and draws: "\<And>m. is_claim (claim_path (draw m))"
  shows "set ar' \<subseteq> set ar \<and> oldest_first alive current ar ar'"
proof -
  let ?I = "\<lambda>as. distinct (map fst as) \<and> claimless as \<and> set as \<subseteq> set ar \<and> oldest_first alive current ar as"
  have "?I (claim_and_delete (draw m) g as)"
    if I: "?I as" and d: "discover_segments as = Inr gs"
      and e: "choose_eviction opts alive current boundary reserved creates gs = Evict g" for m as gs g
  proof -
    obtain f where f: "f \<in> set as" "read_segment f = Inr g" using discovered_of [OF d] choose_evict [OF e] by blast
    have name: "sg_name g = fst f" using read_segment_name [OF f(2)] by simp
    have new: "claim_path (draw m) \<notin> fst ` set as" using I draws unfolding claimless_def by (metis imageE)
    then have "sg_name g \<noteq> claim_path (draw m)" using name f(1) by (metis imageI)
    then have del: "claim_and_delete (draw m) g as = remove_file (fst f) as"
      using claim_and_delete_files I new name by metis
    have only: "h = f" if "h \<in> set as" "fst h = fst f" for h
      using I that f(1) by (metis distinct_map inj_onD)
    have "oldest_first alive current ar (remove_file (fst f) as)"
      unfolding oldest_first_def
    proof (intro ballI impI allI)
      fix a b g' assume a: "a \<in> set ar" and b: "b \<in> set (remove_file (fst f) as)"
        and gone: "a \<notin> set (remove_file (fst f) as)" and g': "read_segment b = Inr g' \<and> evictable alive current g'"
      have b': "b \<in> set as" using b by (simp add: remove_file_def)
      show "\<exists>g. read_segment a = Inr g \<and> evictable alive current g \<and> segment_key g \<le> segment_key g'"
      proof (cases "a \<in> set as")
        case False
        then show ?thesis using I a b' g' unfolding oldest_first_def by blast
      next
        case True
        then have "fst a = fst f" using gone by (simp add: remove_file_def)
        then have "a = f" using only True by blast
        moreover have "g' \<in> set gs"
        proof -
          obtain hs where hs: "traverse read_segment (filter (\<lambda>f. \<not> is_claim (fst f)) as) = Inr hs"
            "gs = array_sort compare_segments hs" using discover_segments_cases [OF d] .
          have "b \<in> set (filter (\<lambda>f. \<not> is_claim (fst f)) as)" using b' I unfolding claimless_def by simp
          from traverse_set' [OF hs(1) this] g' hs(2) show ?thesis by auto
        qed
        ultimately show ?thesis
          using f(2) choose_evict [OF e] choose_oldest [OF e discovered_sorted [OF d]] g' by blast
      qed
    qed
    moreover have "distinct (map fst (remove_file (fst f) as))" "claimless (remove_file (fst f) as)"
      "set (remove_file (fst f) as) \<subseteq> set ar"
      using I by (auto simp: remove_file_def claimless_def distinct_map_filter)
    ultimately show ?thesis unfolding del by blast
  qed
  with maintain_loop_rule [OF run, of ?I] ar show ?thesis by (auto simp: oldest_first_def)
qed

text \<open>Retention gives up the oldest evidence first. Whatever \<open>maintain\<close> removes from a
  directory with distinct names could be evicted, and is no newer than anything that is left
  and could be; nothing is changed or added.\<close>

theorem retention_removes_oldest:
  assumes "maintain w now reserved creates l = (r, l')" "distinct (map fst (lg_archive l))"
    and "\<forall>m. hexes 12 (aw_draw w m)"
  shows "set (lg_archive l') \<subseteq> set (lg_archive l) \<and>
    oldest_first (aw_alive w) (lg_current l) (filter (\<lambda>f. \<not> is_claim (fst f)) (lg_archive l)) (lg_archive l')"
proof -
  have draws: "is_claim (claim_path (aw_draw w m))" for m
    using assms(3) by (simp add: is_claim_def claim_path_def)
  show ?thesis
  proof (cases "remove_deletion_claims (lg_archive l)")
    case (Inl e)
    then show ?thesis using assms(1) by (auto simp: maintain_def oldest_first_def)
  next
    case (Inr ar)
    have fold_filter: "fold (\<lambda>f. if is_claim (fst f) then remove_file (fst f) else id) fs as =
        filter (\<lambda>f. \<not> (\<exists>h \<in> set fs. is_claim (fst h) \<and> fst h = fst f)) as" for fs :: archive and as
      by (induction fs arbitrary: as) (auto simp: remove_file_def intro!: filter_cong)
    have "ar = fold (\<lambda>f. if is_claim (fst f) then remove_file (fst f) else id) (lg_archive l) (lg_archive l)"
      using Inr by (auto simp: remove_deletion_claims_def list_archive_def split: if_splits)
    also have "\<dots> = filter (\<lambda>f. \<not> is_claim (fst f)) (lg_archive l)"
      unfolding fold_filter by (rule filter_cong [OF refl]) auto
    finally have ar: "ar = filter (\<lambda>f. \<not> is_claim (fst f)) (lg_archive l)" .
    have ok: "distinct (map fst ar)" "claimless ar" using assms(2) by (simp_all add: ar claimless_def distinct_map_filter)
    show ?thesis
    proof (cases "timestamp now")
      case (Inl e)
      then have "lg_archive l' = ar" using assms(1) Inr by (auto simp: maintain_def with_timestamp_def)
      then show ?thesis using ar by (auto simp: oldest_first_def)
    next
      case ms: (Inr ms)
      obtain r1 ar1 n1 where loop: "maintain_loop (aw_options w) (aw_alive w) (aw_draw w) (lg_current l)
          (ms - ao_retention_days (aw_options w) * day_ms - day_ms) reserved creates (lg_drawn l) ar = (r1, ar1, n1)"
        by (metis prod_cases3)
      have "lg_archive l' = ar1" using assms(1) Inr ms loop by (auto simp: maintain_def with_timestamp_def Let_def)
      then show ?thesis using loop_oldest_first [OF loop ok draws] ar by auto
    qed
  qed
qed

section \<open>What was appended is read back\<close>

lemma byte_length_nonneg: "0 \<le> byte_length s"
  by (induction s) (auto simp: byte_length_def)

lemma read_segments_returns:
  assumes "bytes + total_size gs \<le> ao_max_total (aw_options w)" "\<forall>g \<in> set gs. 0 \<le> sg_size g"
  shows "\<exists>es. read_segments w moment ar bytes gs = Inr es \<and>
    (\<forall>g \<in> set gs. \<forall>raw. map_of ar (sg_name g) = Some raw \<longrightarrow> set (parse_audit_lines w moment raw) \<subseteq> set es)"
  using assms
proof (induction gs arbitrary: bytes)
  case (Cons g gs)
  have "0 \<le> total_size gs" using Cons.prems(2) by (auto simp: total_size_def intro!: sum_list_nonneg)
  moreover have "bytes + sg_size g + total_size gs \<le> ao_max_total (aw_options w)"
    using Cons.prems(1) by (simp add: total_size_def)
  ultimately obtain es where "read_segments w moment ar (bytes + sg_size g) gs = Inr es"
    "\<forall>g \<in> set gs. \<forall>raw. map_of ar (sg_name g) = Some raw \<longrightarrow> set (parse_audit_lines w moment raw) \<subseteq> set es"
    "bytes + sg_size g \<le> ao_max_total (aw_options w)"
    using Cons.IH [of "bytes + sg_size g"] Cons.prems(2) by force
  then show ?case by auto
qed simp

lemma split_last_line:
  assumes "nl \<notin> set line" "content = [] \<or> last content = nl"
  shows "line \<in> set (split_on nl (content @ line @ [nl]))"
proof -
  have tail: "split_on nl (line @ [nl]) = [line, []]"
    using split_by_append [of "\<lambda>x. x = nl" nl line "[]"] split_by_none [of line "\<lambda>x. x = nl"] assms(1) by auto
  show ?thesis
  proof (cases "content = []")
    case True
    then show ?thesis using tail by simp
  next
    case False
    then have "content = butlast content @ [nl]" using assms(2) by (metis append_butlast_last_id)
    then have eq: "content @ line @ [nl] = butlast content @ nl # line @ [nl]" by (metis append.assoc append_Cons append_Nil)
    show ?thesis
      unfolding eq using split_by_append [of "\<lambda>x. x = nl" nl "butlast content" "line @ [nl]"] tail by simp
  qed
qed

definition newline_char :: char where
  "newline_char = char_of (10 :: nat)"

text \<open>The file of every segment, and the legacy file, is made of whole lines.\<close>

definition contents :: "audit_log \<Rightarrow> string set" where
  "contents l = snd ` set (lg_archive l) \<union> set_option (lg_legacy l)"

definition whole_lines :: "audit_log \<Rightarrow> bool" where
  "whole_lines l = (\<forall>raw \<in> contents l. raw = [] \<or> last raw = newline_char)"

text \<open>An entry that \<open>JSON\<close> and dates give back, on one line.\<close>

definition entry_readable :: "audit_world \<Rightarrow> audit_entry \<Rightarrow> bool" where
  "entry_readable w e =
     (''at'' \<notin> fst ` set (au_details e) \<and> ''event'' \<notin> fst ` set (au_details e) \<and>
      (case au_at e of None \<Rightarrow> False | Some t \<Rightarrow> dt_parse (aw_dates w) (dt_iso (aw_dates w) t) = Some t) \<and>
      (case entry_value (aw_dates w) e of
         Inl _ \<Rightarrow> False
       | Inr j \<Rightarrow> io_parse (aw_json w) (io_print (aw_json w) j) = Some j \<and>
           newline_char \<notin> set (io_print (aw_json w) j) \<and> trim (io_print (aw_json w) j) \<noteq> []))"

lemma map_set_contents: "snd ` set (map_set k v m) \<subseteq> insert v (snd ` set m)"
  by (induction k v m rule: map_set.induct) auto

lemma move_contents: "snd ` set (move_file a b ar) \<subseteq> snd ` set ar"
proof (cases "map_of ar a")
  case (Some raw)
  have "snd ` set (map_set b raw (remove_file a ar)) \<subseteq> insert raw (snd ` set (remove_file a ar))"
    by (rule map_set_contents)
  moreover have "snd ` set (remove_file a ar) \<subseteq> snd ` set ar" by (auto simp: remove_file_def)
  moreover have "raw \<in> snd ` set ar" using map_of_SomeD [OF Some] by force
  ultimately have "snd ` set (map_set b raw (remove_file a ar)) \<subseteq> snd ` set ar" by blast
  then show ?thesis using Some by (simp add: move_file_def)
qed (simp add: move_file_def)

lemma contents_migrate: "migrate_legacy w now l = (r, l') \<Longrightarrow> contents l' \<subseteq> contents l"
proof (cases "lg_legacy l")
  case (Some raw)
  assume run: "migrate_legacy w now l = (r, l')"
  show ?thesis
  proof (cases "timestamp now")
    case (Inr ms)
    then have "lg_archive l' = map_set (legacy_path ms (aw_draw w (lg_drawn l))) raw (lg_archive l)"
      "lg_legacy l' = None" using run Some by (auto simp: migrate_legacy_def with_timestamp_def)
    then show ?thesis
      using map_set_contents [of "legacy_path ms (aw_draw w (lg_drawn l))" raw "lg_archive l"] Some
      unfolding contents_def by simp
  qed (use run Some in \<open>simp add: migrate_legacy_def with_timestamp_def\<close>)
qed (simp add: migrate_legacy_def)

lemma contents_close: "contents (close_current l) \<subseteq> contents l"
  using move_contents [of "lg_current l" _ "lg_archive l"] unfolding close_current_def contents_def by auto

lemma contents_advance [simp]: "contents (advance_current w ms k) = contents k"
  by (simp add: advance_current_def contents_def Let_def)

lemma contents_prepare: "prepare_current w now n l = (r, l') \<Longrightarrow> contents l' \<subseteq> contents l"
  using contents_close [of l]
  by (cases "timestamp now")
     (auto simp: prepare_current_def with_timestamp_def Let_def simp del: subset_iff split: option.splits if_splits)

lemma entry_read_back:
  assumes "entry_readable w e" "serialise_entry w e = Inr line" "au_at e = Some t" "moment \<le> t"
    and "content = [] \<or> last content = newline_char"
  shows "e \<in> set (parse_audit_lines w moment (content @ line))"
proof -
  obtain j where j: "entry_value (aw_dates w) e = Inr j" "line = io_print (aw_json w) j @ [newline_char]"
    using assms(2) by (auto simp: serialise_entry_def Let_def newline_char_def split: if_splits)
  have trip: "io_parse (aw_json w) (io_print (aw_json w) j) = Some j"
    "newline_char \<notin> set (io_print (aw_json w) j)" "trim (io_print (aw_json w) j) \<noteq> []"
    and dates: "dt_parse (aw_dates w) (dt_iso (aw_dates w) t) = Some t"
    and keys: "''at'' \<notin> fst ` set (au_details e)" "''event'' \<notin> fst ` set (au_details e)"
    using assms(1,3) j(1) by (simp_all add: entry_readable_def)
  let ?props = "au_details e @ [(''at'', JString (dt_iso (aw_dates w) t)), (''event'', JString (au_event e))]"
  have props: "j = JObject ?props"
    using j(1) assms(3) keys by (auto simp: entry_value_def map_set_fresh)
  have look: "map_of ?props ''at'' = Some (JString (dt_iso (aw_dates w) t))"
    "map_of ?props ''event'' = Some (JString (au_event e))"
    using keys by (simp_all add: map_add_def flip: map_of_eq_None_iff)
  have "filter (\<lambda>p. fst p \<noteq> ''at'' \<and> fst p \<noteq> ''event'') ?props = au_details e"
    using keys by (force simp: filter_id_conv)
  then have "entry_of_line w moment (io_print (aw_json w) j) = Some e"
    using trip dates look assms(3,4) by (simp add: entry_of_line_def props as_string_def)
  moreover have "io_print (aw_json w) j \<in> set (split_on newline_char (content @ line))"
    using split_last_line [OF trip(2) assms(5)] j(2) by simp
  ultimately show ?thesis
    by (force simp: parse_audit_lines_def set_options_to_list newline_char_def [symmetric] image_iff)
qed

lemma discover_total:
  assumes "length ar \<le> max_discovered" "\<forall>f \<in> set ar. parse_segment_name (fst f) \<noteq> None"
  shows "\<exists>gs. discover_segments ar = Inr gs"
proof -
  have "\<exists>hs. traverse read_segment fs = Inr hs" if "\<forall>f \<in> set fs. parse_segment_name (fst f) \<noteq> None" for fs
    using that by (induction fs) (auto simp: read_segment_def)
  from this [of "filter (\<lambda>f. \<not> is_claim (fst f)) ar"] assms show ?thesis
    by (auto simp: discover_segments_def list_archive_def)
qed

lemma discovered_parse:
  assumes "discover_segments ar = Inr gs" "claimless ar" "f \<in> set ar"
  obtains g where "g \<in> set gs" "read_segment f = Inr g"
proof -
  obtain hs where hs: "traverse read_segment (filter (\<lambda>f. \<not> is_claim (fst f)) ar) = Inr hs"
    "gs = array_sort compare_segments hs" using discover_segments_cases [OF assms(1)] .
  have "f \<in> set (filter (\<lambda>f. \<not> is_claim (fst f)) ar)" using assms(2,3) unfolding claimless_def by simp
  from traverse_set' [OF hs(1) this] that hs(2) show ?thesis by auto
qed

lemma claims_of_claimless:
  assumes "claimless ar" "length ar \<le> max_discovered"
  shows "remove_deletion_claims ar = Inr ar"
proof -
  have "fold (\<lambda>f. if is_claim (fst f) then remove_file (fst f) else id) fs as = as"
    if "\<forall>f \<in> set fs. \<not> is_claim (fst f)" for fs :: archive and as
    using that by (induction fs arbitrary: as) auto
  then show ?thesis using assms by (simp add: remove_deletion_claims_def list_archive_def claimless_def)
qed

text \<open>A log that needs no maintenance is left as it is.\<close>

lemma maintain_idle:
  assumes "timestamp now = Inr ms" "claimless (lg_archive l)" "discover_segments (lg_archive l) = Inr gs"
    and "choose_eviction (aw_options w) (aw_alive w) (lg_current l)
      (ms - ao_retention_days (aw_options w) * day_ms - day_ms) reserved creates gs = Enough"
  shows "maintain w now reserved creates l = (Inr (), l)"
proof -
  have "length (lg_archive l) \<le> max_discovered" using discover_segments_cases [OF assms(3)] by blast
  then show ?thesis
    using claims_of_claimless [OF assms(2)] assms(1,3,4)
    by (simp add: maintain_def with_timestamp_def Let_def maintain_loop.simps)
qed

lemma prepared_not_aged:
  assumes "prepare_current w now n l = (r, l')" "timestamp now = Inr ms"
  shows "ms - lg_created l' < day_ms"
proof -
  have "0 < day_ms" by (simp add: day_ms_def)
  then show ?thesis using assms
    by (auto simp: prepare_current_def with_timestamp_def Let_def advance_current_def
        split: option.splits if_splits)
qed

text \<open>The new line ends the current segment, after whole lines.\<close>

lemma appended_line:
  assumes "log_append w now e l = (Inr (), l')" "owned_name (lg_current l)" "whole_lines l"
  shows "\<exists>content line. serialise_entry w e = Inr line \<and> (content = [] \<or> last content = newline_char) \<and>
    map_of (lg_archive l') (lg_current l') = Some (content @ line)"
proof -
  obtain line l1 l2 l3 current where f: "serialise_entry w e = Inr line"
    "migrate_legacy w now l = (Inr (), l1)" "lg_current l1 = lg_current l"
    "prepare_current w now (byte_length line) l1 = (Inr current, l2)"
    "current = stat_size (lg_archive l2) (lg_current l2)" "owned_name (lg_current l2)"
    "maintain w now (byte_length line) (current = None) l2 = (Inr (), l3)" "lg_current l3 = lg_current l2"
    "map_of (lg_archive l3) (lg_current l2) = map_of (lg_archive l2) (lg_current l2)"
    "l' = l3\<lparr>lg_archive := append_file (lg_current l2) line (lg_archive l3)\<rparr>"
    "archive_bytes (lg_archive l') \<le> ao_max_total (aw_options w)"
    "int (length (lg_archive l')) \<le> ao_max_segments (aw_options w)"
    using append_facts [OF assms(1,2)] .
  define content where "content = or_else (map_of (lg_archive l2) (lg_current l2)) []"
  have "contents l2 \<subseteq> contents l" using contents_prepare [OF f(4)] contents_migrate [OF f(2)] by blast
  moreover have "content \<noteq> [] \<Longrightarrow> content \<in> contents l2"
    unfolding content_def contents_def or_else_def
    by (cases "map_of (lg_archive l2) (lg_current l2)") (force dest: map_of_SomeD)+
  ultimately have "content = [] \<or> last content = newline_char" using assms(3) unfolding whole_lines_def by blast
  moreover have "map_of (lg_archive l') (lg_current l') = Some (content @ line)"
    using f(8,9,10) by (simp add: append_file_def content_def or_else_def map_of_map_set)
  ultimately show ?thesis using f(1) by blast
qed

text \<open>A log that has just been written needs no maintenance: reading it removes nothing.\<close>

lemma appended_log_settled:
  assumes "log_append w now e l = (Inr (), l')" "owned_name (lg_current l)"
    and "parse_segment_name (lg_current l') \<noteq> None" "ao_max_segments (aw_options w) \<le> 4096"
  shows "\<exists>gs. discover_segments (lg_archive l') = Inr gs \<and> claimless (lg_archive l') \<and>
    maintain w now 0 False l' = (Inr (), l')"
proof -
  obtain line l1 l2 l3 current where f: "serialise_entry w e = Inr line"
    "migrate_legacy w now l = (Inr (), l1)" "lg_current l1 = lg_current l"
    "prepare_current w now (byte_length line) l1 = (Inr current, l2)"
    "current = stat_size (lg_archive l2) (lg_current l2)" "owned_name (lg_current l2)"
    "maintain w now (byte_length line) (current = None) l2 = (Inr (), l3)" "lg_current l3 = lg_current l2"
    "map_of (lg_archive l3) (lg_current l2) = map_of (lg_archive l2) (lg_current l2)"
    "l' = l3\<lparr>lg_archive := append_file (lg_current l2) line (lg_archive l3)\<rparr>"
    "archive_bytes (lg_archive l') \<le> ao_max_total (aw_options w)"
    "int (length (lg_archive l')) \<le> ao_max_segments (aw_options w)"
    using append_facts [OF assms(1,2)] .
  obtain ms gs3 where m: "timestamp now = Inr ms" "claimless (lg_archive l3)"
    "discover_segments (lg_archive l3) = Inr gs3"
    "choose_eviction (aw_options w) (aw_alive w) (lg_current l2)
      (ms - ao_retention_days (aw_options w) * day_ms - day_ms) (byte_length line) (current = None) gs3 = Enough"
    using maintain_enough [OF f(7)] .
  let ?cur = "lg_current l2" and ?ar = "lg_archive l'"
  have cur: "lg_current l' = ?cur" using f(8,10) by simp
  obtain content where ar: "?ar = map_set ?cur content (lg_archive l3)"
    using f(10) by (simp add: append_file_def)
  have members: "f = (?cur, content) \<or> f \<in> set (lg_archive l3)" if "f \<in> set ?ar" for f
    using set_map_set that unfolding ar by fastforce
  have claimless: "claimless ?ar"
    using members m(2) owned_plain [OF f(6)] unfolding claimless_def by fastforce
  have parsed: "\<forall>f \<in> set ?ar. parse_segment_name (fst f) \<noteq> None"
  proof
    fix f assume "f \<in> set ?ar"
    then show "parse_segment_name (fst f) \<noteq> None"
    proof (rule members [THEN disjE])
      assume "f \<in> set (lg_archive l3)"
      then obtain g where "read_segment f = Inr g" using discovered_parse [OF m(3,2)] by blast
      then show ?thesis by (auto simp: read_segment_def split: option.splits)
    qed (use assms(3) cur in simp)
  qed
  have "length ?ar \<le> max_discovered" using f(12) assms(4) by (simp add: max_discovered_def)
  from discover_total [OF this parsed] obtain gs where gs: "discover_segments ?ar = Inr gs" by blast
  have "\<not> (evictable (aw_alive w) ?cur g \<and> sn_created g \<le> ms - ao_retention_days (aw_options w) * day_ms - day_ms)"
    if g: "g \<in> set gs" for g
  proof -
    obtain f where f: "f \<in> set ?ar" "read_segment f = Inr g" using discovered_of [OF gs g] by blast
    from members [OF f(1)] show ?thesis
    proof
      assume "f = (?cur, content)"
      then show ?thesis using read_segment_name [OF f(2)] by (simp add: evictable_def)
    next
      assume "f \<in> set (lg_archive l3)"
      then obtain g3 where "g3 \<in> set gs3" "read_segment f = Inr g3" using discovered_parse [OF m(3,2)] by blast
      then show ?thesis using f(2) m(4) unfolding choose_enough by auto
    qed
  qed
  then have "choose_eviction (aw_options w) (aw_alive w) (lg_current l')
      (ms - ao_retention_days (aw_options w) * day_ms - day_ms) 0 False gs = Enough"
    unfolding choose_enough cur using discovered_totals [OF gs claimless] f(11,12) by simp
  from maintain_idle [OF m(1) claimless gs this] claimless gs show ?thesis by blast
qed

text \<open>Nor has it a legacy file to migrate or a current segment to close.\<close>

lemma appended_log_young:
  assumes "log_append w now e l = (Inr (), l')" "owned_name (lg_current l)"
  shows "migrate_legacy w now l' = (Inr (), l') \<and> close_current_if_aged w now l' = (Inr (), l')"
proof -
  obtain line l1 l2 l3 current where f: "serialise_entry w e = Inr line"
    "migrate_legacy w now l = (Inr (), l1)" "lg_current l1 = lg_current l"
    "prepare_current w now (byte_length line) l1 = (Inr current, l2)"
    "current = stat_size (lg_archive l2) (lg_current l2)" "owned_name (lg_current l2)"
    "maintain w now (byte_length line) (current = None) l2 = (Inr (), l3)" "lg_current l3 = lg_current l2"
    "map_of (lg_archive l3) (lg_current l2) = map_of (lg_archive l2) (lg_current l2)"
    "l' = l3\<lparr>lg_archive := append_file (lg_current l2) line (lg_archive l3)\<rparr>"
    "archive_bytes (lg_archive l') \<le> ao_max_total (aw_options w)"
    "int (length (lg_archive l')) \<le> ao_max_segments (aw_options w)"
    using append_facts [OF assms(1,2)] .
  obtain ms where m: "timestamp now = Inr ms" using maintain_enough [OF f(7)] .
  have "lg_legacy l1 = None"
    using f(2) by (auto simp: migrate_legacy_def with_timestamp_def split: option.splits sum.splits)
  then have "lg_legacy l2 = None"
    using f(4) by (auto simp: prepare_current_def with_timestamp_def Let_def advance_current_def close_current_def
        split: sum.splits option.splits if_splits)
  then have "lg_legacy l' = None" using f(7,10)
    by (auto simp: maintain_def with_timestamp_def Let_def split: sum.splits prod.splits)
  moreover have "lg_created l' = lg_created l2" using f(7,10)
    by (auto simp: maintain_def with_timestamp_def Let_def split: sum.splits prod.splits)
  ultimately show ?thesis
    using prepared_not_aged [OF f(4) m] m
    by (simp add: migrate_legacy_def close_current_if_aged_def with_timestamp_def)
qed

text \<open>C31: what was appended is read back. After an append that returns, reading at the same
  moment throws nothing and yields the entry, its details included, when \<open>JSON\<close> and dates
  give the entry back, the archive is made of whole lines, and the active segment's name is
  one of the log's own.\<close>

theorem appended_entry_is_read:
  assumes "log_append w now e l = (Inr (), l')" "owned_name (lg_current l)" "whole_lines l"
    and "entry_readable w e" "au_at e = Some t" "moment \<le> t"
    and "parse_segment_name (lg_current l') \<noteq> None" "ao_max_segments (aw_options w) \<le> 4096"
  shows "\<exists>es. log_since w now moment l' = (Inr es, l') \<and> e \<in> set es"
proof -
  let ?cur = "lg_current l'" and ?ar = "lg_archive l'"
  obtain content line where line: "serialise_entry w e = Inr line" "content = [] \<or> last content = newline_char"
    "map_of ?ar ?cur = Some (content @ line)" using appended_line [OF assms(1-3)] by blast
  obtain gs where gs: "discover_segments ?ar = Inr gs" and claimless: "claimless ?ar"
    and idle: "maintain w now 0 False l' = (Inr (), l')"
    using appended_log_settled [OF assms(1,2,7,8)] by blast
  have young: "migrate_legacy w now l' = (Inr (), l')" "close_current_if_aged w now l' = (Inr (), l')"
    using appended_log_young [OF assms(1,2)] by auto
  note totals = discovered_totals [OF gs claimless]
  have small: "archive_bytes ?ar \<le> ao_max_total (aw_options w)" by (rule append_facts [OF assms(1,2)])
  have "\<forall>g \<in> set gs. 0 \<le> sg_size g"
    using discovered_of [OF gs] read_segment_name byte_length_nonneg by metis
  then obtain es where es: "read_segments w moment ?ar 0 gs = Inr es"
    "\<forall>g \<in> set gs. \<forall>raw. map_of ?ar (sg_name g) = Some raw \<longrightarrow> set (parse_audit_lines w moment raw) \<subseteq> set es"
    using read_segments_returns [of 0 gs w moment ?ar] totals small by auto
  obtain g where "g \<in> set gs" "read_segment (?cur, content @ line) = Inr g"
    using discovered_parse [OF gs claimless map_of_SomeD [OF line(3)]] .
  then have "set (parse_audit_lines w moment (content @ line)) \<subseteq> set es"
    using es(2) line(3) read_segment_name by fastforce
  then have "e \<in> set es" using entry_read_back [OF assms(4) line(1) assms(5,6) line(2)] by blast
  moreover have "log_since w now moment l' = (Inr es, l')"
    using young idle gs es(1) by (simp add: log_since_def sbind_def)
  ultimately show ?thesis by blast
qed

section \<open>A log at work\<close>

definition sample_audit_entry :: audit_entry where
  "sample_audit_entry = \<lparr>au_at = Some 3, au_event = ''run.start'', au_details = [(''n'', JBool True)]\<rparr>"

definition sample_audit_json :: json where
  "sample_audit_json =
     JObject [(''n'', JBool True), (''at'', JString ''000''), (''event'', JString ''run.start'')]"

definition sample_audit_world :: audit_world where
  "sample_audit_world =
     \<lparr>aw_options = \<lparr>ao_max_segment = 20, ao_max_total = 20, ao_max_segments = 3, ao_max_entry = 10,
        ao_retention_days = 1, ao_process = 7, ao_instance = ''abcdef012345''\<rparr>,
      aw_alive = (\<lambda>p. p = 7 \<or> p = 8), aw_draw = (\<lambda>_. ''0123456789ab''),
      aw_json = \<lparr>io_parse = (\<lambda>s. if s = ''E'' then Some sample_audit_json else None), io_print = (\<lambda>_. ''E'')\<rparr>,
      aw_dates = sample_dates\<rparr>"

abbreviation other_segment :: string where
  "other_segment \<equiv> ''audit-0000000000002-0000000008-abcdef012345-00000000.open.jsonl''"

abbreviation old_segment :: "char \<Rightarrow> string" where
  "old_segment c \<equiv> ''audit-000000000000'' @ [c] @ ''-0000000009-abcdef012345-00000000.closed.jsonl''"

definition sample_log :: audit_log where
  "sample_log =
     \<lparr>lg_archive = [(other_segment, [newline_char]), (old_segment (CHR ''4''), replicate 9 newline_char),
        (old_segment (CHR ''3''), replicate 9 newline_char), (''.deleting-0123456789ab'', [newline_char])],
      lg_legacy = None,
      lg_current = ''audit-0000000000009-0000000007-abcdef012345-00000000.open.jsonl'',
      lg_created = 9, lg_sequence = 0, lg_drawn = 0\<rparr>"

definition sample_appended :: audit_log where
  "sample_appended = snd (log_append sample_audit_world (Some 9) sample_audit_entry sample_log)"

text \<open>The append drops the older closed segment and the claim a crash left behind.\<close>

lemma sample_append:
  "log_append sample_audit_world (Some 9) sample_audit_entry sample_log = (Inr (), sample_appended)"
  "map fst (lg_archive sample_appended) = [other_segment, old_segment (CHR ''4''), lg_current sample_log]"
proof -
  have "fst (log_append sample_audit_world (Some 9) sample_audit_entry sample_log) = Inr ()" by code_simp
  then show "log_append sample_audit_world (Some 9) sample_audit_entry sample_log = (Inr (), sample_appended)"
    by (simp add: sample_appended_def prod_eq_iff)
  show "map fst (lg_archive sample_appended) = [other_segment, old_segment (CHR ''4''), lg_current sample_log]"
    by code_simp
qed

lemma append_keeps_live_evidence_witness:
  "map_of (lg_archive sample_appended) other_segment = Some [newline_char]"
proof -
  have "live_segment (aw_alive sample_audit_world) other_segment" "other_segment \<noteq> lg_current sample_log"
    "map_of (lg_archive sample_log) other_segment = Some [newline_char]"
    "other_segment \<noteq> segment_path (aw_options sample_audit_world) 9 (lg_sequence sample_log + 1) OpenSegment"
    by code_simp+
  moreover have "timestamp (Some 9) = Inr 9" by code_simp
  ultimately show ?thesis using append_keeps_live_evidence [OF sample_append(1)] by fastforce
qed

lemma append_within_bounds_witness:
  "archive_bytes (lg_archive sample_appended) \<le> 20 \<and> length (lg_archive sample_appended) \<le> 3"
proof -
  have o: "owned_name (lg_current sample_log)" by code_simp
  have m: "ao_max_entry (aw_options sample_audit_world) \<le> ao_max_segment (aw_options sample_audit_world)" by code_simp
  have f: "case Some 9 of None \<Rightarrow> True | Some ms \<Rightarrow> map_of (lg_archive sample_log)
      (segment_path (aw_options sample_audit_world) ms (lg_sequence sample_log + 1) OpenSegment) = None" by code_simp
  from append_within_bounds [OF sample_append(1) o m f] show ?thesis by (simp add: sample_audit_world_def)
qed

lemma retention_removes_oldest_witness:
  "\<exists>r l'. maintain sample_audit_world (Some 9) 2 True sample_log = (r, l') \<and>
     oldest_first (aw_alive sample_audit_world) (lg_current sample_log)
       (filter (\<lambda>f. \<not> is_claim (fst f)) (lg_archive sample_log)) (lg_archive l') \<and>
     map fst (lg_archive l') = [other_segment, old_segment (CHR ''4'')]"
proof -
  obtain r l' where run: "maintain sample_audit_world (Some 9) 2 True sample_log = (r, l')" by fastforce
  have d: "distinct (map fst (lg_archive sample_log))" by code_simp
  have h: "\<forall>m. hexes 12 (aw_draw sample_audit_world m)"
    by (simp add: sample_audit_world_def hexes_def is_hex_def is_digit_def)
  have "map fst (lg_archive (snd (maintain sample_audit_world (Some 9) 2 True sample_log))) =
      [other_segment, old_segment (CHR ''4'')]" by code_simp
  then show ?thesis using run retention_removes_oldest [OF run d h] by auto
qed

lemma appended_entry_is_read_witness:
  "\<exists>es. log_since sample_audit_world (Some 9) 0 sample_appended = (Inr es, sample_appended) \<and>
     sample_audit_entry \<in> set es"
proof (rule appended_entry_is_read [OF sample_append(1)])
  show "owned_name (lg_current sample_log)" by code_simp
  show "whole_lines sample_log" by (simp add: whole_lines_def contents_def sample_log_def)
  show "entry_readable sample_audit_world sample_audit_entry" by code_simp
  show "au_at sample_audit_entry = Some 3" by code_simp
  show "0 \<le> (3 :: int)" by simp
  show "parse_segment_name (lg_current sample_appended) \<noteq> None" by code_simp
  show "ao_max_segments (aw_options sample_audit_world) \<le> 4096" by code_simp
qed

end
