(* ===== verification/Run.thy ===== *)
theory Run
  imports Policy Environment Hook
begin

text \<open>
  \<open>src/application/use-cases/RunSandboxed.ts\<close> with its port \<open>SandboxRunner.ts\<close>: starting a
  command in the sandbox. The runner, the broker, the grant store, the file system and the
  log are parameters whose calls may throw; what the use case does to the outside is the
  trace of its effects, in order. The lemmas show that nothing is started unless the whole
  policy can be enforced, that a forged home cannot bring overrides, that the environment
  is the launcher's, and that the scratch directory is removed on every path.
\<close>

section \<open>Ports\<close>

datatype sandbox_mechanism = Seatbelt | Bubblewrap | AppContainer | NoSandbox

definition mechanism_text :: "sandbox_mechanism \<Rightarrow> string" where
  "mechanism_text m =
     (case m of Seatbelt \<Rightarrow> ''seatbelt'' | Bubblewrap \<Rightarrow> ''bubblewrap''
      | AppContainer \<Rightarrow> ''appcontainer'' | NoSandbox \<Rightarrow> ''none'')"

record sandbox_command =
  sc_executable :: string
  sc_args :: "string list"
  sc_cwd :: abs_path
  sc_env :: "(string \<times> string) list"

record run_result =
  rr_exit_code :: int
  rr_signal :: "string option"

record command_runner =
  sr_mechanism :: sandbox_mechanism
  sr_unenforceable :: "sandbox_policy \<Rightarrow> path_context \<Rightarrow> string list res"
  sr_run :: "sandbox_policy \<Rightarrow> path_context \<Rightarrow> sandbox_command \<Rightarrow> run_result res"

record broker_session =
  bk_proxy_url :: string
  bk_transport :: broker_transport
  bk_close :: "unit res"

record run_world =
  rw_runner :: "command_runner option"
  rw_sha :: sha
  rw_policies :: policy_builder
  rw_grants :: "grant list res"
  rw_home :: abs_path
  rw_identity_home :: abs_path
  rw_cwd :: abs_path
  rw_platform :: platform
  rw_variables :: "(string \<times> string) list"
  rw_toolchains :: "abs_path list"
  rw_real_path :: "abs_path \<Rightarrow> abs_path res"
  rw_temporary :: "abs_path \<Rightarrow> string \<Rightarrow> abs_path res"
  rw_remove :: "abs_path \<Rightarrow> unit res"
  rw_append_ok :: "audit_entry \<Rightarrow> bool"
  rw_now :: "int option"
  rw_broker :: "(network_rule list \<Rightarrow> platform \<Rightarrow> abs_path \<Rightarrow> broker_session res) option"

record run_request =
  rq_executable :: string
  rq_args :: "string list"
  rq_profile :: starter_profile

record run_outcome =
  ru_exit_code :: int
  ru_policy :: sandbox_policy
  ru_mechanism :: string
  ru_warnings :: "string list"

datatype run_event =
    MadeScratch abs_path
  | Warned string
  | BrokerStarted
  | Logged audit_entry
  | Spawned sandbox_policy path_context sandbox_command
  | BrokerClosed
  | RemovedScratch abs_path

section \<open>Context and policy\<close>

definition trusted_temporary_root :: "path_context \<Rightarrow> abs_path res" where
  "trusted_temporary_root ctx =
     (case ctx_platform ctx of
        Darwin \<Rightarrow> of_path ''/private/tmp''
      | Linux \<Rightarrow> of_path ''/tmp''
      | Win32 \<Rightarrow> path_join (ctx_home ctx) [''AppData'', ''Local'', ''Temp''])"

definition assert_caller_home :: "run_world \<Rightarrow> path_context \<Rightarrow> unit res" where
  "assert_caller_home w ctx =
     rbind (rw_real_path w (rw_home w)) (\<lambda>caller.
       if \<not> path_eq caller (ctx_home ctx) \<and> contains (ctx_workspace ctx) caller
       then rbind (path_join caller [''.ssh'']) (\<lambda>_. Inl (UnsafeWorkspace ''caller-home''))
       else Inr ())"

definition resolve_context :: "run_world \<Rightarrow> path_context res" where
  "resolve_context w =
     rbind (rw_real_path w (rw_identity_home w)) (\<lambda>home.
     rbind (rw_real_path w (rw_cwd w)) (\<lambda>workspace.
       let ctx = \<lparr>ctx_home = home, ctx_workspace = workspace, ctx_platform = rw_platform w\<rparr>
       in rbind (assert_caller_home w ctx) (\<lambda>_. Inr ctx)))"

definition relative_state_dirs :: "string \<Rightarrow> string list" where
  "relative_state_dirs name =
     (if name = ''claude'' \<or> name = ''claude-code'' then [''.claude'', ''.config/claude'']
      else if name = ''codex'' then [''.codex'']
      else if name = ''gemini'' then [''.gemini'']
      else if name = ''opencode'' then [''.config/opencode'', ''.local/share/opencode'', ''.cache/opencode'']
      else if name = ''cursor-agent'' then [''.cursor''] else [])"

definition agent_state_dirs :: "abs_path \<Rightarrow> string \<Rightarrow> abs_path list res" where
  "agent_state_dirs home name = traverse (\<lambda>entry. path_join home [entry]) (relative_state_dirs name)"

definition accepted_grants :: "bool \<Rightarrow> grant list \<Rightarrow> grant list" where
  "accepted_grants canonical gs = (if canonical then gs else filter (\<lambda>g. gp_origin (g_props g) \<noteq> Manual) gs)"

definition rejection_text :: "rejected_grant \<Rightarrow> string" where
  "rejection_text r =
     ''Not granted: '' @ rj_resource r @ '' ('' @ access_name (rj_access r) @ '') - '' @ rj_detail r"

text \<open>The body of the \<open>try\<close> of \<open>buildPolicy\<close>: the warnings so far and the result.\<close>

definition policy_body :: "run_world \<Rightarrow> starter_profile \<Rightarrow> path_context \<Rightarrow> abs_path \<Rightarrow> string \<Rightarrow>
    sandbox_policy res \<times> run_event list" where
  "policy_body w profile ctx scratch executable =
     (case rw_real_path w (rw_home w) of
        Inl e \<Rightarrow> (Inl e, [])
      | Inr caller \<Rightarrow>
          (case rw_grants w of
             Inl e \<Rightarrow> (Inl e, [])
           | Inr stored \<Rightarrow>
               let gs = accepted_grants (path_eq caller (ctx_home ctx)) stored;
                   ignored = (if length gs \<noteq> length stored
                              then [Warned ''Ignored hand-written grants from a non-canonical HOME.''] else []);
                   built =
                     rbind (traverse (rw_real_path w) (rw_toolchains w)) (\<lambda>toolchains.
                     rbind (rbind (path_join (ctx_home ctx) [''.agentkeeper'']) (rw_real_path w)) (\<lambda>state.
                     rbind (rbind (agent_state_dirs (ctx_home ctx) (executable_name executable))
                              (traverse (rw_real_path w))) (\<lambda>agents.
                       build_policy (rw_sha w) (rw_policies w)
                         \<lparr>pi_profile = profile, pi_grants = gs, pi_context = ctx,
                          pi_workspace_id = workspace_id_of_path (rw_sha w) (ctx_workspace ctx),
                          pi_toolchain_roots = toolchains, pi_state_dir = state,
                          pi_agent_state_dirs = agents, pi_temp_dirs = [scratch]\<rparr>)))
               in case built of
                    Inl e \<Rightarrow> (Inl e, ignored)
                  | Inr b \<Rightarrow> (Inr (br_policy b), ignored @ map (\<lambda>r. Warned (rejection_text r)) (br_rejected b))))"

text \<open>Its \<open>catch\<close>: an unsafe workspace is rethrown, any other error is a refusal to start.\<close>

definition policy_error :: "error \<Rightarrow> error" where
  "policy_error e = (case e of UnsafeWorkspace i \<Rightarrow> UnsafeWorkspace i | _ \<Rightarrow> PolicyNotBuilt)"

definition policy_for_run :: "run_world \<Rightarrow> starter_profile \<Rightarrow> path_context \<Rightarrow> abs_path \<Rightarrow> string \<Rightarrow>
    sandbox_policy res \<times> run_event list" where
  "policy_for_run w profile ctx scratch executable =
     (case policy_body w profile ctx scratch executable of
        (Inl e, evs) \<Rightarrow> (Inl (policy_error e), evs)
      | (Inr pol, evs) \<Rightarrow> (Inr pol, evs))"

section \<open>The environment of the command\<close>

definition set_all :: "(string \<times> string) list \<Rightarrow> (string \<times> string) list \<Rightarrow> (string \<times> string) list" where
  "set_all news env = fold (\<lambda>(k, v). map_set k v) news env"

definition launcher_variables :: "path_context \<Rightarrow> abs_path \<Rightarrow> (string \<times> string) list" where
  "launcher_variables ctx scratch =
     [(''HOME'', ap_value (ctx_home ctx)), (''PWD'', ap_value (ctx_workspace ctx)),
      (''TMPDIR'', ap_value scratch), (''TMP'', ap_value scratch), (''TEMP'', ap_value scratch)] @
     (if ctx_platform ctx = Win32 then [(''USERPROFILE'', ap_value (ctx_home ctx))] else []) @
     [(''AGENTKEEPER_ACTIVE'', ''1'')]"

definition proxy_variables :: "broker_session option \<Rightarrow> (string \<times> string) list" where
  "proxy_variables session =
     (case session of
        None \<Rightarrow> []
      | Some b \<Rightarrow>
          map (\<lambda>k. (k, bk_proxy_url b))
            [''HTTP_PROXY'', ''HTTPS_PROXY'', ''ALL_PROXY'', ''http_proxy'', ''https_proxy'', ''all_proxy'',
             ''npm_config_proxy'', ''npm_config_https_proxy''] @
          [(''NO_PROXY'', []), (''no_proxy'', []), (''NODE_USE_ENV_PROXY'', ''1''),
           (''AGENTKEEPER_BROKER_ACTIVE'', ''1'')])"

definition command_environment ::
  "(string \<times> string) list \<Rightarrow> path_context \<Rightarrow> abs_path \<Rightarrow> broker_session option \<Rightarrow> (string \<times> string) list" where
  "command_environment sanitized ctx scratch session =
     set_all (launcher_variables ctx scratch @ proxy_variables session) sanitized"

section \<open>Running\<close>

text \<open>The state of a run: the trace and the broker's session.\<close>

record run_state =
  rs_trace :: "run_event list"
  rs_session :: "broker_session option"

type_synonym 'a run = "run_state \<Rightarrow> 'a res \<times> run_state"

definition emit :: "run_event list \<Rightarrow> run_state \<Rightarrow> run_state" where
  "emit evs s = s\<lparr>rs_trace := rs_trace s @ evs\<rparr>"

definition run_log :: "run_world \<Rightarrow> string \<Rightarrow> (string \<times> json) list \<Rightarrow> unit run" where
  "run_log w event details s =
     (let e = \<lparr>au_at = rw_now w, au_event = event, au_details = details\<rparr>
      in if rw_append_ok w e then (Inr (), emit [Logged e] s) else (Inl IoFailure, s))"

definition build_step :: "run_world \<Rightarrow> run_request \<Rightarrow> path_context \<Rightarrow> abs_path \<Rightarrow> sandbox_policy run" where
  "build_step w q ctx scratch s =
     (case policy_for_run w (rq_profile q) ctx scratch (rq_executable q) of (r, evs) \<Rightarrow> (r, emit evs s))"

text \<open>A broker is started exactly when the policy names a destination.\<close>

definition broker_step :: "run_world \<Rightarrow> path_context \<Rightarrow> abs_path \<Rightarrow> sandbox_policy \<Rightarrow> sandbox_policy run" where
  "broker_step w ctx scratch pol s =
     (if length (po_network pol) > 0 then
        (case rw_broker w of
           None \<Rightarrow> (Inl Unenforceable, s)
         | Some start \<Rightarrow>
             (case start (po_network pol) (ctx_platform ctx) scratch of
                Inl _ \<Rightarrow> (Inl Unenforceable, s)
              | Inr session \<Rightarrow>
                  (Inr (with_network_enforcement (rw_sha w) pol (Brokered (bk_transport session))),
                   emit [BrokerStarted] (s\<lparr>rs_session := Some session\<rparr>))))
      else (Inr pol, s))"

definition enforce_step :: "command_runner \<Rightarrow> path_context \<Rightarrow> sandbox_policy \<Rightarrow> unit run" where
  "enforce_step r ctx pol s =
     (case sr_unenforceable r pol ctx of
        Inl e \<Rightarrow> (Inl e, s)
      | Inr gaps \<Rightarrow> if length gaps > 0 then (Inl Unenforceable, s) else (Inr (), s))"

definition start_details ::
  "command_runner \<Rightarrow> run_request \<Rightarrow> path_context \<Rightarrow> sanitization \<Rightarrow> sandbox_policy \<Rightarrow> (string \<times> json) list" where
  "start_details r q ctx sn pol =
     [(''mechanism'', JString (mechanism_text (sr_mechanism r))),
      (''workspace'', JString (ap_value (ctx_workspace ctx))),
      (''executable'', JString (rq_executable q)),
      (''unenforced'', json_int 0),
      (''environmentRemovedCount'', json_int (int (sn_removed_count sn))),
      (''environmentRemovedNames'', JArray (map JString (sn_removed sn))),
      (''networkDestinationCount'', json_int (int (length (po_network pol)))),
      (''networkEnforcement'', JString (case po_enforcement pol of Closed \<Rightarrow> ''closed'' | Unconfigured \<Rightarrow> ''unconfigured''
                                        | Brokered _ \<Rightarrow> ''brokered''))]"

definition spawn_step ::
  "command_runner \<Rightarrow> sandbox_policy \<Rightarrow> path_context \<Rightarrow> sandbox_command \<Rightarrow> run_result run" where
  "spawn_step r pol ctx cmd s = (sr_run r pol ctx cmd, emit [Spawned pol ctx cmd] s)"

definition launch_step ::
  "run_world \<Rightarrow> command_runner \<Rightarrow> run_request \<Rightarrow> path_context \<Rightarrow> abs_path \<Rightarrow> sandbox_policy \<Rightarrow> run_outcome run" where
  "launch_step w r q ctx scratch pol s =
     (case env_for_executable (rq_executable q) of
        Inl e \<Rightarrow> (Inl e, s)
      | Inr ep \<Rightarrow>
          let sn = sanitize (map (\<lambda>(k, v). (k, Some v)) (rw_variables w)) ep;
              env = command_environment (sn_environment sn) ctx scratch (rs_session s);
              cmd = \<lparr>sc_executable = rq_executable q, sc_args = rq_args q, sc_cwd = ctx_workspace ctx, sc_env = env\<rparr>
          in sbind (run_log w ''run.start'' (start_details r q ctx sn pol)) (\<lambda>_.
             sbind (spawn_step r pol ctx cmd) (\<lambda>result.
             sbind (run_log w ''run.finish''
                      [(''exitCode'', json_int (rr_exit_code result)), (''signal'', json_text (rr_signal result))])
               (\<lambda>_ s1. (Inr \<lparr>ru_exit_code = rr_exit_code result, ru_policy = pol,
                             ru_mechanism = mechanism_text (sr_mechanism r), ru_warnings = []\<rparr>, s1)))) s)"

text \<open>The body of the outer \<open>try\<close>, and its two nested \<open>finally\<close> clauses.\<close>

definition run_body ::
  "run_world \<Rightarrow> command_runner \<Rightarrow> run_request \<Rightarrow> path_context \<Rightarrow> abs_path \<Rightarrow> run_outcome run" where
  "run_body w r q ctx scratch =
     sbind (build_step w q ctx scratch) (\<lambda>pol.
     sbind (broker_step w ctx scratch pol) (\<lambda>pol1.
     sbind (enforce_step r ctx pol1) (\<lambda>_.
       launch_step w r q ctx scratch pol1)))"

definition clean_up :: "run_world \<Rightarrow> abs_path \<Rightarrow> 'a res \<Rightarrow> run_state \<Rightarrow> 'a res \<times> run_event list" where
  "clean_up w scratch result s =
     (let (closed, evs) = (case rs_session s of None \<Rightarrow> (Inr (), []) | Some b \<Rightarrow> (bk_close b, [BrokerClosed]));
          removed = rw_remove w scratch;
          r1 = (case closed of Inl e \<Rightarrow> Inl e | Inr _ \<Rightarrow> result);
          r2 = (case removed of Inl e \<Rightarrow> Inl e | Inr _ \<Rightarrow> r1)
      in (r2, rs_trace s @ evs @ [RemovedScratch scratch]))"

definition execute_run :: "run_world \<Rightarrow> run_request \<Rightarrow> run_outcome res \<times> run_event list" where
  "execute_run w q =
     (case resolve_context w of
        Inl e \<Rightarrow> (Inl e, [])
      | Inr ctx \<Rightarrow>
          (case rw_runner w of
             None \<Rightarrow> (Inl Unenforceable, [])
           | Some r \<Rightarrow>
               (case rbind (trusted_temporary_root ctx) (\<lambda>root. rw_temporary w root ''agentkeeper-'') of
                  Inl e \<Rightarrow> (Inl e, [])
                | Inr scratch \<Rightarrow>
                    (case run_body w r q ctx scratch \<lparr>rs_trace = [MadeScratch scratch], rs_session = None\<rparr> of
                       (result, s) \<Rightarrow> clean_up w scratch result s))))"

section \<open>What a run has done\<close>

lemma with_enforcement_same [simp]:
  "po_denies (with_network_enforcement h pol e) = po_denies pol"
  "po_overrides (with_network_enforcement h pol e) = po_overrides pol"
  "po_reads (with_network_enforcement h pol e) = po_reads pol"
  "po_writes (with_network_enforcement h pol e) = po_writes pol"
  "po_network (with_network_enforcement h pol e) = po_network pol"
  "po_enforcement (with_network_enforcement h pol e) = e"
  by (simp_all add: with_network_enforcement_def policy_new_def)

lemma emit_simps [simp]:
  "rs_trace (emit evs s) = rs_trace s @ evs" "rs_session (emit evs s) = rs_session s"
  by (simp_all add: emit_def)

text \<open>What \<open>broker_step\<close> hands on, and the session it leaves.\<close>

definition brokered :: "run_world \<Rightarrow> path_context \<Rightarrow> abs_path \<Rightarrow> sandbox_policy \<Rightarrow> sandbox_policy \<Rightarrow>
    broker_session option \<Rightarrow> bool" where
  "brokered w ctx scratch pol0 pol session =
     (if po_network pol0 = [] then pol = pol0 \<and> session = None
      else \<exists>start b. rw_broker w = Some start \<and> start (po_network pol0) (ctx_platform ctx) scratch = Inr b \<and>
             session = Some b \<and> pol = with_network_enforcement (rw_sha w) pol0 (Brokered (bk_transport b)))"

text \<open>Everything that is true of a command once it has been started.\<close>

definition justified :: "run_world \<Rightarrow> command_runner \<Rightarrow> run_request \<Rightarrow> path_context \<Rightarrow> abs_path \<Rightarrow>
    broker_session option \<Rightarrow> sandbox_policy \<Rightarrow> path_context \<Rightarrow> sandbox_command \<Rightarrow> bool" where
  "justified w r q ctx scratch session pol c cmd =
     (c = ctx \<and> sr_unenforceable r pol ctx = Inr [] \<and>
      (\<exists>pol0 evs ep. policy_for_run w (rq_profile q) ctx scratch (rq_executable q) = (Inr pol0, evs) \<and>
         brokered w ctx scratch pol0 pol session \<and>
         env_for_executable (rq_executable q) = Inr ep \<and>
         cmd = \<lparr>sc_executable = rq_executable q, sc_args = rq_args q, sc_cwd = ctx_workspace ctx,
                sc_env = command_environment
                  (sn_environment (sanitize (map (\<lambda>(k, v). (k, Some v)) (rw_variables w)) ep)) ctx scratch session\<rparr>))"

definition quiet :: "run_event \<Rightarrow> bool" where
  "quiet e = (case e of Warned _ \<Rightarrow> True | Logged _ \<Rightarrow> True | _ \<Rightarrow> False)"

text \<open>The trace of the body: warnings, at most one broker, at most one start, log entries.\<close>

definition body_trace :: "run_world \<Rightarrow> command_runner \<Rightarrow> run_request \<Rightarrow> path_context \<Rightarrow> abs_path \<Rightarrow>
    run_event list \<Rightarrow> broker_session option \<Rightarrow> bool" where
  "body_trace w r q ctx scratch evs session =
     (\<exists>warns broker logs spawn. evs = warns @ broker @ logs @ spawn \<and> list_all quiet warns \<and>
        broker = (if session = None then [] else [BrokerStarted]) \<and> list_all quiet logs \<and>
        (spawn = [] \<or> (\<exists>pol cmd logs'. spawn = Spawned pol ctx cmd # logs' \<and> list_all quiet logs' \<and>
           justified w r q ctx scratch session pol ctx cmd)))"

lemma policy_quiet: "policy_for_run w p ctx scratch ex = (res, evs) \<Longrightarrow> list_all quiet evs"
  by (auto simp: policy_for_run_def policy_body_def Let_def quiet_def list_all_iff
      split: sum.splits prod.splits if_splits)

lemma run_log_cases:
  assumes "run_log w event details s = (res, s')"
  obtains e where "res = Inr ()" "s' = emit [Logged e] s" | "res = Inl IoFailure" "s' = s"
  using assms by (auto simp: run_log_def Let_def split: if_splits)

lemma launch_trace:
  assumes "launch_step w r q ctx scratch pol s = (res, s')"
    and "sr_unenforceable r pol ctx = Inr []" "brokered w ctx scratch pol0 pol (rs_session s)"
    and "policy_for_run w (rq_profile q) ctx scratch (rq_executable q) = (Inr pol0, evs0)"
  shows "rs_session s' = rs_session s \<and> (\<exists>logs spawn. rs_trace s' = rs_trace s @ logs @ spawn \<and> list_all quiet logs \<and>
    (spawn = [] \<or> (\<exists>cmd logs'. spawn = Spawned pol ctx cmd # logs' \<and> list_all quiet logs' \<and>
       justified w r q ctx scratch (rs_session s) pol ctx cmd)))"
proof (cases "env_for_executable (rq_executable q)")
  case (Inl e)
  then show ?thesis using assms(1) by (intro conjI exI [of _ "[]"]) (simp_all add: launch_step_def)
next
  case (Inr ep)
  let ?sn = "sanitize (map (\<lambda>(k, v). (k, Some v)) (rw_variables w)) ep"
  let ?cmd = "\<lparr>sc_executable = rq_executable q, sc_args = rq_args q, sc_cwd = ctx_workspace ctx,
    sc_env = command_environment (sn_environment ?sn) ctx scratch (rs_session s)\<rparr>"
  have just: "justified w r q ctx scratch (rs_session s) pol ctx ?cmd"
    unfolding justified_def using assms(2-4) Inr by blast
  obtain r1 s1 where 1: "run_log w ''run.start'' (start_details r q ctx ?sn pol) s = (r1, s1)" by fastforce
  show ?thesis
  proof (rule run_log_cases [OF 1])
    assume "r1 = Inl IoFailure" "s1 = s"
    then show ?thesis using assms(1) Inr 1
      by (intro conjI exI [of _ "[]"]) (simp_all add: launch_step_def Let_def sbind_def)
  next
    fix e assume e: "r1 = Inr ()" "s1 = emit [Logged e] s"
    let ?s2 = "emit [Spawned pol ctx ?cmd] s1"
    show ?thesis
    proof (cases "sr_run r pol ctx ?cmd")
      case (Inl err)
      then have "s' = ?s2" using assms(1) Inr 1 e by (simp add: launch_step_def Let_def sbind_def spawn_step_def)
      then show ?thesis using e just
        by (intro conjI exI [of _ "[Logged e]"] exI [of _ "[Spawned pol ctx ?cmd]"]) (simp_all add: quiet_def)
    next
      case run: (Inr result)
      obtain r3 s3 where 3: "run_log w ''run.finish'' [(''exitCode'', json_int (rr_exit_code result)),
          (''signal'', json_text (rr_signal result))] ?s2 = (r3, s3)" by fastforce
      have s': "s' = s3"
        using assms(1) Inr 1 e run 3 by (auto simp: launch_step_def Let_def sbind_def spawn_step_def split: sum.splits)
      show ?thesis
      proof (rule run_log_cases [OF 3])
        fix e' assume "s3 = emit [Logged e'] ?s2"
        then show ?thesis using e s' just
          by (intro conjI exI [of _ "[Logged e]"] exI [of _ "[Spawned pol ctx ?cmd, Logged e']"]) (simp_all add: quiet_def)
      next
        assume "s3 = ?s2"
        then show ?thesis using e s' just
          by (intro conjI exI [of _ "[Logged e]"] exI [of _ "[Spawned pol ctx ?cmd]"]) (simp_all add: quiet_def)
      qed
    qed
  qed
qed

lemma run_body_trace:
  assumes "run_body w r q ctx scratch s = (res, s')" "rs_session s = None"
  shows "\<exists>evs. rs_trace s' = rs_trace s @ evs \<and> body_trace w r q ctx scratch evs (rs_session s')"
proof -
  obtain r0 evs0 where p: "policy_for_run w (rq_profile q) ctx scratch (rq_executable q) = (r0, evs0)" by fastforce
  note quiet0 = policy_quiet [OF p]
  have b: "build_step w q ctx scratch s = (r0, emit evs0 s)" by (simp add: build_step_def p)
  have stop: "\<exists>evs. rs_trace t = rs_trace s @ evs \<and> body_trace w r q ctx scratch evs (rs_session t)"
    if "rs_trace t = rs_trace s @ evs0 @ (if rs_session t = None then [] else [BrokerStarted])" for t
  proof -
    let ?broker = "if rs_session t = None then [] else [BrokerStarted]"
    have "body_trace w r q ctx scratch (evs0 @ ?broker) (rs_session t)"
      unfolding body_trace_def
      by (rule exI [of _ evs0], rule exI [of _ ?broker], rule exI [of _ "[]"], rule exI [of _ "[]"])
         (simp add: quiet0)
    then show ?thesis using that by blast
  qed
  show ?thesis
  proof (cases r0)
    case (Inl e)
    then have "s' = emit evs0 s" using assms(1) b by (simp add: run_body_def sbind_def)
    then show ?thesis using stop [of s'] assms(2) by simp
  next
    case pol0: (Inr pol0)
    obtain r1 s1 where 1: "broker_step w ctx scratch pol0 (emit evs0 s) = (r1, s1)" by fastforce
    show ?thesis
    proof (cases r1)
      case (Inl e)
      then have "s' = s1" "s1 = emit evs0 s"
        using assms(1) b pol0 1 by (auto simp: run_body_def sbind_def broker_step_def split: option.splits sum.splits if_splits)
      then show ?thesis using stop [of s'] assms(2) by simp
    next
      case (Inr pol)
      have br: "brokered w ctx scratch pol0 pol (rs_session s1)"
        "rs_trace s1 = rs_trace s @ evs0 @ (if rs_session s1 = None then [] else [BrokerStarted])"
        using 1 Inr assms(2)
        by (auto simp: broker_step_def brokered_def split: option.splits sum.splits if_splits)
      show ?thesis
      proof (cases "sr_unenforceable r pol ctx = Inr []")
        case False
        then have "s' = s1" using assms(1) b pol0 1 Inr
          by (auto simp: run_body_def sbind_def enforce_step_def split: sum.splits if_splits)
        then show ?thesis using stop [of s'] br(2) by simp
      next
        case True
        then have run: "launch_step w r q ctx scratch pol s1 = (res, s')"
          using assms(1) b pol0 1 Inr by (simp add: run_body_def sbind_def enforce_step_def)
        from launch_trace [OF run True br(1)] p pol0 obtain logs spawn where l: "rs_session s' = rs_session s1"
          "rs_trace s' = rs_trace s1 @ logs @ spawn" "list_all quiet logs"
          "spawn = [] \<or> (\<exists>cmd logs'. spawn = Spawned pol ctx cmd # logs' \<and> list_all quiet logs' \<and>
             justified w r q ctx scratch (rs_session s1) pol ctx cmd)" by blast
        have "body_trace w r q ctx scratch
            (evs0 @ (if rs_session s1 = None then [] else [BrokerStarted]) @ logs @ spawn) (rs_session s')"
          unfolding body_trace_def l(1)
        proof (rule exI [of _ evs0], rule exI [of _ "if rs_session s1 = None then [] else [BrokerStarted]"],
            rule exI [of _ logs], rule exI [of _ spawn], intro conjI)
          show "spawn = [] \<or> (\<exists>pol cmd logs'. spawn = Spawned pol ctx cmd # logs' \<and> list_all quiet logs' \<and>
             justified w r q ctx scratch (rs_session s1) pol ctx cmd)" using l(4) by blast
        qed (simp_all add: quiet0 l(3))
        then show ?thesis using l(2) br(2) by (intro exI conjI) simp_all
      qed
    qed
  qed
qed

lemma execute_run_cases:
  assumes "execute_run w q = (res, evs)"
  obtains (nothing) "evs = []"
  | (ran) ctx r scratch mid session where "resolve_context w = Inr ctx" "rw_runner w = Some r"
      "rbind (trusted_temporary_root ctx) (\<lambda>root. rw_temporary w root ''agentkeeper-'') = Inr scratch"
      "body_trace w r q ctx scratch mid session"
      "evs = MadeScratch scratch # mid @ (if session = None then [] else [BrokerClosed]) @ [RemovedScratch scratch]"
proof (cases "resolve_context w")
  case (Inl e)
  then have "evs = []" using assms by (simp add: execute_run_def)
  then show ?thesis by (rule nothing)
next
  case ctx: (Inr ctx)
  show ?thesis
  proof (cases "rw_runner w")
    case None
    then have "evs = []" using assms ctx by (simp add: execute_run_def)
    then show ?thesis by (rule nothing)
  next
    case r: (Some r)
    show ?thesis
    proof (cases "rbind (trusted_temporary_root ctx) (\<lambda>root. rw_temporary w root ''agentkeeper-'')")
      case (Inl e)
      then have "evs = []" using assms ctx r by (simp add: execute_run_def)
      then show ?thesis by (rule nothing)
    next
      case scratch: (Inr scratch)
      obtain result s where body: "run_body w r q ctx scratch \<lparr>rs_trace = [MadeScratch scratch], rs_session = None\<rparr> = (result, s)"
        by fastforce
      obtain mid where mid: "rs_trace s = [MadeScratch scratch] @ mid" "body_trace w r q ctx scratch mid (rs_session s)"
        using run_body_trace [OF body] by auto
      have "evs = rs_trace s @ (if rs_session s = None then [] else [BrokerClosed]) @ [RemovedScratch scratch]"
        using assms ctx r scratch body
        by (auto simp: execute_run_def clean_up_def Let_def split: prod.splits option.splits)
      then show ?thesis using ran [OF ctx r scratch mid(2)] mid(1) by simp
    qed
  qed
qed

lemma quiet_no_spawn: "list_all quiet evs \<Longrightarrow>
    Spawned pol c cmd \<notin> set evs \<and> BrokerStarted \<notin> set evs \<and> BrokerClosed \<notin> set evs"
  by (induction evs) (auto simp: quiet_def split: run_event.splits)

lemma spawned_in_body:
  assumes "body_trace w r q ctx scratch mid session" "Spawned pol c cmd \<in> set mid"
  shows "justified w r q ctx scratch session pol c cmd" "session \<noteq> None \<Longrightarrow> BrokerStarted \<in> set mid"
proof -
  obtain warns logs spawn where t: "mid = warns @ (if session = None then [] else [BrokerStarted]) @ logs @ spawn"
    "list_all quiet warns" "list_all quiet logs"
    "spawn = [] \<or> (\<exists>pol cmd logs'. spawn = Spawned pol ctx cmd # logs' \<and> list_all quiet logs' \<and>
           justified w r q ctx scratch session pol ctx cmd)"
    using assms(1) unfolding body_trace_def by blast
  have "Spawned pol c cmd \<in> set spawn"
    using assms(2) quiet_no_spawn [OF t(2)] quiet_no_spawn [OF t(3)] by (auto simp: t(1) split: if_splits)
  then obtain pol' cmd' logs' where s: "spawn = Spawned pol' ctx cmd' # logs'" "list_all quiet logs'"
    "justified w r q ctx scratch session pol' ctx cmd'" using t(4) by auto
  then have "pol' = pol \<and> ctx = c \<and> cmd' = cmd"
    using \<open>Spawned pol c cmd \<in> set spawn\<close> quiet_no_spawn [OF s(2)] by auto
  then show "justified w r q ctx scratch session pol c cmd" using s(3) by simp
  show "session \<noteq> None \<Longrightarrow> BrokerStarted \<in> set mid" unfolding t(1) by (simp only: if_False set_append) simp
qed

lemma spawned_justified:
  assumes "execute_run w q = (res, evs)" "Spawned pol c cmd \<in> set evs"
  obtains r ctx scratch session where "rw_runner w = Some r" "resolve_context w = Inr ctx"
    and "MadeScratch scratch \<in> set evs" "justified w r q ctx scratch session pol c cmd"
    and "session \<noteq> None \<longrightarrow> BrokerStarted \<in> set evs"
  using assms(1)
proof (cases rule: execute_run_cases)
  case nothing
  then show ?thesis using assms(2) by simp
next
  case (ran ctx r scratch mid session)
  have m: "Spawned pol c cmd \<in> set mid" using assms(2) ran(5) by (auto split: if_splits)
  have "session \<noteq> None \<longrightarrow> BrokerStarted \<in> set evs" using spawned_in_body(2) [OF ran(4) m] ran(5) by auto
  moreover have "MadeScratch scratch \<in> set evs" using ran(5) by simp
  ultimately show ?thesis using that [OF ran(2,1) _ spawned_in_body(1) [OF ran(4) m]] by blast
qed

lemma policy_for_run_built:
  assumes "policy_for_run w profile ctx scratch executable = (Inr pol, evs)"
  obtains caller stored inp b where "rw_real_path w (rw_home w) = Inr caller" "rw_grants w = Inr stored"
    and "build_policy (rw_sha w) (rw_policies w) inp = Inr b" "br_policy b = pol" "pi_context inp = ctx"
    and "pi_grants inp = accepted_grants (path_eq caller (ctx_home ctx)) stored" "pi_temp_dirs inp = [scratch]"
    and "pi_workspace_id inp = workspace_id_of_path (rw_sha w) (ctx_workspace ctx)"
proof -
  obtain e where "policy_body w profile ctx scratch executable = (Inr pol, evs)"
    using assms by (auto simp: policy_for_run_def split: prod.splits sum.splits)
  then obtain caller stored toolchains state agents b where
    c: "rw_real_path w (rw_home w) = Inr caller" and g: "rw_grants w = Inr stored" and
    b: "build_policy (rw_sha w) (rw_policies w)
      \<lparr>pi_profile = profile, pi_grants = accepted_grants (path_eq caller (ctx_home ctx)) stored, pi_context = ctx,
       pi_workspace_id = workspace_id_of_path (rw_sha w) (ctx_workspace ctx), pi_toolchain_roots = toolchains,
       pi_state_dir = state, pi_agent_state_dirs = agents, pi_temp_dirs = [scratch]\<rparr> = Inr b" "br_policy b = pol"
    by (auto simp: policy_body_def Let_def split: sum.splits)
  from that [OF c g b] show ?thesis by simp
qed

lemma brokered_same:
  assumes "brokered w ctx scratch pol0 pol session"
  shows "policy_allows pol a p c = policy_allows pol0 a p c" "po_overrides pol = po_overrides pol0"
    and "po_network pol = po_network pol0"
    and "po_network pol = [] \<or> (\<exists>b. session = Some b \<and> po_enforcement pol = Brokered (bk_transport b))"
  using assms
  by (auto simp: brokered_def policy_allows_def is_overridden_def is_denied_def allows_ref_def split: if_splits)

lemma canonical_overrides:
  assumes "build_policy h pb inp = Inr b" "pi_grants inp = accepted_grants canonical stored"
    and "ov \<in> set (po_overrides (br_policy b))"
  shows "canonical \<and> (\<exists>g \<in> set stored. gp_origin (g_props g) = Manual \<and> grant_applies_to g (pi_workspace_id inp) \<and>
    gp_resource (g_props g) = ov_ref ov \<and> gp_access (g_props g) = ov_access ov)"
  using built_overrides [OF assms(1,3)]
  by (auto simp: override_origin_def assms(2) accepted_grants_def split: if_splits)

section \<open>Properties\<close>

text \<open>C2: no command starts unconfined. Whenever a run has started its command, a backend was
  selected and reports nothing of the policy it cannot enforce; network destinations are
  reached through a started broker or not at all; and the policy opens a tier 2 location only
  where the caller's home is the canonical one and a stored grant typed by hand covers it.\<close>

theorem started_command_is_confined:
  assumes "execute_run w q = (res, evs)" "Spawned pol c cmd \<in> set evs"
  shows "(\<exists>r. rw_runner w = Some r \<and> sr_unenforceable r pol c = Inr []) \<and>
    (po_network pol = [] \<or> (\<exists>t. po_enforcement pol = Brokered t) \<and> BrokerStarted \<in> set evs) \<and>
    (\<forall>a p. policy_allows pol a p c \<and> tier_of (pb_registry (rw_policies w)) p a c = Dangerous \<longrightarrow>
       (\<exists>caller stored. rw_real_path w (rw_home w) = Inr caller \<and> path_eq caller (ctx_home c) \<and>
          rw_grants w = Inr stored \<and>
          (\<exists>g \<in> set stored. gp_origin (g_props g) = Manual \<and> gp_access (g_props g) = a \<and>
             ref_covers (gp_resource (g_props g)) p)))"
proof -
  obtain r ctx scratch session where r: "rw_runner w = Some r" "justified w r q ctx scratch session pol c cmd"
    "session \<noteq> None \<longrightarrow> BrokerStarted \<in> set evs" by (rule spawned_justified [OF assms])
  obtain pol0 evs0 where c: "c = ctx" "sr_unenforceable r pol ctx = Inr []"
    and p: "policy_for_run w (rq_profile q) ctx scratch (rq_executable q) = (Inr pol0, evs0)"
    and b: "brokered w ctx scratch pol0 pol session" using r(2) unfolding justified_def by blast
  obtain caller stored inp built where w: "rw_real_path w (rw_home w) = Inr caller" "rw_grants w = Inr stored"
    and built: "build_policy (rw_sha w) (rw_policies w) inp = Inr built" "br_policy built = pol0" "pi_context inp = ctx"
    and gs: "pi_grants inp = accepted_grants (path_eq caller (ctx_home ctx)) stored"
    by (rule policy_for_run_built [OF p])
  have net: "po_network pol = [] \<or> (\<exists>t. po_enforcement pol = Brokered t) \<and> BrokerStarted \<in> set evs"
    using brokered_same(4) [OF b] r(3) by auto
  have tier2: "path_eq caller (ctx_home c) \<and> (\<exists>g \<in> set stored. gp_origin (g_props g) = Manual \<and>
      gp_access (g_props g) = a \<and> ref_covers (gp_resource (g_props g)) p)"
    if "policy_allows pol a p c" "tier_of (pb_registry (rw_policies w)) p a c = Dangerous" for a p
  proof -
    have "policy_allows pol0 a p ctx" "is_denied pol0 a p ctx"
      using that built_denied [OF built(1), of a p] built(2,3) brokered_same(1) [OF b] c(1) by simp_all
    then have "is_overridden pol0 a p" by (simp add: policy_allows_def split: if_splits)
    then obtain ov where ov: "ov \<in> set (po_overrides pol0)" "ov_access ov = a" "ref_covers (ov_ref ov) p"
      by (auto simp: is_overridden_def list_ex_iff)
    from canonical_overrides [OF built(1) gs, of ov] ov built(2) c(1) show ?thesis by auto
  qed
  show ?thesis using r(1) c net tier2 w by blast
qed

definition start_runner :: command_runner where
  "start_runner = \<lparr>sr_mechanism = Bubblewrap, sr_unenforceable = (\<lambda>_ _. Inr []),
     sr_run = (\<lambda>_ _ _. Inr \<lparr>rr_exit_code = 0, rr_signal = None\<rparr>)\<rparr>"

definition start_session :: broker_session where
  "start_session = \<lparr>bk_proxy_url = ''http://127.0.0.1:4000'', bk_transport = TcpLoopback 4000, bk_close = Inr ()\<rparr>"

definition start_world :: run_world where
  "start_world =
     \<lparr>rw_runner = Some start_runner, rw_sha = zero_sha, rw_policies = sample_builder,
      rw_grants = Inr (pi_grants sample_input), rw_home = ctx_home sample_ctx, rw_identity_home = ctx_home sample_ctx,
      rw_cwd = ctx_workspace sample_ctx, rw_platform = ctx_platform sample_ctx,
      rw_variables = [(''PATH'', ''/bin''), (''HOME'', ''/evil''), (''AWS_SECRET_ACCESS_KEY'', ''x'')],
      rw_toolchains = [], rw_real_path = Inr, rw_temporary = (\<lambda>root prefix. path_join root [prefix @ ''1'']),
      rw_remove = (\<lambda>_. Inr ()), rw_append_ok = (\<lambda>_. True), rw_now = Some 0,
      rw_broker = Some (\<lambda>_ _ _. Inr start_session)\<rparr>"

definition start_request :: run_request where
  "start_request = \<lparr>rq_executable = ''node'', rq_args = [''index.js''], rq_profile = pi_profile sample_input\<rparr>"

definition is_start :: "run_event \<Rightarrow> bool" where
  "is_start e = (case e of Spawned _ _ _ \<Rightarrow> True | _ \<Rightarrow> False)"

lemma sample_starts: "\<exists>pol c cmd. Spawned pol c cmd \<in> set (snd (execute_run start_world start_request))"
proof -
  have "list_ex is_start (snd (execute_run start_world start_request))" by code_simp
  then obtain e where "e \<in> set (snd (execute_run start_world start_request))" "is_start e"
    unfolding list_ex_iff by blast
  moreover from this(2) obtain pol c cmd where "e = Spawned pol c cmd" by (cases e) (simp_all add: is_start_def)
  ultimately show ?thesis by blast
qed

lemma quiet_no_start: "list_all quiet evs \<Longrightarrow> filter is_start evs = []"
  by (induction evs) (auto simp: quiet_def is_start_def split: run_event.splits)

lemma started_command_is_confined_witness:
  "\<exists>pol c cmd. Spawned pol c cmd \<in> set (snd (execute_run start_world start_request)) \<and>
     sr_unenforceable start_runner pol c = Inr []"
proof -
  obtain pol c cmd where s: "Spawned pol c cmd \<in> set (snd (execute_run start_world start_request))"
    using sample_starts by blast
  from started_command_is_confined [OF prod.collapse [symmetric] s] s show ?thesis
    by (auto simp: start_world_def)
qed

text \<open>C26: whatever fails, a run that made its scratch directory ends by removing it, after
  closing the broker exactly when one was started, and starts at most one command; a run
  that made none has done nothing.\<close>

theorem run_cleans_up:
  assumes "execute_run w q = (res, evs)"
  shows "evs = [] \<or>
    (\<exists>scratch mid. evs = MadeScratch scratch # mid @ (if BrokerStarted \<in> set mid then [BrokerClosed] else []) @
         [RemovedScratch scratch] \<and>
       BrokerClosed \<notin> set mid \<and> length (filter is_start evs) \<le> 1)"
  using assms
proof (cases rule: execute_run_cases)
  case (ran ctx r scratch mid session)
  obtain warns logs spawn where t: "mid = warns @ (if session = None then [] else [BrokerStarted]) @ logs @ spawn"
    "list_all quiet warns" "list_all quiet logs"
    "spawn = [] \<or> (\<exists>pol cmd logs'. spawn = Spawned pol ctx cmd # logs' \<and> list_all quiet logs' \<and>
           justified w r q ctx scratch session pol ctx cmd)"
    using ran(4) unfolding body_trace_def by blast
  have s: "BrokerStarted \<notin> set spawn \<and> BrokerClosed \<notin> set spawn \<and> length (filter is_start spawn) \<le> 1"
    using t(4) quiet_no_spawn quiet_no_start by (auto simp: is_start_def)
  then have "(BrokerStarted \<in> set mid \<longleftrightarrow> session \<noteq> None) \<and> BrokerClosed \<notin> set mid"
    using quiet_no_spawn [OF t(2)] quiet_no_spawn [OF t(3)] by (simp add: t(1))
  moreover have "length (filter is_start evs) \<le> 1"
    using s quiet_no_start [OF t(2)] quiet_no_start [OF t(3)] by (simp add: ran(5) t(1) is_start_def)
  ultimately show ?thesis using ran(5) by auto
qed simp

lemma run_cleans_up_witness:
  "RemovedScratch (mk_posix [''tmp'', ''agentkeeper-1'']) \<in> set (snd (execute_run start_world start_request))"
proof -
  let ?evs = "snd (execute_run start_world start_request)"
  have m: "?evs \<noteq> []" "hd ?evs = MadeScratch (mk_posix [''tmp'', ''agentkeeper-1''])" by code_simp+
  from run_cleans_up [OF prod.collapse [symmetric], of start_world start_request] m show ?thesis by force
qed

lemma map_of_set_all: "map_of (set_all news env) k = (case map_of (rev news) k of Some v \<Rightarrow> Some v | None \<Rightarrow> map_of env k)"
  unfolding set_all_def
  by (induction news arbitrary: env) (auto simp: map_of_map_set map_add_def split: option.splits)

definition launcher_names :: "string list" where
  "launcher_names =
     [''HOME'', ''PWD'', ''TMPDIR'', ''TMP'', ''TEMP'', ''USERPROFILE'', ''AGENTKEEPER_ACTIVE'',
      ''HTTP_PROXY'', ''HTTPS_PROXY'', ''ALL_PROXY'', ''http_proxy'', ''https_proxy'', ''all_proxy'',
      ''npm_config_proxy'', ''npm_config_https_proxy'', ''NO_PROXY'', ''no_proxy'', ''NODE_USE_ENV_PROXY'',
      ''AGENTKEEPER_BROKER_ACTIVE'']"

lemma launcher_names_cover:
  "fst ` set (launcher_variables ctx scratch @ proxy_variables session) \<subseteq> set launcher_names"
  by (auto simp: launcher_variables_def proxy_variables_def launcher_names_def split: option.splits if_splits)

lemma launcher_lookup:
  "map_of (command_environment env ctx scratch session) ''HOME'' = Some (ap_value (ctx_home ctx))"
  "map_of (command_environment env ctx scratch session) ''PWD'' = Some (ap_value (ctx_workspace ctx))"
  "map_of (command_environment env ctx scratch session) ''TMPDIR'' = Some (ap_value scratch)"
  "map_of (command_environment env ctx scratch session) ''TMP'' = Some (ap_value scratch)"
  "map_of (command_environment env ctx scratch session) ''TEMP'' = Some (ap_value scratch)"
  "map_of (command_environment env ctx scratch session) ''AGENTKEEPER_ACTIVE'' = Some ''1''"
  by (simp_all add: command_environment_def map_of_set_all launcher_variables_def proxy_variables_def split: option.split)

lemma inherited_lookup:
  assumes "map_of (command_environment (sn_environment (sanitize (map (\<lambda>(k, v). (k, Some v)) vars) ep)) ctx scratch session) k = Some v"
    and "k \<notin> set launcher_names"
  shows "env_allows ep k \<and> map_of vars k = Some v"
proof -
  let ?news = "launcher_variables ctx scratch @ proxy_variables session"
  let ?src = "map (\<lambda>(k, v). (k, Some v)) vars"
  have "k \<notin> fst ` set (rev ?news)" using assms(2) launcher_names_cover [of ctx scratch session] unfolding set_rev by blast
  then have "map_of (rev ?news) k = None" by (simp only: map_of_eq_None_iff) simp
  then have "map_of (sn_environment (sanitize ?src ep)) k = Some v"
    using assms(1) by (simp add: command_environment_def map_of_set_all map_add_def)
  then have "kept ?src ep k \<and> v = the (the (map_of ?src k))"
    unfolding sanitize_eq by (auto dest!: map_of_SomeD)
  then show ?thesis by (auto simp: kept_def map_of_map)
qed

text \<open>The started command has the launcher's home, working directory, scratch directories and
  marker, whatever the caller set; every other variable it inherits is one of the caller's
  with the caller's value that the executable is entitled to, so none of the caller's
  \<open>AGENTKEEPER_\<close> variables reaches it.\<close>

theorem launcher_owns_environment:
  assumes "execute_run w q = (res, evs)" "Spawned pol c cmd \<in> set evs"
  shows "map_of (sc_env cmd) ''HOME'' = Some (ap_value (ctx_home c)) \<and>
    map_of (sc_env cmd) ''PWD'' = Some (ap_value (ctx_workspace c)) \<and>
    (\<exists>scratch. MadeScratch scratch \<in> set evs \<and>
       (\<forall>k \<in> {''TMPDIR'', ''TMP'', ''TEMP''}. map_of (sc_env cmd) k = Some (ap_value scratch))) \<and>
    map_of (sc_env cmd) ''AGENTKEEPER_ACTIVE'' = Some ''1'' \<and>
    (\<exists>ep. env_for_executable (rq_executable q) = Inr ep \<and>
       (\<forall>k v. map_of (sc_env cmd) k = Some v \<and> k \<notin> set launcher_names \<longrightarrow>
          env_allows ep k \<and> map_of (rw_variables w) k = Some v \<and> \<not> starts_with (to_upper k) ''AGENTKEEPER_''))"
proof -
  obtain r ctx scratch session where r: "MadeScratch scratch \<in> set evs" "justified w r q ctx scratch session pol c cmd"
    by (rule spawned_justified [OF assms])
  then obtain ep where ep: "env_for_executable (rq_executable q) = Inr ep" "c = ctx"
    and env: "sc_env cmd = command_environment
      (sn_environment (sanitize (map (\<lambda>(k, v). (k, Some v)) (rw_variables w)) ep)) ctx scratch session"
    unfolding justified_def by auto
  have "env_allows ep k \<and> map_of (rw_variables w) k = Some v \<and> \<not> starts_with (to_upper k) ''AGENTKEEPER_''"
    if "map_of (sc_env cmd) k = Some v" "k \<notin> set launcher_names" for k v
    using inherited_lookup [OF that(1) [unfolded env] that(2)] by (auto simp: env_allows_def Let_def)
  with r(1) ep show ?thesis by (auto simp: env launcher_lookup)
qed

lemma launcher_owns_environment_witness:
  "\<exists>pol c cmd. Spawned pol c cmd \<in> set (snd (execute_run start_world start_request)) \<and>
     map_of (sc_env cmd) ''HOME'' = Some (ap_value (ctx_home c)) \<and>
     map_of (sc_env cmd) ''AWS_SECRET_ACCESS_KEY'' = None"
proof -
  obtain pol c cmd where s: "Spawned pol c cmd \<in> set (snd (execute_run start_world start_request))"
    using sample_starts by blast
  have n: "''AWS_SECRET_ACCESS_KEY'' \<notin> set launcher_names" by (simp add: launcher_names_def)
  have a: "\<not> env_allows (env_policy_new []) ''AWS_SECRET_ACCESS_KEY''"
    and e: "env_for_executable (rq_executable start_request) = Inr (env_policy_new [])" by code_simp+
  note o = launcher_owns_environment [OF prod.collapse [symmetric] s]
  have "map_of (sc_env cmd) ''AWS_SECRET_ACCESS_KEY'' = None"
  proof (rule ccontr)
    assume "map_of (sc_env cmd) ''AWS_SECRET_ACCESS_KEY'' \<noteq> None"
    then obtain v where "map_of (sc_env cmd) ''AWS_SECRET_ACCESS_KEY'' = Some v" by blast
    with o n a e show False by auto
  qed
  with o s show ?thesis by blast
qed

end
