(* ===== verification/Bwrap.thy ===== *)
theory Bwrap
  imports Run
begin

text \<open>
  \<open>src/infrastructure/sandbox/BubblewrapArgumentBuilder.ts\<close>, \<open>BubblewrapRunner.ts\<close>,
  \<open>NoopRunner.ts\<close> and \<open>SandboxRunnerFactory.ts\<close>: how a policy becomes the mount table of a
  Linux namespace. The arguments are the flags, the mounts in order, and the command; what a
  path shows inside follows from the last mount at or above it, which is how \<open>bwrap\<close> treats
  its arguments. The lemmas show that what is visible of the host is what the policy allows,
  up to the refusals without an anchor, and that file grants are the exception.
\<close>

section \<open>Mounts\<close>

definition system_roots :: "string list" where
  "system_roots = [''/usr'', ''/bin'', ''/sbin'', ''/lib'', ''/lib64'', ''/etc'', ''/opt'', ''/nix'', ''/var/lib'']"

definition bwrap_flags :: "string list" where
  "bwrap_flags =
     [''--die-with-parent'', ''--unshare-user'', ''--unshare-net'', ''--unshare-pid'', ''--unshare-uts'',
      ''--unshare-ipc'', ''--unshare-cgroup-try'', ''--new-session'', ''--proc'', ''/proc'', ''--dev'', ''/dev'']"

datatype mount = RoBindTry string | BindTry string | Tmpfs string

definition mount_args :: "mount \<Rightarrow> string list" where
  "mount_args m =
     (case m of
        RoBindTry t \<Rightarrow> [''--ro-bind-try'', t, t]
      | BindTry t \<Rightarrow> [''--bind-try'', t, t]
      | Tmpfs t \<Rightarrow> [''--tmpfs'', t])"

definition is_covered_by_system :: "abs_path \<Rightarrow> bool" where
  "is_covered_by_system p =
     list_ex (\<lambda>root. ap_value p = root \<or> starts_with (ap_value p) (root @ ''/'')) system_roots"

definition is_read_only_file :: "sandbox_policy \<Rightarrow> abs_path \<Rightarrow> bool" where
  "is_read_only_file pol anchor =
     (list_ex (\<lambda>r. rr_scope r = SingleFile \<and> path_eq (rr_path r) anchor) (po_reads pol) \<and>
      \<not> list_ex (\<lambda>r. ref_covers r anchor) (po_writes pol))"

text \<open>One refusal: its anchor is hidden behind an empty file system, unless it may stay.\<close>

definition shadow :: "sandbox_policy \<Rightarrow> path_context \<Rightarrow> deny_rule \<Rightarrow> mount list res" where
  "shadow pol ctx d =
     rmap (\<lambda>anchor.
       case anchor of
         None \<Rightarrow> []
       | Some a \<Rightarrow>
           if (case dn_except d of None \<Rightarrow> False | Some w \<Rightarrow> contains w a) then []
           else if list_ex (\<lambda>ov. ref_covers (ov_ref ov) a) (po_overrides pol) then []
           else if dn_access d = Write \<and> is_read_only_file pol a then []
           else [Tmpfs (ap_value a)])
       (literal_prefix (dn_pattern d) (ctx_home ctx))"

definition read_mounts :: "sandbox_policy \<Rightarrow> mount list" where
  "read_mounts pol =
     map (\<lambda>r. RoBindTry (ap_value (rr_path r))) (filter (\<lambda>r. \<not> is_covered_by_system (rr_path r)) (po_reads pol))"

definition override_mount :: "policy_override \<Rightarrow> mount" where
  "override_mount ov =
     (let t = ap_value (rr_path (ov_ref ov)) in if ov_access ov = Read then RoBindTry t else BindTry t)"

definition bwrap_mounts :: "sandbox_policy \<Rightarrow> path_context \<Rightarrow> mount list res" where
  "bwrap_mounts pol ctx =
     rmap (\<lambda>shadows.
       map RoBindTry system_roots @ [Tmpfs (ap_value (ctx_home ctx))] @ read_mounts pol @
       map (\<lambda>r. BindTry (ap_value (rr_path r))) (po_writes pol) @ concat shadows @
       map override_mount (po_overrides pol))
     (traverse (shadow pol ctx) (po_denies pol))"

definition bwrap_build :: "sandbox_policy \<Rightarrow> path_context \<Rightarrow> sandbox_command \<Rightarrow> string list res" where
  "bwrap_build pol ctx cmd =
     rmap (\<lambda>mounts.
       bwrap_flags @ concat (map mount_args mounts) @
       [''--chdir'', ap_value (sc_cwd cmd), ''--'', sc_executable cmd] @ sc_args cmd)
     (bwrap_mounts pol ctx)"

section \<open>The runner\<close>

definition join_rules :: "network_rule list \<Rightarrow> string" where
  "join_rules rules = join '', '' (map rule_to_string rules)"

text \<open>The loop over the refusals: a refusal without an anchor is a gap, unless it holds
  outside the workspace only and every grant names a file or lies in the workspace.\<close>

definition deny_gap :: "sandbox_policy \<Rightarrow> path_context \<Rightarrow> deny_rule \<Rightarrow> string list res" where
  "deny_gap pol ctx d =
     rmap (\<lambda>anchor.
       if anchor \<noteq> None then []
       else if dn_except d \<noteq> None \<and>
               list_all (\<lambda>r. rr_scope r = SingleFile \<or> contains (ctx_workspace ctx) (rr_path r)) (po_runtime_refs pol)
            then []
       else [dn_source d @ '': \"'' @ pp_raw (dn_pattern d) @ ''\" has no fixed anchor, and a mount '' @
             ''namespace cannot express a wildcard refusal. Layer 2 still blocks it.''])
     (literal_prefix (dn_pattern d) (ctx_home ctx))"

definition unix_relayed :: "network_enforcement \<Rightarrow> bool" where
  "unix_relayed e = (case e of Brokered (UnixSocketRelay _ _ _) \<Rightarrow> True | _ \<Rightarrow> False)"

definition bwrap_unenforceable :: "sandbox_policy \<Rightarrow> path_context \<Rightarrow> string list res" where
  "bwrap_unenforceable pol ctx =
     rmap (\<lambda>gaps.
       concat gaps @
       (if length (po_network pol) > 0 \<and> \<not> unix_relayed (po_enforcement pol)
        then [''bubblewrap has no verified Unix-relay network broker for '' @ join_rules (po_network pol) @ ''; '' @
              ''the network namespace remains isolated and outbound traffic stays blocked.'']
        else []))
     (traverse (deny_gap pol ctx) (po_denies pol))"

definition with_network_relay :: "string \<Rightarrow> sandbox_policy \<Rightarrow> sandbox_command \<Rightarrow> sandbox_command" where
  "with_network_relay exec_path pol cmd =
     (case po_enforcement pol of
        Brokered (UnixSocketRelay socket script port) \<Rightarrow>
          \<lparr>sc_executable = exec_path,
           sc_args = [ap_value script, ap_value socket, show_nat port, sc_executable cmd] @ sc_args cmd,
           sc_cwd = sc_cwd cmd, sc_env = sc_env cmd\<rparr>
      | _ \<Rightarrow> cmd)"

definition bwrap_candidates :: "string list" where
  "bwrap_candidates = [''/usr/bin/bwrap'', ''/bin/bwrap'', ''/usr/local/bin/bwrap'']"

text \<open>\<open>locate\<close> with its memo: the executable found before, or the first candidate that may be run.\<close>

definition bwrap_locate :: "(string \<Rightarrow> bool) \<Rightarrow> string option \<Rightarrow> string option" where
  "bwrap_locate may_run memo = (case memo of Some e \<Rightarrow> Some e | None \<Rightarrow> find may_run bwrap_candidates)"

definition bwrap_available :: "platform \<Rightarrow> (string \<Rightarrow> bool) \<Rightarrow> string option \<Rightarrow> bool" where
  "bwrap_available pf may_run memo = (pf = Linux \<and> bwrap_locate may_run memo \<noteq> None)"

record bwrap_world =
  bw_exec_path :: string
  bw_may_run :: "string \<Rightarrow> bool"
  bw_memo :: "string option"
  bw_spawn :: "string \<Rightarrow> string list \<Rightarrow> sandbox_command \<Rightarrow> run_result res"

definition bwrap_args :: "bwrap_world \<Rightarrow> sandbox_policy \<Rightarrow> path_context \<Rightarrow> sandbox_command \<Rightarrow> string list res" where
  "bwrap_args bw pol ctx cmd = bwrap_build pol ctx (with_network_relay (bw_exec_path bw) pol cmd)"

definition bwrap_run :: "bwrap_world \<Rightarrow> sandbox_policy \<Rightarrow> path_context \<Rightarrow> sandbox_command \<Rightarrow> run_result res" where
  "bwrap_run bw pol ctx cmd =
     rbind (bwrap_unenforceable pol ctx) (\<lambda>gaps.
       if length gaps > 0 then Inl Unenforceable
       else case bwrap_locate (bw_may_run bw) (bw_memo bw) of
              None \<Rightarrow> Inl Unenforceable
            | Some executable \<Rightarrow> rbind (bwrap_args bw pol ctx cmd) (\<lambda>args. bw_spawn bw executable args cmd))"

definition bubblewrap_runner :: "bwrap_world \<Rightarrow> command_runner" where
  "bubblewrap_runner bw =
     \<lparr>sr_mechanism = Bubblewrap, sr_unenforceable = bwrap_unenforceable, sr_run = bwrap_run bw\<rparr>"

text \<open>The exit code of a child that reported none.\<close>

definition exit_result :: "int option \<Rightarrow> string option \<Rightarrow> run_result" where
  "exit_result code sig =
     \<lparr>rr_exit_code = (case code of Some c \<Rightarrow> c | None \<Rightarrow> if sig \<noteq> None then 128 else 1), rr_signal = sig\<rparr>"

section \<open>The runner without a sandbox, and the choice of a runner\<close>

definition noop_unenforceable :: "sandbox_policy \<Rightarrow> path_context \<Rightarrow> string list res" where
  "noop_unenforceable pol ctx =
     Inr [''No isolation mechanism is available on this platform: the command runs '' @
          ''with your full user permissions. '' @ show_nat (length (po_denies pol)) @ '' refusals and '' @
          show_nat (length (po_reads pol)) @ '' read rules are not enforced. Only layer 2 is active.'']"

definition noop_runner :: "(sandbox_command \<Rightarrow> run_result res) \<Rightarrow> command_runner" where
  "noop_runner spawn =
     \<lparr>sr_mechanism = NoSandbox, sr_unenforceable = noop_unenforceable, sr_run = (\<lambda>_ _. spawn)\<rparr>"

definition matches_platform :: "sandbox_mechanism \<Rightarrow> platform \<Rightarrow> bool" where
  "matches_platform m pf =
     (case m of Seatbelt \<Rightarrow> pf = Darwin | Bubblewrap \<Rightarrow> pf = Linux | AppContainer \<Rightarrow> pf = Win32 | NoSandbox \<Rightarrow> False)"

definition runner_for_platform :: "(command_runner \<times> bool) list \<Rightarrow> platform \<Rightarrow> command_runner option" where
  "runner_for_platform candidates pf =
     map_option fst (find (\<lambda>(r, available). matches_platform (sr_mechanism r) pf \<and> available) candidates)"

section \<open>What the namespace shows\<close>

text \<open>
  \<open>bwrap\<close> performs its mounts in the order of its arguments; a path shows what the last
  mount at or above it holds. A source that does not exist is skipped, and shows nothing.
\<close>

datatype view = Absent | EmptyTree | HostReadOnly | HostReadWrite

definition mount_target :: "mount \<Rightarrow> string" where
  "mount_target m = (case m of RoBindTry t \<Rightarrow> t | BindTry t \<Rightarrow> t | Tmpfs t \<Rightarrow> t)"

definition mount_view :: "mount \<Rightarrow> view" where
  "mount_view m = (case m of RoBindTry _ \<Rightarrow> HostReadOnly | BindTry _ \<Rightarrow> HostReadWrite | Tmpfs _ \<Rightarrow> EmptyTree)"

definition at_or_below :: "string \<Rightarrow> string \<Rightarrow> bool" where
  "at_or_below target v = (target = ''/'' \<or> v = target \<or> starts_with v (target @ ''/''))"

definition over :: "string \<Rightarrow> mount \<Rightarrow> bool" where
  "over v m = at_or_below (mount_target m) v"

definition view_of :: "mount list \<Rightarrow> string \<Rightarrow> view" where
  "view_of ms v = (case find (over v) (rev ms) of None \<Rightarrow> Absent | Some m \<Rightarrow> mount_view m)"

lemma find_hit: "find P xs = Some x \<Longrightarrow> x \<in> set xs \<and> P x"
  by (induction xs) (auto split: if_splits)

lemma find_miss: "find P xs = None \<longleftrightarrow> \<not> (\<exists>x \<in> set xs. P x)"
  by (induction xs) auto

lemma find_append: "find P (xs @ ys) = (case find P xs of None \<Rightarrow> find P ys | Some x \<Rightarrow> Some x)"
  by (induction xs) auto

lemma view_of_append:
  "view_of (xs @ ys) v = (if \<exists>m \<in> set ys. over v m then view_of ys v else view_of xs v)"
  using find_miss [of "over v" "rev ys"]
  by (cases "find (over v) (rev ys)") (auto simp: view_of_def find_append)

lemma view_of_hit:
  assumes "\<exists>m \<in> set ms. over v m" obtains m where "m \<in> set ms" "over v m" "view_of ms v = mount_view m"
proof -
  obtain m where m: "find (over v) (rev ms) = Some m"
    using assms find_miss [of "over v" "rev ms"] by (cases "find (over v) (rev ms)") auto
  then show ?thesis using that [of m] find_hit [OF m] by (simp add: view_of_def)
qed

lemma view_of_none: "\<not> (\<exists>m \<in> set ms. over v m) \<Longrightarrow> view_of ms v = Absent"
  using find_miss [of "over v" "rev ms"] by (auto simp: view_of_def)

definition posix_path_ok :: "abs_path \<Rightarrow> bool" where
  "posix_path_ok p = (wf_path p \<and> ap_flavour p = Posix)"

lemma contains_over:
  assumes "posix_path_ok p" "posix_path_ok q"
  shows "contains p q \<longleftrightarrow> at_or_below (ap_value p) (ap_value q)"
  using assms by (simp add: posix_path_ok_def contains_def at_or_below_def wf_path_def)

lemma contains_trans:
  assumes "posix_path_ok p" "posix_path_ok q" "posix_path_ok r" "contains p q" "contains q r"
  shows "contains p r"
  using assms contains_iff [of p q] contains_iff [of q r] contains_iff [of p r]
  by (auto simp: posix_path_ok_def)

lemma contains_path_eq: "path_eq p q \<Longrightarrow> posix_path_ok p \<Longrightarrow> posix_path_ok q \<Longrightarrow> p = q"
  using wf_posix_path_eq by (simp add: posix_path_ok_def)

definition posix_refs :: "sandbox_policy \<Rightarrow> bool" where
  "posix_refs pol =
     list_all (\<lambda>r. posix_path_ok (rr_path r)) (po_reads pol @ po_writes pol @ map ov_ref (po_overrides pol))"

definition deny_ok :: "deny_rule \<Rightarrow> bool" where
  "deny_ok d = (pattern_ok (dn_pattern d) \<and> (case dn_except d of None \<Rightarrow> True | Some w \<Rightarrow> posix_path_ok w))"

text \<open>Nothing lies below what the policy calls a file.\<close>

definition files_are_leaves :: "sandbox_policy \<Rightarrow> abs_path \<Rightarrow> bool" where
  "files_are_leaves pol p =
     list_all (\<lambda>r. rr_scope r \<noteq> Subtree \<and> contains (rr_path r) p \<longrightarrow> path_eq (rr_path r) p)
       (po_reads pol @ po_writes pol @ map ov_ref (po_overrides pol))"

definition unanchored_denied :: "sandbox_policy \<Rightarrow> access \<Rightarrow> abs_path \<Rightarrow> path_context \<Rightarrow> bool" where
  "unanchored_denied pol a p ctx =
     list_ex (\<lambda>d. dn_access d = a \<and> deny_matches d p (ctx_home ctx) \<and>
       literal_prefix (dn_pattern d) (ctx_home ctx) = Inr None) (po_denies pol)"

lemma literal_prefix_posix:
  assumes "ctx_ok ctx" "pattern_ok pat" "literal_prefix pat (ctx_home ctx) = Inr (Some a)"
  shows "posix_path_ok a"
proof -
  have home: "home_ok (ctx_home ctx)" "reparsable (segments (ctx_home ctx))" using assms(1) by (simp_all add: ctx_ok_def)
  obtain hs where hs: "ctx_home ctx = mk_posix hs" "\<forall>s \<in> set hs. seg_ok s" using home_ok_E [OF home(1)] .
  have "\<forall>s \<in> set (takeWhile literal_seg (pp_segments pat)). seg_ok s"
    using assms(2) by (auto simp: pattern_ok_def dest: set_takeWhileD)
  then show ?thesis
    using literal_prefix_eq [OF home assms(2)] assms(3) hs
    by (auto simp: Let_def posix_path_ok_def intro!: wf_mk_posix split: if_splits)
qed

lemma ref_covers_contains: "ref_covers r p \<Longrightarrow> posix_path_ok (rr_path r) \<Longrightarrow> posix_path_ok p \<Longrightarrow> contains (rr_path r) p"
  by (auto simp: ref_covers_def contains_over at_or_below_def path_eq_def split: if_splits)

lemma traverse_member: "traverse f xs = Inr ys \<Longrightarrow> x \<in> set xs \<Longrightarrow> \<exists>y \<in> set ys. f x = Inr y"
  by (rule traverse_set')

text \<open>A refusal with an anchor that matches a path hides it, unless the path is below a write
  grant's file, or an override.\<close>

lemma anchored_hides:
  assumes ctx: "ctx_ok ctx" and pol: "posix_refs pol" "list_all deny_ok (po_denies pol)" "files_are_leaves pol p"
    and p: "posix_path_ok p" and shadows: "traverse (shadow pol ctx) (po_denies pol) = Inr sh"
    and free: "\<not> (\<exists>m \<in> set (concat sh). over (ap_value p) m)"
      "\<not> (\<exists>m \<in> set (map override_mount (po_overrides pol)). over (ap_value p) m)"
    and den: "is_denied pol a p ctx" and w: "a = Write \<Longrightarrow> \<exists>r \<in> set (po_writes pol). ref_covers r p"
  shows "unanchored_denied pol a p ctx"
proof -
  obtain d where d: "d \<in> set (po_denies pol)" "dn_access d = a" "deny_matches d p (ctx_home ctx)"
    using den by (auto simp: is_denied_def list_ex_iff)
  have dok: "deny_ok d" using pol(2) d(1) by (simp add: list_all_iff)
  obtain ms where ms: "shadow pol ctx d = Inr ms" "set ms \<subseteq> set (concat sh)"
    using traverse_member [OF shadows d(1)] by fastforce
  obtain anchor where anchor: "literal_prefix (dn_pattern d) (ctx_home ctx) = Inr anchor"
    using ms(1) by (cases "literal_prefix (dn_pattern d) (ctx_home ctx)") (auto simp: shadow_def)
  show ?thesis
  proof (cases anchor)
    case None
    then show ?thesis using d anchor by (auto simp: unanchored_denied_def list_ex_iff)
  next
    case (Some x)
    have x: "posix_path_ok x" using literal_prefix_posix [OF ctx, of "dn_pattern d" x] dok anchor Some by (simp add: deny_ok_def)
    have "pattern_matches (dn_pattern d) p (ctx_home ctx)"
      using d(3) by (auto simp: deny_matches_def split: if_splits)
    then have xp: "contains x p"
      using anchor_contains [of "ctx_home ctx" "dn_pattern d" p x] ctx dok anchor Some p
      by (simp add: ctx_ok_def deny_ok_def posix_path_ok_def)
    have refs: "posix_path_ok (rr_path r)" if "r \<in> set (po_reads pol) \<or> r \<in> set (po_writes pol) \<or> r \<in> ov_ref ` set (po_overrides pol)" for r
      using pol(1) that by (auto simp: posix_refs_def list_all_iff)
    have "over (ap_value p) (Tmpfs (ap_value x))"
      using contains_over [OF x p] xp by (simp add: over_def mount_target_def)
    then have "ms \<noteq> [Tmpfs (ap_value x)]" using free(1) ms(2) by force
    then consider (within) w where "dn_except d = Some w" "contains w x"
      | (overridden) ov where "ov \<in> set (po_overrides pol)" "ref_covers (ov_ref ov) x"
      | (leaf) "a = Write" "is_read_only_file pol x"
      using ms(1) anchor Some d(2) by (auto simp: shadow_def list_ex_iff split: option.splits if_splits)
    then show ?thesis
    proof cases
      case within
      then have "contains w p" using contains_trans [OF _ x p _ xp] dok by (simp add: deny_ok_def)
      then show ?thesis using d(3) within(1) by (simp add: deny_matches_def)
    next
      case overridden
      have o: "posix_path_ok (rr_path (ov_ref ov))" using refs overridden(1) by blast
      have "contains (rr_path (ov_ref ov)) p"
        using contains_trans [OF o x p ref_covers_contains [OF overridden(2) o x] xp] .
      then have "over (ap_value p) (override_mount ov)"
        using contains_over [OF o p] by (simp add: over_def override_mount_def mount_target_def Let_def)
      then show ?thesis using free(2) overridden(1) by auto
    next
      case leaf
      obtain f where f: "f \<in> set (po_reads pol)" "rr_scope f = SingleFile" "path_eq (rr_path f) x"
        using leaf(2) by (auto simp: is_read_only_file_def list_ex_iff)
      have fx: "rr_path f = x" using contains_path_eq [OF f(3)] refs f(1) x by blast
      have "path_eq x p" using pol(3) f fx xp by (auto simp: files_are_leaves_def list_all_iff)
      then have "x = p" using contains_path_eq x p by blast
      then show ?thesis using w [OF leaf(1)] leaf(2) by (auto simp: is_read_only_file_def list_ex_iff)
    qed
  qed
qed

text \<open>The mount table in three parts: what is mounted first, what is hidden, the overrides.\<close>

lemma bwrap_mounts_parts:
  assumes "bwrap_mounts pol ctx = Inr ms"
  obtains sh where "traverse (shadow pol ctx) (po_denies pol) = Inr sh"
    "ms = (((map RoBindTry system_roots @ [Tmpfs (ap_value (ctx_home ctx))]) @ read_mounts pol) @
        map (\<lambda>r. BindTry (ap_value (rr_path r))) (po_writes pol)) @ concat sh @ map override_mount (po_overrides pol)"
  using assms by (cases "traverse (shadow pol ctx) (po_denies pol)") (auto simp: bwrap_mounts_def)

lemma shadows_are_tmpfs:
  assumes "traverse (shadow pol ctx) ds = Inr sh" "m \<in> set (concat sh)" shows "mount_view m = EmptyTree"
proof -
  obtain ms where "ms \<in> set sh" "m \<in> set ms" using assms(2) by auto
  then obtain d where "shadow pol ctx d = Inr ms" using traverse_set [OF assms(1)] by blast
  with \<open>m \<in> set ms\<close> show ?thesis
    by (cases "literal_prefix (dn_pattern d) (ctx_home ctx)")
       (auto simp: shadow_def mount_view_def split: option.splits if_splits)
qed

lemma over_ref:
  assumes "posix_path_ok (rr_path r)" "posix_path_ok p" "contains (rr_path r) p"
    and "rr_scope r \<noteq> Subtree \<and> contains (rr_path r) p \<longrightarrow> path_eq (rr_path r) p"
  shows "ref_covers r p"
  using assms by (auto simp: ref_covers_def)

text \<open>What the first part shows, by the last list that has a mount over the path.\<close>

lemma namespace_cases:
  assumes mounts: "bwrap_mounts pol ctx = Inr ms" and pol: "posix_refs pol" "files_are_leaves pol p"
    and p: "posix_path_ok p" and visible: "view_of ms (ap_value p) \<in> {HostReadOnly, HostReadWrite}"
  obtains (overridden) ov where "ov \<in> set (po_overrides pol)" "ref_covers (ov_ref ov) p"
      "view_of ms (ap_value p) = (if ov_access ov = Read then HostReadOnly else HostReadWrite)"
  | (written) sh r where "traverse (shadow pol ctx) (po_denies pol) = Inr sh"
      "\<not> (\<exists>m \<in> set (concat sh). over (ap_value p) m)"
      "\<not> (\<exists>m \<in> set (map override_mount (po_overrides pol)). over (ap_value p) m)"
      "r \<in> set (po_writes pol)" "ref_covers r p"
  | (readable) sh r where "traverse (shadow pol ctx) (po_denies pol) = Inr sh"
      "\<not> (\<exists>m \<in> set (concat sh). over (ap_value p) m)"
      "\<not> (\<exists>m \<in> set (map override_mount (po_overrides pol)). over (ap_value p) m)"
      "r \<in> set (po_reads pol)" "ref_covers r p" "view_of ms (ap_value p) = HostReadOnly"
  | (system) "is_covered_by_system p" "view_of ms (ap_value p) = HostReadOnly"
proof -
  let ?v = "ap_value p"
  define S where "S = map RoBindTry system_roots"
  define H where "H = [Tmpfs (ap_value (ctx_home ctx))]"
  define R where "R = read_mounts pol"
  define W where "W = map (\<lambda>r. BindTry (ap_value (rr_path r))) (po_writes pol)"
  define V where "V = map override_mount (po_overrides pol)"
  obtain sh where sh: "traverse (shadow pol ctx) (po_denies pol) = Inr sh"
    and ms: "ms = (((S @ H) @ R) @ W) @ concat sh @ V"
    using bwrap_mounts_parts [OF mounts] unfolding S_def H_def R_def W_def V_def .
  have ok: "posix_path_ok (rr_path r)" "rr_scope r \<noteq> Subtree \<and> contains (rr_path r) p \<longrightarrow> path_eq (rr_path r) p"
    if "r \<in> set (po_reads pol) \<or> r \<in> set (po_writes pol) \<or> r \<in> ov_ref ` set (po_overrides pol)" for r
    using pol that by (auto simp: posix_refs_def files_are_leaves_def list_all_iff)
  have covers: "ref_covers r p" if "over ?v (m (ap_value (rr_path r)))" "m \<in> {RoBindTry, BindTry}"
    "r \<in> set (po_reads pol) \<or> r \<in> set (po_writes pol) \<or> r \<in> ov_ref ` set (po_overrides pol)" for r m
  proof -
    have "contains (rr_path r) p"
      using that(1,2) contains_over [OF ok(1) [OF that(3)] p] by (auto simp: over_def mount_target_def)
    then show ?thesis by (rule over_ref [OF ok(1) [OF that(3)] p _ ok(2) [OF that(3)]])
  qed
  note skip = view_of_append [of _ _ ?v]
  show ?thesis
  proof (cases "\<exists>m \<in> set V. over ?v m")
    case True
    then obtain m where m: "m \<in> set V" "over ?v m" "view_of V ?v = mount_view m" by (rule view_of_hit)
    then obtain ov where ov: "ov \<in> set (po_overrides pol)" "m = override_mount ov" by (auto simp: V_def)
    have "ref_covers (ov_ref ov) p"
      using covers [of RoBindTry "ov_ref ov"] covers [of BindTry "ov_ref ov"] m(2) ov
      by (auto simp: override_mount_def Let_def split: if_splits)
    moreover have "view_of ms ?v = mount_view m" unfolding ms skip using True m(3) by (simp add: bex_Un)
    ultimately show ?thesis using overridden [OF ov(1)] ov(2)
      by (simp add: override_mount_def mount_view_def Let_def split: if_splits)
  next
    case no_ov: False
    then have v1: "view_of (concat sh @ V) ?v = view_of (concat sh) ?v" unfolding skip by simp
    show ?thesis
    proof (cases "\<exists>m \<in> set (concat sh). over ?v m")
      case True
      then obtain m where "m \<in> set (concat sh)" "view_of (concat sh) ?v = mount_view m" by (rule view_of_hit)
      moreover have "view_of ms ?v = view_of (concat sh) ?v"
        unfolding ms view_of_append [of "((S @ H) @ R) @ W"] v1 using True by auto
      ultimately show ?thesis using shadows_are_tmpfs [OF sh] visible by auto
    next
      case no_sh: False
      have v2: "view_of ms ?v = view_of (((S @ H) @ R) @ W) ?v"
        unfolding ms view_of_append [of "((S @ H) @ R) @ W"] using no_sh no_ov by auto
      note none = sh no_sh no_ov [unfolded V_def]
      show ?thesis
      proof (cases "\<exists>m \<in> set W. over ?v m")
        case True
        then obtain r where r: "r \<in> set (po_writes pol)" "over ?v (BindTry (ap_value (rr_path r)))" by (auto simp: W_def)
        then show ?thesis using written [OF none r(1)] covers [of BindTry r] by blast
      next
        case no_w: False
        have v3: "view_of ms ?v = view_of ((S @ H) @ R) ?v" unfolding v2 view_of_append [of _ W] using no_w by simp
        show ?thesis
        proof (cases "\<exists>m \<in> set R. over ?v m")
          case True
          then obtain m where m: "m \<in> set R" "over ?v m" "view_of R ?v = mount_view m" by (rule view_of_hit)
          then obtain r where r: "r \<in> set (po_reads pol)" "m = RoBindTry (ap_value (rr_path r))"
            by (auto simp: R_def read_mounts_def)
          have "view_of ms ?v = mount_view m" unfolding v3 view_of_append [of _ R] using True m(3) by simp
          then show ?thesis using readable [OF none r(1)] covers [of RoBindTry r] m(2) r
            by (simp add: mount_view_def)
        next
          case no_r: False
          have v4: "view_of ms ?v = view_of (S @ H) ?v" unfolding v3 view_of_append [of _ R] using no_r by simp
          have "\<not> (\<exists>m \<in> set H. over ?v m)"
          proof
            assume h: "\<exists>m \<in> set H. over ?v m"
            then have "view_of ms ?v = view_of H ?v" unfolding v4 view_of_append [of _ H] by simp
            with h show False using visible by (simp add: view_of_def mount_view_def H_def)
          qed
          then have v5: "view_of ms ?v = view_of S ?v" unfolding v4 view_of_append [of _ H] by simp
          have "\<exists>m \<in> set S. over ?v m"
          proof (rule ccontr)
            assume "\<not> (\<exists>m \<in> set S. over ?v m)"
            then show False using view_of_none [of S ?v] v5 visible by simp
          qed
          then obtain m where m: "m \<in> set S" "over ?v m" "view_of S ?v = mount_view m" by (rule view_of_hit)
          then obtain root where root: "root \<in> set system_roots" "m = RoBindTry root" by (auto simp: S_def)
          have "root \<noteq> ''/''" using root(1) by (auto simp: system_roots_def)
          then have "is_covered_by_system p"
            using root m(2) by (auto simp: is_covered_by_system_def list_ex_iff over_def at_or_below_def mount_target_def)
          then show ?thesis using system m(3) v5 root(2) by (simp add: mount_view_def)
        qed
      qed
    qed
  qed
qed

lemma namespace_allows:
  assumes ctx: "ctx_ok ctx" and mounts: "bwrap_mounts pol ctx = Inr ms"
    and pol: "posix_refs pol" "list_all deny_ok (po_denies pol)" "files_are_leaves pol p" and p: "posix_path_ok p"
  shows "(view_of ms (ap_value p) = HostReadWrite \<longrightarrow> policy_allows pol Write p ctx \<or> unanchored_denied pol Write p ctx) \<and>
    (view_of ms (ap_value p) = HostReadOnly \<longrightarrow>
       policy_allows pol Read p ctx \<or> policy_allows pol Write p ctx \<or> is_covered_by_system p \<or>
       (\<exists>a. unanchored_denied pol a p ctx))"
proof (cases "view_of ms (ap_value p) \<in> {HostReadOnly, HostReadWrite}")
  case True
  have allowed: "policy_allows pol a p ctx \<or> unanchored_denied pol a p ctx"
    if "traverse (shadow pol ctx) (po_denies pol) = Inr sh" "\<not> (\<exists>m \<in> set (concat sh). over (ap_value p) m)"
      "\<not> (\<exists>m \<in> set (map override_mount (po_overrides pol)). over (ap_value p) m)"
      "r \<in> set (allows_ref pol a)" "ref_covers r p" for sh r a
  proof -
    have "a = Write \<Longrightarrow> \<exists>r \<in> set (po_writes pol). ref_covers r p" using that(4,5) by (auto simp: allows_ref_def)
    then have "is_denied pol a p ctx \<Longrightarrow> unanchored_denied pol a p ctx"
      using anchored_hides [OF ctx pol p that(1-3)] by blast
    then show ?thesis using that(4,5) by (auto simp: policy_allows_def list_ex_iff)
  qed
  show ?thesis
    using mounts pol(1,3) p True
  proof (cases rule: namespace_cases)
    case (overridden ov)
    then have "policy_allows pol (ov_access ov) p ctx" by (auto simp: policy_allows_def is_overridden_def list_ex_iff)
    with overridden(3) show ?thesis by (cases "ov_access ov") auto
  next
    case (written sh r)
    from allowed [OF written(1-3), of r Write] written(4,5) show ?thesis by (auto simp: allows_ref_def)
  next
    case (readable sh r)
    from allowed [OF readable(1-3), of r Read] readable(4-6) show ?thesis by (auto simp: allows_ref_def)
  qed simp
qed simp

text \<open>What \<open>unenforceable\<close> lets pass without an anchor: a refusal outside the workspace, when no
  grant mounts a directory outside it.\<close>

definition tolerated :: "sandbox_policy \<Rightarrow> abs_path \<Rightarrow> path_context \<Rightarrow> bool" where
  "tolerated pol p ctx =
     list_ex (\<lambda>d. dn_except d \<noteq> None \<and> deny_matches d p (ctx_home ctx) \<and>
         list_all (\<lambda>r. rr_scope r = SingleFile \<or> contains (ctx_workspace ctx) (rr_path r)) (po_runtime_refs pol))
       (po_denies pol)"

lemma enforceable_tolerates:
  assumes "bwrap_unenforceable pol ctx = Inr []" "unanchored_denied pol a p ctx"
  shows "tolerated pol p ctx"
proof -
  obtain d where d: "d \<in> set (po_denies pol)" "deny_matches d p (ctx_home ctx)"
    "literal_prefix (dn_pattern d) (ctx_home ctx) = Inr None"
    using assms(2) by (auto simp: unanchored_denied_def list_ex_iff)
  obtain gaps where gaps: "traverse (deny_gap pol ctx) (po_denies pol) = Inr gaps" "concat gaps = []"
    using assms(1) by (cases "traverse (deny_gap pol ctx) (po_denies pol)") (auto simp: bwrap_unenforceable_def)
  obtain g where "deny_gap pol ctx d = Inr g" "g \<in> set gaps" using traverse_member [OF gaps(1) d(1)] by blast
  then have "deny_gap pol ctx d = Inr []" using gaps(2) by auto
  then show ?thesis using d by (auto simp: deny_gap_def tolerated_def list_ex_iff split: if_splits)
qed

lemma built_denies_ok:
  assumes "build_policy h pb inp = Inr b" "registry_ok (pb_registry pb)" "ctx_ok (pi_context inp)"
  shows "list_all deny_ok (po_denies (br_policy b))"
proof -
  have "po_denies (br_policy b) = deny_rules (pb_registry pb) (pi_context inp)"
    by (rule build_policy_cases [OF assms(1)])
  then show ?thesis
    using assms(2,3)
    by (auto simp: deny_rules_def deny_of_def deny_ok_def list_all_iff reg_dangerous_for_def reg_for_platform_def
        registry_ok_def Sensitive.entry_ok_def ctx_ok_def posix_path_ok_def)
qed

section \<open>The process tree\<close>

text \<open>\<open>Number.parseInt\<close> to base ten of small numbers.\<close>

definition parse_int :: "string \<Rightarrow> int option" where
  "parse_int s =
     (let t = dropWhile (\<lambda>c. c \<in> set '' '' \<or> c \<in> {CHR 0x09, CHR 0x0A, CHR 0x0B, CHR 0x0C, CHR 0x0D}) s;
          neg = starts_with t ''-'';
          u = (if neg \<or> starts_with t ''+'' then tl t else t);
          ds = takeWhile is_digit u
      in if ds = [] then None else Some (if neg then - int (decimal ds) else int (decimal ds)))"

definition show_int :: "int \<Rightarrow> string" where
  "show_int n = (if n < 0 then CHR ''-'' # show_nat (nat (- n)) else show_nat (nat n))"

text \<open>The parent in \<open>pid (comm) state ppid ...\<close>: the second word from two characters after the
  last closing parenthesis, or after the first character where there is none.\<close>

definition stat_parent :: "string \<Rightarrow> int option" where
  "stat_parent stat =
     (let words = split_on (CHR '' '') (drop (case last_index_of (CHR '')'') stat of None \<Rightarrow> 1 | Some i \<Rightarrow> i + 2) stat)
      in parse_int (if length words > 1 then words ! 1 else []))"

text \<open>The loop over the entries of \<open>/proc\<close>; a status that cannot be read is a process that has gone.\<close>

fun parent_map :: "(int \<Rightarrow> string option) \<Rightarrow> string list \<Rightarrow> (int \<times> int) list \<Rightarrow> (int \<times> int) list" where
  "parent_map stat_of [] parents = parents"
| "parent_map stat_of (entry # entries) parents =
     parent_map stat_of entries
       (case parse_int entry of
          None \<Rightarrow> parents
        | Some candidate \<Rightarrow>
            if show_int candidate \<noteq> entry then parents
            else (case stat_of candidate of
                    None \<Rightarrow> parents
                  | Some stat \<Rightarrow>
                      (case stat_parent stat of None \<Rightarrow> parents | Some ppid \<Rightarrow> map_set candidate ppid parents)))"

text \<open>One round of the walk: the children of the current process that are new.\<close>

fun new_children :: "int \<Rightarrow> (int \<times> int) list \<Rightarrow> int list \<Rightarrow> int list" where
  "new_children current [] found = []"
| "new_children current ((child, ppid) # parents) found =
     (if ppid \<noteq> current \<or> child \<in> set found then new_children current parents found
      else child # new_children current parents (found @ [child]))"

lemma new_children_set: "set (new_children current parents found) = {c. (c, current) \<in> set parents \<and> c \<notin> set found}"
  by (induction current parents found rule: new_children.induct) auto

lemma new_children_distinct:
  "distinct (new_children current parents found) \<and> set (new_children current parents found) \<inter> set found = {}"
  by (induction current parents found rule: new_children.induct) (auto simp: new_children_set)

lemma fresh_measure:
  "card (fst ` set parents - set (found @ new_children current parents found)) +
     length (new_children current parents found) = card (fst ` set parents - set found)"
proof -
  let ?n = "new_children current parents found" and ?A = "fst ` set parents - set found"
  have sub: "set ?n \<subseteq> ?A" using new_children_set [of current parents found] by force
  have "card ?A = card (?A - set ?n) + card (set ?n)"
    using card_Diff_subset [OF _ sub] card_mono [OF _ sub] by simp
  moreover have "fst ` set parents - set (found @ ?n) = ?A - set ?n" by auto
  ultimately show ?thesis using new_children_distinct [of current parents found] by (simp add: distinct_card)
qed

function walk_tree :: "(int \<times> int) list \<Rightarrow> int list \<Rightarrow> int list \<Rightarrow> int list" where
  "walk_tree parents found [] = found"
| "walk_tree parents found (current # queue) =
     (let fresh = new_children current parents found
      in walk_tree parents (found @ fresh) (queue @ fresh))"
  by pat_completeness auto

termination
proof (relation "measure (\<lambda>(parents, found, queue). card (fst ` set parents - set found) + length queue)")
  fix parents :: "(int \<times> int) list" and found current queue x
  assume x: "x = new_children current parents found"
  then show "((parents, found @ x, queue @ x), parents, found, current # queue)
    \<in> measure (\<lambda>(parents, found, queue). card (fst ` set parents - set found) + length queue)"
    using fresh_measure [of parents found current] by simp
qed simp

definition descendants_of :: "platform \<Rightarrow> (int \<Rightarrow> string option) \<Rightarrow> string list option \<Rightarrow> int option \<Rightarrow> int list" where
  "descendants_of pf stat_of entries pid =
     (case pid of
        None \<Rightarrow> []
      | Some p \<Rightarrow>
          if pf \<noteq> Linux then []
          else (case entries of None \<Rightarrow> [] | Some es \<Rightarrow> walk_tree (parent_map stat_of es []) [] [p]))"

text \<open>Below a process: what the parents lead back to it.\<close>

definition child_of :: "(int \<times> int) list \<Rightarrow> (int \<times> int) set" where
  "child_of parents = {(p, c). (c, p) \<in> set parents}"

lemma walk_tree_reaches:
  assumes "\<forall>c \<in> set found \<union> set queue. (root, c) \<in> (child_of parents)\<^sup>*"
    and "set found \<subseteq> {c. (root, c) \<in> (child_of parents)\<^sup>+}" "distinct found"
  shows "set (walk_tree parents found queue) \<subseteq> {c. (root, c) \<in> (child_of parents)\<^sup>+} \<and>
    distinct (walk_tree parents found queue)"
  using assms
proof (induction parents found queue rule: walk_tree.induct)
  case (2 parents found current queue)
  let ?n = "new_children current parents found"
  have n: "c \<in> set ?n \<Longrightarrow> (root, c) \<in> (child_of parents)\<^sup>+" for c
    using 2(2) rtrancl_into_trancl1 [of root current "child_of parents" c]
    by (auto simp: new_children_set child_of_def)
  have "distinct (found @ ?n)" using 2(4) new_children_distinct [of current parents found] by auto
  then show ?case using 2 n by (auto simp: Let_def dest: trancl_into_rtrancl)
qed simp

lemma walk_tree_closed:
  assumes "\<forall>x \<in> insert root (set found). x \<in> set queue \<or> (\<forall>c. (x, c) \<in> child_of parents \<longrightarrow> c \<in> set found)"
  shows "set found \<subseteq> set (walk_tree parents found queue) \<and>
    (\<forall>x \<in> insert root (set (walk_tree parents found queue)). \<forall>c. (x, c) \<in> child_of parents \<longrightarrow>
       c \<in> set (walk_tree parents found queue))"
  using assms
proof (induction parents found queue rule: walk_tree.induct)
  case (2 parents found current queue)
  let ?n = "new_children current parents found"
  have "\<forall>x \<in> insert root (set (found @ ?n)).
      x \<in> set (queue @ ?n) \<or> (\<forall>c. (x, c) \<in> child_of parents \<longrightarrow> c \<in> set (found @ ?n))"
    using 2(2) by (auto simp: new_children_set child_of_def)
  from 2(1) [OF refl this] show ?case by (simp add: Let_def)
qed simp

lemma walk_tree_exact:
  "set (walk_tree parents [] [root]) = {c. (root, c) \<in> (child_of parents)\<^sup>+} \<and> distinct (walk_tree parents [] [root])"
proof -
  let ?w = "walk_tree parents [] [root]"
  have reach: "set ?w \<subseteq> {c. (root, c) \<in> (child_of parents)\<^sup>+} \<and> distinct ?w"
    by (rule walk_tree_reaches) auto
  have "\<forall>x \<in> insert root (set ([] :: int list)). x \<in> set [root] \<or> (\<forall>c. (x, c) \<in> child_of parents \<longrightarrow> c \<in> set ([] :: int list))"
    by simp
  from walk_tree_closed [OF this]
  have closed: "\<forall>x \<in> insert root (set ?w). \<forall>c. (x, c) \<in> child_of parents \<longrightarrow> c \<in> set ?w" by blast
  have "c \<in> set ?w" if "(root, c) \<in> (child_of parents)\<^sup>+" for c
    using that
  proof (induction rule: trancl_induct)
    case (base y)
    then show ?case using closed by blast
  next
    case (step y z)
    then show ?case using closed by blast
  qed
  then show ?thesis using reach by blast
qed

section \<open>A runner that enforces nothing\<close>

lemma noop_never_starts:
  assumes "rw_runner w = Some (noop_runner spawn)" "execute_run w q = (res, evs)"
  shows "Spawned pol c cmd \<notin> set evs"
proof
  assume "Spawned pol c cmd \<in> set evs"
  then obtain r ctx scratch session where "rw_runner w = Some r" "justified w r q ctx scratch session pol c cmd"
    using spawned_justified [OF assms(2)] by metis
  then show False using assms(1) by (auto simp: justified_def noop_runner_def noop_unenforceable_def)
qed

lemma chosen_runner_confines:
  "runner_for_platform candidates pf = Some r \<Longrightarrow> matches_platform (sr_mechanism r) pf \<and> sr_mechanism r \<noteq> NoSandbox"
  by (auto simp: runner_for_platform_def matches_platform_def dest!: find_hit split: sandbox_mechanism.splits)

section \<open>Properties\<close>

text \<open>C3: the namespace built from a policy shows the host only where the policy allows it, with
  three exceptions. When nothing of a built policy is reported as unenforceable, a path that
  shows a writable host file may be written under the policy, and one that shows a readable host
  file may be read or written. The exceptions are the system trees, which are always readable;
  refusals without an anchor that hold outside the workspace, while every grant of a directory
  lies inside it (\<open>tolerated\<close>); and grants of a file, below which nothing may lie
  (\<open>files_are_leaves\<close>): \<open>file_grant_opens_tree\<close> shows what a file grant of a directory opens.\<close>

theorem namespace_shows_only_allowed:
  assumes "build_policy h pb inp = Inr b" "registry_ok (pb_registry pb)" "ctx_ok (pi_context inp)"
    and "posix_refs (br_policy b)" "files_are_leaves (br_policy b) p" "posix_path_ok p"
    and "bwrap_unenforceable (br_policy b) (pi_context inp) = Inr []"
    and "bwrap_mounts (br_policy b) (pi_context inp) = Inr ms"
  shows "(view_of ms (ap_value p) = HostReadWrite \<longrightarrow>
       policy_allows (br_policy b) Write p (pi_context inp) \<or> tolerated (br_policy b) p (pi_context inp)) \<and>
    (view_of ms (ap_value p) = HostReadOnly \<longrightarrow>
       policy_allows (br_policy b) Read p (pi_context inp) \<or> policy_allows (br_policy b) Write p (pi_context inp) \<or>
       is_covered_by_system p \<or> tolerated (br_policy b) p (pi_context inp))"
  using namespace_allows [OF assms(3,8,4) built_denies_ok [OF assms(1-3)] assms(5,6)]
    enforceable_tolerates [OF assms(7)] by blast

definition tree_input :: policy_input where
  "tree_input = sample_input\<lparr>pi_grants := []\<rparr>"

lemma tree_build: "\<exists>b ms. build_policy zero_sha sample_builder tree_input = Inr b \<and>
    bwrap_mounts (br_policy b) sample_ctx = Inr ms \<and> posix_refs (br_policy b) \<and>
    files_are_leaves (br_policy b) (mk_posix [''home'', ''u'', ''w'', ''a'']) \<and>
    bwrap_unenforceable (br_policy b) sample_ctx = Inr [] \<and>
    view_of ms (ap_value (mk_posix [''home'', ''u'', ''w'', ''a''])) = HostReadWrite"
proof -
  let ?p = "mk_posix [''home'', ''u'', ''w'', ''a'']"
  have "(case build_policy zero_sha sample_builder tree_input of
      Inl _ \<Rightarrow> False
    | Inr b \<Rightarrow> posix_refs (br_policy b) \<and> files_are_leaves (br_policy b) ?p \<and>
        bwrap_unenforceable (br_policy b) sample_ctx = Inr [] \<and>
        (case bwrap_mounts (br_policy b) sample_ctx of
           Inl _ \<Rightarrow> False | Inr ms \<Rightarrow> view_of ms (ap_value ?p) = HostReadWrite))" by code_simp
  then show ?thesis by (auto split: sum.splits)
qed

lemma namespace_shows_only_allowed_witness:
  "\<exists>b. build_policy zero_sha sample_builder tree_input = Inr b \<and>
    (policy_allows (br_policy b) Write (mk_posix [''home'', ''u'', ''w'', ''a'']) sample_ctx \<or>
     tolerated (br_policy b) (mk_posix [''home'', ''u'', ''w'', ''a'']) sample_ctx)"
proof -
  let ?p = "mk_posix [''home'', ''u'', ''w'', ''a'']"
  obtain b ms where b: "build_policy zero_sha sample_builder tree_input = Inr b"
    "bwrap_mounts (br_policy b) sample_ctx = Inr ms" "posix_refs (br_policy b)" "files_are_leaves (br_policy b) ?p"
    "bwrap_unenforceable (br_policy b) sample_ctx = Inr []" "view_of ms (ap_value ?p) = HostReadWrite"
    using tree_build by blast
  have c: "pi_context tree_input = sample_ctx" by (simp add: tree_input_def)
  have p: "posix_path_ok ?p" by code_simp
  have reg: "registry_ok (pb_registry sample_builder)" using sample_registry_ok by simp
  from namespace_shows_only_allowed [OF b(1) reg _ b(3,4) p _ _, unfolded c, OF sample_ctx_ok b(5,2)] b(1,6)
  show ?thesis by auto
qed

definition home_as_file :: policy_input where
  "home_as_file = sample_input\<lparr>pi_profile := (pi_profile sample_input)\<lparr>sf_read_specs := []\<rparr>, pi_grants :=
     [grant_new zero_sha \<lparr>gp_resource = file_ref (mk_posix [''home'', ''u'']), gp_access = Write, gp_scope = scope_global,
        gp_granted_at = Some 0, gp_reason = ''notes'', gp_origin = Runtime\<rparr>]\<rparr>"

text \<open>A grant of a file that is really a directory opens the whole tree on Linux. The
  runtime grant \<open>file:~\<close> passes the gate for a single file, is mounted with everything below
  it, writable, and nothing is reported as unenforceable; the policy itself allows nothing
  below the granted path.\<close>

theorem file_grant_opens_tree:
  "\<exists>b ms. build_policy zero_sha sample_builder home_as_file = Inr b \<and> br_rejected b = [] \<and>
     bwrap_unenforceable (br_policy b) sample_ctx = Inr [] \<and> bwrap_mounts (br_policy b) sample_ctx = Inr ms \<and>
     view_of ms ''/home/u/other/secret'' = HostReadWrite \<and>
     \<not> policy_allows (br_policy b) Write (mk_posix [''home'', ''u'', ''other'', ''secret'']) sample_ctx"
proof -
  have "(case build_policy zero_sha sample_builder home_as_file of
      Inl _ \<Rightarrow> False
    | Inr b \<Rightarrow> br_rejected b = [] \<and> bwrap_unenforceable (br_policy b) sample_ctx = Inr [] \<and>
        \<not> policy_allows (br_policy b) Write (mk_posix [''home'', ''u'', ''other'', ''secret'']) sample_ctx \<and>
        (case bwrap_mounts (br_policy b) sample_ctx of
           Inl _ \<Rightarrow> False | Inr ms \<Rightarrow> view_of ms ''/home/u/other/secret'' = HostReadWrite))" by code_simp
  then show ?thesis by (auto split: sum.splits)
qed

text \<open>When a signal is forwarded, the processes that receive it are exactly those that
  descend from the started one in the process table, each once.\<close>

theorem descendants_exact:
  assumes "parent_map stat_of entries [] = parents"
  shows "set (descendants_of Linux stat_of (Some entries) (Some pid)) = {c. (pid, c) \<in> (child_of parents)\<^sup>+} \<and>
    distinct (descendants_of Linux stat_of (Some entries) (Some pid))"
  using walk_tree_exact [of parents pid] assms by (simp add: descendants_of_def)

definition sample_stat :: "int \<Rightarrow> string option" where
  "sample_stat n =
     (if n = 5 then Some ''5 (bwrap (a) b) S 1 5'' else if n = 7 then Some ''7 (node) S 5 7''
      else if n = 12 then Some ''12 (x) R 7 3'' else None)"

lemma descendants_exact_witness:
  "(5, 12) \<in> (child_of (parent_map sample_stat [''1'', ''5'', ''12'', ''7'', ''self'', ''07''] []))\<^sup>+"
proof -
  have m: "parent_map sample_stat [''1'', ''5'', ''12'', ''7'', ''self'', ''07''] [] = [(5, 1), (12, 7), (7, 5)]" by code_simp
  have "12 \<in> set (descendants_of Linux sample_stat (Some [''1'', ''5'', ''12'', ''7'', ''self'', ''07'']) (Some 5))" by code_simp
  then show ?thesis using descendants_exact [OF m, of 5] m by simp
qed

end
