(* ===== verification/SeatbeltProfile.thy ===== *)
theory SeatbeltProfile
  imports Bwrap
begin

text \<open>
  \<open>src/infrastructure/sandbox/SeatbeltProfileCompiler.ts\<close> and the part of \<open>SeatbeltRunner.ts\<close>
  that does not spawn: a policy as the text of a Seatbelt profile. A profile is a list of lines;
  the last rule whose operation and filter match a path decides, and what no rule decides is
  refused. The regular expressions the compiler writes are read back as tokens, so that the
  lemmas can show that they match what the domain's own patterns match.
\<close>

section \<open>Lines of a profile\<close>

datatype sb_filter = Everything | Subpath string | Literal string | Regex string

datatype sb_line = Note string | Rule bool access sb_filter "string option"

definition operation_name :: "access \<Rightarrow> string" where
  "operation_name a = (if a = Read then ''file-read*'' else ''file-write*'')"

definition quoted :: "string \<Rightarrow> string" where
  "quoted v = CHR 0x22 # v @ [CHR 0x22]"

definition filter_text :: "sb_filter \<Rightarrow> string" where
  "filter_text f =
     (case f of
        Everything \<Rightarrow> []
      | Subpath v \<Rightarrow> '' (subpath '' @ quoted v @ '')''
      | Literal v \<Rightarrow> '' (literal '' @ quoted v @ '')''
      | Regex r \<Rightarrow> '' (regex #'' @ quoted r @ '')'')"

definition line_text :: "sb_line \<Rightarrow> string" where
  "line_text l =
     (case l of
        Note t \<Rightarrow> t
      | Rule allow a f c \<Rightarrow>
          (if allow then ''(allow '' else ''(deny '') @ operation_name a @ filter_text f @ '')'' @
          (case c of None \<Rightarrow> [] | Some t \<Rightarrow> '' ; '' @ t))"

text \<open>\<open>quote\<close> refuses what could end the string or the line.\<close>

definition sb_quote :: "abs_path \<Rightarrow> string res" where
  "sb_quote p =
     (let v = ap_value p
      in if CHR 0x22 \<in> set v \<or> CHR 0x5C \<in> set v then Inl Unquotable
         else if CHR 0x0A \<in> set v \<or> CHR 0x0D \<in> set v then Inl Unquotable
         else Inr v)"

text \<open>\<open>comment\<close>: each run of line ends becomes one blank.\<close>

fun sb_comment :: "string \<Rightarrow> string" where
  "sb_comment [] = []"
| "sb_comment (c # s) =
     (if c = CHR 0x0A \<or> c = CHR 0x0D
      then (case s of
              [] \<Rightarrow> '' ''
            | d # _ \<Rightarrow> if d = CHR 0x0A \<or> d = CHR 0x0D then sb_comment s else CHR '' '' # sb_comment s)
      else c # sb_comment s)"

section \<open>Regular expressions\<close>

definition regex_special :: "char \<Rightarrow> bool" where
  "regex_special c = (c \<in> set ''.*+?^${}()|[]'' \<or> c = CHR 0x5C)"

definition escape_char :: "char \<Rightarrow> string" where
  "escape_char c = (if regex_special c then [CHR 0x5C, c] else [c])"

definition escape_regex :: "string \<Rightarrow> string" where
  "escape_regex s = concat (map escape_char s)"

definition recurse_mark :: string where
  "recurse_mark = CHR 0x00 # ''RECURSE'' @ [CHR 0x00]"

definition segment_regex :: "string \<Rightarrow> string" where
  "segment_regex s =
     (if s = recursive then recurse_mark
      else join ''[^/]*'' (map escape_regex (split_on star s)))"

text \<open>The global replacement of the mark with the slashes around it.\<close>

function replace_recurse :: "string \<Rightarrow> string" where
  "replace_recurse s =
     (if s = [] then []
      else if starts_with s (''/'' @ recurse_mark @ ''/'') then ''(/.*)?/'' @ replace_recurse (drop 11 s)
      else if starts_with s (''/'' @ recurse_mark) then ''(/.*)?/'' @ replace_recurse (drop 10 s)
      else if starts_with s (recurse_mark @ ''/'') then ''(/.*)?/'' @ replace_recurse (drop 10 s)
      else if starts_with s recurse_mark then ''(/.*)?/'' @ replace_recurse (drop 9 s)
      else hd s # replace_recurse (tl s))"
  by pat_completeness auto
termination by (relation "measure length") auto

declare replace_recurse.simps [simp del]

definition pattern_to_regex :: "string \<Rightarrow> abs_path \<Rightarrow> abs_path option \<Rightarrow> string" where
  "pattern_to_regex raw home within =
     (let anchored = (if starts_with raw ''~/'' then ap_value home @ ''/'' @ drop 2 raw else raw);
          replaced = replace_recurse (join ''/'' (map segment_regex (split_on slash anchored)));
          body = (if starts_with replaced ''(/.*)?/'' then ''/(.*/)?'' @ drop 7 replaced else replaced);
          pre = (case within of None \<Rightarrow> [] | Some w \<Rightarrow> escape_regex (ap_value w))
      in ''^'' @ pre @ body @ ''$'')"

section \<open>The compiler\<close>

definition ref_filter :: "resource_ref \<Rightarrow> sb_filter res" where
  "ref_filter r = rmap (if rr_scope r = Subtree then Subpath else Literal) (sb_quote (rr_path r))"

definition allow_line :: "access \<Rightarrow> resource_ref \<Rightarrow> sb_line res" where
  "allow_line a r = rmap (\<lambda>f. Rule True a f None) (ref_filter r)"

definition override_line :: "policy_override \<Rightarrow> sb_line res" where
  "override_line ov =
     rmap (\<lambda>f. Rule True (ov_access ov) f (Some (sb_comment (ov_reason ov)))) (ref_filter (ov_ref ov))"

definition deny_filter :: "deny_rule \<Rightarrow> path_context \<Rightarrow> sb_filter res" where
  "deny_filter d ctx =
     rbind (literal_prefix (dn_pattern d) (ctx_home ctx)) (\<lambda>anchor.
       case anchor of
         None \<Rightarrow> Inr (Regex (pattern_to_regex (pp_raw (dn_pattern d)) (ctx_home ctx) None))
       | Some a \<Rightarrow>
           if index_of ''**/'' (pp_raw (dn_pattern d)) \<noteq> None
           then Inr (Regex (pattern_to_regex (pp_raw (dn_pattern d)) (ctx_home ctx) None))
           else rmap Subpath (sb_quote a))"

definition deny_lines :: "path_context \<Rightarrow> deny_rule \<Rightarrow> sb_line list res" where
  "deny_lines ctx d =
     rmap (\<lambda>f.
       Rule False (dn_access d) f (Some (sb_comment (dn_source d))) #
       (case dn_except d of
          None \<Rightarrow> []
        | Some w \<Rightarrow>
            [Rule True (dn_access d) (Regex (pattern_to_regex (pp_raw (dn_pattern d)) (ctx_home ctx) (Some w)))
               (Some (sb_comment (dn_source d) @ '' - the workspace's own file''))]))
     (deny_filter d ctx)"

definition network_lines :: "network_enforcement \<Rightarrow> sb_line list" where
  "network_lines e =
     (case e of
        Brokered (TcpLoopback port) \<Rightarrow>
          [Note '';; --- network: destination broker only --------------------------------'',
           Note ''(allow system-socket)'',
           Note (''(allow network-outbound (remote tcp '' @ quoted (''localhost:'' @ show_nat port) @ ''))'')]
      | Brokered (UnixSocketRelay _ _ _) \<Rightarrow>
          [Note '';; --- network: unsupported broker transport; fully closed --------------'']
      | _ \<Rightarrow> [Note '';; --- network: fully closed --------------------------------------------''])"

definition preamble :: "sb_line list" where
  "preamble =
     map Note
       [''(version 1)'', '';; Generated by agentkeeper. Do not edit: rebuilt on every run.'', ''(deny default)'', [],
        '';; --- operations any process needs in order to start -------------------'', ''(allow process-fork)'',
        ''(allow process-exec)'', ''(allow signal (target self))'', ''(allow sysctl-read)'',
        ''(allow file-map-executable)'', ''(allow file-read-metadata)'', ''(allow file-ioctl)''] @
     [Rule True Write (Subpath ''/dev'') None, Note [],
      Note '';; --- system is readable, every home directory is not -------------------'',
      Rule True Read Everything None]"

definition home_lines :: "path_context \<Rightarrow> sb_line list res" where
  "home_lines ctx =
     rbind (parent (ctx_home ctx)) (\<lambda>up.
     rbind (sb_quote up) (\<lambda>root.
     rmap (\<lambda>home. [Rule False Read (Subpath root) None, Rule False Read (Subpath home) None])
       (sb_quote (ctx_home ctx))))"

definition compile_lines :: "sandbox_policy \<Rightarrow> path_context \<Rightarrow> sb_line list res" where
  "compile_lines pol ctx =
     rbind (home_lines ctx) (\<lambda>home.
     rbind (traverse (allow_line Read) (po_reads pol)) (\<lambda>reads.
     rbind (traverse (allow_line Write) (po_writes pol)) (\<lambda>writes.
     rbind (traverse (deny_lines ctx) (po_denies pol)) (\<lambda>denies.
     rbind (traverse override_line (po_overrides pol)) (\<lambda>overrides.
       Inr (preamble @ home @
         [Note [], Note '';; --- what this workspace opened ---------------------------------------''] @ reads @ writes @
         (if length (po_denies pol) > 0
          then [Note [], Note '';; --- refusals, which outrank every allow above -------------------------''] @ concat denies
          else []) @
         (if length (po_overrides pol) > 0
          then [Note [], Note '';; --- hand-written grants, which outrank the refusals above -------------''] @ overrides
          else []) @
         [Note []] @ network_lines (po_enforcement pol)))))))"

definition compile_profile :: "sandbox_policy \<Rightarrow> path_context \<Rightarrow> string res" where
  "compile_profile pol ctx = rmap (\<lambda>lines. join newline (map line_text lines) @ newline) (compile_lines pol ctx)"

section \<open>The runner\<close>

definition seatbelt_unenforceable :: "sandbox_policy \<Rightarrow> path_context \<Rightarrow> string list res" where
  "seatbelt_unenforceable pol ctx =
     (if length (po_network pol) = 0 then Inr []
      else case po_enforcement pol of
             Brokered (TcpLoopback _) \<Rightarrow> Inr []
           | _ \<Rightarrow> Inr [''Seatbelt can enforce only the launcher-owned loopback destination broker; direct '' @
                       ''hostname/port egress remains closed.''])"

definition seatbelt_available :: "platform \<Rightarrow> (string \<Rightarrow> bool) \<Rightarrow> bool" where
  "seatbelt_available pf may_run = (pf = Darwin \<and> may_run ''/usr/bin/sandbox-exec'')"

text \<open>Running: the profile is written to a file of its own, and \<open>sandbox-exec\<close> is given the file.\<close>

definition seatbelt_run ::
  "(string \<Rightarrow> string list \<Rightarrow> sandbox_command \<Rightarrow> run_result res) \<Rightarrow> string res \<Rightarrow>
     sandbox_policy \<Rightarrow> path_context \<Rightarrow> sandbox_command \<Rightarrow> run_result res" where
  "seatbelt_run spawn directory pol ctx cmd =
     rbind (seatbelt_unenforceable pol ctx) (\<lambda>gaps.
       if length gaps > 0 then Inl Unenforceable
       else rbind directory (\<lambda>dir.
            rbind (compile_profile pol ctx) (\<lambda>profile.
              spawn profile ([''-f'', dir @ ''/policy.sb'', sc_executable cmd] @ sc_args cmd) cmd)))"

section \<open>What an expression matches\<close>

text \<open>
  The expressions the compiler writes use seven constructs: a character, an escaped character,
  any character, \<open>[^/]*\<close>, and a separator with an optional run of directories in the two
  spellings \<open>(/.*)?/\<close> and \<open>/(.*/)?\<close>, between \<open>^\<close> and \<open>$\<close>.
\<close>

datatype rx = Chr char | AnyChr | SegStar | Dirs

function rx_tokens :: "string \<Rightarrow> rx list" where
  "rx_tokens s =
     (if s = [] then []
      else if starts_with s ''[^/]*'' then SegStar # rx_tokens (drop 5 s)
      else if starts_with s ''(/.*)?/'' then Dirs # rx_tokens (drop 7 s)
      else if starts_with s ''/(.*/)?'' then Dirs # rx_tokens (drop 7 s)
      else if hd s = CHR 0x5C \<and> tl s \<noteq> [] then Chr (hd (tl s)) # rx_tokens (drop 2 s)
      else (if hd s = CHR ''.'' then AnyChr else Chr (hd s)) # rx_tokens (tl s))"
  by pat_completeness auto
termination by (relation "measure length") auto

declare rx_tokens.simps [simp del]

definition star_tails :: "string \<Rightarrow> string list" where
  "star_tails s = map (\<lambda>k. drop k s) [0..<Suc (length (takeWhile (\<lambda>c. c \<noteq> slash) s))]"

primrec rx_match :: "rx list \<Rightarrow> string \<Rightarrow> bool" where
  "rx_match [] s = (s = [])"
| "rx_match (t # ts) s =
     (case t of
        Chr c \<Rightarrow> s \<noteq> [] \<and> hd s = c \<and> rx_match ts (tl s)
      | AnyChr \<Rightarrow> s \<noteq> [] \<and> rx_match ts (tl s)
      | SegStar \<Rightarrow> list_ex (rx_match ts) (star_tails s)
      | Dirs \<Rightarrow>
          s \<noteq> [] \<and> hd s = slash \<and>
          (rx_match ts (tl s) \<or> list_ex (\<lambda>t. t \<noteq> [] \<and> hd t = slash \<and> rx_match ts (tl t)) (tails (tl s))))"

definition regex_matches :: "string \<Rightarrow> string \<Rightarrow> bool" where
  "regex_matches r v =
     (case r of
        [] \<Rightarrow> False
      | c # rest \<Rightarrow> c = CHR ''^'' \<and> rest \<noteq> [] \<and> last rest = CHR ''$'' \<and> rx_match (rx_tokens (butlast rest)) v)"

text \<open>The tokens of one segment, and of a list of segments each with the slash before it.\<close>

definition seg_tokens :: "string \<Rightarrow> rx list" where
  "seg_tokens p = map (\<lambda>c. if c = star then SegStar else Chr c) p"

fun path_tokens :: "string list \<Rightarrow> rx list" where
  "path_tokens [] = []"
| "path_tokens [p] = Chr slash # seg_tokens p"
| "path_tokens (p # q # ps) =
     (if p = recursive then Dirs # seg_tokens q @ path_tokens ps
      else Chr slash # seg_tokens p @ path_tokens (q # ps))"

text \<open>Patterns whose recursive segments stand alone and not at the end.\<close>

fun spaced :: "string list \<Rightarrow> bool" where
  "spaced [] = True"
| "spaced [p] = (p \<noteq> recursive)"
| "spaced (p # q # ps) = (if p = recursive then q \<noteq> recursive \<and> spaced ps else spaced (q # ps))"

definition plain_seg :: "string \<Rightarrow> bool" where
  "plain_seg p = (p \<noteq> [] \<and> slash \<notin> set p \<and> CHR 0x00 \<notin> set p)"

definition slashed :: "string list \<Rightarrow> string" where
  "slashed ss = concat (map (\<lambda>s. slash # s) ss)"

lemma slashed_simps [simp]: "slashed [] = []" "slashed (s # ss) = slash # s @ slashed ss"
  by (simp_all add: slashed_def)

lemma slashed_append: "slashed (xs @ ys) = slashed xs @ slashed ys"
  by (simp add: slashed_def)

lemma slashed_edge: "slashed ss = [] \<or> hd (slashed ss) = slash"
  by (cases ss) simp_all

lemma posix_path_slashed: "ss \<noteq> [] \<Longrightarrow> posix_path ss = slashed ss"
proof -
  have "slash # join ''/'' (s # ss) = slashed (s # ss)" for s ss
    by (induction ss arbitrary: s) auto
  then show "ss \<noteq> [] \<Longrightarrow> posix_path ss = slashed ss" by (cases ss) (auto simp: posix_path_def)
qed

lemma star_tails_set:
  assumes "slash \<notin> set s" "rest = [] \<or> hd rest = slash"
  shows "set (star_tails (s @ rest)) = {t @ rest | t. suffix t s}"
proof -
  have "takeWhile (\<lambda>c. c \<noteq> slash) (s @ rest) = s"
    using assms by (cases rest) (auto simp: takeWhile_append)
  then have "set (star_tails (s @ rest)) = (\<lambda>k. drop k s @ rest) ` {0..length s}"
    by (auto simp: star_tails_def image_iff)
  also have "\<dots> = {t @ rest | t. suffix t s}"
  proof
    show "(\<lambda>k. drop k s @ rest) ` {0..length s} \<subseteq> {t @ rest | t. suffix t s}"
      using suffix_drop by auto
    show "{t @ rest | t. suffix t s} \<subseteq> (\<lambda>k. drop k s @ rest) ` {0..length s}"
    proof
      fix x assume "x \<in> {t @ rest | t. suffix t s}"
      then obtain t u where "x = t @ rest" "s = u @ t" by (auto simp: suffix_def)
      then have "x = drop (length u) s @ rest" "length u \<le> length s" by simp_all
      then show "x \<in> (\<lambda>k. drop k s @ rest) ` {0..length s}" by auto
    qed
  qed
  finally show ?thesis .
qed

text \<open>A segment's tokens match one segment of the path, and leave the rest to the tokens after.\<close>

lemma seg_tokens_match:
  assumes "slash \<notin> set p" "slash \<notin> set s" "rest = [] \<or> hd rest = slash"
    and edge: "\<forall>v. rx_match ts v \<longrightarrow> v = [] \<or> hd v = slash"
  shows "rx_match (seg_tokens p @ ts) (s @ rest) \<longleftrightarrow> seg_glob p s \<and> rx_match ts rest"
  using assms(1,2)
proof (induction p arbitrary: s)
  case Nil
  have "rx_match ts (s @ rest) \<Longrightarrow> s = []" using edge Nil.prems(2) by (cases s) auto
  then show ?case by (auto simp: seg_tokens_def seg_glob_nil)
next
  case (Cons c p)
  have tok: "seg_tokens (c # p) @ ts = (if c = star then SegStar else Chr c) # seg_tokens p @ ts"
    by (simp add: seg_tokens_def)
  show ?case
  proof (cases "c = star")
    case True
    have "rx_match (seg_tokens p @ ts) (t @ rest) \<longleftrightarrow> seg_glob p t \<and> rx_match ts rest" if "suffix t s" for t
      using Cons that set_mono_suffix [OF that] by auto
    then show ?thesis
      unfolding tok using True star_tails_set [OF Cons.prems(2) assms(3)]
      by (auto simp: list_ex_iff seg_glob_cons suffix_def)
  next
    case False
    show ?thesis
    proof (cases s)
      case Nil
      then show ?thesis unfolding tok using False Cons.prems(1) assms(3) by (auto simp: seg_glob_cons)
    next
      case (Cons d s')
      then show ?thesis unfolding tok using False Cons.IH [of s'] Cons.prems by (auto simp: seg_glob_cons)
    qed
  qed
qed

lemma path_tokens_edge: "rx_match (path_tokens ps) v \<Longrightarrow> v = [] \<or> hd v = slash"
  by (induction ps rule: path_tokens.induct) (auto split: if_splits)

text \<open>The suffixes of a path that begin with a slash are the paths of its trailing segments.\<close>

lemma slash_suffix:
  assumes "\<forall>s \<in> set ss. slash \<notin> set s"
  shows "suffix (slash # u) (slashed ss) \<longleftrightarrow> (\<exists>s ss'. suffix (s # ss') ss \<and> u = s @ slashed ss')"
  using assms
proof (induction ss)
  case (Cons x xs)
  have "suffix (slash # u) (y @ slashed xs) \<longleftrightarrow> suffix (slash # u) (slashed xs)" if "slash \<notin> set y" for y
    using that by (induction y) (auto simp: suffix_Cons)
  then have "suffix (slash # u) (x @ slashed xs) \<longleftrightarrow> suffix (slash # u) (slashed xs)" using Cons.prems by simp
  then have "suffix (slash # u) (slashed (x # xs)) \<longleftrightarrow> u = x @ slashed xs \<or> suffix (slash # u) (slashed xs)"
    by (auto simp: suffix_Cons)
  also have "\<dots> \<longleftrightarrow> (\<exists>s ss'. suffix (s # ss') (x # xs) \<and> u = s @ slashed ss')"
    using Cons by (auto simp: suffix_Cons)
  finally show ?case .
qed simp

lemma dirs_match: "rx_match (Dirs # ts) (slash # r) \<longleftrightarrow> (\<exists>u. suffix (slash # u) (slash # r) \<and> rx_match ts u)"
proof
  assume "rx_match (Dirs # ts) (slash # r)"
  then consider "rx_match ts r" | t where "suffix t r" "t \<noteq> []" "hd t = slash" "rx_match ts (tl t)"
    by (auto simp: list_ex_iff in_tails)
  then show "\<exists>u. suffix (slash # u) (slash # r) \<and> rx_match ts u"
  proof cases
    case 1
    then show ?thesis by (intro exI [of _ r]) simp
  next
    case (2 t)
    then have "slash # tl t = t" by (cases t) simp_all
    with 2(1) have "suffix (slash # tl t) (slash # r)" by (simp add: suffix_Cons)
    then show ?thesis using 2(4) by blast
  qed
next
  assume "\<exists>u. suffix (slash # u) (slash # r) \<and> rx_match ts u"
  then obtain u where u: "u = r \<or> suffix (slash # u) r" "rx_match ts u" by (auto simp: suffix_Cons)
  then show "rx_match (Dirs # ts) (slash # r)" by (fastforce simp: list_ex_iff in_tails)
qed

lemma path_tokens_match:
  assumes "spaced ps" "\<forall>p \<in> set ps. plain_seg p" "\<forall>s \<in> set ss. slash \<notin> set s"
  shows "rx_match (path_tokens ps) (slashed ss) \<longleftrightarrow> path_glob ps ss"
  using assms
proof (induction ps arbitrary: ss rule: path_tokens.induct)
  case 1
  then show ?case by (cases ss) (auto simp: path_glob_nil)
next
  case (2 p)
  have "\<forall>v. rx_match [] v \<longrightarrow> v = [] \<or> hd v = slash" by simp
  note seg = seg_tokens_match [OF _ _ slashed_edge this]
  show ?case
  proof (cases ss)
    case Nil
    then show ?thesis using 2 by (auto simp: path_glob_cons)
  next
    case (Cons s ss')
    have "rx_match (seg_tokens p @ []) (s @ slashed ss') \<longleftrightarrow> seg_glob p s \<and> rx_match [] (slashed ss')"
      by (rule seg) (use 2 Cons in \<open>auto simp: plain_seg_def\<close>)
    then show ?thesis using 2 Cons by (cases ss') (auto simp: path_glob_cons path_glob_nil)
  qed
next
  case (3 p q ps)
  show ?case
  proof (cases "p = recursive")
    case True
    have q: "q \<noteq> recursive" "spaced ps" using "3.prems"(1) True by simp_all
    have edge: "\<forall>v. rx_match (path_tokens ps) v \<longrightarrow> v = [] \<or> hd v = slash" using path_tokens_edge by blast
    have seg: "rx_match (seg_tokens q @ path_tokens ps) (s @ slashed ss') \<longleftrightarrow> seg_glob q s \<and> path_glob ps ss'"
      if "suffix (s # ss') ss" for s ss'
    proof -
      have mem: "set (s # ss') \<subseteq> set ss" using set_mono_suffix [OF that] .
      have "rx_match (seg_tokens q @ path_tokens ps) (s @ slashed ss') \<longleftrightarrow> seg_glob q s \<and> rx_match (path_tokens ps) (slashed ss')"
        by (rule seg_tokens_match [OF _ _ slashed_edge edge]) (use "3.prems"(2,3) mem in \<open>auto simp: plain_seg_def\<close>)
      moreover have "rx_match (path_tokens ps) (slashed ss') \<longleftrightarrow> path_glob ps ss'"
        by (rule 3(1) [OF True q(2)]) (use "3.prems"(2,3) mem in auto)
      ultimately show ?thesis by simp
    qed
    have "rx_match (path_tokens (p # q # ps)) (slashed ss) \<longleftrightarrow>
        (\<exists>u. suffix (slash # u) (slashed ss) \<and> rx_match (seg_tokens q @ path_tokens ps) u)"
    proof (cases ss)
      case (Cons s ss')
      then show ?thesis using True dirs_match [of "seg_tokens q @ path_tokens ps" "s @ slashed ss'"] by simp
    qed (simp add: True)
    also have "\<dots> \<longleftrightarrow> (\<exists>s ss'. suffix (s # ss') ss \<and> seg_glob q s \<and> path_glob ps ss')"
      unfolding slash_suffix [OF "3.prems"(3)] using seg by (intro iffI; elim exE conjE) (auto intro!: exI)
    also have "\<dots> \<longleftrightarrow> path_glob (p # q # ps) ss"
      using True q(1) by (auto simp: path_glob_cons suffix_def)
    finally show ?thesis .
  next
    case False
    have sp: "spaced (q # ps)" using "3.prems"(1) False by simp
    have edge: "\<forall>v. rx_match (path_tokens (q # ps)) v \<longrightarrow> v = [] \<or> hd v = slash" using path_tokens_edge by blast
    show ?thesis
    proof (cases ss)
      case Nil
      then show ?thesis using False by (auto simp: path_glob_cons)
    next
      case (Cons s ss')
      have "rx_match (seg_tokens p @ path_tokens (q # ps)) (s @ slashed ss') \<longleftrightarrow>
          seg_glob p s \<and> rx_match (path_tokens (q # ps)) (slashed ss')"
        by (rule seg_tokens_match [OF _ _ slashed_edge edge]) (use "3.prems"(2,3) Cons in \<open>auto simp: plain_seg_def\<close>)
      moreover have "rx_match (path_tokens (q # ps)) (slashed ss') \<longleftrightarrow> path_glob (q # ps) ss'"
        by (rule 3(2) [OF False sp]) (use "3.prems"(2,3) Cons in auto)
      ultimately show ?thesis using False Cons by (auto simp: path_glob_cons [of p])
    qed
  qed
qed

section \<open>The expression of a pattern\<close>

definition seg_text :: "string \<Rightarrow> string" where
  "seg_text p = concat (map (\<lambda>c. if c = star then ''[^/]*'' else escape_char c) p)"

lemma seg_text_simps [simp]:
  "seg_text [] = []" "seg_text (c # p) = (if c = star then ''[^/]*'' else escape_char c) @ seg_text p"
  by (simp_all add: seg_text_def)

lemma escape_regex_simps [simp]: "escape_regex [] = []" "escape_regex (c # s) = escape_char c @ escape_regex s"
  by (simp_all add: escape_regex_def)

lemma segment_regex_text: "p \<noteq> recursive \<Longrightarrow> segment_regex p = seg_text p"
proof -
  have "join ''[^/]*'' (map escape_regex (split_on star q)) = seg_text q" for q
  proof (induction q)
    case (Cons c q)
    obtain y ys where s: "split_on star q = y # ys" by (cases "split_on star q") auto
    show ?case
    proof (cases "c = star")
      case True
      then show ?thesis using Cons s by (simp add: join_Cons)
    next
      case False
      have "join sep ((x @ y) # zs) = x @ join sep (y # zs)" for sep x y and zs :: "string list"
        by (cases zs) auto
      from this [of _ "escape_char c" "escape_regex y" "map escape_regex ys"] show ?thesis
        using Cons s False by simp
    qed
  qed simp
  then show "p \<noteq> recursive \<Longrightarrow> segment_regex p = seg_text p" by (simp add: segment_regex_def)
qed

lemma rx_tokens_Nil [simp]: "rx_tokens [] = []"
  by (simp add: rx_tokens.simps)

lemma escape_char_hd: "escape_char c \<noteq> [] \<and> hd (escape_char c) \<noteq> CHR ''(''"
  by (auto simp: escape_char_def regex_special_def)

lemma rx_tokens_escape: "c \<noteq> slash \<Longrightarrow> rx_tokens (escape_char c @ r) = Chr c # rx_tokens r"
  by (auto simp: escape_char_def regex_special_def rx_tokens.simps [of "c # r"] rx_tokens.simps [of "CHR 0x5C # c # r"])

lemma rx_tokens_star: "rx_tokens (''[^/]*'' @ r) = SegStar # rx_tokens r"
  by (simp add: rx_tokens.simps [of "CHR ''['' # _"])

lemma rx_tokens_slash: "r = [] \<or> hd r \<noteq> CHR ''('' \<Longrightarrow> rx_tokens (slash # r) = Chr slash # rx_tokens r"
  by (cases r) (simp_all add: rx_tokens.simps [of "slash # _"])

lemma rx_tokens_dirs: "rx_tokens (''(/.*)?/'' @ r) = Dirs # rx_tokens r" "rx_tokens (''/(.*/)?'' @ r) = Dirs # rx_tokens r"
  by (simp_all add: rx_tokens.simps [of "CHR ''('' # _"] rx_tokens.simps [of "slash # _"])

lemma rx_tokens_seg: "slash \<notin> set p \<Longrightarrow> rx_tokens (seg_text p @ r) = seg_tokens p @ rx_tokens r"
proof (induction p)
  case (Cons c p)
  then show ?case
    using rx_tokens_escape [of c "seg_text p @ r"] rx_tokens_star [of "seg_text p @ r"]
    by (auto simp: seg_tokens_def)
qed (simp add: seg_tokens_def)

lemma seg_text_hd: "p \<noteq> [] \<Longrightarrow> seg_text p \<noteq> [] \<and> hd (seg_text p) \<noteq> CHR ''('' \<and>
    (CHR 0x00 \<notin> set p \<longrightarrow> hd (seg_text p) \<noteq> CHR 0x00)"
  by (cases p) (auto simp: escape_char_def regex_special_def)

fun path_text :: "string list \<Rightarrow> string" where
  "path_text [] = []"
| "path_text [p] = slash # seg_text p"
| "path_text (p # q # ps) =
     (if p = recursive then ''(/.*)?/'' @ seg_text q @ path_text ps
      else slash # seg_text p @ path_text (q # ps))"

definition lead_text :: "string list \<Rightarrow> string" where
  "lead_text ps = (if ps \<noteq> [] \<and> hd ps = recursive then ''/(.*/)?'' @ drop 7 (path_text ps) else path_text ps)"

lemma path_text_tokens: "\<forall>p \<in> set ps. plain_seg p \<Longrightarrow> rx_tokens (path_text ps) = path_tokens ps"
proof (induction ps rule: path_text.induct)
  case (2 p)
  have "rx_tokens (slash # seg_text p @ []) = Chr slash # rx_tokens (seg_text p @ [])"
    by (rule rx_tokens_slash) (use 2 seg_text_hd [of p] in \<open>auto simp: plain_seg_def\<close>)
  then show ?case using 2 rx_tokens_seg [of p "[]"] by (simp add: plain_seg_def)
next
  case (3 p q ps)
  show ?case
  proof (cases "p = recursive")
    case True
    then show ?thesis
      using 3 rx_tokens_dirs(1) [of "seg_text q @ path_text ps"] rx_tokens_seg [of q "path_text ps"]
      by (simp add: plain_seg_def)
  next
    case False
    have "rx_tokens (slash # seg_text p @ path_text (q # ps)) = Chr slash # rx_tokens (seg_text p @ path_text (q # ps))"
      by (rule rx_tokens_slash) (use 3 seg_text_hd [of p] in \<open>auto simp: plain_seg_def\<close>)
    then show ?thesis using 3 False rx_tokens_seg [of p "path_text (q # ps)"] by (simp add: plain_seg_def)
  qed
qed simp

lemma lead_text_tokens:
  assumes "\<forall>p \<in> set ps. plain_seg p" "spaced ps"
  shows "rx_tokens (lead_text ps) = path_tokens ps"
proof (cases "ps \<noteq> [] \<and> hd ps = recursive")
  case True
  then obtain q qs where ps: "ps = recursive # q # qs" using assms(2) by (cases ps rule: spaced.cases) auto
  have "rx_tokens (''/(.*/)?'' @ seg_text q @ path_text qs) = Dirs # rx_tokens (seg_text q @ path_text qs)"
    by (rule rx_tokens_dirs(2))
  then show ?thesis
    using assms(1) rx_tokens_seg [of q "path_text qs"] path_text_tokens [of qs]
    by (simp add: ps lead_text_def plain_seg_def)
qed (use path_text_tokens [OF assms(1)] in \<open>auto simp: lead_text_def\<close>)

text \<open>The replacement, piece by piece.\<close>

lemma replace_Nil [simp]: "replace_recurse [] = []"
  by (simp add: replace_recurse.simps)

lemma replace_char: "c \<noteq> slash \<Longrightarrow> c \<noteq> CHR 0x00 \<Longrightarrow> replace_recurse (c # s) = c # replace_recurse s"
  by (simp add: replace_recurse.simps [of "c # s"] recurse_mark_def)

lemma replace_slash: "s = [] \<or> hd s \<noteq> CHR 0x00 \<Longrightarrow> replace_recurse (slash # s) = slash # replace_recurse s"
  by (cases s) (simp_all add: replace_recurse.simps [of "slash # _"] recurse_mark_def)

lemma replace_mark:
  "replace_recurse (''/'' @ recurse_mark @ ''/'' @ s) = ''(/.*)?/'' @ replace_recurse s"
  "replace_recurse (recurse_mark @ ''/'' @ s) = ''(/.*)?/'' @ replace_recurse s"
  by (simp_all add: replace_recurse.simps [of "slash # _"] replace_recurse.simps [of "CHR 0x00 # _"] recurse_mark_def)

lemma replace_seg: "slash \<notin> set p \<Longrightarrow> CHR 0x00 \<notin> set p \<Longrightarrow> replace_recurse (seg_text p @ s) = seg_text p @ replace_recurse s"
proof (induction p)
  case (Cons c p)
  have "replace_recurse (''[^/]*'' @ t) = ''[^/]*'' @ replace_recurse t" for t
    using replace_slash [of "CHR '']'' # CHR ''*'' # t"] by (simp add: replace_char)
  moreover have "replace_recurse (escape_char c @ t) = escape_char c @ replace_recurse t" for t
    using Cons.prems replace_char [of c] by (auto simp: escape_char_def replace_char [of "CHR 0x5C"])
  ultimately show ?case using Cons by simp
qed simp

abbreviation joined :: "string list \<Rightarrow> string" where
  "joined ps \<equiv> join ''/'' (map segment_regex ps)"

lemma joined_Cons: "ps \<noteq> [] \<Longrightarrow> joined (p # ps) = segment_regex p @ slash # joined ps"
  by (simp add: join_Cons)

lemma replace_joined:
  "spaced ps \<Longrightarrow> \<forall>p \<in> set ps. plain_seg p \<Longrightarrow> ps \<noteq> [] \<Longrightarrow> replace_recurse (slash # joined ps) = path_text ps"
proof (induction ps rule: path_text.induct)
  case (2 p)
  have "replace_recurse (slash # seg_text p) = slash # replace_recurse (seg_text p @ [])"
    using replace_slash [of "seg_text p"] seg_text_hd [of p] 2 by (auto simp: plain_seg_def)
  then show ?case using 2 replace_seg [of p "[]"] by (simp add: segment_regex_text plain_seg_def)
next
  case (3 p q ps)
  have tail: "replace_recurse (seg_text q @ (if ps = [] then [] else slash # joined ps)) = seg_text q @ path_text ps"
    if "p = recursive"
    using that 3(1) "3.prems" replace_seg [of q] replace_seg [of q "[]"] by (cases "ps = []") (auto simp: plain_seg_def)
  have q: "joined (q # ps) = segment_regex q @ (if ps = [] then [] else slash # joined ps)"
    by (cases "ps = []") (simp_all add: join_Cons)
  show ?case
  proof (cases "p = recursive")
    case True
    have sq: "segment_regex p = recurse_mark" "segment_regex q = seg_text q"
      using True "3.prems"(1) by (simp_all add: segment_regex_text) (simp add: segment_regex_def)
    have "slash # joined (p # q # ps) = ''/'' @ recurse_mark @ ''/'' @ joined (q # ps)"
      using joined_Cons [of "q # ps" p] sq(1) by simp
    then have "slash # joined (p # q # ps) = ''/'' @ recurse_mark @ ''/'' @ seg_text q @ (if ps = [] then [] else slash # joined ps)"
      unfolding q sq(2) .
    then show ?thesis using replace_mark(1) [of "seg_text q @ (if ps = [] then [] else slash # joined ps)"] tail [OF True] True
      by (simp only: path_text.simps refl if_True)
  next
    case False
    have "replace_recurse (slash # seg_text p @ slash # joined (q # ps)) = slash # seg_text p @ replace_recurse (slash # joined (q # ps))"
      using replace_slash [of "seg_text p @ _"] seg_text_hd [of p] replace_seg [of p] "3.prems"(2) by (auto simp: plain_seg_def)
    then show ?thesis using 3(2) [OF False] "3.prems" False
      by (simp add: joined_Cons [of "q # ps"] segment_regex_text del: list.map)
  qed
qed simp

text \<open>The patterns the compiler turns into expressions: anchored nowhere, their text what their
  segments say, the recursive segments apart and not at the end.\<close>

definition regex_pattern :: "path_pattern \<Rightarrow> bool" where
  "regex_pattern pat =
     (let ps = pp_segments pat
      in \<not> pp_home_anchored pat \<and> ps \<noteq> [] \<and> spaced ps \<and> list_all plain_seg ps \<and>
         pp_raw pat = (if hd ps = recursive then join ''/'' ps else slash # join ''/'' ps))"

lemma pattern_to_regex_text:
  assumes "regex_pattern pat"
  shows "pattern_to_regex (pp_raw pat) home within =
    ''^'' @ (case within of None \<Rightarrow> [] | Some w \<Rightarrow> escape_regex (ap_value w)) @ lead_text (pp_segments pat) @ ''$''"
proof -
  let ?ps = "pp_segments pat"
  have ne: "?ps \<noteq> []" and sp: "spaced ?ps" and plain: "\<forall>p \<in> set ?ps. plain_seg p"
    and raw: "pp_raw pat = (if hd ?ps = recursive then join ''/'' ?ps else slash # join ''/'' ?ps)"
    using assms by (simp_all add: regex_pattern_def Let_def list_all_iff)
  have split: "split_on slash (join ''/'' ?ps) = ?ps"
    using split_join [OF ne, of slash] plain by (auto simp: plain_seg_def)
  have home: "\<not> starts_with (pp_raw pat) ''~/''"
  proof (cases "hd ?ps = recursive")
    case True
    then have "hd (join ''/'' ?ps) = star" using ne hd_join [of "hd ?ps" "''/''" "tl ?ps"] by (cases ?ps) auto
    then show ?thesis using raw True by (cases "join ''/'' ?ps") auto
  qed (simp add: raw)
  have empty: "segment_regex [] = []" by (simp add: segment_regex_def)
  have body: "replace_recurse (join ''/'' (map segment_regex (split_on slash (pp_raw pat)))) = path_text ?ps"
  proof (cases "hd ?ps = recursive")
    case True
    then obtain q qs where ps: "?ps = recursive # q # qs" using sp ne by (cases ?ps rule: spaced.cases) auto
    have j: "joined (q # qs) = seg_text q @ (if qs = [] then [] else slash # joined qs)"
      using sp ps segment_regex_text [of q] joined_Cons [of qs q] by (cases "qs = []") simp_all
    have m: "joined ?ps = recurse_mark @ ''/'' @ joined (q # qs)"
      using joined_Cons [of "q # qs" recursive] by (simp add: ps) (simp add: segment_regex_def)
    have "replace_recurse (seg_text q @ (if qs = [] then [] else slash # joined qs)) = seg_text q @ path_text qs"
      using replace_joined [of qs] replace_seg [of q] replace_seg [of q "[]"] sp plain ps
      by (cases "qs = []") (auto simp: plain_seg_def)
    then have "replace_recurse (joined ?ps) = ''(/.*)?/'' @ seg_text q @ path_text qs"
      unfolding m j replace_mark(2) by (simp only:)
    then show ?thesis using raw True split ps by simp
  next
    case False
    then have "split_on slash (pp_raw pat) = [] # ?ps" using raw split by simp
    moreover have "join ''/'' ([] # map segment_regex ?ps) = slash # joined ?ps" using ne by (simp add: join_Cons)
    ultimately show ?thesis using replace_joined [OF sp plain ne] by (simp add: empty)
  qed
  have "(if starts_with (path_text ?ps) ''(/.*)?/'' then ''/(.*/)?'' @ drop 7 (path_text ?ps) else path_text ?ps) = lead_text ?ps"
  proof (cases ?ps rule: path_text.cases)
    case (3 p q qs)
    then show ?thesis by (auto simp: lead_text_def)
  qed (use sp in \<open>auto simp: lead_text_def\<close>)
  then show ?thesis using home by (simp only: pattern_to_regex_def Let_def body if_False)
qed

lemma lead_text_hd: "ps \<noteq> [] \<Longrightarrow> spaced ps \<Longrightarrow> lead_text ps \<noteq> [] \<and> hd (lead_text ps) = slash"
  by (cases ps rule: path_text.cases) (auto simp: lead_text_def)

lemma rx_tokens_prefix:
  "r \<noteq> [] \<Longrightarrow> hd r = slash \<Longrightarrow> rx_tokens (escape_regex w @ r) = map Chr w @ rx_tokens r"
proof (induction w)
  case (Cons c w)
  show ?case
  proof (cases "c = slash")
    case True
    have "hd (escape_regex w @ r) \<noteq> CHR ''(''"
      using Cons.prems escape_char_hd by (cases w) auto
    then show ?thesis using Cons True rx_tokens_slash [of "escape_regex w @ r"]
      by (simp add: escape_char_def regex_special_def)
  next
    case False
    then show ?thesis using Cons rx_tokens_escape [of c "escape_regex w @ r"] by simp
  qed
qed simp

lemma rx_match_literal: "rx_match (map Chr w @ ts) v \<longleftrightarrow> (\<exists>t. v = w @ t \<and> rx_match ts t)"
proof (induction w arbitrary: v)
  case (Cons c w)
  then show ?case by (cases v) auto
qed simp

lemma regex_of_pattern:
  assumes "regex_pattern pat"
  shows "regex_matches (pattern_to_regex (pp_raw pat) home within) v \<longleftrightarrow>
    (\<exists>t. v = (case within of None \<Rightarrow> [] | Some w \<Rightarrow> ap_value w) @ t \<and> rx_match (path_tokens (pp_segments pat)) t)"
proof -
  let ?ps = "pp_segments pat" and ?w = "case within of None \<Rightarrow> [] | Some w \<Rightarrow> ap_value w"
  have ok: "?ps \<noteq> []" "spaced ?ps" "\<forall>p \<in> set ?ps. plain_seg p"
    using assms by (simp_all add: regex_pattern_def Let_def list_all_iff)
  have "pattern_to_regex (pp_raw pat) home within = CHR ''^'' # (escape_regex ?w @ lead_text ?ps) @ ''$''"
    using pattern_to_regex_text [OF assms] by (cases within) simp_all
  then have "regex_matches (pattern_to_regex (pp_raw pat) home within) v \<longleftrightarrow>
      rx_match (rx_tokens (escape_regex ?w @ lead_text ?ps)) v"
    by (simp add: regex_matches_def butlast_append)
  also have "rx_tokens (escape_regex ?w @ lead_text ?ps) = map Chr ?w @ path_tokens ?ps"
    using rx_tokens_prefix [of "lead_text ?ps" ?w] lead_text_hd [OF ok(1,2)] lead_text_tokens [OF ok(3,2)] by simp
  finally show ?thesis by (simp add: rx_match_literal)
qed

lemma posix_value:
  assumes "posix_path_ok p" "segments p \<noteq> []"
  shows "ap_value p = slashed (segments p) \<and> (\<forall>s \<in> set (segments p). slash \<notin> set s)"
proof -
  obtain ss where ss: "p = mk_posix ss" "\<forall>s \<in> set ss. seg_ok s"
    using assms(1) wf_posix_E by (auto simp: posix_path_ok_def)
  then have "segments p = ss" by simp
  then show ?thesis using assms(2) ss posix_path_slashed [of ss] by (auto simp: mk_posix_def dest: seg_ok_D)
qed

text \<open>The expression written for a pattern matches exactly the paths the domain's matcher accepts.\<close>

lemma regex_exact:
  assumes "regex_pattern pat" "posix_path_ok p" "segments p \<noteq> []"
  shows "regex_matches (pattern_to_regex (pp_raw pat) home None) (ap_value p) \<longleftrightarrow> pattern_matches pat p home'"
proof -
  have ok: "spaced (pp_segments pat)" "\<forall>s \<in> set (pp_segments pat). plain_seg s" "\<not> pp_home_anchored pat"
    using assms(1) by (simp_all add: regex_pattern_def Let_def list_all_iff)
  have "regex_matches (pattern_to_regex (pp_raw pat) home None) (ap_value p) \<longleftrightarrow>
      rx_match (path_tokens (pp_segments pat)) (slashed (segments p))"
    using regex_of_pattern [OF assms(1)] posix_value [OF assms(2,3)] by simp
  also have "\<dots> \<longleftrightarrow> path_glob (pp_segments pat) (segments p)"
    by (rule path_tokens_match [OF ok(1,2)]) (use posix_value [OF assms(2,3)] in blast)
  finally show ?thesis using ok(3) by (simp add: pattern_matches_def match_segments_glob)
qed

text \<open>With the workspace in front it matches nothing else than paths in the workspace, and, when
  the pattern begins with a recursive segment, only what the pattern matches.\<close>

lemma regex_within:
  assumes "regex_pattern pat" "hd (pp_segments pat) = recursive" "posix_path_ok p" "posix_path_ok w"
    and "segments w \<noteq> []" "regex_matches (pattern_to_regex (pp_raw pat) home (Some w)) (ap_value p)"
  shows "contains w p \<and> pattern_matches pat p home'"
proof -
  have ok: "spaced (pp_segments pat)" "\<forall>s \<in> set (pp_segments pat). plain_seg s" "\<not> pp_home_anchored pat" "pp_segments pat \<noteq> []"
    using assms(1) by (simp_all add: regex_pattern_def Let_def list_all_iff)
  obtain t where t: "ap_value p = ap_value w @ t" "rx_match (path_tokens (pp_segments pat)) t"
    using regex_of_pattern [OF assms(1)] assms(6) by auto
  have edge: "t = [] \<or> hd t = slash" using path_tokens_edge [OF t(2)] .
  have "at_or_below (ap_value w) (ap_value p)" using t(1) edge by (cases t) (auto simp: at_or_below_def)
  then have wp: "contains w p" using contains_over assms(3,4) by blast
  then obtain rest where rest: "segments p = segments w @ rest"
    using contains_iff [of w p] assms(3,4) by (auto simp: posix_path_ok_def prefix_def)
  have p: "ap_value p = slashed (segments p)" "\<forall>s \<in> set (segments p). slash \<notin> set s"
    using posix_value [OF assms(3)] rest assms(5) by auto
  have "ap_value w = slashed (segments w)" using posix_value [OF assms(4,5)] by blast
  then have "t = slashed rest" using t(1) p(1) rest by (simp add: slashed_append)
  then have "path_glob (pp_segments pat) rest"
    using t(2) path_tokens_match [OF ok(1,2), of rest] p(2) rest by auto
  moreover obtain ps where ps: "pp_segments pat = recursive # ps" using assms(2) ok(4) by (cases "pp_segments pat") auto
  ultimately have "path_glob (pp_segments pat) (segments p)"
    using rest by (auto simp: path_glob_cons) (metis append.assoc)
  then show ?thesis using wp ok(3) by (simp add: pattern_matches_def match_segments_glob)
qed

section \<open>What a profile allows\<close>

definition filter_matches :: "sb_filter \<Rightarrow> string \<Rightarrow> bool" where
  "filter_matches f v =
     (case f of
        Everything \<Rightarrow> True
      | Subpath t \<Rightarrow> at_or_below t v
      | Literal t \<Rightarrow> v = t
      | Regex r \<Rightarrow> regex_matches r v)"

definition decides :: "access \<Rightarrow> string \<Rightarrow> sb_line \<Rightarrow> bool" where
  "decides a v l = (case l of Note _ \<Rightarrow> False | Rule _ b f _ \<Rightarrow> b = a \<and> filter_matches f v)"

definition line_allows :: "sb_line \<Rightarrow> bool" where
  "line_allows l = (case l of Note _ \<Rightarrow> False | Rule allow _ _ _ \<Rightarrow> allow)"

definition profile_allows :: "sb_line list \<Rightarrow> access \<Rightarrow> string \<Rightarrow> bool" where
  "profile_allows ls a v = (case find (decides a v) (rev ls) of None \<Rightarrow> False | Some l \<Rightarrow> line_allows l)"

lemma profile_allows_append:
  "profile_allows (xs @ ys) a v =
     (if \<exists>l \<in> set ys. decides a v l then profile_allows ys a v else profile_allows xs a v)"
  using find_miss [of "decides a v" "rev ys"]
  by (cases "find (decides a v) (rev ys)") (auto simp: profile_allows_def find_append)

lemma profile_allows_hit:
  assumes "profile_allows ls a v" obtains l where "l \<in> set ls" "decides a v l" "line_allows l"
proof -
  obtain l where l: "find (decides a v) (rev ls) = Some l" "line_allows l"
    using assms by (auto simp: profile_allows_def split: option.splits)
  then show ?thesis using that [of l] find_hit [OF l(1)] by simp
qed

definition reopened :: "sandbox_policy \<Rightarrow> access \<Rightarrow> abs_path \<Rightarrow> path_context \<Rightarrow> bool" where
  "reopened pol a p ctx =
     list_ex (\<lambda>d. dn_access d = a \<and> (case dn_except d of None \<Rightarrow> False | Some w \<Rightarrow> contains w p) \<and>
       pattern_matches (dn_pattern d) p (ctx_home ctx)) (po_denies pol)"

text \<open>Refusals whose expressions are among those above.\<close>

definition expressible :: "path_context \<Rightarrow> deny_rule \<Rightarrow> bool" where
  "expressible ctx d =
     (deny_ok d \<and>
      (literal_prefix (dn_pattern d) (ctx_home ctx) = Inr None \<or> index_of ''**/'' (pp_raw (dn_pattern d)) \<noteq> None \<or>
       dn_except d \<noteq> None \<longrightarrow> regex_pattern (dn_pattern d)) \<and>
      (case dn_except d of None \<Rightarrow> True | Some w \<Rightarrow> hd (pp_segments (dn_pattern d)) = recursive \<and> segments w \<noteq> []))"

lemma sb_quote_value: "sb_quote p = Inr v \<Longrightarrow> v = ap_value p"
  by (auto simp: sb_quote_def Let_def split: if_splits)

lemma ref_filter_covers:
  assumes "ref_filter r = Inr f" "posix_path_ok (rr_path r)" "posix_path_ok p"
  shows "filter_matches f (ap_value p) \<longleftrightarrow> ref_covers r p"
  using assms sb_quote_value [of "rr_path r"]
  by (cases "sb_quote (rr_path r)")
     (auto simp: ref_filter_def filter_matches_def ref_covers_def contains_over path_eq_def posix_path_ok_def)

lemma allow_line_decides:
  assumes "allow_line b r = Inr l" "posix_path_ok (rr_path r)" "posix_path_ok p"
  shows "decides a (ap_value p) l \<longleftrightarrow> a = b \<and> ref_covers r p"
  using assms ref_filter_covers [OF _ assms(2,3)]
  by (cases "ref_filter r") (auto simp: allow_line_def decides_def)

lemma override_line_decides:
  assumes "override_line ov = Inr l" "posix_path_ok (rr_path (ov_ref ov))" "posix_path_ok p"
  shows "decides a (ap_value p) l \<longleftrightarrow> a = ov_access ov \<and> ref_covers (ov_ref ov) p"
  using assms ref_filter_covers [OF _ assms(2,3)]
  by (cases "ref_filter (ov_ref ov)") (auto simp: override_line_def decides_def)

lemma deny_line_decides:
  assumes "ctx_ok ctx" "deny_lines ctx d = Inr ls" "expressible ctx d" "posix_path_ok p" "segments p \<noteq> []"
    and "deny_matches d p (ctx_home ctx)"
  shows "\<exists>l \<in> set ls. decides (dn_access d) (ap_value p) l"
proof -
  let ?pat = "dn_pattern d"
  have ok: "deny_ok d" "pattern_ok ?pat" using assms(3) by (simp_all add: expressible_def deny_ok_def)
  have m: "pattern_matches ?pat p (ctx_home ctx)" using assms(6) by (simp add: deny_matches_def split: if_splits)
  obtain f where f: "deny_filter d ctx = Inr f"
    and l: "Rule False (dn_access d) f (Some (sb_comment (dn_source d))) \<in> set ls"
    using assms(2) by (cases "deny_filter d ctx") (auto simp: deny_lines_def)
  obtain anchor where anchor: "literal_prefix ?pat (ctx_home ctx) = Inr anchor"
    using f by (cases "literal_prefix ?pat (ctx_home ctx)") (auto simp: deny_filter_def)
  have regex: "filter_matches (Regex (pattern_to_regex (pp_raw ?pat) (ctx_home ctx) None)) (ap_value p)" if "regex_pattern ?pat"
    using regex_exact [OF that assms(4,5), of "ctx_home ctx" "ctx_home ctx"] m by (simp add: filter_matches_def)
  have "filter_matches f (ap_value p)"
  proof (cases "anchor = None \<or> index_of ''**/'' (pp_raw ?pat) \<noteq> None")
    case True
    then have "regex_pattern ?pat" using assms(3) anchor by (auto simp: expressible_def)
    moreover have "f = Regex (pattern_to_regex (pp_raw ?pat) (ctx_home ctx) None)"
      using True f anchor by (auto simp: deny_filter_def split: option.splits)
    ultimately show ?thesis using regex by simp
  next
    case False
    then obtain x where x: "anchor = Some x" by auto
    have xok: "posix_path_ok x" using literal_prefix_posix [OF assms(1) ok(2)] anchor x by simp
    have "f = Subpath (ap_value x)"
      using False f anchor x sb_quote_value [of x] by (cases "sb_quote x") (auto simp: deny_filter_def)
    moreover have "contains x p"
      using anchor_contains [of "ctx_home ctx" ?pat p x] assms(1,4) ok(2) anchor x m by (simp add: ctx_ok_def posix_path_ok_def)
    ultimately show ?thesis using contains_over [OF xok assms(4)] by (simp add: filter_matches_def)
  qed
  then show ?thesis using l by (intro bexI [OF _ l]) (simp add: decides_def)
qed

lemma deny_lines_allow:
  assumes "deny_lines ctx d = Inr ls" "expressible ctx d" "posix_path_ok p"
    and "l \<in> set ls" "decides a (ap_value p) l" "line_allows l"
  shows "dn_access d = a \<and> (\<exists>w. dn_except d = Some w \<and> contains w p) \<and> pattern_matches (dn_pattern d) p (ctx_home ctx)"
proof -
  obtain w where w: "dn_except d = Some w" "dn_access d = a"
    "regex_matches (pattern_to_regex (pp_raw (dn_pattern d)) (ctx_home ctx) (Some w)) (ap_value p)"
    using assms(1,4-6)
    by (cases "deny_filter d ctx") (auto simp: deny_lines_def decides_def line_allows_def filter_matches_def split: option.splits)
  have "regex_pattern (dn_pattern d)" "hd (pp_segments (dn_pattern d)) = recursive" "segments w \<noteq> []" "posix_path_ok w"
    using assms(2) w(1) by (auto simp: expressible_def deny_ok_def)
  from regex_within [OF this(1,2) assms(3) this(4,3) w(3)] w(1,2) show ?thesis by blast
qed

text \<open>The lines in the order of their authority.\<close>

lemma compile_lines_parts:
  assumes "compile_lines pol ctx = Inr ls"
  obtains home reads writes denies overrides where "home_lines ctx = Inr home"
    "traverse (allow_line Read) (po_reads pol) = Inr reads" "traverse (allow_line Write) (po_writes pol) = Inr writes"
    "traverse (deny_lines ctx) (po_denies pol) = Inr denies" "traverse override_line (po_overrides pol) = Inr overrides"
    "\<forall>a v. profile_allows ls a v = profile_allows ((((preamble @ home) @ reads @ writes) @ concat denies) @ overrides) a v"
proof -
  obtain home reads writes denies overrides where p: "home_lines ctx = Inr home"
    "traverse (allow_line Read) (po_reads pol) = Inr reads" "traverse (allow_line Write) (po_writes pol) = Inr writes"
    "traverse (deny_lines ctx) (po_denies pol) = Inr denies" "traverse override_line (po_overrides pol) = Inr overrides"
    and ls: "ls = preamble @ home @
         [Note [], Note '';; --- what this workspace opened ---------------------------------------''] @ reads @ writes @
         (if length (po_denies pol) > 0
          then [Note [], Note '';; --- refusals, which outrank every allow above -------------------------''] @ concat denies
          else []) @
         (if length (po_overrides pol) > 0
          then [Note [], Note '';; --- hand-written grants, which outrank the refusals above -------------''] @ overrides
          else []) @
         [Note []] @ network_lines (po_enforcement pol)"
    using assms unfolding compile_lines_def by (auto simp: rbind_eq_Inr)
  have len: "po_denies pol = [] \<Longrightarrow> denies = []" "po_overrides pol = [] \<Longrightarrow> overrides = []" using p(4,5) by auto
  have net: "filter (\<lambda>l. l \<notin> range Note) (network_lines e) = []" for e
    by (auto simp: network_lines_def filter_empty_conv split: network_enforcement.splits broker_transport.splits)
  have skip: "find (decides a v) xs = find (decides a v) (filter (\<lambda>l. l \<notin> range Note) xs)" for a v xs
    by (induction xs) (auto simp: decides_def split: sb_line.splits)
  let ?rules = "(((preamble @ home) @ reads @ writes) @ concat denies) @ overrides"
  have "filter (\<lambda>l. l \<notin> range Note) ls = filter (\<lambda>l. l \<notin> range Note) ?rules"
    using len net by (auto simp: ls)
  then have "profile_allows ls a v = profile_allows ?rules a v" for a v
    using skip [of a v "rev ls"] skip [of a v "rev ?rules"]
    by (simp only: profile_allows_def rev_filter [symmetric])
  then show ?thesis using that p by blast
qed

lemma preamble_allows:
  assumes "profile_allows (preamble @ home) a v" "home_lines ctx = Inr home"
  shows "(a = Write \<and> at_or_below ''/dev'' v) \<or>
    (a = Read \<and> (\<exists>up. parent (ctx_home ctx) = Inr up \<and> \<not> at_or_below (ap_value up) v))"
proof -
  obtain up where up: "parent (ctx_home ctx) = Inr up"
    and home: "home = [Rule False Read (Subpath (ap_value up)) None, Rule False Read (Subpath (ap_value (ctx_home ctx))) None]"
    using assms(2) sb_quote_value
    by (cases "parent (ctx_home ctx)"; cases "sb_quote (projr (parent (ctx_home ctx)))"; cases "sb_quote (ctx_home ctx)")
       (auto simp: home_lines_def)
  show ?thesis
  proof (cases "\<exists>l \<in> set home. decides a v l")
    case True
    then have "profile_allows home a v" using assms(1) by (simp add: profile_allows_append)
    then obtain l where "l \<in> set home" "line_allows l" by (rule profile_allows_hit)
    then show ?thesis by (auto simp: home line_allows_def)
  next
    case False
    then have "profile_allows preamble a v" using assms(1) by (simp add: profile_allows_append)
    then obtain l where "l \<in> set preamble" "decides a v l" by (rule profile_allows_hit)
    then have "(a = Write \<and> at_or_below ''/dev'' v) \<or> a = Read"
      by (auto simp: preamble_def decides_def filter_matches_def)
    moreover have "a = Read \<Longrightarrow> \<not> at_or_below (ap_value up) v"
      using False by (auto simp: home decides_def filter_matches_def)
    ultimately show ?thesis using up by auto
  qed
qed

lemma profile_allows_only:
  assumes ctx: "ctx_ok ctx" and pol: "posix_refs pol" "list_all (expressible ctx) (po_denies pol)"
    and p: "posix_path_ok p" "segments p \<noteq> []" and c: "compile_lines pol ctx = Inr ls"
    and allowed: "profile_allows ls a (ap_value p)"
  shows "policy_allows pol a p ctx \<or> reopened pol a p ctx \<or>
    \<not> is_denied pol a p ctx \<and>
      ((a = Write \<and> at_or_below ''/dev'' (ap_value p)) \<or>
       (a = Read \<and> (\<exists>up. parent (ctx_home ctx) = Inr up \<and> \<not> at_or_below (ap_value up) (ap_value p))))"
proof -
  let ?v = "ap_value p"
  obtain home reads writes denies overrides where parts: "home_lines ctx = Inr home"
    "traverse (allow_line Read) (po_reads pol) = Inr reads" "traverse (allow_line Write) (po_writes pol) = Inr writes"
    "traverse (deny_lines ctx) (po_denies pol) = Inr denies" "traverse override_line (po_overrides pol) = Inr overrides"
    and all: "\<forall>a v. profile_allows ls a v = profile_allows ((((preamble @ home) @ reads @ writes) @ concat denies) @ overrides) a v"
    by (rule compile_lines_parts [OF c])
  note same = all [rule_format, of a ?v]
  have refs: "posix_path_ok (rr_path r)" if "r \<in> set (po_reads pol) \<or> r \<in> set (po_writes pol) \<or> r \<in> ov_ref ` set (po_overrides pol)" for r
    using pol(1) that by (auto simp: posix_refs_def list_all_iff)
  have denied_hit: "\<exists>l \<in> set (concat denies). decides a ?v l" if "is_denied pol a p ctx"
  proof -
    obtain d where d: "d \<in> set (po_denies pol)" "dn_access d = a" "deny_matches d p (ctx_home ctx)"
      using \<open>is_denied pol a p ctx\<close> by (auto simp: is_denied_def list_ex_iff)
    obtain dl where dl: "deny_lines ctx d = Inr dl" "dl \<in> set denies" using traverse_member [OF parts(4) d(1)] by blast
    have "expressible ctx d" using pol(2) d(1) by (simp add: list_all_iff)
    from deny_line_decides [OF ctx dl(1) this p d(3)] show ?thesis using dl(2) d(2) by auto
  qed
  show ?thesis
  proof (cases "\<exists>l \<in> set overrides. decides a ?v l")
    case True
    then obtain l where l: "l \<in> set overrides" "decides a ?v l" by blast
    obtain ov where ov: "ov \<in> set (po_overrides pol)" "override_line ov = Inr l" using traverse_set [OF parts(5) l(1)] by blast
    have "a = ov_access ov \<and> ref_covers (ov_ref ov) p"
      using override_line_decides [OF ov(2) _ p(1)] refs ov(1) l(2) by blast
    then show ?thesis using ov(1) by (auto simp: policy_allows_def is_overridden_def list_ex_iff)
  next
    case no_ov: False
    show ?thesis
    proof (cases "\<exists>l \<in> set (concat denies). decides a ?v l")
      case True
      then have "profile_allows (concat denies) a ?v"
        using allowed no_ov unfolding same profile_allows_append [of _ overrides] profile_allows_append [of _ "concat denies"]
        by (simp only: if_True if_False)
      then obtain l where l: "l \<in> set (concat denies)" "decides a ?v l" "line_allows l" by (rule profile_allows_hit)
      then obtain dl where dl: "dl \<in> set denies" "l \<in> set dl" by auto
      obtain d where d: "d \<in> set (po_denies pol)" "deny_lines ctx d = Inr dl" using traverse_set [OF parts(4) dl(1)] by blast
      have "expressible ctx d" using pol(2) d(1) by (simp add: list_all_iff)
      from deny_lines_allow [OF d(2) this p(1) dl(2) l(2,3)] d(1) show ?thesis
        by (auto simp: reopened_def list_ex_iff)
    next
      case no_deny: False
      then have nd: "\<not> is_denied pol a p ctx" using denied_hit by blast
      have rest: "profile_allows ((preamble @ home) @ reads @ writes) a ?v"
        using allowed no_ov no_deny unfolding same profile_allows_append [of _ overrides] profile_allows_append [of _ "concat denies"]
        by (simp only: if_False)
      show ?thesis
      proof (cases "\<exists>l \<in> set (reads @ writes). decides a ?v l")
        case True
        then obtain l where l: "l \<in> set (reads @ writes)" "decides a ?v l" by blast
        have "\<exists>r \<in> set (allows_ref pol a). ref_covers r p"
        proof (cases "l \<in> set reads")
          case True
          then obtain r where r: "r \<in> set (po_reads pol)" "allow_line Read r = Inr l" using traverse_set [OF parts(2)] by blast
          then show ?thesis using allow_line_decides [OF r(2) _ p(1)] refs l(2) by (auto simp: allows_ref_def)
        next
          case False
          then obtain r where r: "r \<in> set (po_writes pol)" "allow_line Write r = Inr l"
            using traverse_set [OF parts(3)] l(1) by auto
          then show ?thesis using allow_line_decides [OF r(2) _ p(1)] refs l(2) by (auto simp: allows_ref_def)
        qed
        then show ?thesis using nd by (auto simp: policy_allows_def list_ex_iff)
      next
        case False
        then have "profile_allows (preamble @ home) a ?v"
          using rest unfolding profile_allows_append [of _ "reads @ writes"] by (simp only: if_False)
        from preamble_allows [OF this parts(1)] show ?thesis using nd by blast
      qed
    qed
  qed
qed

section \<open>Built policies\<close>

definition entry_expressible :: "sensitive_path \<Rightarrow> bool" where
  "entry_expressible e =
     (let pat = sp_pattern e
      in (\<not> pp_home_anchored pat \<and> takeWhile literal_seg (pp_segments pat) = [] \<or>
          index_of ''**/'' (pp_raw pat) \<noteq> None \<or> sp_outside_only e \<longrightarrow> regex_pattern pat) \<and>
         (sp_outside_only e \<longrightarrow> hd (pp_segments pat) = recursive) \<and> CHR 0x0A \<notin> set (pp_raw pat))"

definition registry_expressible :: "registry \<Rightarrow> bool" where
  "registry_expressible reg = list_all entry_expressible (reg_entries reg)"

definition row_expressible :: "sensitive_path res \<Rightarrow> bool" where
  "row_expressible r = (case r of Inl _ \<Rightarrow> True | Inr e \<Rightarrow> entry_expressible e)"

lemma rows_expressible:
  "list_all row_expressible sensitive_rows_1" "list_all row_expressible sensitive_rows_2"
  "list_all row_expressible sensitive_rows_3" "list_all row_expressible sensitive_rows_4"
  "list_all row_expressible sensitive_rows_5"
  by code_simp+

lemma shipped_registry_expressible: "default_registry = Inr reg \<Longrightarrow> registry_expressible reg"
proof -
  assume "default_registry = Inr reg"
  then obtain es where es: "sensitive_paths = Inr es" "reg_entries reg = es"
    by (auto simp: default_registry_def rbind_eq_Inr registry_from_entries_def split: option.splits if_splits)
  have "entry_expressible e" if "e \<in> set es" for e
  proof -
    note mem = that
    obtain r where "r \<in> set (sensitive_rows_1 @ sensitive_rows_2 @ sensitive_rows_3 @ sensitive_rows_4 @ sensitive_rows_5)" "r = Inr e"
      using traverse_set [OF es(1) [unfolded sensitive_paths_def] mem] by blast
    then show ?thesis using rows_expressible by (auto simp: list_all_iff row_expressible_def)
  qed
  then show ?thesis using es(2) by (simp add: registry_expressible_def list_all_iff)
qed

lemma built_expressible:
  assumes "build_policy h pb inp = Inr b" "registry_ok (pb_registry pb)" "registry_expressible (pb_registry pb)"
    and ctx: "ctx_ok (pi_context inp)" "segments (ctx_workspace (pi_context inp)) \<noteq> []"
  shows "list_all (expressible (pi_context inp)) (po_denies (br_policy b))"
proof -
  let ?ctx = "pi_context inp"
  have denies: "po_denies (br_policy b) = deny_rules (pb_registry pb) ?ctx" by (rule build_policy_cases [OF assms(1)])
  have "expressible ?ctx d" if "d \<in> set (deny_rules (pb_registry pb) ?ctx)" for d
  proof -
    have "\<exists>a. \<exists>e \<in> set (reg_entries (pb_registry pb)). d = deny_of a ?ctx e"
      using that by (auto simp: deny_rules_def reg_dangerous_for_def reg_for_platform_def)
    then obtain a e where e: "e \<in> set (reg_entries (pb_registry pb))" "d = deny_of a ?ctx e" by blast
    have ok: "pattern_ok (sp_pattern e)" "entry_expressible e"
      using assms(2,3) e(1) by (auto simp: registry_ok_def Sensitive.entry_ok_def registry_expressible_def list_all_iff)
    have "literal_prefix (sp_pattern e) (ctx_home ?ctx) = Inr None \<Longrightarrow>
        \<not> pp_home_anchored (sp_pattern e) \<and> takeWhile literal_seg (pp_segments (sp_pattern e)) = []"
      using literal_prefix_eq [of "ctx_home ?ctx" "sp_pattern e"] ctx(1) ok(1)
      by (auto simp: ctx_ok_def Let_def split: if_splits)
    then show ?thesis
      using ok ctx by (auto simp: expressible_def e(2) deny_of_def deny_ok_def entry_expressible_def Let_def ctx_ok_def posix_path_ok_def)
  qed
  then show ?thesis by (simp add: denies list_all_iff)
qed

lemma built_reads_workspace:
  assumes "build_policy h pb inp = Inr b"
  shows "subtree_ref (ctx_workspace (pi_context inp)) \<in> set (po_reads (br_policy b))"
proof -
  obtain config decisions bs1 bs where b:
    "collect_profile (pb_tiers pb) inp (base_state inp config decisions) = Inr bs1"
    "collect_grants (pb_tiers pb) inp (pi_grants inp) bs1 = Inr bs" "po_reads (br_policy b) = bs_reads bs"
    by (rule build_policy_cases [OF assms])
  have "grows bs1 bs" using collect_grants_facts [OF b(2)] by blast
  moreover have "grows (base_state inp config decisions) bs1"
  proof -
    obtain rs s1 ws where "add_profile_refs (pb_tiers pb) (pi_profile inp) (pi_context inp) Read rs (base_state inp config decisions) = Inr s1"
      "add_profile_refs (pb_tiers pb) (pi_profile inp) (pi_context inp) Write ws s1 = Inr bs1"
      using b(1) by (auto simp: collect_profile_def Let_def rbind_eq_Inr)
    then show ?thesis using add_profile_refs_facts grows_trans by blast
  qed
  ultimately show ?thesis using b(3) by (auto simp: grows_def base_state_def Let_def)
qed

section \<open>The text\<close>

abbreviation nl :: char where
  "nl \<equiv> CHR 0x0A"

lemma show_nat_no_nl: "nl \<notin> set (show_nat n)"
proof (induction n rule: show_nat.induct)
  case (1 n)
  have "list_all (\<lambda>k. char_of (48 + k) \<noteq> nl) [0..<10]" by code_simp
  then have digit: "nl \<noteq> char_of (48 + k)" if "k < 10" for k :: nat using that by (fastforce simp: list_all_iff)
  show ?case using 1 digit [of n] digit [of "n mod 10"] by (subst show_nat.simps) auto
qed

lemma sb_comment_no_nl: "nl \<notin> set (sb_comment s)"
proof (induction s rule: sb_comment.induct)
  case (2 c s)
  then show ?case by (cases s) auto
qed simp

lemma replace_recurse_no_nl: "nl \<notin> set s \<Longrightarrow> nl \<notin> set (replace_recurse s)"
proof (induction s rule: replace_recurse.induct)
  case (1 s)
  have d: "nl \<notin> set (drop n s)" for n using "1.prems" by (meson in_set_dropD)
  have t: "nl \<notin> set (tl s)" "s \<noteq> [] \<Longrightarrow> nl \<noteq> hd s" using "1.prems" by (cases s; auto)+
  show ?case by (subst replace_recurse.simps) (use 1(1-5) d t in \<open>auto split: if_splits\<close>)
qed

lemma escape_regex_set: "set (escape_regex s) \<subseteq> insert (CHR 0x5C) (set s)"
  by (auto simp: escape_regex_def escape_char_def)

lemma segment_regex_no_nl: "nl \<notin> set s \<Longrightarrow> nl \<notin> set (segment_regex s)"
proof -
  assume s: "nl \<notin> set s"
  have "nl \<notin> set (escape_regex x)" if "x \<in> set (split_on star s)" for x
    using escape_regex_set [of x] split_by_subset [OF that] s by auto
  then show ?thesis
    using set_join [of "''[^/]*''" "map escape_regex (split_on star s)"]
    by (auto simp: segment_regex_def recurse_mark_def)
qed

lemma pattern_to_regex_no_nl:
  assumes "nl \<notin> set raw" "nl \<notin> set (ap_value home)" "\<forall>w. within = Some w \<longrightarrow> nl \<notin> set (ap_value w)"
  shows "nl \<notin> set (pattern_to_regex raw home within)"
proof -
  let ?anchored = "if starts_with raw ''~/'' then ap_value home @ ''/'' @ drop 2 raw else raw"
  have "nl \<notin> set ?anchored" using assms(1,2) by (auto dest: in_set_dropD)
  then have "nl \<notin> set (segment_regex s)" if "s \<in> set (split_on slash ?anchored)" for s
    using segment_regex_no_nl split_by_subset [OF that] by blast
  then have "nl \<notin> set (join ''/'' (map segment_regex (split_on slash ?anchored)))"
    using set_join [of "''/''" "map segment_regex (split_on slash ?anchored)"] by auto
  then have r: "nl \<notin> set (replace_recurse (join ''/'' (map segment_regex (split_on slash ?anchored))))"
    by (rule replace_recurse_no_nl)
  have "nl \<notin> set (case within of None \<Rightarrow> [] | Some w \<Rightarrow> escape_regex (ap_value w))"
    using assms(3) escape_regex_set by (fastforce split: option.splits)
  then show ?thesis using r unfolding pattern_to_regex_def Let_def by (auto dest: in_set_dropD)
qed

definition clean_filter :: "sb_filter \<Rightarrow> bool" where
  "clean_filter f = (case f of Everything \<Rightarrow> True | Subpath t \<Rightarrow> nl \<notin> set t | Literal t \<Rightarrow> nl \<notin> set t | Regex r \<Rightarrow> nl \<notin> set r)"

definition clean_line :: "sb_line \<Rightarrow> bool" where
  "clean_line l =
     (case l of
        Note t \<Rightarrow> nl \<notin> set t
      | Rule _ _ f c \<Rightarrow> clean_filter f \<and> (case c of None \<Rightarrow> True | Some t \<Rightarrow> nl \<notin> set t))"

lemma clean_line_text: "clean_line l \<Longrightarrow> nl \<notin> set (line_text l)"
  by (auto simp: clean_line_def clean_filter_def line_text_def operation_name_def filter_text_def quoted_def
      split: sb_line.splits sb_filter.splits option.splits if_splits)

lemma sb_quote_clean: "sb_quote p = Inr v \<Longrightarrow> nl \<notin> set v"
  by (auto simp: sb_quote_def Let_def split: if_splits)

lemma ref_filter_clean: "ref_filter r = Inr f \<Longrightarrow> clean_filter f"
  using sb_quote_clean [of "rr_path r"]
  by (cases "sb_quote (rr_path r)") (auto simp: ref_filter_def clean_filter_def split: if_splits)

lemma allow_line_clean: "allow_line a r = Inr l \<Longrightarrow> clean_line l"
  using ref_filter_clean [of r] by (cases "ref_filter r") (auto simp: allow_line_def clean_line_def)

lemma override_line_clean: "override_line ov = Inr l \<Longrightarrow> clean_line l"
  using ref_filter_clean [of "ov_ref ov"] sb_comment_no_nl
  by (cases "ref_filter (ov_ref ov)") (auto simp: override_line_def clean_line_def)

lemma deny_lines_clean:
  assumes "deny_lines ctx d = Inr ls" "nl \<notin> set (pp_raw (dn_pattern d))" "nl \<notin> set (ap_value (ctx_home ctx))"
    and "\<forall>w. dn_except d = Some w \<longrightarrow> nl \<notin> set (ap_value w)" "l \<in> set ls"
  shows "clean_line l"
proof -
  obtain f where f: "deny_filter d ctx = Inr f" using assms(1) by (cases "deny_filter d ctx") (auto simp: deny_lines_def)
  have regex: "nl \<notin> set (pattern_to_regex (pp_raw (dn_pattern d)) (ctx_home ctx) within)" if "within = None \<or> within = dn_except d" for within
    by (rule pattern_to_regex_no_nl) (use assms(2-4) that in auto)
  have "clean_filter f"
  proof (cases "literal_prefix (dn_pattern d) (ctx_home ctx)")
    case (Inr anchor)
    then show ?thesis
      using f regex [of None] sb_quote_clean [of "the anchor"]
      by (cases "sb_quote (the anchor)") (auto simp: deny_filter_def clean_filter_def split: option.splits if_splits)
  qed (use f in \<open>simp add: deny_filter_def\<close>)
  then show ?thesis
    using assms(1,5) f regex sb_comment_no_nl [of "dn_source d"]
    by (auto simp: deny_lines_def clean_line_def clean_filter_def split: option.splits)
qed

lemma network_lines_clean: "l \<in> set (network_lines e) \<Longrightarrow> clean_line l"
  using show_nat_no_nl
  by (auto simp: network_lines_def clean_line_def quoted_def split: network_enforcement.splits broker_transport.splits)

lemma preamble_clean: "list_all clean_line preamble"
  by (simp add: preamble_def clean_line_def clean_filter_def)

lemma compiled_clean:
  assumes "compile_lines pol ctx = Inr ls" "subtree_ref ws \<in> set (po_reads pol)"
    and "\<forall>d \<in> set (po_denies pol). nl \<notin> set (pp_raw (dn_pattern d)) \<and> (dn_except d = None \<or> dn_except d = Some ws)"
  shows "list_all clean_line ls"
proof -
  obtain home reads writes denies overrides where p: "home_lines ctx = Inr home"
    "traverse (allow_line Read) (po_reads pol) = Inr reads" "traverse (allow_line Write) (po_writes pol) = Inr writes"
    "traverse (deny_lines ctx) (po_denies pol) = Inr denies" "traverse override_line (po_overrides pol) = Inr overrides"
    and ls: "ls = preamble @ home @
         [Note [], Note '';; --- what this workspace opened ---------------------------------------''] @ reads @ writes @
         (if length (po_denies pol) > 0
          then [Note [], Note '';; --- refusals, which outrank every allow above -------------------------''] @ concat denies
          else []) @
         (if length (po_overrides pol) > 0
          then [Note [], Note '';; --- hand-written grants, which outrank the refusals above -------------''] @ overrides
          else []) @
         [Note []] @ network_lines (po_enforcement pol)"
    using assms(1) unfolding compile_lines_def by (auto simp: rbind_eq_Inr)
  obtain up root where h: "parent (ctx_home ctx) = Inr up" "sb_quote up = Inr root"
    "sb_quote (ctx_home ctx) = Inr (ap_value (ctx_home ctx))"
    "home = [Rule False Read (Subpath root) None, Rule False Read (Subpath (ap_value (ctx_home ctx))) None]"
    using p(1) sb_quote_value
    by (cases "parent (ctx_home ctx)"; cases "sb_quote (projr (parent (ctx_home ctx)))"; cases "sb_quote (ctx_home ctx)")
       (auto simp: home_lines_def)
  note hn = sb_quote_clean [OF h(3)]
  have "\<forall>l \<in> set home. clean_line l" using sb_quote_clean [OF h(2)] hn by (auto simp: h(4) clean_line_def clean_filter_def)
  moreover have "\<forall>l \<in> set reads. clean_line l" "\<forall>l \<in> set writes. clean_line l" "\<forall>l \<in> set overrides. clean_line l"
    using traverse_set [OF p(2)] traverse_set [OF p(3)] traverse_set [OF p(5)] allow_line_clean override_line_clean by blast+
  moreover have "\<forall>l \<in> set (concat denies). clean_line l"
  proof
    obtain f where "allow_line Read (subtree_ref ws) = Inr f" using traverse_member [OF p(2) assms(2)] by blast
    then have "nl \<notin> set (ap_value ws)"
      using sb_quote_clean sb_quote_value
      by (cases "sb_quote ws") (auto simp: allow_line_def ref_filter_def subtree_ref_def)
    moreover fix l assume "l \<in> set (concat denies)"
    then obtain dl where dl: "dl \<in> set denies" "l \<in> set dl" by auto
    obtain d where d: "d \<in> set (po_denies pol)" "deny_lines ctx d = Inr dl" using traverse_set [OF p(4) dl(1)] by blast
    ultimately show "clean_line l" using deny_lines_clean [OF d(2) _ hn _ dl(2)] assms(3) d(1) by fastforce
  qed
  ultimately show ?thesis
    using preamble_clean network_lines_clean by (auto simp: ls list_all_iff clean_line_def [of "Note _"])
qed

section \<open>Properties\<close>



text \<open>C4: a Seatbelt profile compiled from a built policy opens only what the policy allows. What
  it lets a process read below the directory of the homes, or write outside \<open>/dev\<close>, the policy
  allows, except where a refusal that holds outside the workspace is taken back inside it; and
  what the policy refuses stays refused everywhere, with the same exception and that of an
  override.\<close>

theorem profile_opens_only_policy:
  assumes "build_policy h pb inp = Inr b" "registry_ok (pb_registry pb)" "registry_expressible (pb_registry pb)"
    and "ctx_ok (pi_context inp)" "segments (ctx_workspace (pi_context inp)) \<noteq> []" "posix_refs (br_policy b)"
    and "compile_lines (br_policy b) (pi_context inp) = Inr ls" "posix_path_ok p" "segments p \<noteq> []"
    and "profile_allows ls a (ap_value p)"
  shows "policy_allows (br_policy b) a p (pi_context inp) \<or> reopened (br_policy b) a p (pi_context inp) \<or>
    \<not> is_denied (br_policy b) a p (pi_context inp) \<and>
      ((a = Write \<and> at_or_below ''/dev'' (ap_value p)) \<or>
       (a = Read \<and> (\<exists>up. parent (ctx_home (pi_context inp)) = Inr up \<and> \<not> at_or_below (ap_value up) (ap_value p))))"
  by (rule profile_allows_only [OF assms(4,6) built_expressible [OF assms(1-5)] assms(8,9,7,10)])

lemma sample_expressible: "registry_expressible sample_registry"
  by code_simp

lemma profile_opens_only_policy_witness:
  "\<exists>b ls. build_policy zero_sha sample_builder sample_input = Inr b \<and> compile_lines (br_policy b) sample_ctx = Inr ls \<and>
     \<not> profile_allows ls Read ''/home/u/.ssh/id_rsa''"
proof -
  let ?p = "mk_posix [''home'', ''u'', ''.ssh'', ''id_rsa'']"
  have "(case build_policy zero_sha sample_builder sample_input of
      Inl _ \<Rightarrow> False
    | Inr b \<Rightarrow> posix_refs (br_policy b) \<and> is_denied (br_policy b) Read ?p sample_ctx \<and>
        \<not> policy_allows (br_policy b) Read ?p sample_ctx \<and> \<not> reopened (br_policy b) Read ?p sample_ctx \<and>
        (case compile_lines (br_policy b) sample_ctx of Inl _ \<Rightarrow> False | Inr ls \<Rightarrow> True))" by code_simp
  then obtain b ls where b: "build_policy zero_sha sample_builder sample_input = Inr b" "posix_refs (br_policy b)"
    "is_denied (br_policy b) Read ?p sample_ctx" "\<not> policy_allows (br_policy b) Read ?p sample_ctx"
    "\<not> reopened (br_policy b) Read ?p sample_ctx" "compile_lines (br_policy b) sample_ctx = Inr ls"
    by (auto split: sum.splits)
  have reg: "registry_ok (pb_registry sample_builder)" "registry_expressible (pb_registry sample_builder)"
    using sample_registry_ok sample_expressible by simp_all
  have p: "posix_path_ok ?p" "segments ?p \<noteq> []" "ap_value ?p = ''/home/u/.ssh/id_rsa''"
    and ws: "segments (ctx_workspace sample_ctx) \<noteq> []" by code_simp+
  from profile_opens_only_policy [OF b(1) reg _ _ b(2) _ p(1,2), of ls Read] sample_ctx_ok ws b p(3)
  show ?thesis by auto
qed

text \<open>Nothing that comes from outside adds a line to a profile. The text of a profile compiled
  from a built policy falls into exactly the compiler's lines at its line ends, whatever the
  paths and the reasons of the grants contain; a path that could end a line or a string stops
  the compilation.\<close>

theorem profile_text_is_lines:
  assumes "build_policy h pb inp = Inr b" "registry_expressible (pb_registry pb)"
    and "compile_profile (br_policy b) (pi_context inp) = Inr content"
  shows "\<exists>ls. compile_lines (br_policy b) (pi_context inp) = Inr ls \<and>
    split_on (CHR 0x0A) content = map line_text ls @ [[]]"
proof -
  let ?ctx = "pi_context inp"
  obtain ls where ls: "compile_lines (br_policy b) ?ctx = Inr ls" "content = join newline (map line_text ls) @ newline"
    using assms(3) by (cases "compile_lines (br_policy b) ?ctx") (auto simp: compile_profile_def)
  have denies: "po_denies (br_policy b) = deny_rules (pb_registry pb) ?ctx" by (rule build_policy_cases [OF assms(1)])
  have "\<forall>d \<in> set (po_denies (br_policy b)). nl \<notin> set (pp_raw (dn_pattern d)) \<and>
      (dn_except d = None \<or> dn_except d = Some (ctx_workspace ?ctx))"
    using assms(2) unfolding denies
    by (auto simp: deny_rules_def deny_of_def reg_dangerous_for_def reg_for_platform_def registry_expressible_def
        list_all_iff entry_expressible_def Let_def)
  then have "list_all clean_line ls" using compiled_clean [OF ls(1) built_reads_workspace [OF assms(1)]] by blast
  then have clean: "\<forall>x \<in> set (map line_text ls @ [[]]). nl \<notin> set x" using clean_line_text by (auto simp: list_all_iff)
  have "ls \<noteq> []" using ls(1) by (auto simp: compile_lines_def rbind_eq_Inr preamble_def)
  then have "content = join newline (map line_text ls @ [[]])" using ls(2) by (simp add: join_append)
  then show ?thesis using split_join [OF _ clean] ls(1) by simp
qed

definition tricky_input :: policy_input where
  "tricky_input = sample_input\<lparr>pi_grants :=
     [grant_new zero_sha \<lparr>gp_resource = subtree_ref (mk_posix [''home'', ''u'', ''.gnupg'']), gp_access = Read,
        gp_scope = scope_global, gp_granted_at = Some 0,
        gp_reason = ''x'' @ [CHR 0x0A] @ ''(allow file-read*)'', gp_origin = Manual\<rparr>]\<rparr>"

lemma profile_text_is_lines_witness:
  "\<exists>b content. build_policy zero_sha sample_builder tricky_input = Inr b \<and>
     compile_profile (br_policy b) sample_ctx = Inr content \<and> last (split_on (CHR 0x0A) content) = []"
proof -
  have "(case build_policy zero_sha sample_builder tricky_input of
      Inl _ \<Rightarrow> False
    | Inr b \<Rightarrow> (case compile_profile (br_policy b) sample_ctx of Inl _ \<Rightarrow> False | Inr _ \<Rightarrow> True))" by code_simp
  then obtain b content where b: "build_policy zero_sha sample_builder tricky_input = Inr b"
    "compile_profile (br_policy b) sample_ctx = Inr content" by (auto split: sum.splits)
  have reg: "registry_expressible (pb_registry sample_builder)" using sample_expressible by simp
  have c: "pi_context tricky_input = sample_ctx" by (simp add: tricky_input_def)
  from profile_text_is_lines [OF b(1) reg, unfolded c, OF b(2)] b show ?thesis by auto
qed

definition nested_input :: policy_input where
  "nested_input = sample_input\<lparr>pi_grants := [],
     pi_context := sample_ctx\<lparr>ctx_workspace := mk_posix [''home'', ''u'', ''.ssh'', ''w'']\<rparr>\<rparr>"

definition nested_builder :: policy_builder where
  "nested_builder =
     (let reg = (case traverse (\<lambda>row. row) (take 1 sensitive_rows_1 @ sensitive_rows_2) of
                   Inr es \<Rightarrow> \<lparr>reg_entries = es\<rparr> | Inl _ \<Rightarrow> \<lparr>reg_entries = []\<rparr>)
      in \<lparr>pb_tiers = reg, pb_registry = reg\<rparr>)"

text \<open>The profile opens a secret that the policy refuses when the workspace lies inside a
  protected directory. A workspace below \<open>~/.ssh\<close> is not refused; the rule that takes the
  refusal of \<open>.env\<close> files back inside the workspace comes after the one that closes \<open>~/.ssh\<close>,
  and wins.\<close>

theorem nested_workspace_reopens:
  "\<exists>b ls. build_policy zero_sha nested_builder nested_input = Inr b \<and>
     compile_lines (br_policy b) (pi_context nested_input) = Inr ls \<and>
     is_denied (br_policy b) Read (mk_posix [''home'', ''u'', ''.ssh'', ''w'', ''.env'']) (pi_context nested_input) \<and>
     \<not> policy_allows (br_policy b) Read (mk_posix [''home'', ''u'', ''.ssh'', ''w'', ''.env'']) (pi_context nested_input) \<and>
     profile_allows ls Read ''/home/u/.ssh/w/.env''"
proof -
  let ?p = "mk_posix [''home'', ''u'', ''.ssh'', ''w'', ''.env'']"
  have "(case build_policy zero_sha nested_builder nested_input of
      Inl _ \<Rightarrow> False
    | Inr b \<Rightarrow> is_denied (br_policy b) Read ?p (pi_context nested_input) \<and>
        \<not> policy_allows (br_policy b) Read ?p (pi_context nested_input) \<and>
        (case compile_lines (br_policy b) (pi_context nested_input) of
           Inl _ \<Rightarrow> False | Inr ls \<Rightarrow> profile_allows ls Read ''/home/u/.ssh/w/.env''))" by code_simp
  then show ?thesis by (auto split: sum.splits)
qed

text \<open>A pattern that ends in \<open>**\<close> after a recursive segment becomes an expression that matches
  no path: the refusal would be written and refuse nothing. No shipped row has this form.\<close>

lemma trailing_recursive_lost:
  "\<exists>pat. pattern_of ''**/secrets/**'' = Inr pat \<and>
     pattern_matches pat (mk_posix [''srv'', ''secrets'', ''key'']) (mk_posix [''home'', ''u'']) \<and>
     \<not> regex_matches (pattern_to_regex (pp_raw pat) (mk_posix [''home'', ''u'']) None) ''/srv/secrets/key''"
proof -
  have "(case pattern_of ''**/secrets/**'' of
      Inl _ \<Rightarrow> False
    | Inr pat \<Rightarrow> pattern_matches pat (mk_posix [''srv'', ''secrets'', ''key'']) (mk_posix [''home'', ''u'']) \<and>
        \<not> regex_matches (pattern_to_regex (pp_raw pat) (mk_posix [''home'', ''u'']) None) ''/srv/secrets/key'')" by code_simp
  then show ?thesis by (auto split: sum.splits)
qed

end
