(* ===== verification/NodeFiles.thy ===== *)
theory NodeFiles
  imports AbsPath
begin

text \<open>
  The reading half of \<open>src/infrastructure/fs/NodeFileSystem.ts\<close>: \<open>read\<close>, \<open>stat\<close> and
  \<open>list\<close> over the system calls \<open>stat\<close>, \<open>readdir\<close> and \<open>readFile\<close>, which are
  parameters. The lemmas show that a listing that must not be partial is the complete set of
  the regular files below its root, within its limits, or is refused.
\<close>

section \<open>The system calls\<close>

text \<open>\<open>NotThere\<close> stands for \<open>ENOENT\<close> and \<open>ENOTDIR\<close>, \<open>NotAllowed\<close> for \<open>EACCES\<close> and \<open>EPERM\<close>.\<close>

datatype fs_fault = NotThere | NotAllowed | OtherFault

text \<open>A directory entry; a symbolic link, a socket or a device is neither a file nor a directory.\<close>

datatype entry_kind = FileEntry | DirectoryEntry | OtherEntry

record node_calls =
  nd_stat :: "abs_path \<Rightarrow> fs_fault + bool \<times> int"
  nd_readdir :: "abs_path \<Rightarrow> fs_fault + (string \<times> entry_kind) list"
  nd_read :: "abs_path \<Rightarrow> fs_fault + string"

text \<open>\<open>FileSystemAccessError\<close>, whose code distinguishes a refused access.\<close>

definition access_error :: "fs_fault \<Rightarrow> error" where
  "access_error f = (if f = NotAllowed then AccessDenied else IoFailure)"

definition node_read :: "node_calls \<Rightarrow> abs_path \<Rightarrow> string option res" where
  "node_read nd p =
     (case nd_read nd p of
        Inr t \<Rightarrow> Inr (Some t)
      | Inl f \<Rightarrow> if f = NotThere then Inr None else Inl (access_error f))"

record file_stat =
  st_is_directory :: bool
  st_size :: int

definition fs_stat :: "node_calls \<Rightarrow> abs_path \<Rightarrow> file_stat option res" where
  "fs_stat nd p =
     (case nd_stat nd p of
        Inr (d, n) \<Rightarrow> Inr (Some \<lparr>st_is_directory = d, st_size = n\<rparr>)
      | Inl f \<Rightarrow> if f = NotThere then Inr None else Inl (access_error f))"

definition fs_exists :: "node_calls \<Rightarrow> abs_path \<Rightarrow> bool res" where
  "fs_exists nd p = rmap (\<lambda>s. s \<noteq> None) (fs_stat nd p)"

section \<open>Listing a tree\<close>

record list_options =
  lo_max_entries :: nat
  lo_max_depth :: nat
  lo_ignores :: "string list"
  lo_include :: "abs_path \<Rightarrow> bool"
  lo_descend :: "abs_path \<Rightarrow> bool"
  lo_fail_limit :: bool
  lo_fail_error :: bool

definition default_ignores :: "string list" where
  "default_ignores =
     [''node_modules'', ''.venv'', ''venv'', ''dist'', ''build'', ''target'', ''vendor'', ''.next'', ''.turbo'',
      ''.cache'', ''coverage'']"

definition default_list_options :: list_options where
  "default_list_options =
     \<lparr>lo_max_entries = 20000, lo_max_depth = 12, lo_ignores = default_ignores, lo_include = (\<lambda>_. True),
      lo_descend = (\<lambda>_. True), lo_fail_limit = False, lo_fail_error = False\<rparr>"

definition limit_reached :: "list_options \<Rightarrow> abs_path list \<Rightarrow> abs_path list res" where
  "limit_reached opt found = (if lo_fail_limit opt then Inl ListingLimit else Inr found)"

text \<open>
  \<open>walk\<close>, with the depth that is left, one more than \<open>maxDepth\<close> at the root, and the loop
  over the entries of one directory.
\<close>

function walk_directory :: "list_options \<Rightarrow> node_calls \<Rightarrow> nat \<Rightarrow> abs_path \<Rightarrow> abs_path list \<Rightarrow> abs_path list res"
  and walk_entries ::
    "list_options \<Rightarrow> node_calls \<Rightarrow> nat \<Rightarrow> abs_path \<Rightarrow> (string \<times> entry_kind) list \<Rightarrow> abs_path list \<Rightarrow> abs_path list res"
where
  "walk_directory opt nd 0 dir found = limit_reached opt found"
| "walk_directory opt nd (Suc n) dir found =
     (if length found \<ge> lo_max_entries opt then limit_reached opt found
      else case nd_readdir nd dir of
             Inl f \<Rightarrow> if lo_fail_error opt \<and> f \<noteq> NotThere then Inl (access_error f) else Inr found
           | Inr entries \<Rightarrow> walk_entries opt nd n dir entries found)"
| "walk_entries opt nd n dir [] found = Inr found"
| "walk_entries opt nd n dir ((name, kind) # entries) found =
     (if length found \<ge> lo_max_entries opt then limit_reached opt found
      else rbind (path_join dir [name]) (\<lambda>child.
        if kind = DirectoryEntry then
          if name \<in> set (lo_ignores opt) \<or> \<not> lo_descend opt child then walk_entries opt nd n dir entries found
          else rbind (walk_directory opt nd n child found) (walk_entries opt nd n dir entries)
        else
          walk_entries opt nd n dir entries
            (if kind = FileEntry \<and> lo_include opt child then found @ [child] else found)))"
  by pat_completeness auto
termination
  by (relation "measures
      [\<lambda>x. case x of Inl (opt, nd, n, d, f) \<Rightarrow> n | Inr (opt, nd, n, d, es, f) \<Rightarrow> n,
       \<lambda>x. case x of Inl (opt, nd, n, d, f) \<Rightarrow> 0 | Inr (opt, nd, n, d, es, f) \<Rightarrow> Suc (length es)]") auto

definition fs_list :: "list_options \<Rightarrow> node_calls \<Rightarrow> abs_path \<Rightarrow> abs_path list res" where
  "fs_list opt nd root = walk_directory opt nd (lo_max_depth opt + 1) root []"

section \<open>What a complete listing holds\<close>

text \<open>The regular files below a directory that a listing is to find.\<close>

inductive listed_below :: "list_options \<Rightarrow> node_calls \<Rightarrow> abs_path \<Rightarrow> abs_path \<Rightarrow> bool" for opt nd where
  here: "nd_readdir nd dir = Inr es \<Longrightarrow> (name, FileEntry) \<in> set es \<Longrightarrow> path_join dir [name] = Inr f \<Longrightarrow>
    lo_include opt f \<Longrightarrow> listed_below opt nd dir f"
| below: "nd_readdir nd dir = Inr es \<Longrightarrow> (name, DirectoryEntry) \<in> set es \<Longrightarrow> name \<notin> set (lo_ignores opt) \<Longrightarrow>
    path_join dir [name] = Inr sub \<Longrightarrow> lo_descend opt sub \<Longrightarrow> listed_below opt nd sub f \<Longrightarrow> listed_below opt nd dir f"

inductive_cases listed_belowE: "listed_below opt nd dir f"

lemma listed_included: "listed_below opt nd dir f \<Longrightarrow> lo_include opt f"
  by (induction rule: listed_below.induct) auto

definition listed_by :: "list_options \<Rightarrow> node_calls \<Rightarrow> abs_path \<Rightarrow> string \<times> entry_kind \<Rightarrow> abs_path \<Rightarrow> bool" where
  "listed_by opt nd dir e f =
     (\<exists>child. path_join dir [fst e] = Inr child \<and>
        (snd e = FileEntry \<and> lo_include opt child \<and> f = child \<or>
         snd e = DirectoryEntry \<and> fst e \<notin> set (lo_ignores opt) \<and> lo_descend opt child \<and> listed_below opt nd child f))"

lemma listed_below_iff:
  "listed_below opt nd dir f \<longleftrightarrow> (\<exists>es. nd_readdir nd dir = Inr es \<and> (\<exists>e \<in> set es. listed_by opt nd dir e f))"
proof
  assume "listed_below opt nd dir f"
  then show "\<exists>es. nd_readdir nd dir = Inr es \<and> (\<exists>e \<in> set es. listed_by opt nd dir e f)"
  proof (rule listed_belowE)
    fix es name
    assume "nd_readdir nd dir = Inr es" "(name, FileEntry) \<in> set es" "path_join dir [name] = Inr f" "lo_include opt f"
    moreover from this have "listed_by opt nd dir (name, FileEntry) f" by (simp add: listed_by_def)
    ultimately show ?thesis by blast
  next
    fix es name sub
    assume "nd_readdir nd dir = Inr es" "(name, DirectoryEntry) \<in> set es" "name \<notin> set (lo_ignores opt)"
      "path_join dir [name] = Inr sub" "lo_descend opt sub" "listed_below opt nd sub f"
    moreover from this have "listed_by opt nd dir (name, DirectoryEntry) f" by (simp add: listed_by_def)
    ultimately show ?thesis by blast
  qed
next
  assume "\<exists>es. nd_readdir nd dir = Inr es \<and> (\<exists>e \<in> set es. listed_by opt nd dir e f)"
  then obtain es name kind where e: "nd_readdir nd dir = Inr es" "(name, kind) \<in> set es"
    "listed_by opt nd dir (name, kind) f" by auto
  then show "listed_below opt nd dir f"
    by (auto simp: listed_by_def intro: listed_below.here [OF e(1)] listed_below.below [OF e(1)])
qed

lemma walk_complete:
  "walk_directory opt nd n dir found = Inr fs \<Longrightarrow> lo_fail_limit opt \<Longrightarrow>
     \<exists>new. fs = found @ new \<and> set new = {f. listed_below opt nd dir f}"
  "walk_entries opt nd n dir es found = Inr fs \<Longrightarrow> lo_fail_limit opt \<Longrightarrow>
     \<exists>new. fs = found @ new \<and> set new = {f. \<exists>e \<in> set es. listed_by opt nd dir e f}"
proof (induction opt nd n dir found and opt nd n dir es found arbitrary: fs and fs
    rule: walk_directory_walk_entries.induct)
  case (1 opt nd dir found)
  then show ?case by (simp add: limit_reached_def)
next
  case (2 opt nd n dir found)
  show ?case
  proof (cases "nd_readdir nd dir")
    case (Inl f)
    then have "fs = found" using "2.prems" by (auto simp: limit_reached_def split: if_splits)
    then show ?thesis using Inl by (simp add: listed_below_iff)
  next
    case (Inr es)
    then have "walk_entries opt nd n dir es found = Inr fs" "\<not> lo_max_entries opt \<le> length found"
      using "2.prems" by (auto simp: limit_reached_def split: if_splits)
    then show ?thesis using "2.IH" Inr "2.prems"(2) by (simp add: listed_below_iff)
  qed
next
  case (3 opt nd n dir found)
  then show ?case by simp
next
  case (4 opt nd n dir name kind es found)
  have room: "\<not> lo_max_entries opt \<le> length found"
    using "4.prems" by (auto simp: limit_reached_def)
  then obtain child where child: "path_join dir [name] = Inr child"
    using "4.prems"(1) by (cases "path_join dir [name]") auto
  have split: "{f. \<exists>e \<in> set ((name, kind) # es). listed_by opt nd dir e f} =
      {f. listed_by opt nd dir (name, kind) f} \<union> {f. \<exists>e \<in> set es. listed_by opt nd dir e f}" by auto
  consider (skip) "kind = DirectoryEntry" "name \<in> set (lo_ignores opt) \<or> \<not> lo_descend opt child"
    | (descend) "kind = DirectoryEntry" "\<not> (name \<in> set (lo_ignores opt) \<or> \<not> lo_descend opt child)"
    | (leaf) "kind \<noteq> DirectoryEntry" by blast
  then show ?case
  proof cases
    case skip
    then have "walk_entries opt nd n dir es found = Inr fs" using "4.prems"(1) room child by simp
    from "4.IH"(1) [OF room skip this "4.prems"(2)]
    show ?thesis using skip child unfolding split by (auto simp: listed_by_def)
  next
    case descend
    then obtain mid where mid: "walk_directory opt nd n child found = Inr mid" "walk_entries opt nd n dir es mid = Inr fs"
      using "4.prems"(1) room child by auto
    obtain xs ys where xs: "mid = found @ xs" "set xs = {f. listed_below opt nd child f}"
      "fs = mid @ ys" "set ys = {f. \<exists>e \<in> set es. listed_by opt nd dir e f}"
      using "4.IH"(2) [OF room descend mid(1) "4.prems"(2)] "4.IH"(3) [OF room descend mid(2) "4.prems"(2)]
      by blast
    have "{f. listed_by opt nd dir (name, kind) f} = {f. listed_below opt nd child f}"
      using descend child by (auto simp: listed_by_def)
    then have "fs = found @ xs @ ys \<and>
        set (xs @ ys) = {f. \<exists>e \<in> set ((name, kind) # es). listed_by opt nd dir e f}"
      unfolding split using xs by simp
    then show ?thesis by blast
  next
    case leaf
    let ?mid = "if kind = FileEntry \<and> lo_include opt child then found @ [child] else found"
    have "walk_entries opt nd n dir es ?mid = Inr fs" using "4.prems"(1) room child leaf by simp
    then obtain ys where ys: "fs = ?mid @ ys" "set ys = {f. \<exists>e \<in> set es. listed_by opt nd dir e f}"
      using "4.IH"(4) [OF room leaf _ "4.prems"(2)] by blast
    have "{f. listed_by opt nd dir (name, kind) f} = (if kind = FileEntry \<and> lo_include opt child then {child} else {})"
      using leaf child by (auto simp: listed_by_def)
    then show ?thesis unfolding split using ys
      by (cases "kind = FileEntry \<and> lo_include opt child") auto
  qed
qed

lemma list_complete:
  assumes "fs_list opt nd root = Inr fs" "lo_fail_limit opt"
  shows "set fs = {f. listed_below opt nd root f}"
  using walk_complete(1) assms unfolding fs_list_def by fastforce

end
