(* ===== verification/Baseline.thy ===== *)
theory Baseline
  imports NodeFiles Store Tiers
begin

text \<open>
  \<open>src/presentation/daemon/BaselineCollector.ts\<close>: the surfaces outside any repository that
  the resident daemon snapshots, the targets it watches, and the events it ignores. The
  cache of the scopes is not modelled, since they depend on the frozen registry and the
  context only. The lemmas show that a snapshot that is not refused holds every regular
  file of every readable surface with the hash of its content, and nothing else.
\<close>

section \<open>The scopes\<close>

definition companion_ids :: "string list" where
  "companion_ids = [''npmrc'']"

definition self_mutating_files :: "string list" where
  "self_mutating_files = [''audit'', ''audit.log'', ''baseline.json'', ''persistence-pending.json'', ''pause.json'']"

record target_scope =
  ts_anchor :: abs_path
  ts_covers :: "abs_path \<Rightarrow> bool"
  ts_recursive :: bool

definition state_targets :: "string list" where
  "state_targets =
     [''config.json'', ''allowlist.json'', ''installation/manifest.json'', ''installation/backups'', ''shell'', ''shims'']"

text \<open>A \<open>Map\<close> by the value of the anchor, in the order of the first insertion.\<close>

fun add_state_scopes ::
  "path_context \<Rightarrow> string list \<Rightarrow> (string \<times> target_scope) list \<Rightarrow> (string \<times> target_scope) list res" where
  "add_state_scopes ctx [] found = Inr found"
| "add_state_scopes ctx (r # rs) found =
     rbind (path_join (ctx_home ctx) [''.agentkeeper'', r]) (\<lambda>target.
       add_state_scopes ctx rs
         (map_set (ap_value target) \<lparr>ts_anchor = target, ts_covers = (\<lambda>_. True), ts_recursive = True\<rparr> found))"

definition merged_scope :: "path_context \<Rightarrow> sensitive_path \<Rightarrow> abs_path \<Rightarrow> target_scope option \<Rightarrow> target_scope" where
  "merged_scope ctx e anchor existing =
     \<lparr>ts_anchor = anchor,
      ts_covers = (case existing of
          None \<Rightarrow> (\<lambda>p. entry_matches e p ctx)
        | Some s \<Rightarrow> (\<lambda>p. ts_covers s p \<or> entry_matches e p ctx)),
      ts_recursive = ((case existing of None \<Rightarrow> False | Some s \<Rightarrow> ts_recursive s) \<or> entry_descends_below_prefix e)\<rparr>"

fun add_scopes ::
  "path_context \<Rightarrow> sensitive_path list \<Rightarrow> (string \<times> target_scope) list \<Rightarrow> (string \<times> target_scope) list res" where
  "add_scopes ctx [] found = Inr found"
| "add_scopes ctx (e # es) found =
     (if sp_category e \<noteq> Persistence \<and> sp_id e \<notin> set companion_ids then add_scopes ctx es found
      else rbind (entry_literal_prefix e (ctx_home ctx)) (\<lambda>prefix.
        case prefix of
          None \<Rightarrow> add_scopes ctx es found
        | Some anchor \<Rightarrow>
            if sp_id e = ''agentkeeper-state''
            then rbind (add_state_scopes ctx state_targets found) (add_scopes ctx es)
            else add_scopes ctx es
                   (map_set (ap_value anchor) (merged_scope ctx e anchor (map_of found (ap_value anchor))) found)))"

definition target_scopes :: "registry \<Rightarrow> path_context \<Rightarrow> target_scope list res" where
  "target_scopes reg ctx = rmap (map snd) (add_scopes ctx (reg_for_platform reg (ctx_platform ctx)) [])"

definition scope_targets :: "registry \<Rightarrow> path_context \<Rightarrow> abs_path list res" where
  "scope_targets reg ctx = rmap (map ts_anchor) (target_scopes reg ctx)"

section \<open>Watching\<close>

record watch_target =
  wt_path :: abs_path
  wt_recursive :: bool

definition watch_targets :: "registry \<Rightarrow> path_context \<Rightarrow> watch_target list res" where
  "watch_targets reg ctx =
     rbind (path_join (ctx_home ctx) [''.agentkeeper'']) (\<lambda>state_dir.
     rmap (\<lambda>scopes.
         map (\<lambda>s. \<lparr>wt_path = ts_anchor s, wt_recursive = ts_recursive s\<rparr>)
           (filter (\<lambda>s. \<not> contains state_dir (ts_anchor s)) scopes) @
         [\<lparr>wt_path = state_dir, wt_recursive = True\<rparr>])
       (target_scopes reg ctx))"

text \<open>The pattern \<open>/\.[0-9a-f]{12}\.tmp$/i\<close>.\<close>

definition staging_name :: "string \<Rightarrow> bool" where
  "staging_name name =
     (let s = to_lower name; k = length s
      in 17 \<le> k \<and> drop (k - 4) s = ''.tmp'' \<and> list_all is_hex (take 12 (drop (k - 16) s)) \<and> s ! (k - 17) = CHR ''.'')"

definition self_mutating :: "string \<Rightarrow> bool" where
  "self_mutating name =
     list_ex (\<lambda>m. name = m \<or> starts_with name (m @ ''.'') \<and> ends_with name ''.tmp'') self_mutating_files"

definition is_relevant_event :: "abs_path option \<Rightarrow> path_context \<Rightarrow> bool res" where
  "is_relevant_event path ctx =
     (case path of
        None \<Rightarrow> Inr True
      | Some p \<Rightarrow>
          rmap (\<lambda>state_dir.
              if \<not> contains state_dir p \<or> path_eq p state_dir then True
              else if staging_name (basename p) then False
              else \<not> self_mutating (hd (split_on slash (drop (length (ap_value state_dir) + 1) (ap_value p)))))
            (path_join (ctx_home ctx) [''.agentkeeper'']))"

section \<open>Collecting\<close>

definition baseline_list_options :: "target_scope \<Rightarrow> list_options" where
  "baseline_list_options s =
     default_list_options
       \<lparr>lo_max_entries := 2000, lo_max_depth := 8, lo_include := ts_covers s, lo_fail_limit := True, lo_fail_error := True\<rparr>"

text \<open>A surface that must not be read contributes nothing; any other failure stops the snapshot.\<close>

definition expand_scope :: "node_calls \<Rightarrow> target_scope \<Rightarrow> file_stat option \<Rightarrow> abs_path list res" where
  "expand_scope nd s info =
     (case info of
        None \<Rightarrow> Inr []
      | Some st \<Rightarrow>
          if \<not> st_is_directory st then Inr [ts_anchor s]
          else case fs_list (baseline_list_options s) nd (ts_anchor s) of
                 Inl e \<Rightarrow> if e \<noteq> AccessDenied then Inl e else Inr []
               | Inr ps \<Rightarrow> Inr ps)"

text \<open>The clock is read when an entry is; \<open>clock\<close> gives the time for each path.\<close>

definition entry_for :: "sha \<Rightarrow> node_calls \<Rightarrow> (abs_path \<Rightarrow> int) \<Rightarrow> abs_path \<Rightarrow> baseline_entry option res" where
  "entry_for h nd clock p =
     rmap (map_option (\<lambda>t. \<lparr>bl_path = p, bl_hash = hash_content h t, bl_recorded_at = Some (clock p)\<rparr>)) (node_read nd p)"

text \<open>Each \<open>mapWithConcurrency\<close> is the map over its items, as the pool computes it.\<close>

definition collect_baseline ::
  "sha \<Rightarrow> registry \<Rightarrow> node_calls \<Rightarrow> (abs_path \<Rightarrow> int) \<Rightarrow> path_context \<Rightarrow> baseline_entry list res" where
  "collect_baseline h reg nd clock ctx =
     rbind (target_scopes reg ctx) (\<lambda>scopes.
     rbind (traverse (\<lambda>s. rmap (\<lambda>info. (s, info)) (fs_stat nd (ts_anchor s))) scopes) (\<lambda>inspected.
     rbind (traverse (\<lambda>(s, info). expand_scope nd s info) inspected) (\<lambda>expanded.
     rmap options_to_list (traverse (entry_for h nd clock) (concat expanded)))))"

section \<open>What a snapshot holds\<close>

text \<open>The files a scope is to contribute.\<close>

definition scope_holds :: "node_calls \<Rightarrow> target_scope \<Rightarrow> abs_path \<Rightarrow> bool" where
  "scope_holds nd s p =
     (case fs_stat nd (ts_anchor s) of
        Inr (Some st) \<Rightarrow>
          if \<not> st_is_directory st then p = ts_anchor s
          else is_ok (fs_list (baseline_list_options s) nd (ts_anchor s)) \<and>
               listed_below (baseline_list_options s) nd (ts_anchor s) p
      | _ \<Rightarrow> False)"

lemma expand_scope_holds:
  assumes "fs_stat nd (ts_anchor s) = Inr info" "expand_scope nd s info = Inr ps"
  shows "set ps = {p. scope_holds nd s p}"
proof (cases info)
  case (Some st)
  have opts: "lo_fail_limit (baseline_list_options s)"
    by (simp add: baseline_list_options_def)
  show ?thesis
    using assms Some list_complete [OF _ opts, of nd "ts_anchor s"]
    by (cases "st_is_directory st"; cases "fs_list (baseline_list_options s) nd (ts_anchor s)")
      (auto simp: expand_scope_def scope_holds_def split: if_splits)
qed (use assms in \<open>auto simp: expand_scope_def scope_holds_def\<close>)

lemma rmap_InrD: "rmap f r = Inr y \<Longrightarrow> \<exists>x. r = Inr x \<and> y = f x"
  by (cases r) auto

lemma expanded_paths:
  assumes i: "traverse (\<lambda>s. rmap (\<lambda>info. (s, info)) (fs_stat nd (ts_anchor s))) scopes = Inr infos"
    and x: "traverse (\<lambda>(s, info). expand_scope nd s info) infos = Inr pss"
  shows "p \<in> set (concat pss) \<longleftrightarrow> (\<exists>s \<in> set scopes. scope_holds nd s p)"
proof
  assume "p \<in> set (concat pss)"
  then obtain ps where ps: "ps \<in> set pss" "p \<in> set ps" by auto
  obtain si where si: "si \<in> set infos" "(case si of (s, info) \<Rightarrow> expand_scope nd s info) = Inr ps"
    using traverse_set [OF x ps(1)] by blast
  obtain s where s: "s \<in> set scopes" "rmap (\<lambda>info. (s, info)) (fs_stat nd (ts_anchor s)) = Inr si"
    using traverse_set [OF i si(1)] by blast
  then obtain info where "fs_stat nd (ts_anchor s) = Inr info" "si = (s, info)" by (blast dest: rmap_InrD)
  then show "\<exists>s \<in> set scopes. scope_holds nd s p" using expand_scope_holds si(2) ps(2) s(1) by fastforce
next
  assume "\<exists>s \<in> set scopes. scope_holds nd s p"
  then obtain s where s: "s \<in> set scopes" "scope_holds nd s p" by blast
  obtain si where si: "si \<in> set infos" "rmap (\<lambda>info. (s, info)) (fs_stat nd (ts_anchor s)) = Inr si"
    using traverse_set' [OF i s(1)] by blast
  then obtain info where info: "fs_stat nd (ts_anchor s) = Inr info" "si = (s, info)" by (blast dest: rmap_InrD)
  obtain ps where "ps \<in> set pss" "expand_scope nd s info = Inr ps" using traverse_set' [OF x si(1)] info(2) by auto
  then show "p \<in> set (concat pss)" using expand_scope_holds [OF info(1)] s(2) by fastforce
qed

lemma collect_stages:
  assumes "collect_baseline h reg nd clock ctx = Inr es" "target_scopes reg ctx = Inr scopes"
  obtains infos pss found
    where "traverse (\<lambda>s. rmap (\<lambda>info. (s, info)) (fs_stat nd (ts_anchor s))) scopes = Inr infos"
    and "traverse (\<lambda>(s, info). expand_scope nd s info) infos = Inr pss"
    and "traverse (entry_for h nd clock) (concat pss) = Inr found" "es = options_to_list found"
  using assms
  by (cases "traverse (\<lambda>s. rmap (\<lambda>info. (s, info)) (fs_stat nd (ts_anchor s))) scopes")
    (auto simp: collect_baseline_def dest!: rmap_InrD)

text \<open>An entry is in the snapshot just when a scope holds its path and it carries the hash of the content.\<close>

lemma collected:
  assumes "collect_baseline h reg nd clock ctx = Inr es" "target_scopes reg ctx = Inr scopes"
  shows "(\<exists>e \<in> set es. bl_path e = p \<and> bl_hash e = k) \<longleftrightarrow>
    (\<exists>s \<in> set scopes. scope_holds nd s p) \<and> (\<exists>t. node_read nd p = Inr (Some t) \<and> k = hash_content h t)"
proof (rule collect_stages [OF assms])
  fix infos pss found
  assume i: "traverse (\<lambda>s. rmap (\<lambda>info. (s, info)) (fs_stat nd (ts_anchor s))) scopes = Inr infos"
    and x: "traverse (\<lambda>(s, info). expand_scope nd s info) infos = Inr pss"
    and r: "traverse (entry_for h nd clock) (concat pss) = Inr found" and es: "es = options_to_list found"
  have entry: "entry_for h nd clock q = Inr (Some e) \<longleftrightarrow>
      (\<exists>t. node_read nd q = Inr (Some t) \<and> e = \<lparr>bl_path = q, bl_hash = hash_content h t, bl_recorded_at = Some (clock q)\<rparr>)"
    for q e by (cases "node_read nd q") (auto simp: entry_for_def)
  have "(\<exists>e \<in> set es. bl_path e = p \<and> bl_hash e = k) \<longleftrightarrow>
      p \<in> set (concat pss) \<and> (\<exists>t. node_read nd p = Inr (Some t) \<and> k = hash_content h t)"
  proof
    assume "\<exists>e \<in> set es. bl_path e = p \<and> bl_hash e = k"
    then obtain e where e: "Some e \<in> set found" "bl_path e = p" "bl_hash e = k"
      by (auto simp: es set_options_to_list)
    then obtain q where "q \<in> set (concat pss)" "entry_for h nd clock q = Inr (Some e)"
      using traverse_set [OF r e(1)] by blast
    then show "p \<in> set (concat pss) \<and> (\<exists>t. node_read nd p = Inr (Some t) \<and> k = hash_content h t)"
      using e(2,3) unfolding entry by auto
  next
    assume p: "p \<in> set (concat pss) \<and> (\<exists>t. node_read nd p = Inr (Some t) \<and> k = hash_content h t)"
    then obtain t where t: "node_read nd p = Inr (Some t)" "k = hash_content h t" by blast
    obtain y where y: "y \<in> set found" "entry_for h nd clock p = Inr y" using traverse_set' [OF r] p by blast
    then have "y = Some \<lparr>bl_path = p, bl_hash = k, bl_recorded_at = Some (clock p)\<rparr>"
      using t by (simp add: entry_for_def)
    then show "\<exists>e \<in> set es. bl_path e = p \<and> bl_hash e = k" using y(1) by (force simp: es set_options_to_list)
  qed
  then show ?thesis using expanded_paths [OF i x] by simp
qed

section \<open>Properties\<close>

text \<open>A snapshot that is not refused is exact. It has an entry for a path with a hash just
  when one of the surfaces holds the path, as its anchor or as a regular file that the rows
  cover below it, and the hash is that of the content the file has when it is read.\<close>

theorem snapshot_is_exact:
  assumes "collect_baseline h reg nd clock ctx = Inr es" "target_scopes reg ctx = Inr scopes"
  shows "(\<exists>e \<in> set es. bl_path e = p \<and> bl_hash e = k) \<longleftrightarrow>
    (\<exists>s \<in> set scopes. scope_holds nd s p) \<and> (\<exists>t. node_read nd p = Inr (Some t) \<and> k = hash_content h t)"
  using assms by (rule collected)

definition sample_units :: registry where
  "sample_units =
     \<lparr>reg_entries = (case persistence_row
        \<lparr>si_id = ''systemd-user-units'', si_pattern = ''~/.config/systemd/user/**'', si_platforms = [Linux],
         si_rationale = ''unit'', si_outside = None\<rparr> 1 ''observe'' of Inr e \<Rightarrow> [e] | Inl _ \<Rightarrow> [])\<rparr>"

definition unit_dir :: "string list" where
  "unit_dir = [''home'', ''u'', ''.config'', ''systemd'', ''user'']"

text \<open>A directory with one unit file and a symbolic link.\<close>

definition sample_calls :: node_calls where
  "sample_calls =
     \<lparr>nd_stat = (\<lambda>p. if ap_value p = ap_value (mk_posix unit_dir) then Inr (True, 0) else Inl NotThere),
      nd_readdir = (\<lambda>p. if ap_value p = ap_value (mk_posix unit_dir)
         then Inr [(''a.service'', FileEntry), (''b.service'', OtherEntry)] else Inl NotThere),
      nd_read = (\<lambda>_. Inr ''[Service]'')\<rparr>"

lemma snapshot_is_exact_witness:
  "\<exists>es scopes. collect_baseline zero_sha sample_units sample_calls (\<lambda>_. 3) sample_ctx = Inr es \<and>
     target_scopes sample_units sample_ctx = Inr scopes \<and> length es = 1 \<and>
     (\<exists>s \<in> set scopes. scope_holds sample_calls s (mk_posix (unit_dir @ [''a.service''])))"
proof -
  let ?p = "mk_posix (unit_dir @ [''a.service''])" and ?k = "hash_content zero_sha ''[Service]''"
  have c: "collect_baseline zero_sha sample_units sample_calls (\<lambda>_. 3) sample_ctx =
      Inr [\<lparr>bl_path = ?p, bl_hash = ?k, bl_recorded_at = Some 3\<rparr>]" by code_simp
  have "is_ok (target_scopes sample_units sample_ctx)" by code_simp
  then obtain scopes where s: "target_scopes sample_units sample_ctx = Inr scopes" by (auto simp: is_ok_iff)
  show ?thesis using snapshot_is_exact [OF c s, of ?p ?k] c s by auto
qed

end
