(* ===== verification/Pending.thy ===== *)
theory Pending
  imports Store Notification
begin

text \<open>
  \<open>src/infrastructure/store/\<close>: \<open>JsonPersistencePendingStore.ts\<close>, \<open>JsonPauseState.ts\<close> and
  \<open>JsonDaemonRuntime.ts\<close>, with \<open>PauseCommand.ts\<close> of \<open>src/presentation/cli/commands/\<close> that
  writes the pause lease: the three small files of the resident daemon. Each is bounded
  before it is read; the size of a text in bytes is a parameter. The locale states what the
  monitor relies on of a store that is saved and loaded as a whole; the baseline and the
  pending store both provide it. The lemmas show that a corrupt file never pauses the
  notifications nor passes for a running daemon, and which documents the pending store
  writes but cannot read back.
\<close>

section \<open>Bounded files\<close>

datatype 'r disk_file = Missing | Folder | Content 'r

record 'r bounded_env =
  be_store :: "'r store_env"
  be_size :: "'r \<Rightarrow> int"

text \<open>\<open>stat\<close>, and the guard of the three readers.\<close>

definition exceeds :: "'r bounded_env \<Rightarrow> int \<Rightarrow> 'r disk_file \<Rightarrow> bool" where
  "exceeds env limit file =
     (case file of Missing \<Rightarrow> False | Folder \<Rightarrow> True | Content r \<Rightarrow> be_size env r > limit)"

text \<open>\<open>read\<close> of a file that is not a directory; \<open>None\<close> when it does not exist.\<close>

definition file_text :: "'r disk_file \<Rightarrow> 'r option" where
  "file_text file = (case file of Content r \<Rightarrow> Some r | _ \<Rightarrow> None)"

section \<open>Integers in JSON\<close>

lemmas json_int_unfold = json_int_from.simps
declare json_int_from.simps [simp del]

lemma js_integer_json_int_from: "0 \<le> e \<Longrightarrow> js_integer (json_int_from m e) = Some (m * 10 ^ nat e)"
proof (induction m e rule: json_int_from.induct)
  case (1 m e)
  show ?case
  proof (cases "m \<noteq> 0 \<and> m mod 10 = 0")
    case True
    then have "m div 10 * 10 = m" by auto
    moreover have "nat (e + 1) = Suc (nat e)" using "1.prems" by simp
    ultimately have "m div 10 * 10 ^ nat (e + 1) = m * 10 ^ nat e" by (metis mult.assoc power_Suc)
    moreover have "js_integer (json_int_from (m div 10) (e + 1)) = Some (m div 10 * 10 ^ nat (e + 1))"
      using "1.IH" [OF True] "1.prems" by simp
    ultimately show ?thesis using True by (simp add: json_int_unfold [of m])
  next
    case False
    then show ?thesis using "1.prems" by (auto simp: json_int_unfold [of m] js_integer_def)
  qed
qed

lemma lowest_terms_json_int: "lowest_terms (json_int_from m e)"
proof (induction m e rule: json_int_from.induct)
  case (1 m e)
  then show ?case
    by (cases "m \<noteq> 0 \<and> m mod 10 = 0") (auto simp: json_int_unfold [of m e] lowest_terms_def)
qed

lemma json_int_read: "json_int n = JNumber k \<Longrightarrow> js_integer k = Some n"
  using js_integer_json_int_from [of 0 n] by (simp add: json_int_def)

lemma json_int_wf: "wf_json (json_int n)"
  by (simp add: json_int_def lowest_terms_json_int)

section \<open>Incidents\<close>

datatype incident_state = PendingReview | Quarantined

definition incident_state_name :: "incident_state \<Rightarrow> string" where
  "incident_state_name s = (case s of PendingReview \<Rightarrow> ''pending'' | Quarantined \<Rightarrow> ''quarantined'')"

record incident =
  ic_id :: string
  ic_key :: string
  ic_subject :: string
  ic_rules :: "string list"
  ic_severity :: severity
  ic_state :: incident_state
  ic_previous :: "string option"
  ic_current :: "string option"
  ic_first :: int
  ic_last :: int
  ic_count :: int

definition max_pending_bytes :: int where
  "max_pending_bytes = 2 * 1024 * 1024"

definition max_incidents :: nat where
  "max_incidents = 2048"

text \<open>The module's functions \<open>string\<close>, \<open>nullableString\<close> and \<open>date\<close>; every failure is a corrupt store.\<close>

definition pending_text :: "json option \<Rightarrow> string res" where
  "pending_text j =
     (case as_string j of None \<Rightarrow> Inl CorruptStore | Some s \<Rightarrow> if length s = 0 then Inl CorruptStore else Inr s)"

definition nullable_text :: "json option \<Rightarrow> string option res" where
  "nullable_text j =
     (if j = Some JNull then Inr None
      else case as_string j of None \<Rightarrow> Inl CorruptStore | Some s \<Rightarrow> Inr (Some s))"

definition pending_date :: "json_dates \<Rightarrow> json option \<Rightarrow> int res" where
  "pending_date dt j =
     rbind (pending_text j) (\<lambda>s. case dt_value dt (JString s) of None \<Rightarrow> Inl CorruptStore | Some t \<Rightarrow> Inr t)"

definition text_items :: "json option \<Rightarrow> string list res" where
  "text_items j =
     (case j of
        Some (JArray xs) \<Rightarrow>
          traverse (\<lambda>x. case x of JString s \<Rightarrow> Inr s | _ \<Rightarrow> Inl CorruptStore) xs
      | _ \<Rightarrow> Inl CorruptStore)"

definition severity_field :: "json option \<Rightarrow> severity res" where
  "severity_field j =
     (case as_string j of None \<Rightarrow> Inl CorruptStore
      | Some s \<Rightarrow> (case severity_of s of Inl _ \<Rightarrow> Inl CorruptStore | Inr v \<Rightarrow> Inr v))"

definition state_field :: "json option \<Rightarrow> incident_state res" where
  "state_field j =
     (if j = Some (JString ''pending'') then Inr PendingReview
      else if j = Some (JString ''quarantined'') then Inr Quarantined else Inl CorruptStore)"

definition count_field :: "json option \<Rightarrow> int res" where
  "count_field j =
     (case j of
        Some (JNumber n) \<Rightarrow>
          (case js_integer n of
             Some k \<Rightarrow> if \<not> safe_integer k \<or> k < 1 then Inl CorruptStore else Inr k
           | None \<Rightarrow> Inl CorruptStore)
      | _ \<Rightarrow> Inl CorruptStore)"

definition parse_incident :: "json_dates \<Rightarrow> json \<Rightarrow> incident res" where
  "parse_incident dt raw =
     (case raw of
        JObject _ \<Rightarrow>
          rbind (pending_text (property raw ''id'')) (\<lambda>ident.
          rbind (pending_text (property raw ''decisionKey'')) (\<lambda>key.
          rbind (pending_text (property raw ''subject'')) (\<lambda>subject.
          rbind (text_items (property raw ''ruleIds'')) (\<lambda>rules.
          rbind (severity_field (property raw ''severity'')) (\<lambda>severity.
          rbind (state_field (property raw ''state'')) (\<lambda>state.
          rbind (count_field (property raw ''occurrences'')) (\<lambda>n.
          rbind (pending_date dt (property raw ''firstSeenAt'')) (\<lambda>first.
          rbind (pending_date dt (property raw ''lastSeenAt'')) (\<lambda>last.
          rbind (nullable_text (property raw ''previousHash'')) (\<lambda>previous.
          rbind (nullable_text (property raw ''currentHash'')) (\<lambda>current.
            Inr \<lparr>ic_id = ident, ic_key = key, ic_subject = subject, ic_rules = rules, ic_severity = severity,
                 ic_state = state, ic_previous = previous, ic_current = current, ic_first = first,
                 ic_last = last, ic_count = n\<rparr>)))))))))))
      | _ \<Rightarrow> Inl CorruptStore)"

definition incident_value :: "json_dates \<Rightarrow> incident \<Rightarrow> json" where
  "incident_value dt i =
     JObject
       [(''id'', JString (ic_id i)), (''decisionKey'', JString (ic_key i)), (''subject'', JString (ic_subject i)),
        (''ruleIds'', JArray (map JString (ic_rules i))),
        (''severity'', JString (severity_name (ic_severity i))),
        (''state'', JString (incident_state_name (ic_state i))),
        (''previousHash'', json_text (ic_previous i)), (''currentHash'', json_text (ic_current i)),
        (''firstSeenAt'', JString (dt_iso dt (ic_first i))), (''lastSeenAt'', JString (dt_iso dt (ic_last i))),
        (''occurrences'', json_int (ic_count i))]"

definition no_incidents :: json where
  "no_incidents = versioned ''incidents'' (JArray [])"

definition pending_load :: "'r bounded_env \<Rightarrow> 'r disk_file \<Rightarrow> incident list res" where
  "pending_load env file =
     (if exceeds env max_pending_bytes file then Inl CorruptStore
      else rbind (load_document (se_io (be_store env)) no_incidents (file_text file)) (\<lambda>doc.
           case property doc ''incidents'' of
             Some (JArray xs) \<Rightarrow>
               if length xs > max_incidents then Inl CorruptStore
               else traverse (parse_incident (se_dates (be_store env))) xs
           | _ \<Rightarrow> Inl CorruptStore))"

definition pending_document :: "'r bounded_env \<Rightarrow> incident list \<Rightarrow> json" where
  "pending_document env xs =
     versioned ''incidents'' (JArray (map (incident_value (se_dates (be_store env))) xs))"

definition pending_save :: "'r bounded_env \<Rightarrow> incident list \<Rightarrow> 'r disk_file res" where
  "pending_save env xs =
     (if length xs > max_incidents then Inl TooMany
      else Inr (Content (io_print (se_io (be_store env)) (pending_document env xs))))"

definition incident_ok :: "incident \<Rightarrow> bool" where
  "incident_ok i = (ic_id i \<noteq> [] \<and> ic_key i \<noteq> [] \<and> ic_subject i \<noteq> [] \<and> safe_integer (ic_count i) \<and> 1 \<le> ic_count i)"

text \<open>What can be read back: few incidents, and a text within the bound.\<close>

definition incidents_fit :: "'r bounded_env \<Rightarrow> incident list \<Rightarrow> bool" where
  "incidents_fit env xs =
     (list_all incident_ok xs \<and> length xs \<le> max_incidents \<and>
      be_size env (io_print (se_io (be_store env)) (pending_document env xs)) \<le> max_pending_bytes)"

section \<open>What the store promises\<close>

text \<open>
  A store that is written and read as a whole: what fits it and was saved is loaded again.
  The monitor needs no more of the baseline and of the pending incidents.
\<close>

locale snapshot_store =
  fixes env_ok :: "'e \<Rightarrow> bool"
    and load :: "'e \<Rightarrow> 's \<Rightarrow> 'a list res"
    and save :: "'e \<Rightarrow> 'a list \<Rightarrow> 's res"
    and fits :: "'e \<Rightarrow> 'a list \<Rightarrow> bool"
  assumes load_save: "env_ok env \<Longrightarrow> fits env xs \<Longrightarrow> \<exists>s. save env xs = Inr s \<and> load env s = Inr xs"
begin

lemma saved_is_loaded: "env_ok env \<Longrightarrow> fits env xs \<Longrightarrow> save env xs = Inr s \<Longrightarrow> load env s = Inr xs"
  using load_save by force

lemma saves: "env_ok env \<Longrightarrow> fits env xs \<Longrightarrow> is_ok (save env xs)"
  using load_save by (fastforce simp: is_ok_iff)

end

interpretation json_baseline: snapshot_store env_ok baseline_load baseline_save "\<lambda>_. list_all entry_storable"
  by unfold_locales (rule baseline_saved)

lemma text_items_back: "text_items (Some (JArray (map JString xs))) = Inr xs"
proof -
  have "traverse (\<lambda>x. case x of JString s \<Rightarrow> Inr s | _ \<Rightarrow> Inl CorruptStore) (map JString xs) = Inr xs"
    by (induction xs) simp_all
  then show ?thesis by (simp add: text_items_def)
qed

lemma nullable_text_back: "nullable_text (Some (json_text x)) = Inr x"
  by (cases x) (simp_all add: nullable_text_def json_text_def as_string_def)

lemma field_back:
  "s \<noteq> [] \<Longrightarrow> pending_text (Some (JString s)) = Inr s"
  "severity_field (Some (JString (severity_name v))) = Inr v"
  "state_field (Some (JString (incident_state_name st))) = Inr st"
  "safe_integer n \<Longrightarrow> 1 \<le> n \<Longrightarrow> count_field (Some (json_int n)) = Inr n"
proof -
  show "count_field (Some (json_int n)) = Inr n" if "safe_integer n" "1 \<le> n"
    using that js_integer_json_int_from [of 0 n] by (simp add: count_field_def json_int_def)
  show "state_field (Some (JString (incident_state_name st))) = Inr st"
    by (cases st) (simp_all add: state_field_def incident_state_name_def)
qed (simp_all add: pending_text_def as_string_def severity_field_def severity_roundtrip)

definition dates_written :: "json_dates \<Rightarrow> bool" where
  "dates_written dt = (\<forall>t. dt_iso dt t \<noteq> [])"

lemma incident_back:
  assumes "dates_ok dt" "dates_written dt" "incident_ok i"
  shows "parse_incident dt (incident_value dt i) = Inr i"
proof -
  have date: "pending_date dt (Some (JString (dt_iso dt t))) = Inr t" for t
    using assms(1,2) by (simp add: pending_date_def field_back dates_ok_def dates_written_def)
  show ?thesis
    using assms(3)
    by (simp add: parse_incident_def incident_value_def property_def date field_back text_items_back
        nullable_text_back incident_ok_def)
qed

lemma incident_value_wf: "wf_json (incident_value dt i)"
proof -
  have "list_all (\<lambda>k. \<not> array_index k)
      [''id'', ''decisionKey'', ''subject'', ''ruleIds'', ''severity'', ''state'', ''previousHash'', ''currentHash'',
       ''firstSeenAt'', ''lastSeenAt'', ''occurrences'']" by code_simp
  then have "property_order (map fst (case incident_value dt i of JObject ps \<Rightarrow> ps | _ \<Rightarrow> []))"
    by (simp add: incident_value_def property_order_plain)
  moreover have "wf_json (json_text x)" for x by (simp add: json_text_def split: option.split)
  ultimately show ?thesis by (auto simp: incident_value_def json_int_wf)
qed

definition bounded_env_ok :: "'r bounded_env \<Rightarrow> bool" where
  "bounded_env_ok env = (env_ok (be_store env) \<and> dates_written (se_dates (be_store env)))"

lemma pending_saved:
  assumes "bounded_env_ok env" "incidents_fit env xs"
  shows "\<exists>file. pending_save env xs = Inr file \<and> pending_load env file = Inr xs"
proof -
  let ?st = "be_store env" and ?doc = "pending_document env xs"
  have ok: "json_io_ok (se_io ?st)" "dates_ok (se_dates ?st)" "dates_written (se_dates ?st)"
    using assms(1) by (auto simp: bounded_env_ok_def env_ok_def)
  have k: "\<not> array_index ''incidents''" by code_simp
  have "load_document (se_io ?st) no_incidents (Some (io_print (se_io ?st) ?doc)) = Inr ?doc"
    using load_versioned [OF ok(1) _ k] incident_value_wf by (simp add: pending_document_def save_document_def)
  moreover have "list_all incident_ok xs" using assms(2) by (simp add: incidents_fit_def)
  then have "traverse (parse_incident (se_dates ?st)) (map (incident_value (se_dates ?st)) xs) = Inr xs"
    using incident_back [OF ok(2,3)] by (induction xs) auto
  ultimately show ?thesis
    using assms(2)
    by (simp add: pending_save_def pending_load_def exceeds_def file_text_def incidents_fit_def pending_document_def)
qed

interpretation json_pending: snapshot_store bounded_env_ok pending_load pending_save incidents_fit
  by unfold_locales (rule pending_saved)

text \<open>What is loaded is bounded and well formed.\<close>

lemma parse_incident_ok: "parse_incident dt raw = Inr i \<Longrightarrow> incident_ok i"
  by (cases raw)
    (auto simp: parse_incident_def incident_ok_def pending_text_def count_field_def
      split: option.splits if_splits json.splits)

lemma pending_loaded:
  assumes "pending_load env file = Inr xs"
  shows "length xs \<le> max_incidents" "list_all incident_ok xs"
proof -
  obtain vs where vs: "length vs \<le> max_incidents" "traverse (parse_incident (se_dates (be_store env))) vs = Inr xs"
    using assms by (auto simp: pending_load_def not_less split: if_splits option.splits json.splits)
  show "length xs \<le> max_incidents" using traverse_length [OF vs(2)] vs(1) by simp
  show "list_all incident_ok xs"
    using traverse_set [OF vs(2)] parse_incident_ok unfolding list_all_iff by blast
qed

section \<open>The pause lease\<close>

datatype pause_state = Inactive | ActivePause int | ExpiredPause int | InvalidPause string

definition max_pause_bytes :: int where
  "max_pause_bytes = 4096"

definition pause_read :: "'r bounded_env \<Rightarrow> int \<Rightarrow> 'r disk_file \<Rightarrow> pause_state" where
  "pause_read env now file =
     (if exceeds env max_pause_bytes file then InvalidPause ''pause.json exceeds its bounded schema''
      else case file_text file of
             None \<Rightarrow> Inactive
           | Some raw \<Rightarrow>
               (case io_parse (se_io (be_store env)) raw of
                  None \<Rightarrow> InvalidPause ''pause.json is not valid JSON''
                | Some parsed \<Rightarrow>
                    (case as_string (property parsed ''until'') of
                       None \<Rightarrow> InvalidPause ''expected an ISO until timestamp''
                     | Some t \<Rightarrow>
                         (case dt_value (se_dates (be_store env)) (JString t) of
                            None \<Rightarrow> InvalidPause ''until is not a valid timestamp''
                          | Some until \<Rightarrow> if until > now then ActivePause until else ExpiredPause until))))"

text \<open>\<open>PauseCommand.ts\<close>: the durations it takes, and what it writes.\<close>

definition max_pause_milliseconds :: int where
  "max_pause_milliseconds = 24 * 60 * 60000"

definition parse_pause_duration :: "string \<Rightarrow> int option" where
  "parse_pause_duration raw =
     (if raw = ''today'' then Some (8 * 60 * 60000)
      else
        let t = trim raw; digits = butlast t
        in if t = [] \<or> digits = [] \<or> \<not> list_all is_digit digits \<or> last t \<notin> {CHR ''m'', CHR ''h'', CHR ''d''} then None
           else
             let amount = int (decimal digits)
             in if \<not> safe_integer amount \<or> amount < 1 then None
                else
                  let multiplier =
                        (if last t = CHR ''m'' then 60000 else if last t = CHR ''h'' then 60 * 60000
                         else 24 * 60 * 60000);
                      milliseconds = amount * multiplier
                  in if milliseconds \<le> max_pause_milliseconds then Some milliseconds else None)"

definition pause_document :: "json_dates \<Rightarrow> int \<Rightarrow> json" where
  "pause_document dt until = JObject [(''until'', JString (dt_iso dt until))]"

record 'r pause_world =
  pw_file :: "'r disk_file"
  pw_log :: "audit_entry list"

definition pause_audit ::
  "(audit_entry list \<Rightarrow> audit_entry \<Rightarrow> bool) \<Rightarrow> audit_entry \<Rightarrow> int \<Rightarrow> 'r pause_world \<Rightarrow> int res \<times> 'r pause_world" where
  "pause_audit append_ok e code w =
     (if append_ok (pw_log w) e then (Inr code, w\<lparr>pw_log := pw_log w @ [e]\<rparr>) else (Inl IoFailure, w))"

text \<open>The command; the file is written, or removed, before the audit entry.\<close>

definition pause_command ::
  "'r bounded_env \<Rightarrow> (audit_entry list \<Rightarrow> audit_entry \<Rightarrow> bool) \<Rightarrow> int \<Rightarrow> string list \<Rightarrow> 'r pause_world \<Rightarrow>
     int res \<times> 'r pause_world" where
  "pause_command env append_ok now args w =
     (let first = (case args of [] \<Rightarrow> None | a # _ \<Rightarrow> Some a); dt = se_dates (be_store env)
      in if first \<in> {Some ''--resume'', Some ''resume''} then
           pause_audit append_ok \<lparr>au_at = Some now, au_event = ''pause.resumed'', au_details = []\<rparr> 0
             (w\<lparr>pw_file := Missing\<rparr>)
         else
           case parse_pause_duration (case first of None \<Rightarrow> ''1h'' | Some a \<Rightarrow> a) of
             None \<Rightarrow> (Inr 2, w)
           | Some d \<Rightarrow>
               pause_audit append_ok
                 \<lparr>au_at = Some now, au_event = ''pause.set'',
                  au_details = [(''until'', JString (dt_iso dt (now + d)))]\<rparr> 0
                 (w\<lparr>pw_file := Content (io_print (se_io (be_store env)) (pause_document dt (now + d)))\<rparr>))"

lemma pause_durations:
  assumes "parse_pause_duration raw = Some d"
  shows "60000 \<le> d" "d \<le> max_pause_milliseconds"
  using assms by (auto simp: parse_pause_duration_def Let_def max_pause_milliseconds_def split: if_splits)

text \<open>Only a readable lease that names a later time pauses anything.\<close>

lemma active_pause:
  assumes "pause_read env now file = ActivePause until"
  obtains raw parsed t where "file = Content raw" "be_size env raw \<le> max_pause_bytes"
    and "io_parse (se_io (be_store env)) raw = Some parsed" "property parsed ''until'' = Some (JString t)"
    and "dt_value (se_dates (be_store env)) (JString t) = Some until" "now < until"
  using assms
  by (cases "file")
    (auto simp: pause_read_def exceeds_def file_text_def as_string_def not_less
      split: if_splits option.splits json.splits)

lemma pause_written_read:
  assumes "env_ok (be_store env)"
    and "be_size env (io_print (se_io (be_store env)) (pause_document (se_dates (be_store env)) until)) \<le> max_pause_bytes"
  shows "pause_read env now (Content (io_print (se_io (be_store env)) (pause_document (se_dates (be_store env)) until))) =
    (if now < until then ActivePause until else ExpiredPause until)"
proof -
  have "\<not> array_index ''until''" by code_simp
  then have "wf_json (pause_document (se_dates (be_store env)) until)"
    by (simp add: pause_document_def property_order_plain)
  moreover have "dt_value (se_dates (be_store env)) (JString (dt_iso (se_dates (be_store env)) until)) = Some until"
    using assms(1) unfolding env_ok_def dates_ok_def by blast
  moreover have "json_io_ok (se_io (be_store env))" using assms(1) by (simp add: env_ok_def)
  ultimately show ?thesis
    using assms(2)
    by (simp add: pause_read_def exceeds_def file_text_def json_io_ok_def pause_document_def
        property_def as_string_def)
qed

section \<open>What the daemon says of itself\<close>

datatype coverage_status = CoverageProtected | CoverageDegraded

record daemon_coverage =
  dv_status :: coverage_status
  dv_reasons :: "string list"

record daemon_runtime =
  rt_pid :: int
  rt_version :: string
  rt_started :: string
  rt_coverage :: "daemon_coverage option"

definition coverage_name :: "coverage_status \<Rightarrow> string" where
  "coverage_name s = (case s of CoverageProtected \<Rightarrow> ''protected'' | CoverageDegraded \<Rightarrow> ''degraded'')"

definition runtime_value :: "daemon_runtime \<Rightarrow> json" where
  "runtime_value r =
     JObject
       ([(''pid'', json_int (rt_pid r)), (''version'', JString (rt_version r)),
         (''startedAt'', JString (rt_started r))] @
        (case rt_coverage r of
           None \<Rightarrow> []
         | Some c \<Rightarrow>
             [(''coverage'', JObject [(''status'', JString (coverage_name (dv_status c))),
                 (''reasons'', JArray (map JString (dv_reasons c)))])]))"

definition runtime_announce :: "'r bounded_env \<Rightarrow> daemon_runtime \<Rightarrow> 'r disk_file" where
  "runtime_announce env r = Content (io_print (se_io (be_store env)) (runtime_value r))"

definition parse_coverage :: "json option \<Rightarrow> daemon_coverage option" where
  "parse_coverage j =
     (case j of
        None \<Rightarrow> None
      | Some raw \<Rightarrow>
          let status = (if property raw ''status'' = Some (JString ''protected'') then Some CoverageProtected
                        else if property raw ''status'' = Some (JString ''degraded'') then Some CoverageDegraded else None)
          in case status of
               None \<Rightarrow> None
             | Some s \<Rightarrow>
                 (case text_items (property raw ''reasons'') of
                    Inl _ \<Rightarrow> None
                  | Inr rs \<Rightarrow> Some \<lparr>dv_status = s, dv_reasons = rs\<rparr>))"

definition max_runtime_bytes :: int where
  "max_runtime_bytes = 4096"

text \<open>\<open>typeof pid === 'number' && Number.isInteger(pid) && pid > 0\<close>.\<close>

definition process_number :: "json option \<Rightarrow> int option" where
  "process_number j =
     (case j of
        Some (JNumber n) \<Rightarrow> (case js_integer n of Some k \<Rightarrow> if k > 0 then Some k else None | None \<Rightarrow> None)
      | _ \<Rightarrow> None)"

definition runtime_read :: "'r bounded_env \<Rightarrow> 'r disk_file \<Rightarrow> daemon_runtime option" where
  "runtime_read env file =
     (if exceeds env max_runtime_bytes file then None
      else case file_text file of
             None \<Rightarrow> None
           | Some raw \<Rightarrow>
               (case io_parse (se_io (be_store env)) raw of
                  None \<Rightarrow> None
                | Some parsed \<Rightarrow>
                    (case (process_number (property parsed ''pid''), as_string (property parsed ''version''),
                           as_string (property parsed ''startedAt'')) of
                       (Some pid, Some version, Some started) \<Rightarrow>
                         if length version = 0 then None
                         else Some \<lparr>rt_pid = pid, rt_version = version, rt_started = started,
                                   rt_coverage = parse_coverage (property parsed ''coverage'')\<rparr>
                     | _ \<Rightarrow> None)))"

datatype runtime_state = RuntimeAbsent | RuntimeStopped | RuntimeStale | RuntimeCurrent

definition daemon_runtime_state :: "daemon_runtime option \<Rightarrow> string \<Rightarrow> (int \<Rightarrow> bool) \<Rightarrow> runtime_state" where
  "daemon_runtime_state r installed is_alive =
     (case r of
        None \<Rightarrow> RuntimeAbsent
      | Some rt \<Rightarrow>
          if \<not> is_alive (rt_pid rt) then RuntimeStopped
          else if rt_version rt = installed then RuntimeCurrent else RuntimeStale)"

lemma runtime_current:
  assumes "daemon_runtime_state (runtime_read env file) installed is_alive = RuntimeCurrent"
  obtains raw parsed pid where "file = Content raw" "be_size env raw \<le> max_runtime_bytes"
    and "io_parse (se_io (be_store env)) raw = Some parsed"
    and "process_number (property parsed ''pid'') = Some pid" "is_alive pid"
    and "property parsed ''version'' = Some (JString installed)"
  using assms
  by (cases "file")
    (auto simp: daemon_runtime_state_def runtime_read_def exceeds_def file_text_def as_string_def not_less
      split: if_splits option.splits json.splits)

lemma parse_coverage_back:
  "parse_coverage (Some (JObject [(''status'', JString (coverage_name (dv_status c))),
     (''reasons'', JArray (map JString (dv_reasons c)))])) = Some c"
  by (cases "dv_status c") (simp_all add: parse_coverage_def property_def coverage_name_def text_items_back)

lemma runtime_announced:
  assumes "json_io_ok (se_io (be_store env))" "0 < rt_pid r" "rt_version r \<noteq> []"
    and "be_size env (io_print (se_io (be_store env)) (runtime_value r)) \<le> max_runtime_bytes"
  shows "runtime_read env (runtime_announce env r) = Some r"
proof -
  have k: "list_all (\<lambda>k. \<not> array_index k) [''pid'', ''version'', ''startedAt'', ''coverage'', ''status'', ''reasons'']"
    by code_simp
  have "wf_json (runtime_value r)"
    using k by (cases "rt_coverage r") (simp_all add: runtime_value_def property_order_plain json_int_wf)
  moreover have "process_number (Some (json_int n)) = Some n" if "0 < n" for n
    using that js_integer_json_int_from [of 0 n] by (simp add: process_number_def json_int_def)
  ultimately show ?thesis
    using assms parse_coverage_back
    by (cases "rt_coverage r")
      (simp_all add: runtime_read_def runtime_announce_def exceeds_def file_text_def json_io_ok_def runtime_value_def
        property_def as_string_def, simp add: parse_coverage_def)
qed

section \<open>A pause ends\<close>

lemma pause_command_file:
  assumes "pause_command env append_ok now args w = (r, w')"
  obtains (same) "pw_file w' = pw_file w" | (removed) "pw_file w' = Missing"
  | (leased) d where "60000 \<le> d" "d \<le> max_pause_milliseconds"
      and "pw_file w' = Content (io_print (se_io (be_store env)) (pause_document (se_dates (be_store env)) (now + d)))"
proof -
  let ?first = "case args of [] \<Rightarrow> None | a # _ \<Rightarrow> Some a"
  have audit: "pw_file w2 = pw_file w1" if "pause_audit append_ok e c w1 = (r, w2)" for e c w1 w2
    using that by (auto simp: pause_audit_def split: if_splits)
  show ?thesis
  proof (cases "?first \<in> {Some ''--resume'', Some ''resume''}")
    case True
    then show ?thesis using removed audit [of _ _ "w\<lparr>pw_file := Missing\<rparr>" w'] assms
      by (auto simp: pause_command_def Let_def)
  next
    case False
    show ?thesis
    proof (cases "parse_pause_duration (case ?first of None \<Rightarrow> ''1h'' | Some a \<Rightarrow> a)")
      case None
      then show ?thesis using same assms False by (auto simp: pause_command_def Let_def)
    next
      case (Some d)
      have "pw_file w' = Content (io_print (se_io (be_store env)) (pause_document (se_dates (be_store env)) (now + d)))"
        using assms False Some by (auto simp: pause_command_def Let_def dest: audit)
      then show ?thesis using leased [OF pause_durations [OF Some]] by blast
    qed
  qed
qed

text \<open>A pause ends by itself. Whatever arguments the pause command is given, the file it
  leaves behind when it changes it pauses the notifications not at all or for at least a
  minute and at most a day from now, and not at any time from then on, also when the
  audit entry cannot be written.\<close>

theorem pause_always_ends:
  assumes "env_ok (be_store env)" "pause_command env append_ok now args w = (r, w')" "pw_file w' \<noteq> pw_file w"
    and "\<forall>t. be_size env (io_print (se_io (be_store env)) (pause_document (se_dates (be_store env)) t)) \<le> max_pause_bytes"
    and "now + max_pause_milliseconds \<le> moment"
  shows "(pause_read env now (pw_file w') = Inactive \<or>
      (\<exists>until. pause_read env now (pw_file w') = ActivePause until \<and> now + 60000 \<le> until \<and>
         until \<le> now + max_pause_milliseconds)) \<and>
    \<not> (\<exists>until. pause_read env moment (pw_file w') = ActivePause until)"
  using assms(2)
proof (cases rule: pause_command_file)
  case removed
  then show ?thesis by (simp add: pause_read_def exceeds_def file_text_def)
next
  case (leased d)
  have lease: "pause_read env t (pw_file w') = (if t < now + d then ActivePause (now + d) else ExpiredPause (now + d))" for t
    unfolding leased(3) using pause_written_read [OF assms(1)] assms(4) by blast
  show ?thesis using leased(1,2) assms(5) by (simp add: lease max_pause_milliseconds_def)
qed (use assms(3) in simp)

lemma pause_always_ends_witness:
  "\<exists>r w'. pause_command \<lparr>be_store = sample_env, be_size = (\<lambda>_. 100)\<rparr> (\<lambda>_ _. False) 5 [''2h'']
       \<lparr>pw_file = Missing, pw_log = []\<rparr> = (r, w') \<and>
     (\<exists>until. pause_read \<lparr>be_store = sample_env, be_size = (\<lambda>_. 100)\<rparr> 5 (pw_file w') = ActivePause until)"
proof -
  let ?env = "\<lparr>be_store = sample_env, be_size = (\<lambda>_. 100)\<rparr>" and ?w = "\<lparr>pw_file = Missing, pw_log = []\<rparr>"
  obtain r w' where run: "pause_command ?env (\<lambda>_ _. False) 5 [''2h''] ?w = (r, w')"
    by (cases "pause_command ?env (\<lambda>_ _. False) 5 [''2h''] ?w")
  have "parse_pause_duration ''2h'' = Some 7200000" by code_simp
  then have left: "\<exists>c. pw_file w' = Content c" "pw_file w' \<noteq> pw_file ?w"
    using run by (auto simp: pause_command_def pause_audit_def)
  have "pause_read ?env 5 (pw_file w') = Inactive \<or>
      (\<exists>until. pause_read ?env 5 (pw_file w') = ActivePause until \<and> 5 + 60000 \<le> until \<and>
         until \<le> 5 + max_pause_milliseconds)"
    using pause_always_ends [of ?env, OF _ run left(2)] sample_env_ok by (auto simp: max_pause_bytes_def)
  moreover have "pause_read ?env 5 (Content c) \<noteq> Inactive" for c
    by (auto simp: pause_read_def exceeds_def file_text_def split: option.splits)
  ultimately show ?thesis using run left(1) by auto
qed

end
