(* ===== verification/Persistence.thy ===== *)
theory Persistence
  imports ToolRules
begin

text \<open>
  \<open>src/domain/entities/BaselineChange.ts\<close> and \<open>src/domain/rules/persistence/index.ts\<close>:
  one difference between the trusted snapshot and the system, and the rules (family P) that
  judge it. A content is \<open>None\<close> when the file is gone. The regular expressions are written
  out as tests on the text, and two texts spell their apostrophe as UTF-8 bytes. The lemmas
  show that a finding carries the path and the hash of the change it is about, and that
  nothing is judged less severely while isolation is active.
\<close>

section \<open>A change\<close>

datatype change_kind = Created | Modified | Deleted

definition change_kind_name :: "change_kind \<Rightarrow> string" where
  "change_kind_name k = (case k of Created \<Rightarrow> ''created'' | Modified \<Rightarrow> ''modified'' | Deleted \<Rightarrow> ''deleted'')"

record baseline_change =
  bc_path :: abs_path
  bc_kind :: change_kind
  bc_previous :: "content_hash option"
  bc_current :: "content_hash option"
  bc_content :: "string option"
  bc_context :: path_context
  bc_sandboxed :: bool

definition change_display :: "baseline_change \<Rightarrow> string" where
  "change_display c = to_display (bc_path c) (ctx_home (bc_context c))"

definition change_contains :: "baseline_change \<Rightarrow> (string \<Rightarrow> bool) \<Rightarrow> bool" where
  "change_contains c needle = (case bc_content c of None \<Rightarrow> False | Some t \<Rightarrow> needle t)"

section \<open>The shared plumbing\<close>

text \<open>What a rule of the family supplies; \<open>describe\<close> is \<open>None\<close> for a change not worth reporting.\<close>

record persistence_spec =
  ps_info :: rule_info
  ps_patterns :: "string list"
  ps_describe :: "baseline_change \<Rightarrow> string option"
  ps_needle :: "string \<Rightarrow> bool"

definition was_changed :: "baseline_change \<Rightarrow> string" where
  "was_changed c = change_display c @ '' was '' @ change_kind_name (bc_kind c) @ ''.''"

text \<open>The default needle \<open>/.*/\<close>.\<close>

definition any_text :: "string \<Rightarrow> bool" where
  "any_text t = True"

definition persistence_applies :: "persistence_spec \<Rightarrow> baseline_change \<Rightarrow> bool res" where
  "persistence_applies s c =
     rmap (list_ex (\<lambda>p. pattern_matches p (bc_path c) (ctx_home (bc_context c))))
       (traverse pattern_of (ps_patterns s))"

definition persistence_draft :: "persistence_spec \<Rightarrow> baseline_change \<Rightarrow> string \<Rightarrow> finding_draft" where
  "persistence_draft s c detail =
     \<lparr>dr_title = ri_title (ps_info s),
      dr_detail = (if bc_sandboxed c
        then detail @ '' This happened while isolation was active, so something got around it.'' else detail),
      dr_subject = change_display c, dr_hash = bc_current c,
      dr_location = (case bc_content c of None \<Rightarrow> None | Some t \<Rightarrow> first_match t (ps_needle s)),
      dr_severity = Some (if bc_sandboxed c then escalated (ri_severity (ps_info s)) else ri_severity (ps_info s)),
      dr_disposition = None\<rparr>"

definition persistence_inspect :: "persistence_spec \<Rightarrow> baseline_change \<Rightarrow> finding list" where
  "persistence_inspect s c =
     (case ps_describe s c of
        None \<Rightarrow> []
      | Some detail \<Rightarrow> [make_finding (ps_info s) (persistence_draft s c detail)])"

definition persistence_rule :: "persistence_spec \<Rightarrow> baseline_change rule" where
  "persistence_rule s = mk_rule (ps_info s) (persistence_applies s) (\<lambda>c. Inr (persistence_inspect s c))"

section \<open>The rules\<close>

definition any_change :: "rule_info \<Rightarrow> string list \<Rightarrow> persistence_spec" where
  "any_change i patterns =
     \<lparr>ps_info = i, ps_patterns = patterns, ps_describe = (\<lambda>c. Some (was_changed c)), ps_needle = any_text\<rparr>"

definition zsh_env_rule :: persistence_spec where
  "zsh_env_rule = any_change
     (rule_info_of ''AG-P001'' Critical Ask ''~/.zshenv changed''
       (''~/.zshenv is read by every zsh process, including non-interactive ones. Review the diff; '' @
        ''the previous version is in ~/.agentkeeper/backups/.''))
     [''~/.zshenv'']"

definition shell_startup_rule :: persistence_spec where
  "shell_startup_rule = any_change
     (rule_info_of ''AG-P002'' High Ask ''A shell startup file changed''
       (''Version managers and plugin frameworks edit these legitimately on update. Confirm the change '' @
        ''matches something you just installed.''))
     [''~/.zshrc'', ''~/.bashrc'', ''~/.bash_profile'', ''~/.profile'', ''~/.config/fish/config.fish'',
      ''~/.config/fish/conf.d/**'']"

text \<open>\<open>DANGEROUS_GIT_KEYS\<close>, whose flag ignores the case of letters of ASCII; the words are in lower case.\<close>

definition dangerous_git_keys :: "string \<Rightarrow> bool" where
  "dangerous_git_keys t =
     list_ex (contains_str (to_lower t))
       [''hookspath'', ''sshcommand'', ''[alias]'', ''[credential]'', ''credential.helper'']"

definition git_config_rule :: persistence_spec where
  "git_config_rule =
     \<lparr>ps_info = rule_info_of ''AG-P003'' Critical Ask ''Global git configuration gained an executable setting''
        (''core.hooksPath, credential.helper and shell aliases each run a command during ordinary git '' @
         ''use. Remove the entry if you did not add it.''),
      ps_patterns = [''~/.gitconfig'', ''~/.config/git/config''],
      ps_describe = (\<lambda>c. if \<not> change_contains c dangerous_git_keys then None
        else Some (change_display c @ '' now contains a setting that executes a command.'')),
      ps_needle = dangerous_git_keys\<rparr>"

definition autostart_unit_rule :: persistence_spec where
  "autostart_unit_rule = any_change
     (rule_info_of ''AG-P004'' Critical Ask ''A login-time service appeared or changed''
       (''A launch agent or user unit starts on every login and restarts itself. Remove it unless you '' @
        ''installed it deliberately.''))
     [''~/Library/LaunchAgents/**'', ''~/.config/systemd/user/**'']"

definition crontab_rule :: persistence_spec where
  "crontab_rule = any_change
     (rule_info_of ''AG-P005'' Critical Ask ''Scheduled tasks changed''
       ''A cron entry runs on a schedule regardless of what you are doing. Review it.'')
     [''/private/var/at/tabs/**'', ''/var/spool/cron/**'']"

definition ssh_execution :: "string \<Rightarrow> bool" where
  "ssh_execution t = list_ex (contains_str t) [''ProxyCommand'', ''LocalCommand'', ''PermitLocalCommand'']"

definition ssh_describe :: "baseline_change \<Rightarrow> string" where
  "ssh_describe c =
     (if basename (bc_path c) = ''authorized_keys''
      then change_display c @ '' changed: someone may now be able to log in to this machine.''
      else if \<not> change_contains c ssh_execution then was_changed c
      else change_display c @ '' now runs a command on every SSH connection.'')"

definition ssh_persistence_rule :: persistence_spec where
  "ssh_persistence_rule =
     \<lparr>ps_info = rule_info_of ''AG-P006'' Critical Ask ''SSH access or configuration changed''
        (''A key in authorized_keys is permanent remote access; ProxyCommand runs on every connection. '' @
         ''Both are worth reading line by line.''),
      ps_patterns = [''~/.ssh/authorized_keys'', ''~/.ssh/config''],
      ps_describe = (\<lambda>c. Some (ssh_describe c)), ps_needle = ssh_execution\<rparr>"

text \<open>The pattern \<open>NPM_SENSITIVE\<close>: \<open>registry\<close> or \<open>_auth\<close> before an equals sign, or \<open>_authToken\<close>.\<close>

definition assigned :: "string \<Rightarrow> string \<Rightarrow> bool" where
  "assigned word t =
     list_ex (\<lambda>s. starts_with s word \<and> starts_with (dropWhile is_space (drop (length word) s)) ''='') (suffixes t)"

definition npm_sensitive :: "string \<Rightarrow> bool" where
  "npm_sensitive t = (assigned ''registry'' t \<or> contains_str t ''_authToken'' \<or> assigned ''_auth'' t)"

definition npmrc_rule :: persistence_spec where
  "npmrc_rule =
     \<lparr>ps_info = rule_info_of ''AG-P007'' High Ask ''~/.npmrc registry or token changed''
        (''A changed registry redirects every install to a server of somebody else'' @ right_quote @
         ''s choosing. A new '' @ ''token is worth explaining.''),
      ps_patterns = [''~/.npmrc''],
      ps_describe = (\<lambda>c. if \<not> change_contains c npm_sensitive then None
        else Some (change_display c @ '' changed its registry or an authentication token.'')),
      ps_needle = npm_sensitive\<rparr>"

definition agent_config_drift_rule :: persistence_spec where
  "agent_config_drift_rule = any_change
     (rule_info_of ''AG-P008'' High Ask ''Agent configuration changed outside agentkeeper''
       (''Hooks and MCP servers in global agent settings apply to every project you open. Confirm you '' @
        ''made this change.''))
     [''~/.claude/settings*.json'', ''~/.claude.json'', ''~/.gemini/settings.json'', ''~/.cursor/mcp.json'']"

definition control_plane_drift_rule :: persistence_spec where
  "control_plane_drift_rule = any_change
     (rule_info_of ''AG-P009'' Critical Ask ''Agentkeeper protected configuration changed''
       (''Run `agentkeeper repair` and review the pending persistence incident. Do not approve it '' @
        ''unless the checksum change matches an installation or configuration action you initiated.''))
     [''~/.agentkeeper/config.json'', ''~/.agentkeeper/allowlist.json'', ''~/.agentkeeper/installation/**'',
      ''~/.agentkeeper/shell/**'', ''~/.agentkeeper/shims/**'']"

definition persistence_specs :: "persistence_spec list" where
  "persistence_specs =
     [zsh_env_rule, shell_startup_rule, git_config_rule, autostart_unit_rule, crontab_rule,
      ssh_persistence_rule, npmrc_rule, agent_config_drift_rule, control_plane_drift_rule]"

definition persistence_scanner :: "baseline_change rule_registry res" where
  "persistence_scanner = rule_registry_of (map persistence_rule persistence_specs)"

section \<open>What a finding says of its change\<close>

lemma persistence_scanner_rules: "persistence_scanner = Inr \<lparr>rr_rules = map persistence_rule persistence_specs\<rparr>"
proof -
  have "check_unique_rules {} (map persistence_rule persistence_specs) = Inr ()"
    by code_simp
  then show ?thesis by (simp add: persistence_scanner_def rule_registry_of_def)
qed

lemma persistence_finding:
  assumes "f \<in> set (persistence_inspect s c)"
  shows "fd_subject f = change_display c" "fd_hash f = bc_current c" "fd_rule f = ri_id (ps_info s)"
    and "fd_severity f = (if bc_sandboxed c then escalated (ri_severity (ps_info s)) else ri_severity (ps_info s))"
    and "ps_describe s c \<noteq> None"
  using assms
  by (cases "ps_describe s c"; simp add: persistence_inspect_def make_finding_def persistence_draft_def)+

lemma persistence_severe: "s \<in> set persistence_specs \<Longrightarrow> ri_severity (ps_info s) \<ge> High"
  by (auto simp: persistence_specs_def zsh_env_rule_def shell_startup_rule_def git_config_rule_def
      autostart_unit_rule_def crontab_rule_def ssh_persistence_rule_def npmrc_rule_def
      agent_config_drift_rule_def control_plane_drift_rule_def any_change_def rule_info_of_def less_eq_severity_def)

lemma evaluate_persistence:
  "evaluate_rule (persistence_rule s) c = Inr fs \<Longrightarrow> f \<in> set fs \<Longrightarrow> f \<in> set (persistence_inspect s c)"
  by (cases "persistence_applies s c")
    (auto simp: evaluate_rule_def persistence_rule_def mk_rule_def split: if_splits)

text \<open>Every finding of the family is at least of severity \<open>high\<close>, and is about one of the changes.\<close>

lemma persistence_scan:
  assumes "persistence_scanner = Inr reg" "engine_scan reg cs switches = Inr report" "f \<in> set (rp_findings report)"
  obtains c s where "c \<in> set cs" "s \<in> set persistence_specs" "f \<in> set (persistence_inspect s c)"
    and "fd_subject f = change_display c" "fd_hash f = bc_current c" "fd_severity f \<ge> High"
proof -
  have reg: "rr_rules reg = map persistence_rule persistence_specs"
    using assms(1) by (auto simp: persistence_scanner_rules)
  obtain c r gs where c: "c \<in> set cs" "r \<in> set (enabled_rules reg switches)" "evaluate_rule r c = Inr gs" "f \<in> set gs"
    using scan_set [OF assms(2)] assms(3) by blast
  then obtain s where s: "s \<in> set persistence_specs" "r = persistence_rule s"
    by (auto simp: enabled_rules_def reg)
  have f: "f \<in> set (persistence_inspect s c)" using evaluate_persistence c(3,4) s(2) by blast
  have "fd_severity f \<ge> High"
    using persistence_finding(4) [OF f] persistence_severe [OF s(1)] escalated_ge order_trans by (auto split: if_splits)
  then show ?thesis using that c(1) s(1) f persistence_finding(1,2) [OF f] by blast
qed

end
