(* ===== verification/Monitor.thy ===== *)
theory Monitor
  imports Baseline Pending Persistence
begin

text \<open>
  \<open>src/application/use-cases/MonitorPersistence.ts\<close>: one comparison of the system with the
  trusted snapshot. The stores, the collector, the scanner, the notifier, the audit log, the
  clock and the collation of \<open>localeCompare\<close> are parameters; the notification budget is part
  of the state and outlives a comparison. The lemmas show that trust advances for a path
  only with what the rules do not object to or a durable decision allows, that whatever
  stays unresolved is an incident, and where the code falls short of that.
\<close>

section \<open>Ports\<close>

record monitor_ports =
  mo_collect :: "baseline_entry list res"
  mo_decisions :: "stored_decision list res"
  mo_pause :: "pause_state res"
  mo_read :: "abs_path \<Rightarrow> string option res"
  mo_scan :: "baseline_change list \<Rightarrow> scan_report res"
  mo_notify :: "finding list \<Rightarrow> finding \<Rightarrow> bool"
  mo_cause :: "finding \<Rightarrow> string"
  mo_append :: "audit_entry list \<Rightarrow> audit_entry \<Rightarrow> bool"
  mo_now :: int
  mo_context :: path_context
  mo_sandboxed :: bool
  mo_compare :: "string \<Rightarrow> string \<Rightarrow> int"
  mo_policy :: notification_policy

text \<open>The two stores that are written, over the types of their files.\<close>

record ('b, 'p) monitor_stores =
  mt_load_baseline :: "'b \<Rightarrow> baseline_entry list res"
  mt_save_baseline :: "baseline_entry list \<Rightarrow> 'b res"
  mt_load_pending :: "'p \<Rightarrow> incident list res"
  mt_save_pending :: "incident list \<Rightarrow> 'p res"

record ('b, 'p) monitor_state =
  mn_baseline :: 'b
  mn_pending :: 'p
  mn_log :: "audit_entry list"
  mn_budget :: budget
  mn_tried :: "finding list"
  mn_sent :: nat

section \<open>The changes\<close>

text \<open>\<open>new Map(entries.map((entry) => [entry.path.value, entry]))\<close>.\<close>

definition index_entries :: "baseline_entry list \<Rightarrow> (string \<times> baseline_entry) list" where
  "index_entries es = foldl (\<lambda>m e. map_set (ap_value (bl_path e)) e m) [] es"

definition change_descriptors ::
  "baseline_entry list \<Rightarrow> baseline_entry list \<Rightarrow> (baseline_entry option \<times> baseline_entry option) list" where
  "change_descriptors previous current =
     (let past = index_entries previous; present = index_entries current
      in map (\<lambda>a. (map_of past (ap_value (bl_path a)), Some a))
           (filter (\<lambda>a. case map_of past (ap_value (bl_path a)) of None \<Rightarrow> True | Some b \<Rightarrow> bl_hash b \<noteq> bl_hash a) current) @
         map (\<lambda>b. (Some b, None)) (filter (\<lambda>b. map_of present (ap_value (bl_path b)) = None) previous))"

definition make_change ::
  "monitor_ports \<Rightarrow> baseline_entry option \<times> baseline_entry option \<Rightarrow> baseline_change res" where
  "make_change ports d =
     (case d of
        (past, Some a) \<Rightarrow>
          rmap (\<lambda>content.
              \<lparr>bc_path = bl_path a, bc_kind = (if past = None then Created else Modified),
               bc_previous = map_option bl_hash past, bc_current = Some (bl_hash a), bc_content = content,
               bc_context = mo_context ports, bc_sandboxed = mo_sandboxed ports\<rparr>)
            (mo_read ports (bl_path a))
      | (Some b, None) \<Rightarrow>
          Inr \<lparr>bc_path = bl_path b, bc_kind = Deleted, bc_previous = Some (bl_hash b), bc_current = None,
               bc_content = None, bc_context = mo_context ports, bc_sandboxed = mo_sandboxed ports\<rparr>
      | (None, None) \<Rightarrow> Inl TypeErr)"

definition build_changes ::
  "monitor_ports \<Rightarrow> baseline_entry list \<Rightarrow> baseline_entry list \<Rightarrow> baseline_change list res" where
  "build_changes ports previous current =
     rmap (array_sort (\<lambda>l r. mo_compare ports (ap_value (bc_path l)) (ap_value (bc_path r))))
       (traverse (make_change ports) (change_descriptors previous current))"

section \<open>Decisions on a finding\<close>

text \<open>\<open>ruleIds.includes(id)\<close> of a stored value that was not checked: a string is searched, another value throws.\<close>

definition rule_ids_include :: "json option \<Rightarrow> string \<Rightarrow> bool res" where
  "rule_ids_include j ident =
     (case j of
        Some (JArray xs) \<Rightarrow> Inr (JString ident \<in> set xs)
      | Some (JString s) \<Rightarrow> Inr (contains_str s ident)
      | _ \<Rightarrow> Inl TypeErr)"

definition matching_decision :: "(string \<times> stored_decision) list \<Rightarrow> finding \<Rightarrow> stored_decision option res" where
  "matching_decision ds f =
     (case map_of ds (decision_key f) of
        None \<Rightarrow> Inr None
      | Some d \<Rightarrow>
          if dc_subject d \<noteq> Some (fd_subject f) then Inr None
          else rmap (\<lambda>b. if b then Some d else None) (rule_ids_include (dc_rule_ids d) (rid_value (fd_rule f))))"

definition durably_allowed :: "stored_decision option \<Rightarrow> finding \<Rightarrow> bool" where
  "durably_allowed d f = ((case d of None \<Rightarrow> False | Some x \<Rightarrow> dc_verdict x = Allow) \<and> fd_hash f \<noteq> None)"

definition finding_allowed :: "(string \<times> stored_decision) list \<Rightarrow> finding \<Rightarrow> bool res" where
  "finding_allowed ds f = rmap (\<lambda>d. durably_allowed d f) (matching_decision ds f)"

text \<open>\<open>every\<close> with a test that may throw; it stops at the first that fails.\<close>

fun every_res :: "('a \<Rightarrow> bool res) \<Rightarrow> 'a list \<Rightarrow> bool res" where
  "every_res f [] = Inr True"
| "every_res f (x # xs) = rbind (f x) (\<lambda>b. if b then every_res f xs else Inr False)"

section \<open>Resolving the changes\<close>

datatype resolution = Safe | Accepted | Unresolved

definition incident_id :: "finding \<Rightarrow> string" where
  "incident_id f = rid_value (fd_rule f) @ ''@'' @ fd_subject f @ ''@'' @ decision_key f"

definition safe_integer_limit :: int where
  "safe_integer_limit = 9007199254740991"

definition make_incident ::
  "int \<Rightarrow> baseline_change \<Rightarrow> finding \<Rightarrow> stored_decision option \<Rightarrow> incident option \<Rightarrow> incident" where
  "make_incident now c f d existing =
     \<lparr>ic_id = incident_id f, ic_key = decision_key f, ic_subject = fd_subject f,
      ic_rules = [rid_value (fd_rule f)], ic_severity = fd_severity f,
      ic_state = (case d of None \<Rightarrow> PendingReview
        | Some x \<Rightarrow> if dc_verdict x = Deny then Quarantined else PendingReview),
      ic_previous = map_option hash_to_string (bc_previous c), ic_current = map_option hash_to_string (bc_current c),
      ic_first = (case existing of None \<Rightarrow> now | Some i \<Rightarrow> ic_first i), ic_last = now,
      ic_count = min ((case existing of None \<Rightarrow> 0 | Some i \<Rightarrow> ic_count i) + 1) safe_integer_limit\<rparr>"

definition index_incidents :: "incident list \<Rightarrow> (string \<times> incident) list" where
  "index_incidents xs = foldl (\<lambda>m i. map_set (ic_id i) i m) [] xs"

fun change_incidents ::
  "int \<Rightarrow> (string \<times> stored_decision) list \<Rightarrow> (string \<times> incident) list \<Rightarrow> baseline_change \<Rightarrow> finding list \<Rightarrow>
     incident list res" where
  "change_incidents now ds known c [] = Inr []"
| "change_incidents now ds known c (f # fs) =
     rbind (matching_decision ds f) (\<lambda>d.
     rbind (change_incidents now ds known c fs) (\<lambda>rest.
       Inr (if durably_allowed d f then rest
            else make_incident now c f d (map_of known (incident_id f)) # rest)))"

definition risky :: "scan_report \<Rightarrow> string \<Rightarrow> finding list" where
  "risky report subject =
     filter (\<lambda>f. is_at_least (fd_severity f) High) (filter (\<lambda>f. fd_subject f = subject) (rp_findings report))"

text \<open>\<open>applyTrustedChange\<close>: \<open>find\<close> takes the first entry of the path.\<close>

definition apply_trusted ::
  "baseline_entry list \<Rightarrow> baseline_change \<Rightarrow> (string \<times> baseline_entry) list \<Rightarrow> (string \<times> baseline_entry) list" where
  "apply_trusted current c m =
     (case find (\<lambda>e. ap_value (bl_path e) = ap_value (bc_path c)) current of
        None \<Rightarrow> filter (\<lambda>p. fst p \<noteq> ap_value (bc_path c)) m
      | Some e \<Rightarrow> map_set (ap_value (bc_path c)) e m)"

record resolving =
  rs_baseline :: "(string \<times> baseline_entry) list"
  rs_resolution :: "(string \<times> resolution) list"
  rs_incidents :: "incident list"

definition resolve_change ::
  "int \<Rightarrow> (string \<times> stored_decision) list \<Rightarrow> (string \<times> incident) list \<Rightarrow> baseline_entry list \<Rightarrow> scan_report \<Rightarrow>
     baseline_change \<Rightarrow> resolving \<Rightarrow> resolving res" where
  "resolve_change now ds known current report c rs =
     (let fs = risky report (change_display c)
      in rbind (every_res (finding_allowed ds) fs) (\<lambda>approved.
         if length fs = 0 \<or> approved then
           Inr (rs\<lparr>rs_baseline := apply_trusted current c (rs_baseline rs),
                  rs_resolution := map_set (change_display c) (if length fs = 0 then Safe else Accepted) (rs_resolution rs)\<rparr>)
         else
           rmap (\<lambda>is. rs\<lparr>rs_resolution := map_set (change_display c) Unresolved (rs_resolution rs),
                         rs_incidents := rs_incidents rs @ is\<rparr>)
             (change_incidents now ds known c fs)))"

fun resolve_changes ::
  "int \<Rightarrow> (string \<times> stored_decision) list \<Rightarrow> (string \<times> incident) list \<Rightarrow> baseline_entry list \<Rightarrow> scan_report \<Rightarrow>
     baseline_change list \<Rightarrow> resolving \<Rightarrow> resolving res" where
  "resolve_changes now ds known current report [] rs = Inr rs"
| "resolve_changes now ds known current report (c # cs) rs =
     rbind (resolve_change now ds known current report c rs) (resolve_changes now ds known current report cs)"

section \<open>What is to be saved\<close>

record assessment =
  as_changes :: "baseline_change list"
  as_report :: scan_report
  as_resolution :: "(string \<times> resolution) list"
  as_incidents :: "incident list"
  as_trusted :: "baseline_entry list"

definition assess_changes ::
  "monitor_ports \<Rightarrow> stored_decision list \<Rightarrow> baseline_entry list \<Rightarrow> baseline_entry list \<Rightarrow> incident list \<Rightarrow>
     assessment res" where
  "assess_changes ports decisions previous current incidents =
     rbind (build_changes ports previous current) (\<lambda>changes.
     rbind (mo_scan ports changes) (\<lambda>report.
     rmap (\<lambda>rs.
         \<lparr>as_changes = changes, as_report = report, as_resolution = rs_resolution rs,
          as_incidents = array_sort (\<lambda>l r. mo_compare ports (ic_id l) (ic_id r)) (rs_incidents rs),
          as_trusted = array_sort (\<lambda>l r. mo_compare ports (ap_value (bl_path l)) (ap_value (bl_path r)))
             (map snd (rs_baseline rs))\<rparr>)
       (resolve_changes (mo_now ports) (index_decisions decisions) (index_incidents incidents) current report changes
          \<lparr>rs_baseline = index_entries previous, rs_resolution = [], rs_incidents = []\<rparr>)))"

definition same_baseline :: "baseline_entry list \<Rightarrow> baseline_entry list \<Rightarrow> bool" where
  "same_baseline previous entries =
     (length previous = length entries \<and>
      (let hashes = index_entries previous
       in list_all (\<lambda>e. case map_of hashes (ap_value (bl_path e)) of None \<Rightarrow> False | Some b \<Rightarrow> bl_hash b = bl_hash e) entries))"

definition same_incident :: "incident \<Rightarrow> incident \<Rightarrow> bool" where
  "same_incident a b = (ic_id a = ic_id b \<and> ic_state a = ic_state b \<and> ic_count a = ic_count b \<and> ic_last a = ic_last b)"

definition same_incidents :: "incident list \<Rightarrow> incident list \<Rightarrow> bool" where
  "same_incidents previous xs = (length previous = length xs \<and> list_all2 same_incident previous xs)"

section \<open>Reporting\<close>

definition audit ::
  "monitor_ports \<Rightarrow> string \<Rightarrow> (string \<times> json) list \<Rightarrow> ('b, 'p) monitor_state \<Rightarrow> unit res \<times> ('b, 'p) monitor_state" where
  "audit ports event details s =
     (let e = \<lparr>au_at = Some (mo_now ports), au_event = event, au_details = details\<rparr>
      in if mo_append ports (mn_log s) e then (Inr (), s\<lparr>mn_log := mn_log s @ [e]\<rparr>) else (Inl IoFailure, s))"

definition finding_details :: "monitor_ports \<Rightarrow> finding \<Rightarrow> (string \<times> json) list" where
  "finding_details ports f =
     [(''rule'', JString (rid_value (fd_rule f))), (''subject'', JString (fd_subject f)),
      (''severity'', JString (severity_name (fd_severity f))), (''sandboxActive'', JBool (mo_sandboxed ports))]"

definition decision_details :: "monitor_ports \<Rightarrow> finding \<Rightarrow> (string \<times> json) list" where
  "decision_details ports f = finding_details ports f @ [(''decisionKey'', JString (decision_key f))]"

definition severe :: "finding \<Rightarrow> bool" where
  "severe f = is_at_least (fd_severity f) High"

text \<open>The second audit entry of a finding, which says what became of it.\<close>

definition audit_resolution ::
  "monitor_ports \<Rightarrow> (string \<times> stored_decision) list \<Rightarrow> resolution \<Rightarrow> finding \<Rightarrow> ('b, 'p) monitor_state \<Rightarrow>
     unit res \<times> ('b, 'p) monitor_state" where
  "audit_resolution ports ds r f s =
     (if r = Unresolved \<and> severe f then
        (case matching_decision ds f of
           Inl e \<Rightarrow> (Inl e, s)
         | Inr d \<Rightarrow>
             audit ports
               (if durably_allowed d f then ''persistence.finding.accepted''
                else if (case d of None \<Rightarrow> False | Some x \<Rightarrow> dc_verdict x = Deny) then ''persistence.quarantined''
                else ''persistence.pending'')
               (decision_details ports f) s)
      else if r = Accepted \<and> severe f then audit ports ''persistence.accepted'' (decision_details ports f) s
      else (Inr (), s))"

definition approved_high :: "(string \<times> stored_decision) list \<Rightarrow> resolution \<Rightarrow> finding \<Rightarrow> bool res" where
  "approved_high ds r f =
     (if \<not> severe f then Inr False else if r = Accepted then Inr True else finding_allowed ds f)"

definition suppression_name :: "suppression \<Rightarrow> string" where
  "suppression_name x =
     (case x of Paused \<Rightarrow> ''paused'' | Approved \<Rightarrow> ''approved'' | Duplicate \<Rightarrow> ''duplicate'' | RateLimit \<Rightarrow> ''rate-limit'')"

text \<open>
  The notifier, and the \<open>try\<close> around it: an entry that cannot be appended after a
  successful notification takes the same branch as a failed notification.
\<close>

definition send_notification ::
  "monitor_ports \<Rightarrow> finding \<Rightarrow> ('b, 'p) monitor_state \<Rightarrow> unit res \<times> ('b, 'p) monitor_state" where
  "send_notification ports f s =
     (let s1 = s\<lparr>mn_tried := mn_tried s @ [f]\<rparr>;
          failed = audit ports ''persistence.notification.failed''
            (finding_details ports f @ [(''reason'', JString (mo_cause ports f))])
      in if mo_notify ports (mn_tried s) f then
           let s2 = s1\<lparr>mn_sent := mn_sent s1 + 1\<rparr>
           in case audit ports ''persistence.notification.sent'' (finding_details ports f) s2 of
                (Inr u, s3) \<Rightarrow> (Inr u, s3)
              | (Inl e, s3) \<Rightarrow> failed s3
         else failed s1)"

definition notify_finding ::
  "monitor_ports \<Rightarrow> (string \<times> stored_decision) list \<Rightarrow> bool \<Rightarrow> resolution \<Rightarrow> finding \<Rightarrow> ('b, 'p) monitor_state \<Rightarrow>
     unit res \<times> ('b, 'p) monitor_state" where
  "notify_finding ports ds paused r f s =
     (case approved_high ds r f of
        Inl e \<Rightarrow> (Inl e, s)
      | Inr approved \<Rightarrow>
          let (x, b) = suppress_notification (mo_policy ports) paused approved (mn_budget s) (decision_key f) (mo_now ports);
              s1 = s\<lparr>mn_budget := b\<rparr>
          in case x of
               Some why \<Rightarrow> audit ports ''persistence.notification.suppressed''
                 (finding_details ports f @ [(''reason'', JString (suppression_name why))]) s1
             | None \<Rightarrow> send_notification ports f s1)"

definition resolution_of :: "(string \<times> resolution) list \<Rightarrow> finding \<Rightarrow> resolution" where
  "resolution_of rs f = (case map_of rs (fd_subject f) of None \<Rightarrow> Safe | Some r \<Rightarrow> r)"

definition report_finding ::
  "monitor_ports \<Rightarrow> (string \<times> stored_decision) list \<Rightarrow> bool \<Rightarrow> (string \<times> resolution) list \<Rightarrow> finding \<Rightarrow>
     ('b, 'p) monitor_state \<Rightarrow> unit res \<times> ('b, 'p) monitor_state" where
  "report_finding ports ds paused rs f =
     (let r = resolution_of rs f
      in sbind (audit ports ''persistence.change'' (finding_details ports f)) (\<lambda>_.
         sbind (audit_resolution ports ds r f) (\<lambda>_. notify_finding ports ds paused r f)))"

fun report_findings_loop ::
  "monitor_ports \<Rightarrow> (string \<times> stored_decision) list \<Rightarrow> bool \<Rightarrow> (string \<times> resolution) list \<Rightarrow> finding list \<Rightarrow>
     ('b, 'p) monitor_state \<Rightarrow> unit res \<times> ('b, 'p) monitor_state" where
  "report_findings_loop ports ds paused rs [] s = (Inr (), s)"
| "report_findings_loop ports ds paused rs (f # fs) s =
     sbind (report_finding ports ds paused rs f) (\<lambda>_. report_findings_loop ports ds paused rs fs) s"

section \<open>A comparison\<close>

record monitor_outcome =
  mc_exit_code :: int
  mc_changes :: nat
  mc_findings :: nat
  mc_pending :: nat
  mc_notifications :: nat

text \<open>The incidents are saved before the baseline; neither is written when it says the same as before.\<close>

definition save_incidents ::
  "('b, 'p) monitor_stores \<Rightarrow> incident list \<Rightarrow> incident list \<Rightarrow> ('b, 'p) monitor_state \<Rightarrow>
     unit res \<times> ('b, 'p) monitor_state" where
  "save_incidents st previous xs s =
     (if same_incidents previous xs then (Inr (), s)
      else case mt_save_pending st xs of Inl e \<Rightarrow> (Inl e, s) | Inr p \<Rightarrow> (Inr (), s\<lparr>mn_pending := p\<rparr>))"

definition save_trusted ::
  "('b, 'p) monitor_stores \<Rightarrow> baseline_entry list \<Rightarrow> baseline_entry list \<Rightarrow> ('b, 'p) monitor_state \<Rightarrow>
     unit res \<times> ('b, 'p) monitor_state" where
  "save_trusted st previous es s =
     (if same_baseline previous es then (Inr (), s)
      else case mt_save_baseline st es of Inl e \<Rightarrow> (Inl e, s) | Inr b \<Rightarrow> (Inr (), s\<lparr>mn_baseline := b\<rparr>))"

definition audit_pause ::
  "monitor_ports \<Rightarrow> pause_state \<Rightarrow> ('b, 'p) monitor_state \<Rightarrow> unit res \<times> ('b, 'p) monitor_state" where
  "audit_pause ports p s =
     (case p of InvalidPause reason \<Rightarrow> audit ports ''pause.invalid'' [(''reason'', JString reason)] s | _ \<Rightarrow> (Inr (), s))"

definition is_paused :: "pause_state \<Rightarrow> bool" where
  "is_paused p = (case p of ActivePause _ \<Rightarrow> True | _ \<Rightarrow> False)"

text \<open>The part after the writes: it audits and notifies.\<close>

definition conclude ::
  "monitor_ports \<Rightarrow> stored_decision list \<Rightarrow> pause_state \<Rightarrow> assessment \<Rightarrow> ('b, 'p) monitor_state \<Rightarrow>
     monitor_outcome res \<times> ('b, 'p) monitor_state" where
  "conclude ports decisions pause a =
     sbind (audit_pause ports pause) (\<lambda>_.
     sbind (report_findings_loop ports (index_decisions decisions) (is_paused pause) (as_resolution a)
              (rp_findings (as_report a))) (\<lambda>_ s.
       (Inr \<lparr>mc_exit_code = (if length (as_incidents a) > 0 then 2 else 0), mc_changes = length (as_changes a),
             mc_findings = length (rp_findings (as_report a)), mc_pending = length (as_incidents a),
             mc_notifications = mn_sent s\<rparr>, s)))"

text \<open>What follows the five independent reads.\<close>

definition act_on ::
  "monitor_ports \<Rightarrow> ('b, 'p) monitor_stores \<Rightarrow> baseline_entry list \<Rightarrow> incident list \<Rightarrow> stored_decision list \<Rightarrow> pause_state \<Rightarrow>
     assessment \<Rightarrow> ('b, 'p) monitor_state \<Rightarrow> monitor_outcome res \<times> ('b, 'p) monitor_state" where
  "act_on ports st previous incidents decisions pause a =
     sbind (save_incidents st incidents (as_incidents a)) (\<lambda>_.
     sbind (save_trusted st previous (as_trusted a)) (\<lambda>_. conclude ports decisions pause a))"

definition monitor_execute ::
  "monitor_ports \<Rightarrow> ('b, 'p) monitor_stores \<Rightarrow> ('b, 'p) monitor_state \<Rightarrow> monitor_outcome res \<times> ('b, 'p) monitor_state" where
  "monitor_execute ports st s =
     (case rbind (mt_load_baseline st (mn_baseline s)) (\<lambda>previous.
           rbind (mo_collect ports) (\<lambda>current.
           rbind (mo_decisions ports) (\<lambda>decisions.
           rbind (mt_load_pending st (mn_pending s)) (\<lambda>incidents.
           rbind (mo_pause ports) (\<lambda>pause.
           rmap (\<lambda>a. (previous, incidents, decisions, pause, a))
             (assess_changes ports decisions previous current incidents)))))) of
        Inl e \<Rightarrow> (Inl e, s)
      | Inr (previous, incidents, decisions, pause, a) \<Rightarrow>
          act_on ports st previous incidents decisions pause a (s\<lparr>mn_sent := 0\<rparr>))"

section \<open>Indexing by path\<close>

definition entry_at :: "baseline_entry list \<Rightarrow> string \<Rightarrow> baseline_entry option" where
  "entry_at es v = map_of (index_entries es) v"

definition keyed :: "(string \<times> baseline_entry) list \<Rightarrow> bool" where
  "keyed m = (distinct (map fst m) \<and> (\<forall>p \<in> set m. fst p = ap_value (bl_path (snd p))))"

lemma index_entries_snoc: "index_entries (es @ [e]) = map_set (ap_value (bl_path e)) e (index_entries es)"
  by (simp add: index_entries_def)

lemma keyed_map_set: "keyed m \<Longrightarrow> keyed (map_set (ap_value (bl_path e)) e m)"
  using set_map_set distinct_map_set by (fastforce simp: keyed_def)

lemma keyed_index: "keyed (index_entries es)"
  by (induction es rule: rev_induct) (auto simp: index_entries_snoc keyed_map_set, simp add: index_entries_def keyed_def)

lemma keyed_filter: "keyed m \<Longrightarrow> keyed (filter P m)"
  by (auto simp: keyed_def distinct_filter_keys)

lemma mset_insert_by: "mset (insert_by cmp x xs) = add_mset x (mset xs)"
  by (induction xs) auto

lemma mset_array_sort: "mset (array_sort cmp xs) = mset xs"
  by (induction xs) (simp_all add: array_sort_def mset_insert_by)

lemma members_array_sort: "set (array_sort cmp xs) = set xs"
  using mset_array_sort by (metis set_mset_mset)

lemma size_array_sort: "length (array_sort cmp xs) = length xs"
  using mset_array_sort by (metis size_mset)

lemma entry_at_distinct:
  "distinct (map (\<lambda>e. ap_value (bl_path e)) es) \<Longrightarrow> entry_at es v = find (\<lambda>e. ap_value (bl_path e) = v) es"
proof (induction es rule: rev_induct)
  case (snoc e es)
  have fresh: "ap_value (bl_path e) \<notin> (\<lambda>e. ap_value (bl_path e)) ` set es" using snoc.prems by auto
  have "entry_at (es @ [e]) v = (if v = ap_value (bl_path e) then Some e else entry_at es v)"
    by (simp add: entry_at_def index_entries_snoc map_of_map_set)
  moreover have "find (\<lambda>e. ap_value (bl_path e) = v) (es @ [e]) =
      (if v = ap_value (bl_path e) then Some e else find (\<lambda>e. ap_value (bl_path e) = v) es)"
    using fresh by (induction es) auto
  ultimately show ?case using snoc by simp
qed (simp add: entry_at_def index_entries_def)

lemma find_unique: "distinct (map g es) \<Longrightarrow> find (\<lambda>e. g e = v) es = Some e \<longleftrightarrow> e \<in> set es \<and> g e = v"
  by (induction es) (auto simp: image_iff)

text \<open>Sorting the values of a keyed map and indexing them again gives the same map.\<close>

lemma entry_at_sorted:
  assumes "keyed m"
  shows "entry_at (array_sort cmp (map snd m)) v = map_of m v"
proof -
  let ?g = "\<lambda>e. ap_value (bl_path e)" and ?es = "array_sort cmp (map snd m)"
  have keys: "map ?g (map snd m) = map fst m" using assms by (auto simp: keyed_def)
  have "mset (map ?g ?es) = mset (map ?g (map snd m))" by (simp only: mset_map mset_array_sort)
  then have "mset (map ?g ?es) = mset (map fst m)" unfolding keys .
  from mset_eq_imp_distinct_iff [OF this] have d: "distinct (map ?g ?es)" using assms by (simp add: keyed_def)
  have "entry_at ?es v = Some e \<longleftrightarrow> map_of m v = Some e" for e
  proof -
    have "entry_at ?es v = Some e \<longleftrightarrow> e \<in> snd ` set m \<and> ?g e = v"
      unfolding entry_at_distinct [OF d] find_unique [OF d] by (simp add: members_array_sort)
    also have "\<dots> \<longleftrightarrow> (v, e) \<in> set m" using assms by (force simp: keyed_def)
    also have "\<dots> \<longleftrightarrow> map_of m v = Some e" using assms by (simp add: keyed_def)
    finally show ?thesis .
  qed
  then show ?thesis by (metis not_None_eq)
qed

section \<open>How trust advances\<close>

lemma every_res_True: "every_res f xs = Inr True \<Longrightarrow> x \<in> set xs \<Longrightarrow> f x = Inr True"
  by (induction xs) (auto split: if_splits)

lemma every_res_False: "every_res f xs = Inr False \<Longrightarrow> \<exists>x \<in> set xs. f x = Inr False"
  by (induction xs) (auto split: if_splits)

text \<open>The decision that settles a finding for good.\<close>

definition settles :: "stored_decision list \<Rightarrow> finding \<Rightarrow> bool" where
  "settles ds f =
     (fd_hash f \<noteq> None \<and>
      (\<exists>d. latest (decision_key f) ds = Some d \<and> dc_verdict d = Allow \<and> dc_subject d = Some (fd_subject f) \<and>
         rule_ids_include (dc_rule_ids d) (rid_value (fd_rule f)) = Inr True))"

lemma finding_allowed_settles: "finding_allowed (index_decisions ds) f = Inr True \<longleftrightarrow> settles ds f"
proof (cases "latest (decision_key f) ds")
  case (Some d)
  show ?thesis
    by (cases "rule_ids_include (dc_rule_ids d) (rid_value (fd_rule f))")
      (auto simp: finding_allowed_def matching_decision_def settles_def durably_allowed_def
        index_decisions_latest Some split: if_splits)
qed (auto simp: finding_allowed_def matching_decision_def settles_def durably_allowed_def index_decisions_latest)

lemma map_of_filter_key: "map_of (filter (\<lambda>p. fst p \<noteq> k) m) v = (if v = k then None else map_of m v)"
  by (induction m) auto

lemma apply_trusted_lookup:
  "map_of (apply_trusted current c m) v =
     (if v = ap_value (bc_path c) then find (\<lambda>e. ap_value (bl_path e) = v) current else map_of m v)"
  by (auto simp: apply_trusted_def map_of_filter_key map_of_map_set split: option.split)

lemma apply_trusted_keyed: "keyed m \<Longrightarrow> keyed (apply_trusted current c m)"
proof (cases "find (\<lambda>e. ap_value (bl_path e) = ap_value (bc_path c)) current")
  case (Some e)
  then have "ap_value (bc_path c) = ap_value (bl_path e)" using find_Some_in [OF Some] by simp
  then show "keyed m \<Longrightarrow> keyed (apply_trusted current c m)"
    using Some keyed_map_set [of m e] by (simp add: apply_trusted_def)
qed (simp add: apply_trusted_def keyed_filter)

lemma resolve_change_baseline:
  assumes "resolve_change now (index_decisions ds) known current report c rs = Inr rs'"
  shows "rs_baseline rs' = rs_baseline rs \<or>
    (rs_baseline rs' = apply_trusted current c (rs_baseline rs) \<and>
     (\<forall>f \<in> set (risky report (change_display c)). settles ds f))"
proof -
  let ?fs = "risky report (change_display c)"
  obtain b where b: "every_res (finding_allowed (index_decisions ds)) ?fs = Inr b"
    using assms by (auto simp: resolve_change_def Let_def)
  show ?thesis
  proof (cases "length ?fs = 0 \<or> b")
    case True
    have "\<forall>f \<in> set ?fs. settles ds f"
    proof
      fix f assume f: "f \<in> set ?fs"
      then have b using True by auto
      then have "finding_allowed (index_decisions ds) f = Inr True" using every_res_True [OF _ f] b by simp
      then show "settles ds f" unfolding finding_allowed_settles .
    qed
    moreover have "rs_baseline rs' = apply_trusted current c (rs_baseline rs)"
      using assms b True unfolding resolve_change_def Let_def by (auto simp del: length_0_conv)
    ultimately show ?thesis by blast
  next
    case False
    then have "rmap (\<lambda>xs. rs\<lparr>rs_resolution := map_set (change_display c) Unresolved (rs_resolution rs),
        rs_incidents := rs_incidents rs @ xs\<rparr>) (change_incidents now (index_decisions ds) known c ?fs) = Inr rs'"
      using assms b by (simp add: resolve_change_def Let_def)
    then show ?thesis by (auto dest: rmap_InrD)
  qed
qed

lemma resolve_changes_baseline:
  assumes "resolve_changes now (index_decisions ds) known current report cs rs = Inr rs'" "keyed (rs_baseline rs)"
  shows "keyed (rs_baseline rs') \<and>
    (\<forall>v. map_of (rs_baseline rs') v = map_of (rs_baseline rs) v \<or>
      map_of (rs_baseline rs') v = find (\<lambda>e. ap_value (bl_path e) = v) current \<and>
      (\<exists>c \<in> set cs. ap_value (bc_path c) = v \<and> (\<forall>f \<in> set (risky report (change_display c)). settles ds f)))"
  using assms
proof (induction cs arbitrary: rs)
  case (Cons c cs)
  obtain mid where mid: "resolve_change now (index_decisions ds) known current report c rs = Inr mid"
    "resolve_changes now (index_decisions ds) known current report cs mid = Inr rs'" using Cons.prems(1) by auto
  note step = resolve_change_baseline [OF mid(1)]
  have "keyed (rs_baseline mid)" using step Cons.prems(2) apply_trusted_keyed by auto
  note IH = Cons.IH [OF mid(2) this]
  have "map_of (rs_baseline mid) v = map_of (rs_baseline rs) v \<or>
      map_of (rs_baseline mid) v = find (\<lambda>e. ap_value (bl_path e) = v) current \<and>
      ap_value (bc_path c) = v \<and> (\<forall>f \<in> set (risky report (change_display c)). settles ds f)" for v
    using step apply_trusted_lookup [of current c "rs_baseline rs" v] by (cases "v = ap_value (bc_path c)") auto
  note first = this
  show ?case
  proof (intro conjI allI)
    fix v
    show "map_of (rs_baseline rs') v = map_of (rs_baseline rs) v \<or>
        map_of (rs_baseline rs') v = find (\<lambda>e. ap_value (bl_path e) = v) current \<and>
        (\<exists>c' \<in> set (c # cs). ap_value (bc_path c') = v \<and> (\<forall>f \<in> set (risky report (change_display c')). settles ds f))"
    proof (cases "map_of (rs_baseline rs') v = map_of (rs_baseline mid) v")
      case True
      then show ?thesis using first [of v] by auto
    next
      case False
      then show ?thesis using conjunct2 [OF IH, THEN spec [of _ v]] by auto
    qed
  qed (use IH in blast)
qed simp

lemma assessed_trust:
  assumes "assess_changes ports ds previous current incidents = Inr a"
  shows "entry_at (as_trusted a) v = entry_at previous v \<or>
    entry_at (as_trusted a) v = find (\<lambda>e. ap_value (bl_path e) = v) current \<and>
    (\<exists>c \<in> set (as_changes a). ap_value (bc_path c) = v \<and>
       (\<forall>f \<in> set (risky (as_report a) (change_display c)). settles ds f))"
proof -
  let ?rs = "\<lparr>rs_baseline = index_entries previous, rs_resolution = [], rs_incidents = []\<rparr>"
  obtain changes report rs where a: "build_changes ports previous current = Inr changes" "mo_scan ports changes = Inr report"
    "resolve_changes (mo_now ports) (index_decisions ds) (index_incidents incidents) current report changes ?rs = Inr rs"
    "as_changes a = changes" "as_report a = report"
    "as_trusted a = array_sort (\<lambda>l r. mo_compare ports (ap_value (bl_path l)) (ap_value (bl_path r))) (map snd (rs_baseline rs))"
    using assms by (auto simp: assess_changes_def dest!: rmap_InrD)
  have "keyed (rs_baseline ?rs)" by (simp add: keyed_index)
  note res = resolve_changes_baseline [OF a(3) this]
  then have "entry_at (as_trusted a) v = map_of (rs_baseline rs) v" unfolding a(6) by (intro entry_at_sorted) blast
  then show ?thesis using res unfolding a(4,5) by (simp add: entry_at_def)
qed

section \<open>What a comparison writes\<close>

definition same_files :: "('b, 'p) monitor_state \<Rightarrow> ('b, 'p) monitor_state \<Rightarrow> bool" where
  "same_files s s' = (mn_baseline s' = mn_baseline s \<and> mn_pending s' = mn_pending s)"

lemma same_files_trans: "same_files s t \<Longrightarrow> same_files t u \<Longrightarrow> same_files s u"
  by (simp add: same_files_def)

lemma sbind_same_files:
  assumes "sbind m f s = (r, s')" "\<And>r1 s1. m s = (r1, s1) \<Longrightarrow> same_files s s1"
    and "\<And>x s1. f x s1 = (r, s') \<Longrightarrow> same_files s1 s'"
  shows "same_files s s'"
proof (cases "m s")
  case (Pair r1 s1)
  then show ?thesis
    using assms same_files_trans by (cases r1) (fastforce simp: sbind_def)+
qed

lemma audit_same_files: "audit ports ev details s = (r, s') \<Longrightarrow> same_files s s'"
  by (auto simp: audit_def Let_def same_files_def split: if_splits)

lemma audit_resolution_same_files: "audit_resolution ports ds x f s = (r, s') \<Longrightarrow> same_files s s'"
  using audit_same_files by (fastforce simp: audit_resolution_def same_files_def split: if_splits sum.splits)

lemma send_same_files:
  assumes "send_notification ports f s = (r, s')"
  shows "same_files s s'"
proof -
  let ?s1 = "s\<lparr>mn_tried := mn_tried s @ [f]\<rparr>"
  let ?s2 = "?s1\<lparr>mn_sent := mn_sent ?s1 + 1\<rparr>"
  obtain r3 s3 where s3: "audit ports ''persistence.notification.sent'' (finding_details ports f) ?s2 = (r3, s3)"
    by (cases "audit ports ''persistence.notification.sent'' (finding_details ports f) ?s2")
  have "same_files s s3" using audit_same_files [OF s3] by (simp add: same_files_def)
  then show ?thesis
    using assms s3 audit_same_files [of ports "''persistence.notification.failed''" _ s3 r s']
      audit_same_files [of ports "''persistence.notification.failed''" _ ?s1 r s']
    by (cases r3) (auto simp: send_notification_def Let_def same_files_def split: if_splits)
qed

lemma notify_same_files: "notify_finding ports ds p x f s = (r, s') \<Longrightarrow> same_files s s'"
  using audit_same_files send_same_files
  by (fastforce simp: notify_finding_def Let_def same_files_def split: sum.splits prod.splits option.splits)

lemma report_finding_same_files:
  assumes "report_finding ports ds p rs f s = (r, s')"
  shows "same_files s s'"
  using assms unfolding report_finding_def Let_def
proof (rule sbind_same_files)
  fix x s1
  assume "sbind (audit_resolution ports ds (resolution_of rs f) f) (\<lambda>_. notify_finding ports ds p (resolution_of rs f) f) s1 = (r, s')"
  then show "same_files s1 s'"
    by (rule sbind_same_files) (blast intro: audit_resolution_same_files notify_same_files)+
qed (rule audit_same_files)

lemma report_loop_same_files: "report_findings_loop ports ds p rs fs s = (r, s') \<Longrightarrow> same_files s s'"
proof (induction fs arbitrary: s)
  case (Cons f fs)
  show ?case
    using Cons.prems unfolding report_findings_loop.simps
    by (rule sbind_same_files) (blast intro: report_finding_same_files Cons.IH)+
qed (simp add: same_files_def)

lemma audit_pause_same_files: "audit_pause ports p s = (r, s') \<Longrightarrow> same_files s s'"
  by (cases p) (simp_all add: audit_pause_def same_files_def audit_same_files [unfolded same_files_def])

lemma conclude_same_files:
  assumes "conclude ports decisions pause a s = (r, s')"
  shows "same_files s s'"
  using assms unfolding conclude_def
proof (rule sbind_same_files)
  fix x s1
  assume "sbind (report_findings_loop ports (index_decisions decisions) (is_paused pause) (as_resolution a)
              (rp_findings (as_report a))) (\<lambda>_ s.
       (Inr \<lparr>mc_exit_code = (if length (as_incidents a) > 0 then 2 else 0), mc_changes = length (as_changes a),
             mc_findings = length (rp_findings (as_report a)), mc_pending = length (as_incidents a),
             mc_notifications = mn_sent s\<rparr>, s)) s1 = (r, s')"
  then show "same_files s1 s'"
    by (rule sbind_same_files) (auto simp: same_files_def dest: report_loop_same_files)
qed (rule audit_pause_same_files)

text \<open>The writes of a comparison, whether or not it then fails to report.\<close>

lemma act_on_writes:
  assumes "act_on ports st previous incidents decisions pause a s = (r, s')"
  shows "mn_baseline s' = mn_baseline s \<or> mt_save_baseline st (as_trusted a) = Inr (mn_baseline s')"
    and "mn_baseline s' \<noteq> mn_baseline s \<or> is_ok r \<Longrightarrow>
      same_incidents incidents (as_incidents a) \<and> mn_pending s' = mn_pending s \<or>
      mt_save_pending st (as_incidents a) = Inr (mn_pending s')"
proof -
  obtain r1 s1 where s1: "save_incidents st incidents (as_incidents a) s = (r1, s1)"
    by (cases "save_incidents st incidents (as_incidents a) s")
  obtain r2 s2 where s2: "save_trusted st previous (as_trusted a) s1 = (r2, s2)"
    by (cases "save_trusted st previous (as_trusted a) s1")
  have first: "mn_baseline s1 = mn_baseline s \<and>
      (is_ok r1 \<longrightarrow> same_incidents incidents (as_incidents a) \<and> mn_pending s1 = mn_pending s \<or>
         mt_save_pending st (as_incidents a) = Inr (mn_pending s1))"
    using s1 by (auto simp: save_incidents_def split: if_splits sum.splits)
  have second: "mn_pending s2 = mn_pending s1 \<and>
      (mn_baseline s2 = mn_baseline s1 \<or> mt_save_baseline st (as_trusted a) = Inr (mn_baseline s2))"
    using s2 by (auto simp: save_trusted_def split: if_splits sum.splits)
  consider (no1) e where "r = Inl e" "s' = s1" | (no2) "is_ok r1" "s' = s2" | (both) "is_ok r1" "same_files s2 s'"
    using assms s1 s2 conclude_same_files [of ports decisions pause a s2 r s'] unfolding act_on_def
    by (cases r1; cases r2) (auto simp: sbind_def)
  then show "mn_baseline s' = mn_baseline s \<or> mt_save_baseline st (as_trusted a) = Inr (mn_baseline s')"
    "mn_baseline s' \<noteq> mn_baseline s \<or> is_ok r \<Longrightarrow>
      same_incidents incidents (as_incidents a) \<and> mn_pending s' = mn_pending s \<or>
      mt_save_pending st (as_incidents a) = Inr (mn_pending s')"
    by (cases; use first second in \<open>auto simp: same_files_def\<close>)+
qed

lemma act_on_outcome:
  assumes "act_on ports st previous incidents decisions pause a s = (Inr out, s')"
  shows "mc_exit_code out = (if as_incidents a = [] then 0 else 2)" "mc_pending out = length (as_incidents a)"
  using assms by (auto simp: act_on_def conclude_def sbind_def split: sum.splits prod.splits)

section \<open>What stays unresolved\<close>

text \<open>A decision that denies the finding.\<close>

definition denied_by :: "stored_decision list \<Rightarrow> finding \<Rightarrow> bool" where
  "denied_by ds f =
     (\<exists>d. latest (decision_key f) ds = Some d \<and> dc_verdict d = Deny \<and> dc_subject d = Some (fd_subject f) \<and>
        rule_ids_include (dc_rule_ids d) (rid_value (fd_rule f)) = Inr True)"

lemma matching_denied:
  assumes "matching_decision (index_decisions ds) f = Inr d"
  shows "(case d of None \<Rightarrow> False | Some x \<Rightarrow> dc_verdict x = Deny) \<longleftrightarrow> denied_by ds f"
proof (cases "latest (decision_key f) ds")
  case (Some x)
  then show ?thesis
    using assms by (auto simp: matching_decision_def index_decisions_latest denied_by_def
        split: if_splits dest!: rmap_InrD)
qed (use assms in \<open>auto simp: matching_decision_def index_decisions_latest denied_by_def\<close>)

definition incident_of :: "stored_decision list \<Rightarrow> finding \<Rightarrow> incident \<Rightarrow> bool" where
  "incident_of ds f i =
     (ic_id i = incident_id f \<and> ic_key i = decision_key f \<and> ic_subject i = fd_subject f \<and>
      ic_state i = (if denied_by ds f then Quarantined else PendingReview))"

lemma make_incident_of:
  assumes "matching_decision (index_decisions ds) f = Inr d"
  shows "incident_of ds f (make_incident now c f d known)"
  using matching_denied [OF assms] by (auto simp: incident_of_def make_incident_def split: option.splits)

lemma change_incidents_step:
  assumes "change_incidents now ds known c (f # fs) = Inr xs"
  obtains d ys where "matching_decision ds f = Inr d" "change_incidents now ds known c fs = Inr ys"
    and "xs = (if durably_allowed d f then ys else make_incident now c f d (map_of known (incident_id f)) # ys)"
  using assms by auto

lemma durably_allowed_settles:
  "matching_decision (index_decisions ds) f = Inr d \<Longrightarrow> durably_allowed d f \<longleftrightarrow> settles ds f"
  using finding_allowed_settles [of ds f] by (auto simp: finding_allowed_def)

lemma change_incidents_complete:
  "change_incidents now (index_decisions ds) known c fs = Inr xs \<Longrightarrow> f \<in> set fs \<Longrightarrow> \<not> settles ds f \<Longrightarrow>
     \<exists>i \<in> set xs. incident_of ds f i"
proof (induction fs arbitrary: xs)
  case (Cons g fs)
  obtain d ys where d: "matching_decision (index_decisions ds) g = Inr d"
    "change_incidents now (index_decisions ds) known c fs = Inr ys"
    "xs = (if durably_allowed d g then ys else make_incident now c g d (map_of known (incident_id g)) # ys)"
    using change_incidents_step [OF Cons.prems(1)] .
  show ?case
  proof (cases "f = g")
    case True
    then show ?thesis using Cons.prems(3) d make_incident_of [OF d(1)] durably_allowed_settles [OF d(1)] by auto
  next
    case False
    then show ?thesis using Cons.IH [OF d(2) _ Cons.prems(3)] Cons.prems(2) d(3) by auto
  qed
qed simp

lemma change_incidents_sound:
  "change_incidents now (index_decisions ds) known c fs = Inr xs \<Longrightarrow> i \<in> set xs \<Longrightarrow>
     \<exists>f \<in> set fs. \<not> settles ds f \<and> incident_of ds f i \<and> (\<exists>d. i = make_incident now c f d (map_of known (incident_id f)))"
proof (induction fs arbitrary: xs)
  case (Cons g fs)
  obtain d ys where d: "matching_decision (index_decisions ds) g = Inr d"
    "change_incidents now (index_decisions ds) known c fs = Inr ys"
    "xs = (if durably_allowed d g then ys else make_incident now c g d (map_of known (incident_id g)) # ys)"
    using change_incidents_step [OF Cons.prems(1)] .
  show ?case
  proof (cases "i \<in> set ys")
    case True
    then show ?thesis using Cons.IH [OF d(2)] by auto
  next
    case False
    then have "\<not> durably_allowed d g" "i = make_incident now c g d (map_of known (incident_id g))"
      using Cons.prems(2) d(3) by (auto split: if_splits)
    then show ?thesis using make_incident_of [OF d(1)] durably_allowed_settles [OF d(1)] by auto
  qed
qed simp

text \<open>What one change adds to the incidents.\<close>

lemma resolve_change_incidents:
  assumes "resolve_change now (index_decisions ds) known current report c rs = Inr rs'"
  obtains xs where "rs_incidents rs' = rs_incidents rs @ xs"
    and "\<forall>f \<in> set (risky report (change_display c)). \<not> settles ds f \<longrightarrow> (\<exists>i \<in> set xs. incident_of ds f i)"
    and "\<forall>i \<in> set xs. \<exists>f \<in> set (risky report (change_display c)). \<not> settles ds f \<and> incident_of ds f i \<and>
      (\<exists>d. i = make_incident now c f d (map_of known (incident_id f)))"
proof -
  let ?fs = "risky report (change_display c)"
  obtain b where b: "every_res (finding_allowed (index_decisions ds)) ?fs = Inr b"
    using assms by (auto simp: resolve_change_def Let_def)
  show ?thesis
  proof (cases "length ?fs = 0 \<or> b")
    case True
    then have "rs_incidents rs' = rs_incidents rs @ []"
      using assms b unfolding resolve_change_def Let_def by (auto simp del: length_0_conv)
    moreover have "\<forall>f \<in> set ?fs. settles ds f"
      using True b every_res_True [of "finding_allowed (index_decisions ds)" ?fs] finding_allowed_settles by auto
    ultimately show ?thesis using that [of "[]"] by simp
  next
    case False
    then have "rmap (\<lambda>xs. rs\<lparr>rs_resolution := map_set (change_display c) Unresolved (rs_resolution rs),
        rs_incidents := rs_incidents rs @ xs\<rparr>) (change_incidents now (index_decisions ds) known c ?fs) = Inr rs'"
      using assms b by (simp add: resolve_change_def Let_def)
    then obtain xs where xs: "change_incidents now (index_decisions ds) known c ?fs = Inr xs"
      "rs_incidents rs' = rs_incidents rs @ xs" by (auto dest: rmap_InrD)
    show ?thesis
      by (rule that [OF xs(2)])
        (use change_incidents_complete [OF xs(1)] change_incidents_sound [OF xs(1)] in blast)+
  qed
qed

lemma resolve_changes_incidents:
  assumes "resolve_changes now (index_decisions ds) known current report cs rs = Inr rs'"
  shows "\<exists>xs. rs_incidents rs' = rs_incidents rs @ xs \<and>
    (\<forall>c \<in> set cs. \<forall>f \<in> set (risky report (change_display c)). \<not> settles ds f \<longrightarrow> (\<exists>i \<in> set xs. incident_of ds f i)) \<and>
    (\<forall>i \<in> set xs. \<exists>c \<in> set cs. \<exists>f \<in> set (risky report (change_display c)). \<not> settles ds f \<and> incident_of ds f i \<and>
      (\<exists>d. i = make_incident now c f d (map_of known (incident_id f))))"
  using assms
proof (induction cs arbitrary: rs)
  case (Cons c cs)
  obtain mid where mid: "resolve_change now (index_decisions ds) known current report c rs = Inr mid"
    "resolve_changes now (index_decisions ds) known current report cs mid = Inr rs'" using Cons.prems(1) by auto
  obtain xs where xs: "rs_incidents mid = rs_incidents rs @ xs"
    "\<forall>f \<in> set (risky report (change_display c)). \<not> settles ds f \<longrightarrow> (\<exists>i \<in> set xs. incident_of ds f i)"
    "\<forall>i \<in> set xs. \<exists>f \<in> set (risky report (change_display c)). \<not> settles ds f \<and> incident_of ds f i \<and>
      (\<exists>d. i = make_incident now c f d (map_of known (incident_id f)))"
    using resolve_change_incidents [OF mid(1)] .
  obtain ys where ys: "rs_incidents rs' = rs_incidents mid @ ys"
    "\<forall>c \<in> set cs. \<forall>f \<in> set (risky report (change_display c)). \<not> settles ds f \<longrightarrow> (\<exists>i \<in> set ys. incident_of ds f i)"
    "\<forall>i \<in> set ys. \<exists>c \<in> set cs. \<exists>f \<in> set (risky report (change_display c)). \<not> settles ds f \<and> incident_of ds f i \<and>
      (\<exists>d. i = make_incident now c f d (map_of known (incident_id f)))"
    using Cons.IH [OF mid(2)] by blast
  show ?case
  proof (rule exI [of _ "xs @ ys"], intro conjI)
    show "rs_incidents rs' = rs_incidents rs @ xs @ ys" using xs(1) ys(1) by simp
  next
    show "\<forall>c' \<in> set (c # cs). \<forall>f \<in> set (risky report (change_display c')). \<not> settles ds f \<longrightarrow>
        (\<exists>i \<in> set (xs @ ys). incident_of ds f i)"
      using xs(2) ys(2) unfolding set_append list.set(2) by blast
    show "\<forall>i \<in> set (xs @ ys). \<exists>c' \<in> set (c # cs). \<exists>f \<in> set (risky report (change_display c')).
        \<not> settles ds f \<and> incident_of ds f i \<and> (\<exists>d. i = make_incident now c' f d (map_of known (incident_id f)))"
      using xs(3) ys(3) unfolding set_append list.set(2) by blast
  qed
qed simp

lemma assessed_incidents:
  assumes "assess_changes ports ds previous current incidents = Inr a"
  shows "\<forall>c \<in> set (as_changes a). \<forall>f \<in> set (risky (as_report a) (change_display c)). \<not> settles ds f \<longrightarrow>
      (\<exists>i \<in> set (as_incidents a). incident_of ds f i)"
    and "\<forall>i \<in> set (as_incidents a). \<exists>c \<in> set (as_changes a). \<exists>f \<in> set (risky (as_report a) (change_display c)).
      \<not> settles ds f \<and> incident_of ds f i \<and>
      (\<exists>d. i = make_incident (mo_now ports) c f d (map_of (index_incidents incidents) (incident_id f)))"
proof -
  let ?rs = "\<lparr>rs_baseline = index_entries previous, rs_resolution = [], rs_incidents = []\<rparr>"
  obtain changes report rs where a: "build_changes ports previous current = Inr changes" "mo_scan ports changes = Inr report"
    "resolve_changes (mo_now ports) (index_decisions ds) (index_incidents incidents) current report changes ?rs = Inr rs"
    "as_changes a = changes" "as_report a = report"
    "as_incidents a = array_sort (\<lambda>l r. mo_compare ports (ic_id l) (ic_id r)) (rs_incidents rs)"
    using assms by (auto simp: assess_changes_def dest!: rmap_InrD)
  note facts = resolve_changes_incidents [OF a(3)]
  have members: "set (as_incidents a) = set (rs_incidents rs)" unfolding a(6) by (rule members_array_sort)
  show "\<forall>c \<in> set (as_changes a). \<forall>f \<in> set (risky (as_report a) (change_display c)). \<not> settles ds f \<longrightarrow>
      (\<exists>i \<in> set (as_incidents a). incident_of ds f i)"
    unfolding members a(4,5) using facts by auto
  show "\<forall>i \<in> set (as_incidents a). \<exists>c \<in> set (as_changes a). \<exists>f \<in> set (risky (as_report a) (change_display c)).
      \<not> settles ds f \<and> incident_of ds f i \<and>
      (\<exists>d. i = make_incident (mo_now ports) c f d (map_of (index_incidents incidents) (incident_id f)))"
    unfolding members a(4,5) using facts by auto
qed

section \<open>Over stores that keep their promises\<close>

text \<open>
  The two stores of the monitor, each through its contract: what a comparison leaves behind
  is what it found or what it was to save.
\<close>

locale monitored =
  base: snapshot_store okb load_b save_b fits_b + pend: snapshot_store okp load_p save_p fits_p
  for okb :: "'eb \<Rightarrow> bool" and load_b :: "'eb \<Rightarrow> 'b \<Rightarrow> baseline_entry list res" and save_b fits_b
    and okp :: "'ep \<Rightarrow> bool" and load_p :: "'ep \<Rightarrow> 'p \<Rightarrow> incident list res" and save_p fits_p
begin

lemma trusted_after:
  assumes "okb eb" "act_on ports \<lparr>mt_load_baseline = load_b eb, mt_save_baseline = save_b eb,
      mt_load_pending = load_p ep, mt_save_pending = save_p ep\<rparr> previous incidents decisions pause a s = (r, s')"
    and "load_b eb (mn_baseline s) = Inr previous" "fits_b eb (as_trusted a)"
  shows "\<exists>es. load_b eb (mn_baseline s') = Inr es \<and> (es = previous \<or> es = as_trusted a)"
  using act_on_writes(1) [OF assms(2)] assms(3) base.saved_is_loaded [OF assms(1,4)] by auto

lemma pending_after:
  assumes "okp ep" "act_on ports \<lparr>mt_load_baseline = load_b eb, mt_save_baseline = save_b eb,
      mt_load_pending = load_p ep, mt_save_pending = save_p ep\<rparr> previous incidents decisions pause a s = (Inr out, s')"
    and "load_p ep (mn_pending s) = Inr incidents"
    and "save_p ep (as_incidents a) = Inr (mn_pending s') \<Longrightarrow> fits_p ep (as_incidents a)"
  shows "\<exists>is. load_p ep (mn_pending s') = Inr is \<and> list_all2 same_incident is (as_incidents a)"
proof -
  consider "same_incidents incidents (as_incidents a)" "mn_pending s' = mn_pending s"
    | "save_p ep (as_incidents a) = Inr (mn_pending s')" using act_on_writes(2) [OF assms(2)] by auto
  then show ?thesis
  proof cases
    case 1
    then show ?thesis using assms(3) by (simp add: same_incidents_def)
  next
    case 2
    then have "load_p ep (mn_pending s') = Inr (as_incidents a)" using pend.saved_is_loaded assms(1,4) by blast
    moreover have "list_all2 same_incident (as_incidents a) (as_incidents a)"
      by (simp add: list.rel_refl same_incident_def)
    ultimately show ?thesis by blast
  qed
qed

end

interpretation json_monitor: monitored
  env_ok baseline_load baseline_save "\<lambda>_. list_all entry_storable"
  bounded_env_ok pending_load pending_save incidents_fit
  by unfold_locales

definition json_stores :: "'r bounded_env \<Rightarrow> ('r option, 'r disk_file) monitor_stores" where
  "json_stores env =
     \<lparr>mt_load_baseline = baseline_load (be_store env), mt_save_baseline = baseline_save (be_store env),
      mt_load_pending = pending_load env, mt_save_pending = pending_save env\<rparr>"

lemma executedE:
  assumes "monitor_execute ports st s = (r, s')"
  obtains (failed) e where "r = Inl e" "s' = s"
  | (acted) previous current decisions incidents pause a
    where "mt_load_baseline st (mn_baseline s) = Inr previous" "mo_collect ports = Inr current"
      "mo_decisions ports = Inr decisions" "mt_load_pending st (mn_pending s) = Inr incidents"
      "mo_pause ports = Inr pause" "assess_changes ports decisions previous current incidents = Inr a"
      "act_on ports st previous incidents decisions pause a (s\<lparr>mn_sent := 0\<rparr>) = (r, s')"
proof (cases "rbind (mt_load_baseline st (mn_baseline s)) (\<lambda>previous.
           rbind (mo_collect ports) (\<lambda>current.
           rbind (mo_decisions ports) (\<lambda>decisions.
           rbind (mt_load_pending st (mn_pending s)) (\<lambda>incidents.
           rbind (mo_pause ports) (\<lambda>pause.
           rmap (\<lambda>a. (previous, incidents, decisions, pause, a))
             (assess_changes ports decisions previous current incidents))))))")
  case (Inl e)
  then have "r = Inl e" "s' = s" using assms by (simp_all add: monitor_execute_def)
  then show ?thesis by (rule failed)
next
  case (Inr x)
  then show ?thesis
    using assms acted unfolding monitor_execute_def by (fastforce dest!: rmap_InrD)
qed

lemma assess_stages:
  assumes "assess_changes ports ds previous current incidents = Inr a"
  obtains rs where "build_changes ports previous current = Inr (as_changes a)"
    and "mo_scan ports (as_changes a) = Inr (as_report a)"
    and "resolve_changes (mo_now ports) (index_decisions ds) (index_incidents incidents) current (as_report a) (as_changes a)
      \<lparr>rs_baseline = index_entries previous, rs_resolution = [], rs_incidents = []\<rparr> = Inr rs"
    and "as_trusted a = array_sort (\<lambda>l r. mo_compare ports (ap_value (bl_path l)) (ap_value (bl_path r)))
      (map snd (rs_baseline rs))"
  using assms by (auto simp: assess_changes_def dest!: rmap_InrD)

lemma indexed_member: "map_of (index_entries es) v = Some e \<Longrightarrow> e \<in> set es"
  by (induction es rule: rev_induct) (auto simp: index_entries_snoc map_of_map_set split: if_splits, simp add: index_entries_def)

lemma assessed_members:
  assumes "assess_changes ports ds previous current incidents = Inr a" "e \<in> set (as_trusted a)"
  shows "e \<in> set previous \<union> set current"
proof -
  obtain rs where rs: "resolve_changes (mo_now ports) (index_decisions ds) (index_incidents incidents) current (as_report a)
      (as_changes a) \<lparr>rs_baseline = index_entries previous, rs_resolution = [], rs_incidents = []\<rparr> = Inr rs"
    "as_trusted a = array_sort (\<lambda>l r. mo_compare ports (ap_value (bl_path l)) (ap_value (bl_path r))) (map snd (rs_baseline rs))"
    using assess_stages [OF assms(1)] by blast
  note res = resolve_changes_baseline [OF rs(1)]
  obtain v where v: "(v, e) \<in> set (rs_baseline rs)" using assms(2) rs(2) by (auto simp: members_array_sort)
  have start: "keyed (rs_baseline \<lparr>rs_baseline = index_entries previous, rs_resolution = [], rs_incidents = []\<rparr>)"
    by (simp add: keyed_index)
  have "keyed (rs_baseline rs)" using res [OF start] by blast
  then have e: "map_of (rs_baseline rs) v = Some e" using v by (simp add: keyed_def)
  consider "map_of (rs_baseline rs) v = map_of (index_entries previous) v"
    | "map_of (rs_baseline rs) v = find (\<lambda>e. ap_value (bl_path e) = v) current"
    using conjunct2 [OF res [OF start], THEN spec [of _ v]] by auto
  then show ?thesis
  proof cases
    case 1
    then have "e \<in> set previous" using e by (intro indexed_member [of previous v]) simp
    then show ?thesis by simp
  next
    case 2
    then have "find (\<lambda>e. ap_value (bl_path e) = v) current = Some e" using e by simp
    then show ?thesis using find_Some_in by fast
  qed
qed

end
