(* ===== verification/MonitorTrust.thy ===== *)
theory MonitorTrust
  imports Monitor
begin

text \<open>
  What the persistence monitor promises over the JSON stores: trust advances only with
  settled findings, what is not settled waits for review, a deletion is never learned; and
  the two places where the code learns a change that no rule has judged.
\<close>

section \<open>The changes of a comparison\<close>

lemma built_changes:
  assumes "build_changes ports previous current = Inr changes"
  shows "c \<in> set changes \<longleftrightarrow> (\<exists>d \<in> set (change_descriptors previous current). make_change ports d = Inr c)"
proof -
  obtain cs where cs: "traverse (make_change ports) (change_descriptors previous current) = Inr cs"
    "set changes = set cs"
    using assms by (auto simp: build_changes_def members_array_sort dest!: rmap_InrD)
  show ?thesis unfolding cs(2) using traverse_set [OF cs(1)] traverse_set' [OF cs(1)] by fastforce
qed

definition deletion_of :: "monitor_ports \<Rightarrow> baseline_entry \<Rightarrow> baseline_change" where
  "deletion_of ports e =
     \<lparr>bc_path = bl_path e, bc_kind = Deleted, bc_previous = Some (bl_hash e), bc_current = None, bc_content = None,
      bc_context = mo_context ports, bc_sandboxed = mo_sandboxed ports\<rparr>"

lemma make_deletion: "make_change ports (Some e, None) = Inr (deletion_of ports e)"
  by (simp add: make_change_def deletion_of_def)

lemma made_path: "make_change ports (b, Some a) = Inr c \<Longrightarrow> bc_path c = bl_path a"
  by (cases b) (auto simp: make_change_def dest!: rmap_InrD)

lemma indexed_None: "map_of (index_entries es) v = None \<longleftrightarrow> (\<forall>e \<in> set es. ap_value (bl_path e) \<noteq> v)"
  by (induction es rule: rev_induct) (auto simp: index_entries_snoc map_of_map_set, simp add: index_entries_def)

lemma removed_changes:
  assumes "build_changes ports previous current = Inr changes" "\<forall>x \<in> set current. ap_value (bl_path x) \<noteq> v"
  shows "(c \<in> set changes \<and> ap_value (bc_path c) = v) \<longleftrightarrow>
    (\<exists>b \<in> set previous. ap_value (bl_path b) = v \<and> c = deletion_of ports b)"
proof
  assume c: "c \<in> set changes \<and> ap_value (bc_path c) = v"
  then obtain d where d: "d \<in> set (change_descriptors previous current)" "make_change ports d = Inr c"
    using built_changes [OF assms(1)] by blast
  have "bl_path a = bc_path c" if "d = (b, Some a)" for a b
    using d(2) that made_path by simp
  moreover have "a \<in> set current" if "d = (b, Some a)" for a b
    using d(1) that by (auto simp: change_descriptors_def Let_def)
  ultimately obtain b where b: "d = (Some b, None)" "b \<in> set previous"
    using d(1) assms(2) c by (auto simp: change_descriptors_def Let_def)
  then show "\<exists>b \<in> set previous. ap_value (bl_path b) = v \<and> c = deletion_of ports b"
    using d(2) c by (auto simp: make_deletion deletion_of_def)
next
  assume "\<exists>b \<in> set previous. ap_value (bl_path b) = v \<and> c = deletion_of ports b"
  then obtain b where b: "b \<in> set previous" "ap_value (bl_path b) = v" "c = deletion_of ports b" by blast
  have "map_of (index_entries current) v = None" using assms(2) by (simp add: indexed_None)
  then have "(Some b, None) \<in> set (change_descriptors previous current)"
    using b(1,2) by (auto simp: change_descriptors_def Let_def)
  then have "c \<in> set changes" using built_changes [OF assms(1)] make_deletion b(3) by blast
  then show "c \<in> set changes \<and> ap_value (bc_path c) = v" using b by (simp add: deletion_of_def)
qed

text \<open>A storable entry is determined by the value of its path.\<close>

lemma storable_path: "entry_storable a \<Longrightarrow> entry_storable b \<Longrightarrow> ap_value (bl_path a) = ap_value (bl_path b) \<Longrightarrow> bl_path a = bl_path b"
  by (auto simp: entry_storable_def)

lemma storable_value: "entry_storable e \<Longrightarrow> ap_value (bl_path e) \<noteq> []"
proof
  assume "entry_storable e" "ap_value (bl_path e) = []"
  moreover have "\<not> is_ok (of_path [])" by code_simp
  ultimately show False by (simp add: entry_storable_def)
qed

section \<open>What is left behind\<close>

lemma json_writes:
  assumes "bounded_env_ok env" "act_on ports (json_stores env) previous incidents decisions pause a s = (r, s')"
    and "baseline_load (be_store env) (mn_baseline s) = Inr previous" "list_all entry_storable (as_trusted a)"
  shows "\<exists>es. baseline_load (be_store env) (mn_baseline s') = Inr es \<and> (es = previous \<or> es = as_trusted a)"
  using json_monitor.trusted_after [of "be_store env" ports env] assms
  by (auto simp: bounded_env_ok_def json_stores_def)

lemma assessed_storable:
  assumes "assess_changes ports ds previous current incidents = Inr a"
    and "list_all entry_storable previous" "list_all entry_storable current"
  shows "list_all entry_storable (as_trusted a)"
  using assessed_members [OF assms(1)] assms(2,3) unfolding list_all_iff by blast

lemma trust_after:
  assumes "bounded_env_ok env" "monitor_execute ports (json_stores env) s = (r, s')"
    and "baseline_load (be_store env) (mn_baseline s) = Inr previous" "mo_collect ports = Inr current"
    and "list_all entry_storable previous" "list_all entry_storable current"
  obtains trusted where "baseline_load (be_store env) (mn_baseline s') = Inr trusted"
    and "\<forall>v. entry_at trusted v = entry_at previous v \<or>
       entry_at trusted v = find (\<lambda>e. ap_value (bl_path e) = v) current \<and>
       (\<exists>ds changes report c. mo_decisions ports = Inr ds \<and> build_changes ports previous current = Inr changes \<and>
          mo_scan ports changes = Inr report \<and> c \<in> set changes \<and> ap_value (bc_path c) = v \<and>
          (\<forall>f \<in> set (risky report (change_display c)). settles ds f))"
  using assms(2)
proof (cases rule: executedE)
  case (failed e)
  then show ?thesis using that [of previous] assms(3) by simp
next
  case (acted previous' current' decisions incidents pause a)
  then have a: "assess_changes ports decisions previous current incidents = Inr a"
    and act: "act_on ports (json_stores env) previous incidents decisions pause a (s\<lparr>mn_sent := 0\<rparr>) = (r, s')"
    using assms(3,4) by (simp_all add: json_stores_def)
  obtain es where es: "baseline_load (be_store env) (mn_baseline s') = Inr es" "es = previous \<or> es = as_trusted a"
    using json_writes [OF assms(1) act _ assessed_storable [OF a assms(5,6)]] assms(3) by auto
  obtain rs where stages: "build_changes ports previous current = Inr (as_changes a)"
    "mo_scan ports (as_changes a) = Inr (as_report a)" using assess_stages [OF a] by blast
  show ?thesis
  proof (rule that [OF es(1)], intro allI)
    fix v
    show "entry_at es v = entry_at previous v \<or>
       entry_at es v = find (\<lambda>e. ap_value (bl_path e) = v) current \<and>
       (\<exists>ds changes report c. mo_decisions ports = Inr ds \<and> build_changes ports previous current = Inr changes \<and>
          mo_scan ports changes = Inr report \<and> c \<in> set changes \<and> ap_value (bc_path c) = v \<and>
          (\<forall>f \<in> set (risky report (change_display c)). settles ds f))"
      using assessed_trust [OF a, of v] es(2) stages acted(3) by blast
  qed
qed

section \<open>What is left to review\<close>

lemma change_path:
  assumes "build_changes ports previous current = Inr changes" "c \<in> set changes"
  shows "\<exists>e \<in> set previous \<union> set current. bc_path c = bl_path e"
proof -
  obtain d where d: "d \<in> set (change_descriptors previous current)" "make_change ports d = Inr c"
    using built_changes [OF assms(1)] assms(2) by blast
  consider b a where "d = (b, Some a)" "a \<in> set current" | b where "d = (Some b, None)" "b \<in> set previous"
    using d(1) by (auto simp: change_descriptors_def Let_def)
  then show ?thesis
  proof cases
    case (1 b a)
    then show ?thesis using made_path d(2) by blast
  next
    case (2 b)
    then show ?thesis using d(2) by (auto simp: make_deletion deletion_of_def)
  qed
qed

lemma display_nonempty: "ap_value p \<noteq> [] \<Longrightarrow> to_display p home \<noteq> []"
  by (simp add: to_display_def)

lemma indexed_incident: "map_of (index_incidents xs) k = Some i \<Longrightarrow> i \<in> set xs"
proof (induction xs rule: rev_induct)
  case (snoc x xs)
  have "index_incidents (xs @ [x]) = map_set (ic_id x) x (index_incidents xs)" by (simp add: index_incidents_def)
  then show ?case using snoc by (auto simp: map_of_map_set split: if_splits)
qed (simp add: index_incidents_def)

lemma make_incident_ok:
  assumes "fd_subject f \<noteq> []" "case known of None \<Rightarrow> True | Some i \<Rightarrow> incident_ok i"
  shows "incident_ok (make_incident now c f d known)"
  using assms
  by (auto simp: incident_ok_def make_incident_def incident_id_def decision_key_def hash_to_string_def
      safe_integer_def safe_integer_limit_def split: option.splits)

lemma assessed_incidents_ok:
  assumes "assess_changes ports ds previous current incidents = Inr a" "list_all incident_ok incidents"
    and "list_all entry_storable previous" "list_all entry_storable current"
  shows "list_all incident_ok (as_incidents a)"
  unfolding list_all_iff
proof
  fix i assume "i \<in> set (as_incidents a)"
  then obtain c f d where i: "c \<in> set (as_changes a)" "f \<in> set (risky (as_report a) (change_display c))"
    "i = make_incident (mo_now ports) c f d (map_of (index_incidents incidents) (incident_id f))"
    using assessed_incidents(2) [OF assms(1)] by blast
  obtain rs where "build_changes ports previous current = Inr (as_changes a)" using assess_stages [OF assms(1)] by blast
  then obtain e where "e \<in> set previous \<union> set current" "bc_path c = bl_path e" using change_path i(1) by blast
  then have "ap_value (bc_path c) \<noteq> []" using assms(3,4) storable_value by (auto simp: list_all_iff)
  then have "fd_subject f \<noteq> []" using i(2) display_nonempty by (auto simp: risky_def change_display_def)
  moreover have "case map_of (index_incidents incidents) (incident_id f) of None \<Rightarrow> True | Some j \<Rightarrow> incident_ok j"
    using indexed_incident assms(2) by (auto simp: list_all_iff split: option.split)
  ultimately show "incident_ok i" unfolding i(3) by (rule make_incident_ok)
qed

lemma incidents_after:
  assumes "bounded_env_ok env" "monitor_execute ports (json_stores env) s = (Inr out, s')"
    and "baseline_load (be_store env) (mn_baseline s) = Inr previous" "mo_collect ports = Inr current"
    and "list_all entry_storable previous" "list_all entry_storable current"
    and "\<not> exceeds env max_pending_bytes (mn_pending s')"
  obtains a :: assessment and ds xs where "mo_decisions ports = Inr ds" "build_changes ports previous current = Inr (as_changes a)"
    and "mo_scan ports (as_changes a) = Inr (as_report a)" "pending_load env (mn_pending s') = Inr xs"
    and "list_all2 same_incident xs (as_incidents a)" "mc_exit_code out = (if as_incidents a = [] then 0 else 2)"
    and "\<forall>c \<in> set (as_changes a). \<forall>f \<in> set (risky (as_report a) (change_display c)). \<not> settles ds f \<longrightarrow>
      (\<exists>i \<in> set (as_incidents a). incident_of ds f i)"
    and "\<forall>i \<in> set (as_incidents a). \<exists>c \<in> set (as_changes a). \<exists>f \<in> set (risky (as_report a) (change_display c)).
      \<not> settles ds f \<and> incident_of ds f i"
  using assms(2)
proof (cases rule: executedE)
  case (acted previous' current' ds incidents pause a)
  then have a: "assess_changes ports ds previous current incidents = Inr a"
    and load: "pending_load env (mn_pending (s\<lparr>mn_sent := 0\<rparr>)) = Inr incidents"
    and act: "act_on ports (json_stores env) previous incidents ds pause a (s\<lparr>mn_sent := 0\<rparr>) = (Inr out, s')"
    using assms(3,4) by (simp_all add: json_stores_def)
  obtain rs where stages: "build_changes ports previous current = Inr (as_changes a)"
    "mo_scan ports (as_changes a) = Inr (as_report a)" using assess_stages [OF a] by blast
  have ok: "list_all incident_ok (as_incidents a)"
    using assessed_incidents_ok [OF a _ assms(5,6)] pending_loaded(2) [OF load] by blast
  have fits: "incidents_fit env (as_incidents a)" if "pending_save env (as_incidents a) = Inr (mn_pending s')"
    using that [symmetric] assms(7) ok
    by (cases "mn_pending s'") (auto simp: incidents_fit_def pending_save_def exceeds_def not_less split: if_splits)
  obtain xs where xs: "pending_load env (mn_pending s') = Inr xs" "list_all2 same_incident xs (as_incidents a)"
    using json_monitor.pending_after [OF assms(1) act [unfolded json_stores_def] load fits] by blast
  have "\<forall>c \<in> set (as_changes a). \<forall>f \<in> set (risky (as_report a) (change_display c)). \<not> settles ds f \<longrightarrow>
      (\<exists>i \<in> set (as_incidents a). incident_of ds f i)"
    using assessed_incidents(1) [OF a] by blast
  moreover have "\<forall>i \<in> set (as_incidents a). \<exists>c \<in> set (as_changes a). \<exists>f \<in> set (risky (as_report a) (change_display c)).
      \<not> settles ds f \<and> incident_of ds f i"
    using assessed_incidents(2) [OF a] by blast
  ultimately show ?thesis by (rule that [OF acted(3) stages xs act_on_outcome(1) [OF act]])
qed simp

section \<open>Properties\<close>

text \<open>C7: trust advances path by path and only to what was collected. After a comparison,
  whether it succeeds or throws, the stored baseline says of every path what it said before,
  or what the collector saw now; and then every finding of severity high or more about a
  change of that path is settled by a stored decision that allows it, names its subject and
  its rule, and was made for content that exists. A deletion is never settled.\<close>

theorem trust_advances_only_when_settled:
  assumes "bounded_env_ok env" "monitor_execute ports (json_stores env) s = (r, s')"
    and "baseline_load (be_store env) (mn_baseline s) = Inr previous" "mo_collect ports = Inr current"
    and "list_all entry_storable previous" "list_all entry_storable current"
  shows "\<exists>trusted. baseline_load (be_store env) (mn_baseline s') = Inr trusted \<and>
    (\<forall>v. entry_at trusted v = entry_at previous v \<or>
       entry_at trusted v = find (\<lambda>e. ap_value (bl_path e) = v) current \<and>
       (\<exists>ds changes report c. mo_decisions ports = Inr ds \<and> build_changes ports previous current = Inr changes \<and>
          mo_scan ports changes = Inr report \<and> c \<in> set changes \<and> ap_value (bc_path c) = v \<and>
          (\<forall>f \<in> set (risky report (change_display c)). settles ds f)))"
  by (rule trust_after [OF assms]) blast

text \<open>C8: with the shipped rules, a comparison asks for attention, by its exit code 2, just
  when one of its findings is not settled, and then the incidents on disk hold each such
  finding, quarantined when a decision denies it and pending otherwise, as long as the
  written file is one the store can read back.\<close>

theorem unsettled_findings_pend:
  assumes "bounded_env_ok env" "monitor_execute ports (json_stores env) s = (Inr out, s')"
    and "baseline_load (be_store env) (mn_baseline s) = Inr previous" "mo_collect ports = Inr current"
    and "list_all entry_storable previous" "list_all entry_storable current"
    and "\<not> exceeds env max_pending_bytes (mn_pending s')"
    and "persistence_scanner = Inr reg" "mo_scan ports = (\<lambda>cs. engine_scan reg cs switches)"
  shows "\<exists>ds changes report xs. mo_decisions ports = Inr ds \<and> build_changes ports previous current = Inr changes \<and>
    engine_scan reg changes switches = Inr report \<and> pending_load env (mn_pending s') = Inr xs \<and>
    (mc_exit_code out = 2 \<longleftrightarrow> (\<exists>f \<in> set (rp_findings report). \<not> settles ds f)) \<and>
    (\<forall>f \<in> set (rp_findings report). \<not> settles ds f \<longrightarrow>
       (\<exists>i \<in> set xs. ic_id i = incident_id f \<and> ic_state i = (if denied_by ds f then Quarantined else PendingReview)))"
proof -
  obtain a :: assessment and ds xs where p: "mo_decisions ports = Inr ds" "build_changes ports previous current = Inr (as_changes a)"
    "mo_scan ports (as_changes a) = Inr (as_report a)" "pending_load env (mn_pending s') = Inr xs"
    "list_all2 same_incident xs (as_incidents a)" "mc_exit_code out = (if as_incidents a = [] then 0 else 2)"
    "\<forall>c \<in> set (as_changes a). \<forall>f \<in> set (risky (as_report a) (change_display c)). \<not> settles ds f \<longrightarrow>
      (\<exists>i \<in> set (as_incidents a). incident_of ds f i)"
    "\<forall>i \<in> set (as_incidents a). \<exists>c \<in> set (as_changes a). \<exists>f \<in> set (risky (as_report a) (change_display c)).
      \<not> settles ds f \<and> incident_of ds f i"
    using incidents_after [OF assms(1-7)] .
  have scan: "engine_scan reg (as_changes a) switches = Inr (as_report a)" using p(3) assms(9) by simp
  have all_risky: "\<exists>c \<in> set (as_changes a). f \<in> set (risky (as_report a) (change_display c))"
    if f: "f \<in> set (rp_findings (as_report a))" for f
  proof -
    obtain c where "c \<in> set (as_changes a)" "fd_subject f = change_display c" "High \<le> fd_severity f"
      using persistence_scan [OF assms(8) scan f] by metis
    moreover from this f have "f \<in> set (risky (as_report a) (change_display c))" by (simp add: risky_def is_at_least_iff)
    ultimately show ?thesis by blast
  qed
  have complete: "\<exists>i \<in> set (as_incidents a). incident_of ds f i"
    if "f \<in> set (rp_findings (as_report a))" "\<not> settles ds f" for f
    using all_risky [OF that(1)] p(7) that(2) by blast
  have "mc_exit_code out = 2 \<longleftrightarrow> (\<exists>f \<in> set (rp_findings (as_report a)). \<not> settles ds f)"
  proof
    assume "mc_exit_code out = 2"
    then obtain i where "i \<in> set (as_incidents a)" using p(6) by (cases "as_incidents a") auto
    then show "\<exists>f \<in> set (rp_findings (as_report a)). \<not> settles ds f" using p(8) by (fastforce simp: risky_def)
  next
    assume "\<exists>f \<in> set (rp_findings (as_report a)). \<not> settles ds f"
    then show "mc_exit_code out = 2" using complete p(6) by fastforce
  qed
  moreover have "\<exists>i \<in> set xs. ic_id i = incident_id f \<and> ic_state i = (if denied_by ds f then Quarantined else PendingReview)"
    if f: "f \<in> set (rp_findings (as_report a))" "\<not> settles ds f" for f
  proof -
    obtain j where j: "j \<in> set (as_incidents a)" "incident_of ds f j" using complete [OF f] by blast
    then obtain i where "i \<in> set xs" "same_incident i j" using p(5) by (metis in_set_conv_nth list_all2_conv_all_nth)
    then show ?thesis using j(2) by (auto simp: same_incident_def incident_of_def)
  qed
  ultimately show ?thesis using p(1,2,4) scan by blast
qed

section \<open>Witnesses and the limits of the comparison\<close>

definition sample_pending_dates :: json_dates where
  "sample_pending_dates =
     dates.extend \<lparr>dt_parse = (\<lambda>s. dt_parse sample_dates (tl s)), dt_iso = (\<lambda>t. CHR ''T'' # dt_iso sample_dates t)\<rparr>
       \<lparr>dt_value = (\<lambda>j. case j of JString s \<Rightarrow> dt_parse sample_dates (tl s) | _ \<Rightarrow> None)\<rparr>"

definition sample_bounded_env :: "json bounded_env" where
  "sample_bounded_env =
     \<lparr>be_store = \<lparr>se_io = plain_io, se_sha = sample_sha, se_dates = sample_pending_dates, se_home = mk_posix [''home'', ''u'']\<rparr>,
      be_size = (\<lambda>_. 1000)\<rparr>"

lemma sample_bounded_env_ok: "bounded_env_ok sample_bounded_env"
  using sample_dates_ok
  by (simp add: bounded_env_ok_def env_ok_def sample_bounded_env_def plain_io_ok dates_ok_def dates_written_def
      sample_pending_dates_def dates.extend_def)

text \<open>A hash of the right form that tells contents of different lengths apart.\<close>

definition length_sha :: sha where
  "length_sha t = replicate (min 64 (length t)) (CHR ''1'') @ replicate (64 - length t) (CHR ''0'')"

definition sample_entry :: "string list \<Rightarrow> string \<Rightarrow> baseline_entry" where
  "sample_entry path content =
     \<lparr>bl_path = mk_posix path, bl_hash = hash_content length_sha content, bl_recorded_at = Some 1\<rparr>"

definition persistence_registry :: "baseline_change rule_registry" where
  "persistence_registry = \<lparr>rr_rules = map persistence_rule persistence_specs\<rparr>"

text \<open>A comparison on posix paths: what is collected, and what is read when a change is judged.\<close>

definition sample_monitor :: "baseline_entry list \<Rightarrow> (abs_path \<Rightarrow> string option res) \<Rightarrow> monitor_ports" where
  "sample_monitor current content =
     \<lparr>mo_collect = Inr current, mo_decisions = Inr [], mo_pause = Inr Inactive, mo_read = content,
      mo_scan = (\<lambda>cs. engine_scan persistence_registry cs (\<lambda>_. True)), mo_notify = (\<lambda>_ _. True), mo_cause = (\<lambda>_. []),
      mo_append = (\<lambda>_ _. True), mo_now = 7, mo_context = sample_ctx, mo_sandboxed = False, mo_compare = (\<lambda>_ _. 0),
      mo_policy = \<lparr>np_max = 3, np_window = 600000, np_cooldown = 60000\<rparr>\<rparr>"

definition sample_monitor_state :: "baseline_entry list \<Rightarrow> (json option, json disk_file) monitor_state" where
  "sample_monitor_state trusted =
     \<lparr>mn_baseline = (case baseline_save (be_store sample_bounded_env) trusted of Inr b \<Rightarrow> b | Inl _ \<Rightarrow> None),
      mn_pending = Missing, mn_log = [], mn_budget = new_budget, mn_tried = [], mn_sent = 0\<rparr>"

definition monitor_once ::
  "baseline_entry list \<Rightarrow> baseline_entry list \<Rightarrow> (abs_path \<Rightarrow> string option res) \<Rightarrow> int res \<times> baseline_entry list res" where
  "monitor_once trusted current content =
     (case monitor_execute (sample_monitor current content) (json_stores sample_bounded_env) (sample_monitor_state trusted) of
        (r, s') \<Rightarrow> (rmap mc_exit_code r, baseline_load (be_store sample_bounded_env) (mn_baseline s')))"

definition gitconfig_path :: "string list" where
  "gitconfig_path = [''home'', ''u'', ''.gitconfig'']"

definition hostile_config :: string where
  "hostile_config = ''[core] hooksPath=/x''"

definition plain_config :: string where
  "plain_config = ''[user] name=u''"

lemma persistence_registry_built: "persistence_scanner = Inr persistence_registry"
  by (simp add: persistence_scanner_rules persistence_registry_def)

lemma sample_monitor_sel [simp]:
  "mo_collect (sample_monitor current content) = Inr current"
  "mo_scan (sample_monitor current content) = (\<lambda>cs. engine_scan persistence_registry cs (\<lambda>_. True))"
  by (simp_all add: sample_monitor_def)

abbreviation harmless_gain :: "baseline_entry list" where
  "harmless_gain \<equiv> [sample_entry gitconfig_path plain_config]"

abbreviation hostile_gain :: "baseline_entry list" where
  "hostile_gain \<equiv> [sample_entry gitconfig_path hostile_config]"

lemma stored_back: "list_all entry_storable es \<Longrightarrow>
    baseline_load (be_store sample_bounded_env) (mn_baseline (sample_monitor_state es)) = Inr es"
  using json_baseline.load_save [of "be_store sample_bounded_env" es] sample_bounded_env_ok
  by (auto simp: sample_monitor_state_def bounded_env_ok_def)

lemma sample_storable: "list_all entry_storable harmless_gain" "list_all entry_storable hostile_gain"
  by code_simp+

lemma trust_advances_only_when_settled_witness:
  "\<exists>r s' trusted. monitor_execute (sample_monitor harmless_gain (\<lambda>_. Inr (Some plain_config)))
       (json_stores sample_bounded_env) (sample_monitor_state []) = (r, s') \<and>
     baseline_load (be_store sample_bounded_env) (mn_baseline s') = Inr trusted \<and>
     entry_at trusted ''/home/u/.gitconfig'' = Some (sample_entry gitconfig_path plain_config)"
proof -
  let ?ports = "sample_monitor harmless_gain (\<lambda>_. Inr (Some plain_config))"
  obtain r s' where run: "monitor_execute ?ports (json_stores sample_bounded_env) (sample_monitor_state []) = (r, s')"
    by (cases "monitor_execute ?ports (json_stores sample_bounded_env) (sample_monitor_state [])")
  obtain trusted where "baseline_load (be_store sample_bounded_env) (mn_baseline s') = Inr trusted"
    using trust_advances_only_when_settled [OF sample_bounded_env_ok run stored_back _ _ sample_storable(1)] by auto
  moreover have "snd (monitor_once [] harmless_gain (\<lambda>_. Inr (Some plain_config))) = Inr harmless_gain" by code_simp
  moreover have "entry_at harmless_gain ''/home/u/.gitconfig'' = Some (sample_entry gitconfig_path plain_config)" by code_simp
  ultimately show ?thesis using run by (auto simp: monitor_once_def)
qed

lemma unsettled_findings_pend_witness:
  "\<exists>out s' xs. monitor_execute (sample_monitor hostile_gain (\<lambda>_. Inr (Some hostile_config)))
       (json_stores sample_bounded_env) (sample_monitor_state []) = (Inr out, s') \<and>
     mc_exit_code out = 2 \<and> pending_load sample_bounded_env (mn_pending s') = Inr xs \<and> length xs = 1"
proof -
  let ?ports = "sample_monitor hostile_gain (\<lambda>_. Inr (Some hostile_config))"
  obtain r s' where run: "monitor_execute ?ports (json_stores sample_bounded_env) (sample_monitor_state []) = (r, s')"
    by (cases "monitor_execute ?ports (json_stores sample_bounded_env) (sample_monitor_state [])")
  have "fst (monitor_once [] hostile_gain (\<lambda>_. Inr (Some hostile_config))) = Inr 2" by code_simp
  then obtain out where out: "r = Inr out" "mc_exit_code out = 2" using run by (cases r) (auto simp: monitor_once_def)
  have pend: "rmap length (pending_load sample_bounded_env (mn_pending (snd (monitor_execute ?ports
      (json_stores sample_bounded_env) (sample_monitor_state []))))) = Inr 1"
    "\<not> exceeds sample_bounded_env max_pending_bytes (mn_pending (snd (monitor_execute ?ports
      (json_stores sample_bounded_env) (sample_monitor_state []))))"
    by code_simp+
  obtain xs where "pending_load sample_bounded_env (mn_pending s') = Inr xs"
    using unsettled_findings_pend [OF sample_bounded_env_ok run [unfolded out(1)] stored_back _ _ sample_storable(2) _
        persistence_registry_built, where switches = "\<lambda>_. True"] pend(2) run by auto
  then show ?thesis using pend(1) run out by auto
qed

text \<open>C25: a deletion is never learned. When a trusted file is gone and an enabled rule of the
  family reports that, the stored baseline goes on saying of its path what it said, whatever
  decisions are stored, so the deletion is reported again by the next comparison.\<close>

theorem deletions_stay_untrusted:
  assumes "bounded_env_ok env" "monitor_execute ports (json_stores env) st = (r, st')"
    and "baseline_load (be_store env) (mn_baseline st) = Inr previous" "mo_collect ports = Inr current"
    and "list_all entry_storable previous" "list_all entry_storable current"
    and "persistence_scanner = Inr reg" "mo_scan ports = (\<lambda>cs. engine_scan reg cs switches)"
    and "e \<in> set previous" "list_all (\<lambda>x. ap_value (bl_path x) \<noteq> ap_value (bl_path e)) current"
    and "s \<in> set persistence_specs" "switches (rid_value (ri_id (ps_info s)))"
    and "persistence_applies s (deletion_of ports e) = Inr True" "ps_describe s (deletion_of ports e) \<noteq> None"
  shows "\<exists>trusted. baseline_load (be_store env) (mn_baseline st') = Inr trusted \<and>
    entry_at trusted (ap_value (bl_path e)) = entry_at previous (ap_value (bl_path e))"
proof -
  let ?v = "ap_value (bl_path e)" and ?c = "deletion_of ports e"
  obtain trusted where t: "baseline_load (be_store env) (mn_baseline st') = Inr trusted"
    and step: "\<forall>v. entry_at trusted v = entry_at previous v \<or>
       entry_at trusted v = find (\<lambda>e. ap_value (bl_path e) = v) current \<and>
       (\<exists>ds changes report c. mo_decisions ports = Inr ds \<and> build_changes ports previous current = Inr changes \<and>
          mo_scan ports changes = Inr report \<and> c \<in> set changes \<and> ap_value (bc_path c) = v \<and>
          (\<forall>f \<in> set (risky report (change_display c)). settles ds f))"
    using trust_after [OF assms(1-6)] .
  have "entry_at trusted ?v = entry_at previous ?v"
  proof (rule ccontr)
    assume "entry_at trusted ?v \<noteq> entry_at previous ?v"
    then obtain ds changes report c where c: "build_changes ports previous current = Inr changes"
      "engine_scan reg changes switches = Inr report" "c \<in> set changes" "ap_value (bc_path c) = ?v"
      "\<forall>f \<in> set (risky report (change_display c)). settles ds f"
      using step assms(8) by auto
    have gone: "\<forall>x \<in> set current. ap_value (bl_path x) \<noteq> ?v" using assms(10) by (simp add: list_all_iff)
    obtain b where b: "b \<in> set previous" "ap_value (bl_path b) = ?v" "c = deletion_of ports b"
      using removed_changes [OF c(1) gone] c(3,4) by blast
    have "bl_path b = bl_path e" using storable_path b(1,2) assms(5,9) by (simp add: list_all_iff)
    then have same: "change_display c = change_display ?c" by (simp add: b(3) change_display_def deletion_of_def)
    obtain f where f: "persistence_inspect s ?c = [f]" using assms(14) by (auto simp: persistence_inspect_def)
    have "evaluate_rule (persistence_rule s) ?c = Inr [f]"
      using assms(13) f by (simp add: evaluate_rule_def persistence_rule_def mk_rule_def)
    moreover have "persistence_rule s \<in> set (enabled_rules reg switches)"
      using assms(7,11,12) by (auto simp: persistence_scanner_rules enabled_rules_def persistence_rule_def mk_rule_def)
    moreover have "?c \<in> set changes" using removed_changes [OF c(1) gone] assms(9) by blast
    ultimately have "f \<in> set (rp_findings report)" using scan_set [OF c(2)] by fastforce
    moreover have mem: "f \<in> set (persistence_inspect s ?c)" by (simp add: f)
    have fin: "fd_subject f = change_display ?c" "fd_hash f = None"
      using persistence_finding(1,2) [OF mem] by (simp_all add: deletion_of_def)
    moreover have "fd_severity f \<ge> High"
      using persistence_finding(4) [OF mem] persistence_severe [OF assms(11)] escalated_ge order_trans
      by (auto split: if_splits)
    ultimately have "settles ds f" using c(5) same by (simp add: risky_def is_at_least_iff)
    then show False using fin(2) by (simp add: settles_def)
  qed
  then show ?thesis using t by blast
qed

definition shell_file :: baseline_entry where
  "shell_file = sample_entry [''home'', ''u'', ''.zshenv''] ''umask 022''"

lemma deletions_stay_untrusted_witness:
  "\<exists>r s' trusted. monitor_execute (sample_monitor [] (\<lambda>_. Inr None)) (json_stores sample_bounded_env)
       (sample_monitor_state [shell_file]) = (r, s') \<and>
     baseline_load (be_store sample_bounded_env) (mn_baseline s') = Inr trusted \<and>
     entry_at trusted ''/home/u/.zshenv'' = Some shell_file"
proof -
  let ?ports = "sample_monitor [] (\<lambda>_. Inr None)"
  obtain r s' where run: "monitor_execute ?ports (json_stores sample_bounded_env) (sample_monitor_state [shell_file]) = (r, s')"
    by (cases "monitor_execute ?ports (json_stores sample_bounded_env) (sample_monitor_state [shell_file])")
  have storable: "list_all entry_storable [shell_file]" by code_simp
  have rule: "persistence_applies zsh_env_rule (deletion_of ?ports shell_file) = Inr True"
    "ps_describe zsh_env_rule (deletion_of ?ports shell_file) \<noteq> None"
    by (code_simp, simp add: zsh_env_rule_def any_change_def)
  have v: "ap_value (bl_path shell_file) = ''/home/u/.zshenv''"
    "entry_at [shell_file] ''/home/u/.zshenv'' = Some shell_file" by code_simp+
  obtain trusted where "baseline_load (be_store sample_bounded_env) (mn_baseline s') = Inr trusted"
    "entry_at trusted ''/home/u/.zshenv'' = entry_at [shell_file] ''/home/u/.zshenv''"
    using deletions_stay_untrusted [OF sample_bounded_env_ok run stored_back [OF storable] sample_monitor_sel(1) storable _
        persistence_registry_built sample_monitor_sel(2), of shell_file zsh_env_rule] rule v
    by (auto simp: persistence_specs_def)
  then show ?thesis using run v by simp
qed

section \<open>Changes that no rule reports\<close>

text \<open>The change a new or modified entry gives rise to, with the content that is shown to the rules.\<close>

definition shown_change :: "monitor_ports \<Rightarrow> baseline_entry list \<Rightarrow> baseline_entry \<Rightarrow> string option \<Rightarrow> baseline_change" where
  "shown_change ports previous e shown =
     (let past = entry_at previous (ap_value (bl_path e))
      in \<lparr>bc_path = bl_path e, bc_kind = (if past = None then Created else Modified),
          bc_previous = map_option bl_hash past, bc_current = Some (bl_hash e), bc_content = shown,
          bc_context = mo_context ports, bc_sandboxed = mo_sandboxed ports\<rparr>)"

definition reported :: "baseline_change \<Rightarrow> bool" where
  "reported c = list_ex (\<lambda>s. persistence_applies s c \<noteq> Inr False \<and> ps_describe s c \<noteq> None) persistence_specs"

text \<open>A snapshot shows an entry that the trusted one does not have, at a path that is displayed unlike every other.\<close>

definition gained :: "monitor_ports \<Rightarrow> baseline_entry list \<Rightarrow> baseline_entry list \<Rightarrow> baseline_entry \<Rightarrow> bool" where
  "gained ports previous current e =
     (e \<in> set current \<and> distinct (map (\<lambda>x. ap_value (bl_path x)) current) \<and>
      (case entry_at previous (ap_value (bl_path e)) of None \<Rightarrow> True | Some b \<Rightarrow> bl_hash b \<noteq> bl_hash e) \<and>
      list_all (\<lambda>x. to_display (bl_path x) (ctx_home (mo_context ports)) = to_display (bl_path e) (ctx_home (mo_context ports)) \<longrightarrow>
        ap_value (bl_path x) = ap_value (bl_path e)) (previous @ current))"

lemma gained_change:
  assumes "build_changes ports previous current = Inr changes" "gained ports previous current e"
    and "mo_read ports (bl_path e) = Inr shown"
  shows "shown_change ports previous e shown \<in> set changes"
    and "c \<in> set changes \<Longrightarrow> ap_value (bc_path c) = ap_value (bl_path e) \<Longrightarrow> c = shown_change ports previous e shown"
    and "c \<in> set changes \<Longrightarrow> change_display c = change_display (shown_change ports previous e shown) \<Longrightarrow>
      c = shown_change ports previous e shown"
proof -
  let ?v = "ap_value (bl_path e)" and ?d = "(map_of (index_entries previous) (ap_value (bl_path e)), Some e)"
  have e: "e \<in> set current" "distinct (map (\<lambda>x. ap_value (bl_path x)) current)"
    "case map_of (index_entries previous) ?v of None \<Rightarrow> True | Some b \<Rightarrow> bl_hash b \<noteq> bl_hash e"
    and shows_alone: "\<And>x. x \<in> set previous \<union> set current \<Longrightarrow> to_display (bl_path x) (ctx_home (mo_context ports)) =
      to_display (bl_path e) (ctx_home (mo_context ports)) \<Longrightarrow> ap_value (bl_path x) = ?v"
    using assms(2) unfolding gained_def entry_at_def list_all_iff set_append by blast+
  have made: "make_change ports ?d = Inr (shown_change ports previous e shown)"
    using assms(3)
    by (cases "map_of (index_entries previous) ?v") (simp_all add: make_change_def shown_change_def entry_at_def Let_def)
  have "?d \<in> set (change_descriptors previous current)"
    using e by (auto simp: change_descriptors_def Let_def)
  then show mem: "shown_change ports previous e shown \<in> set changes"
    using built_changes [OF assms(1)] made by blast
  show only: "c = shown_change ports previous e shown"
    if c: "c \<in> set changes" "ap_value (bc_path c) = ?v" for c
  proof -
    obtain d where d: "d \<in> set (change_descriptors previous current)" "make_change ports d = Inr c"
      using built_changes [OF assms(1)] c(1) by blast
    consider a where "d = (map_of (index_entries previous) (ap_value (bl_path a)), Some a)" "a \<in> set current"
      | b where "d = (Some b, None)" "map_of (index_entries current) (ap_value (bl_path b)) = None"
      using d(1) by (auto simp: change_descriptors_def Let_def)
    then show ?thesis
    proof cases
      case (1 a)
      then have "ap_value (bl_path a) = ?v" using made_path d(2) c(2) by simp
      then have "a = e" using e(1,2) 1(2) by (auto simp: distinct_map inj_on_def)
      then show ?thesis using 1(1) d(2) made by simp
    next
      case (2 b)
      then have "ap_value (bl_path b) = ?v" using d(2) c(2) by (auto simp: make_deletion deletion_of_def)
      then show ?thesis using 2(2) e(1) by (auto simp: indexed_None)
    qed
  qed
  show "c = shown_change ports previous e shown"
    if c: "c \<in> set changes" "change_display c = change_display (shown_change ports previous e shown)"
  proof -
    obtain x where x: "x \<in> set previous \<union> set current" "bc_path c = bl_path x"
      using change_path [OF assms(1) c(1)] by blast
    obtain d where "make_change ports d = Inr c" using built_changes [OF assms(1)] c(1) by blast
    then have "bc_context c = mo_context ports"
      by (auto simp: make_change_def split: prod.splits option.splits dest!: rmap_InrD)
    then have "ap_value (bc_path c) = ?v"
      using shows_alone [OF x(1)] c(2) x(2) by (simp add: change_display_def shown_change_def Let_def)
    then show ?thesis using only c(1) by blast
  qed
qed

lemma unreported_evaluates:
  assumes "\<not> reported c" "s \<in> set persistence_specs" "evaluate_rule (persistence_rule s) c = Inr gs"
  shows "gs = []"
proof -
  have "persistence_applies s c = Inr False \<or> ps_describe s c = None"
    using assms(1,2) by (auto simp: reported_def list_ex_iff)
  then show ?thesis
    using assms(3) by (auto simp: evaluate_rule_def persistence_rule_def mk_rule_def persistence_inspect_def
        rbind_eq_Inr split: if_splits)
qed

lemma unreported_risks:
  assumes "persistence_scanner = Inr reg" "engine_scan reg changes switches = Inr report" "\<not> reported c"
    and "\<And>c'. c' \<in> set changes \<Longrightarrow> change_display c' = change_display c \<Longrightarrow> c' = c"
  shows "risky report (change_display c) = []"
proof (rule ccontr)
  assume "risky report (change_display c) \<noteq> []"
  then obtain f where f: "f \<in> set (rp_findings report)" "fd_subject f = change_display c"
    by (auto simp: risky_def filter_empty_conv)
  obtain c' r gs where c': "c' \<in> set changes" "r \<in> set (enabled_rules reg switches)" "evaluate_rule r c' = Inr gs" "f \<in> set gs"
    using scan_set [OF assms(2)] f(1) by blast
  then obtain s where s: "s \<in> set persistence_specs" "r = persistence_rule s"
    using assms(1) by (auto simp: enabled_rules_def persistence_scanner_rules)
  have "fd_subject f = change_display c'" using evaluate_persistence c'(3,4) s(2) persistence_finding(1) by blast
  then have "c' = c" using assms(4) c'(1) f(2) by simp
  then show False using unreported_evaluates [OF assms(3) s(1)] c'(3,4) s(2) by auto
qed

text \<open>A change without a severe finding is taken over, and no other change touches its path.\<close>

lemma resolve_change_silent:
  assumes "resolve_change now (index_decisions ds) known current report c rs = Inr rs'"
    and "risky report (change_display c) = []"
  shows "rs_baseline rs' = apply_trusted current c (rs_baseline rs)"
  using assms by (auto simp: resolve_change_def Let_def)

lemma resolve_changes_silent:
  assumes "resolve_changes now (index_decisions ds) known current report cs rs = Inr rs'"
    and "\<And>c. c \<in> set cs \<Longrightarrow> ap_value (bc_path c) = v \<Longrightarrow> risky report (change_display c) = []"
    and "map_of (rs_baseline rs) v = find (\<lambda>e. ap_value (bl_path e) = v) current \<or> (\<exists>c \<in> set cs. ap_value (bc_path c) = v)"
  shows "map_of (rs_baseline rs') v = find (\<lambda>e. ap_value (bl_path e) = v) current"
  using assms
proof (induction cs arbitrary: rs)
  case (Cons c cs)
  obtain mid where mid: "resolve_change now (index_decisions ds) known current report c rs = Inr mid"
    "resolve_changes now (index_decisions ds) known current report cs mid = Inr rs'" using Cons.prems(1) by auto
  have "map_of (rs_baseline mid) v = find (\<lambda>e. ap_value (bl_path e) = v) current \<or> (\<exists>c \<in> set cs. ap_value (bc_path c) = v)"
  proof (cases "ap_value (bc_path c) = v")
    case True
    then show ?thesis using resolve_change_silent [OF mid(1)] Cons.prems(2) by (simp add: apply_trusted_lookup)
  next
    case False
    then have "map_of (rs_baseline mid) v = map_of (rs_baseline rs) v"
      using resolve_change_baseline [OF mid(1)] by (auto simp: apply_trusted_lookup)
    then show ?thesis using Cons.prems(3) False by auto
  qed
  then show ?case using Cons.IH [OF mid(2)] Cons.prems(2) by simp
qed simp

lemma act_on_saves:
  assumes "act_on ports st previous incidents decisions pause a s = (Inr out, s')"
  shows "same_baseline previous (as_trusted a) \<or> mt_save_baseline st (as_trusted a) = Inr (mn_baseline s')"
proof -
  obtain s1 s2 where "save_trusted st previous (as_trusted a) s1 = (Inr (), s2)"
    "conclude ports decisions pause a s2 = (Inr out, s')"
    using assms by (auto simp: act_on_def sbind_def split: sum.splits prod.splits)
  then show ?thesis
    using conclude_same_files by (fastforce simp: save_trusted_def same_files_def split: if_splits sum.splits)
qed

lemma changed_baseline:
  assumes "entry_at es v = Some e" "ap_value (bl_path e) = v"
    and "case entry_at previous v of None \<Rightarrow> True | Some b \<Rightarrow> bl_hash b \<noteq> bl_hash e"
  shows "\<not> same_baseline previous es"
proof
  assume "same_baseline previous es"
  moreover have "e \<in> set es" using assms(1) indexed_member by (simp add: entry_at_def)
  ultimately show False
    using assms(2,3) by (auto simp: same_baseline_def Let_def list_all_iff entry_at_def split: option.splits)
qed

text \<open>A change on which no shipped rule reports is learned, and a comparison with the learned
  snapshot no longer shows it.\<close>

lemma unreported_is_learned:
  assumes "bounded_env_ok env" "monitor_execute ports (json_stores env) s = (Inr out, s')"
    and "baseline_load (be_store env) (mn_baseline s) = Inr previous" "mo_collect ports = Inr current"
    and "list_all entry_storable previous" "list_all entry_storable current"
    and "persistence_scanner = Inr reg" "mo_scan ports = (\<lambda>cs. engine_scan reg cs switches)"
    and "gained ports previous current e" "mo_read ports (bl_path e) = Inr shown"
    and "\<not> reported (shown_change ports previous e shown)"
  shows "\<exists>trusted. baseline_load (be_store env) (mn_baseline s') = Inr trusted \<and>
    entry_at trusted (ap_value (bl_path e)) = Some e \<and> (\<forall>b. (b, Some e) \<notin> set (change_descriptors trusted current))"
  using assms(2)
proof (cases rule: executedE)
  case (acted previous' current' decisions incidents pause a)
  let ?v = "ap_value (bl_path e)" and ?c = "shown_change ports previous e shown"
  have a: "assess_changes ports decisions previous current incidents = Inr a"
    and act: "act_on ports (json_stores env) previous incidents decisions pause a (s\<lparr>mn_sent := 0\<rparr>) = (Inr out, s')"
    using acted assms(3,4) by (simp_all add: json_stores_def)
  obtain rs where st: "build_changes ports previous current = Inr (as_changes a)"
    "engine_scan reg (as_changes a) switches = Inr (as_report a)"
    "resolve_changes (mo_now ports) (index_decisions decisions) (index_incidents incidents) current (as_report a) (as_changes a)
      \<lparr>rs_baseline = index_entries previous, rs_resolution = [], rs_incidents = []\<rparr> = Inr rs"
    "as_trusted a = array_sort (\<lambda>l r. mo_compare ports (ap_value (bl_path l)) (ap_value (bl_path r))) (map snd (rs_baseline rs))"
    using assess_stages [OF a] assms(8) by auto
  note own = gained_change [OF st(1) assms(9,10)]
  have quiet: "risky (as_report a) (change_display ?c) = []"
    by (rule unreported_risks [OF assms(7) st(2) assms(11) own(3)])
  have "bc_path ?c = bl_path e" by (simp add: shown_change_def Let_def)
  then have "map_of (rs_baseline rs) ?v = find (\<lambda>e. ap_value (bl_path e) = ?v) current"
  proof (intro resolve_changes_silent [OF st(3)] disjI2)
    show "risky (as_report a) (change_display c) = []" if "c \<in> set (as_changes a)" "ap_value (bc_path c) = ?v" for c
      using quiet unfolding own(2) [OF that] .
    show "\<exists>c \<in> set (as_changes a). ap_value (bc_path c) = ?v"
      using \<open>bc_path ?c = bl_path e\<close> by (intro bexI [OF _ own(1)]) simp
  qed
  moreover have "keyed (rs_baseline rs)"
    using resolve_changes_baseline [OF st(3)] by (simp add: keyed_index)
  moreover have "find (\<lambda>e. ap_value (bl_path e) = ?v) current = Some e"
    using assms(9) by (simp add: gained_def find_unique)
  ultimately have learned: "entry_at (as_trusted a) ?v = Some e"
    unfolding st(4) by (simp add: entry_at_sorted)
  then have "\<not> same_baseline previous (as_trusted a)"
  proof (rule changed_baseline)
    show "case entry_at previous ?v of None \<Rightarrow> True | Some b \<Rightarrow> bl_hash b \<noteq> bl_hash e"
      using assms(9) unfolding gained_def by blast
  qed simp
  then have "baseline_save (be_store env) (as_trusted a) = Inr (mn_baseline s')"
    using act_on_saves [OF act] by (simp add: json_stores_def)
  moreover have "env_ok (be_store env)" using assms(1) by (simp add: bounded_env_ok_def)
  ultimately have "baseline_load (be_store env) (mn_baseline s') = Inr (as_trusted a)"
    using json_baseline.saved_is_loaded assessed_storable [OF a assms(5,6)] by blast
  moreover have "(b, Some e) \<notin> set (change_descriptors (as_trusted a) current)" for b
    using learned by (auto simp: change_descriptors_def Let_def entry_at_def)
  ultimately show ?thesis using learned by blast
qed simp

text \<open>C39: what is judged need not be what is learned. The collector hashes a file, and the
  comparison reads it again to show it to the rules. When the rules report nothing on the content
  that is shown then, the entry with the hash of the content that was collected becomes the
  trusted one, also if a rule reports on that content, and the next comparison sees no change.\<close>

theorem swapped_content_is_trusted:
  assumes "bounded_env_ok env" "monitor_execute ports (json_stores env) s = (Inr out, s')"
    and "baseline_load (be_store env) (mn_baseline s) = Inr previous" "mo_collect ports = Inr current"
    and "list_all entry_storable previous" "list_all entry_storable current"
    and "persistence_scanner = Inr reg" "mo_scan ports = (\<lambda>cs. engine_scan reg cs switches)"
    and "gained ports previous current e" "bl_hash e = hash_content h collected"
    and "reported (shown_change ports previous e (Some collected))"
    and "mo_read ports (bl_path e) = Inr shown" "\<not> reported (shown_change ports previous e shown)"
  shows "\<exists>trusted b. baseline_load (be_store env) (mn_baseline s') = Inr trusted \<and>
    entry_at trusted (ap_value (bl_path e)) = Some b \<and> bl_hash b = hash_content h collected \<and>
    (\<forall>b. (b, Some e) \<notin> set (change_descriptors trusted current))"
  using unreported_is_learned [OF assms(1-9,12,13)] assms(10) by blast

lemma hostile_swap:
  "gained (sample_monitor hostile_gain content) harmless_gain hostile_gain (sample_entry gitconfig_path hostile_config)"
  "reported (shown_change (sample_monitor hostile_gain content) harmless_gain (sample_entry gitconfig_path hostile_config) (Some hostile_config))"
  "\<not> reported (shown_change (sample_monitor hostile_gain content) harmless_gain (sample_entry gitconfig_path hostile_config) (Some plain_config))"
  by code_simp+

lemma swapped_content_is_trusted_witness:
  "\<exists>s' trusted b. snd (monitor_execute (sample_monitor hostile_gain (\<lambda>_. Inr (Some plain_config)))
       (json_stores sample_bounded_env) (sample_monitor_state harmless_gain)) = s' \<and>
     baseline_load (be_store sample_bounded_env) (mn_baseline s') = Inr trusted \<and>
     entry_at trusted ''/home/u/.gitconfig'' = Some b \<and> bl_hash b = hash_content length_sha hostile_config"
proof -
  let ?ports = "sample_monitor hostile_gain (\<lambda>_. Inr (Some plain_config))"
  let ?e = "sample_entry gitconfig_path hostile_config"
  obtain r s' where run: "monitor_execute ?ports (json_stores sample_bounded_env) (sample_monitor_state harmless_gain) = (r, s')"
    by (cases "monitor_execute ?ports (json_stores sample_bounded_env) (sample_monitor_state harmless_gain)")
  have "fst (monitor_once harmless_gain hostile_gain (\<lambda>_. Inr (Some plain_config))) = Inr 0" by code_simp
  then obtain out where out: "r = Inr out" using run by (cases r) (auto simp: monitor_once_def)
  have shown: "mo_read ?ports (bl_path ?e) = Inr (Some plain_config)" by (simp add: sample_monitor_def)
  have e: "bl_hash ?e = hash_content length_sha hostile_config" by (simp add: sample_entry_def)
  have v: "ap_value (bl_path ?e) = ''/home/u/.gitconfig''" by code_simp
  obtain trusted b where "baseline_load (be_store sample_bounded_env) (mn_baseline s') = Inr trusted"
    "entry_at trusted ''/home/u/.gitconfig'' = Some b" "bl_hash b = hash_content length_sha hostile_config"
    using swapped_content_is_trusted [OF sample_bounded_env_ok run [unfolded out] stored_back [OF sample_storable(1)]
        sample_monitor_sel(1) sample_storable persistence_registry_built sample_monitor_sel(2) hostile_swap(1) e hostile_swap(2)
        shown hostile_swap(3)] unfolding v by blast
  then show ?thesis unfolding run by auto
qed

section \<open>Surfaces without a rule\<close>

text \<open>A home that does not lie below the directories which the surfaces and patterns name from the root.\<close>

definition ordinary_home :: "abs_path \<Rightarrow> bool" where
  "ordinary_home home = (home_ok home \<and> hd (segments home) \<notin> {''private'', ''var'', ''Library''})"

text \<open>Surfaces that no rule of the family speaks about, and a git configuration without one of the
  words that its rule looks for, such as a credential helper for a single server.\<close>

definition unjudged_surface :: "abs_path \<Rightarrow> abs_path \<Rightarrow> string option \<Rightarrow> bool" where
  "unjudged_surface home p content =
     ((\<exists>t. segments p = [''Library'', ''LaunchAgents''] @ t) \<or>
      (\<exists>t. segments p = [''Library'', ''LaunchDaemons''] @ t) \<or>
      (\<exists>t. segments p = segments home @ [''.config'', ''fish'', ''functions''] @ t) \<or>
      segments p = segments home @ [''.config'', ''git'', ''attributes''] \<or>
      segments p = segments home @ [''.gitconfig''] \<and> (case content of None \<Rightarrow> True | Some t \<Rightarrow> \<not> dangerous_git_keys t))"

text \<open>A row of the registry makes the path a persistence surface of the platform.\<close>

definition watched_surface :: "platform \<Rightarrow> abs_path \<Rightarrow> abs_path \<Rightarrow> bool" where
  "watched_surface pf home p =
     list_ex (\<lambda>row. case row of
          Inl _ \<Rightarrow> False
        | Inr e \<Rightarrow> sp_category e = Persistence \<and> applies_on e pf \<and> pattern_matches (sp_pattern e) p home)
       (sensitive_rows_3 @ sensitive_rows_4)"

lemma matches_target:
  assumes "home_ok home" "wf_path p" "ap_flavour p = Posix"
  shows "pattern_matches pat p home \<longleftrightarrow>
    (\<exists>t. segments p = (if pp_home_anchored pat then segments home else []) @ t \<and> match_segments (pp_segments pat) t)"
  using pattern_matches_home [OF assms(1,2)] assms(3)
  by (cases "pp_home_anchored pat") (auto simp: pattern_matches_def)

text \<open>The patterns of the family: what they say below the home, and the two that begin at the root.\<close>

definition spec_patterns :: "path_pattern list" where
  "spec_patterns =
     concat (map (\<lambda>s. concat (map (\<lambda>p. case pattern_of p of Inr x \<Rightarrow> [x] | Inl _ \<Rightarrow> []) (ps_patterns s))) persistence_specs)"

lemma spec_patterns_built:
  "list_all (\<lambda>s. is_ok (traverse pattern_of (ps_patterns s))) persistence_specs"
  by code_simp

definition below_home :: "path_pattern list" where
  "below_home = filter pp_home_anchored spec_patterns"

lemma rooted_patterns:
  "list_all (\<lambda>x. pp_home_anchored x \<or> hd (pp_segments x) \<in> {''private'', ''var''} \<and> pp_segments x \<noteq> []) spec_patterns"
  by code_simp

lemma spec_pattern_raw: "pattern_of raw = Inr x \<Longrightarrow> pp_raw x = raw"
  by (auto simp: pattern_of_def Let_def split: if_splits)

lemma spec_applies:
  assumes "s \<in> set persistence_specs"
    and "\<And>x. x \<in> set spec_patterns \<Longrightarrow> pp_raw x \<in> set (ps_patterns s) \<Longrightarrow>
      \<not> pattern_matches x (bc_path c) (ctx_home (bc_context c))"
  shows "persistence_applies s c = Inr False"
proof -
  obtain pats where pats: "traverse pattern_of (ps_patterns s) = Inr pats"
    using spec_patterns_built assms(1) by (auto simp: list_all_iff is_ok_iff)
  have "\<not> pattern_matches x (bc_path c) (ctx_home (bc_context c))" if x: "x \<in> set pats" for x
  proof -
    obtain raw where raw: "raw \<in> set (ps_patterns s)" "pattern_of raw = Inr x"
      using traverse_set [OF pats] x by auto
    then have "x \<in> set spec_patterns" using assms(1) by (force simp: spec_patterns_def)
    then show ?thesis using assms(2) raw spec_pattern_raw by blast
  qed
  then show ?thesis using pats by (auto simp: persistence_applies_def list_ex_iff)
qed

lemma rooted_mismatch:
  assumes "x \<in> set spec_patterns" "\<not> pp_home_anchored x" "target \<noteq> []" "hd target \<notin> {''private'', ''var''}"
  shows "\<not> match_segments (pp_segments x) target"
proof -
  obtain h ps where h: "pp_segments x = h # ps" "h \<in> {''private'', ''var''}"
    using rooted_patterns assms(1,2) by (cases "pp_segments x") (auto simp: list_all_iff)
  have "literal_seg ''private''" "literal_seg ''var''" by code_simp+
  then have "\<forall>l \<in> set [h]. literal_seg l" using h(2) by auto
  from match_literal_head [OF this, of ps target] show ?thesis using h assms(3,4) by auto
qed

lemma below_home_mismatch:
  "list_all (\<lambda>x. \<not> match_segments (pp_segments x) (''.config'' # ''fish'' # ''functions'' # t)) below_home"
  "list_all (\<lambda>x. \<not> match_segments (pp_segments x) [''.config'', ''git'', ''attributes'']) below_home"
  "list_all (\<lambda>x. match_segments (pp_segments x) [''.gitconfig''] \<longrightarrow> pp_raw x = ''~/.gitconfig'') below_home"
  by code_simp+

lemma pattern_on_surface:
  assumes "ordinary_home home" "wf_path p" "ap_flavour p = Posix" "unjudged_surface home p content"
    and "x \<in> set spec_patterns" "pattern_matches x p home"
  shows "pp_raw x = ''~/.gitconfig'' \<and> segments p = segments home @ [''.gitconfig'']"
proof -
  have home: "home_ok home" "segments home \<noteq> []" "hd (segments home) \<notin> {''private'', ''var'', ''Library''}"
    using assms(1) by (simp_all add: ordinary_home_def home_ok_def)
  obtain t where t: "segments p = (if pp_home_anchored x then segments home else []) @ t"
    "match_segments (pp_segments x) t"
    using assms(6) matches_target [OF home(1) assms(2,3)] by blast
  have first: "segments p \<noteq> []" "hd (segments p) \<notin> {''private'', ''var''}"
    "\<not> pp_home_anchored x \<or> hd (segments p) \<noteq> ''Library''"
    using assms(4) home(2,3) t(1) by (auto simp: unjudged_surface_def)
  have anchored: "pp_home_anchored x"
  proof (rule ccontr)
    assume rooted: "\<not> pp_home_anchored x"
    then have "segments p = t" using t(1) by simp
    then show False using rooted_mismatch [OF assms(5) rooted, of t] first(1,2) t(2) by simp
  qed
  then have x: "x \<in> set below_home" using assms(5) by (simp add: below_home_def)
  have "segments p = segments home @ t" using t(1) anchored by simp
  moreover have "hd (segments p) \<noteq> ''Library''" using first(3) anchored by simp
  ultimately consider u where "t = ''.config'' # ''fish'' # ''functions'' # u" | "t = [''.config'', ''git'', ''attributes'']"
    | "t = [''.gitconfig'']" "segments p = segments home @ [''.gitconfig'']"
    using assms(4) by (auto simp: unjudged_surface_def)
  then show ?thesis
  proof cases
    case (1 u)
    then show ?thesis using below_home_mismatch(1) [of u] x t(2) by (simp add: list_all_iff)
  next
    case 2
    then show ?thesis using below_home_mismatch(2) x t(2) by (simp add: list_all_iff)
  next
    case 3
    then show ?thesis using below_home_mismatch(3) x t(2) by (simp add: list_all_iff)
  qed
qed

lemma gitconfig_rule_only:
  "s \<in> set persistence_specs \<Longrightarrow> ''~/.gitconfig'' \<in> set (ps_patterns s) \<Longrightarrow> s = git_config_rule"
  by (auto simp: persistence_specs_def zsh_env_rule_def shell_startup_rule_def autostart_unit_rule_def
      crontab_rule_def ssh_persistence_rule_def npmrc_rule_def agent_config_drift_rule_def
      control_plane_drift_rule_def any_change_def)

lemma surface_unreported:
  assumes "ordinary_home (ctx_home (mo_context ports))" "wf_path (bl_path e)" "ap_flavour (bl_path e) = Posix"
    and "unjudged_surface (ctx_home (mo_context ports)) (bl_path e) shown"
  shows "\<not> reported (shown_change ports previous e shown)"
proof -
  let ?c = "shown_change ports previous e shown"
  have c: "bc_path ?c = bl_path e" "bc_context ?c = mo_context ports" "bc_content ?c = shown"
    by (simp_all add: shown_change_def Let_def)
  note place = pattern_on_surface [OF assms]
  have "persistence_applies s ?c = Inr False \<or> ps_describe s ?c = None" if s: "s \<in> set persistence_specs" for s
  proof (cases "''~/.gitconfig'' \<in> set (ps_patterns s) \<and>
      segments (bl_path e) = segments (ctx_home (mo_context ports)) @ [''.gitconfig'']")
    case True
    then have rule: "s = git_config_rule" using gitconfig_rule_only s by blast
    have "hd (segments (ctx_home (mo_context ports))) \<noteq> ''Library''" "segments (ctx_home (mo_context ports)) \<noteq> []"
      using assms(1) by (simp_all add: ordinary_home_def home_ok_def)
    then have "case shown of None \<Rightarrow> True | Some t \<Rightarrow> \<not> dangerous_git_keys t"
      using assms(4) True by (cases "segments (ctx_home (mo_context ports))") (auto simp: unjudged_surface_def)
    then have "\<not> change_contains ?c dangerous_git_keys" by (simp add: change_contains_def c(3) split: option.splits)
    then show ?thesis unfolding rule by (simp add: git_config_rule_def)
  next
    case False
    have "persistence_applies s ?c = Inr False"
      by (rule spec_applies [OF s]) (use place False in \<open>auto simp: c\<close>)
    then show ?thesis ..
  qed
  then show ?thesis by (auto simp: reported_def list_ex_iff)
qed

lemma registry_rows:
  "list_ex (\<lambda>row. case row of Inl _ \<Rightarrow> False | Inr e \<Rightarrow> sp_category e = Persistence \<and> applies_on e Darwin \<and>
     pp_home_anchored (sp_pattern e) = anchored \<and> pp_segments (sp_pattern e) = segs) (sensitive_rows_3 @ sensitive_rows_4)"
  if "(anchored, segs) \<in> {(False, [''Library'', ''LaunchAgents'', recursive]), (False, [''Library'', ''LaunchDaemons'', recursive]),
     (True, [''.config'', ''fish'', recursive]), (True, [''.config'', ''git'', recursive]), (True, [''.gitconfig''])}"
proof -
  let ?row = "\<lambda>anchored segs. list_ex (\<lambda>row. case row of Inl _ \<Rightarrow> False | Inr e \<Rightarrow> sp_category e = Persistence \<and>
     applies_on e Darwin \<and> pp_home_anchored (sp_pattern e) = anchored \<and> pp_segments (sp_pattern e) = segs)
     (sensitive_rows_3 @ sensitive_rows_4)"
  have "?row False [''Library'', ''LaunchAgents'', recursive]" by code_simp
  moreover have "?row False [''Library'', ''LaunchDaemons'', recursive]" by code_simp
  moreover have "?row True [''.config'', ''fish'', recursive]" by code_simp
  moreover have "?row True [''.config'', ''git'', recursive]" by code_simp
  moreover have "?row True [''.gitconfig'']" by code_simp
  ultimately show ?thesis using that by blast
qed

lemma row_watches:
  assumes "home_ok home" "wf_path p" "ap_flavour p = Posix" "match_segments segs t"
    and "segments p = (if anchored then segments home else []) @ t"
    and "(anchored, segs) \<in> {(False, [''Library'', ''LaunchAgents'', recursive]), (False, [''Library'', ''LaunchDaemons'', recursive]),
     (True, [''.config'', ''fish'', recursive]), (True, [''.config'', ''git'', recursive]), (True, [''.gitconfig''])}"
  shows "watched_surface Darwin home p"
proof -
  obtain e where e: "Inr e \<in> set (sensitive_rows_3 @ sensitive_rows_4)" "sp_category e = Persistence" "applies_on e Darwin"
    "pp_home_anchored (sp_pattern e) = anchored" "pp_segments (sp_pattern e) = segs"
  proof -
    from registry_rows [OF assms(6)] obtain row where row: "row \<in> set (sensitive_rows_3 @ sensitive_rows_4)"
      "case row of Inl _ \<Rightarrow> False | Inr e \<Rightarrow> sp_category e = Persistence \<and> applies_on e Darwin \<and>
         pp_home_anchored (sp_pattern e) = anchored \<and> pp_segments (sp_pattern e) = segs"
      unfolding list_ex_iff by blast
    obtain e where e: "row = Inr e" using row(2) by (cases "row :: error + sensitive_path") auto
    show ?thesis by (rule that [of e]) (use row in \<open>simp_all del: set_append add: e\<close>)
  qed
  have "pattern_matches (sp_pattern e) p home"
    unfolding matches_target [OF assms(1-3)] e(4,5) using assms(4,5) by blast
  then show ?thesis
    unfolding watched_surface_def list_ex_iff using e(2,3) by (intro bexI [OF _ e(1)]) simp
qed

lemma match_below:
  assumes "literal_seg a" "literal_seg b"
  shows "match_segments [a, b, recursive] (a # b # t)"
proof -
  have "\<forall>l \<in> set [a, b]. literal_seg l" using assms by simp
  note head = match_literal_head [OF this, of "[recursive]" "[a, b] @ t"]
  have "match_segments ([a, b] @ [recursive]) ([a, b] @ t)"
    unfolding head by (intro exI [of _ t] conjI match_recursive_last refl)
  then show ?thesis unfolding append.simps .
qed

lemma surface_watched:
  assumes "ordinary_home home" "wf_path p" "ap_flavour p = Posix" "unjudged_surface home p content"
  shows "watched_surface Darwin home p"
proof -
  have home: "home_ok home" using assms(1) by (simp add: ordinary_home_def)
  note watches = row_watches [OF home assms(2,3)]
  have lits: "literal_seg ''Library''" "literal_seg ''LaunchAgents''" "literal_seg ''LaunchDaemons''"
    "literal_seg ''.config''" "literal_seg ''fish''" "literal_seg ''git''" by code_simp+
  have g: "match_segments [''.gitconfig''] [''.gitconfig'']" by code_simp
  from assms(4) consider t where "segments p = ''Library'' # ''LaunchAgents'' # t"
    | t where "segments p = ''Library'' # ''LaunchDaemons'' # t"
    | t where "segments p = segments home @ ''.config'' # ''fish'' # t"
    | t where "segments p = segments home @ ''.config'' # ''git'' # t" | "segments p = segments home @ [''.gitconfig'']"
    by (auto simp: unjudged_surface_def)
  then show ?thesis
  proof cases
    case (1 t)
    show ?thesis by (rule watches [OF match_below [OF lits(1,2)], where anchored = False]) (simp_all add: 1)
  next
    case (2 t)
    show ?thesis by (rule watches [OF match_below [OF lits(1,3)], where anchored = False]) (simp_all add: 2)
  next
    case (3 t)
    show ?thesis by (rule watches [OF match_below [OF lits(4,5)], where anchored = True]) (simp_all add: 3)
  next
    case (4 t)
    show ?thesis by (rule watches [OF match_below [OF lits(4,6)], where anchored = True]) (simp_all add: 4)
  next
    case 5
    show ?thesis by (rule watches [OF g, where anchored = True]) (simp_all add: 5)
  qed
qed

text \<open>C40: kinds of persistence surface that are watched but not judged are learned silently. A
  system-wide launch agent or daemon, a fish function, the git attributes, and a git
  configuration with none of the words that its rule looks for (a credential helper set for one
  server has none) are surfaces of the registry; whatever file appears or changes there, with
  whatever content, the comparison that first sees it makes it the trusted one, and the next
  sees no change. The home is a posix directory outside \<open>/private\<close>, \<open>/var\<close> and \<open>/Library\<close>, and no
  other path is displayed like the file's.\<close>

theorem unjudged_surfaces_are_learned:
  assumes "bounded_env_ok env" "monitor_execute ports (json_stores env) s = (Inr out, s')"
    and "baseline_load (be_store env) (mn_baseline s) = Inr previous" "mo_collect ports = Inr current"
    and "list_all entry_storable previous" "list_all entry_storable current"
    and "persistence_scanner = Inr reg" "mo_scan ports = (\<lambda>cs. engine_scan reg cs switches)"
    and "gained ports previous current e" "mo_read ports (bl_path e) = Inr shown"
    and "ordinary_home (ctx_home (mo_context ports))" "wf_path (bl_path e)" "ap_flavour (bl_path e) = Posix"
    and "unjudged_surface (ctx_home (mo_context ports)) (bl_path e) shown"
  shows "watched_surface Darwin (ctx_home (mo_context ports)) (bl_path e) \<and>
    (\<exists>trusted. baseline_load (be_store env) (mn_baseline s') = Inr trusted \<and>
       entry_at trusted (ap_value (bl_path e)) = Some e \<and> (\<forall>b. (b, Some e) \<notin> set (change_descriptors trusted current)))"
  using surface_watched [OF assms(11-14)] unreported_is_learned [OF assms(1-10) surface_unreported [OF assms(11-14)]] by blast

definition server_helper :: string where
  "server_helper = ''[credential \"https://h\"]'' @ newline @ ''helper = !/tmp/x''"

abbreviation helper_gain :: "baseline_entry list" where
  "helper_gain \<equiv> [sample_entry gitconfig_path server_helper, sample_entry [''Library'', ''LaunchAgents'', ''x.plist''] ''<plist/>'']"

lemma helper_gained:
  "gained (sample_monitor helper_gain content) harmless_gain helper_gain (sample_entry gitconfig_path server_helper)"
  "gained (sample_monitor helper_gain content) harmless_gain helper_gain (sample_entry [''Library'', ''LaunchAgents'', ''x.plist''] ''<plist/>'')"
  "list_all entry_storable helper_gain" "ordinary_home (ctx_home sample_ctx)"
  "\<not> dangerous_git_keys server_helper"
  by code_simp+

lemma unjudged_surfaces_are_learned_witness:
  "\<exists>s' trusted. snd (monitor_execute (sample_monitor helper_gain (\<lambda>_. Inr (Some server_helper)))
       (json_stores sample_bounded_env) (sample_monitor_state harmless_gain)) = s' \<and>
     baseline_load (be_store sample_bounded_env) (mn_baseline s') = Inr trusted \<and>
     entry_at trusted ''/home/u/.gitconfig'' = Some (sample_entry gitconfig_path server_helper) \<and>
     entry_at trusted ''/Library/LaunchAgents/x.plist'' = Some (sample_entry [''Library'', ''LaunchAgents'', ''x.plist''] ''<plist/>'')"
proof -
  let ?ports = "sample_monitor helper_gain (\<lambda>_. Inr (Some server_helper))"
  let ?e = "sample_entry gitconfig_path server_helper" and ?l = "sample_entry [''Library'', ''LaunchAgents'', ''x.plist''] ''<plist/>''"
  obtain r s' where run: "monitor_execute ?ports (json_stores sample_bounded_env) (sample_monitor_state harmless_gain) = (r, s')"
    by (cases "monitor_execute ?ports (json_stores sample_bounded_env) (sample_monitor_state harmless_gain)")
  have "fst (monitor_once harmless_gain helper_gain (\<lambda>_. Inr (Some server_helper))) = Inr 0" by code_simp
  then obtain out where out: "r = Inr out" using run by (cases r) (auto simp: monitor_once_def)
  have ctx: "mo_context ?ports = sample_ctx" and shown: "mo_read ?ports p = Inr (Some server_helper)" for p
    by (simp_all add: sample_monitor_def)
  have paths: "wf_path (bl_path ?e)" "ap_flavour (bl_path ?e) = Posix" "wf_path (bl_path ?l)" "ap_flavour (bl_path ?l) = Posix"
    "segments (bl_path ?e) = segments (ctx_home sample_ctx) @ [''.gitconfig'']"
    "segments (bl_path ?l) = [''Library'', ''LaunchAgents''] @ [''x.plist'']"
    "ap_value (bl_path ?e) = ''/home/u/.gitconfig''" "ap_value (bl_path ?l) = ''/Library/LaunchAgents/x.plist''"
    by code_simp+
  then have surface: "unjudged_surface (ctx_home sample_ctx) (bl_path ?e) (Some server_helper)"
    "unjudged_surface (ctx_home sample_ctx) (bl_path ?l) (Some server_helper)"
    using helper_gained(5) unfolding unjudged_surface_def option.case by blast+
  note learned = unjudged_surfaces_are_learned [OF sample_bounded_env_ok run [unfolded out] stored_back [OF sample_storable(1)]
        sample_monitor_sel(1) sample_storable(1) helper_gained(3) persistence_registry_built sample_monitor_sel(2) _ shown,
        unfolded ctx, OF _ helper_gained(4)]
  obtain trusted where t: "baseline_load (be_store sample_bounded_env) (mn_baseline s') = Inr trusted"
    "entry_at trusted ''/home/u/.gitconfig'' = Some ?e"
    using learned [OF helper_gained(1) paths(1,2) surface(1)] unfolding paths(7) by blast
  moreover have "entry_at trusted ''/Library/LaunchAgents/x.plist'' = Some ?l"
    using learned [OF helper_gained(2) paths(3,4) surface(2)] t(1) unfolding paths(8) by auto
  ultimately show ?thesis unfolding run by auto
qed

section \<open>A pending file that is too large\<close>

text \<open>A size of a JSON value that counts the characters of its texts only.\<close>

fun json_chars :: "json \<Rightarrow> int" where
  "json_chars (JString s) = int (length s)"
| "json_chars (JArray js) = sum_list (map json_chars js)"
| "json_chars (JObject props) = sum_list (map (\<lambda>p. int (length (fst p)) + json_chars (snd p)) props)"
| "json_chars _ = 0"

text \<open>The pending store can write a file that it refuses to read. Saving checks how many
  incidents there are, loading also how large the file is. When the document of at most 2048
  incidents exceeds two megabytes, it is saved without an error, and from then on every
  comparison throws before it does anything and leaves all its state as it was: nothing is
  reported any more until the file is removed by hand.\<close>

theorem oversized_pending_locks_out:
  assumes "pending_save env xs = Inr file" "mn_pending s = file"
    and "be_size env (io_print (se_io (be_store env)) (pending_document env xs)) > max_pending_bytes"
  shows "pending_load env file = Inl CorruptStore \<and> (\<exists>e. monitor_execute ports (json_stores env) s = (Inl e, s))"
proof -
  have load: "pending_load env file = Inl CorruptStore"
  proof -
    have "file = Content (io_print (se_io (be_store env)) (pending_document env xs))"
      using assms(1) by (auto simp: pending_save_def split: if_splits)
    then show ?thesis using assms(3) by (simp add: pending_load_def exceeds_def)
  qed
  have "\<exists>e. rbind (mt_load_baseline (json_stores env) (mn_baseline s)) (\<lambda>previous.
      rbind (mo_collect ports) (\<lambda>current. rbind (mo_decisions ports) (\<lambda>decisions.
      rbind (mt_load_pending (json_stores env) (mn_pending s)) (\<lambda>incidents.
      rbind (mo_pause ports) (\<lambda>pause. rmap (\<lambda>a. (previous, incidents, decisions, pause, a))
        (assess_changes ports decisions previous current incidents)))))) = Inl e"
    using load assms(2)
    by (cases "mt_load_baseline (json_stores env) (mn_baseline s)"; cases "mo_collect ports"; cases "mo_decisions ports")
      (auto simp: json_stores_def)
  then show ?thesis using load by (auto simp: monitor_execute_def)
qed

definition long_incident :: incident where
  "long_incident =
     \<lparr>ic_id = replicate 700 (CHR ''a''), ic_key = ''k'', ic_subject = replicate 330 (CHR ''a''), ic_rules = [''AG-P004''],
      ic_severity = Critical, ic_state = PendingReview, ic_previous = None, ic_current = None, ic_first = 1, ic_last = 1,
      ic_count = 1\<rparr>"

lemma oversized_pending_locks_out_witness:
  "\<exists>file e. pending_save (sample_bounded_env\<lparr>be_size := json_chars\<rparr>) (replicate 2048 long_incident) = Inr file \<and>
     monitor_execute (sample_monitor [] (\<lambda>_. Inr None)) (json_stores (sample_bounded_env\<lparr>be_size := json_chars\<rparr>))
       (sample_monitor_state []\<lparr>mn_pending := file\<rparr>) = (Inl e, sample_monitor_state []\<lparr>mn_pending := file\<rparr>)"
proof -
  let ?env = "sample_bounded_env\<lparr>be_size := json_chars\<rparr>" and ?xs = "replicate 2048 long_incident"
  obtain saved where saved: "pending_save ?env ?xs = Inr saved" by (simp add: pending_save_def max_incidents_def)
  have "json_chars (incident_value dt long_incident) \<ge> 1030" for dt
    by (simp add: incident_value_def long_incident_def json_int_def json_text_def)
  then have "sum_list (replicate 2048 (json_chars (incident_value dt long_incident))) \<ge> 2048 * 1030" for dt
    by (simp add: sum_list_replicate)
  from this [of sample_pending_dates] have "be_size ?env (io_print (se_io (be_store ?env)) (pending_document ?env ?xs)) > max_pending_bytes"
    by (simp add: pending_document_def versioned_def max_pending_bytes_def sample_bounded_env_def plain_io_def o_def
        map_replicate_const json_int_def)
  then show ?thesis using oversized_pending_locks_out [OF saved, of "sample_monitor_state []\<lparr>mn_pending := saved\<rparr>"] saved by auto
qed

end
