(* ===== verification/WindowsRequest.thy ===== *)
theory WindowsRequest
  imports Policy "HOL-Library.Word"
begin

text \<open>
  The binary contract of \<open>src/infrastructure/sandbox/WindowsSandboxRunner.ts\<close> with its
  native launcher: the request that is written and the result that is read, on bytes and
  32-bit little-endian words. A text of a request is the list of its UTF-16 code units. Writing
  it as UTF-8 replaces a surrogate that stands alone by U+FFFD; reading never fails and replaces
  each malformed sequence, as \<open>Buffer\<close> does in both directions. The lemmas show that the decoder
  reads back what the encoder writes, up to lone surrogates, that it accepts nothing behind a
  request, and that no request exceeds its bounds.
\<close>

section \<open>UTF-8\<close>

unbundle bit_operations_syntax

type_synonym byte = "8 word"
type_synonym js_text = "16 word list"

definition units :: "string \<Rightarrow> js_text" where
  "units s = map (\<lambda>c. of_nat (code_of c)) s"

definition replacement :: nat where
  "replacement = 0xfffd"

definition is_high :: "nat \<Rightarrow> bool" where
  "is_high u = (0xd800 \<le> u \<and> u \<le> 0xdbff)"

definition is_low :: "nat \<Rightarrow> bool" where
  "is_low u = (0xdc00 \<le> u \<and> u \<le> 0xdfff)"

definition mended_unit :: "nat \<Rightarrow> nat" where
  "mended_unit u = (if is_high u \<or> is_low u then replacement else u)"

text \<open>The scalar values of a text.\<close>

fun scalar_values :: "nat list \<Rightarrow> nat list" where
  "scalar_values [] = []"
| "scalar_values [u] = [mended_unit u]"
| "scalar_values (u # v # us) =
     (if is_high u \<and> is_low v then (0x10000 + (u - 0xd800) * 1024 + (v - 0xdc00)) # scalar_values us
      else mended_unit u # scalar_values (v # us))"

definition utf8_scalar :: "nat \<Rightarrow> nat list" where
  "utf8_scalar n =
     (if n < 0x80 then [n]
      else if n < 0x800 then [0xc0 + n div 64, 0x80 + n mod 64]
      else if n < 0x10000 then [0xe0 + n div 4096, 0x80 + n div 64 mod 64, 0x80 + n mod 64]
      else [0xf0 + n div 262144, 0x80 + n div 4096 mod 64, 0x80 + n div 64 mod 64, 0x80 + n mod 64])"

definition utf8_encode :: "js_text \<Rightarrow> byte list" where
  "utf8_encode s = map of_nat (concat (map utf8_scalar (scalar_values (map unat s))))"

text \<open>How many bytes follow a first byte, the range of the next of them, and the bits it carries.\<close>

definition utf8_lead :: "nat \<Rightarrow> (nat \<times> nat \<times> nat \<times> nat) option" where
  "utf8_lead b =
     (if 0xc2 \<le> b \<and> b \<le> 0xdf then Some (1, 0x80, 0xbf, b - 0xc0)
      else if 0xe0 \<le> b \<and> b \<le> 0xef
      then Some (2, if b = 0xe0 then 0xa0 else 0x80, if b = 0xed then 0x9f else 0xbf, b - 0xe0)
      else if 0xf0 \<le> b \<and> b \<le> 0xf4
      then Some (3, if b = 0xf0 then 0x90 else 0x80, if b = 0xf4 then 0x8f else 0xbf, b - 0xf0)
      else None)"

text \<open>
  The decoder: \<open>need\<close> bytes are missing from the value \<open>cp\<close>, the next of them between \<open>lo\<close> and
  \<open>hi\<close>. A byte that does not fit ends the sequence with a replacement and begins the next.
\<close>

fun utf8_run :: "nat \<Rightarrow> nat \<Rightarrow> nat \<Rightarrow> nat \<Rightarrow> nat list \<Rightarrow> nat list" where
  "utf8_run cp need lo hi [] = (if need = 0 then [] else [replacement])"
| "utf8_run cp need lo hi (b # bs) =
     (if need > 0 \<and> lo \<le> b \<and> b \<le> hi then
        (if need = 1 then (cp * 64 + (b - 0x80)) # utf8_run 0 0 0 0 bs
         else utf8_run (cp * 64 + (b - 0x80)) (need - 1) 0x80 0xbf bs)
      else (if need = 0 then [] else [replacement]) @
        (if b < 0x80 then b # utf8_run 0 0 0 0 bs
         else case utf8_lead b of
                None \<Rightarrow> replacement # utf8_run 0 0 0 0 bs
              | Some (n, lo', hi', bits) \<Rightarrow> utf8_run bits n lo' hi' bs))"

definition utf16_units :: "nat \<Rightarrow> nat list" where
  "utf16_units n =
     (if n < 0x10000 then [n] else [0xd800 + (n - 0x10000) div 1024, 0xdc00 + (n - 0x10000) mod 1024])"

definition utf16_text :: "nat list \<Rightarrow> js_text" where
  "utf16_text ns = map of_nat (concat (map utf16_units ns))"

definition utf8_decode :: "byte list \<Rightarrow> js_text" where
  "utf8_decode bs = utf16_text (utf8_run 0 0 0 0 (map unat bs))"

text \<open>A text with its lone surrogates replaced.\<close>

definition mended :: "js_text \<Rightarrow> js_text" where
  "mended s = utf16_text (scalar_values (map unat s))"

subsection \<open>Reading back\<close>

definition is_scalar :: "nat \<Rightarrow> bool" where
  "is_scalar n = (n < 0xd800 \<or> 0xe000 \<le> n \<and> n < 0x110000)"

lemma mended_unit_scalar: "u < 0x10000 \<Longrightarrow> is_scalar (mended_unit u)"
  by (auto simp: mended_unit_def is_scalar_def is_high_def is_low_def replacement_def)

lemma scalar_values_scalar: "\<forall>u \<in> set us. u < 0x10000 \<Longrightarrow> \<forall>n \<in> set (scalar_values us). is_scalar n"
proof (induction us rule: scalar_values.induct)
  case (3 u v us)
  show ?case
  proof (cases "is_high u \<and> is_low v")
    case True
    then have "is_scalar (0x10000 + (u - 0xd800) * 1024 + (v - 0xdc00))"
      by (auto simp: is_scalar_def is_high_def is_low_def)
    then show ?thesis using 3 True by simp
  next
    case False
    then show ?thesis using 3 mended_unit_scalar by auto
  qed
qed (simp_all add: mended_unit_scalar)

lemma run_scalar:
  assumes "is_scalar n"
  shows "utf8_run 0 0 0 0 (utf8_scalar n @ bs) = n # utf8_run 0 0 0 0 bs"
proof -
  let ?a = "n div 262144" and ?b = "n div 4096 mod 64" and ?c = "n div 64 mod 64" and ?d = "n mod 64"
  have small: "?b < 64" "?c < 64" "?d < 64" by simp_all
  consider "n < 0x80" | "0x80 \<le> n" "n < 0x800" | "0x800 \<le> n" "n < 0x10000" | "0x10000 \<le> n" "n < 0x110000"
    using assms unfolding is_scalar_def by linarith
  then show ?thesis
  proof cases
    case 1
    then show ?thesis by (simp add: utf8_scalar_def)
  next
    case 2
    obtain q r where q: "n div 64 = q" "n mod 64 = r" by blast
    have "2 \<le> n div 64" "n div 64 < 32" "n mod 64 < 64" "n div 64 * 64 + n mod 64 = n" using 2 by auto
    then have "2 \<le> q" "q < 32" "r < 64" "q * 64 + r = n" unfolding q .
    then show ?thesis using 2 by (auto simp: utf8_scalar_def q utf8_lead_def)
  next
    case 3
    let ?e = "n div 4096"
    have e: "?e < 16" using 3 by auto
    have split: "n div 64 = ?e * 64 + ?c" using div_mult2_eq [of n 64 64] by simp
    then have whole: "(?e * 64 + ?c) * 64 + ?d = n" by (metis div_mult_mod_eq)
    have lo: "?e = 0 \<Longrightarrow> 32 \<le> ?c" using 3 split by auto
    have hi: "?e = 13 \<Longrightarrow> ?c < 32"
    proof (rule ccontr)
      assume "?e = 13" "\<not> ?c < 32"
      then have "864 \<le> n div 64" "n div 64 < 896" using split small by auto
      then have "0xd800 \<le> n" "n < 0xe000" by auto
      then show False using assms by (auto simp: is_scalar_def)
    qed
    obtain x y z where q: "?e = x" "?c = y" "?d = z" by blast
    show ?thesis using 3 e lo hi small whole unfolding utf8_scalar_def q
      by (auto simp: utf8_lead_def)
  next
    case 4
    have a: "?a \<le> 4" using 4 by auto
    have s1: "n div 4096 = ?a * 64 + ?b" using div_mult2_eq [of n 4096 64] by simp
    have s2: "n div 64 = n div 4096 * 64 + ?c" using div_mult2_eq [of n 64 64] by simp
    have whole: "((?a * 64 + ?b) * 64 + ?c) * 64 + ?d = n" unfolding s1 [symmetric] s2 [symmetric] by simp
    have lo: "?a = 0 \<Longrightarrow> 16 \<le> ?b" using 4 s1 by auto
    have hi: "?a = 4 \<Longrightarrow> ?b < 16" using 4 s1 by auto
    obtain w x y z where q: "?a = w" "?b = x" "?c = y" "?d = z" by blast
    show ?thesis using 4 a lo hi small whole unfolding utf8_scalar_def q
      by (auto simp: utf8_lead_def)
  qed
qed

lemma run_scalars: "\<forall>n \<in> set ns. is_scalar n \<Longrightarrow> utf8_run 0 0 0 0 (concat (map utf8_scalar ns)) = ns"
  by (induction ns) (simp_all add: run_scalar)

lemma utf8_scalar_bytes: "is_scalar n \<Longrightarrow> \<forall>b \<in> set (utf8_scalar n). b < 256"
  by (auto simp: utf8_scalar_def is_scalar_def)

lemma unat_of_nat_map: "\<forall>n \<in> set ns. n < 2 ^ LENGTH('a) \<Longrightarrow> map unat (map of_nat ns :: 'a :: len word list) = ns"
  by (induction ns) (simp_all add: unat_of_nat)

lemma unit_bounded: "\<forall>u \<in> set (map unat (s :: js_text)). u < 0x10000"
proof
  fix u assume "u \<in> set (map unat s)"
  then obtain w :: "16 word" where "u = unat w" by auto
  then show "u < 0x10000" using unsigned_less [of w, where 'a = nat] by simp
qed

lemma utf8_reads_back: "utf8_decode (utf8_encode s) = mended s"
proof -
  let ?ns = "scalar_values (map unat s)"
  have scalars: "\<forall>n \<in> set ?ns. is_scalar n" by (rule scalar_values_scalar [OF unit_bounded])
  then have "\<forall>b \<in> set (concat (map utf8_scalar ?ns)). b < 256" using utf8_scalar_bytes by auto
  then have "map unat (utf8_encode s) = concat (map utf8_scalar ?ns)"
    unfolding utf8_encode_def by (intro unat_of_nat_map) simp
  then show ?thesis using run_scalars [OF scalars] by (simp add: utf8_decode_def mended_def)
qed

subsection \<open>What is read has no lone surrogate\<close>











lemma scalar_values_units:
  "\<forall>n \<in> set ns. is_scalar n \<Longrightarrow> scalar_values (concat (map utf16_units ns)) = ns"
proof (induction ns)
  case (Cons n ns)
  show ?case
  proof (cases "n < 0x10000")
    case True
    have plain: "\<not> is_high n" "mended_unit n = n"
      using Cons.prems True by (auto simp: is_scalar_def is_high_def is_low_def mended_unit_def)
    have "scalar_values (n # us) = n # scalar_values us" for us using plain by (cases us) simp_all
    then show ?thesis using Cons True by (simp add: utf16_units_def)
  next
    case False
    let ?h = "0xd800 + (n - 0x10000) div 1024" and ?l = "0xdc00 + (n - 0x10000) mod 1024"
    have "n < 0x110000" using Cons.prems False by (auto simp: is_scalar_def)
    then have "(n - 0x10000) div 1024 < 1024" by auto
    then have "is_high ?h" "is_low ?l" by (simp_all add: is_high_def is_low_def)
    moreover have "0x10000 + (?h - 0xd800) * 1024 + (?l - 0xdc00) = n"
    proof -
      have "(n - 0x10000) div 1024 * 1024 + (n - 0x10000) mod 1024 = n - 0x10000" by (rule div_mult_mod_eq)
      then show ?thesis using False by simp
    qed
    ultimately show ?thesis using Cons False by (simp add: utf16_units_def)
  qed
qed simp

lemma utf16_units_bounded: "is_scalar n \<Longrightarrow> \<forall>u \<in> set (utf16_units n). u < 0x10000"
  by (auto simp: utf16_units_def is_scalar_def)

lemma mended_text: "\<forall>n \<in> set ns. is_scalar n \<Longrightarrow> mended (utf16_text ns) = utf16_text ns"
proof -
  assume scalars: "\<forall>n \<in> set ns. is_scalar n"
  then have "\<forall>u \<in> set (concat (map utf16_units ns)). u < 0x10000" using utf16_units_bounded by auto
  then have "map unat (utf16_text ns) = concat (map utf16_units ns)"
    unfolding utf16_text_def by (intro unat_of_nat_map) simp
  then show ?thesis using scalar_values_units [OF scalars] by (simp add: mended_def)
qed


text \<open>The texts of the rest of the model are untouched.\<close>

lemma latin_scalar: "n < 256 \<Longrightarrow> is_scalar n \<and> utf16_units n = [n]"
  by (simp add: is_scalar_def utf16_units_def)

lemma mended_units: "mended (units s) = units s"
proof -
  have latin: "is_scalar (code_of c) \<and> utf16_units (code_of c) = [code_of c]" for c :: char
    by (rule latin_scalar) simp
  then have "concat (map utf16_units (map code_of s)) = map code_of s" by (induction s) simp_all
  then have same: "units s = utf16_text (map code_of s)" by (simp add: units_def utf16_text_def comp_def)
  show ?thesis unfolding same using latin by (intro mended_text) simp
qed

text \<open>No NUL appears where none was.\<close>

lemma scalar_values_NUL: "0 \<in> set (scalar_values us) \<Longrightarrow> 0 \<in> set us"
  by (induction us rule: scalar_values.induct) (auto simp: mended_unit_def replacement_def split: if_splits)

lemma mended_NUL: "0 \<in> set (mended s) \<Longrightarrow> 0 \<in> set s"
proof -
  assume "0 \<in> set (mended s)"
  then obtain n u where n: "n \<in> set (scalar_values (map unat s))" "u \<in> set (utf16_units n)" "(of_nat u :: 16 word) = 0"
    by (auto simp: mended_def utf16_text_def)
  have "is_scalar n" using n(1) scalar_values_scalar [OF unit_bounded] by blast
  then have "u < 0x10000" using n(2) utf16_units_bounded by blast
  then have "u = 0" using arg_cong [OF n(3), of unat] by (simp add: unat_of_nat)
  then have "n = 0" using n(2) by (auto simp: utf16_units_def split: if_splits)
  then have "0 \<in> set (map unat s)" using n(1) scalar_values_NUL by blast
  then show "0 \<in> set s" by (metis (no_types, lifting) image_iff list.set_map unat_eq_zero)
qed

section \<open>Words\<close>

definition u32_bytes :: "32 word \<Rightarrow> byte list" where
  "u32_bytes w = [ucast w, ucast (drop_bit 8 w), ucast (drop_bit 16 w), ucast (drop_bit 24 w)]"

definition bytes_u32 :: "byte \<Rightarrow> byte \<Rightarrow> byte \<Rightarrow> byte \<Rightarrow> 32 word" where
  "bytes_u32 a b c d = ucast a OR push_bit 8 (ucast b) OR push_bit 16 (ucast c) OR push_bit 24 (ucast d)"

lemma bytes_u32_back: "bytes_u32 (ucast w) (ucast (drop_bit 8 w)) (ucast (drop_bit 16 w)) (ucast (drop_bit 24 w)) = w"
proof (rule bit_word_eqI)
  fix n assume "n < LENGTH(32)"
  then have n: "n < 32" by simp
  then consider "n < 8" | "8 \<le> n" "n < 16" | "16 \<le> n" "n < 24" | "24 \<le> n" by linarith
  then show "bit (bytes_u32 (ucast w) (ucast (drop_bit 8 w)) (ucast (drop_bit 16 w)) (ucast (drop_bit 24 w))) n = bit w n"
    by cases (use n in \<open>auto simp: bytes_u32_def bit_simps\<close>)
qed

lemma u32_bytes_back: "u32_bytes (bytes_u32 a b c d) = [a, b, c, d]"
  unfolding u32_bytes_def list.inject
proof (intro conjI)
  show "ucast (bytes_u32 a b c d) = a" by (rule bit_word_eqI) (auto simp: bytes_u32_def bit_simps)
  show "ucast (drop_bit 8 (bytes_u32 a b c d)) = b"
    by (rule bit_word_eqI) (auto simp: bytes_u32_def bit_simps dest: bit_imp_le_length)
  show "ucast (drop_bit 16 (bytes_u32 a b c d)) = c"
    by (rule bit_word_eqI) (auto simp: bytes_u32_def bit_simps dest: bit_imp_le_length)
  show "ucast (drop_bit 24 (bytes_u32 a b c d)) = d"
    by (rule bit_word_eqI) (auto simp: bytes_u32_def bit_simps dest: bit_imp_le_length)
qed simp

section \<open>The request\<close>

datatype encoded_scope = FileScope | SubtreeScope

text \<open>The texts are \<open>string\<close>s where the model plans a request and code units where it writes one.\<close>

record 't encoded_resource =
  er_scope :: encoded_scope
  er_path :: 't

record 't denied_resource =
  wd_scope :: encoded_scope
  wd_path :: 't
  wd_access :: access

record 't windows_request =
  wq_timeout :: "int option"
  wq_executable :: 't
  wq_cwd :: 't
  wq_args :: "'t list"
  wq_reads :: "'t encoded_resource list"
  wq_writes :: "'t encoded_resource list"
  wq_denies :: "'t denied_resource list"

definition resource_map :: "('a \<Rightarrow> 'b) \<Rightarrow> 'a encoded_resource \<Rightarrow> 'b encoded_resource" where
  "resource_map f r = \<lparr>er_scope = er_scope r, er_path = f (er_path r)\<rparr>"

definition deny_map :: "('a \<Rightarrow> 'b) \<Rightarrow> 'a denied_resource \<Rightarrow> 'b denied_resource" where
  "deny_map f d = \<lparr>wd_scope = wd_scope d, wd_path = f (wd_path d), wd_access = wd_access d\<rparr>"

definition request_map :: "('a \<Rightarrow> 'b) \<Rightarrow> 'a windows_request \<Rightarrow> 'b windows_request" where
  "request_map f q =
     \<lparr>wq_timeout = wq_timeout q, wq_executable = f (wq_executable q), wq_cwd = f (wq_cwd q),
      wq_args = map f (wq_args q), wq_reads = map (resource_map f) (wq_reads q),
      wq_writes = map (resource_map f) (wq_writes q), wq_denies = map (deny_map f) (wq_denies q)\<rparr>"

abbreviation wire :: "string windows_request \<Rightarrow> js_text windows_request" where
  "wire \<equiv> request_map units"

definition request_magic :: "byte list" where
  "request_magic = map (\<lambda>c. of_nat (code_of c)) ''AKSBOX01''"

definition request_version :: int where
  "request_version = 3"

definition max_request_bytes :: nat where
  "max_request_bytes = 16 * 1024 * 1024"

definition max_collection_items :: nat where
  "max_collection_items = 100000"

section \<open>Writing\<close>

text \<open>\<open>writeUInt32LE\<close> throws out of its range.\<close>

definition write_uint32 :: "int \<Rightarrow> byte list res" where
  "write_uint32 v = (if 0 \<le> v \<and> v \<le> 4294967295 then Inr (u32_bytes (word_of_int v)) else Inl OutOfRange)"

definition write_string :: "js_text \<Rightarrow> byte list res" where
  "write_string s =
     (if 0 \<in> set s then Inl NulByte
      else let encoded = utf8_encode s in rmap (\<lambda>n. n @ encoded) (write_uint32 (int (length encoded))))"

definition write_count :: "nat \<Rightarrow> byte list res" where
  "write_count n = (if n > max_collection_items then Inl TooMany else write_uint32 (int n))"

definition write_all :: "('a \<Rightarrow> byte list res) \<Rightarrow> 'a list \<Rightarrow> byte list res" where
  "write_all f xs =
     rbind (write_count (length xs)) (\<lambda>n. rmap (\<lambda>bs. n @ concat bs) (traverse f xs))"

definition scope_number :: "encoded_scope \<Rightarrow> int" where
  "scope_number s = (if s = SubtreeScope then 1 else 0)"

definition write_resource :: "js_text encoded_resource \<Rightarrow> byte list res" where
  "write_resource r =
     rbind (write_uint32 (scope_number (er_scope r))) (\<lambda>a. rmap (\<lambda>b. a @ b) (write_string (er_path r)))"

definition write_deny :: "js_text denied_resource \<Rightarrow> byte list res" where
  "write_deny d =
     rbind (write_uint32 (scope_number (wd_scope d))) (\<lambda>a.
     rbind (write_uint32 (if wd_access d = Read then 0 else 1)) (\<lambda>b.
     rmap (\<lambda>c. a @ b @ c) (write_string (wd_path d))))"

definition assert_deadline :: "int \<Rightarrow> unit res" where
  "assert_deadline t = (if t \<le> 0 \<or> t \<ge> 0xffffffff then Inl OutOfRange else Inr ())"

definition encode_request :: "js_text windows_request \<Rightarrow> byte list res" where
  "encode_request q =
     rbind (case wq_timeout q of None \<Rightarrow> Inr () | Some t \<Rightarrow> assert_deadline t) (\<lambda>_.
     rbind (write_uint32 request_version) (\<lambda>version.
     rbind (write_uint32 (case wq_timeout q of None \<Rightarrow> 0 | Some t \<Rightarrow> t)) (\<lambda>timeout.
     rbind (write_string (wq_executable q)) (\<lambda>executable.
     rbind (write_string (wq_cwd q)) (\<lambda>cwd.
     rbind (write_all write_string (wq_args q)) (\<lambda>args.
     rbind (write_all write_resource (wq_reads q)) (\<lambda>reads.
     rbind (write_all write_resource (wq_writes q)) (\<lambda>writes.
     rbind (write_all write_deny (wq_denies q)) (\<lambda>denies.
       let content = request_magic @ version @ timeout @ executable @ cwd @ args @ reads @ writes @ denies
       in if length content > max_request_bytes then Inl TooMany else Inr content)))))))))"

section \<open>Reading\<close>

text \<open>A reader takes the bytes that are left and returns a value with the rest.\<close>

type_synonym 'a reader = "byte list \<Rightarrow> ('a \<times> byte list) res"

definition read_bytes :: "nat \<Rightarrow> byte list reader" where
  "read_bytes n bs = (if n > length bs then Inl BadRequest else Inr (take n bs, drop n bs))"

definition read_uint32 :: "int reader" where
  "read_uint32 bs =
     rmap (\<lambda>(b, rest). (uint (bytes_u32 (b ! 0) (b ! 1) (b ! 2) (b ! 3)), rest)) (read_bytes 4 bs)"

definition read_string :: "js_text reader" where
  "read_string bs =
     rbind (read_uint32 bs) (\<lambda>(n, bs1).
     rbind (read_bytes (nat n) bs1) (\<lambda>(b, bs2).
       let s = utf8_decode b in if 0 \<in> set s then Inl NulByte else Inr (s, bs2)))"

fun read_times :: "nat \<Rightarrow> 'a reader \<Rightarrow> 'a list reader" where
  "read_times 0 f bs = Inr ([], bs)"
| "read_times (Suc n) f bs =
     rbind (f bs) (\<lambda>(x, bs1). rmap (\<lambda>(xs, bs2). (x # xs, bs2)) (read_times n f bs1))"

definition read_all :: "'a reader \<Rightarrow> 'a list reader" where
  "read_all f bs =
     rbind (read_uint32 bs) (\<lambda>(n, bs1).
       if n > int max_collection_items then Inl TooMany else read_times (nat n) f bs1)"

definition read_scope :: "encoded_scope reader" where
  "read_scope bs =
     rbind (read_uint32 bs) (\<lambda>(n, rest).
       if n = 1 then Inr (SubtreeScope, rest) else if n = 0 then Inr (FileScope, rest) else Inl BadRequest)"

definition read_resource :: "js_text encoded_resource reader" where
  "read_resource bs =
     rbind (read_scope bs) (\<lambda>(s, bs1). rmap (\<lambda>(p, bs2). (\<lparr>er_scope = s, er_path = p\<rparr>, bs2)) (read_string bs1))"

definition read_deny :: "js_text denied_resource reader" where
  "read_deny bs =
     rbind (read_uint32 bs) (\<lambda>(s, bs1).
     rbind (read_uint32 bs1) (\<lambda>(a, bs2).
       if s \<noteq> 0 \<and> s \<noteq> 1 then Inl BadRequest
       else if a \<noteq> 0 \<and> a \<noteq> 1 then Inl BadRequest
       else rmap (\<lambda>(p, bs3).
              (\<lparr>wd_scope = (if s = 1 then SubtreeScope else FileScope), wd_path = p,
                wd_access = (if a = 0 then Read else Write)\<rparr>, bs3)) (read_string bs2)))"

definition read_request :: "js_text windows_request reader" where
  "read_request content =
     rbind (read_bytes (length request_magic) content) (\<lambda>(magic, b0).
     if magic \<noteq> request_magic then Inl BadRequest
     else rbind (read_uint32 b0) (\<lambda>(version, b1).
     if version \<noteq> request_version then Inl BadRequest
     else rbind (read_uint32 b1) (\<lambda>(timeout, b2).
          rbind (if timeout \<noteq> 0 then assert_deadline timeout else Inr ()) (\<lambda>_.
          rbind (read_string b2) (\<lambda>(executable, b3).
          rbind (read_string b3) (\<lambda>(cwd, b4).
          rbind (read_all read_string b4) (\<lambda>(args, b5).
          rbind (read_all read_resource b5) (\<lambda>(reads, b6).
          rbind (read_all read_resource b6) (\<lambda>(writes, b7).
          rmap (\<lambda>(denies, b8).
             (\<lparr>wq_timeout = (if timeout = 0 then None else Some timeout), wq_executable = executable,
               wq_cwd = cwd, wq_args = args, wq_reads = reads, wq_writes = writes, wq_denies = denies\<rparr>, b8))
            (read_all read_deny b7))))))))))"

definition decode_request :: "byte list \<Rightarrow> js_text windows_request res" where
  "decode_request content =
     (if length content > max_request_bytes then Inl TooMany
      else rbind (read_request content) (\<lambda>(q, rest). if rest \<noteq> [] then Inl BadRequest else Inr q))"

section \<open>What a reader accepts\<close>

lemma rmap_Inr_iff: "rmap f r = Inr y \<longleftrightarrow> (\<exists>x. r = Inr x \<and> y = f x)"
  by (cases r) auto

lemma read_bytes_iff: "read_bytes n bs = Inr (b, rest) \<longleftrightarrow> bs = b @ rest \<and> length b = n"
  by (auto simp: read_bytes_def)

text \<open>A codec: reading yields a value exactly when the bytes begin with a form of that value.
  A text has several forms, since malformed bytes are read as well.\<close>

locale codec =
  fixes form :: "'a \<Rightarrow> byte list \<Rightarrow> bool" and rd :: "'a reader"
  assumes reads: "rd bs = Inr (x, rest) \<longleftrightarrow> (\<exists>w. form x w \<and> bs = w @ rest)"
begin

lemma times: "read_times n rd bs = Inr (xs, rest) \<longleftrightarrow>
  (\<exists>ws. list_all2 form xs ws \<and> length xs = n \<and> bs = concat ws @ rest)"
proof (induction n arbitrary: bs xs)
  case 0
  show ?case by (cases xs) auto
next
  case (Suc n)
  show ?case
  proof (cases xs)
    case Nil
    then show ?thesis by (auto simp: rmap_Inr_iff)
  next
    case (Cons y ys)
    have "read_times (Suc n) rd bs = Inr (xs, rest) \<longleftrightarrow>
        (\<exists>mid. rd bs = Inr (y, mid) \<and> read_times n rd mid = Inr (ys, rest))"
      unfolding Cons by (auto simp: rmap_Inr_iff)
    also have "\<dots> \<longleftrightarrow> (\<exists>w ws. form y w \<and> list_all2 form ys ws \<and> length ys = n \<and> bs = w @ concat ws @ rest)"
      unfolding reads Suc.IH by blast
    also have "\<dots> \<longleftrightarrow> (\<exists>ws. list_all2 form xs ws \<and> length xs = Suc n \<and> bs = concat ws @ rest)"
      unfolding Cons list_all2_Cons1 by fastforce
    finally show ?thesis .
  qed
qed

text \<open>What follows does not change what is read.\<close>

lemma extended: "rd bs = Inr (x, rest) \<Longrightarrow> rd (bs @ extra) = Inr (x, rest @ extra)"
  unfolding reads by auto

end

text \<open>A writer gives a form of the value that the reader returns.\<close>

locale coding = codec form rd for form :: "'a \<Rightarrow> byte list \<Rightarrow> bool" and rd :: "'a reader" +
  fixes wr :: "'a \<Rightarrow> byte list res" and mend :: "'a \<Rightarrow> 'a"
  assumes writes: "wr x = Inr w \<Longrightarrow> form (mend x) w"
begin

lemma write_times: "traverse wr xs = Inr ws \<Longrightarrow> list_all2 form (map mend xs) ws"
  by (induction xs arbitrary: ws) (auto simp: rbind_eq_Inr rmap_Inr_iff writes)

end

text \<open>The forms of the values of the protocol.\<close>

definition number_form :: "int \<Rightarrow> byte list \<Rightarrow> bool" where
  "number_form v w = (0 \<le> v \<and> v \<le> 4294967295 \<and> w = u32_bytes (word_of_int v))"

definition text_form :: "js_text \<Rightarrow> byte list \<Rightarrow> bool" where
  "text_form s w = (\<exists>n b. number_form (int (length b)) n \<and> w = n @ b \<and> utf8_decode b = s \<and> 0 \<notin> set s)"

definition resource_form :: "js_text encoded_resource \<Rightarrow> byte list \<Rightarrow> bool" where
  "resource_form r w = (\<exists>n t. number_form (scope_number (er_scope r)) n \<and> text_form (er_path r) t \<and> w = n @ t)"

definition deny_form :: "js_text denied_resource \<Rightarrow> byte list \<Rightarrow> bool" where
  "deny_form d w =
     (\<exists>n m t. number_form (scope_number (wd_scope d)) n \<and> number_form (if wd_access d = Read then 0 else 1) m \<and>
        text_form (wd_path d) t \<and> w = n @ m @ t)"

definition collection_form :: "('a \<Rightarrow> byte list \<Rightarrow> bool) \<Rightarrow> 'a list \<Rightarrow> byte list \<Rightarrow> bool" where
  "collection_form form xs w =
     (\<exists>n ws. length xs \<le> max_collection_items \<and> number_form (int (length xs)) n \<and> list_all2 form xs ws \<and>
        w = n @ concat ws)"

lemma write_uint32_iff: "write_uint32 v = Inr w \<longleftrightarrow> number_form v w"
  by (auto simp: write_uint32_def number_form_def)

lemma take4: "4 \<le> length bs \<Longrightarrow> take 4 bs = [bs ! 0, bs ! 1, bs ! 2, bs ! 3]"
  by (rule nth_equalityI) (auto simp: less_Suc_eq numeral_eq_Suc)

lemma read_uint32_reads: "read_uint32 bs = Inr (v, rest) \<longleftrightarrow> (\<exists>w. number_form v w \<and> bs = w @ rest)"
proof
  assume "read_uint32 bs = Inr (v, rest)"
  then have r: "4 \<le> length bs" "rest = drop 4 bs" "v = uint (bytes_u32 (bs ! 0) (bs ! 1) (bs ! 2) (bs ! 3))"
    by (auto simp: read_uint32_def read_bytes_def rmap_Inr_iff split: if_splits)
  have "uint (bytes_u32 (bs ! 0) (bs ! 1) (bs ! 2) (bs ! 3)) < 2 ^ 32"
    using uint_bounded [of "bytes_u32 (bs ! 0) (bs ! 1) (bs ! 2) (bs ! 3)"] by simp
  then have "number_form v (take 4 bs)"
    using r by (simp add: number_form_def u32_bytes_back take4)
  then show "\<exists>w. number_form v w \<and> bs = w @ rest" unfolding r(2) using append_take_drop_id by metis
next
  assume "\<exists>w. number_form v w \<and> bs = w @ rest"
  then have v: "0 \<le> v" "v \<le> 4294967295" "bs = u32_bytes (word_of_int v) @ rest" by (auto simp: number_form_def)
  have "uint (word_of_int v :: 32 word) = v" using v(1,2) by (simp add: uint_word_of_int take_bit_int_eq_self)
  then show "read_uint32 bs = Inr (v, rest)"
    unfolding v(3) by (simp add: read_uint32_def read_bytes_def u32_bytes_def bytes_u32_back)
qed

interpretation number: coding number_form read_uint32 write_uint32 id
  by unfold_locales (simp_all add: read_uint32_reads write_uint32_iff)

lemma number_nonneg: "number_form n w \<Longrightarrow> 0 \<le> n"
  by (simp add: number_form_def)

lemma read_string_reads: "read_string bs = Inr (s, rest) \<longleftrightarrow> (\<exists>w. text_form s w \<and> bs = w @ rest)"
proof -
  have "read_string bs = Inr (s, rest) \<longleftrightarrow>
      (\<exists>n b. read_uint32 bs = Inr (n, b @ rest) \<and> length b = nat n \<and> utf8_decode b = s \<and> 0 \<notin> set s)"
    by (auto simp: read_string_def Let_def rbind_eq_Inr read_bytes_iff split: if_splits)
  also have "\<dots> \<longleftrightarrow> (\<exists>n b w. number_form n w \<and> bs = w @ b @ rest \<and> n = int (length b) \<and> utf8_decode b = s \<and> 0 \<notin> set s)"
    unfolding read_uint32_reads using number_nonneg by (metis int_nat_eq nat_int)
  also have "\<dots> \<longleftrightarrow> (\<exists>w. text_form s w \<and> bs = w @ rest)"
  proof
    assume "\<exists>n b w. number_form n w \<and> bs = w @ b @ rest \<and> n = int (length b) \<and> utf8_decode b = s \<and> 0 \<notin> set s"
    then obtain b w where "number_form (int (length b)) w" "bs = w @ b @ rest" "utf8_decode b = s" "0 \<notin> set s" by blast
    then show "\<exists>w. text_form s w \<and> bs = w @ rest" unfolding text_form_def by (intro exI [of _ "w @ b"]) auto
  next
    assume "\<exists>w. text_form s w \<and> bs = w @ rest"
    then obtain n b where "number_form (int (length b)) n" "bs = n @ b @ rest" "utf8_decode b = s" "0 \<notin> set s"
      unfolding text_form_def by auto
    then show "\<exists>n b w. number_form n w \<and> bs = w @ b @ rest \<and> n = int (length b) \<and> utf8_decode b = s \<and> 0 \<notin> set s"
      by blast
  qed
  finally show ?thesis .
qed

lemma write_string_writes: "write_string s = Inr w \<Longrightarrow> text_form (mended s) w"
  using mended_NUL [of s] utf8_reads_back [of s]
  by (auto simp: write_string_def text_form_def Let_def rmap_Inr_iff write_uint32_iff split: if_splits)

interpretation text_codec: coding text_form read_string write_string mended
  by unfold_locales (rule read_string_reads, rule write_string_writes)

lemma read_resource_reads: "read_resource bs = Inr (r, rest) \<longleftrightarrow> (\<exists>w. resource_form r w \<and> bs = w @ rest)"
proof -
  have "read_resource bs = Inr (r, rest) \<longleftrightarrow>
      (\<exists>mid. read_uint32 bs = Inr (scope_number (er_scope r), mid) \<and> read_string mid = Inr (er_path r, rest))"
    by (cases "er_scope r"; cases r)
      (auto simp: read_resource_def read_scope_def scope_number_def rmap_Inr_iff split: if_splits)
  also have "\<dots> \<longleftrightarrow> (\<exists>w. resource_form r w \<and> bs = w @ rest)"
    unfolding read_uint32_reads read_string_reads resource_form_def by fastforce
  finally show ?thesis .
qed

lemma write_resource_writes: "write_resource r = Inr w \<Longrightarrow> resource_form (resource_map mended r) w"
  using write_string_writes
  by (fastforce simp: write_resource_def resource_form_def resource_map_def rmap_Inr_iff write_uint32_iff)

interpretation resource_codec: coding resource_form read_resource write_resource "resource_map mended"
  by unfold_locales (rule read_resource_reads, rule write_resource_writes)

lemma read_deny_reads: "read_deny bs = Inr (d, rest) \<longleftrightarrow> (\<exists>w. deny_form d w \<and> bs = w @ rest)"
proof -
  have "read_deny bs = Inr (d, rest) \<longleftrightarrow>
      (\<exists>m1 m2. read_uint32 bs = Inr (scope_number (wd_scope d), m1) \<and>
         read_uint32 m1 = Inr (if wd_access d = Read then 0 else 1, m2) \<and> read_string m2 = Inr (wd_path d, rest))"
    by (cases "wd_scope d"; cases "wd_access d"; cases d)
      (auto simp: read_deny_def scope_number_def rmap_Inr_iff split: if_splits)
  also have "\<dots> \<longleftrightarrow> (\<exists>w. deny_form d w \<and> bs = w @ rest)"
    unfolding read_uint32_reads read_string_reads deny_form_def by fastforce
  finally show ?thesis .
qed

lemma write_deny_writes: "write_deny d = Inr w \<Longrightarrow> deny_form (deny_map mended d) w"
  using write_string_writes
  by (fastforce simp: write_deny_def deny_form_def deny_map_def rmap_Inr_iff rbind_eq_Inr write_uint32_iff)

interpretation deny_codec: coding deny_form read_deny write_deny "deny_map mended"
  by unfold_locales (rule read_deny_reads, rule write_deny_writes)

context codec
begin

lemma all: "read_all rd bs = Inr (xs, rest) \<longleftrightarrow> (\<exists>w. collection_form form xs w \<and> bs = w @ rest)"
proof -
  have "read_all rd bs = Inr (xs, rest) \<longleftrightarrow>
      (\<exists>n mid. read_uint32 bs = Inr (n, mid) \<and> n \<le> int max_collection_items \<and> read_times (nat n) rd mid = Inr (xs, rest))"
    by (auto simp: read_all_def rbind_eq_Inr not_less split: if_splits)
  also have "\<dots> \<longleftrightarrow> (\<exists>n w ws. number_form n w \<and> n \<le> int max_collection_items \<and>
      list_all2 form xs ws \<and> n = int (length xs) \<and> bs = w @ concat ws @ rest)"
    unfolding read_uint32_reads times using number_nonneg by (metis int_nat_eq nat_int)
  also have "\<dots> \<longleftrightarrow> (\<exists>w. collection_form form xs w \<and> bs = w @ rest)"
  proof
    assume "\<exists>n w ws. number_form n w \<and> n \<le> int max_collection_items \<and>
      list_all2 form xs ws \<and> n = int (length xs) \<and> bs = w @ concat ws @ rest"
    then obtain w ws where "number_form (int (length xs)) w" "length xs \<le> max_collection_items"
      "list_all2 form xs ws" "bs = w @ concat ws @ rest" by auto
    then show "\<exists>w. collection_form form xs w \<and> bs = w @ rest"
      unfolding collection_form_def by (intro exI [of _ "w @ concat ws"]) auto
  next
    assume "\<exists>w. collection_form form xs w \<and> bs = w @ rest"
    then obtain n ws where "length xs \<le> max_collection_items" "number_form (int (length xs)) n"
      "list_all2 form xs ws" "bs = n @ concat ws @ rest"
      unfolding collection_form_def by auto
    then show "\<exists>n w ws. number_form n w \<and> n \<le> int max_collection_items \<and>
      list_all2 form xs ws \<and> n = int (length xs) \<and> bs = w @ concat ws @ rest"
      by (intro exI [of _ "int (length xs)"] exI [of _ n] exI [of _ ws]) simp
  qed
  finally show ?thesis .
qed

end

context coding
begin

lemma write_collection: "write_all wr xs = Inr w \<Longrightarrow> collection_form form (map mend xs) w"
  by (auto simp: write_all_def write_count_def collection_form_def rbind_eq_Inr rmap_Inr_iff write_uint32_iff
      dest!: write_times split: if_splits)

end

lemmas codec_reads = read_uint32_reads read_string_reads text_codec.all resource_codec.all deny_codec.all
lemmas codec_writes =
  write_string_writes text_codec.write_collection resource_codec.write_collection deny_codec.write_collection

section \<open>The request as a whole\<close>

definition request_form :: "js_text windows_request \<Rightarrow> byte list \<Rightarrow> bool" where
  "request_form q content =
     (\<exists>version timeout executable cwd args reads writes denies.
        (case wq_timeout q of None \<Rightarrow> True | Some t \<Rightarrow> 0 < t \<and> t < 0xffffffff) \<and>
        number_form request_version version \<and>
        number_form (case wq_timeout q of None \<Rightarrow> 0 | Some t \<Rightarrow> t) timeout \<and>
        text_form (wq_executable q) executable \<and> text_form (wq_cwd q) cwd \<and>
        collection_form text_form (wq_args q) args \<and> collection_form resource_form (wq_reads q) reads \<and>
        collection_form resource_form (wq_writes q) writes \<and> collection_form deny_form (wq_denies q) denies \<and>
        content = request_magic @ version @ timeout @ executable @ cwd @ args @ reads @ writes @ denies)"

lemma read_request_reads: "read_request content = Inr (q, rest) \<longleftrightarrow> (\<exists>w. request_form q w \<and> content = w @ rest)"
proof -
  let ?t = "case wq_timeout q of None \<Rightarrow> 0 | Some t \<Rightarrow> t"
  let ?parts = "\<lambda>b0 b1 b2 b3 b4 b5 b6 b7.
     content = request_magic @ b0 \<and> read_uint32 b0 = Inr (request_version, b1) \<and> read_uint32 b1 = Inr (?t, b2) \<and>
     (case wq_timeout q of None \<Rightarrow> True | Some t \<Rightarrow> 0 < t \<and> t < 0xffffffff) \<and>
     read_string b2 = Inr (wq_executable q, b3) \<and> read_string b3 = Inr (wq_cwd q, b4) \<and>
     read_all read_string b4 = Inr (wq_args q, b5) \<and> read_all read_resource b5 = Inr (wq_reads q, b6) \<and>
     read_all read_resource b6 = Inr (wq_writes q, b7) \<and> read_all read_deny b7 = Inr (wq_denies q, rest)"
  have "\<exists>b0 b1 b2 b3 b4 b5 b6 b7. ?parts b0 b1 b2 b3 b4 b5 b6 b7" if "read_request content = Inr (q, rest)"
    using that
    by (auto simp: read_request_def rbind_eq_Inr rmap_Inr_iff read_bytes_iff assert_deadline_def not_less
        split: if_splits)
  moreover have "read_request content = Inr (q, rest)" if "?parts b0 b1 b2 b3 b4 b5 b6 b7" for b0 b1 b2 b3 b4 b5 b6 b7
  proof -
    have "read_bytes (length request_magic) content = Inr (request_magic, b0)" using that by (simp add: read_bytes_def)
    then show ?thesis
      using that by (cases "wq_timeout q") (auto simp: read_request_def assert_deadline_def)
  qed
  ultimately have "read_request content = Inr (q, rest) \<longleftrightarrow> (\<exists>b0 b1 b2 b3 b4 b5 b6 b7. ?parts b0 b1 b2 b3 b4 b5 b6 b7)"
    by blast
  also have "\<dots> \<longleftrightarrow> (\<exists>w. request_form q w \<and> content = w @ rest)"
    unfolding codec_reads request_form_def by fastforce
  finally show ?thesis .
qed

lemma encode_request_form:
  assumes "encode_request q = Inr content"
  shows "request_form (request_map mended q) content"
proof -
  obtain version timeout executable cwd args reads writes denies where parts:
    "case wq_timeout q of None \<Rightarrow> True | Some t \<Rightarrow> 0 < t \<and> t < 0xffffffff"
    "write_uint32 request_version = Inr version"
    "write_uint32 (case wq_timeout q of None \<Rightarrow> 0 | Some t \<Rightarrow> t) = Inr timeout"
    "write_string (wq_executable q) = Inr executable" "write_string (wq_cwd q) = Inr cwd"
    "write_all write_string (wq_args q) = Inr args" "write_all write_resource (wq_reads q) = Inr reads"
    "write_all write_resource (wq_writes q) = Inr writes" "write_all write_deny (wq_denies q) = Inr denies"
    "content = request_magic @ version @ timeout @ executable @ cwd @ args @ reads @ writes @ denies"
    using assms by (cases "wq_timeout q")
      (auto simp: encode_request_def Let_def rbind_eq_Inr assert_deadline_def not_less split: if_splits)
  have "request_form (request_map mended q) (request_magic @ version @ timeout @ executable @ cwd @ args @ reads @ writes @ denies)"
    unfolding request_form_def request_map_def
    using parts(1-3) codec_writes(1) [OF parts(4)] codec_writes(1) [OF parts(5)] codec_writes(2) [OF parts(6)]
      codec_writes(3) [OF parts(7)] codec_writes(3) [OF parts(8)] codec_writes(4) [OF parts(9)]
    unfolding write_uint32_iff windows_request.simps by blast
  then show ?thesis unfolding parts(10) .
qed

interpretation request_codec: codec request_form read_request
  by unfold_locales (rule read_request_reads)

lemma decode_request_iff:
  "decode_request content = Inr q \<longleftrightarrow> length content \<le> max_request_bytes \<and> read_request content = Inr (q, [])"
  by (auto simp: decode_request_def not_less rbind_eq_Inr split: if_splits)






lemma encoded_is_decoded:
  assumes "encode_request q = Inr content"
  shows "decode_request content = Inr (request_map mended q)"
proof -
  have "length content \<le> max_request_bytes"
    using assms by (auto simp: encode_request_def Let_def rbind_eq_Inr not_less split: if_splits)
  moreover have "read_request (content @ []) = Inr (request_map mended q, [])"
    unfolding request_codec.reads using encode_request_form [OF assms] by blast
  ultimately show ?thesis by (simp add: decode_request_iff)
qed

lemma wire_mended: "request_map mended (wire q) = wire q"
  by (simp add: request_map_def resource_map_def deny_map_def mended_units)

lemma wire_is_decoded: "encode_request (wire q) = Inr content \<Longrightarrow> decode_request content = Inr (wire q)"
  using encoded_is_decoded [of "wire q"] unfolding wire_mended .




section \<open>The result\<close>

definition native_error_codes :: "(int \<times> string) list" where
  "native_error_codes =
     [(200, ''windows.request-invalid''), (201, ''windows.appcontainer-profile-failed''),
      (202, ''windows.appcontainer-sid-failed''), (203, ''windows.acl-setup-failed''),
      (204, ''windows.job-setup-failed''), (205, ''windows.process-launch-failed''),
      (206, ''windows.cleanup-failed''), (207, ''windows.child-wait-failed''), (208, ''windows.child-timed-out''),
      (209, ''windows.result-channel-failed''), (210, ''windows.unsafe-path'')]"

definition native_error_code :: "int \<Rightarrow> string option" where
  "native_error_code n = map_of native_error_codes n"

record native_result =
  nr_error :: int
  nr_child :: int

definition result_magic :: "byte list" where
  "result_magic = map (\<lambda>c. of_nat (code_of c)) ''AKSRES01''"

definition decode_result :: "byte list \<Rightarrow> native_result res" where
  "decode_result content =
     (if length content \<noteq> 16 \<or> take 8 content \<noteq> result_magic then Inl BadRequest
      else rbind (read_uint32 (drop 8 content)) (\<lambda>(e, rest).
           if e \<noteq> 0 \<and> native_error_code e = None then Inl BadRequest
           else rmap (\<lambda>(c, _). \<lparr>nr_error = e, nr_child = c\<rparr>) (read_uint32 rest)))"

end
