(* ===== verification/WindowsPlan.thy ===== *)
theory WindowsPlan
  imports WindowsRequest Bwrap
begin

text \<open>
  \<open>src/infrastructure/sandbox/WindowsPolicyTranslator.ts\<close> and
  \<open>WindowsReadDenyScanner.ts\<close>: what an AppContainer is granted for a policy, which
  refusals it cannot express, and the search for the existing files that a refusal names.
  The system calls of the search are parameters. The lemmas show that the search finds the
  whole tree or fails, and that without gaps what the container may reach outside its
  private directories the policy allows.
\<close>

section \<open>The plan\<close>

definition agent_state_directories :: "string list" where
  "agent_state_directories = [''.claude'', ''.gemini'', ''.cursor'', ''.codex'', ''.config/claude'']"

record read_deny_scan =
  rd_root :: resource_ref
  rd_denies :: "deny_rule list"

record restricted_overlay =
  ro_home :: abs_path
  ro_seed_files :: "abs_path list"
  ro_directories :: "abs_path list"

record windows_plan =
  wp_reads :: "resource_ref list"
  wp_writes :: "resource_ref list"
  wp_scans :: "read_deny_scan list"
  wp_overlay :: restricted_overlay
  wp_gaps :: "string list"

definition is_denied_file :: "resource_ref \<Rightarrow> access \<Rightarrow> sandbox_policy \<Rightarrow> path_context \<Rightarrow> bool" where
  "is_denied_file r a pol ctx =
     (if rr_scope r \<noteq> SingleFile then False
      else if is_overridden pol a (rr_path r) then False
      else is_denied pol a (rr_path r) ctx)"

definition is_fully_overridden :: "resource_ref \<Rightarrow> deny_rule \<Rightarrow> sandbox_policy \<Rightarrow> bool" where
  "is_fully_overridden r d pol =
     list_ex (\<lambda>ov. ov_access ov = dn_access d \<and> subsumes (ov_ref ov) r) (po_overrides pol)"

definition excepted :: "deny_rule \<Rightarrow> abs_path \<Rightarrow> bool" where
  "excepted d p = (case dn_except d of None \<Rightarrow> False | Some w \<Rightarrow> contains w p)"

definition deny_may_intersect :: "resource_ref \<Rightarrow> deny_rule \<Rightarrow> path_context \<Rightarrow> bool res" where
  "deny_may_intersect r d ctx =
     (if excepted d (rr_path r) then Inr False
      else if rr_scope r = SingleFile then Inr (deny_matches d (rr_path r) (ctx_home ctx))
      else rmap (\<lambda>prefix.
             case prefix of
               None \<Rightarrow> True
             | Some x \<Rightarrow>
                 if excepted d x then False
                 else contains (rr_path r) x \<or> contains x (rr_path r))
           (literal_prefix (dn_pattern d) (ctx_home ctx)))"

text \<open>\<open>/^agentkeeper-[a-z0-9-]+$/i\<close> on the last segment.\<close>

definition ephemeral_name :: "string \<Rightarrow> bool" where
  "ephemeral_name name =
     (let s = to_lower name; rest = drop 12 s
      in starts_with s ''agentkeeper-'' \<and> rest \<noteq> [] \<and>
         list_all (\<lambda>c. is_lower_letter c \<or> is_digit c \<or> c = CHR ''-'') rest)"

definition is_private_ephemeral :: "abs_path \<Rightarrow> path_context \<Rightarrow> abs_path \<Rightarrow> bool res" where
  "is_private_ephemeral p ctx overlay =
     (if contains overlay p then Inr True
      else rmap (\<lambda>temp. contains temp p \<and> ephemeral_name (basename p))
             (path_join (ctx_home ctx) [''AppData'', ''Local'', ''Temp'']))"

text \<open>A test that short-circuits; \<open>filter\<close> with a callback that may throw.\<close>

fun filter_test :: "('a \<Rightarrow> bool res) \<Rightarrow> 'a list \<Rightarrow> 'a list res" where
  "filter_test f [] = Inr []"
| "filter_test f (x # xs) = rbind (f x) (\<lambda>b. rmap (\<lambda>ys. if b then x # ys else ys) (filter_test f xs))"

definition write_gap :: "resource_ref \<Rightarrow> deny_rule \<Rightarrow> string" where
  "write_gap r d =
     dn_source d @ '': Windows AppContainer cannot safely subtract \"'' @ pp_raw (dn_pattern d) @
     ''\" from persistent writable subtree '' @ ap_value (rr_path r) @
     ''. Use a private restricted profile or grant narrower mutable subpaths.''"

text \<open>The loop over the refusals for one writable resource.\<close>

definition write_gaps :: "sandbox_policy \<Rightarrow> path_context \<Rightarrow> abs_path \<Rightarrow> resource_ref \<Rightarrow> string list res" where
  "write_gaps pol ctx overlay r =
     rbind (is_private_ephemeral (rr_path r) ctx overlay) (\<lambda>private.
       if private then Inr []
       else rmap (map (write_gap r))
              (filter_test (\<lambda>d. if dn_access d \<noteq> Write \<or> is_fully_overridden r d pol then Inr False
                                else deny_may_intersect r d ctx) (po_denies pol)))"

definition read_scan ::
  "sandbox_policy \<Rightarrow> path_context \<Rightarrow> abs_path \<Rightarrow> resource_ref \<Rightarrow> read_deny_scan list res" where
  "read_scan pol ctx overlay r =
     (if rr_scope r \<noteq> Subtree then Inr []
      else rbind (is_private_ephemeral (rr_path r) ctx overlay) (\<lambda>private.
        if private then Inr []
        else rmap (\<lambda>ds. if length ds > 0 then [\<lparr>rd_root = r, rd_denies = ds\<rparr>] else [])
               (filter_test (\<lambda>d. if dn_access d \<noteq> Read \<or> is_fully_overridden r d pol then Inr False
                                 else deny_may_intersect r d ctx) (po_denies pol))))"

fun deduplicate_refs :: "resource_ref list \<Rightarrow> resource_ref list \<Rightarrow> resource_ref list" where
  "deduplicate_refs found [] = found"
| "deduplicate_refs found (r # rs) =
     deduplicate_refs (if list_ex (\<lambda>e. ref_eq e r) found then found else found @ [r]) rs"

definition platform_gap :: "path_context \<Rightarrow> string list" where
  "platform_gap ctx =
     (if ctx_platform ctx \<noteq> Win32
      then [''The Windows restricted-profile translator can only enforce win32 policies.''] else [])"

definition network_gap :: "sandbox_policy \<Rightarrow> string list" where
  "network_gap pol =
     (if length (po_network pol) > 0
      then [''Windows AppContainer network access remains denied by default; destination rules '' @
            join_rules (po_network pol) @ '' require a broker and cannot be opened directly.''] else [])"

definition usable :: "abs_path list \<Rightarrow> access \<Rightarrow> sandbox_policy \<Rightarrow> path_context \<Rightarrow> resource_ref \<Rightarrow> bool" where
  "usable agent_roots a pol ctx r =
     (\<not> list_ex (\<lambda>root. path_eq root (rr_path r)) agent_roots \<and> \<not> is_denied_file r a pol ctx)"

definition windows_plan_of :: "sandbox_policy \<Rightarrow> path_context \<Rightarrow> abs_path \<Rightarrow> windows_plan res" where
  "windows_plan_of pol ctx overlay =
     rbind (traverse (\<lambda>d. path_join (ctx_home ctx) [d]) agent_state_directories) (\<lambda>agent_roots.
       let reads = filter (usable agent_roots Read pol ctx) (po_reads pol);
           writes = filter (usable agent_roots Write pol ctx) (po_writes pol)
       in rbind (traverse (write_gaps pol ctx overlay) writes) (\<lambda>gaps.
          rbind (traverse (read_scan pol ctx overlay) reads) (\<lambda>scans.
          rbind (traverse (\<lambda>d. path_join overlay [d]) agent_state_directories) (\<lambda>state_dirs.
          rbind (traverse (path_join overlay) [[''tmp''], [''AppData'', ''Roaming''], [''AppData'', ''Local'']]) (\<lambda>more_dirs.
            Inr \<lparr>wp_reads = deduplicate_refs [] (reads @ [subtree_ref overlay]),
                 wp_writes = deduplicate_refs [] (writes @ [subtree_ref overlay]),
                 wp_scans = concat scans,
                 wp_overlay = \<lparr>ro_home = overlay, ro_seed_files = [], ro_directories = [overlay] @ state_dirs @ more_dirs\<rparr>,
                 wp_gaps = platform_gap ctx @ network_gap pol @ concat gaps\<rparr>)))))"

section \<open>The bounded tree\<close>

record tree_entry =
  te_path :: abs_path
  te_directory :: bool

text \<open>
  \<open>lstat\<close> and \<open>readdir\<close>. \<open>LinkInfo\<close> is a symbolic link, and an entry of a directory that
  is neither a file, a directory nor a link is \<open>PlainOther\<close>.
\<close>

datatype link_info = LinkInfo | FolderInfo | PlainInfo

datatype tree_kind = TreeFile | TreeFolder | TreeLink | PlainOther

datatype tree_fault = TreeMissing | TreeFault

record tree_calls =
  tc_lstat :: "abs_path \<Rightarrow> tree_fault + link_info"
  tc_readdir :: "abs_path \<Rightarrow> (string \<times> tree_kind) list option"

definition discovery_failed :: error where
  "discovery_failed = BackendFailed ''windows.policy-discovery-failed''"

definition max_discovery_entries :: nat where
  "max_discovery_entries = 50000"

definition max_discovery_depth :: nat where
  "max_discovery_depth = 24"

text \<open>\<open>walk\<close>, with the depth that is left, one more than the limit at the root.\<close>

function walk_node :: "tree_calls \<Rightarrow> abs_path \<Rightarrow> nat \<Rightarrow> abs_path \<Rightarrow> tree_entry list \<Rightarrow> tree_entry list res"
  and walk_children ::
    "tree_calls \<Rightarrow> abs_path \<Rightarrow> nat \<Rightarrow> abs_path \<Rightarrow> (string \<times> tree_kind) list \<Rightarrow> tree_entry list \<Rightarrow> tree_entry list res"
where
  "walk_node tc root 0 p found = Inl discovery_failed"
| "walk_node tc root (Suc n) p found =
     (if length found \<ge> max_discovery_entries then Inl discovery_failed
      else case tc_lstat tc p of
             Inl f \<Rightarrow> if f = TreeMissing \<and> path_eq p root then Inr found else Inl discovery_failed
           | Inr LinkInfo \<Rightarrow> Inl discovery_failed
           | Inr PlainInfo \<Rightarrow> Inr (found @ [\<lparr>te_path = p, te_directory = False\<rparr>])
           | Inr FolderInfo \<Rightarrow>
               (case tc_readdir tc p of
                  None \<Rightarrow> Inl discovery_failed
                | Some entries \<Rightarrow>
                    walk_children tc root n p entries (found @ [\<lparr>te_path = p, te_directory = True\<rparr>])))"
| "walk_children tc root n p [] found = Inr found"
| "walk_children tc root n p ((name, kind) # entries) found =
     (if kind = TreeLink then Inl discovery_failed
      else if kind = PlainOther then walk_children tc root n p entries found
      else rbind (path_join p [name]) (\<lambda>child.
           rbind (walk_node tc root n child found) (walk_children tc root n p entries)))"
  by pat_completeness auto
termination
  by (relation "measures
      [\<lambda>x. case x of Inl (tc, root, n, p, f) \<Rightarrow> n | Inr (tc, root, n, p, es, f) \<Rightarrow> n,
       \<lambda>x. case x of Inl (tc, root, n, p, f) \<Rightarrow> 0 | Inr (tc, root, n, p, es, f) \<Rightarrow> Suc (length es)]") auto

definition bounded_tree :: "tree_calls \<Rightarrow> abs_path \<Rightarrow> tree_entry list res" where
  "bounded_tree tc root = walk_node tc root (max_discovery_depth + 1) root []"

section \<open>The search for what a refusal names\<close>

record found_denies =
  fo_denied :: "string denied_resource list"
  fo_subtrees :: "abs_path list"

definition scan_resource :: "tree_entry \<Rightarrow> string denied_resource" where
  "scan_resource e =
     \<lparr>wd_scope = (if te_directory e then SubtreeScope else FileScope), wd_path = ap_value (te_path e), wd_access = Read\<rparr>"

definition scan_entry ::
  "sandbox_policy \<Rightarrow> path_context \<Rightarrow> read_deny_scan \<Rightarrow> tree_entry \<Rightarrow> found_denies \<Rightarrow> found_denies res" where
  "scan_entry pol ctx scan e fo =
     (if \<not> contains (rr_path (rd_root scan)) (te_path e) then Inl discovery_failed
      else if list_ex (\<lambda>root. contains root (te_path e)) (fo_subtrees fo) then Inr fo
      else if is_overridden pol Read (te_path e) then Inr fo
      else if \<not> list_ex (\<lambda>d. deny_matches d (te_path e) (ctx_home ctx)) (rd_denies scan) then Inr fo
      else Inr \<lparr>fo_denied = (if scan_resource e \<in> set (fo_denied fo) then fo_denied fo else fo_denied fo @ [scan_resource e]),
                fo_subtrees = fo_subtrees fo @ (if te_directory e then [te_path e] else [])\<rparr>)"

fun scan_entries ::
  "sandbox_policy \<Rightarrow> path_context \<Rightarrow> read_deny_scan \<Rightarrow> tree_entry list \<Rightarrow> found_denies \<Rightarrow> found_denies res" where
  "scan_entries pol ctx scan [] fo = Inr fo"
| "scan_entries pol ctx scan (e # es) fo = rbind (scan_entry pol ctx scan e fo) (scan_entries pol ctx scan es)"

definition by_depth :: "tree_entry list \<Rightarrow> tree_entry list" where
  "by_depth = sort_key (\<lambda>e. length (segments (te_path e)))"

fun scan_all ::
  "(abs_path \<Rightarrow> tree_entry list res) \<Rightarrow> sandbox_policy \<Rightarrow> path_context \<Rightarrow> read_deny_scan list \<Rightarrow> found_denies \<Rightarrow> found_denies res"
where
  "scan_all list_tree pol ctx [] fo = Inr fo"
| "scan_all list_tree pol ctx (scan # scans) fo =
     rbind (list_tree (rr_path (rd_root scan))) (\<lambda>entries.
     rbind (scan_entries pol ctx scan (by_depth entries) fo) (scan_all list_tree pol ctx scans))"

definition scan_denies ::
  "(abs_path \<Rightarrow> tree_entry list res) \<Rightarrow> sandbox_policy \<Rightarrow> path_context \<Rightarrow> read_deny_scan list \<Rightarrow> string denied_resource list res"
where
  "scan_denies list_tree pol ctx scans =
     rmap fo_denied (scan_all list_tree pol ctx scans \<lparr>fo_denied = [], fo_subtrees = []\<rparr>)"

section \<open>The search is exhaustive\<close>

text \<open>What exists below a directory, along files and directories.\<close>

inductive in_tree :: "tree_calls \<Rightarrow> abs_path \<Rightarrow> abs_path \<Rightarrow> bool" for tc where
  here: "tc_lstat tc p = Inr i \<Longrightarrow> in_tree tc p p"
| below: "tc_lstat tc dir = Inr FolderInfo \<Longrightarrow> tc_readdir tc dir = Some es \<Longrightarrow> (name, k) \<in> set es \<Longrightarrow>
    k = TreeFile \<or> k = TreeFolder \<Longrightarrow> path_join dir [name] = Inr child \<Longrightarrow> in_tree tc child p \<Longrightarrow> in_tree tc dir p"

inductive_cases in_treeE: "in_tree tc dir p"
inductive_simps in_tree_iff: "in_tree tc dir p"

lemma walk_complete_tree:
  "walk_node tc root n p found = Inr r \<Longrightarrow> set found \<subseteq> set r \<and> (\<forall>q. in_tree tc p q \<longrightarrow> q \<in> te_path ` set r)"
  "walk_children tc root n p es found = Inr r \<Longrightarrow> set found \<subseteq> set r \<and>
     (\<forall>name k child q. (name, k) \<in> set es \<longrightarrow> (k = TreeFile \<or> k = TreeFolder) \<longrightarrow> path_join p [name] = Inr child \<longrightarrow>
        in_tree tc child q \<longrightarrow> q \<in> te_path ` set r)"
proof (induction tc root n p found and tc root n p es found arbitrary: r and r rule: walk_node_walk_children.induct)
  case (2 tc root n p found)
  have small: "\<not> length found \<ge> max_discovery_entries" using "2.prems" by auto
  show ?case
  proof (cases "tc_lstat tc p")
    case (Inl f)
    then have "r = found" using "2.prems" small by (auto split: if_splits)
    moreover have "\<not> in_tree tc p q" for q using Inl by (auto elim: in_treeE)
    ultimately show ?thesis by simp
  next
    case (Inr i)
    consider "i = LinkInfo" | "i = PlainInfo" | (folder) "i = FolderInfo" by (cases i) auto
    then show ?thesis
    proof cases
      case folder
      then obtain es where es: "tc_readdir tc p = Some es"
        and w: "walk_children tc root n p es (found @ [\<lparr>te_path = p, te_directory = True\<rparr>]) = Inr r"
        using "2.prems" small Inr by (auto split: option.splits)
      note IH = "2.IH" [OF small Inr folder es w]
      have "q \<in> te_path ` set r" if t: "in_tree tc p q" for q
      proof (cases "q = p")
        case True
        then show ?thesis using IH by force
      next
        case False
        obtain name k child where "(name, k) \<in> set es" "k = TreeFile \<or> k = TreeFolder"
          "path_join p [name] = Inr child" "in_tree tc child q"
          using t False es by (subst (asm) in_tree_iff) auto
        then show ?thesis using IH by blast
      qed
      then show ?thesis using IH by auto
    next
      case 2
      then have r: "r = found @ [\<lparr>te_path = p, te_directory = False\<rparr>]" using "2.prems" small Inr by simp
      have "q = p" if "in_tree tc p q" for q using that Inr 2 by (auto elim: in_treeE)
      then show ?thesis unfolding r by force
    qed (use "2.prems" small Inr in simp)
  qed
next
  case (4 tc root n p name kind es found)
  show ?case
  proof (cases "kind = PlainOther")
    case True
    then show ?thesis using "4.prems" "4.IH"(1) [of r] by auto
  next
    case False
    then have kind: "kind \<noteq> TreeLink" using "4.prems" by auto
    obtain child mid where step: "path_join p [name] = Inr child" "walk_node tc root n child found = Inr mid"
      "walk_children tc root n p es mid = Inr r"
      using "4.prems" False kind by auto
    note one = "4.IH"(2) [OF kind False step(2)]
    note rest = "4.IH"(3) [OF kind False step(3)]
    show ?thesis
    proof (intro conjI allI impI)
      show "set found \<subseteq> set r" using one rest by blast
      fix name' k child' q
      assume m: "(name', k) \<in> set ((name, kind) # es)" "k = TreeFile \<or> k = TreeFolder" "path_join p [name'] = Inr child'"
        "in_tree tc child' q"
      show "q \<in> te_path ` set r"
      proof (cases "(name', k) = (name, kind)")
        case True
        then have "child' = child" using m(3) step(1) by simp
        then have "q \<in> te_path ` set mid" using one m(4) by blast
        then show ?thesis using rest by blast
      qed (use m rest in auto)
    qed
  qed
qed auto

lemma bounded_tree_complete: "bounded_tree tc root = Inr es \<Longrightarrow> in_tree tc root q \<Longrightarrow> q \<in> te_path ` set es"
  unfolding bounded_tree_def using walk_complete_tree(1) by blast

section \<open>What a plan without gaps grants\<close>

lemma filter_test_outcome:
  "filter_test f xs = Inr ys \<Longrightarrow> x \<in> set xs \<Longrightarrow> f x = Inr True \<and> x \<in> set ys \<or> f x = Inr False"
proof (induction xs arbitrary: ys)
  case (Cons a xs)
  obtain b zs where step: "f a = Inr b" "filter_test f xs = Inr zs" "ys = (if b then a # zs else zs)"
    using Cons.prems(1) by (auto simp: rmap_Inr_iff)
  show ?case
  proof (cases "x = a")
    case True
    then show ?thesis using step by (cases b) auto
  next
    case False
    then show ?thesis using Cons.IH [OF step(2)] Cons.prems(2) step(3) by auto
  qed
qed simp

lemma deduplicated: "set (deduplicate_refs found rs) \<subseteq> set found \<union> set rs"
proof (induction rs arbitrary: found)
  case (Cons r rs)
  show ?case using Cons.IH [of "if list_ex (\<lambda>e. ref_eq e r) found then found else found @ [r]"] by (auto split: if_splits)
qed simp

text \<open>A location whose value is parsed to itself.\<close>

definition stable_path :: "abs_path \<Rightarrow> bool" where
  "stable_path p = (wf_path p \<and> of_path (ap_value p) = Inr p)"

lemma stable_eq: "stable_path p \<Longrightarrow> stable_path q \<Longrightarrow> path_eq p q \<longleftrightarrow> p = q"
  unfolding stable_path_def path_eq_def by (metis sum.inject(2))

definition stable_ref :: "resource_ref \<Rightarrow> bool" where
  "stable_ref r = (stable_path (rr_path r) \<and> (rr_scope r = Subtree \<or> rr_scope r = SingleFile))"

definition stable_policy :: "sandbox_policy \<Rightarrow> bool" where
  "stable_policy pol =
     (list_all stable_ref (po_reads pol) \<and> list_all stable_ref (po_writes pol) \<and>
      list_all (\<lambda>ov. stable_ref (ov_ref ov)) (po_overrides pol) \<and>
      list_all (\<lambda>d. case dn_except d of None \<Rightarrow> True | Some w \<Rightarrow> stable_path w) (po_denies pol))"

text \<open>A refusal that matches the location has its fixed anchor above it, or none.\<close>

definition anchored_at :: "path_context \<Rightarrow> abs_path \<Rightarrow> deny_rule \<Rightarrow> bool" where
  "anchored_at ctx p d =
     (\<not> deny_matches d p (ctx_home ctx) \<or>
      (case literal_prefix (dn_pattern d) (ctx_home ctx) of
         Inr (Some x) \<Rightarrow> stable_path x \<and> contains x p
       | _ \<Rightarrow> True))"

lemma covers_contains:
  assumes "stable_ref r" "stable_path p" "ref_covers r p"
  shows "contains (rr_path r) p"
proof -
  have "path_eq (rr_path r) p \<longleftrightarrow> rr_path r = p" using stable_eq assms(1,2) by (simp add: stable_ref_def)
  then show ?thesis
    using assms apath.within_refl by (auto simp: ref_covers_def stable_path_def split: if_splits)
qed

lemma subsumes_covers_stable:
  assumes "stable_ref r" "stable_ref other" "stable_path p" "subsumes r other" "ref_covers other p"
  shows "ref_covers r p"
proof (cases "rr_scope r = SingleFile")
  case True
  then have "rr_path r = rr_path other" "rr_scope other = SingleFile"
    using assms stable_eq by (auto simp: subsumes_def stable_ref_def)
  then show ?thesis using assms(5) True by (simp add: ref_covers_def)
next
  case False
  then have "contains (rr_path r) (rr_path other)" "rr_scope r = Subtree"
    using assms(1,4) by (auto simp: subsumes_def stable_ref_def)
  then show ?thesis
    using apath.within_trans [of "rr_path r" "rr_path other" p] covers_contains [OF assms(2,3,5)] assms(1-3)
    by (simp add: ref_covers_def stable_ref_def stable_path_def)
qed

lemma fully_overridden:
  assumes "stable_policy pol" "is_fully_overridden r d pol" "stable_ref r" "stable_path p" "ref_covers r p"
  shows "is_overridden pol (dn_access d) p"
  using assms subsumes_covers_stable [OF _ assms(3,4) _ assms(5)]
  by (auto simp: is_fully_overridden_def is_overridden_def stable_policy_def list_ex_iff list_all_iff)

text \<open>A refusal the plan takes for harmless matches nothing the resource covers.\<close>

lemma harmless:
  assumes "deny_may_intersect r d ctx = Inr False" "stable_ref r" "stable_path p" "ref_covers r p"
    and "case dn_except d of None \<Rightarrow> True | Some w \<Rightarrow> stable_path w" "anchored_at ctx p d"
  shows "\<not> deny_matches d p (ctx_home ctx)"
proof
  assume m: "deny_matches d p (ctx_home ctx)"
  then have outside: "\<not> excepted d p" by (auto simp: deny_matches_def excepted_def split: if_splits)
  have rp: "contains (rr_path r) p" by (rule covers_contains [OF assms(2-4)])
  have up: "\<not> excepted d q" if "stable_path q" "contains q p" for q
    using outside that assms(3,5) apath.within_trans [of _ q p]
    by (auto simp: excepted_def stable_path_def split: option.splits)
  have r: "stable_path (rr_path r)" using assms(2) by (simp add: stable_ref_def)
  show False
  proof (cases "rr_scope r = SingleFile")
    case True
    then have "rr_path r = p" using assms(3,4) r stable_eq by (auto simp: ref_covers_def)
    then show False using assms(1) True m up [OF r rp] by (auto simp: deny_may_intersect_def)
  next
    case False
    obtain x where x: "literal_prefix (dn_pattern d) (ctx_home ctx) = Inr (Some x)"
      "excepted d x \<or> \<not> contains (rr_path r) x \<and> \<not> contains x (rr_path r)"
      using assms(1) up [OF r rp] False
      by (auto simp: deny_may_intersect_def rmap_Inr_iff split: option.splits if_splits)
    have xp: "stable_path x" "contains x p" using assms(6) m x(1) by (auto simp: anchored_at_def)
    then have "contains (rr_path r) x \<or> contains x (rr_path r)"
      using apath.within_chain [of "rr_path r" x p] rp r assms(3) by (auto simp: stable_path_def)
    then show False using x(2) up [OF xp] by blast
  qed
qed

section \<open>What the container is refused\<close>

definition resource_hits :: "string denied_resource \<Rightarrow> abs_path \<Rightarrow> bool" where
  "resource_hits r p =
     (wd_path r = ap_value p \<or>
      wd_scope r = SubtreeScope \<and>
        starts_with (ap_value p) (if ends_with (wd_path r) ''/'' then wd_path r else wd_path r @ ''/''))"

definition container_refuses :: "string denied_resource list \<Rightarrow> access \<Rightarrow> abs_path \<Rightarrow> bool" where
  "container_refuses denies a p = list_ex (\<lambda>r. wd_access r = a \<and> resource_hits r p) denies"

lemma contained_text:
  assumes "contains q p" "wf_path p"
  shows "ap_value q = ap_value p \<or>
    starts_with (ap_value p) (if ends_with (ap_value q) ''/'' then ap_value q else ap_value q @ ''/'')"
proof (cases "ap_value q = ap_root q")
  case True
  then have root: "ap_root p = ap_value q" using assms(1) by (simp add: contains_def split: if_splits)
  show ?thesis
  proof (cases "segments p = []")
    case False
    then have "ap_value p = path_base p @ join ''/'' (segments p)" using assms(2) by (simp add: wf_path_def)
    then show ?thesis using root by (auto simp: path_base_def)
  qed (use assms(2) root in \<open>simp add: wf_path_def\<close>)
next
  case False
  then show ?thesis using assms(1) by (auto simp: contains_def prefix_def split: if_splits)
qed

text \<open>Every subtree that was found is refused, and so is every entry that was inspected and has to be.\<close>

definition subtrees_denied :: "found_denies \<Rightarrow> bool" where
  "subtrees_denied fo =
     (\<forall>q \<in> set (fo_subtrees fo). \<exists>r \<in> set (fo_denied fo).
        wd_scope r = SubtreeScope \<and> wd_path r = ap_value q \<and> wd_access r = Read)"

lemma subtree_refused:
  assumes "subtrees_denied fo" "q \<in> set (fo_subtrees fo)" "contains q p" "wf_path p"
  shows "container_refuses (fo_denied fo) Read p"
proof -
  obtain r where r: "r \<in> set (fo_denied fo)" "wd_scope r = SubtreeScope" "wd_path r = ap_value q" "wd_access r = Read"
    using assms(1,2) by (auto simp: subtrees_denied_def)
  then have "resource_hits r p"
    using contained_text [OF assms(3,4)] unfolding resource_hits_def by (simp split: if_splits)
  then show ?thesis using r by (auto simp: container_refuses_def list_ex_iff)
qed

lemma scan_entry_step:
  assumes "scan_entry pol ctx scan e fo = Inr fo'" "subtrees_denied fo"
  shows "subtrees_denied fo' \<and> set (fo_denied fo) \<subseteq> set (fo_denied fo') \<and>
    (wf_path (te_path e) \<longrightarrow> \<not> is_overridden pol Read (te_path e) \<longrightarrow>
     list_ex (\<lambda>d. deny_matches d (te_path e) (ctx_home ctx)) (rd_denies scan) \<longrightarrow>
     container_refuses (fo_denied fo') Read (te_path e))"
proof -
  let ?covered = "list_ex (\<lambda>root. contains root (te_path e)) (fo_subtrees fo)"
  let ?free = "is_overridden pol Read (te_path e) \<or>
    \<not> list_ex (\<lambda>d. deny_matches d (te_path e) (ctx_home ctx)) (rd_denies scan)"
  have inside: "contains (rr_path (rd_root scan)) (te_path e)" using assms(1) by (simp add: scan_entry_def split: if_splits)
  consider (covered) q where "q \<in> set (fo_subtrees fo)" "contains q (te_path e)" "fo' = fo" | (free) "?free" "fo' = fo"
    | (added) "set (fo_denied fo') = insert (scan_resource e) (set (fo_denied fo))"
        "fo_subtrees fo' = fo_subtrees fo @ (if te_directory e then [te_path e] else [])"
  proof (cases ?covered)
    case True
    then obtain q where "q \<in> set (fo_subtrees fo)" "contains q (te_path e)" by (auto simp: list_ex_iff)
    moreover have "fo' = fo" using assms(1) True inside by (simp add: scan_entry_def)
    ultimately show ?thesis using covered by blast
  next
    case False
    show ?thesis
    proof (cases ?free)
      case True
      then have "fo' = fo" using assms(1) False inside by (simp add: scan_entry_def split: if_splits)
      then show ?thesis using free True by blast
    next
      case nf: False
      then have "fo' = \<lparr>fo_denied = (if scan_resource e \<in> set (fo_denied fo) then fo_denied fo else fo_denied fo @ [scan_resource e]),
          fo_subtrees = fo_subtrees fo @ (if te_directory e then [te_path e] else [])\<rparr>"
        using assms(1) False inside by (simp add: scan_entry_def)
      then show ?thesis using added by (simp add: insert_absorb split: if_splits)
    qed
  qed
  then show ?thesis
  proof cases
    case covered
    then show ?thesis using subtree_refused [OF assms(2) covered(1,2)] assms(2) by blast
  next
    case added
    have "subtrees_denied fo'" using assms(2) added by (auto simp: subtrees_denied_def scan_resource_def split: if_splits)
    moreover have "container_refuses (fo_denied fo') Read (te_path e)"
      using added(1) by (auto simp: container_refuses_def list_ex_iff scan_resource_def resource_hits_def)
    ultimately show ?thesis using added(1) by blast
  qed (use assms(2) in auto)
qed

lemma refuses_mono: "container_refuses xs a p \<Longrightarrow> set xs \<subseteq> set ys \<Longrightarrow> container_refuses ys a p"
  by (auto simp: container_refuses_def list_ex_iff)

lemma scan_entries_refuse:
  assumes "scan_entries pol ctx scan es fo = Inr fo'" "subtrees_denied fo"
  shows "subtrees_denied fo' \<and> set (fo_denied fo) \<subseteq> set (fo_denied fo') \<and>
    (\<forall>p \<in> te_path ` set es. wf_path p \<longrightarrow> \<not> is_overridden pol Read p \<longrightarrow>
       list_ex (\<lambda>d. deny_matches d p (ctx_home ctx)) (rd_denies scan) \<longrightarrow> container_refuses (fo_denied fo') Read p)"
  using assms
proof (induction es arbitrary: fo)
  case (Cons e es)
  obtain mid where mid: "scan_entry pol ctx scan e fo = Inr mid" "scan_entries pol ctx scan es mid = Inr fo'"
    using Cons.prems(1) by auto
  note one = scan_entry_step [OF mid(1) Cons.prems(2)]
  have rest: "subtrees_denied fo' \<and> set (fo_denied mid) \<subseteq> set (fo_denied fo') \<and>
    (\<forall>p \<in> te_path ` set es. wf_path p \<longrightarrow> \<not> is_overridden pol Read p \<longrightarrow>
       list_ex (\<lambda>d. deny_matches d p (ctx_home ctx)) (rd_denies scan) \<longrightarrow> container_refuses (fo_denied fo') Read p)"
    using Cons.IH [OF mid(2)] one by blast
  show ?case using one rest refuses_mono [of "fo_denied mid" Read _ "fo_denied fo'"] by auto
qed simp

lemma scan_all_refuse:
  assumes "scan_all list_tree pol ctx scans fo = Inr fo'" "subtrees_denied fo"
  shows "subtrees_denied fo' \<and> set (fo_denied fo) \<subseteq> set (fo_denied fo') \<and>
    (\<forall>scan \<in> set scans. \<exists>es. list_tree (rr_path (rd_root scan)) = Inr es \<and>
      (\<forall>p \<in> te_path ` set es. wf_path p \<longrightarrow> \<not> is_overridden pol Read p \<longrightarrow>
       list_ex (\<lambda>d. deny_matches d p (ctx_home ctx)) (rd_denies scan) \<longrightarrow> container_refuses (fo_denied fo') Read p))"
  using assms
proof (induction scans arbitrary: fo)
  case (Cons scan scans)
  obtain es mid where mid: "list_tree (rr_path (rd_root scan)) = Inr es"
    "scan_entries pol ctx scan (by_depth es) fo = Inr mid" "scan_all list_tree pol ctx scans mid = Inr fo'"
    using Cons.prems(1) by auto
  note one = scan_entries_refuse [OF mid(2) Cons.prems(2)]
  note rest = Cons.IH [OF mid(3) conjunct1 [OF one]]
  have "set (by_depth es) = set es" by (simp add: by_depth_def)
  then show ?case using one rest mid(1) refuses_mono [of "fo_denied mid" Read _ "fo_denied fo'"] by auto
qed simp

section \<open>Properties\<close>

lemma plan_stages:
  assumes "windows_plan_of pol ctx overlay = Inr plan"
  obtains roots gaps scans where
    "traverse (write_gaps pol ctx overlay) (filter (usable roots Write pol ctx) (po_writes pol)) = Inr gaps"
    and "traverse (read_scan pol ctx overlay) (filter (usable roots Read pol ctx) (po_reads pol)) = Inr scans"
    and "wp_gaps plan = platform_gap ctx @ network_gap pol @ concat gaps" "wp_scans plan = concat scans"
    and "set (wp_reads plan) \<subseteq> insert (subtree_ref overlay) (set (filter (usable roots Read pol ctx) (po_reads pol)))"
    and "set (wp_writes plan) \<subseteq> insert (subtree_ref overlay) (set (filter (usable roots Write pol ctx) (po_writes pol)))"
    and "traverse (\<lambda>d. path_join (ctx_home ctx) [d]) agent_state_directories = Inr roots"
proof -
  obtain roots gaps scans where s:
    "traverse (write_gaps pol ctx overlay) (filter (usable roots Write pol ctx) (po_writes pol)) = Inr gaps"
    "traverse (read_scan pol ctx overlay) (filter (usable roots Read pol ctx) (po_reads pol)) = Inr scans"
    "wp_gaps plan = platform_gap ctx @ network_gap pol @ concat gaps" "wp_scans plan = concat scans"
    "wp_reads plan = deduplicate_refs [] (filter (usable roots Read pol ctx) (po_reads pol) @ [subtree_ref overlay])"
    "wp_writes plan = deduplicate_refs [] (filter (usable roots Write pol ctx) (po_writes pol) @ [subtree_ref overlay])"
    "traverse (\<lambda>d. path_join (ctx_home ctx) [d]) agent_state_directories = Inr roots"
    using assms by (auto simp: windows_plan_of_def Let_def)
  show ?thesis
    by (rule that [OF s(1-4) _ _ s(7)]) (use deduplicated [of "[]"] in \<open>fastforce simp: s(5,6)\<close>)+
qed

text \<open>Another private home opens no gap, unless a writable resource lies in the first one.\<close>

lemma gaps_elsewhere:
  assumes "windows_plan_of pol ctx first = Inr plan0" "wp_gaps plan0 = []" "windows_plan_of pol ctx overlay = Inr plan"
    and "list_all (\<lambda>r. \<not> contains first (rr_path r)) (po_writes pol)"
  shows "wp_gaps plan = []"
proof (rule plan_stages [OF assms(1)], rule plan_stages [OF assms(3)])
  fix roots0 gaps0 roots gaps
  assume g0: "traverse (write_gaps pol ctx first) (filter (usable roots0 Write pol ctx) (po_writes pol)) = Inr gaps0"
    "wp_gaps plan0 = platform_gap ctx @ network_gap pol @ concat gaps0"
    "traverse (\<lambda>d. path_join (ctx_home ctx) [d]) agent_state_directories = Inr roots0"
    and g: "traverse (write_gaps pol ctx overlay) (filter (usable roots Write pol ctx) (po_writes pol)) = Inr gaps"
    "wp_gaps plan = platform_gap ctx @ network_gap pol @ concat gaps"
    "traverse (\<lambda>d. path_join (ctx_home ctx) [d]) agent_state_directories = Inr roots"
  have roots: "roots = roots0" using g0(3) g(3) by simp
  have "x = []" if x: "x \<in> set gaps" for x
  proof -
    obtain r where r: "r \<in> set (filter (usable roots Write pol ctx) (po_writes pol))" "write_gaps pol ctx overlay r = Inr x"
      using traverse_set [OF g(1) x] by blast
    then obtain y where "y \<in> set gaps0" "write_gaps pol ctx first r = Inr y" using traverse_set' [OF g0(1)] roots by blast
    then have "write_gaps pol ctx first r = Inr []" using g0(2) assms(2) by auto
    moreover have "\<not> contains first (rr_path r)" using assms(4) r(1) by (auto simp: list_all_iff)
    ultimately show ?thesis using r(2) by (auto simp: write_gaps_def is_private_ephemeral_def split: if_splits)
  qed
  then show "wp_gaps plan = []" using g0(2) g(2) assms(2) by auto
qed

lemma overlay_private: "is_private_ephemeral overlay ctx overlay = Inr True"
  by (simp add: is_private_ephemeral_def contains_def)

lemma gap_free_write:
  assumes "write_gaps pol ctx overlay r = Inr []" "is_private_ephemeral (rr_path r) ctx overlay = Inr False"
    and "d \<in> set (po_denies pol)" "dn_access d = Write"
  shows "is_fully_overridden r d pol \<or> deny_may_intersect r d ctx = Inr False"
proof -
  have "filter_test (\<lambda>d. if dn_access d \<noteq> Write \<or> is_fully_overridden r d pol then Inr False
      else deny_may_intersect r d ctx) (po_denies pol) = Inr []"
    using assms(1,2) by (auto simp: write_gaps_def rmap_Inr_iff)
  from filter_test_outcome [OF this assms(3)] show ?thesis using assms(4) by (auto split: if_splits)
qed

lemma scanned_read:
  assumes "read_scan pol ctx overlay r = Inr scans" "is_private_ephemeral (rr_path r) ctx overlay = Inr False"
    and "rr_scope r = Subtree" "d \<in> set (po_denies pol)" "dn_access d = Read"
  shows "is_fully_overridden r d pol \<or> deny_may_intersect r d ctx = Inr False \<or>
    (\<exists>scan \<in> set scans. rd_root scan = r \<and> d \<in> set (rd_denies scan))"
proof -
  obtain ds where ds: "filter_test (\<lambda>d. if dn_access d \<noteq> Read \<or> is_fully_overridden r d pol then Inr False
      else deny_may_intersect r d ctx) (po_denies pol) = Inr ds"
    "scans = (if length ds > 0 then [\<lparr>rd_root = r, rd_denies = ds\<rparr>] else [])"
    using assms(1-3) by (auto simp: read_scan_def rmap_Inr_iff)
  from filter_test_outcome [OF ds(1) assms(4)] show ?thesis
    using assms(5) ds(2) by (cases ds) (auto split: if_splits)
qed

lemma plan_opens_allowed:
  assumes "windows_plan_of pol ctx overlay = Inr plan" "wp_gaps plan = []"
    and "scan_denies (bounded_tree tc) pol ctx (wp_scans plan) = Inr denies"
    and "stable_policy pol" "stable_path p" "list_all (anchored_at ctx p) (po_denies pol)"
    and "r \<in> set (if a = Read then wp_reads plan else wp_writes plan)" "ref_covers r p"
    and "is_private_ephemeral (rr_path r) ctx overlay = Inr False" "\<not> container_refuses denies a p"
    and "a = Read \<longrightarrow> in_tree tc (rr_path r) p"
  shows "policy_allows pol a p ctx"
proof (rule ccontr)
  assume no: "\<not> policy_allows pol a p ctx"
  obtain roots gaps scans where plan:
    "traverse (write_gaps pol ctx overlay) (filter (usable roots Write pol ctx) (po_writes pol)) = Inr gaps"
    "traverse (read_scan pol ctx overlay) (filter (usable roots Read pol ctx) (po_reads pol)) = Inr scans"
    "wp_gaps plan = platform_gap ctx @ network_gap pol @ concat gaps" "wp_scans plan = concat scans"
    "set (wp_reads plan) \<subseteq> insert (subtree_ref overlay) (set (filter (usable roots Read pol ctx) (po_reads pol)))"
    "set (wp_writes plan) \<subseteq> insert (subtree_ref overlay) (set (filter (usable roots Write pol ctx) (po_writes pol)))"
    using plan_stages [OF assms(1)] by metis
  have "r \<noteq> subtree_ref overlay" using assms(9) overlay_private by (auto simp: subtree_ref_def)
  then have r: "r \<in> set (filter (usable roots a pol ctx) (allows_ref pol a))"
    using assms(7) plan(5,6) by (cases a) (auto simp: allows_ref_def)
  have sr: "stable_ref r" using r assms(4) by (cases a) (auto simp: stable_policy_def allows_ref_def list_all_iff)
  have free: "\<not> is_overridden pol a p" and "is_denied pol a p ctx"
    using no r assms(8) by (auto simp: policy_allows_def list_ex_iff split: if_splits)
  then obtain d where d: "d \<in> set (po_denies pol)" "dn_access d = a" "deny_matches d p (ctx_home ctx)"
    by (auto simp: is_denied_def list_ex_iff)
  have "\<not> is_fully_overridden r d pol" using fully_overridden [OF assms(4) _ sr assms(5,8)] free d(2) by auto
  moreover have "deny_may_intersect r d ctx \<noteq> Inr False"
    using harmless [OF _ sr assms(5,8)] assms(4,6) d by (auto simp: stable_policy_def list_all_iff)
  ultimately have open_refusal: "\<not> (is_fully_overridden r d pol \<or> deny_may_intersect r d ctx = Inr False)" by blast
  show False
  proof (cases a)
    case Write
    obtain g where "g \<in> set gaps" "write_gaps pol ctx overlay r = Inr g"
      using traverse_set' [OF plan(1)] r Write by (auto simp: allows_ref_def)
    then have "write_gaps pol ctx overlay r = Inr []" using plan(3) assms(2) by auto
    then show False using gap_free_write [OF _ assms(9) d(1)] open_refusal d(2) Write by blast
  next
    case Read
    show False
    proof (cases "rr_scope r = SingleFile")
      case True
      then have "rr_path r = p" using sr assms(5,8) stable_eq by (auto simp: ref_covers_def stable_ref_def)
      then show False using r Read True free d by (auto simp: usable_def is_denied_file_def is_denied_def list_ex_iff)
    next
      case False
      then have sub: "rr_scope r = Subtree" using sr by (simp add: stable_ref_def)
      obtain sc where sc: "sc \<in> set scans" "read_scan pol ctx overlay r = Inr sc"
        using traverse_set' [OF plan(2)] r Read by (auto simp: allows_ref_def)
      obtain scan where scan: "scan \<in> set sc" "rd_root scan = r" "d \<in> set (rd_denies scan)"
        using scanned_read [OF sc(2) assms(9) sub d(1)] open_refusal d(2) Read by blast
      obtain fo where fo: "scan_all (bounded_tree tc) pol ctx (wp_scans plan) \<lparr>fo_denied = [], fo_subtrees = []\<rparr> = Inr fo"
        "denies = fo_denied fo" using assms(3) by (auto simp: scan_denies_def rmap_Inr_iff)
      have "scan \<in> set (wp_scans plan)" using plan(4) sc(1) scan(1) by auto
      then obtain es where es: "bounded_tree tc (rr_path r) = Inr es"
        "\<forall>p \<in> te_path ` set es. wf_path p \<longrightarrow> \<not> is_overridden pol Read p \<longrightarrow>
           list_ex (\<lambda>d. deny_matches d p (ctx_home ctx)) (rd_denies scan) \<longrightarrow> container_refuses denies Read p"
        using scan_all_refuse [OF fo(1)] fo(2) scan(2) by (auto simp: subtrees_denied_def)
      have "p \<in> te_path ` set es" using bounded_tree_complete [OF es(1)] assms(11) Read by blast
      then have "container_refuses denies Read p"
        using es(2) free d scan(3) assms(5) Read by (auto simp: list_ex_iff stable_path_def)
      then show False using assms(10) Read by simp
    qed
  qed
qed

text \<open>C5: without gaps, what the Windows container may reach the policy allows, outside the
  directories the container owns. When the plan has no gap and the search for refused files
  does not fail, a granted resource that is not one of the private ephemeral directories opens
  a location for writing only if the policy allows writing it, and opens what existed below it
  in the searched tree for reading, unless a refusal on the list that is handed to the launcher
  hits it, only if the policy allows reading it. Refusals are anchored at the location and paths
  are stable under case folding; a file created after the search is not covered for reading.\<close>

theorem windows_plan_sound:
  assumes "windows_plan_of pol ctx overlay = Inr plan" "wp_gaps plan = []"
    and "scan_denies (bounded_tree tc) pol ctx (wp_scans plan) = Inr denies"
    and "stable_policy pol" "stable_path p" "list_all (anchored_at ctx p) (po_denies pol)"
    and "r \<in> set (if a = Read then wp_reads plan else wp_writes plan)" "ref_covers r p"
    and "is_private_ephemeral (rr_path r) ctx overlay = Inr False" "\<not> container_refuses denies a p"
    and "a = Read \<longrightarrow> in_tree tc (rr_path r) p"
  shows "policy_allows pol a p ctx"
  using assms by (rule plan_opens_allowed)

definition drive_path :: "string list \<Rightarrow> abs_path" where
  "drive_path segs = \<lparr>ap_value = ''C:/'' @ join ''/'' segs, ap_flavour = WindowsDrive, ap_root = ''C:/''\<rparr>"

definition windows_context :: path_context where
  "windows_context =
     \<lparr>ctx_home = drive_path [''users'', ''u''], ctx_workspace = drive_path [''work''], ctx_platform = Win32\<rparr>"

definition windows_overlay :: abs_path where
  "windows_overlay = drive_path [''users'', ''u'', ''appdata'', ''local'', ''temp'', ''agentkeeper-1'', ''home'']"

definition env_refusal :: deny_rule where
  "env_refusal =
     \<lparr>dn_source = ''env'', dn_pattern = (case pattern_of ''**/.env'' of Inr p \<Rightarrow> p | Inl _ \<Rightarrow> \<lparr>pp_raw = [], pp_segments = [], pp_home_anchored = False\<rparr>),
      dn_access = Read, dn_reason = ''secret'', dn_except = None\<rparr>"

definition windows_policy :: sandbox_policy where
  "windows_policy =
     policy_new zero_sha
       \<lparr>pr_workspace = drive_path [''work''], pr_reads = [subtree_ref (drive_path [''work''])],
        pr_writes = [subtree_ref (drive_path [''work''])], pr_denies = [env_refusal], pr_overrides = [], pr_network = [],
        pr_enforcement = None, pr_runtime_refs = []\<rparr>"

definition work_tree :: tree_calls where
  "work_tree =
     \<lparr>tc_lstat = (\<lambda>p. Inr (if ap_value p = ''C:/work'' then FolderInfo else PlainInfo)),
      tc_readdir = (\<lambda>p. Some [(''.env'', TreeFile), (''a.txt'', TreeFile)])\<rparr>"

lemma windows_plan_sound_witness:
  "\<exists>plan denies. windows_plan_of windows_policy windows_context windows_overlay = Inr plan \<and>
     scan_denies (bounded_tree work_tree) windows_policy windows_context (wp_scans plan) = Inr denies \<and>
     container_refuses denies Read (drive_path [''work'', ''.env'']) \<and>
     \<not> container_refuses denies Read (drive_path [''work'', ''a.txt'']) \<and>
     policy_allows windows_policy Read (drive_path [''work'', ''a.txt'']) windows_context"
proof -
  let ?p = "drive_path [''work'', ''a.txt'']" and ?r = "subtree_ref (drive_path [''work''])"
  let ?plan = "windows_plan_of windows_policy windows_context windows_overlay"
  have "is_ok ?plan" by code_simp
  then obtain plan where plan: "?plan = Inr plan" by (auto simp: is_ok_iff)
  have scans: "rbind ?plan (\<lambda>plan. scan_denies (bounded_tree work_tree) windows_policy windows_context (wp_scans plan)) =
      Inr [\<lparr>wd_scope = FileScope, wd_path = ''C:/work/.env'', wd_access = Read\<rparr>]"
    by code_simp
  then have denies: "scan_denies (bounded_tree work_tree) windows_policy windows_context (wp_scans plan) =
      Inr [\<lparr>wd_scope = FileScope, wd_path = ''C:/work/.env'', wd_access = Read\<rparr>]" (is "_ = Inr ?ds")
    using plan by simp
  have "rmap (\<lambda>plan. wp_gaps plan = [] \<and> ?r \<in> set (wp_reads plan)) ?plan = Inr True" by code_simp
  then have shape: "wp_gaps plan = []" "?r \<in> set (wp_reads plan)" using plan by simp_all
  have ok: "stable_policy windows_policy" "stable_path ?p" "list_all (anchored_at windows_context ?p) (po_denies windows_policy)"
    "ref_covers ?r ?p" "is_private_ephemeral (rr_path ?r) windows_context windows_overlay = Inr False"
    by code_simp+
  have hits: "\<not> container_refuses ?ds Read ?p" "container_refuses ?ds Read (drive_path [''work'', ''.env''])" by code_simp+
  have "path_join (drive_path [''work'']) [''a.txt''] = Inr ?p" by code_simp
  then have "in_tree work_tree (drive_path [''work'']) ?p"
    by (rule in_tree.below [of work_tree _ "[(''.env'', TreeFile), (''a.txt'', TreeFile)]" "''a.txt''" TreeFile ?p, rotated 4])
      (rule in_tree.here [of work_tree _ PlainInfo], simp_all add: work_tree_def drive_path_def)
  then have "policy_allows windows_policy Read ?p windows_context"
    using windows_plan_sound [OF plan shape(1) denies ok(1-3) _ ok(4,5) hits(1)] shape(2)
    by (simp add: subtree_ref_def)
  then show ?thesis using plan denies hits by auto
qed

end
