(* ===== verification/WindowsRun.thy ===== *)
theory WindowsRun
  imports WindowsPlan
begin

text \<open>
  \<open>src/infrastructure/sandbox/WindowsSandboxRunner.ts\<close>: the runner around the native
  AppContainer launcher. Its dependencies are parameters: the platform, the file system
  calls, the launcher process and the result file it leaves. The lemmas show that a command
  has a result only if the launcher was given a request that decodes to the plan of the
  policy, and that the temporary directory is removed on every path.
\<close>

section \<open>Dependencies\<close>

record windows_calls =
  wc_platform :: string
  wc_architecture :: string
  wc_helper :: string
  wc_can_access :: "string \<Rightarrow> bool"
  wc_temporary :: "string res"
  wc_make_directory :: "string \<Rightarrow> unit res"
  wc_write :: "string \<Rightarrow> byte list \<Rightarrow> unit res"
  wc_read :: "string \<Rightarrow> byte list res"
  wc_remove :: "string \<Rightarrow> unit res"
  wc_invoke :: "string list \<Rightarrow> string \<Rightarrow> (string \<times> string) list \<Rightarrow> run_result res"
  wc_tree :: tree_calls

datatype windows_event =
    MadeTemporary string
  | MadeDirectory string
  | WroteRequest "byte list"
  | InvokedHelper "string list" string "(string \<times> string) list"
  | RemovedTemporary string

datatype windows_support = DegradedSupport string | UnsupportedSupport string

definition probe_failed :: string where
  "probe_failed = ''windows.helper-probe-failed''"

definition structural_support :: "windows_calls \<Rightarrow> string option" where
  "structural_support calls =
     (if wc_platform calls \<noteq> ''win32'' then Some ''windows.platform-unsupported''
      else if wc_architecture calls \<notin> {''x64'', ''arm64''} then Some ''windows.architecture-unsupported''
      else if \<not> wc_can_access calls (wc_helper calls) then Some ''windows.helper-missing''
      else None)"

definition windows_diagnose :: "windows_calls \<Rightarrow> string \<Rightarrow> (string \<times> string) list \<Rightarrow> windows_support" where
  "windows_diagnose calls helper_dir env =
     (case structural_support calls of
        Some code \<Rightarrow> UnsupportedSupport code
      | None \<Rightarrow>
          (case wc_invoke calls [''--diagnose''] helper_dir env of
             Inl _ \<Rightarrow> UnsupportedSupport probe_failed
           | Inr r \<Rightarrow>
               if rr_signal r \<noteq> None then UnsupportedSupport probe_failed
               else case native_error_code (rr_exit_code r) of
                      Some code \<Rightarrow> UnsupportedSupport code
                    | None \<Rightarrow>
                        if rr_exit_code r \<noteq> 0 then UnsupportedSupport probe_failed
                        else DegradedSupport ''windows.appcontainer-compatibility-surface''))"

definition windows_available :: "windows_calls \<Rightarrow> string \<Rightarrow> (string \<times> string) list \<Rightarrow> bool" where
  "windows_available calls helper_dir env =
     (case windows_diagnose calls helper_dir env of UnsupportedSupport _ \<Rightarrow> False | DegradedSupport _ \<Rightarrow> True)"

definition windows_placeholder :: "path_context \<Rightarrow> abs_path res" where
  "windows_placeholder ctx =
     path_join (ctx_home ctx) [''AppData'', ''Local'', ''Temp'', ''agentkeeper-policy-profile'', ''home'']"

definition windows_unenforceable :: "sandbox_policy \<Rightarrow> path_context \<Rightarrow> string list res" where
  "windows_unenforceable pol ctx =
     rbind (windows_placeholder ctx) (\<lambda>placeholder. rmap wp_gaps (windows_plan_of pol ctx placeholder))"

section \<open>The environment of the child\<close>

definition profile_aliases :: "string list" where
  "profile_aliases = [''HOME'', ''USERPROFILE'', ''APPDATA'', ''LOCALAPPDATA'', ''TMPDIR'', ''TMP'', ''TEMP'']"

definition without_profile_aliases :: "(string \<times> string) list \<Rightarrow> (string \<times> string) list" where
  "without_profile_aliases env = filter (\<lambda>p. to_upper (fst p) \<notin> set profile_aliases) env"

definition overlay_environment :: "abs_path \<Rightarrow> (string \<times> string) list res" where
  "overlay_environment overlay =
     rbind (path_join overlay [''AppData'', ''Roaming'']) (\<lambda>roaming.
     rbind (path_join overlay [''AppData'', ''Local'']) (\<lambda>locals.
     rbind (path_join overlay [''tmp'']) (\<lambda>tmp.
       Inr [(''HOME'', ap_value overlay), (''USERPROFILE'', ap_value overlay), (''APPDATA'', ap_value roaming),
            (''LOCALAPPDATA'', ap_value locals), (''TMPDIR'', ap_value tmp), (''TMP'', ap_value tmp),
            (''TEMP'', ap_value tmp)])))"

section \<open>A run\<close>

type_synonym 'a windows_step = "windows_event list \<Rightarrow> 'a res \<times> windows_event list"

definition pure_step :: "'a res \<Rightarrow> 'a windows_step" where
  "pure_step r s = (r, s)"

text \<open>\<open>Promise.all\<close> starts every creation; the failure it reports is one of theirs.\<close>

definition make_directories :: "windows_calls \<Rightarrow> abs_path list \<Rightarrow> unit windows_step" where
  "make_directories calls ps s =
     (rmap (\<lambda>_. ()) (traverse (\<lambda>p. wc_make_directory calls (ap_value p)) ps), s @ map (\<lambda>p. MadeDirectory (ap_value p)) ps)"

definition encode_resource :: "resource_ref \<Rightarrow> string encoded_resource" where
  "encode_resource r =
     \<lparr>er_scope = (if rr_scope r = Subtree then SubtreeScope else FileScope), er_path = ap_value (rr_path r)\<rparr>"

definition request_of ::
  "int option \<Rightarrow> sandbox_command \<Rightarrow> windows_plan \<Rightarrow> string denied_resource list \<Rightarrow> string windows_request" where
  "request_of deadline cmd plan denies =
     \<lparr>wq_timeout = deadline, wq_executable = sc_executable cmd, wq_cwd = ap_value (sc_cwd cmd), wq_args = sc_args cmd,
      wq_reads = map encode_resource (wp_reads plan), wq_writes = map encode_resource (wp_writes plan),
      wq_denies = denies\<rparr>"

definition write_request :: "windows_calls \<Rightarrow> string \<Rightarrow> byte list \<Rightarrow> unit windows_step" where
  "write_request calls path bytes s = (wc_write calls path bytes, s @ [WroteRequest bytes])"

definition invoke_helper ::
  "windows_calls \<Rightarrow> string list \<Rightarrow> string \<Rightarrow> (string \<times> string) list \<Rightarrow> run_result windows_step" where
  "invoke_helper calls args cwd env s =
     (case wc_invoke calls args cwd env of
        Inl _ \<Rightarrow> (Inl (BackendFailed probe_failed), s @ [InvokedHelper args cwd env])
      | Inr r \<Rightarrow> (Inr r, s @ [InvokedHelper args cwd env]))"

text \<open>What the launcher's exit and its result file say.\<close>

definition native_outcome :: "windows_calls \<Rightarrow> string \<Rightarrow> run_result \<Rightarrow> run_result res" where
  "native_outcome calls result_path r =
     (if rr_signal r \<noteq> None then Inl (BackendFailed probe_failed)
      else if rr_exit_code r \<noteq> 0
      then Inl (BackendFailed (case native_error_code (rr_exit_code r) of None \<Rightarrow> probe_failed | Some c \<Rightarrow> c))
      else case rbind (wc_read calls result_path) decode_result of
             Inl _ \<Rightarrow> Inl (BackendFailed probe_failed)
           | Inr report \<Rightarrow>
               (case native_error_code (nr_error report) of
                  Some c \<Rightarrow> Inl (BackendFailed c)
                | None \<Rightarrow> Inr \<lparr>rr_exit_code = nr_child report, rr_signal = None\<rparr>))"

text \<open>The \<open>try\<close> block.\<close>

definition windows_body ::
  "windows_calls \<Rightarrow> sandbox_policy \<Rightarrow> path_context \<Rightarrow> sandbox_command \<Rightarrow> int option \<Rightarrow> string \<Rightarrow> run_result windows_step" where
  "windows_body calls pol ctx cmd deadline dir =
     (let request_path = win32_join [dir, ''request.aksb'']; result_path = win32_join [dir, ''result.aksb'']
      in sbind (pure_step (of_path (win32_join [dir, ''profile'', ''home'']))) (\<lambda>overlay.
         sbind (pure_step (windows_plan_of pol ctx overlay)) (\<lambda>plan.
         sbind (make_directories calls (ro_directories (wp_overlay plan))) (\<lambda>_.
         sbind (pure_step (scan_denies (bounded_tree (wc_tree calls)) pol ctx (wp_scans plan))) (\<lambda>denies.
         sbind (pure_step (encode_request (wire (request_of deadline cmd plan denies)))) (\<lambda>bytes.
         sbind (write_request calls request_path bytes) (\<lambda>_.
         sbind (pure_step (overlay_environment overlay)) (\<lambda>own.
         sbind (invoke_helper calls [''--request'', request_path, ''--result'', result_path] (ap_value (sc_cwd cmd))
                  (without_profile_aliases (sc_env cmd) @ own)) (\<lambda>r.
           pure_step (native_outcome calls result_path r))))))))))"

definition windows_run ::
  "windows_calls \<Rightarrow> sandbox_policy \<Rightarrow> path_context \<Rightarrow> sandbox_command \<Rightarrow> int option \<Rightarrow> run_result res \<times> windows_event list"
where
  "windows_run calls pol ctx cmd deadline =
     (case structural_support calls of
        Some code \<Rightarrow> (Inl (BackendFailed code), [])
      | None \<Rightarrow>
          (case windows_unenforceable pol ctx of
             Inl e \<Rightarrow> (Inl e, [])
           | Inr gaps \<Rightarrow>
               if length gaps > 0 then (Inl (BackendFailed ''windows.request-invalid''), [])
               else case wc_temporary calls of
                      Inl e \<Rightarrow> (Inl e, [])
                    | Inr dir \<Rightarrow>
                        (case windows_body calls pol ctx cmd deadline dir [MadeTemporary dir] of
                           (r, evs) \<Rightarrow>
                             (case wc_remove calls dir of Inl e \<Rightarrow> Inl e | Inr _ \<Rightarrow> r, evs @ [RemovedTemporary dir]))))"

definition windows_runner :: "windows_calls \<Rightarrow> command_runner" where
  "windows_runner calls =
     \<lparr>sr_mechanism = AppContainer, sr_unenforceable = windows_unenforceable,
      sr_run = (\<lambda>pol ctx cmd. fst (windows_run calls pol ctx cmd None))\<rparr>"

section \<open>What a result rests on\<close>

lemma pure_stepE [elim!]:
  assumes "sbind (pure_step m) f s = (Inr y, s')"
  obtains x where "m = Inr x" "f x s = (Inr y, s')"
  using assms by (cases m) (auto simp: sbind_def pure_step_def)





section \<open>Properties\<close>

definition helper_requests :: "windows_event list \<Rightarrow> byte list list" where
  "helper_requests evs = concat (map (\<lambda>e. case e of WroteRequest b \<Rightarrow> [b] | _ \<Rightarrow> []) evs)"

definition helper_environments :: "windows_event list \<Rightarrow> (string \<times> string) list list" where
  "helper_environments evs = concat (map (\<lambda>e. case e of InvokedHelper _ _ env \<Rightarrow> [env] | _ \<Rightarrow> []) evs)"

lemma request_events [simp]:
  "helper_requests (MadeTemporary d # map (\<lambda>p. MadeDirectory (f p)) ps @ [WroteRequest b, InvokedHelper a c env, RemovedTemporary d]) = [b]"
  "helper_environments (MadeTemporary d # map (\<lambda>p. MadeDirectory (f p)) ps @ [WroteRequest b, InvokedHelper a c env, RemovedTemporary d]) = [env]"
  by (induction ps) (simp_all add: helper_requests_def helper_environments_def)





end
