(* ===== verification/Artifact.thy ===== *)
theory Artifact
  imports Store ToolRules
begin

text \<open>
  \<open>src/domain/entities/Artifact.ts\<close> and \<open>src/domain/rules/artifact/ArtifactRule.ts\<close>: a
  file of a repository that was read for a scan, its JSON without comments, and the base of
  the rules over it. \<open>JSON.parse\<close>, \<open>JSON.stringify\<close> and \<open>String\<close> of a JSON value are
  parameters. The tests that the rules write as regular expressions are written out over the
  places of a text. The lemmas show what the relative patterns match and that a text
  without comments is left as it is.
\<close>

section \<open>The entity\<close>

record js_json =
  ja_parse :: "string \<Rightarrow> json option"
  ja_text :: "json \<Rightarrow> string"
  ja_print :: "json \<Rightarrow> string"

record artifact =
  ar_path :: abs_path
  ar_workspace :: abs_path
  ar_content :: string
  ar_hash :: content_hash
  ar_previous :: "content_hash option"

definition artifact_new ::
  "sha \<Rightarrow> abs_path \<Rightarrow> abs_path \<Rightarrow> string \<Rightarrow> content_hash option \<Rightarrow> artifact" where
  "artifact_new h path workspace content previous =
     \<lparr>ar_path = path, ar_workspace = workspace, ar_content = content, ar_hash = hash_content h content,
      ar_previous = previous\<rparr>"

definition relative_path :: "artifact \<Rightarrow> string" where
  "relative_path a =
     (if \<not> contains (ar_workspace a) (ar_path a) then ap_value (ar_path a)
      else if path_eq (ar_workspace a) (ar_path a) then ''.''
      else drop (length (ap_value (ar_workspace a)) + 1) (ap_value (ar_path a)))"

definition artifact_lines :: "artifact \<Rightarrow> string list" where
  "artifact_lines a = split_lines (ar_content a)"

datatype comment_mode = Outside | InText bool | LineComment | BlockComment

fun strip_comments :: "comment_mode \<Rightarrow> string \<Rightarrow> string" where
  "strip_comments m [] = []"
| "strip_comments (InText escaped) (c # cs) =
     c # strip_comments
           (if escaped then InText False else if c = CHR 0x5C then InText True
            else if c = CHR 0x22 then Outside else InText False) cs"
| "strip_comments Outside (c # cs) =
     (if c = CHR 0x22 then c # strip_comments (InText False) cs
      else if c = CHR ''/'' \<and> starts_with cs ''/'' then strip_comments LineComment cs
      else if c = CHR ''/'' \<and> starts_with cs ''*''
           then (case cs of [] \<Rightarrow> [] | _ # rest \<Rightarrow> strip_comments BlockComment rest)
      else c # strip_comments Outside cs)"
| "strip_comments LineComment (c # cs) =
     (if c = CHR 0x0A then c # strip_comments Outside cs else strip_comments LineComment cs)"
| "strip_comments BlockComment (c # cs) =
     (if c = CHR ''*'' \<and> starts_with cs ''/''
      then (case cs of [] \<Rightarrow> [] | _ # rest \<Rightarrow> strip_comments Outside rest)
      else strip_comments BlockComment cs)"

definition artifact_json :: "js_json \<Rightarrow> artifact \<Rightarrow> json option" where
  "artifact_json js a = ja_parse js (strip_comments Outside (ar_content a))"

section \<open>The base of the rules\<close>

text \<open>The segment matcher of this file; unlike that of the path patterns it looks at the ends only.\<close>

definition relative_segment :: "string \<Rightarrow> string \<Rightarrow> bool" where
  "relative_segment p s =
     (if star \<notin> set p then p = s
      else let parts = split_on star p; first = hd parts; final = last parts
           in starts_with s first \<and> ends_with s final \<and> length first + length final \<le> length s)"

fun match_parts :: "string list \<Rightarrow> string list \<Rightarrow> bool" where
  "match_parts [] target = (target = [])"
| "match_parts (p # ps) target =
     (if p = ''**'' then list_ex (match_parts ps) (tails target)
      else case target of [] \<Rightarrow> False | t # ts \<Rightarrow> relative_segment p t \<and> match_parts ps ts)"

definition match_relative :: "string \<Rightarrow> string \<Rightarrow> bool" where
  "match_relative pattern relative = match_parts (split_on slash (to_lower pattern)) (split_on slash (to_lower relative))"

definition artifact_applies :: "string list \<Rightarrow> artifact \<Rightarrow> bool" where
  "artifact_applies paths a = list_ex (\<lambda>p. match_relative p (relative_path a)) paths"

text \<open>\<open>at\<close> of a parsed value; \<open>None\<close> is \<open>undefined\<close>, or what was not parsed at all.\<close>

fun json_at :: "json option \<Rightarrow> string list \<Rightarrow> json option" where
  "json_at j [] = j"
| "json_at j (k # ks) = json_at (case j of None \<Rightarrow> None | Some v \<Rightarrow> property v k) ks"

definition json_record :: "json option \<Rightarrow> (string \<times> json) list option" where
  "json_record j = (case j of Some (JObject props) \<Rightarrow> Some props | _ \<Rightarrow> None)"

definition artifact_finding ::
  "rule_info \<Rightarrow> artifact \<Rightarrow> string \<Rightarrow> string \<Rightarrow> source_location option \<Rightarrow> finding" where
  "artifact_finding i a detail subject location =
     make_finding i
       \<lparr>dr_title = ri_title i, dr_detail = detail, dr_subject = subject, dr_hash = Some (ar_hash a),
        dr_location = location, dr_severity = None, dr_disposition = None\<rparr>"

definition artifact_rule :: "rule_info \<Rightarrow> string list \<Rightarrow> (artifact \<Rightarrow> finding list res) \<Rightarrow> artifact rule" where
  "artifact_rule i paths inspect = mk_rule i (\<lambda>a. Inr (artifact_applies paths a)) inspect"

section \<open>Regular expressions, written out\<close>

text \<open>Every place of a text: the character before it and the rest.\<close>

fun places :: "char option \<Rightarrow> string \<Rightarrow> (char option \<times> string) list" where
  "places before [] = [(before, [])]"
| "places before (c # cs) = (before, c # cs) # places (Some c) cs"

definition word_char :: "char \<Rightarrow> bool" where
  "word_char c = (is_letter c \<or> is_digit c \<or> c = CHR ''_'')"

definition non_word :: "char option \<Rightarrow> bool" where
  "non_word c = (case c of None \<Rightarrow> True | Some x \<Rightarrow> \<not> word_char x)"

definition first_char :: "string \<Rightarrow> char option" where
  "first_char s = (case s of [] \<Rightarrow> None | c # _ \<Rightarrow> Some c)"

text \<open>\<open>word\b\<close> at the beginning of a text; and \<open>\bword\b\<close> anywhere, for a word of word characters at both ends.\<close>

definition starts_word :: "string \<Rightarrow> string \<Rightarrow> bool" where
  "starts_word t w = (starts_with t w \<and> non_word (first_char (drop (length w) t)))"

definition has_word :: "string list \<Rightarrow> string \<Rightarrow> bool" where
  "has_word ws s = list_ex (\<lambda>(b, t). non_word b \<and> list_ex (starts_word t) ws) (places None s)"

definition skip_spaces :: "string \<Rightarrow> string" where
  "skip_spaces s = dropWhile is_space s"

text \<open>\<open>[^\n|]*\|\<close>: the text between here and the next bar, and what follows the bar.\<close>

definition up_to_bar :: "string \<Rightarrow> (string \<times> string) option" where
  "up_to_bar t =
     (let gap = takeWhile (\<lambda>c. c \<noteq> CHR 0x0A \<and> c \<noteq> CHR ''|'') t; rest = drop (length gap) t
      in if starts_with rest ''|'' then Some (gap, drop 1 rest) else None)"

text \<open>One of the starters, \<open>sh\<close> and the end of the word; then what follows.\<close>

definition after_shell :: "string list \<Rightarrow> string \<Rightarrow> string option" where
  "after_shell starters t =
     map_option (\<lambda>p. drop (length p + 2) t) (find (\<lambda>p. starts_word t (p @ ''sh'')) ([] # starters))"

text \<open>\<open>\s*(?:sudo\s+)?\<close>.\<close>

definition after_sudo :: "string \<Rightarrow> string" where
  "after_sudo t =
     (let s = skip_spaces t; r = drop 4 s
      in if starts_with s ''sudo'' \<and> r \<noteq> [] \<and> is_space (hd r) then skip_spaces r else s)"

section \<open>Lemmas\<close>

lemma strip_plain: "list_all (\<lambda>c. c \<noteq> CHR ''/'' \<and> c \<noteq> CHR 0x22) s \<Longrightarrow> strip_comments Outside s = s"
  by (induction s) auto

lemma match_parts_literal:
  "list_all (\<lambda>p. star \<notin> set p) ps \<Longrightarrow> match_parts ps target \<longleftrightarrow> target = ps"
proof (induction ps arbitrary: target)
  case (Cons p ps)
  then have plain: "star \<notin> set p" "list_all (\<lambda>p. star \<notin> set p) ps" by simp_all
  then have "p \<noteq> ''**''" by auto
  moreover have "relative_segment p t \<longleftrightarrow> t = p" for t using plain by (auto simp: relative_segment_def)
  ultimately show ?case using Cons.IH [OF plain(2)] by (cases target) simp_all
qed simp

end
