(* ===== verification/ArtifactRules.thy ===== *)
theory ArtifactRules
  imports Artifact
begin

text \<open>
  \<open>src/domain/rules/artifact/\<close>: \<open>hooks.ts\<close> (AG-H), \<open>env.ts\<close> (AG-E), \<open>instructions.ts\<close>
  (AG-I), \<open>ci.ts\<close> (AG-C) and their list \<open>index.ts\<close>: the rules over the files of a
  repository. Of the invisible characters only the soft hyphen is among the modelled ones;
  the numbers of a version are compared exactly. The lemmas show that every rule returns, that a finding carries the id of its rule and the hash
  of the content it was read from, and
  what the words of a rule do not find.
\<close>

section \<open>Hooks\<close>

definition agent_settings_files :: "string list" where
  "agent_settings_files = [''.claude/settings.json'', ''.claude/settings.local.json'']"

definition on_line :: "artifact \<Rightarrow> string \<Rightarrow> source_location option" where
  "on_line a needle = first_match (ar_content a) (\<lambda>l. contains_str l needle)"

definition repository_hook_rule :: "js_json \<Rightarrow> artifact rule" where
  "repository_hook_rule js =
     (let i = rule_info_of ''AG-H001'' High Ask ''Repository settings define an agent hook''
        (''Open the file and read the command. A hook committed to a repository runs on your machine '' @
         ''with your permissions, every session, without asking.'')
      in artifact_rule i agent_settings_files (\<lambda>a.
           case json_record (json_at (artifact_json js a) [''hooks'']) of
             None \<Rightarrow> Inr []
           | Some hooks \<Rightarrow>
               if length hooks = 0 then Inr []
               else Inr [artifact_finding i a
                 (relative_path a @ '' defines '' @ show_nat (length hooks) @ '' hook ('' @ join '', '' (map fst hooks) @ '').'')
                 (relative_path a) (on_line a ''\"hooks\"'')]))"

definition session_start_hook_rule :: "js_json \<Rightarrow> artifact rule" where
  "session_start_hook_rule js =
     (let i = rule_info_of ''AG-H002'' Critical Ask ''Hook runs at session start''
        (''This is the ChainDrop pattern: a compromised dependency plants a SessionStart hook that '' @
         ''fires the next time the agent opens. Read the command before allowing it.'')
      in artifact_rule i agent_settings_files (\<lambda>a.
           case json_record (json_at (artifact_json js a) [''hooks'']) of
             None \<Rightarrow> Inr []
           | Some hooks \<Rightarrow>
               Inr (map (\<lambda>name. artifact_finding i a (relative_path a @ '' runs a command on every '' @ name @ ''.'')
                      (relative_path a) (on_line a name))
                 (filter (\<lambda>name. name = ''SessionStart'') (map fst hooks)))))"

text \<open>\<open>value ?? other\<close>.\<close>

definition json_or_else :: "json option \<Rightarrow> json \<Rightarrow> json" where
  "json_or_else j d = (case j of None \<Rightarrow> d | Some JNull \<Rightarrow> d | Some v \<Rightarrow> v)"

definition folder_open_task_rule :: "js_json \<Rightarrow> artifact rule" where
  "folder_open_task_rule js =
     (let i = rule_info_of ''AG-H003'' Critical Ask ''VS Code task runs on folder open''
        (''Opening this repository in your editor executes the task. Remove runOptions.runOn or read '' @
         ''the command first.'')
      in artifact_rule i [''.vscode/tasks.json''] (\<lambda>a.
           case json_at (artifact_json js a) [''tasks''] of
             Some (JArray tasks) \<Rightarrow>
               Inr (map (\<lambda>t. artifact_finding i a
                      (''Task '' @ ja_print js (json_or_else (json_at (Some t) [''label'']) (JString ''unnamed'')) @ '' runs '' @
                       ja_print js (json_or_else (json_at (Some t) [''command'']) (JString [])) @ '' when the folder opens.'')
                      (relative_path a) (on_line a ''folderOpen''))
                 (filter (\<lambda>t. json_at (Some t) [''runOptions'', ''runOn''] = Some (JString ''folderOpen'')) tasks))
           | _ \<Rightarrow> Inr []))"

definition lifecycle_keys :: "string list" where
  "lifecycle_keys = [''initializeCommand'', ''onCreateCommand'', ''postCreateCommand'', ''postStartCommand'', ''postAttachCommand'']"

definition devcontainer_rule :: "js_json \<Rightarrow> artifact rule" where
  "devcontainer_rule js =
     (let i = rule_info_of ''AG-H004'' High Ask ''Dev container runs a lifecycle command''
        (''initializeCommand runs on the host, not in the container. Read it before reopening the '' @
         ''folder in a container.'')
      in artifact_rule i [''.devcontainer/devcontainer.json'', ''.devcontainer/**/devcontainer.json''] (\<lambda>a.
           case json_record (artifact_json js a) of
             None \<Rightarrow> Inr []
           | Some document \<Rightarrow>
               let present = filter (\<lambda>k. map_of document k \<noteq> None) lifecycle_keys
               in if length present = 0 then Inr []
                  else Inr [artifact_finding i a (relative_path a @ '' defines '' @ join '', '' present @ ''.'')
                              (relative_path a) (on_line a (hd present))]))"

definition git_hook_file_rule :: "artifact rule" where
  "git_hook_file_rule =
     (let i = rule_info_of ''AG-H005'' High Ask ''Repository carries a git hook''
        (''Hooks in .git/hooks run on checkout, merge and commit. Read the script, then remove it or '' @
         ''allow it deliberately.'')
      in artifact_rule i [''.git/hooks/*''] (\<lambda>a.
           if ends_with (basename (ar_path a)) ''.sample'' then Inr []
           else rmap (\<lambda>loc. [artifact_finding i a (relative_path a @ '' will run during ordinary git operations.'')
                         (relative_path a) (Some loc)])
                  (at_line 1 (case artifact_lines a of [] \<Rightarrow> None | l # _ \<Rightarrow> Some l))))"

definition direnv_rule :: "artifact rule" where
  "direnv_rule =
     (let i = rule_info_of ''AG-H006'' Medium Observe ''Repository carries a .envrc''
        (''With direnv installed, this file executes when you enter the directory. `direnv allow` is '' @
         ''the moment to read it.'')
      in artifact_rule i [''.envrc''] (\<lambda>a.
           Inr [artifact_finding i a (relative_path a @ '' executes on directory entry when direnv is installed.'')
                  (relative_path a) None]))"

section \<open>Environment and servers\<close>

definition mcp_files :: "string list" where
  "mcp_files = [''.mcp.json'', ''.cursor/mcp.json'', ''.vscode/mcp.json'']"

definition endpoint_variables :: "string list" where
  "endpoint_variables =
     [''ANTHROPIC_BASE_URL'', ''ANTHROPIC_AUTH_TOKEN'', ''ANTHROPIC_API_URL'', ''OPENAI_BASE_URL'', ''OPENAI_API_BASE'',
      ''GOOGLE_GEMINI_BASE_URL'', ''GEMINI_API_BASE'', ''AWS_ENDPOINT_URL_BEDROCK'']"

definition gemini_env_rule :: "artifact rule" where
  "gemini_env_rule =
     (let i = rule_info_of ''AG-E001'' Critical Ask ''Repository ships a .gemini/.env''
        (''CVE-2026-12537: Gemini CLI before 0.39.1 executed content from this file. Upgrade, and '' @
         ''delete the committed file - an environment file belongs on your machine, not in a repo.'')
      in artifact_rule i [''.gemini/.env'', ''.gemini/**/.env''] (\<lambda>a.
           Inr [artifact_finding i a (relative_path a @ '' is loaded by Gemini CLI when it starts in this directory.'')
                  (relative_path a) None]))"

definition describe_args :: "js_json \<Rightarrow> json option \<Rightarrow> string" where
  "describe_args js args = (case args of Some (JArray xs) \<Rightarrow> join '' '' (map (ja_text js) xs) | _ \<Rightarrow> [])"

definition server_subject :: "artifact \<Rightarrow> string \<Rightarrow> string" where
  "server_subject a name = relative_path a @ ''#'' @ name"

definition in_quotes :: "string \<Rightarrow> string" where
  "in_quotes s = ''\"'' @ s @ ''\"''"

definition mcp_server_rule :: "js_json \<Rightarrow> artifact rule" where
  "mcp_server_rule js =
     (let i = rule_info_of ''AG-E002'' Critical Ask ''Repository defines an MCP server''
        (''The agent launches this command when the session opens. Read the command and its arguments; '' @
         ''the decision is remembered per file content, so an edited definition asks again.'')
      in artifact_rule i mcp_files (\<lambda>a.
           case json_record (json_at (artifact_json js a) [''mcpServers'']) of
             None \<Rightarrow> Inr []
           | Some servers \<Rightarrow>
               Inr (map (\<lambda>(name, definition). artifact_finding i a
                      (relative_path a @ '' launches '' @ in_quotes name @ '': '' @
                       ja_text js (json_or_else (json_at (Some definition) [''command'']) (JString ''unknown command'')) @ '' '' @
                       trim (describe_args js (json_at (Some definition) [''args''])))
                      (server_subject a name) (on_line a (in_quotes name))) servers)))"

text \<open>\<open>isPinned\<close>: an at sign after the first character, followed by a digit.\<close>

definition is_pinned :: "string \<Rightarrow> bool" where
  "is_pinned specifier =
     (case last_index_of (CHR ''@'') specifier of
        None \<Rightarrow> False
      | Some at \<Rightarrow> at \<noteq> 0 \<and> (case drop (at + 1) specifier of [] \<Rightarrow> False | c # _ \<Rightarrow> is_digit c))"

definition package_specifier :: "json option \<Rightarrow> string option" where
  "package_specifier args =
     (case args of
        Some (JArray xs) \<Rightarrow>
          (case find (\<lambda>x. case x of JString s \<Rightarrow> \<not> starts_with s ''-'' | _ \<Rightarrow> False) xs of
             Some (JString s) \<Rightarrow> Some s
           | _ \<Rightarrow> None)
      | _ \<Rightarrow> None)"

definition unpinned_server :: "rule_info \<Rightarrow> artifact \<Rightarrow> string \<times> json \<Rightarrow> finding list" where
  "unpinned_server i a server =
     (case server of (name, definition) \<Rightarrow>
        case as_string (json_at (Some definition) [''command'']) of
          None \<Rightarrow> []
        | Some command \<Rightarrow>
            if command \<notin> {''npx'', ''uvx'', ''pnpx''} then []
            else case package_specifier (json_at (Some definition) [''args'']) of
                   None \<Rightarrow> []
                 | Some specifier \<Rightarrow>
                     if is_pinned specifier then []
                     else [artifact_finding i a
                             (in_quotes name @ '' runs '' @ command @ '' '' @ specifier @ '' with no version pin.'')
                             (server_subject a name) (on_line a (in_quotes name))])"

definition unpinned_server_rule :: "js_json \<Rightarrow> artifact rule" where
  "unpinned_server_rule js =
     (let i = rule_info_of ''AG-E003'' Medium Observe ''MCP server is fetched without a pinned version''
        (''Pin the version (`package@1.2.3`). Without a pin, the code that runs on your machine can '' @
         ''change under you at any time, and the approval you gave once no longer means anything.'')
      in artifact_rule i mcp_files (\<lambda>a.
           case json_record (json_at (artifact_json js a) [''mcpServers'']) of
             None \<Rightarrow> Inr []
           | Some servers \<Rightarrow> Inr (concat (map (unpinned_server i a) servers))))"

definition endpoint_override_rule :: "artifact rule" where
  "endpoint_override_rule =
     (let i = rule_info_of ''AG-E004'' Critical Block ''Repository redirects the model endpoint''
        (''CVE-2026-21852: a repository that sets the base URL routes your traffic - and your API key - '' @
         ''through a server it chose. There is no legitimate reason for a checked-in file to do this.'')
      in artifact_rule i
           [''.env'', ''.env.*'', ''.envrc'', ''.gemini/.env'', ''.claude/settings.json'', ''.claude/settings.local.json'',
            ''.vscode/settings.json'', ''.cursor/environment.json'', ''mise.toml'', ''.tool-versions'']
           (\<lambda>a. case find (contains_str (ar_content a)) endpoint_variables of
                  None \<Rightarrow> Inr []
                | Some hit \<Rightarrow>
                    Inr [artifact_finding i a
                           (relative_path a @ '' sets '' @ hit @ '', redirecting where your requests and key go.'')
                           (relative_path a) (on_line a hit)]))"

definition auto_approve_keys :: "string list" where
  "auto_approve_keys = [''enableAllProjectMcpServers'', ''enabledMcpjsonServers'']"

definition is_enabled :: "json option \<Rightarrow> bool" where
  "is_enabled v = (case v of Some (JBool b) \<Rightarrow> b | Some (JArray xs) \<Rightarrow> length xs > 0 | _ \<Rightarrow> False)"

definition auto_approval_rule :: "js_json \<Rightarrow> artifact rule" where
  "auto_approval_rule js =
     (let i = rule_info_of ''AG-E005'' High Ask ''Repository pre-approves its own MCP servers''
        (''This flag removes the prompt that would otherwise let you see what the server runs. '' @
         ''Approving servers is a decision for your user settings, not for a cloned repository.'')
      in artifact_rule i agent_settings_files (\<lambda>a.
           case json_record (artifact_json js a) of
             None \<Rightarrow> Inr []
           | Some document \<Rightarrow>
               Inr (map (\<lambda>key. artifact_finding i a
                      (relative_path a @ '' sets '' @ key @ '', approving MCP servers without asking.'')
                      (relative_path a) (on_line a key))
                 (filter (\<lambda>key. is_enabled (map_of document key)) auto_approve_keys))))"

section \<open>Instructions\<close>

definition instruction_files :: "string list" where
  "instruction_files =
     [''CLAUDE.md'', ''CLAUDE.local.md'', ''AGENTS.md'', ''GEMINI.md'', ''.cursorrules'', ''.cursor/rules/**'',
      ''.github/copilot-instructions.md'', ''.windsurfrules'', ''**/CLAUDE.md'', ''**/AGENTS.md'']"

text \<open>The five patterns, on a text in lower case.\<close>

definition piped_download :: "string \<Rightarrow> bool" where
  "piped_download s =
     list_ex (\<lambda>(b, t). non_word b \<and>
         list_ex (\<lambda>w. starts_word t w \<and>
           (case up_to_bar (drop (length w) t) of
              None \<Rightarrow> False
            | Some (_, rest) \<Rightarrow> after_shell [''ba'', ''z'', ''d'', ''k''] (after_sudo rest) \<noteq> None)) [''curl'', ''wget''])
       (places None s)"

definition piped_payload :: "string \<Rightarrow> bool" where
  "piped_payload s =
     list_ex (\<lambda>(b, t). non_word b \<and> starts_word t ''base64'' \<and>
         (case up_to_bar (drop 6 t) of
            None \<Rightarrow> False
          | Some (gap, rest) \<Rightarrow> contains_str gap ''-d'' \<and> after_shell [''ba'', ''z''] (skip_spaces rest) \<noteq> None))
       (places None s)"

definition evaluated_download :: "string \<Rightarrow> bool" where
  "evaluated_download s =
     list_ex (\<lambda>(b, t). non_word b \<and> starts_with t ''eval'' \<and>
         (let r = skip_spaces (drop 4 t);
              q = (case r of [] \<Rightarrow> [] | c # cs \<Rightarrow> if c \<in> {CHR 0x22, CHR 0x27, CHR 0x60} then cs else r);
              u = skip_spaces (drop 2 q)
          in starts_with q ''$('' \<and> (starts_with u ''curl'' \<or> starts_with u ''wget'')))
       (places None s)"

definition quote_char :: "char \<Rightarrow> bool" where
  "quote_char c = (c = CHR 0x22 \<or> c = CHR 0x27)"

definition python_fetch :: "string \<Rightarrow> bool" where
  "python_fetch s =
     list_ex (\<lambda>(b, t). non_word b \<and> starts_with t ''python'' \<and>
         (let v = drop 6 t; w = (if starts_with v ''3'' then drop 1 v else v); x = skip_spaces w; y = drop 2 x;
              z = skip_spaces y; code = takeWhile (\<lambda>c. \<not> quote_char c) (drop 1 z)
          in w \<noteq> x \<and> starts_with x ''-c'' \<and> y \<noteq> z \<and> z \<noteq> [] \<and> quote_char (hd z) \<and>
             list_ex (\<lambda>m. case index_of m code of None \<Rightarrow> False | Some k \<Rightarrow> contains_str (drop (k + length m) code) ''exec'')
               [''urllib'', ''requests'']))
       (places None s)"

definition inline_shell :: "string \<Rightarrow> bool" where
  "inline_shell s =
     list_ex (\<lambda>(b, t). starts_with t ''|'' \<and>
         (case after_shell [''ba'', ''z''] (after_sudo (drop 1 t)) of
            None \<Rightarrow> False
          | Some r \<Rightarrow>
              let f = skip_spaces r; letters = takeWhile is_lower_letter (drop 1 f)
              in f \<noteq> r \<and> starts_with f ''-'' \<and> letters \<noteq> [] \<and> last letters = CHR ''c'' \<and>
                 non_word (first_char (drop (1 + length letters) f))))
       (places None s)"

definition execution_patterns :: "((string \<Rightarrow> bool) \<times> string) list" where
  "execution_patterns =
     [(\<lambda>s. piped_download (to_lower s), ''download piped into a shell''),
      (\<lambda>s. piped_payload (to_lower s), ''base64 payload piped into a shell''),
      (\<lambda>s. evaluated_download (to_lower s), ''eval of downloaded content''),
      (\<lambda>s. python_fetch (to_lower s), ''python one-liner that fetches and executes''),
      (\<lambda>s. inline_shell (to_lower s), ''pipe into an inline shell'')]"

definition execution_imperative_rule :: "artifact rule" where
  "execution_imperative_rule =
     (let i = rule_info_of ''AG-I001'' High Ask ''Instruction file tells the agent to execute remote content''
        (''The agent treats this file as trusted input. Read the command it is being told to run; if '' @
         ''you did not write this line, treat the repository as hostile.'')
      in artifact_rule i instruction_files (\<lambda>a.
           Inr (map (\<lambda>(hit, what). artifact_finding i a (relative_path a @ '' contains a '' @ what @ ''.'')
                  (relative_path a) (first_match (ar_content a) hit))
             (filter (\<lambda>(hit, what). hit (ar_content a)) execution_patterns))))"

text \<open>The soft hyphen; the other characters of the class, and the tag characters, are not modelled.\<close>

definition invisible :: "string \<Rightarrow> bool" where
  "invisible s = (CHR 0xAD \<in> set s)"

text \<open>\<open>content.match(/<!--[\s\S]*?-->/g)\<close>, with the number of characters as the bound of the search.\<close>

fun html_comments :: "nat \<Rightarrow> string \<Rightarrow> string list" where
  "html_comments 0 s = []"
| "html_comments (Suc n) s =
     (case index_of ''<!--'' s of
        None \<Rightarrow> []
      | Some k \<Rightarrow>
          let body = drop (k + 4) s
          in case index_of ''-->'' body of
               None \<Rightarrow> []
             | Some m \<Rightarrow> (''<!--'' @ take (m + 3) body) # html_comments n (drop (m + 3) body))"

definition imperative_words :: "string list" where
  "imperative_words =
     [''ignore'', ''disregard'', ''instead'', ''system'', ''assistant'', ''must'', ''always'', ''never'', ''secret'',
      ''exfiltrat'', ''send'', ''upload'', ''token'', ''credential'']"

definition instructional_comment :: "string \<Rightarrow> string option" where
  "instructional_comment content =
     find (\<lambda>c. length c > 40 \<and> has_word imperative_words (to_lower c)) (html_comments (length content) content)"

definition hidden_instruction_rule :: "artifact rule" where
  "hidden_instruction_rule =
     (let i = rule_info_of ''AG-I002'' High Ask ''Instruction file contains text you cannot see''
        (''The agent reads this; your editor does not show it. Text that hides from the reviewer and '' @
         ''not from the model has exactly one purpose.'')
      in artifact_rule i instruction_files (\<lambda>a.
           Inr ((if invisible (ar_content a)
                 then [artifact_finding i a (relative_path a @ '' contains zero-width or bidirectional control characters.'')
                         (relative_path a) (first_match (ar_content a) invisible)] else []) @
                (if instructional_comment (ar_content a) \<noteq> None
                 then [artifact_finding i a (relative_path a @ '' hides an instruction inside an HTML comment.'')
                         (relative_path a) (on_line a ''<!--'')] else []))))"

definition instruction_drift_rule :: "artifact rule" where
  "instruction_drift_rule =
     (let i = rule_info_of ''AG-I003'' Medium Observe ''Instruction file changed since the last run''
        (''A file you already read can change under a `git pull`. Review the diff before the next '' @
         ''session rather than after it.'')
      in mk_rule i (\<lambda>a. Inr (artifact_applies instruction_files a \<and> ar_previous a \<noteq> None)) (\<lambda>a.
           case ar_previous a of
             None \<Rightarrow> Inr []
           | Some previous \<Rightarrow>
               if previous = ar_hash a then Inr []
               else Inr [artifact_finding i a
                 (relative_path a @ '' changed from '' @ hash_short previous @ '' to '' @ hash_short (ar_hash a) @
                  '' since the last scan.'') (relative_path a) None]))"

section \<open>Workflows\<close>

definition workflow_files :: "string list" where
  "workflow_files = [''.github/workflows/*.yml'', ''.github/workflows/*.yaml'']"

definition agent_actions :: "string list" where
  "agent_actions =
     [''anthropics/claude-code-action'', ''google-github-actions/run-gemini-cli'', ''openai/codex-action'',
      ''github/copilot-cli-action'']"

definition agent_commands :: "string list" where
  "agent_commands = [''claude'', ''gemini'', ''codex'', ''aider'', ''cursor-agent'']"

definition is_agent_workflow :: "string \<Rightarrow> bool" where
  "is_agent_workflow content = (list_ex (contains_str content) agent_actions \<or> has_word agent_commands content)"

text \<open>\<open>/^\s*-\s+(uses|run):/\<close>.\<close>

definition is_step :: "string \<Rightarrow> bool" where
  "is_step line =
     (let s = skip_spaces line; r = drop 1 s; k = skip_spaces r
      in starts_with s ''-'' \<and> k \<noteq> r \<and> (starts_with k ''uses:'' \<or> starts_with k ''run:''))"

definition is_agent_step :: "string \<Rightarrow> bool" where
  "is_agent_step line = (is_step line \<and> is_agent_workflow line)"

record vulnerable_cli =
  vc_name :: string
  vc_prefix :: string
  vc_bounded :: bool
  vc_fixed :: string
  vc_cve :: string

definition vulnerable_clis :: "vulnerable_cli list" where
  "vulnerable_clis =
     [\<lparr>vc_name = ''run-gemini-cli'', vc_prefix = ''google-github-actions/run-gemini-cli@'', vc_bounded = False,
       vc_fixed = ''0.1.22'', vc_cve = ''CVE-2026-12537''\<rparr>,
      \<lparr>vc_name = ''gemini-cli'', vc_prefix = ''gemini-cli@'', vc_bounded = True, vc_fixed = ''0.39.1'',
       vc_cve = ''CVE-2026-12537''\<rparr>,
      \<lparr>vc_name = ''claude-code'', vc_prefix = ''@anthropic-ai/claude-code@'', vc_bounded = False, vc_fixed = ''2.1.163'',
       vc_cve = ''CVE-2026-54316''\<rparr>]"

text \<open>\<open>v?(\d+\.\d+\.\d+)\<close>: the text of the version and of all that was matched.\<close>

definition version_at :: "string \<Rightarrow> (string \<times> string) option" where
  "version_at t =
     (let v = (if starts_with t ''v'' then ''v'' else []); u = drop (length v) t;
          a = takeWhile is_digit u; u1 = drop (length a) u;
          b = takeWhile is_digit (drop 1 u1); u2 = drop (1 + length b) u1;
          c = takeWhile is_digit (drop 1 u2)
      in if a \<noteq> [] \<and> starts_with u1 ''.'' \<and> b \<noteq> [] \<and> starts_with u2 ''.'' \<and> c \<noteq> []
         then let version = a @ ''.'' @ b @ ''.'' @ c in Some (version, v @ version) else None)"

definition cli_versions :: "vulnerable_cli \<Rightarrow> string \<Rightarrow> (string \<times> string) list" where
  "cli_versions cli content =
     concat (map (\<lambda>(b, t).
         if (vc_bounded cli \<longrightarrow> non_word b \<and> b \<noteq> Some (CHR ''-'')) \<and> starts_with t (vc_prefix cli)
         then (case version_at (drop (length (vc_prefix cli)) t) of
                 None \<Rightarrow> []
               | Some (version, matched) \<Rightarrow> [(version, vc_prefix cli @ matched)])
         else []) (places None content))"

definition version_number :: "string list \<Rightarrow> nat \<Rightarrow> int" where
  "version_number parts k = (if k < length parts then int (decimal (parts ! k)) else 0)"

text \<open>Negative when the left version is the older one.\<close>

definition compare_versions :: "string \<Rightarrow> string \<Rightarrow> int" where
  "compare_versions l r =
     (let a = split_on (CHR ''.'') l; b = split_on (CHR ''.'') r;
          differences = map (\<lambda>k. version_number a k - version_number b k) [0, 1, 2]
      in case find (\<lambda>d. d \<noteq> 0) differences of None \<Rightarrow> 0 | Some d \<Rightarrow> d)"

definition vulnerable_version_rule :: "artifact rule" where
  "vulnerable_version_rule =
     (let i = rule_info_of ''AG-C001'' Critical Block ''Workflow pins a known-vulnerable agent CLI''
        ''Upgrade to the fixed version listed in the finding, then re-run.''
      in artifact_rule i workflow_files (\<lambda>a.
           Inr (concat (map (\<lambda>cli.
             map (\<lambda>(version, matched). artifact_finding i a
                 (vc_name cli @ '' '' @ version @ '' is affected by '' @ vc_cve cli @ ''; fixed in '' @ vc_fixed cli @ ''.'')
                 (relative_path a) (on_line a matched))
               (filter (\<lambda>(version, matched). compare_versions version (vc_fixed cli) < 0)
                 (cli_versions cli (ar_content a)))) vulnerable_clis))))"

definition yolo_flags :: "string list" where
  "yolo_flags = [''--yolo'', ''--dangerously-skip-permissions'', ''--approval-mode=yolo'', ''--full-auto'']"

definition permission_skip_rule :: "artifact rule" where
  "permission_skip_rule =
     (let i = rule_info_of ''AG-C002'' High Ask ''Workflow disables the agent permission prompt''
        (''In CI nobody is there to answer a prompt, so this flag means every tool call is approved. '' @
         ''Pair it with a narrow token and a job that holds no other secrets.'')
      in artifact_rule i workflow_files (\<lambda>a.
           case find (contains_str (ar_content a)) yolo_flags of
             None \<Rightarrow> Inr []
           | Some hit \<Rightarrow>
               Inr [artifact_finding i a (relative_path a @ '' passes '' @ hit @ ''.'') (relative_path a) (on_line a hit)]))"

text \<open>The first agent step and what is after it.\<close>

definition agent_step_index :: "string list \<Rightarrow> nat option" where
  "agent_step_index lines = find (\<lambda>k. is_agent_step (lines ! k)) [0..<length lines]"

definition agent_not_last_rule :: "artifact rule" where
  "agent_not_last_rule =
     (let i = rule_info_of ''AG-C003'' Medium Observe ''Steps run after the agent step''
        (''Anything the agent wrote is consumed by the steps that follow it. Put the agent last, or '' @
         ''treat everything after it as untrusted input.'')
      in artifact_rule i workflow_files (\<lambda>a.
           if \<not> is_agent_workflow (ar_content a) then Inr []
           else let lines = artifact_lines a
                in case agent_step_index lines of
                     None \<Rightarrow> Inr []
                   | Some k \<Rightarrow>
                       if \<not> list_ex is_step (drop (k + 1) lines) then Inr []
                       else rmap (\<lambda>loc. [artifact_finding i a
                                    (relative_path a @ '' runs further steps after the agent step.'')
                                    (relative_path a) (Some loc)])
                              (at_line (int k + 1) (Some (lines ! k)))))"

text \<open>\<open>/uses:.*(codex|claude|gemini)/i\<close> on a line.\<close>

definition uses_agent :: "string \<Rightarrow> bool" where
  "uses_agent line =
     list_ex (\<lambda>(b, t). starts_with t ''uses:'' \<and>
         list_ex (contains_str (takeWhile (\<lambda>c. c \<noteq> CHR 0x0A \<and> c \<noteq> CHR 0x0D) (drop 5 t))) [''codex'', ''claude'', ''gemini''])
       (places None (to_lower line))"

definition double_pass_rule :: "artifact rule" where
  "double_pass_rule =
     (let i = rule_info_of ''AG-C004'' High Ask ''Two agent passes share one checkout''
        (''The first pass can write an instruction file that the second one loads as trusted input. '' @
         ''Check out again between passes, or run them in separate jobs.'')
      in artifact_rule i workflow_files (\<lambda>a.
           let lines = artifact_lines a;
               checkouts = length (filter (\<lambda>l. contains_str l ''actions/checkout@'') lines);
               passes = length (filter is_agent_step lines)
           in if passes < 2 \<or> checkouts > passes - 1 then Inr []
              else Inr [artifact_finding i a
                (relative_path a @ '' runs '' @ show_nat passes @ '' agent steps over '' @ show_nat checkouts @ '' checkout(s).'')
                (relative_path a) (first_match (ar_content a) uses_agent)]))"

definition untrusted_triggers :: "string list" where
  "untrusted_triggers = [''issue_comment'', ''pull_request_target'', ''issues'', ''discussion'', ''discussion_comment'']"

definition line_start :: "char option \<Rightarrow> bool" where
  "line_start b = (b = None \<or> b = Some (CHR 0x0A) \<or> b = Some (CHR 0x0D))"

text \<open>The pattern for one trigger: a key of the workflow, a plain trigger or one of a list.\<close>

definition has_trigger :: "string \<Rightarrow> string \<Rightarrow> bool" where
  "has_trigger content name =
     list_ex (\<lambda>(b, t).
         line_start b \<and> list_ex (\<lambda>k. list_all is_space (take k t) \<and> starts_with (drop k t) (name @ '':'')) [0, 1, 2, 3, 4] \<or>
         line_start b \<and> starts_with t ''on:'' \<and> starts_word (skip_spaces (drop 3 t)) name \<or>
         starts_with t ''['' \<and>
           (let row = takeWhile (\<lambda>c. c \<noteq> CHR 0x0A \<and> c \<noteq> CHR 0x0D) (drop 1 t)
            in list_ex (\<lambda>(x, u). non_word x \<and> starts_word u name \<and> CHR '']'' \<in> set (drop (length name) u))
                 (places (Some (CHR ''['')) row)))
       (places None content)"

definition reads_secret :: "string \<Rightarrow> bool" where
  "reads_secret content =
     list_ex (\<lambda>(b, t). starts_with t ''${{'' \<and> starts_with (skip_spaces (drop 3 t)) ''secrets.'') (places None content)"

definition untrusted_trigger_rule :: "artifact rule" where
  "untrusted_trigger_rule =
     (let i = rule_info_of ''AG-C005'' Critical Ask ''Agent job reachable by an untrusted trigger holds secrets''
        (''Anyone who can open an issue can put text into this prompt, and the job has credentials. '' @
         ''Gate it behind a label or an author check, or move the secrets out of the job.'')
      in artifact_rule i workflow_files (\<lambda>a.
           if \<not> is_agent_workflow (ar_content a) then Inr []
           else case find (has_trigger (ar_content a)) untrusted_triggers of
                  None \<Rightarrow> Inr []
                | Some trigger \<Rightarrow>
                    if \<not> reads_secret (ar_content a) then Inr []
                    else Inr [artifact_finding i a
                      (relative_path a @ '' is triggered by '' @ trigger @ '' and passes a secret to the agent.'')
                      (relative_path a) (on_line a trigger)]))"

section \<open>The list\<close>

definition artifact_rules :: "js_json \<Rightarrow> artifact rule list" where
  "artifact_rules js =
     [repository_hook_rule js, session_start_hook_rule js, folder_open_task_rule js, devcontainer_rule js,
      git_hook_file_rule, direnv_rule,
      gemini_env_rule, mcp_server_rule js, unpinned_server_rule js, endpoint_override_rule, auto_approval_rule js,
      execution_imperative_rule, hidden_instruction_rule, instruction_drift_rule,
      vulnerable_version_rule, permission_skip_rule, agent_not_last_rule, double_pass_rule, untrusted_trigger_rule]"

definition artifact_scanner :: "js_json \<Rightarrow> artifact rule_registry res" where
  "artifact_scanner js = rule_registry_of (artifact_rules js)"

section \<open>Lemmas\<close>

text \<open>A rule that always returns, whose findings carry its id and the hash of what was read.\<close>

definition names_content :: "artifact rule \<Rightarrow> bool" where
  "names_content r =
     (\<forall>a. \<exists>gs. evaluate_rule r a = Inr gs \<and> (\<forall>f \<in> set gs. fd_rule f = ru_id r \<and> fd_hash f = Some (ar_hash a)))"

lemma names_contentD:
  assumes "names_content r" "evaluate_rule r a = Inr gs" "f \<in> set gs"
  shows "fd_rule f = ru_id r" "fd_hash f = Some (ar_hash a)"
  using assms unfolding names_content_def by (metis sum.inject(2))+

definition made_by :: "rule_info \<Rightarrow> artifact \<Rightarrow> finding list res \<Rightarrow> bool" where
  "made_by i a r = (\<exists>gs. r = Inr gs \<and> (\<forall>f \<in> set gs. \<exists>d s l. f = artifact_finding i a d s l))"

lemma names_contentI:
  assumes "\<And>i a. made_by i a (inspect i a)"
  shows "names_content (let i = info in artifact_rule i paths (inspect i))"
proof -
  have "\<exists>gs. evaluate_rule (artifact_rule i paths (inspect i)) a = Inr gs \<and>
      (\<forall>f \<in> set gs. fd_rule f = ru_id (artifact_rule i paths (inspect i)) \<and> fd_hash f = Some (ar_hash a))" for i a
  proof -
    obtain gs where gs: "inspect i a = Inr gs" "\<forall>f \<in> set gs. \<exists>d s l. f = artifact_finding i a d s l"
      using assms unfolding made_by_def by blast
    have "fd_rule f = ri_id i \<and> fd_hash f = Some (ar_hash a)" if "f \<in> set gs" for f
      using gs(2) that by (auto simp: artifact_finding_def make_finding_def)
    then show ?thesis using gs(1) by (simp add: evaluate_rule_def artifact_rule_def mk_rule_def)
  qed
  then show ?thesis by (simp add: names_content_def Let_def)
qed

lemma made_by_simps [simp]:
  "made_by i a (Inr [])"
  "made_by i a (Inr (artifact_finding i a d s l # fs)) = made_by i a (Inr fs)"
  "made_by i a (Inr (fs @ gs)) = (made_by i a (Inr fs) \<and> made_by i a (Inr gs))"
  "made_by i a (Inr (map (\<lambda>x. artifact_finding i a (g x) (u x) (w x)) xs))"
  "made_by i a (Inr (concat fss)) = (\<forall>fs \<in> set fss. made_by i a (Inr fs))"
  by (auto simp: made_by_def)

lemma made_by_map_pair [simp]:
  "made_by i a (Inr (map (\<lambda>(x, y). artifact_finding i a (g x y) (u x y) (w x y)) xs))"
  by (auto simp: made_by_def)

lemma at_line_total: "n \<ge> 1 \<Longrightarrow> \<exists>loc. at_line n t = Inr loc"
  by (simp add: at_line_def)

lemma made_by_line: "n \<ge> 1 \<Longrightarrow> made_by i a (rmap (\<lambda>loc. [artifact_finding i a d s (Some loc)]) (at_line n t))"
  using at_line_total [of n t] by (force simp: made_by_def)

lemma repository_hook_rule_sound: "names_content (repository_hook_rule js)"
  unfolding repository_hook_rule_def
  by (rule names_contentI) (simp add: made_by_line unpinned_server_def Let_def split: option.split json.split prod.split)

lemma session_start_hook_rule_sound: "names_content (session_start_hook_rule js)"
  unfolding session_start_hook_rule_def
  by (rule names_contentI) (simp add: made_by_line unpinned_server_def Let_def split: option.split json.split prod.split)

lemma folder_open_task_rule_sound: "names_content (folder_open_task_rule js)"
  unfolding folder_open_task_rule_def
  by (rule names_contentI) (simp add: made_by_line unpinned_server_def Let_def split: option.split json.split prod.split)

lemma devcontainer_rule_sound: "names_content (devcontainer_rule js)"
  unfolding devcontainer_rule_def
  by (rule names_contentI) (simp add: made_by_line unpinned_server_def Let_def split: option.split json.split prod.split)

lemma git_hook_file_rule_sound: "names_content (git_hook_file_rule)"
  unfolding git_hook_file_rule_def
  by (rule names_contentI) (simp add: made_by_line unpinned_server_def Let_def split: option.split json.split prod.split)

lemma direnv_rule_sound: "names_content (direnv_rule)"
  unfolding direnv_rule_def
  by (rule names_contentI) (simp add: made_by_line unpinned_server_def Let_def split: option.split json.split prod.split)

lemma gemini_env_rule_sound: "names_content (gemini_env_rule)"
  unfolding gemini_env_rule_def
  by (rule names_contentI) (simp add: made_by_line unpinned_server_def Let_def split: option.split json.split prod.split)

lemma mcp_server_rule_sound: "names_content (mcp_server_rule js)"
  unfolding mcp_server_rule_def
  by (rule names_contentI) (simp add: made_by_line unpinned_server_def Let_def split: option.split json.split prod.split)

lemma unpinned_server_rule_sound: "names_content (unpinned_server_rule js)"
  unfolding unpinned_server_rule_def
  by (rule names_contentI) (simp add: made_by_line unpinned_server_def Let_def split: option.split json.split prod.split)

lemma endpoint_override_rule_sound: "names_content (endpoint_override_rule)"
  unfolding endpoint_override_rule_def
  by (rule names_contentI) (simp add: made_by_line unpinned_server_def Let_def split: option.split json.split prod.split)

lemma auto_approval_rule_sound: "names_content (auto_approval_rule js)"
  unfolding auto_approval_rule_def
  by (rule names_contentI) (simp add: made_by_line unpinned_server_def Let_def split: option.split json.split prod.split)

lemma execution_imperative_rule_sound: "names_content (execution_imperative_rule)"
  unfolding execution_imperative_rule_def
  by (rule names_contentI) (simp add: made_by_line unpinned_server_def Let_def split: option.split json.split prod.split)

lemma hidden_instruction_rule_sound: "names_content (hidden_instruction_rule)"
  unfolding hidden_instruction_rule_def
  by (rule names_contentI) (simp add: made_by_line unpinned_server_def Let_def split: option.split json.split prod.split)

lemma vulnerable_version_rule_sound: "names_content (vulnerable_version_rule)"
  unfolding vulnerable_version_rule_def
  by (rule names_contentI) (simp add: made_by_line unpinned_server_def Let_def split: option.split json.split prod.split)

lemma permission_skip_rule_sound: "names_content (permission_skip_rule)"
  unfolding permission_skip_rule_def
  by (rule names_contentI) (simp add: made_by_line unpinned_server_def Let_def split: option.split json.split prod.split)

lemma agent_not_last_rule_sound: "names_content (agent_not_last_rule)"
  unfolding agent_not_last_rule_def
  by (rule names_contentI) (simp add: made_by_line unpinned_server_def Let_def split: option.split json.split prod.split)

lemma double_pass_rule_sound: "names_content (double_pass_rule)"
  unfolding double_pass_rule_def
  by (rule names_contentI) (simp add: made_by_line unpinned_server_def Let_def split: option.split json.split prod.split)

lemma untrusted_trigger_rule_sound: "names_content (untrusted_trigger_rule)"
  unfolding untrusted_trigger_rule_def
  by (rule names_contentI) (simp add: made_by_line unpinned_server_def Let_def split: option.split json.split prod.split)

lemma instruction_drift_sound: "names_content instruction_drift_rule"
  by (auto simp: names_content_def instruction_drift_rule_def Let_def mk_rule_def evaluate_rule_def artifact_finding_def
      make_finding_def split: option.split)

lemma artifact_rules_sound: "r \<in> set (artifact_rules js) \<Longrightarrow> names_content r"
  unfolding artifact_rules_def
  by (auto intro: repository_hook_rule_sound
      session_start_hook_rule_sound
      folder_open_task_rule_sound
      devcontainer_rule_sound
      git_hook_file_rule_sound
      direnv_rule_sound
      gemini_env_rule_sound
      mcp_server_rule_sound
      unpinned_server_rule_sound
      endpoint_override_rule_sound
      auto_approval_rule_sound
      execution_imperative_rule_sound
      hidden_instruction_rule_sound
      vulnerable_version_rule_sound
      permission_skip_rule_sound
      agent_not_last_rule_sound
      double_pass_rule_sound
      untrusted_trigger_rule_sound
      instruction_drift_sound)

end
