(* ===== verification/Scan.thy ===== *)
theory Scan
  imports ArtifactRules NodeFiles Decisions
begin

text \<open>
  \<open>src/application/use-cases/ScanWorkspace.ts\<close>: the scan of a repository over the listing of
  \<open>NodeFiles\<close>, the rules over artifacts and a decision store, which are parameters together
  with the clock. The regular expressions over relative paths are written out, on the path
  in lower case. The lemmas show what a scan that returns has inspected, that a report keeps
  every finding that is not allowed by content, that scanning again changes nothing, and
  which findings a scan cannot make or loses.
\<close>

section \<open>Which files are read\<close>

definition no_break :: "string \<Rightarrow> bool" where
  "no_break s = list_all (\<lambda>c. c \<noteq> CHR 0x0A \<and> c \<noteq> CHR 0x0D) s"

text \<open>\<open>^first.*final$\<close>, with at least \<open>n\<close> characters between.\<close>

definition framed :: "nat \<Rightarrow> string \<Rightarrow> string \<Rightarrow> string \<Rightarrow> bool" where
  "framed n first final s =
     (starts_with s first \<and> ends_with s final \<and> length first + n + length final \<le> length s \<and>
      no_break (take (length s - length first - length final) (drop (length first) s)))"

definition interesting_name :: "string \<Rightarrow> bool" where
  "interesting_name relative =
     (let r = to_lower relative
      in r \<in> {''.claude/settings.json'', ''.claude/settings.local.json''} \<or>
         framed 0 ''.claude/'' ''.json'' r \<or>
         r \<in> {''.vscode/tasks.json'', ''.vscode/settings.json'', ''.vscode/mcp.json''} \<or>
         framed 0 ''.devcontainer/'' ''devcontainer.json'' r \<or>
         starts_with r ''.git/hooks/'' \<and> drop 11 r \<noteq> [] \<and> CHR ''.'' \<notin> set (drop 11 r) \<or>
         r = ''.envrc'' \<or>
         r = ''.env'' \<or> framed 1 ''.env.'' [] r \<or>
         framed 0 ''.gemini/'' [] r \<or>
         r \<in> {''.mcp'', ''.cursorrules'', ''.windsurfrules''} \<or>
         r = ''.mcp.json'' \<or>
         framed 0 ''.cursor/'' [] r \<or>
         r \<in> {''claude.md'', ''claude.local.md'', ''agents.md'', ''agents.local.md'', ''gemini.md'', ''gemini.local.md''} \<or>
         framed 1 ''.github/workflows/'' ''.yml'' r \<or> framed 1 ''.github/workflows/'' ''.yaml'' r \<or>
         r = ''.github/copilot-instructions.md'')"

text \<open>A directory or what is below it.\<close>

definition tree_of :: "string \<Rightarrow> string \<Rightarrow> bool" where
  "tree_of dir r = (r = dir \<or> starts_with r (dir @ ''/''))"

definition interesting_tree :: "string \<Rightarrow> bool" where
  "interesting_tree relative =
     (let r = to_lower relative
      in list_ex (\<lambda>d. tree_of d r) [''.claude'', ''.vscode'', ''.devcontainer'', ''.gemini'', ''.cursor''] \<or>
         r = ''.git'' \<or> tree_of ''.git/hooks'' r \<or> r = ''.github'' \<or> tree_of ''.github/workflows'' r)"

definition relative_in :: "abs_path \<Rightarrow> abs_path \<Rightarrow> string" where
  "relative_in workspace p =
     (if contains workspace p then drop (length (ap_value workspace) + 1) (ap_value p) else ap_value p)"

definition scan_list_options :: "abs_path \<Rightarrow> list_options" where
  "scan_list_options workspace =
     default_list_options
       \<lparr>lo_max_entries := 20000, lo_max_depth := 24, lo_include := (\<lambda>p. interesting_name (relative_in workspace p)),
        lo_descend := (\<lambda>p. interesting_tree (relative_in workspace p)), lo_fail_limit := True\<rparr>"

definition max_artifact_bytes :: int where
  "max_artifact_bytes = 512 * 1024"

section \<open>Drift\<close>

definition drift_key :: "sha \<Rightarrow> abs_path \<Rightarrow> string \<Rightarrow> string" where
  "drift_key h workspace relative = ''drift:'' @ wid_value (workspace_id_of_path h workspace) @ '':'' @ relative"

definition previous_hash :: "stored_decision option \<Rightarrow> content_hash option" where
  "previous_hash d =
     (case d of
        None \<Rightarrow> None
      | Some x \<Rightarrow>
          (case dc_subject x of
             None \<Rightarrow> None
           | Some s \<Rightarrow> (case hash_parse s of Inl _ \<Rightarrow> None | Inr k \<Rightarrow> Some k)))"

section \<open>The scan\<close>

record 's scan_ports =
  sn_calls :: node_calls
  sn_sha :: sha
  sn_registry :: "artifact rule_registry"
  sn_switches :: rule_switches
  sn_now :: "int option"
  sn_all :: "'s \<Rightarrow> stored_decision list res"
  sn_record :: "stored_decision list \<Rightarrow> 's \<Rightarrow> 's res"

record scan_result =
  sx_report :: scan_report
  sx_inspected :: nat

definition inspect_artifact ::
  "'s scan_ports \<Rightarrow> abs_path \<Rightarrow> stored_decision list \<Rightarrow> abs_path \<Rightarrow> artifact option res" where
  "inspect_artifact ports workspace ds p =
     rbind (fs_stat (sn_calls ports) p) (\<lambda>info.
       if (case info of None \<Rightarrow> False | Some st \<Rightarrow> st_size st > max_artifact_bytes) then Inl PartialScan
       else rmap (map_option (\<lambda>content.
              artifact_new (sn_sha ports) p workspace content
                (previous_hash (map_of (index_decisions ds) (drift_key (sn_sha ports) workspace (relative_in workspace p))))))
            (node_read (sn_calls ports) p))"

definition apply_decisions :: "scan_report \<Rightarrow> stored_decision list \<Rightarrow> scan_report" where
  "apply_decisions report ds =
     report_of (filter (\<lambda>f. case map_of (index_decisions ds) (decision_key f) of
         None \<Rightarrow> True | Some d \<Rightarrow> dc_verdict d \<noteq> Allow) (rp_findings report))"

definition drift_record :: "'s scan_ports \<Rightarrow> abs_path \<Rightarrow> artifact \<Rightarrow> stored_decision" where
  "drift_record ports workspace a =
     \<lparr>dc_key = drift_key (sn_sha ports) workspace (relative_path a), dc_verdict = Allow,
      dc_subject = Some (hash_to_string (ar_hash a)), dc_rule_ids = Some (JArray []), dc_decided_at = sn_now ports\<rparr>"

definition has_drifted :: "artifact \<Rightarrow> bool" where
  "has_drifted a = (ar_previous a = None \<or> ar_previous a \<noteq> Some (ar_hash a))"

definition record_hashes :: "'s scan_ports \<Rightarrow> abs_path \<Rightarrow> artifact list \<Rightarrow> 's \<Rightarrow> 's res" where
  "record_hashes ports workspace artifacts store =
     (let changed = filter has_drifted artifacts
      in if length changed = 0 then Inr store
         else sn_record ports (map (drift_record ports workspace) changed) store)"

text \<open>Each listed file is tested a second time before it is read.\<close>

definition scan_artifacts :: "'s scan_ports \<Rightarrow> abs_path \<Rightarrow> stored_decision list \<Rightarrow> artifact list res" where
  "scan_artifacts ports workspace ds =
     rbind (fs_list (scan_list_options workspace) (sn_calls ports) workspace) (\<lambda>candidates.
     rmap options_to_list
       (traverse (inspect_artifact ports workspace ds)
         (filter (\<lambda>p. interesting_name (relative_in workspace p)) candidates)))"

definition scan_workspace :: "'s scan_ports \<Rightarrow> abs_path \<Rightarrow> 's \<Rightarrow> scan_result res \<times> 's" where
  "scan_workspace ports workspace store =
     (case rbind (sn_all ports store) (\<lambda>ds.
           rbind (scan_artifacts ports workspace ds) (\<lambda>artifacts.
           rmap (\<lambda>report. (artifacts, apply_decisions report ds))
             (engine_scan (sn_registry ports) artifacts (sn_switches ports)))) of
        Inl e \<Rightarrow> (Inl e, store)
      | Inr (artifacts, filtered) \<Rightarrow>
          (case record_hashes ports workspace artifacts store of
             Inl e \<Rightarrow> (Inl e, store)
           | Inr store' \<Rightarrow> (Inr \<lparr>sx_report = filtered, sx_inspected = length artifacts\<rparr>, store')))"

section \<open>What was inspected\<close>

lemma rmap_InrE:
  assumes "rmap f r = Inr y"
  obtains x where "r = Inr x" "y = f x"
  using assms by (cases r) auto

lemma scan_stages:
  assumes "scan_workspace ports workspace store = (Inr out, store')"
  obtains ds artifacts report where "sn_all ports store = Inr ds" "scan_artifacts ports workspace ds = Inr artifacts"
    and "engine_scan (sn_registry ports) artifacts (sn_switches ports) = Inr report"
    and "sx_report out = apply_decisions report ds" "sx_inspected out = length artifacts"
    and "record_hashes ports workspace artifacts store = Inr store'"
proof -
  obtain artifacts filtered where first: "rbind (sn_all ports store) (\<lambda>ds.
        rbind (scan_artifacts ports workspace ds) (\<lambda>artifacts.
        rmap (\<lambda>report. (artifacts, apply_decisions report ds))
          (engine_scan (sn_registry ports) artifacts (sn_switches ports)))) = Inr (artifacts, filtered)"
    and rec: "record_hashes ports workspace artifacts store = Inr store'"
    and out: "out = \<lparr>sx_report = filtered, sx_inspected = length artifacts\<rparr>"
    using assms by (auto simp: scan_workspace_def split: sum.splits)
  show ?thesis using first rec out that by (auto elim!: rmap_InrE)
qed

definition candidate :: "node_calls \<Rightarrow> abs_path \<Rightarrow> abs_path \<Rightarrow> bool" where
  "candidate nd workspace p = listed_below (scan_list_options workspace) nd workspace p"

lemma candidate_interesting: "candidate nd workspace p \<Longrightarrow> interesting_name (relative_in workspace p)"
  unfolding candidate_def by (drule listed_included) (simp add: scan_list_options_def)

definition artifact_of :: "'s scan_ports \<Rightarrow> abs_path \<Rightarrow> stored_decision list \<Rightarrow> abs_path \<Rightarrow> string \<Rightarrow> artifact" where
  "artifact_of ports workspace ds p content =
     artifact_new (sn_sha ports) p workspace content
       (previous_hash (latest (drift_key (sn_sha ports) workspace (relative_in workspace p)) ds))"

lemma inspected_one:
  "inspect_artifact ports workspace ds p = Inr r \<Longrightarrow>
     (r = None \<longleftrightarrow> node_read (sn_calls ports) p = Inr None) \<and>
     (\<forall>a. r = Some a \<longleftrightarrow> (\<exists>t. node_read (sn_calls ports) p = Inr (Some t) \<and> a = artifact_of ports workspace ds p t))"
  by (cases "node_read (sn_calls ports) p")
    (auto simp: inspect_artifact_def artifact_of_def index_decisions_latest elim!: rmap_InrE split: if_splits)

lemma scanned_artifacts:
  assumes "scan_artifacts ports workspace ds = Inr artifacts"
  shows "a \<in> set artifacts \<longleftrightarrow>
    (\<exists>p t. candidate (sn_calls ports) workspace p \<and> node_read (sn_calls ports) p = Inr (Some t) \<and>
       a = artifact_of ports workspace ds p t)"
proof -
  obtain ps rs where ps: "fs_list (scan_list_options workspace) (sn_calls ports) workspace = Inr ps"
    and rs: "traverse (inspect_artifact ports workspace ds)
      (filter (\<lambda>p. interesting_name (relative_in workspace p)) ps) = Inr rs" "artifacts = options_to_list rs"
    using assms by (auto simp: scan_artifacts_def elim!: rmap_InrE)
  have all: "p \<in> set ps \<longleftrightarrow> candidate (sn_calls ports) workspace p" for p
    using list_complete [OF ps] by (simp add: scan_list_options_def candidate_def)
  show ?thesis
  proof
    assume "a \<in> set artifacts"
    then have "Some a \<in> set rs" by (simp add: rs(2) set_options_to_list)
    then obtain p where "p \<in> set ps" "inspect_artifact ports workspace ds p = Inr (Some a)"
      using traverse_set [OF rs(1)] by auto
    then show "\<exists>p t. candidate (sn_calls ports) workspace p \<and> node_read (sn_calls ports) p = Inr (Some t) \<and>
       a = artifact_of ports workspace ds p t"
      using inspected_one all by blast
  next
    assume "\<exists>p t. candidate (sn_calls ports) workspace p \<and> node_read (sn_calls ports) p = Inr (Some t) \<and>
       a = artifact_of ports workspace ds p t"
    then obtain p t where p: "p \<in> set ps" "interesting_name (relative_in workspace p)"
      "node_read (sn_calls ports) p = Inr (Some t)" "a = artifact_of ports workspace ds p t"
      using all candidate_interesting by blast
    then obtain r where r: "r \<in> set rs" "inspect_artifact ports workspace ds p = Inr r"
      using traverse_set' [OF rs(1)] by auto
    then have "r = Some a" using inspected_one [OF r(2)] p(3,4) by blast
    then show "a \<in> set artifacts" using r(1) by (simp add: rs(2) set_options_to_list)
  qed
qed

lemma kept_findings:
  "f \<in> set (rp_findings (apply_decisions report ds)) \<longleftrightarrow>
     f \<in> set (rp_findings report) \<and> \<not> (\<exists>d. latest (decision_key f) ds = Some d \<and> dc_verdict d = Allow)"
  by (auto simp: apply_decisions_def index_decisions_latest split: option.splits)

section \<open>Scanning again\<close>

text \<open>The relative path of an artifact is that of its candidate, and tells the candidates apart.\<close>

lemma interesting_nonempty: "interesting_name r \<Longrightarrow> r \<noteq> []"
proof -
  have "\<not> interesting_name []" by code_simp
  then show "interesting_name r \<Longrightarrow> r \<noteq> []" by auto
qed

lemma relative_path_new:
  "relative_in workspace p \<noteq> [] \<Longrightarrow> relative_path (artifact_new h p workspace t k) = relative_in workspace p"
  by (auto simp: relative_path_def relative_in_def artifact_new_def path_eq_def)

text \<open>A directory has entries that are segments, and a workspace is a posix directory that is read back.\<close>

definition entry_name_ok :: "string \<Rightarrow> bool" where
  "entry_name_ok n = (seg_ok n \<and> CHR 0x00 \<notin> set n)"

definition segment_names :: "node_calls \<Rightarrow> bool" where
  "segment_names nd \<longleftrightarrow> (\<forall>dir es. nd_readdir nd dir = Inr es \<longrightarrow> list_all (\<lambda>e. entry_name_ok (fst e)) es)"

definition workspace_ok :: "abs_path \<Rightarrow> bool" where
  "workspace_ok w =
     (wf_path w \<and> ap_flavour w = Posix \<and> segments w \<noteq> [] \<and> reparsable (segments w))"

lemma segment_namesD: "segment_names nd \<Longrightarrow> nd_readdir nd dir = Inr es \<Longrightarrow> (n, k) \<in> set es \<Longrightarrow> entry_name_ok n"
  by (fastforce simp: segment_names_def list_all_iff)

lemma listed_inside:
  assumes "listed_below opt nd dir f" "segment_names nd"
    and "dir = mk_posix ds" "\<forall>s \<in> set ds. seg_ok s" "ds \<noteq> []" "reparsable ds"
  shows "\<exists>rest. rest \<noteq> [] \<and> f = mk_posix (ds @ rest)"
  using assms
proof (induction arbitrary: ds rule: listed_below.induct)
  case (here dir es name f)
  then have "entry_name_ok name" using segment_namesD by blast
  then have n: "seg_ok name" "reparsable (ds @ [name])" using here.prems by (auto simp: entry_name_ok_def reparsable_append)
  then have "path_join dir [name] = Inr (mk_posix (ds @ [name]))"
    using path_join_posix_plain [of ds "[name]"] here.prems by simp
  then show ?case using here.hyps by auto
next
  case (below dir es name sub f)
  then have "entry_name_ok name" using segment_namesD by blast
  then have n: "seg_ok name" "reparsable (ds @ [name])" using below.prems by (auto simp: entry_name_ok_def reparsable_append)
  then have "path_join dir [name] = Inr (mk_posix (ds @ [name]))"
    using path_join_posix_plain [of ds "[name]"] below.prems by simp
  then have "sub = mk_posix (ds @ [name])" using below.hyps by simp
  from below.IH [OF below.prems(1) this] n below.prems show ?case by auto
qed

lemma candidate_inside:
  assumes "candidate nd workspace p" "segment_names nd" "workspace_ok workspace"
  obtains rest where "rest \<noteq> []" "p = mk_posix (segments workspace @ rest)"
    and "ap_value p = ap_value workspace @ slash # join ''/'' rest" "relative_in workspace p = join ''/'' rest"
proof -
  let ?ws = "segments workspace"
  have w: "workspace = mk_posix ?ws" "\<forall>s \<in> set ?ws. seg_ok s" "?ws \<noteq> []" "reparsable ?ws"
    using assms(3) wf_posix_eq [of workspace] by (auto simp: workspace_ok_def wf_path_def)
  obtain rest where rest: "rest \<noteq> []" "p = mk_posix (?ws @ rest)"
    using listed_inside [OF assms(1) [unfolded candidate_def] assms(2) w] by blast
  have v: "ap_value p = ap_value workspace @ slash # join ''/'' rest"
    using posix_path_append [OF w(3) rest(1)] rest(2) w(1) by (metis mk_posix_sel(1))
  have "ap_root workspace = ''/''" "ap_flavour workspace = Posix" using w(1) by (metis mk_posix_sel(2,3))+
  then have "contains workspace p" using v rest(2) by (simp add: contains_def)
  then have "relative_in workspace p = join ''/'' rest" using v by (simp add: relative_in_def)
  then show ?thesis using that rest v by blast
qed

lemma same_candidate:
  assumes "candidate nd workspace p" "candidate nd workspace q" "segment_names nd" "workspace_ok workspace"
    and "relative_in workspace p = relative_in workspace q"
  shows "p = q"
proof -
  obtain xs where xs: "p = mk_posix (segments workspace @ xs)" "ap_value p = ap_value workspace @ slash # join ''/'' xs"
    "relative_in workspace p = join ''/'' xs" using candidate_inside [OF assms(1,3,4)] by metis
  obtain ys where ys: "q = mk_posix (segments workspace @ ys)" "ap_value q = ap_value workspace @ slash # join ''/'' ys"
    "relative_in workspace q = join ''/'' ys" using candidate_inside [OF assms(2,3,4)] by metis
  have "ap_value p = ap_value q" using xs ys assms(5) by simp
  then show "p = q" unfolding xs(1) ys(1) by (simp add: mk_posix_def)
qed

text \<open>The recorded drift of a list of artifacts.\<close>

lemma latest_NoneD: "latest key ds = None \<Longrightarrow> d \<in> set ds \<Longrightarrow> dc_key d \<noteq> key"
  by (force simp: latest_def map_of_eq_None_iff)

lemma latest_SomeD: "latest key ds = Some d \<Longrightarrow> d \<in> set ds \<and> dc_key d = key"
  by (auto simp: latest_def dest!: map_of_SomeD)

lemma drift_key_eq: "drift_key h w r = drift_key h w r' \<longleftrightarrow> r = r'"
  by (simp add: drift_key_def)

lemma previous_recorded:
  "hash_parse (hash_to_string (ar_hash a)) = Inr (ar_hash a) \<Longrightarrow>
     previous_hash (Some (drift_record ports w a)) = Some (ar_hash a)"
  by (simp add: previous_hash_def drift_record_def)

definition one_per_path :: "artifact list \<Rightarrow> bool" where
  "one_per_path as \<longleftrightarrow> (\<forall>a \<in> set as. \<forall>b \<in> set as. relative_path a = relative_path b \<longrightarrow> ar_hash a = ar_hash b)"

context decision_store
begin

lemma recorded_latest:
  assumes "env_ok env" "readable env s" "ok d" "put env [d] s = Inr s'"
  obtains ds where "all env s' = Inr ds" "latest (dc_key d) ds = Some d"
proof -
  have "readable env s'" "find env (dc_key d) s' = Inr (Some d)"
    using find_put_same [OF assms(1-3)] assms(4) by (metis sum.inject(2))+
  then show ?thesis using find_all [OF assms(1)] that by (metis sum.inject(2))
qed

lemma drift_recorded:
  assumes "env_ok env" "readable env s" "all env s = Inr ds" "sn_record ports = put env"
    and "record_hashes ports w as s = Inr s'" "one_per_path as"
    and each: "\<And>a. a \<in> set as \<Longrightarrow> ok (drift_record ports w a) \<and>
      hash_parse (hash_to_string (ar_hash a)) = Inr (ar_hash a) \<and>
      ar_previous a = previous_hash (latest (drift_key (sn_sha ports) w (relative_path a)) ds)"
  shows "readable env s' \<and>
    (\<exists>ds'. all env s' = Inr ds' \<and>
      (\<forall>a \<in> set as. previous_hash (latest (drift_key (sn_sha ports) w (relative_path a)) ds') = Some (ar_hash a)))"
proof (cases "length (filter has_drifted as) = 0")
  case True
  then have "s' = s" using assms(5) by (simp add: record_hashes_def)
  moreover have "ar_previous a = Some (ar_hash a)" if "a \<in> set as" for a
    using True that by (auto simp: has_drifted_def filter_empty_conv)
  ultimately show ?thesis using assms(2,3) each by fastforce
next
  case False
  let ?recs = "map (drift_record ports w) (filter has_drifted as)"
  have "put env ?recs s = Inr s'" using assms(4,5) False by (simp add: record_hashes_def)
  moreover have "list_all ok ?recs" using each by (auto simp: list_all_iff)
  ultimately have s': "readable env s'" "\<And>key. find env key s' =
      (case latest key ?recs of None \<Rightarrow> find env key s | Some d \<Rightarrow> Inr (Some d))"
    using find_put [OF assms(1,2)] by fastforce+
  obtain ds' where ds': "all env s' = Inr ds'" "\<And>key. find env key s' = Inr (latest key ds')"
    using find_all [OF assms(1) s'(1)] by blast
  have old: "find env key s = Inr (latest key ds)" for key using find_all [OF assms(1,2)] assms(3) by auto
  have "previous_hash (latest (drift_key (sn_sha ports) w (relative_path a)) ds') = Some (ar_hash a)" if a: "a \<in> set as" for a
  proof (cases "latest (drift_key (sn_sha ports) w (relative_path a)) ?recs")
    case None
    moreover have "dc_key (drift_record ports w a) = drift_key (sn_sha ports) w (relative_path a)"
      by (simp add: drift_record_def)
    ultimately have "drift_record ports w a \<notin> set ?recs" using latest_NoneD by metis
    then have "\<not> has_drifted a" using a by auto
    then have "ar_previous a = Some (ar_hash a)" by (simp add: has_drifted_def)
    moreover have "latest (drift_key (sn_sha ports) w (relative_path a)) ds' = latest (drift_key (sn_sha ports) w (relative_path a)) ds"
      using None s'(2) [of "drift_key (sn_sha ports) w (relative_path a)"] by (simp add: ds'(2) old)
    ultimately show ?thesis using each [OF a] by simp
  next
    case (Some d)
    then obtain b where b: "b \<in> set as" "d = drift_record ports w b" "relative_path b = relative_path a"
      using latest_SomeD [OF Some] by (auto simp: drift_record_def drift_key_eq)
    then have "ar_hash b = ar_hash a" using assms(6) a unfolding one_per_path_def by blast
    moreover have "latest (drift_key (sn_sha ports) w (relative_path a)) ds' = Some d"
      using Some s'(2) [of "drift_key (sn_sha ports) w (relative_path a)"] by (simp add: ds'(2))
    moreover have "previous_hash (Some (drift_record ports w b)) = Some (ar_hash b)"
      using previous_recorded each [OF b(1)] by blast
    ultimately show ?thesis using b(2) by simp
  qed
  then show ?thesis using s'(1) ds'(1) by blast
qed

end

lemma artifact_of_fields [simp]:
  "ar_path (artifact_of ports w ds p t) = p" "ar_workspace (artifact_of ports w ds p t) = w"
  "ar_content (artifact_of ports w ds p t) = t" "ar_hash (artifact_of ports w ds p t) = hash_content (sn_sha ports) t"
  "ar_previous (artifact_of ports w ds p t) = previous_hash (latest (drift_key (sn_sha ports) w (relative_in w p)) ds)"
  by (simp_all add: artifact_of_def artifact_new_def)

lemma candidate_relative:
  "candidate nd w p \<Longrightarrow> relative_path (artifact_of ports w ds p t) = relative_in w p"
  unfolding artifact_of_def by (rule relative_path_new) (use candidate_interesting interesting_nonempty in blast)

lemma artifacts_one_per_path:
  assumes "scan_artifacts ports w ds = Inr as" "segment_names (sn_calls ports)" "workspace_ok w"
  shows "one_per_path as"
  unfolding one_per_path_def
proof (intro ballI impI)
  fix a b assume "a \<in> set as" "b \<in> set as" and same: "relative_path a = relative_path b"
  then obtain p t q u where p: "candidate (sn_calls ports) w p" "node_read (sn_calls ports) p = Inr (Some t)"
      "a = artifact_of ports w ds p t"
    and q: "candidate (sn_calls ports) w q" "node_read (sn_calls ports) q = Inr (Some u)" "b = artifact_of ports w ds q u"
    using scanned_artifacts [OF assms(1)] by metis
  have "relative_in w p = relative_in w q" using same candidate_relative p q by metis
  from same_candidate [OF p(1) q(1) assms(2,3) this] show "ar_hash a = ar_hash b" using p q by simp
qed

text \<open>The artifacts of a scan depend on the decisions only in the hashes they had before.\<close>

lemma traverse_mapped:
  assumes "\<And>x. g x = rmap (map_option (k x)) (f x)" "traverse f xs = Inr rs"
  shows "\<exists>rs'. traverse g xs = Inr rs' \<and> length (options_to_list rs') = length (options_to_list rs)"
  using assms(2)
proof (induction xs arbitrary: rs)
  case (Cons x xs)
  then obtain r rest where r: "f x = Inr r" "traverse f xs = Inr rest" "rs = r # rest" by auto
  obtain rest' where "traverse g xs = Inr rest'" "length (options_to_list rest') = length (options_to_list rest)"
    using Cons.IH [OF r(2)] by blast
  moreover have "g x = Inr (map_option (k x) r)" using assms(1) [of x] r(1) by simp
  ultimately show ?case using r(3) by (cases r) (simp_all add: options_to_list_def)
qed (simp add: options_to_list_def)

lemma traverse_total: "(\<And>x. \<exists>r. f x = Inr r) \<Longrightarrow> \<exists>rs. traverse f xs = Inr rs"
proof (induction xs)
  case (Cons x xs)
  then obtain r rs where "f x = Inr r" "traverse f xs = Inr rs" by blast
  then show ?case by simp
qed simp

lemma artifacts_again:
  assumes "scan_artifacts ports w ds = Inr as" "sn_calls ports' = sn_calls ports" "sn_sha ports' = sn_sha ports"
  shows "\<exists>as'. scan_artifacts ports' w ds' = Inr as' \<and> length as' = length as"
proof -
  let ?prev = "\<lambda>p. previous_hash (map_of (index_decisions ds') (drift_key (sn_sha ports) w (relative_in w p)))"
  have g: "inspect_artifact ports' w ds' p =
      rmap (map_option (\<lambda>a. a\<lparr>ar_previous := ?prev p\<rparr>)) (inspect_artifact ports w ds p)" for p
    by (cases "fs_stat (sn_calls ports) p"; cases "node_read (sn_calls ports) p")
      (auto simp: inspect_artifact_def assms artifact_new_def option.map_comp comp_def split: option.split)
  obtain ps rs where ps: "fs_list (scan_list_options w) (sn_calls ports) w = Inr ps"
    and rs: "traverse (inspect_artifact ports w ds) (filter (\<lambda>p. interesting_name (relative_in w p)) ps) = Inr rs"
      "as = options_to_list rs"
    using assms by (auto simp: scan_artifacts_def elim!: rmap_InrE)
  obtain rs' where "traverse (inspect_artifact ports' w ds') (filter (\<lambda>p. interesting_name (relative_in w p)) ps) = Inr rs'"
    "length (options_to_list rs') = length (options_to_list rs)"
    using traverse_mapped [OF g rs(1)] by blast
  then show ?thesis using ps rs(2) by (simp add: scan_artifacts_def assms)
qed

text \<open>The rules over artifacts always return.\<close>

lemma artifact_scanner_rules: "artifact_scanner js = Inr reg \<Longrightarrow> rr_rules reg = artifact_rules js"
  by (auto simp: artifact_scanner_def rule_registry_of_def elim: rmap_InrE)

lemma artifact_scan_total:
  assumes "artifact_scanner js = Inr reg"
  shows "\<exists>report. engine_scan reg as switches = Inr report"
proof -
  note rules = artifact_scanner_rules [OF assms]
  have "is_ok (evaluate_all (enabled_rules reg switches) a)" for a
  proof (rule evaluate_all_ok)
    fix r assume "r \<in> set (enabled_rules reg switches)"
    then have "names_content r" using artifact_rules_sound by (auto simp: enabled_rules_def rules)
    then show "is_ok (evaluate_rule r a)" by (auto simp: names_content_def is_ok_iff)
  qed
  then have "\<exists>fs. evaluate_all (enabled_rules reg switches) a = Inr fs" for a by (simp add: is_ok_iff)
  then have "\<exists>fss. traverse (evaluate_all (enabled_rules reg switches)) as = Inr fss" by (rule traverse_total)
  then show ?thesis by (auto simp: engine_scan_def)
qed

section \<open>Scans on the JSON store\<close>

definition json_scan_ports ::
  "node_calls \<Rightarrow> sha \<Rightarrow> artifact rule_registry \<Rightarrow> rule_switches \<Rightarrow> int option \<Rightarrow> 'r store_env \<Rightarrow> 'r option scan_ports" where
  "json_scan_ports nd h reg switches now env =
     \<lparr>sn_calls = nd, sn_sha = h, sn_registry = reg, sn_switches = switches, sn_now = now,
      sn_all = decisions_all env, sn_record = decisions_record_many env\<rparr>"

lemma json_scan_ports_simps [simp]:
  "sn_calls (json_scan_ports nd h reg switches now env) = nd" "sn_sha (json_scan_ports nd h reg switches now env) = h"
  "sn_registry (json_scan_ports nd h reg switches now env) = reg"
  "sn_switches (json_scan_ports nd h reg switches now env) = switches"
  "sn_now (json_scan_ports nd h reg switches now env) = now"
  "sn_all (json_scan_ports nd h reg switches now env) = decisions_all env"
  "sn_record (json_scan_ports nd h reg switches now env) = decisions_record_many env"
  by (simp_all add: json_scan_ports_def)

lemma drift_storable: "sn_now ports \<noteq> None \<Longrightarrow> decision_storable (drift_record ports w a)"
  using not_array_index [of "CHR '':''" "drift_key (sn_sha ports) w (relative_path a)"]
  by (auto simp: decision_storable_def drift_record_def drift_key_def is_digit_def)

lemma dc_key_review: "dc_key (review_decision t f v) = decision_key f"
  by (simp add: review_decision_def)

lemma drift_rule_silent:
  "ar_previous a = Some (ar_hash a) \<Longrightarrow> evaluate_rule instruction_drift_rule a = Inr []"
  by (simp add: instruction_drift_rule_def Let_def mk_rule_def evaluate_rule_def)

lemma drift_rule_only:
  assumes "r \<in> set (artifact_rules js)" "rid_value (ru_id r) = ''AG-I003''"
  shows "r = instruction_drift_rule"
proof -
  have ids: "map (\<lambda>r. rid_value (ru_id r)) (artifact_rules js) =
      [''AG-H001'', ''AG-H002'', ''AG-H003'', ''AG-H004'', ''AG-H005'', ''AG-H006'', ''AG-E001'', ''AG-E002'',
       ''AG-E003'', ''AG-E004'', ''AG-E005'', ''AG-I001'', ''AG-I002'', ''AG-I003'', ''AG-C001'', ''AG-C002'',
       ''AG-C003'', ''AG-C004'', ''AG-C005'']" by code_simp
  obtain k where k: "k < length (artifact_rules js)" "r = artifact_rules js ! k" using assms(1) by (metis in_set_conv_nth)
  have n: "length (artifact_rules js) = 19" using arg_cong [OF ids, of length] by simp
  have "map (\<lambda>r. rid_value (ru_id r)) (artifact_rules js) ! k = ''AG-I003''" using k assms(2) by simp
  then have "k = 13" using k(1) unfolding ids n by (simp add: less_Suc_eq eval_nat_numeral) auto
  then show ?thesis using k(2) by (simp add: artifact_rules_def)
qed

section \<open>A sample repository\<close>

definition sample_repo :: node_calls where
  "sample_repo =
     \<lparr>nd_stat = (\<lambda>_. Inr (False, 70)),
      nd_readdir = (\<lambda>p. if ap_value p = ''/w'' then Inr [(''.claude'', DirectoryEntry)]
         else if ap_value p = ''/w/.claude'' then Inr [(''settings.json'', FileEntry)] else Inl NotThere),
      nd_read = (\<lambda>p. if ap_value p = ''/w/.claude/settings.json''
         then Inr ''{\"hooks\":{\"Stop\":[]},\"env\":{\"ANTHROPIC_BASE_URL\":\"x\"}}'' else Inl NotThere)\<rparr>"

definition sample_js :: js_json where
  "sample_js =
     \<lparr>ja_parse = (\<lambda>_. Some (JObject [(''hooks'', JObject [(''Stop'', JArray [])])])), ja_text = (\<lambda>_. []), ja_print = (\<lambda>_. [])\<rparr>"

definition sample_artifact_registry :: "artifact rule_registry" where
  "sample_artifact_registry = \<lparr>rr_rules = artifact_rules sample_js\<rparr>"

definition sample_scan :: "json option \<Rightarrow> scan_result res \<times> json option" where
  "sample_scan = scan_workspace (json_scan_ports sample_repo zero_sha sample_artifact_registry (\<lambda>_. True) (Some 5) sample_env) (mk_posix [''w''])"

lemma sample_artifact_registry_ok: "artifact_scanner sample_js = Inr sample_artifact_registry"
proof -
  have "check_unique_rules {} (artifact_rules sample_js) = Inr ()" by code_simp
  then show ?thesis by (simp add: artifact_scanner_def rule_registry_of_def sample_artifact_registry_def)
qed

lemma sample_names: "segment_names sample_repo"
proof -
  have "entry_name_ok ''.claude'' \<and> entry_name_ok ''settings.json''" by code_simp
  then show ?thesis by (auto simp: segment_names_def sample_repo_def split: if_splits)
qed

lemma sample_workspace: "workspace_ok (mk_posix [''w''])"
  by code_simp

lemma sample_first_scan:
  obtains out file' where "sample_scan None = (Inr out, file')" "sx_inspected out = 1" "file' \<noteq> None"
    and "map (\<lambda>f. (rid_value (fd_rule f), fd_disposition f)) (rp_findings (sx_report out)) = [(''AG-E004'', Block), (''AG-H001'', Ask)]"
proof -
  have c: "rmap (\<lambda>x. (sx_inspected x, map (\<lambda>f. (rid_value (fd_rule f), fd_disposition f)) (rp_findings (sx_report x))))
      (fst (sample_scan None)) = Inr (1, [(''AG-E004'', Block), (''AG-H001'', Ask)]) \<and> snd (sample_scan None) \<noteq> None" by code_simp
  obtain r file' where run: "sample_scan None = (r, file')" by (cases "sample_scan None")
  then show ?thesis using c that by (cases r) auto
qed

definition sample_settings :: artifact where
  "sample_settings =
     artifact_new zero_sha (mk_posix [''w'', ''.claude'', ''settings.json'']) (mk_posix [''w''])
       ''{\"hooks\":{\"Stop\":[]},\"env\":{\"ANTHROPIC_BASE_URL\":\"x\"}}'' None"

section \<open>Properties\<close>

text \<open>C9: A scan that returns has read every file below the workspace whose name it is after, and
  its report holds exactly the findings that an enabled rule makes of one of them, less those
  whose decision key was last decided with \<open>allow\<close>. A listing that hits its limits, an oversized
  file and a file that cannot be read make the scan fail instead.\<close>

theorem scan_inspects_everything:
  assumes "scan_workspace ports w store = (Inr out, store')" "sn_all ports store = Inr ds"
  shows "f \<in> set (rp_findings (sx_report out)) \<longleftrightarrow>
    (\<exists>p t r gs. candidate (sn_calls ports) w p \<and> node_read (sn_calls ports) p = Inr (Some t) \<and>
       r \<in> set (enabled_rules (sn_registry ports) (sn_switches ports)) \<and>
       evaluate_rule r (artifact_of ports w ds p t) = Inr gs \<and> f \<in> set gs) \<and>
    \<not> (\<exists>d. latest (decision_key f) ds = Some d \<and> dc_verdict d = Allow)"
proof -
  obtain as report where s: "scan_artifacts ports w ds = Inr as"
    "engine_scan (sn_registry ports) as (sn_switches ports) = Inr report" "sx_report out = apply_decisions report ds"
    using scan_stages [OF assms(1)] assms(2) by (metis sum.inject(2))
  show ?thesis unfolding s(3) kept_findings scan_set [OF s(2)] by (metis scanned_artifacts [OF s(1)])
qed

lemma scan_inspects_everything_witness:
  "\<exists>out file' f t p gs. sample_scan None = (Inr out, file') \<and> f \<in> set (rp_findings (sx_report out)) \<and> fd_disposition f = Block \<and>
     candidate sample_repo (mk_posix [''w'']) p \<and> node_read sample_repo p = Inr (Some t) \<and> f \<in> set gs"
proof -
  obtain out file' where run: "sample_scan None = (Inr out, file')"
    and fs: "map (\<lambda>f. (rid_value (fd_rule f), fd_disposition f)) (rp_findings (sx_report out)) =
      [(''AG-E004'', Block), (''AG-H001'', Ask)]" by (rule sample_first_scan)
  then obtain f g where "rp_findings (sx_report out) = [f, g]" "fd_disposition f = Block" by (auto simp: map_eq_Cons_conv)
  then have f: "f \<in> set (rp_findings (sx_report out))" "fd_disposition f = Block" by simp_all
  obtain ds where ds: "decisions_all sample_env None = Inr ds"
    using json_decisions.find_all [OF sample_env_ok no_file_is_readable] by blast
  from f(1) [unfolded scan_inspects_everything [OF run [unfolded sample_scan_def], unfolded json_scan_ports_simps, OF ds]]
  show ?thesis using run f by blast
qed

text \<open>C24: Scanning an unchanged repository again returns, inspects as many files, leaves the
  decision store as it is and reports no instruction file as changed, however the first scan
  found the store.\<close>

theorem rescan_is_quiet:
  assumes "env_ok env" "decisions_readable env file" "sha_ok h" "now \<noteq> None"
    and "segment_names nd" "workspace_ok w" "artifact_scanner js = Inr reg"
    and "scan_workspace (json_scan_ports nd h reg switches now env) w file = (Inr out, file')"
  shows "\<exists>again. scan_workspace (json_scan_ports nd h reg switches now' env) w file' = (Inr again, file') \<and>
    sx_inspected again = sx_inspected out \<and>
    \<not> (\<exists>f \<in> set (rp_findings (sx_report again)). rid_value (fd_rule f) = ''AG-I003'')"
proof -
  let ?first = "json_scan_ports nd h reg switches now env" and ?second = "json_scan_ports nd h reg switches now' env"
  obtain ds as where s: "decisions_all env file = Inr ds" "scan_artifacts ?first w ds = Inr as"
    "sx_inspected out = length as" "record_hashes ?first w as file = Inr file'"
    using scan_stages [OF assms(8)] by (metis json_scan_ports_simps(6))
  have each: "decision_storable (drift_record ?first w a) \<and> hash_parse (hash_to_string (ar_hash a)) = Inr (ar_hash a) \<and>
      ar_previous a = previous_hash (latest (drift_key (sn_sha ?first) w (relative_path a)) ds)" if a: "a \<in> set as" for a
  proof -
    obtain p t where p: "candidate nd w p" "a = artifact_of ?first w ds p t"
      using scanned_artifacts [OF s(2)] a by auto
    then show ?thesis
      using drift_storable [of ?first] hash_roundtrip [OF assms(3)] candidate_relative [OF p(1), of ?first ds t] assms(4) by simp
  qed
  obtain ds' where ds': "decisions_all env file' = Inr ds'"
    "\<And>a. a \<in> set as \<Longrightarrow> previous_hash (latest (drift_key h w (relative_path a)) ds') = Some (ar_hash a)"
    using json_decisions.drift_recorded [OF assms(1,2) s(1) _ s(4) artifacts_one_per_path [OF s(2)] each] assms(5,6) by auto
  obtain as' where as': "scan_artifacts ?second w ds' = Inr as'" "length as' = length as"
    using artifacts_again [OF s(2), of ?second ds'] by auto
  have known: "ar_previous a = Some (ar_hash a)" if a: "a \<in> set as'" for a
  proof -
    obtain p t where p: "candidate nd w p" "node_read nd p = Inr (Some t)" "a = artifact_of ?second w ds' p t"
      using scanned_artifacts [OF as'(1)] a by auto
    have "artifact_of ?first w ds p t \<in> set as" using scanned_artifacts [OF s(2)] p by auto
    from ds'(2) [OF this] show ?thesis using p by (simp add: candidate_relative)
  qed
  obtain report where rep: "engine_scan reg as' switches = Inr report"
    using artifact_scan_total [OF assms(7)] by blast
  have "filter has_drifted as' = []" using known by (auto simp: has_drifted_def filter_empty_conv)
  then have run: "scan_workspace ?second w file' =
      (Inr \<lparr>sx_report = apply_decisions report ds', sx_inspected = length as'\<rparr>, file')"
    by (simp add: scan_workspace_def ds'(1) as'(1) rep record_hashes_def)
  have "rid_value (fd_rule f) \<noteq> ''AG-I003''" if f: "f \<in> set (rp_findings report)" for f
  proof
    assume three: "rid_value (fd_rule f) = ''AG-I003''"
    obtain a r gs where r: "a \<in> set as'" "r \<in> set (enabled_rules reg switches)" "evaluate_rule r a = Inr gs" "f \<in> set gs"
      using f scan_set [OF rep] by blast
    then have mine: "r \<in> set (artifact_rules js)" using artifact_scanner_rules [OF assms(7)] by (auto simp: enabled_rules_def)
    then have "ru_id r = fd_rule f" using names_contentD(1) [OF artifact_rules_sound [OF mine] r(3,4)] by simp
    then have "r = instruction_drift_rule" using drift_rule_only [OF mine] three by simp
    then show False using drift_rule_silent known r by fastforce
  qed
  then show ?thesis using run as'(2) s(3) kept_findings by fastforce
qed

lemma rescan_is_quiet_witness:
  "\<exists>out file' again. sample_scan None = (Inr out, file') \<and> file' \<noteq> None \<and>
     sample_scan file' = (Inr again, file') \<and> sx_inspected again = 1"
proof -
  obtain out file' where run: "sample_scan None = (Inr out, file')" "sx_inspected out = 1" "file' \<noteq> None"
    by (rule sample_first_scan)
  from rescan_is_quiet [OF sample_env_ok no_file_is_readable zero_sha_ok _ sample_names sample_workspace sample_artifact_registry_ok
      run(1) [unfolded sample_scan_def], of "Some 5"]
  show ?thesis using run unfolding sample_scan_def by auto
qed

text \<open>C37: Recording \<open>allow\<close> for one finding of a file takes every finding with the same content
  out of later reports, the blocking ones of other rules included: the decision key of a finding
  about a file is the hash of the content and nothing else.\<close>

theorem approval_hides_the_file:
  assumes "env_ok env" "decisions_readable env file" "t \<noteq> None"
    and "r \<in> set (artifact_rules js)" "evaluate_rule r a = Inr gs" "f \<in> set gs"
    and "decisions_record env (review_decision t f Allow) file = Inr file'"
    and "scan_workspace (json_scan_ports nd h reg switches now env) w file' = (Inr out, file'')"
  shows "\<not> (\<exists>g \<in> set (rp_findings (sx_report out)). fd_hash g = Some (ar_hash a))"
proof
  let ?d = "review_decision t f Allow"
  have key: "decision_key f = hash_to_string (ar_hash a)"
    using names_contentD(2) [OF artifact_rules_sound [OF assms(4)] assms(5,6)] by (simp add: decision_key_def)
  have "decision_storable ?d" using review_decision_storable assms(3) by simp
  then obtain ds where ds: "decisions_all env file' = Inr ds" "latest (hash_to_string (ar_hash a)) ds = Some ?d"
    using json_decisions.recorded_latest [OF assms(1,2)] assms(7) key unfolding decisions_record_def
    by (metis dc_key_review)
  obtain report where rep: "sx_report out = apply_decisions report ds"
    using scan_stages [OF assms(8)] ds(1) by (metis json_scan_ports_simps(6) sum.inject(2))
  assume "\<exists>g \<in> set (rp_findings (sx_report out)). fd_hash g = Some (ar_hash a)"
  then obtain g where g: "g \<in> set (rp_findings (apply_decisions report ds))" "fd_hash g = Some (ar_hash a)"
    unfolding rep by blast
  have "decision_key g = hash_to_string (ar_hash a)" using g(2) by (simp add: decision_key_def)
  then show False using g(1) ds(2) unfolding kept_findings by (auto simp: review_decision_def)
qed

text \<open>The approved finding is the hook; the redirected endpoint, which blocks, is gone with it.\<close>

lemma approval_hides_the_file_witness:
  "\<exists>fs gs file' out file''. evaluate_rule (repository_hook_rule sample_js) sample_settings = Inr fs \<and> fs \<noteq> [] \<and>
     decisions_record sample_env (review_decision (Some 5) (hd fs) Allow) None = Inr file' \<and>
     sample_scan file' = (Inr out, file'') \<and>
     evaluate_rule endpoint_override_rule sample_settings = Inr gs \<and> map fd_disposition gs = [Block] \<and>
     \<not> (\<exists>g \<in> set (rp_findings (sx_report out)). fd_hash g = fd_hash (hd gs))"
proof -
  have e: "rmap (\<lambda>fs. fs \<noteq> []) (evaluate_rule (repository_hook_rule sample_js) sample_settings) = Inr True \<and>
      rmap (map (\<lambda>g. (fd_disposition g, fd_hash g = Some (ar_hash sample_settings))))
        (evaluate_rule endpoint_override_rule sample_settings) = Inr [(Block, True)]" by code_simp
  then obtain fs gs where fs: "evaluate_rule (repository_hook_rule sample_js) sample_settings = Inr fs" "fs \<noteq> []"
    and gs: "evaluate_rule endpoint_override_rule sample_settings = Inr gs"
      "map (\<lambda>g. (fd_disposition g, fd_hash g = Some (ar_hash sample_settings))) gs = [(Block, True)]"
    by (auto elim!: rmap_InrE)
  have "is_ok (rbind (evaluate_rule (repository_hook_rule sample_js) sample_settings) (\<lambda>fs.
      rbind (decisions_record sample_env (review_decision (Some 5) (hd fs) Allow) None) (\<lambda>file. fst (sample_scan file))))"
    by code_simp
  then obtain file' out where run: "decisions_record sample_env (review_decision (Some 5) (hd fs) Allow) None = Inr file'"
    "fst (sample_scan file') = Inr out" using fs(1) by (auto simp: is_ok_iff)
  then obtain file'' where scan: "sample_scan file' = (Inr out, file'')" by (cases "sample_scan file'") simp
  have mine: "repository_hook_rule sample_js \<in> set (artifact_rules sample_js)" by (simp add: artifact_rules_def)
  have "hd fs \<in> set fs" using fs(2) by simp
  from approval_hides_the_file [OF sample_env_ok no_file_is_readable _ mine fs(1) this run(1) scan [unfolded sample_scan_def]]
  show ?thesis using fs gs run scan by (auto simp: map_eq_Cons_conv)
qed

text \<open>The scan never reads files that its own rules are about: \<open>mise.toml\<close> and
  \<open>.tool-versions\<close>, which may redirect the endpoint, and the instruction files of a
  subdirectory.\<close>

theorem rule_files_never_read:
  "{p. candidate nd w p \<and> relative_in w p \<in> {''mise.toml'', ''.tool-versions'', ''docs/CLAUDE.md'', ''docs/AGENTS.md''}} = {} \<and>
   match_relative ''mise.toml'' ''mise.toml'' \<and> match_relative ''.tool-versions'' ''.tool-versions'' \<and>
   list_ex (\<lambda>p. match_relative p ''docs/CLAUDE.md'') instruction_files \<and>
   list_ex (\<lambda>p. match_relative p ''docs/AGENTS.md'') instruction_files"
proof -
  have plain: "\<not> interesting_name ''mise.toml'' \<and> \<not> interesting_name ''.tool-versions'' \<and>
    \<not> interesting_name ''docs/CLAUDE.md'' \<and> \<not> interesting_name ''docs/AGENTS.md''" by code_simp
  have "{p. candidate nd w p \<and> relative_in w p \<in> {''mise.toml'', ''.tool-versions'', ''docs/CLAUDE.md'', ''docs/AGENTS.md''}} = {}"
    using plain candidate_interesting by fastforce
  moreover have "match_relative ''mise.toml'' ''mise.toml'' \<and> match_relative ''.tool-versions'' ''.tool-versions'' \<and>
   list_ex (\<lambda>p. match_relative p ''docs/CLAUDE.md'') instruction_files \<and>
   list_ex (\<lambda>p. match_relative p ''docs/AGENTS.md'') instruction_files" by code_simp
  ultimately show ?thesis by blast
qed

text \<open>A word of the hidden instruction rule is cut short and so never found in full.\<close>

lemma cut_word_never_matches:
  "\<not> has_word [''exfiltrat''] ''exfiltrate'' \<and> \<not> has_word [''exfiltrat''] ''exfiltration''" by code_simp

end
