(* ===== verification/JsonSpan.thy ===== *)
theory JsonSpan
  imports Artifact
begin

text \<open>
  The end of \<open>src/infrastructure/install/ManagedInstallation.ts\<close>: the parser that finds where a
  JSON text has its objects and arrays, and the insertion of the managed hook into the settings
  of an agent. \<open>JSON.parse\<close> and the two forms of \<open>JSON.stringify\<close> are parameters. The recursion
  carries a bound of its depth; the lemmas show that twice the length of the text is enough, and
  that an insertion keeps every character of the text.
\<close>

record json_codec =
  jc_parse :: "string \<Rightarrow> json option"
  jc_fault :: "string \<Rightarrow> string"
  jc_compact :: "json \<Rightarrow> string"
  jc_pretty :: "json \<Rightarrow> string"

section \<open>Spans\<close>

datatype json_span =
    ObjectSpan nat nat "(string \<times> json_span) list"
  | ArraySpan nat nat "json_span list"
  | ScalarSpan nat nat

datatype span_error = SpanMessage string | SpanFuel

type_synonym 'a spanned = "span_error + 'a \<times> nat \<times> string"

text \<open>The parser's \<open>offset\<close> with the text that is left there.\<close>

definition span_white :: "nat \<Rightarrow> string \<Rightarrow> nat \<times> string" where
  "span_white at s = (at + length (takeWhile is_space s), dropWhile is_space s)"

definition span_expect :: "json_codec \<Rightarrow> char \<Rightarrow> nat \<Rightarrow> string \<Rightarrow> span_error + nat \<times> string" where
  "span_expect jc token at s =
     (if starts_with s [token] then Inr (at + 1, drop 1 s)
      else Inl (SpanMessage (''expected '' @ jc_compact jc (JString [token]) @ '' at byte '' @ show_nat at)))"

text \<open>The length of a string token after its opening quote.\<close>

fun string_end :: "string \<Rightarrow> nat option" where
  "string_end [] = None"
| "string_end (c # cs) =
     (if c = CHR 0x22 then Some 1
      else if c = CHR 0x5C then (case cs of [] \<Rightarrow> None | d # ds \<Rightarrow> map_option (\<lambda>n. n + 2) (string_end ds))
      else map_option Suc (string_end cs))"

definition span_string :: "json_codec \<Rightarrow> nat \<Rightarrow> string \<Rightarrow> string spanned" where
  "span_string jc at s =
     (case span_expect jc (CHR 0x22) at s of
        Inl e \<Rightarrow> Inl e
      | Inr (at1, s1) \<Rightarrow>
          (case string_end s1 of
             None \<Rightarrow> Inl (SpanMessage ''unterminated string'')
           | Some n \<Rightarrow>
               (case jc_parse jc (take (n + 1) s) of
                  Some (JString key) \<Rightarrow> Inr (key, at1 + n, drop n s1)
                | _ \<Rightarrow> Inl (SpanMessage (jc_fault jc (take (n + 1) s))))))"

definition span_token :: "json_codec \<Rightarrow> nat \<Rightarrow> string \<Rightarrow> json_span spanned" where
  "span_token jc at s =
     (let t = takeWhile (\<lambda>c. \<not> (is_space c \<or> c \<in> {CHR '','', CHR ''}'', CHR '']''})) s
      in if length t = 0 then Inl (SpanMessage (''unexpected token at byte '' @ show_nat at))
         else case jc_parse jc t of
                None \<Rightarrow> Inl (SpanMessage (jc_fault jc t))
              | Some _ \<Rightarrow> Inr (ScalarSpan at (at + length t), at + length t, drop (length t) s))"

text \<open>The three methods that call each other, each with what it recurses to as an argument.\<close>

datatype span_task =
    ValueTask nat string
  | MembersTask nat "(string \<times> json_span) list" nat string
  | ItemsTask nat "json_span list" nat string

definition span_value ::
  "json_codec \<Rightarrow> (span_task \<Rightarrow> json_span spanned) \<Rightarrow> nat \<Rightarrow> string \<Rightarrow> json_span spanned" where
  "span_value jc rec at0 s0 =
     (case span_white at0 s0 of
        (at, s) \<Rightarrow>
          if starts_with s ''{'' then
            (case span_white (at + 1) (drop 1 s) of
               (at1, s1) \<Rightarrow>
                 if starts_with s1 ''}'' then Inr (ObjectSpan at (at1 + 1) [], at1 + 1, drop 1 s1)
                 else rec (MembersTask at [] at1 s1))
          else if starts_with s ''['' then
            (case span_white (at + 1) (drop 1 s) of
               (at1, s1) \<Rightarrow>
                 if starts_with s1 '']'' then Inr (ArraySpan at (at1 + 1) [], at1 + 1, drop 1 s1)
                 else rec (ItemsTask at [] at1 s1))
          else if starts_with s [CHR 0x22] then
            (case span_string jc at s of
               Inl e \<Rightarrow> Inl e
             | Inr (_, at1, s1) \<Rightarrow> Inr (ScalarSpan at at1, at1, s1))
          else span_token jc at s)"

definition span_members ::
  "json_codec \<Rightarrow> (span_task \<Rightarrow> json_span spanned) \<Rightarrow> nat \<Rightarrow> (string \<times> json_span) list \<Rightarrow> nat \<Rightarrow> string \<Rightarrow> json_span spanned"
where
  "span_members jc rec start props at0 s0 =
     (if s0 = [] then Inl (SpanMessage ''unterminated object'')
      else case span_white at0 s0 of
        (at, s) \<Rightarrow>
          (case span_string jc at s of
             Inl e \<Rightarrow> Inl e
           | Inr (key, at1, s1) \<Rightarrow>
               (case span_white at1 s1 of
                  (at2, s2) \<Rightarrow>
                    (case span_expect jc (CHR '':'') at2 s2 of
                       Inl e \<Rightarrow> Inl e
                     | Inr (at3, s3) \<Rightarrow>
                         (case rec (ValueTask at3 s3) of
                            Inl e \<Rightarrow> Inl e
                          | Inr (v, at4, s4) \<Rightarrow>
                              (case span_white at4 s4 of
                                 (at5, s5) \<Rightarrow>
                                   if starts_with s5 ''}''
                                   then Inr (ObjectSpan start (at5 + 1) (props @ [(key, v)]), at5 + 1, drop 1 s5)
                                   else (case span_expect jc (CHR '','') at5 s5 of
                                           Inl e \<Rightarrow> Inl e
                                         | Inr (at6, s6) \<Rightarrow> rec (MembersTask start (props @ [(key, v)]) at6 s6))))))))"

definition span_items ::
  "json_codec \<Rightarrow> (span_task \<Rightarrow> json_span spanned) \<Rightarrow> nat \<Rightarrow> json_span list \<Rightarrow> nat \<Rightarrow> string \<Rightarrow> json_span spanned" where
  "span_items jc rec start items at0 s0 =
     (if s0 = [] then Inl (SpanMessage ''unterminated array'')
      else case rec (ValueTask at0 s0) of
             Inl e \<Rightarrow> Inl e
           | Inr (v, at1, s1) \<Rightarrow>
               (case span_white at1 s1 of
                  (at2, s2) \<Rightarrow>
                    if starts_with s2 '']''
                    then Inr (ArraySpan start (at2 + 1) (items @ [v]), at2 + 1, drop 1 s2)
                    else (case span_expect jc (CHR '','') at2 s2 of
                            Inl e \<Rightarrow> Inl e
                          | Inr (at3, s3) \<Rightarrow> rec (ItemsTask start (items @ [v]) at3 s3))))"

primrec span_run :: "json_codec \<Rightarrow> nat \<Rightarrow> span_task \<Rightarrow> json_span spanned" where
  "span_run jc 0 task = Inl SpanFuel"
| "span_run jc (Suc n) task =
     (case task of
        ValueTask at s \<Rightarrow> span_value jc (span_run jc n) at s
      | MembersTask start props at s \<Rightarrow> span_members jc (span_run jc n) start props at s
      | ItemsTask start items at s \<Rightarrow> span_items jc (span_run jc n) start items at s)"

definition span_parse :: "json_codec \<Rightarrow> string \<Rightarrow> span_error + json_span" where
  "span_parse jc source =
     (case span_run jc (2 * length source + 1) (ValueTask 0 source) of
        Inl e \<Rightarrow> Inl e
      | Inr (root, at, s) \<Rightarrow>
          if snd (span_white at s) \<noteq> [] then Inl (SpanMessage ''unexpected data after the root value'') else Inr root)"

section \<open>The insertion\<close>

definition insert_at :: "string \<Rightarrow> nat \<Rightarrow> string \<Rightarrow> string" where
  "insert_at source offset addition = take offset source @ addition @ drop offset source"

definition comma :: "'a list \<Rightarrow> string" where
  "comma xs = (if length xs = 0 then [] else '','')"

text \<open>The properties of one key; more than one is an error.\<close>

definition only_property :: "string \<Rightarrow> string \<Rightarrow> (string \<times> json_span) list \<Rightarrow> span_error + json_span option" where
  "only_property key what props =
     (case filter (\<lambda>p. fst p = key) props of
        [] \<Rightarrow> Inr None
      | [p] \<Rightarrow> Inr (Some (snd p))
      | _ \<Rightarrow> Inl (SpanMessage (''duplicate '' @ what @ '' properties are ambiguous'')))"

definition insert_claude_hook :: "json_codec \<Rightarrow> string \<Rightarrow> json \<Rightarrow> span_error + string" where
  "insert_claude_hook jc raw hook =
     (let text = jc_compact jc hook
      in case span_parse jc raw of
           Inl e \<Rightarrow> Inl e
         | Inr (ObjectSpan start final props) \<Rightarrow>
             (case only_property ''hooks'' ''hooks'' props of
                Inl e \<Rightarrow> Inl e
              | Inr None \<Rightarrow> Inr (insert_at raw (final - 1) (comma props @ ''\"hooks\":{\"PreToolUse\":['' @ text @ '']}''))
              | Inr (Some (ObjectSpan hs hf hprops)) \<Rightarrow>
                  (case only_property ''PreToolUse'' ''PreToolUse'' hprops of
                     Inl e \<Rightarrow> Inl e
                   | Inr None \<Rightarrow> Inr (insert_at raw (hf - 1) (comma hprops @ ''\"PreToolUse\":['' @ text @ '']''))
                   | Inr (Some (ArraySpan ps pf items)) \<Rightarrow> Inr (insert_at raw (pf - 1) (comma items @ text))
                   | Inr (Some _) \<Rightarrow> Inl (SpanMessage ''PreToolUse is not an array''))
              | Inr (Some _) \<Rightarrow> Inl (SpanMessage ''hooks is not an object''))
         | Inr _ \<Rightarrow> Inl (SpanMessage ''root is not an object''))"

section \<open>Lemmas\<close>

text \<open>Everything that is read is consumed, so the bound of the recursion is never met.\<close>

lemma white_shorter: "span_white at s = (at', s') \<Longrightarrow> length s' \<le> length s"
  by (auto simp: span_white_def length_dropWhile_le)

lemma expect_shorter: "span_expect jc c at s = Inr (at', s') \<Longrightarrow> length s' < length s"
  by (cases s) (auto simp: span_expect_def split: if_splits)

lemma expect_fuel: "span_expect jc c at s \<noteq> Inl SpanFuel"
  by (simp add: span_expect_def)

lemma string_shorter: "span_string jc at s = Inr (k, at', s') \<Longrightarrow> length s' < length s"
  by (auto simp: span_string_def dest!: expect_shorter split: sum.splits option.splits json.splits prod.splits)

lemma string_fuel: "span_string jc at s \<noteq> Inl SpanFuel"
  using expect_fuel by (auto simp: span_string_def split: sum.splits option.splits json.splits)

lemma token_shorter: "span_token jc at s = Inr (v, at', s') \<Longrightarrow> length s' < length s"
  by (cases s) (auto simp: span_token_def Let_def split: if_splits option.splits)

lemma token_fuel: "span_token jc at s \<noteq> Inl SpanFuel"
  by (simp add: span_token_def Let_def split: option.split)

fun task_text :: "span_task \<Rightarrow> string" where
  "task_text (ValueTask at s) = s"
| "task_text (MembersTask start props at s) = s"
| "task_text (ItemsTask start items at s) = s"

fun task_need :: "span_task \<Rightarrow> nat" where
  "task_need (ValueTask at s) = 2 * length s"
| "task_need (MembersTask start props at s) = 2 * length s + 1"
| "task_need (ItemsTask start items at s) = 2 * length s + 1"

definition shrinks :: "nat \<Rightarrow> 'a spanned \<Rightarrow> bool" where
  "shrinks k r \<longleftrightarrow> r \<noteq> Inl SpanFuel \<and> (\<forall>v at s. r = Inr (v, at, s) \<longrightarrow> length s < k)"

lemma shrinks_simps [simp]:
  "shrinks k (Inr (v, at, s)) = (length s < k)" "shrinks k (Inl (SpanMessage m))"
  by (simp_all add: shrinks_def)

lemma shrinks_mono: "shrinks k r \<Longrightarrow> k \<le> m \<Longrightarrow> shrinks m r"
  by (auto simp: shrinks_def)

lemma string_shrinks: "shrinks (length s) (span_string jc at s)"
  unfolding shrinks_def using string_fuel string_shorter by blast

lemma token_shrinks: "shrinks (length s) (span_token jc at s)"
  unfolding shrinks_def using token_fuel token_shorter by blast

lemma value_shrinks:
  assumes rec: "\<And>t. task_need t < 2 * length s0 \<Longrightarrow> shrinks (length (task_text t)) (rec t)"
  shows "shrinks (length s0) (span_value jc rec at0 s0)"
proof -
  obtain at s where w: "span_white at0 s0 = (at, s)" by (cases "span_white at0 s0")
  note len = white_shorter [OF w]
  obtain at1 s1 where w1: "span_white (at + 1) (drop 1 s) = (at1, s1)" by (cases "span_white (at + 1) (drop 1 s)")
  have inner: "length s1 < length s0" if "s \<noteq> []" using white_shorter [OF w1] len that by (cases s) auto
  consider (object) "starts_with s ''{''" | (array) "\<not> starts_with s ''{''" "starts_with s ''[''"
    | (strings) "\<not> starts_with s ''{''" "\<not> starts_with s ''[''" "starts_with s [CHR 0x22]"
    | (token) "\<not> starts_with s ''{''" "\<not> starts_with s ''[''" "\<not> starts_with s [CHR 0x22]" by blast
  then show ?thesis
  proof cases
    case object
    then have s1: "length s1 < length s0" by (intro inner) auto
    then have "shrinks (length s0) (rec (MembersTask at [] at1 s1))"
      using rec [of "MembersTask at [] at1 s1"] shrinks_mono by fastforce
    then show ?thesis using object s1 unfolding span_value_def w by (auto simp: w1 [simplified])
  next
    case array
    then have s1: "length s1 < length s0" by (intro inner) auto
    then have "shrinks (length s0) (rec (ItemsTask at [] at1 s1))"
      using rec [of "ItemsTask at [] at1 s1"] shrinks_mono by fastforce
    then show ?thesis using array s1 unfolding span_value_def w by (auto simp: w1 [simplified])
  next
    case strings
    have "shrinks (length s0) (span_string jc at s)" using string_shrinks shrinks_mono len by blast
    then show ?thesis using strings unfolding span_value_def w
      by (cases "span_string jc at s") (auto simp: shrinks_def)
  next
    case token
    have "shrinks (length s0) (span_token jc at s)" using token_shrinks shrinks_mono len by blast
    then show ?thesis using token unfolding span_value_def w by simp
  qed
qed

lemma members_shrinks:
  assumes rec: "\<And>t. task_need t < 2 * length s0 + 1 \<Longrightarrow> shrinks (length (task_text t)) (rec t)"
  shows "shrinks (length s0) (span_members jc rec start props at0 s0)"
proof (rule ccontr)
  assume no: "\<not> ?thesis"
  obtain at s where w: "span_white at0 s0 = (at, s)" by (cases "span_white at0 s0")
  obtain k at1 s1 where k: "span_string jc at s = Inr (k, at1, s1)"
    using no string_fuel [of jc at s] unfolding span_members_def w
    by (cases "span_string jc at s") (auto simp: shrinks_def split: if_splits)
  obtain at2 s2 where w2: "span_white at1 s1 = (at2, s2)" by (cases "span_white at1 s1")
  obtain at3 s3 where c: "span_expect jc (CHR '':'') at2 s2 = Inr (at3, s3)"
    using no expect_fuel [of jc "CHR '':''" at2 s2] unfolding span_members_def w
    by (cases "span_expect jc (CHR '':'') at2 s2") (auto simp: shrinks_def k w2 split: if_splits)
  have s3: "length s3 < length s0"
    using white_shorter [OF w] white_shorter [OF w2] string_shorter [OF k] expect_shorter [OF c] by simp
  have rv: "shrinks (length s3) (rec (ValueTask at3 s3))" using rec [of "ValueTask at3 s3"] s3 by simp
  obtain v at4 s4 where v: "rec (ValueTask at3 s3) = Inr (v, at4, s4)"
    using no rv unfolding span_members_def w
    by (cases "rec (ValueTask at3 s3)") (auto simp: shrinks_def k w2 c split: if_splits)
  obtain at5 s5 where w5: "span_white at4 s4 = (at5, s5)" by (cases "span_white at4 s4")
  have s5: "length s5 < length s0" using white_shorter [OF w5] rv v s3 by simp
  obtain at6 s6 where d: "span_expect jc (CHR '','') at5 s5 = Inr (at6, s6)"
    using no s5 expect_fuel [of jc "CHR '',''" at5 s5] unfolding span_members_def w
    by (cases "span_expect jc (CHR '','') at5 s5") (auto simp: shrinks_def k w2 c v w5 split: if_splits)
  have s6: "length s6 < length s0" using expect_shorter [OF d] s5 by simp
  then have "shrinks (length s0) (rec (MembersTask start (props @ [(k, v)]) at6 s6))"
    using rec [of "MembersTask start (props @ [(k, v)]) at6 s6"] shrinks_mono by fastforce
  then show False using no s5 unfolding span_members_def w by (simp add: k w2 c v w5 d split: if_splits)
qed

lemma items_shrinks:
  assumes rec: "\<And>t. task_need t < 2 * length s0 + 1 \<Longrightarrow> shrinks (length (task_text t)) (rec t)"
  shows "shrinks (length s0) (span_items jc rec start items at0 s0)"
proof (rule ccontr)
  assume no: "\<not> ?thesis"
  have rv: "shrinks (length s0) (rec (ValueTask at0 s0))" using rec [of "ValueTask at0 s0"] by simp
  obtain v at1 s1 where v: "rec (ValueTask at0 s0) = Inr (v, at1, s1)"
    using no rv unfolding span_items_def
    by (cases "rec (ValueTask at0 s0)") (auto simp: shrinks_def split: if_splits)
  obtain at2 s2 where w: "span_white at1 s1 = (at2, s2)" by (cases "span_white at1 s1")
  have s2: "length s2 < length s0" using white_shorter [OF w] rv v by simp
  obtain at3 s3 where d: "span_expect jc (CHR '','') at2 s2 = Inr (at3, s3)"
    using no s2 expect_fuel [of jc "CHR '',''" at2 s2] unfolding span_items_def
    by (cases "span_expect jc (CHR '','') at2 s2") (auto simp: shrinks_def v w split: if_splits)
  have s3: "length s3 < length s0" using expect_shorter [OF d] s2 by simp
  then have "shrinks (length s0) (rec (ItemsTask start (items @ [v]) at3 s3))"
    using rec [of "ItemsTask start (items @ [v]) at3 s3"] shrinks_mono by fastforce
  then show False using no s2 unfolding span_items_def by (simp add: v w d split: if_splits)
qed

lemma run_shrinks: "task_need task < n \<Longrightarrow> shrinks (length (task_text task)) (span_run jc n task)"
proof (induction n arbitrary: task)
  case (Suc n)
  have rec: "task_need t < k \<Longrightarrow> k \<le> n \<Longrightarrow> shrinks (length (task_text t)) (span_run jc n t)" for t k
    using Suc.IH by simp
  show ?case
  proof (cases task)
    case (ValueTask at s)
    then show ?thesis using value_shrinks [OF rec] Suc.prems by simp
  next
    case (MembersTask start props at s)
    then show ?thesis using members_shrinks [OF rec] Suc.prems by simp
  next
    case (ItemsTask start items at s)
    then show ?thesis using items_shrinks [OF rec] Suc.prems by simp
  qed
qed simp

lemma span_parse_total: "span_parse jc source \<noteq> Inl SpanFuel"
proof -
  have "shrinks (length source) (span_run jc (2 * length source + 1) (ValueTask 0 source))"
    using run_shrinks [where task = "ValueTask 0 source" and n = "2 * length source + 1"] by (simp del: span_run.simps)
  then show ?thesis by (auto simp: span_parse_def shrinks_def split: sum.splits)
qed

text \<open>An insertion keeps every character.\<close>

lemma insert_claude_hook_adds:
  assumes "insert_claude_hook jc raw hook = Inr content"
  shows "\<exists>a b x. raw = a @ b \<and> content = a @ x @ b"
proof -
  have "\<exists>n x. content = insert_at raw n x"
    using assms unfolding insert_claude_hook_def Let_def
    by (auto split: sum.splits json_span.splits option.splits)
  then obtain n x where "content = take n raw @ x @ drop n raw" by (auto simp: insert_at_def)
  then show ?thesis by (intro exI [of _ "take n raw"] exI [of _ "drop n raw"] exI [of _ x]) simp
qed

end
