(* ===== verification/ManagedInstall.thy ===== *)
theory ManagedInstall
  imports ManagedFiles
begin

text \<open>
  The planner of \<open>src/infrastructure/install/ManagedInstallation.ts\<close>: activation, repair and
  deactivation of a managed installation as plans of file changes with preconditions, which
  \<open>Install\<close> executes. Reading a file is a parameter that may fail; a path that cannot be
  joined or parsed throws.
\<close>

section \<open>The manifest\<close>

record manifest_entry =
  me_id :: string
  me_path :: string
  me_ownership :: artifact_ownership
  me_installed :: string
  me_original :: "string option"
  me_backup :: "string option"
  me_mode :: "js_number option"

record manifest_payload =
  mp_shell :: managed_shell
  mp_runtime :: string
  mp_entrypoint :: string
  mp_configuration :: string
  mp_entries :: "manifest_entry list"

datatype loaded_manifest =
    AbsentManifest
  | InvalidManifest string
  | ValidManifest string manifest_payload

definition content_checksum :: "sha \<Rightarrow> string \<Rightarrow> string" where
  "content_checksum h content = hash_to_string (hash_content h content)"

definition is_checksum :: "string \<Rightarrow> bool" where
  "is_checksum s = is_ok (hash_parse s)"

definition ownership_name :: "artifact_ownership \<Rightarrow> string" where
  "ownership_name s = (if s = Owned then ''owned'' else ''shared'')"

definition mode_number :: "nat option \<Rightarrow> js_number option" where
  "mode_number m = map_option (\<lambda>n. json_int_from (int n) 0) m"

definition entry_json :: "manifest_entry \<Rightarrow> json" where
  "entry_json e =
     JObject
       [(''id'', JString (me_id e)), (''path'', JString (me_path e)),
        (''ownership'', JString (ownership_name (me_ownership e))),
        (''installedChecksum'', JString (me_installed e)),
        (''originalChecksum'', json_text (me_original e)),
        (''backupPath'', json_text (me_backup e)),
        (''mode'', case me_mode e of None \<Rightarrow> JNull | Some n \<Rightarrow> JNumber n)]"

definition manifest_schema :: string where
  "manifest_schema = ''dev.agentkeeper.managed-installation''"

definition payload_json :: "manifest_payload \<Rightarrow> json" where
  "payload_json p =
     JObject
       [(''schema'', JString manifest_schema), (''version'', json_int 2),
        (''shell'', JString (shell_name (mp_shell p))),
        (''runtimeExecutable'', JString (mp_runtime p)),
        (''agentkeeperEntrypoint'', JString (mp_entrypoint p)),
        (''configurationChecksum'', JString (mp_configuration p)),
        (''entries'', JArray (map entry_json (mp_entries p)))]"

definition manifest_envelope :: "json_codec \<Rightarrow> sha \<Rightarrow> json \<Rightarrow> json" where
  "manifest_envelope jc h payload =
     JObject [(''checksum'', JString (content_checksum h (jc_compact jc payload))), (''payload'', payload)]"

definition serialise_manifest :: "json_codec \<Rightarrow> sha \<Rightarrow> manifest_payload \<Rightarrow> string" where
  "serialise_manifest jc h p = jc_pretty jc (manifest_envelope jc h (payload_json p)) @ newline"

definition text_or_null :: "json option \<Rightarrow> string option option" where
  "text_or_null j = (case j of Some JNull \<Rightarrow> Some None | Some (JString s) \<Rightarrow> Some (Some s) | _ \<Rightarrow> None)"

definition parse_ownership :: "json option \<Rightarrow> artifact_ownership option" where
  "parse_ownership j =
     (if j = Some (JString ''owned'') then Some Owned else if j = Some (JString ''shared'') then Some Shared else None)"

definition number_or_null :: "json option \<Rightarrow> js_number option option" where
  "number_or_null j = (case j of Some JNull \<Rightarrow> Some None | Some (JNumber n) \<Rightarrow> Some (Some n) | _ \<Rightarrow> None)"

definition parse_entry :: "json \<Rightarrow> manifest_entry option" where
  "parse_entry j =
     (case json_record (Some j) of
        None \<Rightarrow> None
      | Some _ \<Rightarrow>
          (case (as_string (property j ''id''), as_string (property j ''path''), parse_ownership (property j ''ownership''),
                 as_string (property j ''installedChecksum''), text_or_null (property j ''originalChecksum''),
                 text_or_null (property j ''backupPath''), number_or_null (property j ''mode'')) of
             (Some i, Some p, Some w, Some c, Some o1, Some b, Some m) \<Rightarrow>
               Some \<lparr>me_id = i, me_path = p, me_ownership = w, me_installed = c, me_original = o1, me_backup = b, me_mode = m\<rparr>
           | _ \<Rightarrow> None))"

definition manifest_shell :: "json option \<Rightarrow> managed_shell option" where
  "manifest_shell j =
     (if j = Some (JString ''posix'') then Some PosixShell
      else if j = Some (JString ''powershell'') then Some PowerShell else None)"

definition parse_manifest_payload :: "json \<Rightarrow> string + manifest_payload" where
  "parse_manifest_payload j =
     (case (manifest_shell (property j ''shell''), as_string (property j ''runtimeExecutable''),
            as_string (property j ''agentkeeperEntrypoint''), as_string (property j ''configurationChecksum''),
            property j ''entries'') of
        (Some s, Some r, Some e, Some c, Some (JArray items)) \<Rightarrow>
          if property j ''schema'' \<noteq> Some (JString manifest_schema) \<or> property j ''version'' \<noteq> Some (json_int 2) \<or>
             \<not> is_checksum c
          then Inl ''Managed manifest payload has an unsupported schema''
          else if list_ex (\<lambda>x. parse_entry x = None) items then Inl ''Managed manifest contains a malformed entry''
          else Inr \<lparr>mp_shell = s, mp_runtime = r, mp_entrypoint = e, mp_configuration = c,
                    mp_entries = options_to_list (map parse_entry items)\<rparr>
      | _ \<Rightarrow> Inl ''Managed manifest payload has an unsupported schema'')"

definition read_manifest :: "json_codec \<Rightarrow> sha \<Rightarrow> string option \<Rightarrow> loaded_manifest" where
  "read_manifest jc h raw =
     (case raw of
        None \<Rightarrow> AbsentManifest
      | Some text \<Rightarrow>
          (case jc_parse jc text of
             None \<Rightarrow> InvalidManifest ''Managed manifest is not valid JSON''
           | Some j \<Rightarrow>
               (case (json_record (Some j), as_string (property j ''checksum''), property j ''payload'') of
                  (Some _, Some c, Some (JObject ps)) \<Rightarrow>
                    if c \<noteq> content_checksum h (jc_compact jc (JObject ps))
                    then InvalidManifest ''Managed manifest checksum does not match its payload''
                    else (case parse_manifest_payload (JObject ps) of Inl m \<Rightarrow> InvalidManifest m | Inr p \<Rightarrow> ValidManifest text p)
                | _ \<Rightarrow> InvalidManifest ''Managed manifest has an invalid envelope'')))"

section \<open>Parts of a plan\<close>

definition manifest_path :: "managed_options \<Rightarrow> abs_path res" where
  "manifest_path opts = path_join (mo_state opts) [''installation/manifest.json'']"

definition backup_path :: "sha \<Rightarrow> managed_options \<Rightarrow> abs_path \<Rightarrow> abs_path res" where
  "backup_path h opts p =
     path_join (mo_state opts)
       [''installation/backups/'' @ drop 7 (content_checksum h (''agentkeeper-original'' @ [CHR 0x00] @ ap_value p)) @ ''.original'']"

definition mk_change :: "abs_path \<Rightarrow> string option \<Rightarrow> string option \<Rightarrow> string \<Rightarrow> nat option \<Rightarrow> installation_change" where
  "mk_change p before after summary mode =
     \<lparr>ic_path = p, ic_before = before, ic_after = after, ic_summary = summary, ic_mode = mode\<rparr>"

definition conflict_at :: "string \<Rightarrow> abs_path \<Rightarrow> string \<Rightarrow> installation_conflict" where
  "conflict_at code p message = \<lparr>cn_code = code, cn_path = p, cn_message = message\<rparr>"

definition failed_plan :: "installation_operation \<Rightarrow> installation_conflict list \<Rightarrow> installation_plan" where
  "failed_plan op conflicts = \<lparr>ip_operation = op, ip_changes = [], ip_conflicts = conflicts\<rparr>"

definition successful_plan :: "installation_operation \<Rightarrow> installation_change list \<Rightarrow> installation_plan" where
  "successful_plan op changes = \<lparr>ip_operation = op, ip_changes = changes, ip_conflicts = []\<rparr>"

text \<open>The loops that collect what occurred before.\<close>

fun repeated :: "('a \<Rightarrow> string) \<Rightarrow> string list \<Rightarrow> 'a list \<Rightarrow> 'a list" where
  "repeated key seen [] = []"
| "repeated key seen (x # xs) =
     (if key x \<in> set seen then [x] else []) @ repeated key (key x # seen) xs"

definition duplicate_paths :: "string \<Rightarrow> abs_path list \<Rightarrow> installation_conflict list" where
  "duplicate_paths message ps =
     map (\<lambda>p. conflict_at ''configuration-mismatch'' p message) (repeated ap_value [] ps)"

definition configuration_checksum :: "json_codec \<Rightarrow> sha \<Rightarrow> managed_options \<Rightarrow> string" where
  "configuration_checksum jc h opts =
     content_checksum h (jc_compact jc (JObject
       ([(''shell'', JString (shell_name (mo_shell opts))),
         (''stateDir'', JString (ap_value (mo_state opts))),
         (''runtimeExecutable'', JString (ap_value (mo_runtime opts))),
         (''agentkeeperEntrypoint'', JString (ap_value (mo_entrypoint opts))),
         (''agentExecutables'', JObject (map (\<lambda>t. (fst t, JString (ap_value (snd t)))) (agent_targets opts))),
         (''profiles'', JArray (map (\<lambda>p. JString (ap_value p)) (mo_profiles opts))),
         (''claudeSettings'', JString (ap_value (mo_claude opts)))] @
        (if length (mo_extra opts) = 0 then []
         else [(''extensions'', JArray (map (\<lambda>x. JObject
                 [(''id'', JString (ox_id x)), (''path'', JString (ap_value (ox_path x))),
                  (''contentChecksum'', JString (content_checksum h (ox_content x))),
                  (''mode'', json_int (int (extra_mode x)))]) (mo_extra opts)))]))))"

definition outside_home :: "managed_options \<Rightarrow> installation_conflict list" where
  "outside_home opts =
     map (\<lambda>p. conflict_at ''configuration-mismatch'' p
           ''Install-once state and shared integrations must stay inside the configured user home'')
       (filter (\<lambda>p. \<not> contains (mo_home opts) p)
         ([mo_state opts] @ mo_profiles opts @ [mo_claude opts] @ map ox_path (mo_extra opts)))"

definition configuration_conflicts :: "json_codec \<Rightarrow> managed_options \<Rightarrow> installation_conflict list res" where
  "configuration_conflicts jc opts =
     rbind (shim_directory opts) (\<lambda>dir.
     rmap (\<lambda>owned.
         (if length (agent_targets opts) = 0
          then [conflict_at ''configuration-mismatch'' (mo_state opts)
                  ''No supported agent executable was found before the shim directory entered PATH''] else []) @
         outside_home opts @
         map (\<lambda>a. conflict_at ''configuration-mismatch'' (da_path a)
               (''Duplicate managed artifact id '' @ jc_compact jc (JString (da_id a)))) (repeated da_id [] owned) @
         map (\<lambda>p. conflict_at ''configuration-mismatch'' p
               ''A resolved executable points inside the managed shim directory and would recurse'')
           (filter (contains dir) ([mo_runtime opts, mo_entrypoint opts] @ map snd (agent_targets opts))))
       (owned_artifacts opts))"

section \<open>The first activation\<close>

record candidate_artifact =
  ca_artifact :: desired_artifact
  ca_before :: "string option"

text \<open>A candidate or a conflict, for each owned artifact, each profile and the settings.\<close>

definition owned_candidate :: "desired_artifact \<times> string option \<Rightarrow> installation_conflict + candidate_artifact" where
  "owned_candidate x =
     (if snd x \<noteq> None
      then Inl (conflict_at ''owned-path-exists'' (da_path (fst x))
             ''The path existed before agentkeeper had a manifest; it will not be claimed or overwritten'')
      else Inr \<lparr>ca_artifact = fst x, ca_before = snd x\<rparr>)"

definition profile_candidate ::
  "managed_options \<Rightarrow> string \<Rightarrow> nat \<times> abs_path \<times> string option \<Rightarrow> (installation_conflict + candidate_artifact) option" where
  "profile_candidate opts block x =
     (case x of (k, p, before) \<Rightarrow>
        if before = None \<and> mo_shell opts = PosixShell then None
        else if (case before of None \<Rightarrow> False | Some t \<Rightarrow> has_any_managed_marker t)
             then Some (Inl (conflict_at ''managed-marker-collision'' p
                    ''A managed marker exists without a valid manifest; ownership is ambiguous''))
             else Some (Inr \<lparr>ca_artifact = (shared_artifact (profile_id opts k) p)
                               \<lparr>da_content := append_profile_block before block\<rparr>, ca_before = before\<rparr>))"

definition settings_candidate ::
  "json_codec \<Rightarrow> managed_options \<Rightarrow> string option \<Rightarrow> installation_conflict + candidate_artifact" where
  "settings_candidate jc opts before =
     (case render_claude_settings jc opts before of
        Inl m \<Rightarrow> Inl (conflict_at ''invalid-shared-config'' (mo_claude opts) m)
      | Inr c \<Rightarrow> Inr \<lparr>ca_artifact = (shared_artifact ''claude-settings'' (mo_claude opts))\<lparr>da_content := c\<rparr>, ca_before = before\<rparr>)"

definition lefts :: "('a + 'b) list \<Rightarrow> 'a list" where
  "lefts xs = concat (map (\<lambda>x. case x of Inl a \<Rightarrow> [a] | Inr _ \<Rightarrow> []) xs)"

definition rights :: "('a + 'b) list \<Rightarrow> 'b list" where
  "rights xs = concat (map (\<lambda>x. case x of Inl _ \<Rightarrow> [] | Inr b \<Rightarrow> [b]) xs)"

type_synonym reading = "abs_path \<Rightarrow> string option res"

text \<open>What the loop over the candidates adds for one: the backup and its conflict, the change, the entry.\<close>

record planned =
  pl_conflicts :: "installation_conflict list"
  pl_backups :: "installation_change list"
  pl_target :: installation_change
  pl_entry :: manifest_entry

definition plan_candidate :: "sha \<Rightarrow> managed_options \<Rightarrow> reading \<Rightarrow> candidate_artifact \<Rightarrow> planned res" where
  "plan_candidate h opts read c =
     (let a = ca_artifact c;
          target = mk_change (da_path a) (ca_before c) (Some (da_content a)) (''Install managed artifact '' @ da_id a) (da_mode a);
          entry = (\<lambda>original backup.
            \<lparr>me_id = da_id a, me_path = ap_value (da_path a), me_ownership = da_ownership a,
             me_installed = content_checksum h (da_content a), me_original = original, me_backup = backup,
             me_mode = mode_number (da_mode a)\<rparr>)
      in case ca_before c of
           None \<Rightarrow> Inr \<lparr>pl_conflicts = [], pl_backups = [], pl_target = target, pl_entry = entry None None\<rparr>
         | Some t \<Rightarrow>
             rbind (backup_path h opts (da_path a)) (\<lambda>b.
             rmap (\<lambda>existing.
               \<lparr>pl_conflicts = (if existing \<noteq> None
                  then [conflict_at ''owned-path-exists'' b ''The deterministic backup path already exists without a valid manifest'']
                  else []),
                pl_backups = (if existing \<noteq> None then []
                  else [mk_change b None (Some t) (''Back up '' @ ap_value (da_path a) @ '' byte-for-byte'') (Some 384)]),
                pl_target = target,
                pl_entry = entry (Some (content_checksum h t)) (Some (ap_value b))\<rparr>) (read b)))"

text \<open>The second half: what was chosen, with the conflicts of the first half among it.\<close>

definition activation_plan ::
  "json_codec \<Rightarrow> sha \<Rightarrow> managed_options \<Rightarrow> reading \<Rightarrow> abs_path \<Rightarrow>
     (installation_conflict + candidate_artifact) list \<Rightarrow> installation_plan res" where
  "activation_plan jc h opts read manifest chosen =
     rmap (\<lambda>parts.
       let backups = concat (map pl_backups parts); targets = map pl_target parts;
           conflicts = lefts chosen @
             duplicate_paths ''Two managed artifacts were configured for the same path''
               (map (\<lambda>c. da_path (ca_artifact c)) (rights chosen)) @
             concat (map pl_conflicts parts) @
             duplicate_paths ''A managed target, backup, or manifest resolves to the same path as another artifact''
               (map ic_path (backups @ targets) @ [manifest]);
           payload = \<lparr>mp_shell = mo_shell opts, mp_runtime = ap_value (mo_runtime opts),
             mp_entrypoint = ap_value (mo_entrypoint opts), mp_configuration = configuration_checksum jc h opts,
             mp_entries = map pl_entry parts\<rparr>
       in if length conflicts > 0 then failed_plan Activate conflicts
          else successful_plan Activate
            (backups @ targets @
             [mk_change manifest None (Some (serialise_manifest jc h payload))
                ''Commit the managed installation manifest and content checksums'' (Some 384)]))
       (traverse (plan_candidate h opts read) (rights chosen))"

definition plan_first_activation :: "json_codec \<Rightarrow> sha \<Rightarrow> managed_options \<Rightarrow> reading \<Rightarrow> installation_plan res" where
  "plan_first_activation jc h opts read =
     rbind (configuration_conflicts jc opts) (\<lambda>misconfigured.
       if length misconfigured > 0 then Inr (failed_plan Activate misconfigured)
       else
         rbind (owned_artifacts opts) (\<lambda>owned.
         rbind (traverse (\<lambda>a. read (da_path a)) owned) (\<lambda>owned_before.
         rbind (traverse read (mo_profiles opts)) (\<lambda>profile_before.
         rbind (read (mo_claude opts)) (\<lambda>settings_before.
         rbind (profile_block opts) (\<lambda>block.
         rbind (manifest_path opts) (\<lambda>manifest.
           activation_plan jc h opts read manifest
             (map owned_candidate (zip owned owned_before) @
              options_to_list (map (profile_candidate opts block)
                (enumerate 0 (zip (mo_profiles opts) profile_before))) @
              [settings_candidate jc opts settings_before]))))))))"

section \<open>An installed system\<close>

definition drift_conflict :: "manifest_entry \<Rightarrow> abs_path \<Rightarrow> installation_conflict" where
  "drift_conflict e p =
     (if me_ownership e = Shared
      then conflict_at ''shared-file-drift'' p
        ''A user-owned shared file changed after activation; it will not be overwritten automatically''
      else conflict_at ''managed-file-drift'' p ''A managed artifact changed after activation; use the repair operation'')"

definition backup_drift :: "manifest_entry \<Rightarrow> abs_path \<Rightarrow> installation_conflict" where
  "backup_drift e p =
     conflict_at ''backup-drift'' p (''The byte-exact backup for '' @ me_id e @ '' is missing or has changed'')"

definition matches_checksum :: "sha \<Rightarrow> string option \<Rightarrow> string option \<Rightarrow> bool" where
  "matches_checksum h content c = (case content of None \<Rightarrow> False | Some t \<Rightarrow> Some (content_checksum h t) = c)"

text \<open>The test of one entry; \<open>None\<close> when it is as expected.\<close>

definition entry_fault ::
  "json_codec \<Rightarrow> sha \<Rightarrow> managed_options \<Rightarrow> installation_operation \<Rightarrow> desired_artifact list \<Rightarrow> manifest_entry \<Rightarrow> string option res"
where
  "entry_fault jc h opts op expected e =
     (let q = jc_compact jc (JString (me_id e))
      in case artifact_named expected (me_id e) of
           None \<Rightarrow> Inr (Some (''Unknown manifest artifact '' @ q))
         | Some a \<Rightarrow>
             if ap_value (da_path a) \<noteq> me_path e \<or> da_ownership a \<noteq> me_ownership e
             then Inr (Some (''Manifest artifact '' @ q @ '' points outside its configured path''))
             else if me_mode e \<noteq> mode_number (da_mode a)
             then Inr (Some (''Manifest artifact '' @ q @ '' has an unexpected file mode''))
             else if \<not> is_checksum (me_installed e)
             then Inr (Some (''Manifest artifact '' @ q @ '' has an invalid installed checksum''))
             else if (case me_original e of None \<Rightarrow> False | Some c \<Rightarrow> \<not> is_checksum c)
             then Inr (Some (''Manifest artifact '' @ q @ '' has an invalid original checksum''))
             else if (me_original e = None) \<noteq> (me_backup e = None)
             then Inr (Some (''Manifest artifact '' @ q @ '' has an incomplete backup reference''))
             else rbind (case me_backup e of None \<Rightarrow> Inr False | Some b \<Rightarrow> rmap (\<lambda>p. b \<noteq> ap_value p) (backup_path h opts (da_path a)))
               (\<lambda>misplaced. Inr
                 (if misplaced then Some (''Manifest artifact '' @ q @ '' has an unexpected backup path'')
                  else if da_ownership a = Owned \<and> op \<noteq> Deactivate \<and> (me_original e \<noteq> None \<or> me_backup e \<noteq> None)
                  then Some (''Owned artifact '' @ q @ '' unexpectedly claims an original file'')
                  else if da_ownership a = Owned \<and> op = Activate \<and>
                          (content_checksum h (da_content a) \<noteq> me_installed e \<or> mode_number (da_mode a) \<noteq> me_mode e)
                  then Some (''Owned artifact '' @ q @ '' does not match current generated content'')
                  else None)))"

fun entries_fault ::
  "json_codec \<Rightarrow> (manifest_entry \<Rightarrow> string option res) \<Rightarrow> string list \<Rightarrow> manifest_entry list \<Rightarrow> string option res"
where
  "entries_fault jc check seen [] = Inr None"
| "entries_fault jc check seen (e # es) =
     (if me_id e \<in> set seen then Inr (Some (''Duplicate manifest entry '' @ jc_compact jc (JString (me_id e))))
      else rbind (check e) (\<lambda>r. case r of
             Some m \<Rightarrow> Inr (Some m)
           | None \<Rightarrow> entries_fault jc check (me_id e # seen) es))"

text \<open>What has to be among the entries.\<close>

definition missing_fault ::
  "json_codec \<Rightarrow> managed_options \<Rightarrow> installation_operation \<Rightarrow> string list \<Rightarrow> string option res" where
  "missing_fault jc opts op seen =
     rmap (\<lambda>first. case first of
         Some m \<Rightarrow> Some m
       | None \<Rightarrow> if ''claude-settings'' \<notin> set seen then Some ''Manifest is missing the Claude settings integration'' else None)
       (if op \<noteq> Deactivate
        then rmap (\<lambda>owned. case find (\<lambda>a. da_id a \<notin> set seen \<and> op \<noteq> Repair) owned of
                 None \<Rightarrow> None
               | Some a \<Rightarrow> Some (''Manifest is missing owned artifact '' @ jc_compact jc (JString (da_id a))))
               (owned_artifacts opts)
        else Inr (if init_id opts \<notin> set seen
                  then Some ''Manifest is missing the managed shell initialisation artifact'' else None))"

definition validate_manifest ::
  "json_codec \<Rightarrow> sha \<Rightarrow> managed_options \<Rightarrow> manifest_payload \<Rightarrow> installation_operation \<Rightarrow> string option res" where
  "validate_manifest jc h opts p op =
     (if mp_shell p \<noteq> mo_shell opts then Inr (Some ''Manifest shell does not match the configured installation shell'')
      else if op \<noteq> Deactivate \<and>
              (mp_runtime p \<noteq> ap_value (mo_runtime opts) \<or> mp_entrypoint p \<noteq> ap_value (mo_entrypoint opts))
      then Inr (Some ''Manifest command pair does not match the trusted runtime and CLI entrypoint'')
      else if op = Activate \<and> mp_configuration p \<noteq> configuration_checksum jc h opts
      then Inr (Some ''Installation options differ from the options recorded by the manifest; run `agentkeeper repair` to reconcile them'')
      else rbind (if op = Deactivate then allowed_artifacts opts else expected_artifacts opts) (\<lambda>expected.
           rbind (entries_fault jc (entry_fault jc h opts op expected) [] (mp_entries p)) (\<lambda>r. case r of
             Some m \<Rightarrow> Inr (Some m)
           | None \<Rightarrow> missing_fault jc opts op (map me_id (mp_entries p)))))"

definition backup_conflict :: "sha \<Rightarrow> reading \<Rightarrow> manifest_entry \<Rightarrow> installation_conflict list res" where
  "backup_conflict h read e =
     (case (me_backup e, me_original e) of
        (Some b, Some c) \<Rightarrow>
          rbind (of_path b) (\<lambda>p. rmap (\<lambda>content. if matches_checksum h content (Some c) then [] else [backup_drift e p]) (read p))
      | _ \<Rightarrow> Inr [])"

text \<open>A conflict or a repair of one entry, or nothing when its file is as it was installed.\<close>

definition installed_entry ::
  "sha \<Rightarrow> installation_operation \<Rightarrow> desired_artifact list \<Rightarrow> reading \<Rightarrow> manifest_entry \<Rightarrow>
     (installation_conflict + installation_change) option res"
where
  "installed_entry h op owned read e =
     rbind (of_path (me_path e)) (\<lambda>p.
     rmap (\<lambda>before.
       if matches_checksum h before (Some (me_installed e)) then None
       else if op = Activate \<or> me_ownership e = Shared then Some (Inl (drift_conflict e p))
       else case artifact_named owned (me_id e) of
              None \<Rightarrow> Some (Inl (conflict_at ''configuration-mismatch'' p
                ''The currently configured artifact does not match the installed manifest''))
            | Some a \<Rightarrow>
                if content_checksum h (da_content a) \<noteq> me_installed e
                then Some (Inl (conflict_at ''configuration-mismatch'' p
                  ''The currently configured artifact does not match the installed manifest''))
                else Some (Inr (mk_change p before (Some (da_content a)) (''Repair managed artifact '' @ me_id e) (da_mode a))))
       (read p))"

definition plan_installed ::
  "sha \<Rightarrow> managed_options \<Rightarrow> reading \<Rightarrow> installation_operation \<Rightarrow> manifest_payload \<Rightarrow> installation_plan res" where
  "plan_installed h opts read op p =
     rbind (traverse (backup_conflict h read) (mp_entries p)) (\<lambda>drifted.
     rbind (owned_artifacts opts) (\<lambda>owned.
     rmap (\<lambda>found.
         let parts = options_to_list found; conflicts = concat drifted @ lefts parts
         in if length conflicts > 0 then failed_plan op conflicts else successful_plan op (rights parts))
       (traverse (installed_entry h op owned read) (mp_entries p))))"

section \<open>Deactivation\<close>

record snapshot =
  sh_entry :: manifest_entry
  sh_path :: abs_path
  sh_current :: "string option"
  sh_backup :: "(abs_path \<times> string option) option"

definition take_snapshot :: "reading \<Rightarrow> manifest_entry \<Rightarrow> snapshot res" where
  "take_snapshot read e =
     rbind (of_path (me_path e)) (\<lambda>p.
     rbind (read p) (\<lambda>current.
     case me_backup e of
       None \<Rightarrow> Inr \<lparr>sh_entry = e, sh_path = p, sh_current = current, sh_backup = None\<rparr>
     | Some b \<Rightarrow>
         rbind (of_path b) (\<lambda>q.
         rmap (\<lambda>backup. \<lparr>sh_entry = e, sh_path = p, sh_current = current, sh_backup = Some (q, backup)\<rparr>) (read q))))"

definition snapshot_conflicts :: "sha \<Rightarrow> snapshot \<Rightarrow> installation_conflict list" where
  "snapshot_conflicts h s =
     (if matches_checksum h (sh_current s) (Some (me_installed (sh_entry s))) then []
      else [drift_conflict (sh_entry s) (sh_path s)]) @
     (case sh_backup s of
        None \<Rightarrow> []
      | Some (q, backup) \<Rightarrow>
          if matches_checksum h backup (me_original (sh_entry s)) then [] else [backup_drift (sh_entry s) q])"

definition snapshot_target :: "snapshot \<Rightarrow> installation_change" where
  "snapshot_target s =
     mk_change (sh_path s) (sh_current s) (case sh_backup s of None \<Rightarrow> None | Some (q, backup) \<Rightarrow> backup)
       (''Remove managed artifact '' @ me_id (sh_entry s)) None"

definition snapshot_backup :: "snapshot \<Rightarrow> installation_change list" where
  "snapshot_backup s =
     (case sh_backup s of
        None \<Rightarrow> []
      | Some (q, backup) \<Rightarrow> [mk_change q backup None (''Remove backup for '' @ me_id (sh_entry s)) None])"

definition plan_deactivation ::
  "sha \<Rightarrow> managed_options \<Rightarrow> reading \<Rightarrow> string \<Rightarrow> manifest_payload \<Rightarrow> installation_plan res" where
  "plan_deactivation h opts read raw p =
     rbind (traverse (take_snapshot read) (mp_entries p)) (\<lambda>snapshots.
     rmap (\<lambda>manifest.
         let conflicts = concat (map (snapshot_conflicts h) snapshots)
         in if length conflicts > 0 then failed_plan Deactivate conflicts
            else successful_plan Deactivate
              (map snapshot_target (rev snapshots) @ concat (map snapshot_backup (rev snapshots)) @
               [mk_change manifest (Some raw) None ''Remove managed installation manifest'' None]))
       (manifest_path opts))"

section \<open>The planner\<close>

definition managed_plan ::
  "json_codec \<Rightarrow> sha \<Rightarrow> managed_options \<Rightarrow> reading \<Rightarrow> installation_operation \<Rightarrow> installation_plan res" where
  "managed_plan jc h opts read op =
     rbind (manifest_path opts) (\<lambda>manifest.
     rbind (read manifest) (\<lambda>raw.
     case read_manifest jc h raw of
       InvalidManifest m \<Rightarrow> Inr (failed_plan op [conflict_at ''invalid-manifest'' manifest m])
     | AbsentManifest \<Rightarrow> if op \<noteq> Activate then Inr (successful_plan op []) else plan_first_activation jc h opts read
     | ValidManifest text p \<Rightarrow>
         rbind (validate_manifest jc h opts p op) (\<lambda>fault. case fault of
           Some m \<Rightarrow> Inr (failed_plan op [conflict_at ''configuration-mismatch'' manifest m])
         | None \<Rightarrow> if op = Deactivate then plan_deactivation h opts read text p else plan_installed h opts read op p)))"

end
