(* ===== verification/ManagedCycle.thy ===== *)
theory ManagedCycle
  imports ManagedInstall
begin

text \<open>
  What an activation plans and what the plans of \<open>ManagedInstall\<close> do when \<open>Install\<close> carries them
  out: the manifest that is written is read back as the manifest it is, a plan of distinct paths
  whose preconditions hold is executed completely, and an activation without conflicts has the
  parts that the record \<open>activation\<close> collects. The law of the JSON codec is \<open>codec_ok\<close>.
\<close>

section \<open>Reading the manifest back\<close>

text \<open>\<open>JSON.parse\<close> reads what \<open>JSON.stringify\<close> wrote, also with a newline after it.\<close>

definition codec_ok :: "json_codec \<Rightarrow> bool" where
  "codec_ok jc \<longleftrightarrow> (\<forall>j. wf_json j \<longrightarrow> jc_parse jc (jc_pretty jc j @ newline) = Some j)"

lemma checksum_ok: "sha_ok h \<Longrightarrow> is_checksum (content_checksum h t)"
  by (simp add: is_checksum_def content_checksum_def hash_roundtrip is_ok_iff)

definition entry_wf :: "manifest_entry \<Rightarrow> bool" where
  "entry_wf e = (case me_mode e of None \<Rightarrow> True | Some n \<Rightarrow> lowest_terms n)"

lemma entry_json_wf: "entry_wf e \<Longrightarrow> wf_json (entry_json e)"
proof -
  assume e: "entry_wf e"
  have k: "\<not> array_index ''id''" "\<not> array_index ''path''" "\<not> array_index ''ownership''" "\<not> array_index ''installedChecksum''"
    "\<not> array_index ''originalChecksum''" "\<not> array_index ''backupPath''" "\<not> array_index ''mode''" by code_simp+
  show ?thesis using e k
    by (auto simp: entry_json_def entry_wf_def json_text_def property_order_plain split: option.splits)
qed

lemma payload_json_wf: "list_all entry_wf (mp_entries p) \<Longrightarrow> wf_json (payload_json p)"
proof -
  assume e: "list_all entry_wf (mp_entries p)"
  have k: "\<not> array_index ''schema''" "\<not> array_index ''version''" "\<not> array_index ''shell''"
    "\<not> array_index ''runtimeExecutable''" "\<not> array_index ''agentkeeperEntrypoint''"
    "\<not> array_index ''configurationChecksum''" "\<not> array_index ''entries''" by code_simp+
  show ?thesis using e k entry_json_wf
    by (auto simp: payload_json_def property_order_plain json_int_wf list_all_iff)
qed

lemma envelope_wf: "wf_json j \<Longrightarrow> wf_json (manifest_envelope jc h j)"
proof -
  have "\<not> array_index ''checksum''" "\<not> array_index ''payload''" by code_simp+
  then show "wf_json j \<Longrightarrow> wf_json (manifest_envelope jc h j)" by (simp add: manifest_envelope_def property_order_plain)
qed

lemma parse_entry_back: "parse_entry (entry_json e) = Some e"
  by (cases "me_original e"; cases "me_backup e"; cases "me_mode e"; cases "me_ownership e")
    (simp_all add: parse_entry_def entry_json_def json_record_def property_def as_string_def parse_ownership_def
      ownership_name_def text_or_null_def number_or_null_def json_text_def)

lemma manifest_payload_back:
  assumes "is_checksum (mp_configuration p)"
  shows "parse_manifest_payload (payload_json p) = Inr p"
proof -
  have "options_to_list (map parse_entry (map entry_json es)) = es" for es
    by (induction es) (simp_all add: options_to_list_def parse_entry_back)
  moreover have "\<not> list_ex (\<lambda>x. parse_entry x = None) (map entry_json es)" for es
    by (simp add: list_ex_iff parse_entry_back)
  moreover have "manifest_shell (Some (JString (shell_name s))) = Some s" for s
    by (cases s) (simp_all add: manifest_shell_def shell_name_def)
  ultimately show ?thesis
    using assms by (simp add: parse_manifest_payload_def payload_json_def property_def as_string_def)
qed

lemma manifest_reads_back:
  assumes "codec_ok jc" "list_all entry_wf (mp_entries p)" "is_checksum (mp_configuration p)"
  shows "read_manifest jc h (Some (serialise_manifest jc h p)) = ValidManifest (serialise_manifest jc h p) p"
proof -
  have "jc_parse jc (serialise_manifest jc h p) = Some (manifest_envelope jc h (payload_json p))"
    using assms(1) envelope_wf [OF payload_json_wf [OF assms(2)]] by (simp add: codec_ok_def serialise_manifest_def)
  moreover obtain ps where "payload_json p = JObject ps" by (simp add: payload_json_def)
  ultimately show ?thesis
    using manifest_payload_back [OF assms(3)]
    by (simp add: read_manifest_def manifest_envelope_def json_record_def property_def as_string_def)
qed

section \<open>Executing without faults\<close>

definition change_key :: "installation_change \<Rightarrow> string" where
  "change_key c = ap_value (ic_path c)"

lemma installed_Cons: "installed (c # cs) f = installed cs (f(change_key c := ic_after c))"
  by (simp add: installed_def change_key_def)

lemma installed_other: "v \<notin> change_key ` set cs \<Longrightarrow> installed cs f v = f v"
  by (induction cs arbitrary: f) (auto simp: installed_Cons, simp add: installed_def)

lemma installed_at:
  "distinct (map change_key cs) \<Longrightarrow> c \<in> set cs \<Longrightarrow> installed cs f (change_key c) = ic_after c"
proof (induction cs arbitrary: f)
  case (Cons d cs)
  show ?case
  proof (cases "c = d")
    case True
    then have "change_key c \<notin> change_key ` set cs" using Cons.prems by simp
    then show ?thesis using True by (simp add: installed_Cons installed_other)
  next
    case False
    then show ?thesis using Cons by (simp add: installed_Cons)
  qed
qed simp

definition current :: "files \<Rightarrow> installation_change list \<Rightarrow> bool" where
  "current f cs \<longleftrightarrow> (\<forall>c \<in> set cs. f (change_key c) = ic_before c)"

definition no_faults_at_all :: faults where
  "no_faults_at_all n = NoFault"

lemma check_succeeds:
  "current (fs_files s) cs \<Longrightarrow> \<exists>t. check_preconditions no_faults_at_all cs s = (Inr (), t) \<and> fs_files t = fs_files s"
proof (induction cs arbitrary: s)
  case (Cons c cs)
  let ?s = "s\<lparr>fs_ops := fs_ops s + 1\<rparr>"
  have "current (fs_files ?s) cs" using Cons.prems by (simp add: current_def)
  from Cons.IH [OF this] show ?case
    using Cons.prems by (simp add: current_def change_key_def fs_read_def no_faults_at_all_def Let_def)
qed simp

lemma execute_succeeds:
  assumes "ip_conflicts plan = []" "current (fs_files s) (ip_changes plan)" "distinct (map change_key (ip_changes plan))"
  shows "\<exists>t. execute_plan no_faults_at_all plan s = (Inr (length (ip_changes plan)), t) \<and>
    fs_files t = installed (ip_changes plan) (fs_files s)"
proof -
  obtain s1 where check: "check_preconditions no_faults_at_all (ip_changes plan) s = (Inr (), s1)" "fs_files s1 = fs_files s"
    using check_succeeds [OF assms(2)] by blast
  obtain a s2 where app: "apply_loop no_faults_at_all (ip_changes plan) [] 0 s1 = (a, s2)"
    by (cases "apply_loop no_faults_at_all (ip_changes plan) [] 0 s1")
  have "\<nexists>e tried. a = Inl (e, tried)"
  proof clarify
    fix e tried assume "a = Inl (e, tried)"
    moreover have "\<forall>c \<in> set (ip_changes plan). fs_files s1 (ap_value (ic_path c)) = ic_before c"
      using assms(2) check(2) by (simp add: current_def change_key_def)
    moreover have "distinct (map (\<lambda>c. ap_value (ic_path c)) (ip_changes plan))" using assms(3) by (simp add: change_key_def [abs_def])
    ultimately show False using apply_loop_fault [of no_faults_at_all "ip_changes plan" "[]" 0 s1 e tried s2] app
      by (simp add: no_faults_at_all_def)
  qed
  then obtain n where a: "a = Inr n" by (cases a) auto
  have "undone (rev []) (fs_files s1) = fs_files s1" by (simp add: undone_def)
  from apply_loop_undo [OF app this] have "n = length (ip_changes plan)" "fs_files s2 = installed (ip_changes plan) (fs_files s1)"
    unfolding a by auto
  then show ?thesis using assms(1) check app a by (simp add: execute_plan_def)
qed

section \<open>What an activation plans\<close>

definition reads :: "files \<Rightarrow> reading" where
  "reads f p = Inr (f (ap_value p))"

lemma reads_simp [simp]: "reads f p = Inr (f (ap_value p))"
  by (simp add: reads_def)

lemma repeated_Nil: "repeated key seen xs = [] \<longleftrightarrow> distinct (map key xs) \<and> set (map key xs) \<inter> set seen = {}"
  by (induction xs arbitrary: seen) auto

lemma duplicate_paths_Nil: "duplicate_paths m ps = [] \<longleftrightarrow> distinct (map ap_value ps)"
  by (simp add: duplicate_paths_def repeated_Nil)

lemma set_lefts: "set (lefts xs) = {a. Inl a \<in> set xs}"
  by (force simp: lefts_def split: sum.splits)

lemma set_rights: "set (rights xs) = {b. Inr b \<in> set xs}"
  by (force simp: rights_def split: sum.splits)

text \<open>How one candidate is planned.\<close>

definition planned_as :: "sha \<Rightarrow> managed_options \<Rightarrow> files \<Rightarrow> candidate_artifact \<Rightarrow> planned \<Rightarrow> bool" where
  "planned_as h opts f c pt \<longleftrightarrow>
     ic_path (pl_target pt) = da_path (ca_artifact c) \<and> ic_before (pl_target pt) = ca_before c \<and>
     ic_after (pl_target pt) = Some (da_content (ca_artifact c)) \<and>
     me_id (pl_entry pt) = da_id (ca_artifact c) \<and> me_path (pl_entry pt) = ap_value (da_path (ca_artifact c)) \<and>
     me_ownership (pl_entry pt) = da_ownership (ca_artifact c) \<and>
     me_installed (pl_entry pt) = content_checksum h (da_content (ca_artifact c)) \<and>
     me_mode (pl_entry pt) = mode_number (da_mode (ca_artifact c)) \<and>
     (case ca_before c of
        None \<Rightarrow> pl_backups pt = [] \<and> me_original (pl_entry pt) = None \<and> me_backup (pl_entry pt) = None
      | Some t \<Rightarrow> \<exists>b summary. backup_path h opts (da_path (ca_artifact c)) = Inr b \<and> f (ap_value b) = None \<and>
          pl_backups pt = [mk_change b None (Some t) summary (Some 384)] \<and>
          me_original (pl_entry pt) = Some (content_checksum h t) \<and> me_backup (pl_entry pt) = Some (ap_value b))"

lemma plan_candidate_as:
  assumes "plan_candidate h opts (reads f) c = Inr pt" "pl_conflicts pt = []"
  shows "planned_as h opts f c pt"
  using assms
  by (cases "ca_before c"; cases "backup_path h opts (da_path (ca_artifact c))")
    (auto simp: plan_candidate_def planned_as_def mk_change_def Let_def split: if_splits)

text \<open>Where the candidates come from.\<close>

lemma lefts_simps [simp]:
  "lefts [] = []" "lefts (Inl a # xs) = a # lefts xs" "lefts (Inr b # xs) = lefts xs" "lefts (xs @ ys) = lefts xs @ lefts ys"
  by (simp_all add: lefts_def)

lemma rights_simps [simp]:
  "rights [] = []" "rights (Inl a # xs) = rights xs" "rights (Inr b # xs) = b # rights xs" "rights (xs @ ys) = rights xs @ rights ys"
  by (simp_all add: rights_def)

lemma traverse_Inr [simp]: "traverse (\<lambda>x. Inr (g x)) xs = Inr (map g xs)"
  by (induction xs) simp_all

lemma rmap_eq_Inr: "rmap f r = Inr y \<longleftrightarrow> (\<exists>x. r = Inr x \<and> y = f x)"
  by (cases r) auto

lemma owned_candidates:
  "lefts (map owned_candidate (zip as (map (\<lambda>a. f (ap_value (da_path a))) as))) = [] \<Longrightarrow>
     rights (map owned_candidate (zip as (map (\<lambda>a. f (ap_value (da_path a))) as))) =
       map (\<lambda>a. \<lparr>ca_artifact = a, ca_before = None\<rparr>) as \<and>
     (\<forall>a \<in> set as. f (ap_value (da_path a)) = None)"
proof (induction as)
  case (Cons a as)
  let ?rest = "map owned_candidate (zip as (map (\<lambda>a. f (ap_value (da_path a))) as))"
  have all: "map owned_candidate (zip (a # as) (map (\<lambda>a. f (ap_value (da_path a))) (a # as))) =
      owned_candidate (a, f (ap_value (da_path a))) # ?rest" by simp
  show ?case
  proof (cases "f (ap_value (da_path a))")
    case None
    then have one: "owned_candidate (a, f (ap_value (da_path a))) = Inr \<lparr>ca_artifact = a, ca_before = None\<rparr>"
      by (simp add: owned_candidate_def)
    then have "lefts ?rest = []" using Cons.prems unfolding all by simp
    from Cons.IH [OF this] show ?thesis unfolding all one using None by simp
  next
    case (Some t)
    then have "owned_candidate (a, f (ap_value (da_path a))) \<in> range Inl" by (simp add: owned_candidate_def)
    then show ?thesis using Cons.prems unfolding all by auto
  qed
qed simp

definition profile_artifact :: "managed_options \<Rightarrow> files \<Rightarrow> string \<Rightarrow> nat \<times> abs_path \<Rightarrow> candidate_artifact" where
  "profile_artifact opts f block x =
     \<lparr>ca_artifact = (shared_artifact (profile_id opts (fst x)) (snd x))
        \<lparr>da_content := append_profile_block (f (ap_value (snd x))) block\<rparr>,
      ca_before = f (ap_value (snd x))\<rparr>"

lemma profile_candidates:
  "lefts (options_to_list (map (profile_candidate opts block) (enumerate n (zip ps (map (\<lambda>p. f (ap_value p)) ps))))) = [] \<Longrightarrow>
     \<exists>xs. rights (options_to_list (map (profile_candidate opts block) (enumerate n (zip ps (map (\<lambda>p. f (ap_value p)) ps))))) =
       map (profile_artifact opts f block) xs \<and> subseq xs (enumerate n ps)"
proof (induction ps arbitrary: n)
  case (Cons p ps)
  let ?rest = "options_to_list (map (profile_candidate opts block) (enumerate (Suc n) (zip ps (map (\<lambda>p. f (ap_value p)) ps))))"
  let ?one = "profile_candidate opts block (n, p, f (ap_value p))"
  have all: "options_to_list (map (profile_candidate opts block)
      (enumerate n (zip (p # ps) (map (\<lambda>p. f (ap_value p)) (p # ps))))) =
      (case ?one of None \<Rightarrow> ?rest | Some x \<Rightarrow> x # ?rest)"
    by (simp add: options_to_list_def split: option.split)
  have one: "?one = None \<or> (\<exists>c. ?one = Some (Inl c)) \<or> ?one = Some (Inr (profile_artifact opts f block (n, p)))"
    by (auto simp: profile_candidate_def profile_artifact_def)
  have "lefts ?rest = []" using Cons.prems unfolding all using one by (auto split: option.splits)
  from Cons.IH [OF this] obtain xs where xs: "rights ?rest = map (profile_artifact opts f block) xs"
    "subseq xs (enumerate (Suc n) ps)" by blast
  consider "?one = None" | "?one = Some (Inr (profile_artifact opts f block (n, p)))"
    using one Cons.prems unfolding all by auto
  then show ?case
  proof cases
    case 1
    then show ?thesis unfolding all using xs by (intro exI [of _ xs]) auto
  next
    case 2
    then show ?thesis unfolding all using xs by (intro exI [of _ "(n, p) # xs"]) auto
  qed
qed (simp add: options_to_list_def)

lemma settings_candidates:
  "lefts [settings_candidate jc opts before] = [] \<Longrightarrow>
     \<exists>content. render_claude_settings jc opts before = Inr content \<and>
       rights [settings_candidate jc opts before] =
         [\<lparr>ca_artifact = (shared_artifact ''claude-settings'' (mo_claude opts))\<lparr>da_content := content\<rparr>, ca_before = before\<rparr>]"
  by (auto simp: settings_candidate_def split: sum.splits)

lemma traverse_all2: "traverse g xs = Inr ys \<Longrightarrow> list_all2 (\<lambda>x y. g x = Inr y) xs ys"
  by (induction xs arbitrary: ys) auto

text \<open>An activation that has no conflict, in one place.\<close>

record activation =
  av_owned :: "desired_artifact list"
  av_block :: string
  av_profiles :: "(nat \<times> abs_path) list"
  av_settings :: string
  av_parts :: "planned list"
  av_manifest :: abs_path

definition av_candidates :: "managed_options \<Rightarrow> files \<Rightarrow> activation \<Rightarrow> candidate_artifact list" where
  "av_candidates opts f av =
     map (\<lambda>a. \<lparr>ca_artifact = a, ca_before = None\<rparr>) (av_owned av) @
     map (profile_artifact opts f (av_block av)) (av_profiles av) @
     [\<lparr>ca_artifact = (shared_artifact ''claude-settings'' (mo_claude opts))\<lparr>da_content := av_settings av\<rparr>,
       ca_before = f (ap_value (mo_claude opts))\<rparr>]"

definition av_payload :: "json_codec \<Rightarrow> sha \<Rightarrow> managed_options \<Rightarrow> activation \<Rightarrow> manifest_payload" where
  "av_payload jc h opts av =
     \<lparr>mp_shell = mo_shell opts, mp_runtime = ap_value (mo_runtime opts),
      mp_entrypoint = ap_value (mo_entrypoint opts), mp_configuration = configuration_checksum jc h opts,
      mp_entries = map pl_entry (av_parts av)\<rparr>"

definition av_changes :: "json_codec \<Rightarrow> sha \<Rightarrow> managed_options \<Rightarrow> activation \<Rightarrow> installation_change list" where
  "av_changes jc h opts av =
     concat (map pl_backups (av_parts av)) @ map pl_target (av_parts av) @
     [mk_change (av_manifest av) None (Some (serialise_manifest jc h (av_payload jc h opts av)))
        ''Commit the managed installation manifest and content checksums'' (Some 384)]"

definition activates :: "json_codec \<Rightarrow> sha \<Rightarrow> managed_options \<Rightarrow> files \<Rightarrow> activation \<Rightarrow> bool" where
  "activates jc h opts f av \<longleftrightarrow>
     manifest_path opts = Inr (av_manifest av) \<and> f (ap_value (av_manifest av)) = None \<and>
     owned_artifacts opts = Inr (av_owned av) \<and> distinct (map da_id (av_owned av)) \<and>
     (\<forall>a \<in> set (av_owned av). f (ap_value (da_path a)) = None) \<and>
     subseq (av_profiles av) (enumerate 0 (mo_profiles opts)) \<and>
     render_claude_settings jc opts (f (ap_value (mo_claude opts))) = Inr (av_settings av) \<and>
     list_all2 (planned_as h opts f) (av_candidates opts f av) (av_parts av) \<and>
     distinct (map change_key (av_changes jc h opts av))"

lemma activation_plan_changes:
  assumes "activation_plan jc h opts (reads f) m chosen = Inr plan" "ip_conflicts plan = []"
  obtains parts where "traverse (plan_candidate h opts (reads f)) (rights chosen) = Inr parts"
    "lefts chosen = []" "concat (map pl_conflicts parts) = []"
    "distinct (map ap_value (map ic_path (concat (map pl_backups parts) @ map pl_target parts) @ [m]))"
    "ip_changes plan = concat (map pl_backups parts) @ map pl_target parts @
      [mk_change m None (Some (serialise_manifest jc h
         \<lparr>mp_shell = mo_shell opts, mp_runtime = ap_value (mo_runtime opts),
          mp_entrypoint = ap_value (mo_entrypoint opts), mp_configuration = configuration_checksum jc h opts,
          mp_entries = map pl_entry parts\<rparr>))
         ''Commit the managed installation manifest and content checksums'' (Some 384)]"
proof -
  obtain parts where parts: "traverse (plan_candidate h opts (reads f)) (rights chosen) = Inr parts"
    using assms(1) unfolding activation_plan_def by (cases "traverse (plan_candidate h opts (reads f)) (rights chosen)") auto
  have "length (lefts chosen @
      duplicate_paths ''Two managed artifacts were configured for the same path''
        (map (\<lambda>c. da_path (ca_artifact c)) (rights chosen)) @
      concat (map pl_conflicts parts) @
      duplicate_paths ''A managed target, backup, or manifest resolves to the same path as another artifact''
        (map ic_path (concat (map pl_backups parts) @ map pl_target parts) @ [m])) = 0" (is "length ?cs = 0")
    using assms unfolding activation_plan_def parts
    by (auto simp: failed_plan_def Let_def split: if_splits simp del: append_eq_append_conv length_append length_greater_0_conv)
  then have empty: "?cs = []" by (rule length_0_conv [THEN iffD1])
  show ?thesis
  proof (rule that [OF parts])
    show "lefts chosen = []" "concat (map pl_conflicts parts) = []" using empty by simp_all
    show "distinct (map ap_value (map ic_path (concat (map pl_backups parts) @ map pl_target parts) @ [m]))"
      using empty by (simp only: append_is_Nil_conv duplicate_paths_Nil)
    have "plan = successful_plan Activate (concat (map pl_backups parts) @ map pl_target parts @
      [mk_change m None (Some (serialise_manifest jc h
         \<lparr>mp_shell = mo_shell opts, mp_runtime = ap_value (mo_runtime opts),
          mp_entrypoint = ap_value (mo_entrypoint opts), mp_configuration = configuration_checksum jc h opts,
          mp_entries = map pl_entry parts\<rparr>))
         ''Commit the managed installation manifest and content checksums'' (Some 384)])"
      using assms(1) unfolding activation_plan_def parts
      by (simp only: rmap_simps Let_def empty list.size less_irrefl if_False sum.inject)
    then show "ip_changes plan = concat (map pl_backups parts) @ map pl_target parts @
      [mk_change m None (Some (serialise_manifest jc h
         \<lparr>mp_shell = mo_shell opts, mp_runtime = ap_value (mo_runtime opts),
          mp_entrypoint = ap_value (mo_entrypoint opts), mp_configuration = configuration_checksum jc h opts,
          mp_entries = map pl_entry parts\<rparr>))
         ''Commit the managed installation manifest and content checksums'' (Some 384)]"
      by (simp only: successful_plan_def installation_plan.simps)
  qed
qed

lemma activation_cases:
  assumes "managed_plan jc h opts (reads f) Activate = Inr plan" "ip_conflicts plan = []"
    and "manifest_path opts = Inr m" "f (ap_value m) = None"
  obtains av where "activates jc h opts f av" "ip_changes plan = av_changes jc h opts av"
proof -
  have first: "plan_first_activation jc h opts (reads f) = Inr plan"
    using assms by (simp add: managed_plan_def read_manifest_def)
  then obtain bad where bad: "configuration_conflicts jc opts = Inr bad"
    by (auto simp: plan_first_activation_def)
  have "length bad = 0" using first bad assms(2) by (auto simp: plan_first_activation_def failed_plan_def split: if_splits)
  then have bad: "configuration_conflicts jc opts = Inr []" using bad by simp
  obtain owned where owned: "owned_artifacts opts = Inr owned" "repeated da_id [] owned = []"
    using bad by (auto simp: configuration_conflicts_def rmap_eq_Inr)
  obtain block where block: "profile_block opts = Inr block"
    using first bad owned by (auto simp: plan_first_activation_def)
  define chosen where "chosen = map owned_candidate (zip owned (map (\<lambda>a. f (ap_value (da_path a))) owned)) @
    options_to_list (map (profile_candidate opts block)
      (enumerate 0 (zip (mo_profiles opts) (map (\<lambda>p. f (ap_value p)) (mo_profiles opts))))) @
    [settings_candidate jc opts (f (ap_value (mo_claude opts)))]"
  have "traverse (reads f) (mo_profiles opts) = Inr (map (\<lambda>p. f (ap_value p)) (mo_profiles opts))"
    by (rule traverse_map_Inr) simp
  then have "activation_plan jc h opts (reads f) m chosen = Inr plan"
    using first unfolding plan_first_activation_def chosen_def by (simp add: bad owned block assms(3))
  then obtain parts where parts: "traverse (plan_candidate h opts (reads f)) (rights chosen) = Inr parts"
    and plan: "lefts chosen = []" "concat (map pl_conflicts parts) = []"
      "distinct (map ap_value (map ic_path (concat (map pl_backups parts) @ map pl_target parts) @ [m]))"
      "ip_changes plan = concat (map pl_backups parts) @ map pl_target parts @
        [mk_change m None (Some (serialise_manifest jc h
           \<lparr>mp_shell = mo_shell opts, mp_runtime = ap_value (mo_runtime opts),
            mp_entrypoint = ap_value (mo_entrypoint opts), mp_configuration = configuration_checksum jc h opts,
            mp_entries = map pl_entry parts\<rparr>))
           ''Commit the managed installation manifest and content checksums'' (Some 384)]"
    using assms(2) by (rule activation_plan_changes)
  let ?A = "map owned_candidate (zip owned (map (\<lambda>a. f (ap_value (da_path a))) owned))"
  let ?B = "options_to_list (map (profile_candidate opts block)
      (enumerate 0 (zip (mo_profiles opts) (map (\<lambda>p. f (ap_value p)) (mo_profiles opts)))))"
  let ?C = "[settings_candidate jc opts (f (ap_value (mo_claude opts)))]"
  have none: "lefts ?A = [] \<and> lefts ?B = [] \<and> lefts ?C = []"
    using plan(1) unfolding chosen_def by (simp only: lefts_simps append_is_Nil_conv)
  note none = none [THEN conjunct1] none [THEN conjunct2, THEN conjunct1] none [THEN conjunct2, THEN conjunct2]
  obtain xs where xs: "rights ?B = map (profile_artifact opts f block) xs" "subseq xs (enumerate 0 (mo_profiles opts))"
    using profile_candidates [OF none(2)] by (elim exE conjE)
  obtain content where content: "render_claude_settings jc opts (f (ap_value (mo_claude opts))) = Inr content"
    "rights ?C = [\<lparr>ca_artifact = (shared_artifact ''claude-settings'' (mo_claude opts))\<lparr>da_content := content\<rparr>,
        ca_before = f (ap_value (mo_claude opts))\<rparr>]"
    using settings_candidates [OF none(3)] by (elim exE conjE)
  note own = owned_candidates [OF none(1)]
  let ?av = "\<lparr>av_owned = owned, av_block = block, av_profiles = xs, av_settings = content, av_parts = parts, av_manifest = m\<rparr>"
  have cands: "rights chosen = av_candidates opts f ?av"
    unfolding chosen_def av_candidates_def by (simp only: rights_simps own xs(1) content(2) activation.simps)
  have "list_all2 (planned_as h opts f) (rights chosen) parts"
    using traverse_all2 [OF parts] plan(2) plan_candidate_as
    by (auto simp: list_all2_conv_all_nth)
  then have "activates jc h opts f ?av"
    using assms(3,4) owned own xs(2) content(1) plan(3)
    by (simp add: activates_def cands av_changes_def repeated_Nil change_key_def [abs_def] mk_change_def comp_def)
  moreover have "ip_changes plan = av_changes jc h opts ?av"
    using plan(4) by (simp add: av_changes_def av_payload_def)
  ultimately show ?thesis by (rule that)
qed

end
