(* ===== verification/ManagedRestore.thy ===== *)
theory ManagedRestore
  imports ManagedCycle "HOL-Library.Multiset" "HOL-Library.Countable"
begin

text \<open>
  Deactivation undoes activation: the manifest that an activation wrote passes the validation of
  a deactivation, whose plan puts back what every planned path held before.
\<close>

declare json_int_from.simps [simp del]

section \<open>The artifacts that a deactivation allows\<close>

definition artifact_key :: "desired_artifact \<Rightarrow> string \<times> abs_path \<times> artifact_ownership \<times> nat option" where
  "artifact_key a = (da_id a, da_path a, da_ownership a, da_mode a)"

lemma agent_shims_key:
  "agent_shims opts dir a c d = Inr u \<Longrightarrow> agent_shims opts dir a c' d' = Inr v \<Longrightarrow> map artifact_key u = map artifact_key v"
  by (auto simp: agent_shims_def artifact_key_def Let_def rmap_eq_Inr split: if_splits)

lemma target_shims_key:
  assumes "traverse (target_shims opts dir) (concat (map (\<lambda>a. case ex a of None \<Rightarrow> [] | Some t \<Rightarrow> [(a, t)]) as)) = Inr us"
    and "traverse (\<lambda>a. agent_shims opts dir a [] []) as = Inr vs"
  shows "subseq (map artifact_key (concat us)) (map artifact_key (concat vs))"
  using assms
proof (induction as arbitrary: us vs)
  case (Cons a as)
  obtain v vs' where v: "agent_shims opts dir a [] [] = Inr v" "traverse (\<lambda>a. agent_shims opts dir a [] []) as = Inr vs'" "vs = v # vs'"
    using Cons.prems(2) by auto
  show ?case
  proof (cases "ex a")
    case None
    then have "subseq (map artifact_key (concat us)) (map artifact_key (concat vs'))" using Cons.IH Cons.prems(1) v(2) by simp
    then show ?thesis using v(3) by (simp add: list_emb_append2)
  next
    case (Some t)
    then obtain u us' where u: "target_shims opts dir (a, t) = Inr u" "us = u # us'"
      "traverse (target_shims opts dir) (concat (map (\<lambda>a. case ex a of None \<Rightarrow> [] | Some t \<Rightarrow> [(a, t)]) as)) = Inr us'"
      using Cons.prems(1) by auto
    have "map artifact_key u = map artifact_key v"
      by (rule agent_shims_key [OF u(1) [unfolded target_shims_def fst_conv snd_conv] v(1)])
    moreover have "subseq (map artifact_key (concat us')) (map artifact_key (concat vs'))" using Cons.IH u(3) v(2) by simp
    ultimately show ?thesis using u(2) v(3) by (simp add: list_emb_append_mono)
  qed
qed simp

lemma owned_allowed:
  assumes "owned_artifacts opts = Inr owned" "allowed_artifacts opts = Inr allowed"
  obtains front where "allowed = front @ shared_artifacts opts" "subseq (map artifact_key owned) (map artifact_key front)"
    "init_id opts \<in> da_id ` set owned"
proof -
  obtain dir init us where owned: "shim_directory opts = Inr dir" "init_path opts = Inr init"
    "traverse (target_shims opts dir) (agent_targets opts) = Inr us"
    "owned = [init_artifact opts init (if mo_shell opts = PosixShell then render_posix_shell_init dir else render_power_shell_init dir)] @
       concat us @ map extra_artifact (mo_extra opts)"
    using assms(1) by (auto simp: owned_artifacts_def rmap_eq_Inr)
  obtain vs where vs: "traverse (\<lambda>agent. agent_shims opts dir agent [] []) managed_agents = Inr vs"
    "allowed = ([init_artifact opts init []] @ concat vs @ map (\<lambda>x. (extra_artifact x)\<lparr>da_content := []\<rparr>) (mo_extra opts)) @
       shared_artifacts opts"
    using assms(2) owned(1,2) by (auto simp: allowed_artifacts_def rmap_eq_Inr)
  have "subseq (map artifact_key (concat us)) (map artifact_key (concat vs))"
    using owned(3) vs(1) unfolding agent_targets_def by (rule target_shims_key)
  moreover have "artifact_key (init_artifact opts init c) = artifact_key (init_artifact opts init [])" for c
    by (simp add: artifact_key_def init_artifact_def)
  moreover have "subseq (map artifact_key (map extra_artifact xs))
      (map artifact_key (map (\<lambda>x. (extra_artifact x)\<lparr>da_content := []\<rparr>) xs))" for xs
    by (simp add: artifact_key_def comp_def)
  ultimately have "subseq (map artifact_key owned)
      (map artifact_key ([init_artifact opts init []] @ concat vs @ map (\<lambda>x. (extra_artifact x)\<lparr>da_content := []\<rparr>) (mo_extra opts)))"
    unfolding owned(4) map_append by (intro list_emb_append_mono) (assumption | simp)+
  moreover have "init_id opts \<in> da_id ` set owned" unfolding owned(4) by (simp add: init_artifact_def)
  ultimately show ?thesis using that vs(2) by blast
qed

lemma candidates_allowed:
  assumes "activates jc h opts f av" "allowed_artifacts opts = Inr allowed"
  shows "subseq (map (\<lambda>c. artifact_key (ca_artifact c)) (av_candidates opts f av)) (map artifact_key allowed)"
proof -
  have "owned_artifacts opts = Inr (av_owned av)" using assms(1) by (simp add: activates_def)
  then obtain front where front: "allowed = front @ shared_artifacts opts"
    "subseq (map artifact_key (av_owned av)) (map artifact_key front)"
    using assms(2) by (rule owned_allowed)
  have "subseq (map (\<lambda>x. artifact_key (shared_artifact (profile_id opts (fst x)) (snd x))) (av_profiles av))
      (map (\<lambda>x. artifact_key (shared_artifact (profile_id opts (fst x)) (snd x))) (enumerate 0 (mo_profiles opts)))"
    using assms(1) by (intro subseq_map) (simp add: activates_def)
  moreover have "artifact_key (ca_artifact (profile_artifact opts f block x)) =
      artifact_key (shared_artifact (profile_id opts (fst x)) (snd x))" for block x
    by (simp add: artifact_key_def profile_artifact_def)
  moreover have "artifact_key ((shared_artifact i p)\<lparr>da_content := t\<rparr>) = artifact_key (shared_artifact i p)" for i p t
    by (simp add: artifact_key_def)
  ultimately show ?thesis
    using front(2) unfolding front(1) av_candidates_def shared_artifacts_def map_append
    by (intro list_emb_append_mono) (simp_all add: comp_def case_prod_unfold)
qed

lemma artifact_named_distinct:
  assumes "distinct (map da_id as)" "a \<in> set as"
  shows "artifact_named as (da_id a) = Some a"
proof -
  have "distinct (map fst (rev (map (\<lambda>a. (da_id a, a)) as)))" using assms(1) by (simp add: rev_map [symmetric] comp_def)
  then show ?thesis unfolding artifact_named_def using assms(2) by (intro map_of_is_SomeI) auto
qed

lemma artifact_named_key:
  assumes "distinct (map da_id as)" "k \<in> set (map artifact_key as)"
  obtains a where "artifact_named as (fst k) = Some a" "artifact_key a = k"
proof -
  obtain a where a: "a \<in> set as" "artifact_key a = k" using assms(2) by auto
  then have "artifact_named as (fst k) = Some a"
    using artifact_named_distinct [OF assms(1) a(1)] a(2) [symmetric] by (simp add: artifact_key_def)
  then show ?thesis using that a(2) by blast
qed

section \<open>The manifest of an activation\<close>

text \<open>An entry that is planned for a candidate whose artifact is among the allowed ones passes.\<close>

lemma entry_passes:
  assumes "planned_as h opts f c pt" "sha_ok h" "distinct (map da_id allowed)"
    and "artifact_key (ca_artifact c) \<in> set (map artifact_key allowed)"
  shows "entry_fault jc h opts Deactivate allowed (pl_entry pt) = Inr None"
proof -
  obtain a where a: "artifact_named allowed (da_id (ca_artifact c)) = Some a" "artifact_key a = artifact_key (ca_artifact c)"
    using artifact_named_key [OF assms(3,4)] by (auto simp: artifact_key_def)
  note same = a(2) [unfolded artifact_key_def prod.inject]
  show ?thesis
  proof (cases "ca_before c")
    case None
    then show ?thesis using assms(1) a(1) same checksum_ok [OF assms(2)]
      by (simp add: entry_fault_def planned_as_def Let_def)
  next
    case (Some t)
    then show ?thesis using assms(1) a(1) same checksum_ok [OF assms(2)]
      by (auto simp: entry_fault_def planned_as_def Let_def)
  qed
qed

lemma entries_pass:
  assumes "\<forall>e \<in> set es. check e = Inr None" "distinct (map me_id es)" "set (map me_id es) \<inter> set seen = {}"
  shows "entries_fault jc check seen es = Inr None"
  using assms by (induction es arbitrary: seen) auto

lemma planned_candidate:
  assumes "list_all2 (planned_as h opts f) cs pts" "pt \<in> set pts"
  obtains c where "c \<in> set cs" "planned_as h opts f c pt"
proof -
  obtain i where "i < length pts" "pt = pts ! i" using assms(2) by (auto simp: in_set_conv_nth)
  then show ?thesis using that list_all2_nthD2 [OF assms(1)] list_all2_lengthD [OF assms(1)] by (metis nth_mem)
qed

lemma subseq_elem: "subseq xs ys \<Longrightarrow> x \<in> set xs \<Longrightarrow> x \<in> set ys"
  by (auto simp: subseq_conv_nths dest: in_set_nthsD)

lemma planned_ids:
  assumes "list_all2 (planned_as h opts f) cs pts"
  shows "map (\<lambda>pt. me_id (pl_entry pt)) pts = map (\<lambda>c. da_id (ca_artifact c)) cs"
  using assms by (induction rule: list_all2_induct) (simp_all add: planned_as_def)

lemma validation_passes:
  assumes "activates jc h opts f av" "sha_ok h" "allowed_artifacts opts = Inr allowed" "distinct (map da_id allowed)"
  shows "validate_manifest jc h opts (av_payload jc h opts av) Deactivate = Inr None"
proof -
  let ?cs = "av_candidates opts f av"
  have planned: "list_all2 (planned_as h opts f) ?cs (av_parts av)" using assms(1) by (simp add: activates_def)
  have sub: "subseq (map (\<lambda>c. artifact_key (ca_artifact c)) ?cs) (map artifact_key allowed)"
    using assms(1,3) by (rule candidates_allowed)
  have "subseq (map fst (map (\<lambda>c. artifact_key (ca_artifact c)) ?cs)) (map fst (map artifact_key allowed))"
    using sub by (rule subseq_map)
  then have "subseq (map (\<lambda>c. da_id (ca_artifact c)) ?cs) (map da_id allowed)" by (simp add: artifact_key_def comp_def)
  then have ids: "distinct (map (\<lambda>pt. me_id (pl_entry pt)) (av_parts av))"
    unfolding planned_ids [OF planned] using assms(4) by (auto simp: subseq_conv_nths distinct_nthsI)
  have pass: "entry_fault jc h opts Deactivate allowed (pl_entry pt) = Inr None" if pt: "pt \<in> set (av_parts av)" for pt
  proof -
    obtain c where c: "c \<in> set ?cs" "planned_as h opts f c pt" using planned pt by (rule planned_candidate)
    have "artifact_key (ca_artifact c) \<in> set (map (\<lambda>c. artifact_key (ca_artifact c)) ?cs)"
      unfolding set_map using c(1) by (rule imageI)
    then have "artifact_key (ca_artifact c) \<in> set (map artifact_key allowed)" by (rule subseq_elem [OF sub])
    then show ?thesis using entry_passes [OF c(2) assms(2,4)] by simp
  qed
  have "owned_artifacts opts = Inr (av_owned av)" using assms(1) by (simp add: activates_def)
  then have "init_id opts \<in> da_id ` set (av_owned av)" using assms(3) by (rule owned_allowed)
  then have "init_id opts \<in> (\<lambda>c. da_id (ca_artifact c)) ` set ?cs"
    unfolding av_candidates_def set_append image_Un set_map image_image by simp
  then have "init_id opts \<in> set (map (\<lambda>c. da_id (ca_artifact c)) ?cs)" by simp
  moreover have "''claude-settings'' \<in> set (map (\<lambda>c. da_id (ca_artifact c)) ?cs)"
    unfolding av_candidates_def map_append set_append by (simp add: shared_artifact_def)
  ultimately have "missing_fault jc opts Deactivate (map me_id (map pl_entry (av_parts av))) = Inr None"
    unfolding planned_ids [OF planned, symmetric] by (simp add: missing_fault_def comp_def)
  moreover have "entries_fault jc (entry_fault jc h opts Deactivate allowed) [] (map pl_entry (av_parts av)) = Inr None"
    using pass ids by (intro entries_pass) (auto simp: comp_def)
  ultimately show ?thesis using assms(3) by (simp add: validate_manifest_def av_payload_def)
qed

lemma mode_number_terms: "case mode_number m of None \<Rightarrow> True | Some n \<Rightarrow> lowest_terms n"
  by (cases m) (simp_all add: mode_number_def lowest_terms_json_int)

lemma payload_reads_back:
  assumes "activates jc h opts f av" "sha_ok h" "codec_ok jc"
  shows "read_manifest jc h (Some (serialise_manifest jc h (av_payload jc h opts av))) =
    ValidManifest (serialise_manifest jc h (av_payload jc h opts av)) (av_payload jc h opts av)"
proof -
  have "list_all2 (planned_as h opts f) (av_candidates opts f av) (av_parts av)" using assms(1) by (simp add: activates_def)
  then have "list_all entry_wf (map pl_entry (av_parts av))"
  proof (induction rule: list_all2_induct)
    case (Cons c cs pt pts)
    have "me_mode (pl_entry pt) = mode_number (da_mode (ca_artifact c))" using Cons.hyps by (simp add: planned_as_def)
    then have "entry_wf (pl_entry pt)" using mode_number_terms by (simp add: entry_wf_def)
    then show ?case using Cons.IH by simp
  qed simp
  then show ?thesis
    using assms(3) checksum_ok [OF assms(2)]
    by (intro manifest_reads_back) (simp_all add: av_payload_def configuration_checksum_def)
qed

section \<open>The plan of a deactivation\<close>

lemma execute_installs:
  assumes "execute_plan faults plan s = (Inr n, t)"
  shows "ip_conflicts plan = []" "fs_files t = installed (ip_changes plan) (fs_files s)"
proof -
  show none: "ip_conflicts plan = []" using assms by (auto simp: execute_plan_def split: if_splits)
  obtain c s1 where check: "check_preconditions faults (ip_changes plan) s = (c, s1)"
    by (cases "check_preconditions faults (ip_changes plan) s")
  obtain a s2 where app: "apply_loop faults (ip_changes plan) [] 0 s1 = (a, s2)"
    by (cases "apply_loop faults (ip_changes plan) [] 0 s1")
  have a: "a = Inr n" "t = s2"
    using assms none check app by (auto simp: execute_plan_def split: sum.splits prod.splits if_splits)
  have "undone (rev []) (fs_files s1) = fs_files s1" by (simp add: undone_def)
  from apply_loop_undo [OF app this] show "fs_files t = installed (ip_changes plan) (fs_files s)"
    using check_keeps [OF check] unfolding a by auto
qed

text \<open>What the snapshot of a planned artifact is once its change and its backup are written.\<close>

definition snapshot_of :: "planned \<Rightarrow> snapshot" where
  "snapshot_of pt =
     \<lparr>sh_entry = pl_entry pt, sh_path = ic_path (pl_target pt), sh_current = ic_after (pl_target pt),
      sh_backup = (case pl_backups pt of [] \<Rightarrow> None | c # _ \<Rightarrow> Some (ic_path c, ic_after c))\<rparr>"

definition written :: "files \<Rightarrow> planned \<Rightarrow> bool" where
  "written g pt \<longleftrightarrow> (\<forall>c \<in> set (pl_target pt # pl_backups pt). g (change_key c) = ic_after c \<and> of_path (change_key c) = Inr (ic_path c))"

lemma snapshot_taken:
  assumes "planned_as h opts f c pt" "written g pt"
  shows "take_snapshot (reads g) (pl_entry pt) = Inr (snapshot_of pt)" "snapshot_conflicts h (snapshot_of pt) = []"
proof -
  have target: "g (ap_value (da_path (ca_artifact c))) = Some (da_content (ca_artifact c))"
    "of_path (ap_value (da_path (ca_artifact c))) = Inr (da_path (ca_artifact c))"
    using assms by (auto simp: planned_as_def written_def change_key_def)
  have "take_snapshot (reads g) (pl_entry pt) = Inr (snapshot_of pt) \<and> snapshot_conflicts h (snapshot_of pt) = []"
  proof (cases "ca_before c")
    case None
    then show ?thesis using assms(1) target
      by (simp add: planned_as_def take_snapshot_def snapshot_of_def snapshot_conflicts_def matches_checksum_def)
  next
    case (Some t)
    then obtain b summary where b: "pl_backups pt = [mk_change b None (Some t) summary (Some 384)]"
      "me_original (pl_entry pt) = Some (content_checksum h t)" "me_backup (pl_entry pt) = Some (ap_value b)"
      using assms(1) by (auto simp: planned_as_def)
    have "g (ap_value b) = Some t" "of_path (ap_value b) = Inr b"
      using assms(2) b(1) by (auto simp: written_def change_key_def mk_change_def)
    then show ?thesis using assms(1) target b
      by (simp add: planned_as_def take_snapshot_def snapshot_of_def snapshot_conflicts_def matches_checksum_def mk_change_def)
  qed
  then show "take_snapshot (reads g) (pl_entry pt) = Inr (snapshot_of pt)" "snapshot_conflicts h (snapshot_of pt) = []" by simp_all
qed

text \<open>What a change does to its path, and what takes it back to \<open>f\<close>.\<close>

definition effect :: "installation_change \<Rightarrow> string \<times> string option \<times> string option" where
  "effect c = (change_key c, ic_before c, ic_after c)"

definition taken_back :: "files \<Rightarrow> installation_change \<Rightarrow> string \<times> string option \<times> string option" where
  "taken_back f c = (change_key c, ic_after c, f (change_key c))"

lemma effect_mk_change [simp]: "effect (mk_change p b a t m) = (ap_value p, b, a)"
  by (simp add: effect_def mk_change_def change_key_def)

lemma taken_back_mk_change [simp]: "taken_back f (mk_change p b a t m) = (ap_value p, a, f (ap_value p))"
  by (simp add: taken_back_def mk_change_def change_key_def)

lemma snapshot_takes_back:
  assumes "planned_as h opts f c pt" "ca_before c = f (ap_value (da_path (ca_artifact c)))"
  shows "effect (snapshot_target (snapshot_of pt)) = taken_back f (pl_target pt) \<and>
    map effect (snapshot_backup (snapshot_of pt)) = map (taken_back f) (pl_backups pt)"
proof (cases "ca_before c")
  case None
  then have "pl_backups pt = []" "ic_path (pl_target pt) = da_path (ca_artifact c)" using assms(1) by (simp_all add: planned_as_def)
  then show ?thesis using assms(2) None
    by (simp add: snapshot_target_def snapshot_backup_def snapshot_of_def taken_back_def change_key_def)
next
  case (Some t)
  then obtain b summary where "pl_backups pt = [mk_change b None (Some t) summary (Some 384)]" "f (ap_value b) = None"
    "ic_path (pl_target pt) = da_path (ca_artifact c)"
    using assms(1) by (auto simp: planned_as_def)
  then show ?thesis using assms(2) Some
    by (simp add: snapshot_target_def snapshot_backup_def snapshot_of_def taken_back_def change_key_def mk_change_def effect_def)
qed

definition undoing :: "json_codec \<Rightarrow> sha \<Rightarrow> managed_options \<Rightarrow> activation \<Rightarrow> installation_change list" where
  "undoing jc h opts av =
     map snapshot_target (rev (map snapshot_of (av_parts av))) @
     concat (map snapshot_backup (rev (map snapshot_of (av_parts av)))) @
     [mk_change (av_manifest av) (Some (serialise_manifest jc h (av_payload jc h opts av))) None
        ''Remove managed installation manifest'' None]"

lemma deactivation_plan:
  assumes "activates jc h opts f av" "sha_ok h" "codec_ok jc" "allowed_artifacts opts = Inr allowed" "distinct (map da_id allowed)"
    and "\<forall>pt \<in> set (av_parts av). written g pt"
    and "g (ap_value (av_manifest av)) = Some (serialise_manifest jc h (av_payload jc h opts av))"
  shows "managed_plan jc h opts (reads g) Deactivate = Inr (successful_plan Deactivate (undoing jc h opts av))"
proof -
  have m: "manifest_path opts = Inr (av_manifest av)" using assms(1) by (simp add: activates_def)
  have planned: "list_all2 (planned_as h opts f) (av_candidates opts f av) (av_parts av)" using assms(1) by (simp add: activates_def)
  have snap: "take_snapshot (reads g) (pl_entry pt) = Inr (snapshot_of pt) \<and> snapshot_conflicts h (snapshot_of pt) = []"
    if pt: "pt \<in> set (av_parts av)" for pt
  proof -
    obtain c where "planned_as h opts f c pt" using planned pt by (rule planned_candidate)
    then show ?thesis using snapshot_taken assms(6) pt by blast
  qed
  have "traverse (take_snapshot (reads g)) (map pl_entry pts) = Inr (map snapshot_of pts)"
    if "set pts \<subseteq> set (av_parts av)" for pts using that snap by (induction pts) auto
  then have taken: "traverse (take_snapshot (reads g)) (map pl_entry (av_parts av)) = Inr (map snapshot_of (av_parts av))" by simp
  have clean: "concat (map (snapshot_conflicts h) (map snapshot_of (av_parts av))) = []" using snap by simp
  have "mp_entries (av_payload jc h opts av) = map pl_entry (av_parts av)" by (simp add: av_payload_def)
  then have "plan_deactivation h opts (reads g) (serialise_manifest jc h (av_payload jc h opts av)) (av_payload jc h opts av) =
      Inr (successful_plan Deactivate (undoing jc h opts av))"
    unfolding plan_deactivation_def undoing_def
    by (simp only: taken m rbind_simps rmap_simps Let_def clean list.size less_irrefl if_False)
  then show ?thesis
    using m assms(7) payload_reads_back [OF assms(1,2,3)] validation_passes [OF assms(1,2,4,5)]
    by (simp add: managed_plan_def)
qed

section \<open>Back to what there was\<close>

lemma candidate_before:
  assumes "activates jc h opts f av" "c \<in> set (av_candidates opts f av)"
  shows "ca_before c = f (ap_value (da_path (ca_artifact c)))"
  using assms by (auto simp: activates_def av_candidates_def profile_artifact_def shared_artifact_def)

lemma part_takes_back:
  assumes "activates jc h opts f av" "pt \<in> set (av_parts av)"
  shows "effect (snapshot_target (snapshot_of pt)) = taken_back f (pl_target pt)"
    "map effect (snapshot_backup (snapshot_of pt)) = map (taken_back f) (pl_backups pt)"
proof -
  have "list_all2 (planned_as h opts f) (av_candidates opts f av) (av_parts av)" using assms(1) by (simp add: activates_def)
  then obtain c where "c \<in> set (av_candidates opts f av)" "planned_as h opts f c pt" using assms(2) by (rule planned_candidate)
  then show "effect (snapshot_target (snapshot_of pt)) = taken_back f (pl_target pt)"
    "map effect (snapshot_backup (snapshot_of pt)) = map (taken_back f) (pl_backups pt)"
    using snapshot_takes_back candidate_before [OF assms(1)] by blast+
qed

lemma undoing_effects:
  assumes "activates jc h opts f av"
  shows "mset (map effect (undoing jc h opts av)) = mset (map (taken_back f) (av_changes jc h opts av))"
proof -
  let ?pts = "av_parts av"
  have "mset (map effect (map snapshot_target (rev (map snapshot_of pts)))) = mset (map (taken_back f) (map pl_target pts)) \<and>
      mset (map effect (concat (map snapshot_backup (rev (map snapshot_of pts))))) =
      mset (map (taken_back f) (concat (map pl_backups pts)))"
    if "set pts \<subseteq> set ?pts" for pts
    using that
  proof (induction pts)
    case (Cons pt pts)
    then have "pt \<in> set ?pts" by simp
    note part_takes_back [OF assms this]
    then show ?case using Cons by (simp flip: mset_map)
  qed simp
  then have "mset (map effect (map snapshot_target (rev (map snapshot_of ?pts)))) = mset (map (taken_back f) (map pl_target ?pts))"
    "mset (map effect (concat (map snapshot_backup (rev (map snapshot_of ?pts))))) = mset (map (taken_back f) (concat (map pl_backups ?pts)))"
    by blast+
  moreover have "f (ap_value (av_manifest av)) = None" using assms by (simp add: activates_def)
  ultimately show ?thesis by (simp add: undoing_def av_changes_def del: mset_map)
qed

lemma undoing_restores:
  assumes "activates jc h opts f av" "g = installed (av_changes jc h opts av) f"
  shows "current g (undoing jc h opts av)" "distinct (map change_key (undoing jc h opts av))"
    "installed (undoing jc h opts av) g = f"
proof -
  let ?cs = "av_changes jc h opts av" and ?us = "undoing jc h opts av"
  have dist: "distinct (map change_key ?cs)" using assms(1) by (simp add: activates_def)
  have keys: "map change_key xs = map fst (map effect xs)" "map change_key xs = map fst (map (taken_back f) xs)" for xs
    by (simp_all add: effect_def taken_back_def)
  note same = undoing_effects [OF assms(1)]
  then have "mset (map fst (map effect ?us)) = mset (map fst (map (taken_back f) ?cs))" by (simp only: mset_map)
  then have same_keys: "mset (map change_key ?us) = mset (map change_key ?cs)" by (simp only: keys(1) [of ?us] keys(2) [of ?cs])
  show dist': "distinct (map change_key ?us)" using mset_eq_imp_distinct_iff [OF same_keys] dist by simp
  have reverted: "ic_before c = g (change_key c) \<and> ic_after c = f (change_key c)" if "c \<in> set ?us" for c
  proof -
    have "effect c \<in> set (map (taken_back f) ?cs)"
      unfolding mset_eq_setD [OF same, symmetric] using that by simp
    then obtain d where d: "d \<in> set ?cs" "effect c = taken_back f d" by auto
    then have "g (change_key d) = ic_after d" using installed_at [OF dist] assms(2) by simp
    then show ?thesis using d(2) by (simp add: effect_def taken_back_def)
  qed
  show "current g ?us" using reverted by (simp add: current_def)
  show "installed ?us g = f"
  proof
    fix v
    show "installed ?us g v = f v"
    proof (cases "v \<in> change_key ` set ?us")
      case True
      then obtain c where "c \<in> set ?us" "v = change_key c" by auto
      then show ?thesis using installed_at [OF dist'] reverted by simp
    next
      case False
      moreover have "change_key ` set ?us = change_key ` set ?cs" using mset_eq_setD [OF same_keys] by simp
      ultimately show ?thesis using assms(2) installed_other by simp
    qed
  qed
qed

text \<open>C20: an installation that was activated without an error can be taken back: deactivation
  plans no conflict, its execution does not fail, and every file - the settings and profiles it
  was merged into, the backups, the manifest - is as it was before the activation.\<close>

theorem deactivation_restores:
  assumes "sha_ok h" "codec_ok jc" "allowed_artifacts opts = Inr allowed" "distinct (map da_id allowed)"
    and "manifest_path opts = Inr m" "fs_files s (ap_value m) = None"
    and "managed_plan jc h opts (reads (fs_files s)) Activate = Inr plan"
    and "\<forall>c \<in> set (ip_changes plan). of_path (ap_value (ic_path c)) = Inr (ic_path c)"
    and "execute_plan faults plan s = (Inr n, t)"
  shows "\<exists>undo u. managed_plan jc h opts (reads (fs_files t)) Deactivate = Inr undo \<and>
    execute_plan no_faults_at_all undo t = (Inr (length (ip_changes undo)), u) \<and> fs_files u = fs_files s"
proof -
  note ran = execute_installs [OF assms(9)]
  obtain av where av: "activates jc h opts (fs_files s) av" "ip_changes plan = av_changes jc h opts av"
    using assms(7) ran(1) assms(5,6) by (rule activation_cases)
  have files: "fs_files t = installed (av_changes jc h opts av) (fs_files s)" using ran(2) av(2) by simp
  have "m = av_manifest av" using av(1) assms(5) by (simp add: activates_def)
  have dist: "distinct (map change_key (av_changes jc h opts av))" using av(1) by (simp add: activates_def)
  have at: "fs_files t (change_key c) = ic_after c \<and> of_path (change_key c) = Inr (ic_path c)"
    if "c \<in> set (av_changes jc h opts av)" for c
    using installed_at [OF dist that] assms(8) that files av(2) by (simp add: change_key_def)
  have "\<forall>pt \<in> set (av_parts av). written (fs_files t) pt"
    using at unfolding written_def av_changes_def by auto
  moreover have "fs_files t (ap_value (av_manifest av)) = Some (serialise_manifest jc h (av_payload jc h opts av))"
    using at [of "mk_change (av_manifest av) None (Some (serialise_manifest jc h (av_payload jc h opts av)))
        ''Commit the managed installation manifest and content checksums'' (Some 384)"]
    by (simp add: av_changes_def mk_change_def change_key_def)
  ultimately have plan: "managed_plan jc h opts (reads (fs_files t)) Deactivate = Inr (successful_plan Deactivate (undoing jc h opts av))"
    by (rule deactivation_plan [OF av(1) assms(1-4)])
  note reverted = undoing_restores [OF av(1) files]
  have "\<exists>u. execute_plan no_faults_at_all (successful_plan Deactivate (undoing jc h opts av)) t =
      (Inr (length (ip_changes (successful_plan Deactivate (undoing jc h opts av)))), u) \<and>
      fs_files u = installed (ip_changes (successful_plan Deactivate (undoing jc h opts av))) (fs_files t)"
    using reverted by (intro execute_succeeds) (simp_all add: successful_plan_def)
  then show ?thesis using plan reverted(3) by (auto simp: successful_plan_def)
qed

text \<open>A codec that keeps the law, and an installation into a home that has one profile.\<close>

instance js_number :: countable
  by countable_datatype

instance json :: countable
  by countable_datatype

definition sample_pretty :: "json \<Rightarrow> string" where
  "sample_pretty j = replicate (to_nat j) (CHR ''x'')"

definition sample_codec :: json_codec where
  "sample_codec =
     \<lparr>jc_parse = (\<lambda>t. Some (from_nat (length t - 1))), jc_fault = (\<lambda>_. []), jc_compact = (\<lambda>_. []), jc_pretty = sample_pretty\<rparr>"

lemma sample_codec_ok: "codec_ok sample_codec"
  by (simp add: codec_ok_def sample_codec_def sample_pretty_def)

definition sample_options :: managed_options where
  "sample_options =
     \<lparr>mo_home = mk_posix [''h''], mo_state = mk_posix [''h'', ''s''], mo_shell = PosixShell,
      mo_runtime = mk_posix [''n''], mo_entrypoint = mk_posix [''e''],
      mo_executables = (\<lambda>a. if a = ''claude'' then Some (mk_posix [''c'']) else None),
      mo_profiles = [mk_posix [''h'', ''.zshrc''], mk_posix [''h'', ''.bashrc'']],
      mo_claude = mk_posix [''h'', ''.claude'', ''settings.json''], mo_extra = []\<rparr>"

definition sample_home :: files where
  "sample_home v = (if v = ''/h/.zshrc'' then Some ''x'' else None)"

definition sample_activation :: installation_plan where
  "sample_activation =
     (case managed_plan sample_codec zero_sha sample_options (reads sample_home) Activate of
        Inr plan \<Rightarrow> plan | Inl _ \<Rightarrow> failed_plan Activate [])"


lemma sample_activation_plan: "managed_plan sample_codec zero_sha sample_options (reads sample_home) Activate = Inr sample_activation"
proof -
  have "is_ok (managed_plan sample_codec zero_sha sample_options (reads sample_home) Activate)" by code_simp
  then show ?thesis by (auto simp: sample_activation_def is_ok_iff)
qed

lemma deactivation_restores_witness:
  "\<exists>t undo u. execute_plan no_faults_at_all sample_activation \<lparr>fs_files = sample_home, fs_ops = 0\<rparr> = (Inr 6, t) \<and>
     managed_plan sample_codec zero_sha sample_options (reads (fs_files t)) Deactivate = Inr undo \<and>
     execute_plan no_faults_at_all undo t = (Inr (length (ip_changes undo)), u) \<and> fs_files u = sample_home"
proof -
  let ?s = "\<lparr>fs_files = sample_home, fs_ops = 0\<rparr>"
  have plan: "ip_conflicts sample_activation = []" "current sample_home (ip_changes sample_activation)"
    "distinct (map change_key (ip_changes sample_activation))" "length (ip_changes sample_activation) = 6"
    "\<forall>c \<in> set (ip_changes sample_activation). of_path (ap_value (ic_path c)) = Inr (ic_path c)" by code_simp+
  obtain t where t: "execute_plan no_faults_at_all sample_activation ?s = (Inr 6, t)"
    using execute_succeeds [of sample_activation ?s] plan by auto
  have config: "is_ok (allowed_artifacts sample_options)" "is_ok (manifest_path sample_options)"
    "distinct (map da_id (case allowed_artifacts sample_options of Inr xs \<Rightarrow> xs | Inl _ \<Rightarrow> []))"
    "sample_home (case manifest_path sample_options of Inr m \<Rightarrow> ap_value m | Inl _ \<Rightarrow> []) = None" by code_simp+
  obtain allowed where allowed: "allowed_artifacts sample_options = Inr allowed" using config(1) by (auto simp: is_ok_iff)
  obtain m where m: "manifest_path sample_options = Inr m" using config(2) by (auto simp: is_ok_iff)
  have "\<exists>undo u. managed_plan sample_codec zero_sha sample_options (reads (fs_files t)) Deactivate = Inr undo \<and>
      execute_plan no_faults_at_all undo t = (Inr (length (ip_changes undo)), u) \<and> fs_files u = fs_files ?s"
    using zero_sha_ok sample_codec_ok allowed _ m
  proof (rule deactivation_restores)
    show "distinct (map da_id allowed)" using config(3) allowed by simp
    show "fs_files ?s (ap_value m) = None" using config(4) m by simp
    show "managed_plan sample_codec zero_sha sample_options (reads (fs_files ?s)) Activate = Inr sample_activation"
      using sample_activation_plan by simp
    show "execute_plan no_faults_at_all sample_activation ?s = (Inr 6, t)" by (rule t)
  qed (rule plan(5))
  then show ?thesis using t by auto
qed

end
