(* ===== verification/ManagedRepair.thy ===== *)
theory ManagedRepair
  imports ManagedRestore
begin

text \<open>
  What an activation adds and what a repair of an installed system does: it gives every managed
  file the content that the manifest records, and it changes neither the manifest nor a file
  that the manifest does not name. The last part has the consequence for an upgrade: an
  activation that refuses until the installation is repaired refuses after the repair as well.
\<close>

section \<open>An activation only adds\<close>

definition adds_to :: "string \<Rightarrow> string \<Rightarrow> bool" where
  "adds_to t u \<longleftrightarrow> (\<exists>a x b. t = a @ b \<and> u = a @ x @ b)"

lemma part_adds:
  assumes "planned_as h opts f c pt" "ca_before c = f (ap_value (da_path (ca_artifact c)))"
    and "\<forall>t. ca_before c = Some t \<longrightarrow> adds_to t (da_content (ca_artifact c))"
    and "d \<in> set (pl_target pt # pl_backups pt)"
  shows "ic_before d = f (change_key d) \<and>
    (\<exists>u. ic_after d = Some u \<and> (\<forall>t. ic_before d = Some t \<longrightarrow> adds_to t u))"
proof (cases "d = pl_target pt")
  case True
  then show ?thesis using assms(1,2,3) by (auto simp: planned_as_def change_key_def)
next
  case False
  then have d: "d \<in> set (pl_backups pt)" using assms(4) by simp
  then obtain t where t: "ca_before c = Some t" using assms(1) by (cases "ca_before c") (auto simp: planned_as_def)
  then obtain b summary where "d = mk_change b None (Some t) summary (Some 384)" "f (ap_value b) = None"
    using assms(1) d by (auto simp: planned_as_def)
  then show ?thesis by (simp add: mk_change_def change_key_def)
qed

lemma candidate_adds:
  assumes "activates jc h opts f av" "c \<in> set (av_candidates opts f av)" "ca_before c = Some t"
  shows "adds_to t (da_content (ca_artifact c))"
proof -
  consider y where "c = profile_artifact opts f (av_block av) y"
    | "c = \<lparr>ca_artifact = (shared_artifact ''claude-settings'' (mo_claude opts))\<lparr>da_content := av_settings av\<rparr>,
         ca_before = f (ap_value (mo_claude opts))\<rparr>"
    using assms(2,3) unfolding av_candidates_def set_append by auto
  then show ?thesis
  proof cases
    case 1
    then have "da_content (ca_artifact c) = append_profile_block (Some t) (av_block av)"
      using assms(3) by (simp add: profile_artifact_def)
    then show ?thesis using append_profile_block_adds [of t "av_block av"] unfolding adds_to_def by (metis append_Nil2)
  next
    case 2
    moreover have "render_claude_settings jc opts (f (ap_value (mo_claude opts))) = Inr (av_settings av)"
      using assms(1) by (simp add: activates_def)
    ultimately show ?thesis using assms(3) render_settings_adds [of jc opts t "av_settings av"] by (auto simp: adds_to_def)
  qed
qed

text \<open>C21: an activation without conflicts loses nothing: each of its changes expects what the
  file holds now and writes it again, in full and in order, around what it inserts.\<close>

theorem activation_only_adds:
  assumes "managed_plan jc h opts (reads f) Activate = Inr plan" "ip_conflicts plan = []"
    and "manifest_path opts = Inr m" "f (ap_value m) = None" "d \<in> set (ip_changes plan)"
  shows "ic_before d = f (ap_value (ic_path d)) \<and>
    (\<exists>u. ic_after d = Some u \<and> (\<forall>t. ic_before d = Some t \<longrightarrow> adds_to t u))"
proof -
  obtain av where av: "activates jc h opts f av" "ip_changes plan = av_changes jc h opts av"
    using assms(1-4) by (rule activation_cases)
  have m: "f (ap_value (av_manifest av)) = None" using av(1) by (simp add: activates_def)
  have planned: "list_all2 (planned_as h opts f) (av_candidates opts f av) (av_parts av)" using av(1) by (simp add: activates_def)
  have part: ?thesis if pt: "pt \<in> set (av_parts av)" "d \<in> set (pl_target pt # pl_backups pt)" for pt
  proof -
    obtain c where c: "c \<in> set (av_candidates opts f av)" "planned_as h opts f c pt" using planned pt(1) by (rule planned_candidate)
    show ?thesis
      using part_adds [OF c(2) candidate_before [OF av(1) c(1)] _ pt(2)] candidate_adds [OF av(1) c(1)]
      unfolding change_key_def by blast
  qed
  have "d \<in> set (av_changes jc h opts av)" using assms(5) av(2) by simp
  then consider pt where "pt \<in> set (av_parts av)" "d \<in> set (pl_target pt # pl_backups pt)"
    | "d = mk_change (av_manifest av) None (Some (serialise_manifest jc h (av_payload jc h opts av)))
        ''Commit the managed installation manifest and content checksums'' (Some 384)"
    unfolding av_changes_def by auto
  then show ?thesis
  proof cases
    case 1
    then show ?thesis by (rule part)
  next
    case 2
    then show ?thesis using m by (simp add: mk_change_def)
  qed
qed

lemma activation_only_adds_witness:
  "\<exists>d \<in> set (ip_changes sample_activation). ap_value (ic_path d) = ''/h/.zshrc'' \<and> ic_before d = Some ''x'' \<and>
     (\<exists>u. ic_after d = Some u \<and> adds_to ''x'' u)"
proof -
  have there: "\<exists>d \<in> set (ip_changes sample_activation). ap_value (ic_path d) = ''/h/.zshrc''"
    "ip_conflicts sample_activation = []" by code_simp+
  have config: "is_ok (manifest_path sample_options)"
    "sample_home (case manifest_path sample_options of Inr m \<Rightarrow> ap_value m | Inl _ \<Rightarrow> []) = None" by code_simp+
  obtain m where m: "manifest_path sample_options = Inr m" using config(1) by (auto simp: is_ok_iff)
  obtain d where d: "d \<in> set (ip_changes sample_activation)" "ap_value (ic_path d) = ''/h/.zshrc''" using there(1) by blast
  have "sample_home (ap_value m) = None" using config(2) m by simp
  note adds = activation_only_adds [OF sample_activation_plan there(2) m this d(1), unfolded d(2)]
  have "sample_home ''/h/.zshrc'' = Some ''x''" by (simp add: sample_home_def)
  then have "ic_before d = Some ''x''" using adds by simp
  then show ?thesis using d adds by blast
qed

section \<open>What a repair does\<close>

text \<open>A path of the manifest that the code reads back as the same path.\<close>

definition plain_entry :: "manifest_entry \<Rightarrow> bool" where
  "plain_entry e \<longleftrightarrow> (\<exists>q. of_path (me_path e) = Inr q \<and> ap_value q = me_path e)"

lemma plain_entry_code [code]: "plain_entry e = (case of_path (me_path e) of Inl _ \<Rightarrow> False | Inr q \<Rightarrow> ap_value q = me_path e)"
  by (simp add: plain_entry_def split: sum.splits)

definition as_installed :: "sha \<Rightarrow> string option \<Rightarrow> manifest_entry \<Rightarrow> bool" where
  "as_installed h content e = matches_checksum h content (Some (me_installed e))"

lemma entry_repaired:
  assumes "installed_entry h Repair owned (reads f) e = Inr x" "plain_entry e"
  shows "x = None \<and> as_installed h (f (me_path e)) e \<or> (\<exists>b. x = Some (Inl b)) \<or>
    (\<exists>d. x = Some (Inr d) \<and> change_key d = me_path e \<and> as_installed h (ic_after d) e)"
proof -
  obtain q where q: "of_path (me_path e) = Inr q" "ap_value q = me_path e" using assms(2) by (auto simp: plain_entry_def)
  show ?thesis
    using assms(1) q
    by (cases "artifact_named owned (me_id e)")
      (auto simp: installed_entry_def as_installed_def matches_checksum_def change_key_def mk_change_def split: if_splits)
qed

lemma options_to_list_simps:
  "options_to_list [] = []" "options_to_list (None # xs) = options_to_list xs" "options_to_list (Some x # xs) = x # options_to_list xs"
  by (simp_all add: options_to_list_def)

lemma entries_repaired:
  assumes "traverse (installed_entry h Repair owned (reads f)) es = Inr found" "lefts (options_to_list found) = []"
    and "\<forall>e \<in> set es. plain_entry e"
  shows "subseq (map change_key (rights (options_to_list found))) (map me_path es) \<and>
    (\<forall>e \<in> set es. as_installed h (f (me_path e)) e \<or> me_path e \<in> change_key ` set (rights (options_to_list found))) \<and>
    (\<forall>d \<in> set (rights (options_to_list found)). \<exists>e \<in> set es. change_key d = me_path e \<and> as_installed h (ic_after d) e)"
  using assms
proof (induction es arbitrary: found)
  case Nil
  then show ?case by (simp add: options_to_list_simps)
next
  case (Cons e es)
  obtain x xs where x: "installed_entry h Repair owned (reads f) e = Inr x"
    "traverse (installed_entry h Repair owned (reads f)) es = Inr xs" "found = x # xs"
    using Cons.prems(1) by (auto simp del: reads_simp)
  have "plain_entry e" using Cons.prems(3) by simp
  note one = entry_repaired [OF x(1) this]
  have "lefts (options_to_list xs) = []"
    using Cons.prems(2) unfolding x(3) by (cases x; cases "the x") (simp_all add: options_to_list_simps)
  note rest = Cons.IH [OF x(2) this] Cons.prems(3)
  consider "x = None" "as_installed h (f (me_path e)) e"
    | d where "x = Some (Inr d)" "change_key d = me_path e" "as_installed h (ic_after d) e"
    using one Cons.prems(2) unfolding x(3) by (auto simp: options_to_list_simps)
  then show ?case
  proof cases
    case 1
    then show ?thesis using rest unfolding x(3) by (auto simp: options_to_list_simps)
  next
    case 2
    then show ?thesis using rest unfolding x(3) by (auto simp: options_to_list_simps)
  qed
qed

lemma repair_cases:
  assumes "managed_plan jc h opts (reads f) Repair = Inr plan" "ip_conflicts plan = []"
    and "manifest_path opts = Inr m" "read_manifest jc h (f (ap_value m)) = ValidManifest raw p"
  obtains owned found where "traverse (installed_entry h Repair owned (reads f)) (mp_entries p) = Inr found"
    "lefts (options_to_list found) = []" "ip_changes plan = rights (options_to_list found)"
    "validate_manifest jc h opts p Repair = Inr None"
proof -
  obtain fault where fault: "validate_manifest jc h opts p Repair = Inr fault"
    using assms(1,3,4) by (auto simp: managed_plan_def)
  then have none: "fault = None" using assms by (cases fault) (auto simp: managed_plan_def failed_plan_def)
  then have plan: "plan_installed h opts (reads f) Repair p = Inr plan"
    using assms(1,3,4) fault by (simp add: managed_plan_def)
  then obtain drifted owned where "traverse (backup_conflict h (reads f)) (mp_entries p) = Inr drifted"
    "owned_artifacts opts = Inr owned" by (auto simp: plan_installed_def)
  then obtain found where found: "traverse (installed_entry h Repair owned (reads f)) (mp_entries p) = Inr found"
    "plan = (let parts = options_to_list found; conflicts = concat drifted @ lefts parts
       in if length conflicts > 0 then failed_plan Repair conflicts else successful_plan Repair (rights parts))"
    using plan by (auto simp: plan_installed_def rmap_eq_Inr)
  have "length (concat drifted @ lefts (options_to_list found)) = 0"
    using found(2) assms(2) by (auto simp: Let_def failed_plan_def split: if_splits)
  then have empty: "concat drifted @ lefts (options_to_list found) = []" by (rule length_0_conv [THEN iffD1])
  then have "lefts (options_to_list found) = []" by simp
  moreover have "ip_changes plan = rights (options_to_list found)"
    using found(2) unfolding Let_def empty by (simp add: successful_plan_def)
  ultimately show ?thesis using that found(1) fault none by simp
qed

text \<open>C23: a repair that is carried out leaves every file of the manifest with the content whose
  checksum the manifest records, shared files included.\<close>

theorem repair_restores_contents:
  assumes "managed_plan jc h opts (reads (fs_files s)) Repair = Inr plan" "execute_plan faults plan s = (Inr n, t)"
    and "manifest_path opts = Inr m" "read_manifest jc h (fs_files s (ap_value m)) = ValidManifest raw p"
    and "distinct (map me_path (mp_entries p))" "\<forall>e \<in> set (mp_entries p). plain_entry e" "e \<in> set (mp_entries p)"
  shows "\<exists>content. fs_files t (me_path e) = Some content \<and> content_checksum h content = me_installed e"
proof -
  note ran = execute_installs [OF assms(2)]
  obtain owned found where found: "traverse (installed_entry h Repair owned (reads (fs_files s))) (mp_entries p) = Inr found"
    "lefts (options_to_list found) = []" "ip_changes plan = rights (options_to_list found)"
    using assms(1) ran(1) assms(3,4) by (rule repair_cases)
  let ?cs = "rights (options_to_list found)"
  have all: "subseq (map change_key ?cs) (map me_path (mp_entries p))"
    "\<forall>e \<in> set (mp_entries p). as_installed h (fs_files s (me_path e)) e \<or> me_path e \<in> change_key ` set ?cs"
    "\<forall>d \<in> set ?cs. \<exists>e \<in> set (mp_entries p). change_key d = me_path e \<and> as_installed h (ic_after d) e"
    using entries_repaired [OF found(1,2) assms(6)] by blast+
  have keys: "distinct (map change_key ?cs)" using all(1) assms(5) by (auto simp: subseq_conv_nths distinct_nthsI)
  have files: "fs_files t = installed ?cs (fs_files s)" using ran(2) found(3) by simp
  have "as_installed h (fs_files t (me_path e)) e"
  proof (cases "me_path e \<in> change_key ` set ?cs")
    case True
    then obtain d where d: "d \<in> set ?cs" "change_key d = me_path e" by auto
    then obtain e' where e': "e' \<in> set (mp_entries p)" "change_key d = me_path e'" "as_installed h (ic_after d) e'"
      using all(3) by blast
    then have "e' = e" using d(2) assms(5,7) by (auto simp: distinct_map dest: inj_onD)
    then show ?thesis using installed_at [OF keys d(1)] d(2) e'(3) files by simp
  next
    case False
    then show ?thesis using all(2) assms(7) installed_other [of "me_path e" ?cs] files by auto
  qed
  then show ?thesis by (auto simp: as_installed_def matches_checksum_def split: option.splits)
qed

text \<open>C38: a repair never brings an installation up to date: where the options differ from those
  of the manifest, an activation refuses and asks for a repair, and after the repair, carried out
  without an error, it still does. The repair writes only files of the manifest and never the
  manifest.\<close>

theorem repair_never_reconciles:
  assumes "managed_plan jc h opts (reads (fs_files s)) Repair = Inr plan" "execute_plan faults plan s = (Inr n, t)"
    and "manifest_path opts = Inr m" "read_manifest jc h (fs_files s (ap_value m)) = ValidManifest raw p"
    and "mp_configuration p \<noteq> configuration_checksum jc h opts"
    and "\<forall>e \<in> set (mp_entries p). plain_entry e \<and> me_path e \<noteq> ap_value m"
  shows "fs_files t (ap_value m) = fs_files s (ap_value m) \<and>
    managed_plan jc h opts (reads (fs_files t)) Activate = Inr (failed_plan Activate
      [conflict_at ''configuration-mismatch'' m
         ''Installation options differ from the options recorded by the manifest; run `agentkeeper repair` to reconcile them''])"
proof -
  note ran = execute_installs [OF assms(2)]
  obtain owned found where found: "traverse (installed_entry h Repair owned (reads (fs_files s))) (mp_entries p) = Inr found"
    "lefts (options_to_list found) = []" "ip_changes plan = rights (options_to_list found)"
    "validate_manifest jc h opts p Repair = Inr None"
    using assms(1) ran(1) assms(3,4) by (rule repair_cases)
  have "ap_value m \<notin> change_key ` set (ip_changes plan)"
    using entries_repaired [OF found(1,2)] found(3) assms(6) by fastforce
  then have keeps: "fs_files t (ap_value m) = fs_files s (ap_value m)" unfolding ran(2) by (rule installed_other)
  have "mp_shell p = mo_shell opts" "mp_runtime p = ap_value (mo_runtime opts)" "mp_entrypoint p = ap_value (mo_entrypoint opts)"
    using found(4) by (auto simp: validate_manifest_def split: if_splits)
  then have "validate_manifest jc h opts p Activate =
      Inr (Some ''Installation options differ from the options recorded by the manifest; run `agentkeeper repair` to reconcile them'')"
    using assms(5) by (simp add: validate_manifest_def)
  then show ?thesis using keeps assms(3,4) by (simp add: managed_plan_def)
qed

text \<open>A system whose manifest was written for other options and whose shell script is gone.\<close>

definition older_manifest :: manifest_payload where
  "older_manifest =
     \<lparr>mp_shell = PosixShell, mp_runtime = ''/n'', mp_entrypoint = ''/e'',
      mp_configuration = ''sha256:'' @ replicate 64 (CHR ''1''),
      mp_entries =
        [\<lparr>me_id = ''shell-init:posix'', me_path = ''/h/s/shell/agentkeeper.sh'', me_ownership = Owned,
          me_installed = content_checksum zero_sha [], me_original = None, me_backup = None, me_mode = mode_number (Some 384)\<rparr>,
         \<lparr>me_id = ''claude-settings'', me_path = ''/h/.claude/settings.json'', me_ownership = Shared,
          me_installed = content_checksum zero_sha [], me_original = None, me_backup = None, me_mode = None\<rparr>]\<rparr>"

definition older_codec :: json_codec where
  "older_codec =
     \<lparr>jc_parse = (\<lambda>_. Some (JObject [(''checksum'', JString (content_checksum zero_sha [])), (''payload'', payload_json older_manifest)])),
      jc_fault = (\<lambda>_. []), jc_compact = (\<lambda>_. []), jc_pretty = (\<lambda>_. [])\<rparr>"

definition older_home :: files where
  "older_home v =
     (if v = ''/h/s/installation/manifest.json'' then Some ''m'' else if v = ''/h/.claude/settings.json'' then Some ''s'' else None)"

definition older_repair :: installation_plan where
  "older_repair =
     (case managed_plan older_codec zero_sha sample_options (reads older_home) Repair of
        Inr plan \<Rightarrow> plan | Inl _ \<Rightarrow> failed_plan Repair [])"

lemma older_repair_runs:
  obtains t m where
    "managed_plan older_codec zero_sha sample_options (reads older_home) Repair = Inr older_repair"
    "execute_plan no_faults_at_all older_repair \<lparr>fs_files = older_home, fs_ops = 0\<rparr> = (Inr 1, t)"
    "manifest_path sample_options = Inr m" "ap_value m = ''/h/s/installation/manifest.json''"
    "read_manifest older_codec zero_sha (older_home (ap_value m)) = ValidManifest ''m'' older_manifest"
proof -
  have runs: "case managed_plan older_codec zero_sha sample_options (reads older_home) Repair of
      Inl _ \<Rightarrow> False
    | Inr plan \<Rightarrow> ip_conflicts plan = [] \<and> current older_home (ip_changes plan) \<and>
        distinct (map change_key (ip_changes plan)) \<and> length (ip_changes plan) = 1" by code_simp
  then obtain plan where "managed_plan older_codec zero_sha sample_options (reads older_home) Repair = Inr plan"
    by (cases "managed_plan older_codec zero_sha sample_options (reads older_home) Repair") simp_all
  then have plan: "managed_plan older_codec zero_sha sample_options (reads older_home) Repair = Inr older_repair"
    by (simp add: older_repair_def)
  note runs = runs [unfolded plan sum.case]
  obtain t where t: "execute_plan no_faults_at_all older_repair \<lparr>fs_files = older_home, fs_ops = 0\<rparr> = (Inr 1, t)"
    using execute_succeeds [of older_repair "\<lparr>fs_files = older_home, fs_ops = 0\<rparr>"] runs by auto
  have m: "manifest_path sample_options = Inr (mk_posix [''h'', ''s'', ''installation'', ''manifest.json''])"
    "ap_value (mk_posix [''h'', ''s'', ''installation'', ''manifest.json'']) = ''/h/s/installation/manifest.json''" by code_simp+
  have "read_manifest older_codec zero_sha (older_home ''/h/s/installation/manifest.json'') = ValidManifest ''m'' older_manifest"
    by code_simp
  then show ?thesis using plan t m that by simp
qed

lemma older_entries_plain: "\<forall>e \<in> set (mp_entries older_manifest). plain_entry e \<and> me_path e \<noteq> ''/h/s/installation/manifest.json''"
  by code_simp

lemma repair_restores_contents_witness:
  "\<exists>t content. execute_plan no_faults_at_all older_repair \<lparr>fs_files = older_home, fs_ops = 0\<rparr> = (Inr 1, t) \<and>
     older_home ''/h/s/shell/agentkeeper.sh'' = None \<and> fs_files t ''/h/s/shell/agentkeeper.sh'' = Some content"
proof -
  obtain t m where run: "managed_plan older_codec zero_sha sample_options (reads older_home) Repair = Inr older_repair"
    "execute_plan no_faults_at_all older_repair \<lparr>fs_files = older_home, fs_ops = 0\<rparr> = (Inr 1, t)"
    "manifest_path sample_options = Inr m"
    "read_manifest older_codec zero_sha (older_home (ap_value m)) = ValidManifest ''m'' older_manifest"
    by (rule older_repair_runs)
  have "distinct (map me_path (mp_entries older_manifest))" by code_simp
  moreover have "hd (mp_entries older_manifest) \<in> set (mp_entries older_manifest)"
    "me_path (hd (mp_entries older_manifest)) = ''/h/s/shell/agentkeeper.sh''" by code_simp+
  moreover have "older_home ''/h/s/shell/agentkeeper.sh'' = None" by code_simp
  ultimately show ?thesis
    using repair_restores_contents [OF _ run(2,3), of older_codec zero_sha "''m''" older_manifest "hd (mp_entries older_manifest)"]
      run older_entries_plain by auto
qed

lemma repair_never_reconciles_witness:
  "\<exists>t m. execute_plan no_faults_at_all older_repair \<lparr>fs_files = older_home, fs_ops = 0\<rparr> = (Inr 1, t) \<and>
     managed_plan older_codec zero_sha sample_options (reads (fs_files t)) Activate = Inr (failed_plan Activate
       [conflict_at ''configuration-mismatch'' m
          ''Installation options differ from the options recorded by the manifest; run `agentkeeper repair` to reconcile them''])"
proof -
  obtain t m where run: "managed_plan older_codec zero_sha sample_options (reads older_home) Repair = Inr older_repair"
    "execute_plan no_faults_at_all older_repair \<lparr>fs_files = older_home, fs_ops = 0\<rparr> = (Inr 1, t)"
    "manifest_path sample_options = Inr m" "ap_value m = ''/h/s/installation/manifest.json''"
    "read_manifest older_codec zero_sha (older_home (ap_value m)) = ValidManifest ''m'' older_manifest"
    by (rule older_repair_runs)
  have "mp_configuration older_manifest \<noteq> configuration_checksum older_codec zero_sha sample_options" by code_simp
  then show ?thesis
    using repair_never_reconciles [OF _ run(2,3), of older_codec zero_sha "''m''" older_manifest] run older_entries_plain
    by auto
qed

end
