(* ===== verification/Spec2Isabelle.thy ===== *)
theory Spec2Isabelle
  imports Policy Broker Environment Notification Protection Hook Services ProtectInstall Changes
    Decisions AuditLog SeatbeltProfile MonitorTrust WindowsRun Scan ManagedRepair
begin

text \<open>
  AgentKeeper guards the machine of somebody who runs coding agents. It reads repositories for
  files that would run commands or redirect an agent, judges each tool call of an agent before it
  is made, starts agents in a sandbox of the operating system whose policy it builds, watches the
  places where something could make itself persistent, and installs itself. All paths below are
  relative to \<open>src/src\<close>. Everything is a shallow embedding of the TypeScript sources: pure
  functions are HOL functions, \<open>throw\<close> is the left side of a sum (\<open>'a res\<close> in \<open>Prelude\<close>), state
  is passed and returned, and what the event loop can interleave is an \<open>inductive\<close> step relation.

  \<^bold>\<open>Foundations.\<close> \<open>Prelude\<close> has the result type, JavaScript's string functions, the array
  methods with callbacks that may throw (\<open>traverse\<close>) and the lemmas on lists and strings that all
  theories share; \<open>NodePath\<close> the functions of node's \<open>path\<close> module; \<open>Json\<close> the values of
  \<open>JSON.parse\<close>; \<open>Steps\<close> the locale of transition systems, with reachability, invariants and
  measures. \<open>AbsPath\<close> (\<open>domain/value-objects/AbsolutePath.ts\<close>) gives paths in three flavours,
  with containment as a prefix order on segments; \<open>Values\<close> the other value objects; \<open>Patterns\<close>
  (\<open>PathPattern.ts\<close>, \<open>ResourceRef.ts\<close>) the globs, proved equal to their declarative meaning
  for every home but \<open>/\<close>.

  \<^bold>\<open>Policy.\<close> \<open>Sensitive\<close> (\<open>domain/paths\<close>) holds all 56 shipped rows; \<open>Tiers\<close>
  (\<open>domain/policy/AccessTierResolver.ts\<close>) decides about a path and an operation; \<open>Network\<close>
  (\<open>NetworkRule.ts\<close>) about a destination; \<open>Environment\<close> about the variables of a child; \<open>Policy\<close>
  (\<open>Grant.ts\<close>, \<open>DenyRule.ts\<close>, \<open>StarterProfile.ts\<close>, \<open>SandboxPolicy.ts\<close>, \<open>PolicyBuilder.ts\<close>)
  builds the policy of a sandbox. The lemmas show that the deny list refuses exactly what is tier
  2, that only a grant typed by hand opens a tier 2 location, and that a subtree that may be
  granted at run time holds no anchored tier 2 row.

  \<^bold>\<open>Sandboxes.\<close> \<open>Run\<close> (\<open>application/use-cases/RunSandboxed.ts\<close>) is the order of a start as a
  trace of effects. A backend turns the policy into its own language: \<open>Bwrap\<close> into a mount
  table (\<open>infrastructure/sandbox/Bubblewrap*.ts\<close>, \<open>NoopRunner.ts\<close>, \<open>SandboxRunnerFactory.ts\<close>),
  \<open>SeatbeltProfile\<close> into the text of a profile (\<open>Seatbelt*.ts\<close>), \<open>WindowsPlan\<close> into grants and a
  search for refused files (\<open>WindowsPolicyTranslator.ts\<close>, \<open>WindowsReadDenyScanner.ts\<close>),
  \<open>WindowsRequest\<close> and \<open>WindowsRun\<close> into the binary request for the native launcher and the order
  around it (\<open>WindowsSandboxRunner.ts\<close>). For each backend an abstract meaning of what it is given
  (the last mount at or above a path, the last matching rule, the grants less the refused files)
  is related to \<open>policy_allows\<close> of \<open>Policy\<close>: what is open inside, the policy allows, up to the
  exceptions each theorem names. \<open>Broker\<close> (\<open>infrastructure/network\<close>) has the guard of
  destinations and the CONNECT handshake as steps; \<open>Protection\<close>
  (\<open>domain/protection\<close>, \<open>AssessProtection.ts\<close>) the status that is shown.

  \<^bold>\<open>Judging.\<close> \<open>Findings\<close> has findings, reports, rules over any subject, their registry and the
  scan engine. \<open>Shell\<close> (\<open>ShellCommand.ts\<close>, \<open>ToolCall.ts\<close>) and \<open>ToolRules\<close>
  (\<open>domain/rules/toolcall\<close>) judge tool calls; \<open>Artifact\<close> and \<open>ArtifactRules\<close> (\<open>Artifact.ts\<close>,
  \<open>domain/rules/artifact\<close>) the files of a repository; \<open>Persistence\<close> (\<open>BaselineChange.ts\<close>,
  \<open>domain/rules/persistence\<close>) changes of persistence surfaces. Regular expressions are tests on
  texts. \<open>Config\<close> reads the configuration, \<open>Hook\<close> (\<open>EvaluateToolCall.ts\<close>, \<open>HookCommand.ts\<close>) is
  the verdict on a tool call, \<open>Scan\<close> (\<open>ScanWorkspace.ts\<close>) the scan of a repository with its
  drift records, \<open>Decisions\<close> (\<open>GrantAccess.ts\<close>, \<open>ReviewFindings.ts\<close>) what a user answers.

  \<^bold>\<open>State on disk.\<close> \<open>Store\<close> (\<open>infrastructure/store/JsonDocument.ts\<close>, \<open>stores.ts\<close>) has the
  stores of grants, decisions and the baseline over the text of their files; its locales
  \<open>grant_store\<close> and \<open>decision_store\<close> state what the use cases rely on and are interpreted on the
  JSON stores. \<open>Pending\<close> has the bounded files of the daemon and a locale for a store that is
  saved as a whole; \<open>AuditLog\<close> the segments of the audit log with rollover and retention.

  \<^bold>\<open>Monitoring.\<close> \<open>NodeFiles\<close> (\<open>infrastructure/fs/NodeFileSystem.ts\<close>) reads and lists;
  \<open>Baseline\<close> (\<open>presentation/daemon/BaselineCollector.ts\<close>) takes the snapshot; \<open>Monitor\<close>
  (\<open>MonitorPersistence.ts\<close>) is one comparison with the trusted snapshot, \<open>MonitorTrust\<close> what it
  promises over time; \<open>Notification\<close> the budget of notifications.

  \<^bold>\<open>Installing and running.\<close> \<open>JsonSpan\<close>, \<open>ManagedFiles\<close> and \<open>ManagedInstall\<close>
  (\<open>infrastructure/install/ManagedInstallation.ts\<close>) are the planner of an installation: the
  insertion of a hook into a JSON text, the launch scripts and what they quote, the manifest, and
  the plans of activation, repair and deactivation. \<open>ManagedCycle\<close>, \<open>ManagedRestore\<close> and
  \<open>ManagedRepair\<close> compose the plans with their execution: an activation only adds to files, a
  deactivation after it gives back every file, and a repair restores what the manifest records
  but never brings the manifest up to date. \<open>Install\<close>, \<open>ProtectInstall\<close> and \<open>Changes\<close> are the
  transactions over files, Git and services, in which every operation may fail before or after
  its effect; \<open>Services\<close> (\<open>application/services\<close>) has the worker pool, the single-flight
  scheduler, the serial log and the upgrade monitor as state machines.

  \<^bold>\<open>Interfaces.\<close> Where a component relies on another through a contract the contract is a
  locale, and each is interpreted on the model: \<open>containment\<close> on \<open>AbsPath\<close>, \<open>runtime_gate\<close> on
  \<open>Tiers\<close>, the stores on the JSON stores, \<open>codec\<close> and \<open>coding\<close> on the parts of a Windows request, and the
  transition systems on the machines of \<open>Services\<close>.

  \<^bold>\<open>Termination and bounds.\<close> Every loop of the sources is a structural recursion or a
  \<open>function\<close> with a measure, with these exceptions, whose bound is the source's own or the
  length of the input: the walks over directories carry the depth that is left, one more than
  the limit of the code (12, 24 or 8 levels), so that the call that the code refuses is the
  bound's last; the search for HTML comments carries the number of characters, and each step
  consumes at least the four of an opening; the parser of JSON spans carries a depth of twice the
  length of the text, which \<open>span_parse_total\<close> shows to be enough. No theorem speaks of a run that ended early for lack
  of fuel. The worker pool takes at most one step per item. 32-bit fields of the Windows request
  are \<open>32 word\<close>s; other numbers are \<open>int\<close> or \<open>nat\<close>.

  \<^bold>\<open>What the model leaves out.\<close> A JavaScript string is a list of characters up to U+00FF, so
  case mapping, UTF-8 and the invisible characters of a rule are modelled on those, except in the
  request for the Windows launcher, whose texts are lists of UTF-16 units; punctuation of messages beyond them is written in ASCII or as its UTF-8 bytes. Numbers are exact: rounding
  to doubles is not modelled. SHA-256, \<open>JSON.parse\<close> and \<open>JSON.stringify\<close>, dates, name resolution,
  clocks, prompts and processes are parameters, with documented laws as named hypotheses
  (\<open>env_ok\<close>, \<open>sha_ok\<close>, \<open>codec_ok\<close>, \<open>bounded_env_ok\<close>, \<open>segment_names\<close>). Files are replaced in
  one step and no other process writes during an operation.

  Not modelled at all: the descriptors and hooks that the planner of the protection
  (\<open>infrastructure/install/ProtectionInstallation.ts\<close>) adds; the controllers of launchd, systemd
  and the task scheduler and of git; the texts of the integrations with agents; the probes that start
  programs in a sandbox or open sockets; the watchers and their timers; the adapters, the
  resolution of links, the command line around the use cases and the native launcher, which is
  not TypeScript. These are input and output whose answers the modelled parts take as parameters.
\<close>

end
